(* ===== verification/Prelude.thy ===== *)
theory Prelude
  imports
    Main
    "HOL-Library.AList"
    "HOL-Library.Char_ord"
    "HOL-Library.List_Lexorder"
    "HOL-Library.Multiset"
    "HOL-Library.Sublist"
begin

text \<open>
  Shared vocabulary of the development: the Python exceptions the modelled code raises, the
  insertion-ordered \<^verbatim>\<open>dict\<close> as an association list, the iteration-ordered
  \<^verbatim>\<open>set\<close> as a list without duplicates, the string methods the code calls, and the
  interface \<open>dict_spec\<close> that every key/value store of the development is an instance of.
  A string is a list of characters, that is of code points below 256.
\<close>

named_theorems dict_simps \<open>lookup and membership rules of ordered dictionaries\<close>
named_theorems pyset_simps \<open>membership rules of iteration-ordered sets\<close>

section \<open>Exceptions and results\<close>

text \<open>
  The exceptions the modelled code raises. \<open>BBFatal\<close> is \<^verbatim>\<open>bb.fatal\<close> and
  \<^verbatim>\<open>bb.msg.fatal\<close>, \<open>PyError\<close> one that code of the metadata raises, and
  \<open>ExpansionError\<close> has the variable, the expression, its cause and the chain of variables;
  \<open>SyntaxError\<close> tells whether a string literal was not terminated; \<open>OutOfModel\<close> is no exception of the code but marks an input the
  model does not cover.
\<close>

datatype pyexc =
    AttributeError
  | IndexError
  | KeyError string
  | TypeError
  | ValueError
  | RecursionError
  | VersionStringException string
  | NoProvider string
  | NoRProvider string
  | MultipleRProvider string
  | ParseError string
  | BBFatal string
  | RegexError string
  | RuntimeError
  | SyntaxError bool
  | PyError string
  | SkipRecipe
  | ExpansionError "string option" string pyexc "string list"
  | OSError
  | OutOfModel

type_synonym 'a result = "pyexc + 'a"

definition bindE :: "'a result \<Rightarrow> ('a \<Rightarrow> 'b result) \<Rightarrow> 'b result" where
  "bindE m f = (case m of Inl e \<Rightarrow> Inl e | Inr x \<Rightarrow> f x)"

lemma bindE_simps [simp]:
  "bindE (Inl e) f = Inl e"
  "bindE (Inr x) f = f x"
  by (simp_all add: bindE_def)

lemma bindE_eq_Inr: "bindE m f = Inr y \<longleftrightarrow> (\<exists>x. m = Inr x \<and> f x = Inr y)"
  by (cases m) simp_all

lemma bindE_cong [fundef_cong]:
  "m = m' \<Longrightarrow> (\<And>x. m' = Inr x \<Longrightarrow> f x = f' x) \<Longrightarrow> bindE m f = bindE m' f'"
  by (cases m') simp_all

text \<open>A \<^verbatim>\<open>for\<close> loop over a list that stops at the first exception.\<close>

fun foldE :: "('a \<Rightarrow> 's \<Rightarrow> 's result) \<Rightarrow> 'a list \<Rightarrow> 's \<Rightarrow> 's result" where
  "foldE f [] s = Inr s"
| "foldE f (x # xs) s = bindE (f x s) (foldE f xs)"

lemma foldE_append: "foldE f (xs @ ys) s = bindE (foldE f xs s) (foldE f ys)"
proof (induction xs arbitrary: s)
  case (Cons x xs)
  then show ?case by (cases "f x s") simp_all
qed simp

lemma foldE_invariant:
  assumes "foldE f xs s = Inr t" and "P s"
    and "\<And>x s s'. x \<in> set xs \<Longrightarrow> P s \<Longrightarrow> f x s = Inr s' \<Longrightarrow> P s'"
  shows "P t"
  using assms by (induction xs arbitrary: s) (auto simp: bindE_eq_Inr)

lemma foldE_total:
  assumes "\<And>x s. x \<in> set xs \<Longrightarrow> \<exists>t. f x s = Inr t"
  shows "\<exists>t. foldE f xs s = Inr t"
  using assms
proof (induction xs arbitrary: s)
  case (Cons x xs)
  then obtain t where "f x s = Inr t" by fastforce
  with Cons show ?case by simp
qed simp

lemma fold_invariant_mem:
  assumes "P s" and "\<And>x s. x \<in> set xs \<Longrightarrow> P s \<Longrightarrow> P (f x s)"
  shows "P (fold f xs s)"
  using assms by (induction xs arbitrary: s) auto

text \<open>
  Code that changes a state and may raise: the state reached is kept when an exception leaves the
  code, because a handler further up continues with it.
\<close>

type_synonym ('s, 'a) sx = "'s \<Rightarrow> 'a result \<times> 's"

definition retX :: "'a \<Rightarrow> ('s, 'a) sx" where
  "retX x s = (Inr x, s)"

definition raiseX :: "pyexc \<Rightarrow> ('s, 'a) sx" where
  "raiseX e s = (Inl e, s)"

definition bindX :: "('s, 'a) sx \<Rightarrow> ('a \<Rightarrow> ('s, 'b) sx) \<Rightarrow> ('s, 'b) sx" where
  "bindX m f s = (case m s of (Inl e, t) \<Rightarrow> (Inl e, t) | (Inr x, t) \<Rightarrow> f x t)"

definition liftX :: "'a result \<Rightarrow> ('s, 'a) sx" where
  "liftX r s = (r, s)"

fun forX :: "('a \<Rightarrow> ('s, unit) sx) \<Rightarrow> 'a list \<Rightarrow> ('s, unit) sx" where
  "forX f [] s = (Inr (), s)"
| "forX f (x # xs) s = bindX (f x) (\<lambda>_. forX f xs) s"

lemma bindX_Inr: "bindX m f s = (Inr y, u) \<longleftrightarrow> (\<exists>x t. m s = (Inr x, t) \<and> f x t = (Inr y, u))"
  by (auto simp: bindX_def split: prod.splits sum.splits)

lemma bindX_Inl: "bindX m f s = (Inl e, u) \<longleftrightarrow>
    m s = (Inl e, u) \<or> (\<exists>x t. m s = (Inr x, t) \<and> f x t = (Inl e, u))"
  by (auto simp: bindX_def split: prod.splits sum.splits)

lemma retX_simps [simp]:
  "retX x s = (r, t) \<longleftrightarrow> r = Inr x \<and> t = s"
  "raiseX e s = (r, t) \<longleftrightarrow> r = Inl e \<and> t = s"
  "liftX q s = (r, t) \<longleftrightarrow> r = q \<and> t = s"
  by (auto simp: retX_def raiseX_def liftX_def)

lemma forX_step: "forX f (x # xs) s = (Inr (), u) \<longleftrightarrow>
    (\<exists>t. f x s = (Inr (), t) \<and> forX f xs t = (Inr (), u))"
  by (simp add: bindX_Inr)

text \<open>An invariant of a loop, whether it ends normally or with an exception.\<close>

lemma forX_invariant:
  assumes "forX f xs s = (r, t)" and "P s"
    and "\<And>x s r t. x \<in> set xs \<Longrightarrow> P s \<Longrightarrow> f x s = (r, t) \<Longrightarrow> P t"
  shows "P t"
  using assms
proof (induction xs arbitrary: s)
  case (Cons x xs)
  obtain q u where u: "f x s = (q, u)" by (cases "f x s")
  with Cons.prems have "P u" by force
  show ?case
  proof (cases q)
    case (Inl e)
    with Cons.prems(1) u \<open>P u\<close> show ?thesis by (simp add: bindX_def)
  next
    case (Inr a)
    with Cons.prems(1) u have "forX f xs u = (r, t)" by (simp add: bindX_def)
    then show ?thesis
      by (rule Cons.IH [OF _ \<open>P u\<close>]) (rule Cons.prems(3), simp_all)
  qed
qed simp

text \<open>What holds of one step and is transitive holds of a loop that ends normally.\<close>

lemma forX_trans:
  assumes "forX f xs s = (r, t)" and "\<And>s. R s s" and "\<And>s t u. R s t \<Longrightarrow> R t u \<Longrightarrow> R s u"
    and "\<And>x s r t. x \<in> set xs \<Longrightarrow> f x s = (r, t) \<Longrightarrow> R s t"
  shows "R s t"
  using assms(1) forX_invariant [of f xs s r t "R s"] assms(2-4) by blast

lemma forX_Inl:
  assumes "forX f xs s = (Inl e, u)" and "\<And>s. R s s" and "\<And>s t u. R s t \<Longrightarrow> R t u \<Longrightarrow> R s u"
    and "\<And>x s r t. x \<in> set xs \<Longrightarrow> f x s = (r, t) \<Longrightarrow> R s t"
  shows "\<exists>x \<in> set xs. \<exists>t. R s t \<and> f x t = (Inl e, u)"
  using assms(1,4)
proof (induction xs arbitrary: s)
  case (Cons x xs)
  show ?case
  proof (cases "f x s = (Inl e, u)")
    case True
    then show ?thesis using assms(2) by auto
  next
    case False
    with Cons.prems(1) obtain t where t: "f x s = (Inr (), t)" "forX f xs t = (Inl e, u)"
      by (auto simp: bindX_Inl)
    have "\<exists>x \<in> set xs. \<exists>v. R t v \<and> f x v = (Inl e, u)"
      by (rule Cons.IH [OF t(2)]) (rule Cons.prems(2), simp_all)
    moreover have "R s t" using Cons.prems(2) t(1) by auto
    ultimately show ?thesis using assms(3) by auto
  qed
qed simp

lemma forX_reaches:
  assumes "forX f xs s = (Inr (), t)" and "x \<in> set xs"
  shows "\<exists>u v ys zs. xs = ys @ x # zs \<and> forX f ys s = (Inr (), u) \<and> f x u = (Inr (), v) \<and>
     forX f zs v = (Inr (), t)"
  using assms
proof (induction xs arbitrary: s)
  case (Cons y xs)
  then obtain u where u: "f y s = (Inr (), u)" "forX f xs u = (Inr (), t)"
    by (auto simp: bindX_Inr)
  show ?case
  proof (cases "x = y")
    case True
    with u show ?thesis
      by (intro exI [of _ s] exI [of _ u] exI [of _ "[]"] exI [of _ xs]) auto
  next
    case False
    with Cons u obtain v w ys zs where "xs = ys @ x # zs" "forX f ys u = (Inr (), v)"
      "f x v = (Inr (), w)" "forX f zs w = (Inr (), t)" by fastforce
    with u show ?thesis
      by (intro exI [of _ v] exI [of _ w] exI [of _ "y # ys"] exI [of _ zs]) (auto simp: bindX_Inr)
  qed
qed simp

section \<open>Insertion-ordered dictionaries\<close>

text \<open>
  A Python \<^verbatim>\<open>dict\<close> iterates over its keys in insertion order, and a store to a present
  key keeps that key's place: that is \<open>AList.update\<close>.
\<close>

type_synonym ('k, 'v) odict = "('k \<times> 'v) list"

abbreviation dget :: "('k, 'v) odict \<Rightarrow> 'k \<Rightarrow> 'v option" where
  "dget d k \<equiv> map_of d k"

abbreviation dset :: "'k \<Rightarrow> 'v \<Rightarrow> ('k, 'v) odict \<Rightarrow> ('k, 'v) odict" where
  "dset k v d \<equiv> AList.update k v d"

abbreviation ddel :: "'k \<Rightarrow> ('k, 'v) odict \<Rightarrow> ('k, 'v) odict" where
  "ddel k d \<equiv> AList.delete k d"

abbreviation dkeys :: "('k, 'v) odict \<Rightarrow> 'k list" where
  "dkeys d \<equiv> map fst d"

definition dhas :: "('k, 'v) odict \<Rightarrow> 'k \<Rightarrow> bool" where
  "dhas d k \<longleftrightarrow> k \<in> fst ` set d"

definition dget_default :: "('k, 'v) odict \<Rightarrow> 'k \<Rightarrow> 'v \<Rightarrow> 'v" where
  "dget_default d k v = (case dget d k of None \<Rightarrow> v | Some w \<Rightarrow> w)"

text \<open>\<open>d[k]\<close>, raising KeyError when the key is absent.\<close>

definition dindex :: "(string, 'v) odict \<Rightarrow> string \<Rightarrow> 'v result" where
  "dindex d k = (case dget d k of None \<Rightarrow> Inl (KeyError k) | Some v \<Rightarrow> Inr v)"

lemma dindex_eq_Inr: "dindex d k = Inr v \<longleftrightarrow> dget d k = Some v"
  by (simp add: dindex_def split: option.splits)

lemma dhas_index: "dhas d k \<Longrightarrow> \<exists>v. dindex d k = Inr v"
  by (auto simp: dhas_def dindex_def map_of_eq_None_iff image_iff split: option.splits)

lemma dhas_iff: "dhas d k \<longleftrightarrow> dget d k \<noteq> None"
  by (simp add: dhas_def map_of_eq_None_iff)

lemma dget_dset [dict_simps]: "dget (dset k v d) j = (if j = k then Some v else dget d j)"
  by (simp add: update_conv')

lemma dget_ddel [dict_simps]: "dget (ddel k d) j = (if j = k then None else dget d j)"
  by (simp add: delete_conv')

lemma distinct_dset [dict_simps]: "distinct (dkeys d) \<Longrightarrow> distinct (dkeys (dset k v d))"
  by (rule distinct_update)

lemma distinct_ddel [dict_simps]: "distinct (dkeys d) \<Longrightarrow> distinct (dkeys (ddel k d))"
  by (rule distinct_delete)

lemma keys_dset [dict_simps]: "set (dkeys (dset k v d)) = insert k (set (dkeys d))"
  using dom_update [of k v d] by (simp add: dom_map_of_conv_image_fst image_image)

lemma dkeys_dset_present: "k \<in> set (dkeys d) \<Longrightarrow> dkeys (dset k v d) = dkeys d"
  by (induction d) auto

lemma dkeys_dset_absent: "k \<notin> set (dkeys d) \<Longrightarrow> dkeys (dset k v d) = dkeys d @ [k]"
  by (induction d) auto

lemma dset_absent: "k \<notin> set (dkeys d) \<Longrightarrow> dset k v d = d @ [(k, v)]"
  by (induction d) auto

lemma dset_dset [simp]: "dset k v (dset k u d) = dset k v d"
  by (induction d) auto

lemma dget_default_dset_other: "j \<noteq> k \<Longrightarrow> dget_default (dset k v d) j w = dget_default d j w"
  by (simp add: dget_default_def dget_dset)

lemma dget_default_dset [simp]: "dget_default (dset k v d) k w = v"
  by (simp add: dget_default_def dget_dset)

lemma dget_default_dset_if [dict_simps]:
  "dget_default (dset k v d) j w = (if j = k then v else dget_default d j w)"
  by (simp add: dget_default_def dget_dset)

lemma dget_default_simps [simp]:
  "dget d k = Some v \<Longrightarrow> dget_default d k w = v"
  "dget d k = None \<Longrightarrow> dget_default d k w = w"
  by (simp_all add: dget_default_def)

subsection \<open>The interface of a key/value store\<close>

text \<open>
  What the code relies on when it holds a dictionary, whatever its representation: a lookup
  after a store or a deletion is the lookup in the updated map, and the operations keep the
  representation invariant.
\<close>

locale dict_spec =
  fixes empty :: "'m"
    and lookup :: "'m \<Rightarrow> 'k \<Rightarrow> 'v option"
    and store :: "'k \<Rightarrow> 'v \<Rightarrow> 'm \<Rightarrow> 'm"
    and remove :: "'k \<Rightarrow> 'm \<Rightarrow> 'm"
    and ok :: "'m \<Rightarrow> bool"
  assumes ok_empty: "ok empty"
    and ok_store: "ok m \<Longrightarrow> ok (store k v m)"
    and ok_remove: "ok m \<Longrightarrow> ok (remove k m)"
    and lookup_empty: "lookup empty = Map.empty"
    and lookup_store: "ok m \<Longrightarrow> lookup (store k v m) = (lookup m)(k \<mapsto> v)"
    and lookup_remove: "ok m \<Longrightarrow> lookup (remove k m) = (lookup m)(k := None)"
begin

fun store_all :: "('k \<times> 'v) list \<Rightarrow> 'm \<Rightarrow> 'm" where
  "store_all [] m = m"
| "store_all ((k, v) # kvs) m = store_all kvs (store k v m)"

lemma ok_store_all: "ok m \<Longrightarrow> ok (store_all kvs m)"
  by (induction kvs m rule: store_all.induct) (auto simp: ok_store)

lemma lookup_store_all: "ok m \<Longrightarrow> lookup (store_all kvs m) = lookup m ++ map_of (rev kvs)"
  by (induction kvs m rule: store_all.induct)
    (auto simp: ok_store lookup_store map_add_def fun_eq_iff split: option.splits)

lemma store_remove_other:
  "ok m \<Longrightarrow> j \<noteq> k \<Longrightarrow> lookup (store k v (remove j m)) = lookup (remove j (store k v m))"
  by (simp add: lookup_store lookup_remove ok_store ok_remove fun_upd_twist)

lemma store_store_same: "ok m \<Longrightarrow> lookup (store k w (store k v m)) = lookup (store k w m)"
  by (simp add: lookup_store ok_store)

end

interpretation od: dict_spec "[]" map_of AList.update AList.delete "\<lambda>d. distinct (map fst d)"
  by unfold_locales (simp_all add: distinct_update distinct_delete update_conv' delete_conv')

section \<open>Iteration-ordered sets\<close>

text \<open>
  A Python \<^verbatim>\<open>set\<close> whose iteration order can be observed is a list without duplicates:
  the order of the list is the order in which a loop visits the elements.
\<close>

definition sadd :: "'a \<Rightarrow> 'a list \<Rightarrow> 'a list" where
  "sadd x xs = (if x \<in> set xs then xs else xs @ [x])"

definition supdate :: "'a list \<Rightarrow> 'a list \<Rightarrow> 'a list" where
  "supdate xs ys = fold sadd ys xs"

definition sdiscard :: "'a \<Rightarrow> 'a list \<Rightarrow> 'a list" where
  "sdiscard x xs = filter (\<lambda>y. y \<noteq> x) xs"

definition sdiff :: "'a list \<Rightarrow> 'a list \<Rightarrow> 'a list" where
  "sdiff xs ys = filter (\<lambda>x. x \<notin> set ys) xs"

definition sinter :: "'a list \<Rightarrow> 'a list \<Rightarrow> 'a list" where
  "sinter xs ys = filter (\<lambda>x. x \<in> set ys) xs"

lemma set_sadd [simp, pyset_simps]: "set (sadd x xs) = insert x (set xs)"
  by (auto simp: sadd_def)

lemma set_supdate [simp, pyset_simps]: "set (supdate xs ys) = set xs \<union> set ys"
  by (induction ys arbitrary: xs) (auto simp: supdate_def)

lemma set_sdiscard [simp, pyset_simps]: "set (sdiscard x xs) = set xs - {x}"
  by (auto simp: sdiscard_def)

lemma set_sdiff [simp, pyset_simps]: "set (sdiff xs ys) = set xs - set ys"
  by (auto simp: sdiff_def)

lemma set_sinter [simp, pyset_simps]: "set (sinter xs ys) = set xs \<inter> set ys"
  by (auto simp: sinter_def)

lemma distinct_sadd [simp]: "distinct (sadd x xs) = distinct xs"
  by (simp add: sadd_def)

lemma distinct_supdate [simp]: "distinct (supdate xs ys) = distinct xs"
  by (induction ys arbitrary: xs) (auto simp: supdate_def)

lemma distinct_sdiscard [simp]: "distinct xs \<Longrightarrow> distinct (sdiscard x xs)"
  by (simp add: sdiscard_def)

lemma distinct_sdiff [simp]: "distinct xs \<Longrightarrow> distinct (sdiff xs ys)"
  by (simp add: sdiff_def)

lemma distinct_sinter [simp]: "distinct xs \<Longrightarrow> distinct (sinter xs ys)"
  by (simp add: sinter_def)

section \<open>Sorting and grouping\<close>

lemma sort_key_groups:
  fixes k :: "'a \<Rightarrow> 'b::linorder"
  shows "concat (map (\<lambda>x. filter (\<lambda>f. k f = x) fs) (sorted_list_of_set (k ` set fs))) = sort_key k fs"
proof (rule sym, rule properties_for_sort_key)
  let ?ks = "sorted_list_of_set (k ` set fs)"
  have groups: "filter (\<lambda>f. k f = y) (concat (map (\<lambda>x. filter (\<lambda>f. k f = x) fs) xs)) =
      (if y \<in> set xs then filter (\<lambda>f. k f = y) fs else [])" if "distinct xs" for xs y
    using that by (induction xs) (auto simp: filter_empty_conv intro!: filter_cong)
  show "filter (\<lambda>f. k x = k f) (concat (map (\<lambda>x. filter (\<lambda>f. k f = x) fs) ?ks)) =
      filter (\<lambda>f. k x = k f) fs"
    if "x \<in> set (concat (map (\<lambda>x. filter (\<lambda>f. k f = x) fs) ?ks))" for x
    using groups [of ?ks "k x"] that by (auto simp: eq_commute [of "k x"])
  have "sorted (map k (filter (\<lambda>f. k f = x) fs'))" for x fs'
    by (induction fs') auto
  then have "sorted (map k (concat (map (\<lambda>x. filter (\<lambda>f. k f = x) fs) xs)))"
    if "sorted xs" for xs
    using that by (induction xs) (auto simp: sorted_append)
  then show "sorted (map k (concat (map (\<lambda>x. filter (\<lambda>f. k f = x) fs) ?ks)))" by simp
  have none: "filter (\<lambda>f. k f = k a) fs = []" if "k a \<notin> k ` set fs" for a
    using that by (auto simp: filter_empty_conv intro: rev_image_eqI)
  show "mset (concat (map (\<lambda>x. filter (\<lambda>f. k f = x) fs) ?ks)) = mset fs"
  proof (rule multiset_eqI)
    fix a
    have "count (mset fs') a = count (mset (filter (\<lambda>f. k f = k a) fs')) a" for fs'
      by simp
    moreover have "filter (\<lambda>f. k f = k a) (concat (map (\<lambda>x. filter (\<lambda>f. k f = x) fs) ?ks)) =
        filter (\<lambda>f. k f = k a) fs"
      using groups [of ?ks "k a"] none [of a] by simp
    ultimately show "count (mset (concat (map (\<lambda>x. filter (\<lambda>f. k f = x) fs) ?ks))) a = count (mset fs) a"
      by metis
  qed
qed

lemma fold_cons_map: "fold (\<lambda>x acc. h x # acc) xs acc = rev (map h xs) @ acc"
  by (induction xs arbitrary: acc) auto

lemma fold_append_map: "fold (\<lambda>x acc. acc @ h x) xs acc = acc @ concat (map h xs)"
  by (induction xs arbitrary: acc) auto

lemma sort_distinct: "distinct xs \<Longrightarrow> sort xs = sorted_list_of_set (set xs)"
  by (simp add: sorted_list_of_set_sort_remdups distinct_remdups_id)

section \<open>Unset values\<close>

text \<open>\<^verbatim>\<open>not v\<close> for a value that is \<^verbatim>\<open>None\<close> or a string.\<close>

definition unset :: "string option \<Rightarrow> bool" where
  "unset v \<longleftrightarrow> v = None \<or> v = Some []"

lemma dindex_has: "dhas d k \<Longrightarrow> dindex d k = Inr (the (dget d k))"
  by (auto simp: dhas_iff dindex_def)

end
