(* ===== verification/Strings.thy ===== *)
theory Strings
  imports Prelude
begin

text \<open>
  The Python string methods the modelled code calls: \<^verbatim>\<open>split\<close>, \<^verbatim>\<open>rsplit\<close>,
  \<^verbatim>\<open>strip\<close>, \<^verbatim>\<open>replace\<close>, \<^verbatim>\<open>startswith\<close>, \<^verbatim>\<open>endswith\<close>,
  \<^verbatim>\<open>join\<close>, \<^verbatim>\<open>int\<close>, with the lemmas that relate them.
\<close>

section \<open>Character classes\<close>

definition is_space :: "char \<Rightarrow> bool" where
  "is_space c = (let n = of_char c :: nat in
     n = 32 \<or> (9 \<le> n \<and> n \<le> 13) \<or> (28 \<le> n \<and> n \<le> 31) \<or> n = 133 \<or> n = 160)"

definition is_digit :: "char \<Rightarrow> bool" where
  "is_digit c = (let n = of_char c :: nat in 48 \<le> n \<and> n \<le> 57)"

definition is_lower :: "char \<Rightarrow> bool" where
  "is_lower c = (let n = of_char c :: nat in 97 \<le> n \<and> n \<le> 122)"

definition is_upper :: "char \<Rightarrow> bool" where
  "is_upper c = (let n = of_char c :: nat in 65 \<le> n \<and> n \<le> 90)"

definition is_letter :: "char \<Rightarrow> bool" where
  "is_letter c \<longleftrightarrow> is_lower c \<or> is_upper c"

definition digit_val :: "char \<Rightarrow> int" where
  "digit_val c = int (of_char c) - 48"

abbreviation newline :: char where
  "newline \<equiv> CHR 0x0A"

definition colon :: char where "colon = CHR '':''"

section \<open>Splitting and joining\<close>

text \<open>\<open>s.split()\<close>: the maximal runs of non-space characters.\<close>

fun split_ws_from :: "string \<Rightarrow> string \<Rightarrow> string list" where
  "split_ws_from w [] = (if w = [] then [] else [w])"
| "split_ws_from w (c # cs) =
     (if is_space c then (if w = [] then [] else [w]) @ split_ws_from [] cs
      else split_ws_from (w @ [c]) cs)"

definition split_ws :: "string \<Rightarrow> string list" where
  "split_ws s = split_ws_from [] s"

text \<open>\<open>s.split(sep)\<close> for a one-character separator.\<close>

fun split_on :: "char \<Rightarrow> string \<Rightarrow> string list" where
  "split_on sep [] = [[]]"
| "split_on sep (c # cs) =
     (if c = sep then [] # split_on sep cs
      else (c # hd (split_on sep cs)) # tl (split_on sep cs))"

text \<open>\<open>sep.join(ws)\<close>.\<close>

fun join :: "string \<Rightarrow> string list \<Rightarrow> string" where
  "join sep [] = []"
| "join sep [w] = w"
| "join sep (w # ws) = w @ sep @ join sep ws"

text \<open>\<open>s.rsplit(sep, 1)\<close>: one or two parts.\<close>

definition after_last :: "char \<Rightarrow> string \<Rightarrow> string" where
  "after_last sep s = rev (takeWhile (\<lambda>c. c \<noteq> sep) (rev s))"

definition before_last :: "char \<Rightarrow> string \<Rightarrow> string" where
  "before_last sep s = rev (tl (dropWhile (\<lambda>c. c \<noteq> sep) (rev s)))"

definition rsplit1 :: "char \<Rightarrow> string \<Rightarrow> string list" where
  "rsplit1 sep s = (if sep \<in> set s then [before_last sep s, after_last sep s] else [s])"

text \<open>\<open>s.split(sep, 1)\<close>: the part before the first separator, and the rest if there is one.\<close>

definition before_first :: "char \<Rightarrow> string \<Rightarrow> string" where
  "before_first sep s = takeWhile (\<lambda>c. c \<noteq> sep) s"

definition after_first :: "char \<Rightarrow> string \<Rightarrow> string" where
  "after_first sep s = tl (dropWhile (\<lambda>c. c \<noteq> sep) s)"

definition startswith :: "string \<Rightarrow> string \<Rightarrow> bool" where
  "startswith s p = (take (length p) s = p)"

definition endswith :: "string \<Rightarrow> string \<Rightarrow> bool" where
  "endswith s p = (length p \<le> length s \<and> drop (length s - length p) s = p)"

definition strip_chars :: "string \<Rightarrow> string \<Rightarrow> string" where
  "strip_chars cs s =
     rev (dropWhile (\<lambda>c. c \<in> set cs) (rev (dropWhile (\<lambda>c. c \<in> set cs) s)))"

definition strip_ws :: "string \<Rightarrow> string" where
  "strip_ws s = rev (dropWhile is_space (rev (dropWhile is_space s)))"

text \<open>\<open>needle in s\<close> and \<open>s.replace(old, new)\<close>, for a non-empty needle.\<close>

fun contains_str :: "string \<Rightarrow> string \<Rightarrow> bool" where
  "contains_str p [] = (p = [])"
| "contains_str p (c # cs) = (startswith (c # cs) p \<or> contains_str p cs)"

text \<open>
  The counter holds the characters of a match that are still to be skipped, so that matches
  do not overlap.
\<close>

fun replace_from :: "nat \<Rightarrow> string \<Rightarrow> string \<Rightarrow> string \<Rightarrow> string" where
  "replace_from n old new [] = []"
| "replace_from (Suc n) old new (c # cs) = replace_from n old new cs"
| "replace_from 0 old new (c # cs) =
     (if startswith (c # cs) old then new @ replace_from (length old - 1) old new cs
      else c # replace_from 0 old new cs)"

definition replace_str :: "string \<Rightarrow> string \<Rightarrow> string \<Rightarrow> string" where
  "replace_str old new s = replace_from 0 old new s"

section \<open>Decimal integers\<close>

fun digits_val :: "int \<Rightarrow> string \<Rightarrow> int" where
  "digits_val n [] = n"
| "digits_val n (c # cs) = digits_val (10 * n + digit_val c) cs"

text \<open>
  The digits of an integer literal: digits, with single underscores between them; the flag
  says that an underscore may follow.
\<close>

fun int_digits :: "bool \<Rightarrow> int \<Rightarrow> string \<Rightarrow> int option" where
  "int_digits d n [] = (if d then Some n else None)"
| "int_digits d n (c # cs) =
     (if is_digit c then int_digits True (10 * n + digit_val c) cs
      else if c = CHR ''_'' \<and> d then int_digits False n cs
      else None)"

definition py_int :: "string \<Rightarrow> int result" where
  "py_int s = (case strip_ws s of
      [] \<Rightarrow> Inl ValueError
    | c # cs \<Rightarrow>
        (case (if c = CHR ''-'' then map_option uminus (int_digits False 0 cs)
               else if c = CHR ''+'' then int_digits False 0 cs
               else int_digits False 0 (c # cs)) of
           None \<Rightarrow> Inl ValueError
         | Some n \<Rightarrow> Inr n))"

section \<open>Lemmas\<close>

lemma takeWhile_upto: "x \<notin> set a \<Longrightarrow> takeWhile (\<lambda>c. c \<noteq> x) (a @ x # b) = a"
  by (induction a) auto

lemma dropWhile_upto: "x \<notin> set a \<Longrightarrow> dropWhile (\<lambda>c. c \<noteq> x) (a @ x # b) = x # b"
  by (induction a) auto

lemma first_split_unique:
  "x \<notin> set a \<Longrightarrow> before_first x (a @ x # b) = a"
  "x \<notin> set a \<Longrightarrow> after_first x (a @ x # b) = b"
  by (simp_all add: before_first_def after_first_def takeWhile_upto dropWhile_upto)

lemma split_on_nonempty [simp]: "split_on sep s \<noteq> []"
  by (cases s) auto

lemma join_Cons: "ws \<noteq> [] \<Longrightarrow> join sep (w # ws) = w @ sep @ join sep ws"
  by (cases ws) auto

lemma join_split_on: "join [sep] (split_on sep s) = s"
proof (induction s)
  case (Cons c cs)
  obtain w ws where "split_on sep cs = w # ws"
    using split_on_nonempty by (cases "split_on sep cs") blast+
  with Cons show ?case by (cases ws) (auto simp: join_Cons)
qed simp

lemma split_on_no_sep: "w \<in> set (split_on sep s) \<Longrightarrow> sep \<notin> set w"
proof (induction s arbitrary: w)
  case (Cons c cs)
  obtain x xs where x: "split_on sep cs = x # xs"
    using split_on_nonempty by (cases "split_on sep cs") blast+
  with Cons show ?case by (auto split: if_splits)
qed simp

lemma length_split_on: "length (split_on sep s) = Suc (count_list s sep)"
  by (induction s) auto

lemma split_on_absent: "sep \<notin> set s \<Longrightarrow> split_on sep s = [s]"
  by (induction s) auto

lemma split_on_append_sep:
  "split_on sep (a @ sep # b) = split_on sep a @ split_on sep b"
proof (induction a)
  case (Cons c cs)
  then show ?case by auto
qed simp

lemma split_on_join:
  assumes "ws \<noteq> []" and "\<And>w. w \<in> set ws \<Longrightarrow> sep \<notin> set w"
  shows "split_on sep (join [sep] ws) = ws"
  using assms
proof (induction ws)
  case (Cons w ws)
  then show ?case
    by (cases "ws = []") (auto simp: join_Cons split_on_absent split_on_append_sep)
qed simp

lemma before_after_last: "sep \<in> set s \<Longrightarrow> before_last sep s @ sep # after_last sep s = s"
proof -
  assume "sep \<in> set s"
  then have "dropWhile (\<lambda>c. c \<noteq> sep) (rev s) \<noteq> []" by (auto simp: dropWhile_eq_Nil_conv)
  moreover from this have "hd (dropWhile (\<lambda>c. c \<noteq> sep) (rev s)) = sep"
    using hd_dropWhile by blast
  ultimately have "rev s = takeWhile (\<lambda>c. c \<noteq> sep) (rev s)
      @ sep # tl (dropWhile (\<lambda>c. c \<noteq> sep) (rev s))"
    by (metis list.collapse takeWhile_dropWhile_id)
  then show ?thesis
    unfolding before_last_def after_last_def
    by (metis rev_append rev.simps(2) append.assoc append_Cons append_Nil rev_rev_ident)
qed

lemma after_last_no_sep: "sep \<notin> set (after_last sep s)"
  by (auto simp: after_last_def dest: set_takeWhileD)

lemma last_split_unique:
  assumes "sep \<notin> set b"
  shows "before_last sep (a @ sep # b) = a" "after_last sep (a @ sep # b) = b"
proof -
  have t: "takeWhile (\<lambda>c. c \<noteq> sep) (rev b @ sep # rev a) = rev b"
    using assms by (simp add: takeWhile_upto)
  have d: "dropWhile (\<lambda>c. c \<noteq> sep) (rev b @ sep # rev a) = sep # rev a"
    using assms by (simp add: dropWhile_upto)
  show "before_last sep (a @ sep # b) = a" "after_last sep (a @ sep # b) = b"
    using t d by (simp_all add: before_last_def after_last_def)
qed

lemma rsplit1_append: "sep \<notin> set b \<Longrightarrow> rsplit1 sep (a @ sep # b) = [a, b]"
  by (simp add: rsplit1_def last_split_unique)

lemma startswith_append [simp]: "startswith (p @ s) p"
  by (simp add: startswith_def)

lemma startswith_iff: "startswith s p \<longleftrightarrow> (\<exists>t. s = p @ t)"
  by (metis append_take_drop_id startswith_append startswith_def)

lemma endswith_iff: "endswith s p \<longleftrightarrow> (\<exists>t. s = t @ p)"
proof
  assume "endswith s p"
  then show "\<exists>t. s = t @ p"
    by (metis append_take_drop_id endswith_def)
qed (auto simp: endswith_def)

lemma before_after_first: "sep \<in> set s \<Longrightarrow> before_first sep s @ sep # after_first sep s = s"
proof (induction s)
  case (Cons c cs)
  then show ?case by (auto simp: before_first_def after_first_def)
qed simp

lemma split_ws_from_words:
  "u \<in> set (split_ws_from w s) \<Longrightarrow> (\<forall>c \<in> set w. \<not> is_space c) \<Longrightarrow> u \<noteq> [] \<and> (\<forall>c \<in> set u. \<not> is_space c)"
  by (induction w s rule: split_ws_from.induct) (auto split: if_splits)

lemma split_ws_words: "u \<in> set (split_ws s) \<Longrightarrow> u \<noteq> [] \<and> (\<forall>c \<in> set u. \<not> is_space c)"
  unfolding split_ws_def by (rule split_ws_from_words) auto

lemma Nil_notin_split_ws [simp]: "[] \<notin> set (split_ws s)"
  using split_ws_words by blast

lemma split_ws_from_word:
  assumes "\<forall>c \<in> set u. \<not> is_space c"
  shows "split_ws_from w (u @ s) = split_ws_from (w @ u) s"
  using assms by (induction u arbitrary: w) auto

lemma split_ws_Nil [simp]: "split_ws [] = []"
  by (simp add: split_ws_def)

lemma is_space_blank [simp]: "is_space (CHR '' '')"
  by (simp add: is_space_def)

lemma split_ws_single: "u \<noteq> [] \<Longrightarrow> \<forall>c \<in> set u. \<not> is_space c \<Longrightarrow> split_ws u = [u]"
  using split_ws_from_word [of u "[]" "[]"] by (simp add: split_ws_def)

lemma split_ws_Cons:
  assumes "u \<noteq> []" "\<forall>c \<in> set u. \<not> is_space c"
  shows "split_ws (u @ CHR '' '' # s) = u # split_ws s"
  using assms split_ws_from_word [of u "[]" "CHR '' '' # s"] by (simp add: split_ws_def)

text \<open>Splitting undoes joining words with a blank.\<close>

lemma split_ws_join:
  assumes "\<And>w. w \<in> set ws \<Longrightarrow> w \<noteq> [] \<and> (\<forall>c \<in> set w. \<not> is_space c)"
  shows "split_ws (join '' '' ws) = ws"
  using assms
proof (induction ws)
  case (Cons w ws)
  from Cons.prems have w: "w \<noteq> []" "\<forall>c \<in> set w. \<not> is_space c" by auto
  moreover have "split_ws (join '' '' ws) = ws"
    by (rule Cons.IH) (rule Cons.prems, simp)
  ultimately show ?case
    by (cases "ws = []") (simp_all add: join_Cons split_ws_single split_ws_Cons)
qed simp

end
