(* ===== verification/Deps.thy ===== *)
theory Deps
  imports Strings
begin

text \<open>
  Dependency strings of the form \<^verbatim>\<open>DEPEND1 (>= version) DEPEND2 ...\<close>:
  \<^verbatim>\<open>explode_deps\<close>, \<^verbatim>\<open>explode_dep_versions2\<close>,
  \<^verbatim>\<open>explode_dep_versions\<close> and \<^verbatim>\<open>join_deps\<close> of
  \<^verbatim>\<open>bb/utils.py\<close>, with the round trips between them.
\<close>

section \<open>The code\<close>

text \<open>The loop of \<^verbatim>\<open>explode_deps\<close>; the flag is set inside a version in parentheses.
  The words come from \<^verbatim>\<open>split()\<close> and are not empty.\<close>

fun explode_deps_loop :: "bool \<Rightarrow> string list \<Rightarrow> string list" where
  "explode_deps_loop flag [] = []"
| "explode_deps_loop flag (i # l) =
     (let flag = (startswith i ''('' \<or> flag);
          out = (if \<not> flag then [i] else []);
          flag = (if flag \<and> endswith i '')'' then False else flag)
      in out @ explode_deps_loop flag l)"

definition explode_deps :: "string \<Rightarrow> string list" where
  "explode_deps s = explode_deps_loop False (split_ws s)"

text \<open>The local variables of \<^verbatim>\<open>explode_dep_versions2\<close>. Before the first name
  \<^verbatim>\<open>lastdep\<close> is \<^verbatim>\<open>None\<close>, and \<^verbatim>\<open>None\<close> can become a key.\<close>

record depscan =
  ds_r :: "(string option, string list) odict"
  ds_lastdep :: "string option"
  ds_lastcmp :: string
  ds_lastver :: string
  ds_incmp :: bool
  ds_inversion :: bool

definition depscan_init :: depscan where
  "depscan_init = \<lparr>ds_r = [], ds_lastdep = None, ds_lastcmp = [], ds_lastver = [],
     ds_incmp = False, ds_inversion = False\<rparr>"

definition two_char_ops :: "string list" where
  "two_char_ops = [''<='', ''=<'', ''<<'', ''=='', ''!='', ''>='', ''=>'', ''>>'']"

definition one_char_ops :: "string list" where
  "one_char_ops = [''<'', ''>'', ''='']"

text \<open>The comparison operator at the start of a version: what is left of the word after it.\<close>

definition dep_operator :: "string \<Rightarrow> depscan \<Rightarrow> (string \<times> depscan) result" where
  "dep_operator i st =
     (if list_ex (startswith i) two_char_ops then Inr (drop 2 i, st\<lparr>ds_lastcmp := take 2 i\<rparr>)
      else if list_ex (startswith i) one_char_ops then Inr (drop 1 i, st\<lparr>ds_lastcmp := take 1 i\<rparr>)
      else Inl (VersionStringException i))"

text \<open>A word inside a version: it is added to the version, and the version so far is recorded.\<close>

definition dep_version :: "string \<Rightarrow> depscan \<Rightarrow> depscan" where
  "dep_version i st =
     (let closing = endswith i '')'';
          i = (if closing then butlast i else i);
          ver = (if closing \<and> ds_lastver st \<noteq> [] \<and> i \<noteq> [] then ds_lastver st @ '' ''
                 else ds_lastver st);
          st = st\<lparr>ds_inversion := \<not> closing, ds_lastver := ver\<rparr>
      in if i = [] then st
         else let ver = ver @ i
              in st\<lparr>ds_lastver := ver,
                    ds_r := dset (ds_lastdep st)
                      (dget_default (ds_r st) (ds_lastdep st) [] @ [ds_lastcmp st @ '' '' @ ver])
                      (ds_r st)\<rparr>)"

text \<open>A word outside a version is the next dependency.\<close>

definition dep_name :: "string \<Rightarrow> depscan \<Rightarrow> depscan" where
  "dep_name i st = st\<lparr>ds_lastdep := Some i, ds_lastver := [], ds_lastcmp := [],
     ds_r := (if dget_default (ds_r st) (Some i) [] \<noteq> [] then ds_r st
              else dset (Some i) [] (ds_r st))\<rparr>"

definition dep_word :: "string \<Rightarrow> depscan \<Rightarrow> depscan result" where
  "dep_word i0 st0 =
     (let opening = startswith i0 ''('';
          st = (if opening then st0\<lparr>ds_incmp := True\<rparr> else st0);
          i = (if opening then strip_ws (drop 1 i0) else i0)
      in if opening \<and> i = [] then Inr st
         else bindE (if ds_incmp st
                     then dep_operator i (st\<lparr>ds_incmp := False, ds_inversion := True\<rparr>)
                     else Inr (i, st))
                (\<lambda>(j, st'). if ds_incmp st \<and> j = [] then Inr st'
                   else if ds_inversion st' then Inr (dep_version j st')
                   else Inr (dep_name j st')))"

definition key_str :: "string option \<Rightarrow> string" where
  "key_str k = (case k of None \<Rightarrow> [] | Some n \<Rightarrow> n)"

text \<open>\<open>sorted(r.items(), key=lambda x: x[0])\<close>: comparing \<^verbatim>\<open>None\<close> with a string
  raises TypeError.\<close>

definition sort_items :: "(string option, 'v) odict \<Rightarrow> (string option, 'v) odict result" where
  "sort_items r =
     (if None \<in> set (dkeys r) \<and> 1 < length r then Inl TypeError
      else Inr (sort_key (\<lambda>p. key_str (fst p)) r))"

definition explode_dep_versions2 ::
  "string \<Rightarrow> bool \<Rightarrow> (string option, string list) odict result" where
  "explode_dep_versions2 s sorting =
     bindE (foldE dep_word (split_ws (filter (\<lambda>c. c \<noteq> CHR '','') s)) depscan_init)
       (\<lambda>st. if sorting then sort_items (ds_r st) else Inr (ds_r st))"

definition explode_dep_versions :: "string \<Rightarrow> (string option, string option) odict result" where
  "explode_dep_versions s =
     bindE (explode_dep_versions2 s True)
       (\<lambda>r. Inr (map (\<lambda>(d, vs). (d, case vs of [] \<Rightarrow> None | v # _ \<Rightarrow> Some v)) r))"

text \<open>A value of the dictionary \<^verbatim>\<open>join_deps\<close> takes.\<close>

datatype depval = DVNone | DVStr string | DVList "string list"

fun dep_entry :: "string option \<Rightarrow> depval \<Rightarrow> string list result" where
  "dep_entry None v = Inl TypeError"
| "dep_entry (Some dep) (DVList []) = Inr [dep]"
| "dep_entry (Some dep) (DVList vs) = Inr (map (\<lambda>v. dep @ '' ('' @ v @ '')'') vs)"
| "dep_entry (Some dep) (DVStr v) = Inr [if v = [] then dep else dep @ '' ('' @ v @ '')'']"
| "dep_entry (Some dep) DVNone = Inr [dep]"

definition join_deps :: "(string option, depval) odict \<Rightarrow> bool \<Rightarrow> string result" where
  "join_deps deps commasep =
     bindE (foldE (\<lambda>(d, v) acc. bindE (dep_entry d v) (\<lambda>ws. Inr (acc @ ws))) deps [])
       (\<lambda>r. Inr (join (if commasep then '', '' else '' '') r))"

section \<open>Round trips\<close>

text \<open>A name as it stands in a dependency string, and a version constraint: an operator of the
  list above, a blank and a version word.\<close>

definition dep_char :: "char \<Rightarrow> bool" where
  "dep_char c \<longleftrightarrow> \<not> is_space c \<and> c \<notin> set '',()''"

definition ops :: "string list" where
  "ops = two_char_ops @ one_char_ops"

definition dep_word_ok :: "string \<Rightarrow> bool" where
  "dep_word_ok w \<longleftrightarrow> w \<noteq> [] \<and> (\<forall>c \<in> set w. dep_char c)"

definition constraint_ok :: "string \<Rightarrow> bool" where
  "constraint_ok v \<longleftrightarrow> (\<exists>op ver. v = op @ '' '' @ ver \<and>
     op \<in> set ops \<and> dep_word_ok ver)"

definition item_words :: "string \<times> string list \<Rightarrow> string list" where
  "item_words p = (case p of (d, []) \<Rightarrow> [d]
     | (d, vs) \<Rightarrow> concat (map (\<lambda>v. [d, CHR ''('' # before_first (CHR '' '') v,
         after_first (CHR '' '') v @ '')'']) vs))"

definition items_ok :: "(string \<times> string list) list \<Rightarrow> bool" where
  "items_ok ps \<longleftrightarrow> (\<forall>(d, vs) \<in> set ps. dep_word_ok d \<and> (\<forall>v \<in> set vs. constraint_ok v))"

lemma ops_scan:
  "list_all (\<lambda>op. (if list_ex (startswith op) two_char_ops then drop 2 op = [] \<and> take 2 op = op
      else list_ex (startswith op) one_char_ops \<and> drop 1 op = [] \<and> take 1 op = op)
    \<and> strip_ws op = op \<and> op \<noteq> [] \<and> list_all (\<lambda>c. \<not> is_space c \<and> c \<noteq> CHR '','') op) ops"
  by code_simp

lemma ops_facts:
  assumes "op \<in> set ops"
  shows "dep_operator op st = Inr ([], st\<lparr>ds_lastcmp := op\<rparr>)"
    and "strip_ws op = op" "op \<noteq> []" "\<forall>c \<in> set op. \<not> is_space c \<and> c \<noteq> CHR '',''"
proof -
  note scan = ops_scan [unfolded list_all_iff, THEN bspec, OF assms]
  then show "dep_operator op st = Inr ([], st\<lparr>ds_lastcmp := op\<rparr>)"
    by (simp add: dep_operator_def split: if_splits)
  show "strip_ws op = op" "op \<noteq> []" "\<forall>c \<in> set op. \<not> is_space c \<and> c \<noteq> CHR '',''"
    using scan by simp_all
qed

lemma constraint_parts:
  assumes "op \<in> set ops"
  shows "before_first (CHR '' '') (op @ '' '' @ ver) = op"
    and "after_first (CHR '' '') (op @ '' '' @ ver) = ver"
proof -
  have "CHR '' '' \<notin> set op" using ops_facts(4) [OF assms] is_space_blank by blast
  then show "before_first (CHR '' '') (op @ '' '' @ ver) = op"
    and "after_first (CHR '' '') (op @ '' '' @ ver) = ver"
    by (simp_all add: first_split_unique)
qed

definition between :: "depscan \<Rightarrow> bool" where
  "between st \<longleftrightarrow> \<not> ds_incmp st \<and> \<not> ds_inversion st"

lemma dep_word_name:
  assumes "between st" "dep_word_ok d"
  shows "dep_word d st = Inr (dep_name d st)"
  using assms
  by (cases d) (auto simp: dep_word_def between_def dep_word_ok_def dep_char_def startswith_def)

lemma dep_word_open:
  assumes "between st" "op \<in> set ops"
  shows "dep_word (CHR ''('' # op) st =
    Inr (st\<lparr>ds_incmp := False, ds_inversion := True, ds_lastcmp := op\<rparr>)"
  using assms ops_facts [OF assms(2)]
  by (simp add: dep_word_def between_def startswith_def)

lemma dep_word_close:
  assumes "\<not> ds_incmp st" "ds_inversion st" "ds_lastver st = []" "dep_word_ok ver"
  shows "dep_word (ver @ '')'') st = Inr (st\<lparr>ds_inversion := False, ds_lastver := ver,
    ds_r := dset (ds_lastdep st)
      (dget_default (ds_r st) (ds_lastdep st) [] @ [ds_lastcmp st @ '' '' @ ver]) (ds_r st)\<rparr>)"
proof -
  have "\<not> startswith (ver @ '')'') ''(''" using assms(4)
    by (cases ver) (auto simp: startswith_def dep_word_ok_def dep_char_def)
  moreover have "endswith (ver @ '')'') '')''" by (simp add: endswith_def)
  ultimately show ?thesis using assms by (simp add: dep_word_def dep_version_def dep_word_ok_def)
qed

text \<open>The three words of a name with one constraint, and of a whole item.\<close>

lemma scan_constraint:
  assumes "between st" "dep_word_ok d" "op \<in> set ops" "dep_word_ok ver"
  shows "\<exists>st'. foldE dep_word [d, CHR ''('' # op, ver @ '')''] st = Inr st' \<and> between st' \<and>
    ds_r st' = dset (Some d) (dget_default (ds_r st) (Some d) [] @ [op @ '' '' @ ver]) (ds_r st)"
proof -
  let ?n = "dep_name d st"
  let ?o = "?n\<lparr>ds_incmp := False, ds_inversion := True, ds_lastcmp := op\<rparr>"
  have n: "between ?n" using assms(1) by (simp add: between_def dep_name_def)
  have c: "\<not> ds_incmp ?o" "ds_inversion ?o" "ds_lastver ?o = []" by (simp_all add: dep_name_def)
  show ?thesis
    using assms dep_word_open [OF n assms(3)] dep_word_close [OF c assms(4)]
    by (auto simp: dep_word_name between_def dep_name_def)
qed

lemma scan_constraints:
  assumes "between st" "dep_word_ok d" "\<forall>v \<in> set vs. constraint_ok v" "vs \<noteq> []"
  shows "\<exists>st'. foldE dep_word (item_words (d, vs)) st = Inr st' \<and> between st' \<and>
    ds_r st' = dset (Some d) (dget_default (ds_r st) (Some d) [] @ vs) (ds_r st)"
  using assms
proof (induction vs arbitrary: st)
  case (Cons v vs)
  from Cons.prems obtain op ver where v: "v = op @ '' '' @ ver" "op \<in> set ops" "dep_word_ok ver"
    by (auto simp: constraint_ok_def)
  have w: "item_words (d, v # vs) = [d, CHR ''('' # op, ver @ '')''] @
      (if vs = [] then [] else item_words (d, vs))"
    by (cases vs) (simp_all add: item_words_def v constraint_parts [OF v(2)] del: append_Cons)
  from scan_constraint [OF Cons.prems(1,2) v(2,3)] obtain s1 where
    s1: "foldE dep_word [d, CHR ''('' # op, ver @ '')''] st = Inr s1" "between s1"
      "ds_r s1 = dset (Some d) (dget_default (ds_r st) (Some d) [] @ [v]) (ds_r st)"
    unfolding v by blast
  show ?case
  proof (cases "vs = []")
    case True
    with s1 show ?thesis unfolding w by auto
  next
    case False
    then have "foldE dep_word (item_words (d, v # vs)) st = foldE dep_word (item_words (d, vs)) s1"
      using s1(1) by (simp only: w foldE_append if_False bindE_simps)
    with False Cons.IH [OF s1(2) Cons.prems(2)] Cons.prems(3) s1(3) show ?thesis by simp
  qed
qed simp

lemma scan_items:
  assumes "between st" "items_ok ps" "distinct (map fst ps)"
    and "\<forall>p \<in> set ps. Some (fst p) \<notin> set (dkeys (ds_r st))"
  shows "\<exists>st'. foldE dep_word (concat (map item_words ps)) st = Inr st' \<and>
    ds_r st' = ds_r st @ map (\<lambda>(d, vs). (Some d, vs)) ps"
  using assms
proof (induction ps arbitrary: st)
  case (Cons p ps)
  obtain d vs where p: "p = (d, vs)" by (cases p)
  have new: "Some d \<notin> set (dkeys (ds_r st))" using Cons.prems(4) p by auto
  then have none: "dget_default (ds_r st) (Some d) [] = []"
    by (simp add: dget_default_def map_of_eq_None_iff [THEN iffD2])
  have "\<exists>s1. foldE dep_word (item_words (d, vs)) st = Inr s1 \<and> between s1 \<and>
      ds_r s1 = ds_r st @ [(Some d, vs)]"
  proof (cases "vs = []")
    case True
    with Cons.prems p new none show ?thesis
      by (auto simp: item_words_def dep_word_name items_ok_def between_def dep_name_def dset_absent)
  next
    case False
    with scan_constraints [OF Cons.prems(1), of d vs] Cons.prems(2) p new none show ?thesis
      by (auto simp: items_ok_def dset_absent)
  qed
  then obtain s1 where s1: "foldE dep_word (item_words (d, vs)) st = Inr s1" "between s1"
    "ds_r s1 = ds_r st @ [(Some d, vs)]" by blast
  have "\<exists>st'. foldE dep_word (concat (map item_words ps)) s1 = Inr st' \<and>
      ds_r st' = ds_r s1 @ map (\<lambda>(d, vs). (Some d, vs)) ps"
    using Cons.prems s1 p by (intro Cons.IH) (auto simp: items_ok_def image_iff)
  with s1 show ?case by (auto simp: foldE_append p)
qed simp

subsection \<open>The string that \<^verbatim>\<open>join_deps\<close> builds\<close>

definition entry_words :: "string \<times> string list \<Rightarrow> string list list" where
  "entry_words p = (case p of (d, []) \<Rightarrow> [[d]]
     | (d, vs) \<Rightarrow> map (\<lambda>v. [d, CHR ''('' # before_first (CHR '' '') v,
         after_first (CHR '' '') v @ '')'']) vs)"

lemma item_words_entries: "item_words p = concat (entry_words p)"
  by (cases p; cases "snd p") (auto simp: item_words_def entry_words_def)

lemma constraint_join:
  assumes "constraint_ok v"
  shows "d @ CHR '' '' # CHR ''('' # v @ '')'' = join '' '' [d, CHR ''('' # before_first (CHR '' '') v,
    after_first (CHR '' '') v @ '')'']"
proof -
  from assms obtain op ver where v: "v = op @ '' '' @ ver" "op \<in> set ops"
    by (auto simp: constraint_ok_def)
  show ?thesis
    using constraint_parts [OF v(2), of ver] by (simp add: v(1))
qed

lemma dep_entry_join:
  assumes "\<forall>v \<in> set vs. constraint_ok v"
  shows "dep_entry (Some d) (DVList vs) = Inr (map (join '' '') (entry_words (d, vs)))"
  using assms by (cases vs) (auto simp: entry_words_def simp del: join.simps(3)
      intro!: constraint_join)

lemma join_deps_items:
  assumes "items_ok ps"
  shows "join_deps (map (\<lambda>(d, vs). (Some d, DVList vs)) ps) c =
    Inr (join (if c then '', '' else '' '') (map (join '' '') (concat (map entry_words ps))))"
proof -
  have "foldE (\<lambda>(d, v) acc. bindE (dep_entry d v) (\<lambda>ws. Inr (acc @ ws)))
      (map (\<lambda>(d, vs). (Some d, DVList vs)) ps) acc =
      Inr (acc @ map (join '' '') (concat (map entry_words ps)))" for acc
    using assms
    by (induction ps arbitrary: acc) (auto simp: items_ok_def dep_entry_join)
  from this [of "[]"] show ?thesis by (simp add: join_deps_def)
qed

lemma join_concat:
  assumes "\<forall>ws \<in> set wss. ws \<noteq> []"
  shows "join s (map (join s) wss) = join s (concat wss)"
  using assms
proof (induction wss)
  case (Cons ws wss)
  have app: "b \<noteq> [] \<Longrightarrow> a \<noteq> [] \<Longrightarrow> join s (a @ b) = join s a @ s @ join s b" for a b
  proof (induction a)
    case (Cons x a)
    then show ?case by (cases "a = []") (simp_all add: join_Cons)
  qed simp
  have ne: "wss \<noteq> [] \<Longrightarrow> concat wss \<noteq> []" using Cons.prems by (cases wss) auto
  show ?case
  proof (cases "wss = []")
    case False
    then show ?thesis
      using Cons app [OF ne [OF False], of ws] by (simp add: join_Cons)
  qed simp
qed simp

lemma filter_join:
  assumes "\<forall>w \<in> set ws. filter P w = w"
  shows "filter P (join sep ws) = join (filter P sep) ws"
  using assms
proof (induction ws)
  case (Cons w ws)
  then show ?case by (cases "ws = []") (simp_all add: join_Cons)
qed simp

definition plain_word :: "string \<Rightarrow> bool" where
  "plain_word w \<longleftrightarrow> w \<noteq> [] \<and> (\<forall>c \<in> set w. \<not> is_space c \<and> c \<noteq> CHR '','')"

lemma entry_words_plain:
  assumes "items_ok ps" "ws \<in> set (concat (map entry_words ps))"
  shows "ws \<noteq> [] \<and> (\<forall>w \<in> set ws. plain_word w)"
proof -
  from assms(2) obtain d vs where p: "(d, vs) \<in> set ps" "ws \<in> set (entry_words (d, vs))" by auto
  with assms(1) have d: "dep_word_ok d" and vs: "\<forall>v \<in> set vs. constraint_ok v"
    by (auto simp: items_ok_def)
  have pd: "dep_word_ok w \<Longrightarrow> plain_word w" for w
    by (auto simp: dep_word_ok_def dep_char_def plain_word_def)
  have par: "plain_word '')''" "plain_word ''(''" by (simp_all add: plain_word_def is_space_def)
  show ?thesis
  proof (cases "vs = []")
    case True
    with p d pd show ?thesis by (auto simp: entry_words_def)
  next
    case False
    with p obtain v where v: "v \<in> set vs"
      "ws = [d, CHR ''('' # before_first (CHR '' '') v, after_first (CHR '' '') v @ '')'']"
      by (cases vs) (auto simp: entry_words_def)
    with vs obtain op ver where o: "v = op @ '' '' @ ver" "op \<in> set ops" "dep_word_ok ver"
      by (auto simp: constraint_ok_def)
    have ws: "ws = [d, CHR ''('' # op, ver @ '')'']"
      using constraint_parts [OF o(2), of ver] unfolding v(2) o(1) by simp
    have "plain_word (CHR ''('' # op)" "plain_word (ver @ '')'')"
      using ops_facts(4) [OF o(2)] pd [OF o(3)] par by (auto simp: plain_word_def)
    then show ?thesis using pd [OF d] unfolding ws by simp
  qed
qed

lemma join_deps_words:
  assumes "items_ok ps" "join_deps (map (\<lambda>(d, vs). (Some d, DVList vs)) ps) c = Inr s"
  shows "split_ws (filter (\<lambda>c. c \<noteq> CHR '','') s) = concat (map item_words ps)"
    and "\<not> c \<Longrightarrow> split_ws s = concat (map item_words ps)"
proof -
  let ?wss = "concat (map entry_words ps)"
  have s: "s = join (if c then '', '' else '' '') (map (join '' '') ?wss)"
    using assms(2) by (simp add: join_deps_items [OF assms(1)])
  note plain = entry_words_plain [OF assms(1)]
  have nc: "filter (\<lambda>c. c \<noteq> CHR '','') w = w" if "w \<in> set (map (join '' '') ?wss)" for w
  proof -
    from that obtain ws where ws: "ws \<in> set ?wss" "w = join '' '' ws" by auto
    have "\<forall>u \<in> set ws. filter (\<lambda>c. c \<noteq> CHR '','') u = u"
      using plain [OF ws(1)] by (auto simp: plain_word_def intro!: filter_True)
    then show ?thesis unfolding ws(2) by (simp add: filter_join)
  qed
  have f: "filter (\<lambda>c. c \<noteq> CHR '','') s = join '' '' (concat ?wss)"
    unfolding s using nc plain by (subst filter_join) (auto simp: join_concat)
  have w: "split_ws (join '' '' (concat ?wss)) = concat ?wss"
    using plain by (intro split_ws_join) (auto simp: plain_word_def)
  have cc: "concat ?wss = concat (map item_words ps)"
    by (induction ps) (simp_all add: item_words_entries)
  show "split_ws (filter (\<lambda>c. c \<noteq> CHR '','') s) = concat (map item_words ps)"
    using f w cc by simp
  assume "\<not> c"
  then have "s = join '' '' (concat ?wss)" using plain s by (simp add: join_concat)
  then show "split_ws s = concat (map item_words ps)" using w cc by simp
qed

section \<open>Properties\<close>

text \<open>C40. Joining a sorted dependency dictionary, with or without commas, and exploding the
  string gives the dictionary back: no dependency or version constraint is lost or
  reordered.\<close>

theorem explode_join_deps:
  assumes "items_ok ps" and "sorted (map fst ps)" and "distinct (map fst ps)"
  shows "bindE (join_deps (map (\<lambda>(d, vs). (Some d, DVList vs)) ps) commasep)
      (\<lambda>s. explode_dep_versions2 s True) = Inr (map (\<lambda>(d, vs). (Some d, vs)) ps)"
proof -
  obtain s where s: "join_deps (map (\<lambda>(d, vs). (Some d, DVList vs)) ps) commasep = Inr s"
    by (simp add: join_deps_items [OF assms(1)])
  have "between depscan_init" "ds_r depscan_init = []"
    by (simp_all add: between_def depscan_init_def)
  with scan_items [OF _ assms(1,3), of depscan_init] obtain st where
    st: "foldE dep_word (concat (map item_words ps)) depscan_init = Inr st"
      "ds_r st = map (\<lambda>(d, vs). (Some d, vs)) ps" by auto
  have keys: "map (\<lambda>p. key_str (fst p)) (ds_r st) = map fst ps"
    by (simp add: st comp_def key_str_def split_beta)
  have "sort_key (\<lambda>p. key_str (fst p)) (ds_r st) = ds_r st"
    using assms(2) keys by (intro sort_key_id_if_sorted) simp
  moreover have "None \<notin> set (dkeys (ds_r st))" by (auto simp: st)
  ultimately have "sort_items (ds_r st) = Inr (ds_r st)" by (simp add: sort_items_def)
  then show ?thesis
    by (simp add: s explode_dep_versions2_def join_deps_words(1) [OF assms(1) s] st)
qed

lemma explode_join_deps_witness:
  "bindE (join_deps (map (\<lambda>(d, vs). (Some d, DVList vs))
      [(''bash'', []), (''glibc'', [''>= 2.39'', ''< 3'' ])]) True)
    (\<lambda>s. explode_dep_versions2 s True) =
   Inr (map (\<lambda>(d, vs). (Some d, vs)) [(''bash'', []), (''glibc'', [''>= 2.39'', ''< 3'' ])])"
proof (rule explode_join_deps)
  have "constraint_ok ''>= 2.39''" "constraint_ok ''< 3''"
    unfolding constraint_ok_def
    by (rule exI [of _ "''>=''"], rule exI [of _ "''2.39''"], code_simp)
      (rule exI [of _ "''<''"], rule exI [of _ "''3''"], code_simp)
  moreover have "dep_word_ok ''bash''" "dep_word_ok ''glibc''" by code_simp+
  ultimately show "items_ok [(''bash'', []), (''glibc'', [''>= 2.39'', ''< 3'' ])]"
    by (simp add: items_ok_def)
  show "sorted (map fst [(''bash'', []), (''glibc'', [''>= 2.39'', ''< 3'' ])])"
    "distinct (map fst [(''bash'', []), (''glibc'', [''>= 2.39'', ''< 3'' ])])"
    by code_simp+
qed

lemma explode_deps_loop_item:
  assumes "items_ok [p]"
  shows "explode_deps_loop False (item_words p @ ws) =
    replicate (max 1 (length (snd p))) (fst p) @ explode_deps_loop False ws"
proof -
  obtain d vs where p: "p = (d, vs)" by (cases p)
  have nd: "\<not> startswith d ''(''" if "dep_word_ok d" for d
    using that by (cases d) (auto simp: dep_word_ok_def dep_char_def startswith_def)
  have step: "explode_deps_loop False (item_words (d, [v]) @ us) = d # explode_deps_loop False us"
    if "constraint_ok v" "dep_word_ok d" for v us
  proof -
    from that obtain op ver where v: "v = op @ '' '' @ ver" "op \<in> set ops" "dep_word_ok ver"
      by (auto simp: constraint_ok_def)
    have "\<not> endswith (CHR ''('' # op) '')''"
    proof
      assume "endswith (CHR ''('' # op) '')''"
      then have "CHR '')'' \<in> set op" by (auto simp: endswith_iff Cons_eq_append_conv)
      moreover have "list_all (\<lambda>op. CHR '')'' \<notin> set op) ops" by code_simp
      ultimately show False using v(2) by (auto simp: list_all_iff)
    qed
    moreover have "endswith (ver @ '')'') '')''" by (simp add: endswith_def)
    ultimately show ?thesis
      using nd that(2) constraint_parts [OF v(2), of ver]
      by (simp add: item_words_def v(1) startswith_def Let_def)
  qed
  have "explode_deps_loop False (item_words (d, v # vs) @ us) =
      replicate (Suc (length vs)) d @ explode_deps_loop False us"
    if "\<forall>v \<in> set (v # vs). constraint_ok v" "dep_word_ok d" for v vs us
    using that(1)
  proof (induction vs arbitrary: v)
    case Nil
    then show ?case using step that(2) by simp
  next
    case (Cons w vs)
    have "item_words (d, v # w # vs) = item_words (d, [v]) @ item_words (d, w # vs)"
      by (simp add: item_words_def)
    then show ?case using Cons step [OF _ that(2)] by simp
  qed
  with assms show ?thesis
    by (cases vs) (auto simp: p items_ok_def item_words_def nd)
qed

text \<open>On a blank-separated dependency string \<^verbatim>\<open>explode_deps\<close> returns the names, once
  for every constraint of a name, and no part of a version.\<close>

theorem explode_deps_names:
  assumes "items_ok ps"
  shows "bindE (join_deps (map (\<lambda>(d, vs). (Some d, DVList vs)) ps) False)
      (\<lambda>s. Inr (explode_deps s)) =
    Inr (concat (map (\<lambda>(d, vs). replicate (max 1 (length vs)) d) ps))"
proof -
  obtain s where s: "join_deps (map (\<lambda>(d, vs). (Some d, DVList vs)) ps) False = Inr s"
    by (simp add: join_deps_items [OF assms(1)])
  have "explode_deps_loop False (concat (map item_words ps)) =
      concat (map (\<lambda>(d, vs). replicate (max 1 (length vs)) d) ps)"
    using assms
  proof (induction ps)
    case (Cons p ps)
    then have "items_ok [p]" "items_ok ps" by (auto simp: items_ok_def)
    with Cons.IH show ?case by (simp add: explode_deps_loop_item split_beta)
  qed simp
  then show ?thesis
    by (simp add: s explode_deps_def join_deps_words(2) [OF assms s])
qed

lemma explode_deps_names_witness:
  "bindE (join_deps (map (\<lambda>(d, vs). (Some d, DVList vs)) [(''bash'', []), (''m4'', [])]) False)
      (\<lambda>s. Inr (explode_deps s)) =
    Inr (concat (map (\<lambda>(d, vs). replicate (max 1 (length vs)) d)
      [(''bash'', [] :: string list), (''m4'', [])]))"
proof (rule explode_deps_names)
  have "dep_word_ok ''bash''" "dep_word_ok ''m4''" by code_simp+
  then show "items_ok [(''bash'', []), (''m4'', [])]" by (simp add: items_ok_def)
qed

end
