(* ===== verification/BBUtils.thy ===== *)
theory BBUtils
  imports Strings
begin

text \<open>
  Small helpers: \<^verbatim>\<open>to_boolean\<close>, \<^verbatim>\<open>contains\<close>,
  \<^verbatim>\<open>contains_any\<close> and \<^verbatim>\<open>filter\<close> of \<^verbatim>\<open>bb/utils.py\<close>, and
  \<^verbatim>\<open>vars_from_file\<close> of \<^verbatim>\<open>bb/parse/__init__.py\<close> with its cache. A data store is
  given by its lookup of an expanded variable.
\<close>

section \<open>Booleans\<close>

definition lower_char :: "char \<Rightarrow> char" where
  "lower_char c =
     (let n = of_char c :: nat
      in if is_upper c \<or> (192 \<le> n \<and> n \<le> 222 \<and> n \<noteq> 215) then char_of (n + 32) else c)"

definition to_boolean :: "string \<Rightarrow> bool option \<Rightarrow> bool option result" where
  "to_boolean s dflt =
     (if s = [] then Inr dflt
      else let normalized = map lower_char s
           in if normalized \<in> set [''y'', ''yes'', ''1'', ''true''] then Inr (Some True)
              else if normalized \<in> set [''n'', ''no'', ''0'', ''false''] then Inr (Some False)
              else Inl ValueError)"

section \<open>Words of a variable\<close>

text \<open>The values to look for are the words of a string. An unset or empty variable contains
  nothing.\<close>

definition contains_var :: "string \<Rightarrow> string \<Rightarrow> 'a \<Rightarrow> 'a \<Rightarrow> (string \<Rightarrow> string option) \<Rightarrow> 'a" where
  "contains_var variable checkvalues truevalue falsevalue d =
     (case d variable of
        None \<Rightarrow> falsevalue
      | Some val \<Rightarrow>
          if val = [] then falsevalue
          else if set (split_ws checkvalues) \<subseteq> set (split_ws val) then truevalue
          else falsevalue)"

definition contains_any :: "string \<Rightarrow> string \<Rightarrow> 'a \<Rightarrow> 'a \<Rightarrow> (string \<Rightarrow> string option) \<Rightarrow> 'a" where
  "contains_any variable checkvalues truevalue falsevalue d =
     (case d variable of
        None \<Rightarrow> falsevalue
      | Some val \<Rightarrow>
          if val = [] then falsevalue
          else if set (split_ws checkvalues) \<inter> set (split_ws val) \<noteq> {} then truevalue
          else falsevalue)"

definition filter_var :: "string \<Rightarrow> string \<Rightarrow> (string \<Rightarrow> string option) \<Rightarrow> string" where
  "filter_var variable checkvalues d =
     (case d variable of
        None \<Rightarrow> []
      | Some val \<Rightarrow>
          if val = [] then []
          else join '' '' (sorted_list_of_set (set (split_ws checkvalues) \<inter> set (split_ws val))))"

section \<open>Names and versions from file names\<close>

text \<open>\<open>os.path.basename\<close> and the root part of \<open>os.path.splitext\<close>.\<close>

definition basename :: "string \<Rightarrow> string" where
  "basename p = (if CHR ''/'' \<in> set p then after_last (CHR ''/'') p else p)"

definition splitext_root :: "string \<Rightarrow> string" where
  "splitext_root p =
     (if CHR ''.'' \<in> set p \<and>
         (\<exists>c \<in> set (after_last (CHR ''/'') (CHR ''/'' # before_last (CHR ''.'') p)). c \<noteq> CHR ''.'') \<and>
         CHR ''/'' \<notin> set (after_last (CHR ''.'') p)
      then before_last (CHR ''.'') p else p)"

type_synonym pkgsplit_cache = "(string, string option list) odict"

text \<open>
  The list stored in the cache is the one that is later extended and returned, so the cache holds
  what the first call returned; it is stored before the number of parts is checked.
\<close>

definition vars_from_file :: "string \<Rightarrow> pkgsplit_cache \<Rightarrow> string option list result \<times> pkgsplit_cache" where
  "vars_from_file mypkg cache =
     (if mypkg = [] \<or> \<not> (endswith mypkg ''.bb'' \<or> endswith mypkg ''.bbappend'')
      then (Inr [None, None, None], cache)
      else case dget cache mypkg of
             Some parts \<Rightarrow> (Inr parts, cache)
           | None \<Rightarrow>
               let parts = map Some (split_on (CHR ''_'') (splitext_root (basename mypkg)))
               in if length parts > 3 then (Inl (ParseError mypkg), dset mypkg parts cache)
                  else let parts = parts @ replicate (3 - length parts) None
                       in (Inr parts, dset mypkg parts cache))"

section \<open>Properties\<close>

lemma sorted_words_ok:
  "w \<in> set (sorted_list_of_set (set (split_ws c) \<inter> A)) \<Longrightarrow> w \<noteq> [] \<and> (\<forall>x \<in> set w. \<not> is_space x)"
  using split_ws_words [of w c] by simp

text \<open>The words of a filtered variable are exactly the words that are both in the variable
  and asked for, each once and in order; the filter of a non-empty variable is therefore
  everything asked for exactly when \<^verbatim>\<open>contains\<close> answers true.\<close>

theorem filter_var_words:
  "split_ws (filter_var variable checkvalues d) =
     sorted_list_of_set (set (split_ws checkvalues) \<inter>
       (case d variable of None \<Rightarrow> {} | Some val \<Rightarrow> set (split_ws val)))
   \<and> contains_var variable checkvalues True False d =
     (d variable \<notin> {None, Some []} \<and>
      set (split_ws (filter_var variable checkvalues d)) = set (split_ws checkvalues))"
proof -
  have w: "split_ws (filter_var variable checkvalues d) =
     sorted_list_of_set (set (split_ws checkvalues) \<inter>
       (case d variable of None \<Rightarrow> {} | Some val \<Rightarrow> set (split_ws val)))"
    using sorted_words_ok [of _ checkvalues]
    by (auto simp: filter_var_def split: option.splits intro!: split_ws_join)
  show ?thesis
    unfolding w
    by (auto simp: contains_var_def w split: option.splits)
qed

text \<open>The cache of \<^verbatim>\<open>vars_from_file\<close> hides its error: a recipe file name with too many
  underscores raises at the first call, and the second call returns the parts that were
  stored before the check.\<close>

theorem vars_from_file_second_call:
  assumes "vars_from_file f cache = (Inl e, cache')"
  shows "\<exists>parts. length parts > 3 \<and> vars_from_file f cache' = (Inr parts, cache')"
  using assms
  by (auto simp: vars_from_file_def Let_def dget_dset split: if_splits option.splits)

lemma vars_from_file_second_call_witness:
  "\<exists>parts. length parts > 3 \<and>
    vars_from_file ''/r/a_b_c_d.bb'' (snd (vars_from_file ''/r/a_b_c_d.bb'' [])) =
      (Inr parts, snd (vars_from_file ''/r/a_b_c_d.bb'' []))"
proof (rule vars_from_file_second_call)
  show "vars_from_file ''/r/a_b_c_d.bb'' [] =
      (Inl (ParseError ''/r/a_b_c_d.bb''), snd (vars_from_file ''/r/a_b_c_d.bb'' []))"
    by code_simp
qed

text \<open>A name of at most three parts is split into a name, a version and a revision, the
  missing ones unset, and later calls return the same.\<close>

theorem vars_from_file_splits:
  assumes "endswith f ''.bb''" and "dget cache f = None"
    and "split_on (CHR ''_'') (splitext_root (basename f)) = parts" and "length parts \<le> 3"
  shows "fst (vars_from_file f cache) = Inr (map Some parts @ replicate (3 - length parts) None)
    \<and> fst (vars_from_file f (snd (vars_from_file f cache))) = fst (vars_from_file f cache)"
proof -
  have "f \<noteq> []" using assms(1) by (auto simp: endswith_def)
  with assms show ?thesis
    by (simp add: vars_from_file_def Let_def dget_dset)
qed

lemma vars_from_file_splits_witness:
  "fst (vars_from_file ''/r/bash_5.2.bb'' []) =
     Inr (map Some [''bash'', ''5.2''] @ replicate (3 - length [''bash'', ''5.2'']) None)
   \<and> fst (vars_from_file ''/r/bash_5.2.bb'' (snd (vars_from_file ''/r/bash_5.2.bb'' []))) =
     fst (vars_from_file ''/r/bash_5.2.bb'' [])"
proof (rule vars_from_file_splits)
  show "endswith ''/r/bash_5.2.bb'' ''.bb''" by code_simp
  show "split_on (CHR ''_'') (splitext_root (basename ''/r/bash_5.2.bb'')) = [''bash'', ''5.2'']"
    by code_simp
qed simp_all

end
