(* ===== verification/RecipeCache.thy ===== *)
theory RecipeCache
  imports Deps BBUtils
begin

text \<open>
  What the parser keeps of a recipe and the indexes built from it:
  \<^verbatim>\<open>RecipeInfoCommon\<close>, \<^verbatim>\<open>CoreRecipeInfo\<close> and
  \<^verbatim>\<open>CacheData\<close> of \<^verbatim>\<open>bb/cache.py\<close>. The provider selection, the task data
  and the run queue read these indexes; \<open>cache_wf\<close> is the consistency they rely on, and every
  \<^verbatim>\<open>add_cacheData\<close> keeps it.
\<close>

section \<open>Recipe metadata and its accessors\<close>

text \<open>
  The dictionary \<^verbatim>\<open>_task_deps\<close>: the tasks of a recipe, the tasks each comes after, and for
  every task flag (\<^verbatim>\<open>depends\<close>, \<^verbatim>\<open>rdepends\<close>, \<^verbatim>\<open>deptask\<close>,
  \<^verbatim>\<open>noexec\<close>, ...) its value for the tasks that have it.
\<close>

record taskdeps =
  td_tasks :: "string list"
  td_parents :: "(string, string list) odict"
  td_flags :: "(string, (string, string) odict) odict"

text \<open>\<open>task_deps[flag][task]\<close> where both keys are present.\<close>

definition task_flag :: "taskdeps \<Rightarrow> string \<Rightarrow> string \<Rightarrow> string option" where
  "task_flag td flag task = Option.bind (dget (td_flags td) flag) (\<lambda>m. dget m task)"

text \<open>
  The data store of a parsed recipe as \<^verbatim>\<open>CoreRecipeInfo\<close> reads it: expanded variables,
  expanded flags, and the structured values the parser left in it.
\<close>

record metadata =
  md_var :: "string \<Rightarrow> string option"
  md_flag :: "string \<Rightarrow> string \<Rightarrow> string option"
  md_raw :: "string \<Rightarrow> string option"
  md_tasks :: "string list"
  md_task_deps :: "taskdeps option"
  md_basehashes :: "(string, string) odict option"

definition getvar :: "string \<Rightarrow> metadata \<Rightarrow> string" where
  "getvar var md = (case md_var md var of None \<Rightarrow> [] | Some v \<Rightarrow> v)"

definition listvar :: "string \<Rightarrow> metadata \<Rightarrow> string list" where
  "listvar var md = split_ws (getvar var md)"

definition intvar :: "string \<Rightarrow> metadata \<Rightarrow> int result" where
  "intvar var md = (if getvar var md = [] then Inr 0 else py_int (getvar var md))"

definition depvar :: "string \<Rightarrow> metadata \<Rightarrow> string list" where
  "depvar var md = explode_deps (getvar var md)"

definition pkgvar :: "string \<Rightarrow> string list \<Rightarrow> metadata \<Rightarrow> (string, string list) odict" where
  "pkgvar var pkgs md = fold (\<lambda>pkg d. dset pkg (depvar (var @ '':'' @ pkg) md) d) pkgs []"

definition flaglist ::
  "string \<Rightarrow> string list \<Rightarrow> metadata \<Rightarrow> bool \<Rightarrow> (string, string option) odict" where
  "flaglist flag varlist md squash =
     (let out_dict = fold (\<lambda>var d. dset var (md_flag md var flag) d) varlist []
      in if squash then filter (\<lambda>(k, v). v \<noteq> None \<and> v \<noteq> Some []) out_dict else out_dict)"

section \<open>The record of a recipe\<close>

text \<open>A skipped recipe has only the fields that are set before the early return.\<close>

record recipe_base =
  ri_provides :: "string list"
  ri_rprovides :: "string list"
  ri_pn :: string
  ri_packages :: "string list"
  ri_packages_dynamic :: "string list"
  ri_rprovides_pkg :: "(string, string list) odict"
  ri_skipreason :: string

record recipe_info = recipe_base +
  ri_tasks :: "string list"
  ri_basetaskhashes :: "(string, string) odict"
  ri_hashfilename :: string
  ri_task_deps :: taskdeps
  ri_pe :: string
  ri_pv :: string
  ri_pr :: string
  ri_defaultpref :: int
  ri_not_world :: string
  ri_stamp :: string
  ri_stampclean :: string
  ri_stamp_extrainfo :: "(string, string option) odict"
  ri_file_checksums :: "(string, string option) odict"
  ri_depends :: "string list"
  ri_rdepends :: "string list"
  ri_rrecommends :: "string list"
  ri_rdepends_pkg :: "(string, string list) odict"
  ri_rrecommends_pkg :: "(string, string list) odict"
  ri_inherits :: string
  ri_fakerootenv :: string
  ri_fakerootdirs :: string
  ri_fakerootlogs :: string
  ri_fakerootnoenv :: string
  ri_extradepsfunc :: string

text \<open>
  \<^verbatim>\<open>CoreRecipeInfo.__init__\<close>. The name of a recipe whose \<^verbatim>\<open>PN\<close> is empty
  comes from its file name; a file that is no recipe gives \<^verbatim>\<open>None\<close>, outside the model.
\<close>

definition recipe_base_init ::
  "string \<Rightarrow> metadata \<Rightarrow> pkgsplit_cache \<Rightarrow> recipe_base result \<times> pkgsplit_cache" where
  "recipe_base_init filename md cache =
     (let (pn, cache) =
        (if getvar ''PN'' md \<noteq> [] then (Inr (Some (getvar ''PN'' md)), cache)
         else case vars_from_file filename cache of
                (Inl e, cache) \<Rightarrow> (Inl e, cache)
              | (Inr parts, cache) \<Rightarrow> (Inr (hd parts), cache))
      in (bindE pn (\<lambda>pn. case pn of None \<Rightarrow> Inl OutOfModel | Some pn \<Rightarrow>
            let pkgs = listvar ''PACKAGES'' md;
                pkgs = (if pkgs = [] then [pn] else pkgs)
            in Inr \<lparr>ri_provides = depvar ''PROVIDES'' md, ri_rprovides = depvar ''RPROVIDES'' md,
                    ri_pn = pn, ri_packages = pkgs,
                    ri_packages_dynamic = listvar ''PACKAGES_DYNAMIC'' md,
                    ri_rprovides_pkg = pkgvar ''RPROVIDES'' pkgs md,
                    ri_skipreason = getvar ''__SKIPPED'' md\<rparr>), cache))"

definition recipe_full_init :: "recipe_base \<Rightarrow> metadata \<Rightarrow> recipe_info result" where
  "recipe_full_init b md =
     bindE (intvar ''DEFAULT_PREFERENCE'' md) (\<lambda>pref.
       Inr (recipe_base.extend b (recipe_info.fields
         (md_tasks md)
         (case md_basehashes md of None \<Rightarrow> [] | Some h \<Rightarrow> h)
         (getvar ''BB_HASHFILENAME'' md)
         (case md_task_deps md of None \<Rightarrow> \<lparr>td_tasks = [], td_parents = [], td_flags = []\<rparr> | Some t \<Rightarrow> t)
         (getvar ''PE'' md) (getvar ''PV'' md) (getvar ''PR'' md) pref
         (getvar ''EXCLUDE_FROM_WORLD'' md) (getvar ''STAMP'' md) (getvar ''STAMPCLEAN'' md)
         (flaglist ''stamp-extra-info'' (md_tasks md) md False)
         (flaglist ''file-checksums'' (md_tasks md) md True)
         (depvar ''DEPENDS'' md) (depvar ''RDEPENDS'' md) (depvar ''RRECOMMENDS'' md)
         (pkgvar ''RDEPENDS'' (ri_packages b) md) (pkgvar ''RRECOMMENDS'' (ri_packages b) md)
         (case md_raw md ''__inherit_cache'' of None \<Rightarrow> [] | Some v \<Rightarrow> v)
         (getvar ''FAKEROOTENV'' md) (getvar ''FAKEROOTDIRS'' md) (getvar ''FAKEROOTLOGS'' md)
         (getvar ''FAKEROOTNOENV'' md) (getvar ''calculate_extra_depends'' md))))"

text \<open>A skipped recipe is a left value, a complete one a right value.\<close>

definition recipe_init ::
  "string \<Rightarrow> metadata \<Rightarrow> pkgsplit_cache \<Rightarrow> (recipe_base + recipe_info) result \<times> pkgsplit_cache" where
  "recipe_init filename md cache =
     (case recipe_base_init filename md cache of (b, cache) \<Rightarrow>
       (bindE b (\<lambda>b. if ri_skipreason b \<noteq> [] then Inr (Inl b)
                     else bindE (recipe_full_init b md) (\<lambda>r. Inr (Inr r))), cache))"

section \<open>The indexes\<close>

record cachedata =
  dc_task_deps :: "(string, taskdeps) odict"
  dc_pkg_fn :: "(string, string) odict"
  dc_pkg_pn :: "(string, string list) odict"
  dc_pkg_pepvpr :: "(string, string \<times> string \<times> string) odict"
  dc_pkg_dp :: "(string, int) odict"
  dc_stamp :: "(string, string) odict"
  dc_stampclean :: "(string, string) odict"
  dc_stamp_extrainfo :: "(string, (string, string option) odict) odict"
  dc_file_checksums :: "(string, (string, string option) odict) odict"
  dc_fn_provides :: "(string, string list) odict"
  dc_pn_provides :: "(string, string list) odict"
  dc_all_depends :: "string list"
  dc_deps :: "(string, string list) odict"
  dc_packages :: "(string, string list) odict"
  dc_providers :: "(string, string list) odict"
  dc_rproviders :: "(string, string list) odict"
  dc_packages_dynamic :: "(string, string list) odict"
  dc_rundeps :: "(string, (string, string list) odict) odict"
  dc_runrecs :: "(string, (string, string list) odict) odict"
  dc_possible_world :: "string list"
  dc_universe_target :: "string list"
  dc_hashfn :: "(string, string) odict"
  dc_basetaskhash :: "(string, string) odict"
  dc_inherits :: "(string, string) odict"
  dc_fakerootenv :: "(string, string) odict"
  dc_fakerootnoenv :: "(string, string) odict"
  dc_fakerootdirs :: "(string, string) odict"
  dc_fakerootlogs :: "(string, string) odict"
  dc_extradepsfunc :: "(string, string) odict"
  dc_preferred :: "(string, string) odict"
  dc_ignored_dependencies :: "string list"
  dc_world_target :: "string list"
  dc_bbfile_priority :: "(string, int) odict"

definition init_cacheData :: cachedata where
  "init_cacheData = \<lparr>dc_task_deps = [], dc_pkg_fn = [], dc_pkg_pn = [], dc_pkg_pepvpr = [],
     dc_pkg_dp = [], dc_stamp = [], dc_stampclean = [], dc_stamp_extrainfo = [],
     dc_file_checksums = [], dc_fn_provides = [], dc_pn_provides = [], dc_all_depends = [],
     dc_deps = [], dc_packages = [], dc_providers = [], dc_rproviders = [],
     dc_packages_dynamic = [], dc_rundeps = [], dc_runrecs = [], dc_possible_world = [],
     dc_universe_target = [], dc_hashfn = [], dc_basetaskhash = [], dc_inherits = [],
     dc_fakerootenv = [], dc_fakerootnoenv = [], dc_fakerootdirs = [], dc_fakerootlogs = [],
     dc_extradepsfunc = [], dc_preferred = [], dc_ignored_dependencies = [],
     dc_world_target = [], dc_bbfile_priority = []\<rparr>"

text \<open>\<open>d[k].append(v)\<close> and the guarded form on a \<^verbatim>\<open>defaultdict(list)\<close>.\<close>

definition dd_append :: "string \<Rightarrow> string \<Rightarrow> (string, string list) odict \<Rightarrow> (string, string list) odict" where
  "dd_append k v d = dset k (dget_default d k [] @ [v]) d"

definition dd_append_new ::
  "string \<Rightarrow> string \<Rightarrow> (string, string list) odict \<Rightarrow> (string, string list) odict" where
  "dd_append_new k v d =
     (if v \<in> set (dget_default d k []) then d else dd_append k v d)"

definition ri_all_provides :: "recipe_info \<Rightarrow> string list" where
  "ri_all_provides r = supdate [ri_pn r] (ri_provides r)"

text \<open>The part of \<^verbatim>\<open>add_cacheData\<close> up to the provides of the recipe.\<close>

definition add_provides :: "string \<Rightarrow> recipe_info \<Rightarrow> cachedata \<Rightarrow> cachedata" where
  "add_provides fn r c =
     (let provides = ri_all_provides r;
          c = c\<lparr>dc_task_deps := dset fn (ri_task_deps r) (dc_task_deps c),
                dc_pkg_fn := dset fn (ri_pn r) (dc_pkg_fn c),
                dc_pkg_pn := dd_append (ri_pn r) fn (dc_pkg_pn c),
                dc_pkg_pepvpr := dset fn (ri_pe r, ri_pv r, ri_pr r) (dc_pkg_pepvpr c),
                dc_pkg_dp := dset fn (ri_defaultpref r) (dc_pkg_dp c),
                dc_stamp := dset fn (ri_stamp r) (dc_stamp c),
                dc_stampclean := dset fn (ri_stampclean r) (dc_stampclean c),
                dc_stamp_extrainfo := dset fn (ri_stamp_extrainfo r) (dc_stamp_extrainfo c),
                dc_file_checksums := dset fn (ri_file_checksums r) (dc_file_checksums c),
                dc_fn_provides := dset fn provides (dc_fn_provides c)\<rparr>
      in c\<lparr>dc_providers := fold (\<lambda>p. dd_append p fn) provides (dc_providers c),
           dc_pn_provides := fold (dd_append_new (ri_pn r)) provides (dc_pn_provides c)\<rparr>)"

text \<open>
  Its loops over dependencies and packages. The loop over the packages extends the list
  \<^verbatim>\<open>self.rprovides\<close> itself, so the recipe is returned with the longer list.
\<close>

definition rprovides_all :: "recipe_info \<Rightarrow> string list result" where
  "rprovides_all r =
     foldE (\<lambda>p acc. bindE (dindex (ri_rprovides_pkg r) p) (\<lambda>ps. Inr (acc @ ps)))
       (ri_packages r) (ri_rprovides r)"

definition add_packages :: "string \<Rightarrow> recipe_info \<Rightarrow> cachedata \<Rightarrow> (recipe_info \<times> cachedata) result" where
  "add_packages fn r c =
     bindE (rprovides_all r) (\<lambda>rprovides.
       Inr (r\<lparr>ri_rprovides := rprovides\<rparr>,
            c\<lparr>dc_deps := fold (dd_append_new fn) (ri_depends r) (dc_deps c),
              dc_all_depends := supdate (dc_all_depends c) (ri_depends r),
              dc_packages := fold (\<lambda>p. dd_append p fn) (ri_packages r) (dc_packages c),
              dc_rproviders := fold (\<lambda>p. dd_append_new p fn) rprovides (dc_rproviders c),
              dc_packages_dynamic :=
                fold (\<lambda>p. dd_append p fn) (ri_packages_dynamic r) (dc_packages_dynamic c)\<rparr>))"

text \<open>\<open>d[fn][package] = base + per_package[package]\<close> for every package.\<close>

definition add_rundeps ::
  "string \<Rightarrow> string list \<Rightarrow> (string, string list) odict \<Rightarrow> string list \<Rightarrow>
   (string, (string, string list) odict) odict \<Rightarrow> (string, (string, string list) odict) odict result" where
  "add_rundeps fn base per_package pkgs d =
     foldE (\<lambda>p d. bindE (dindex per_package p) (\<lambda>ps.
       Inr (dset fn (dset p (base @ ps) (dget_default d fn [])) d))) pkgs d"

definition add_rest :: "string \<Rightarrow> recipe_info \<Rightarrow> cachedata \<Rightarrow> cachedata result" where
  "add_rest fn r c =
     bindE (add_rundeps fn (ri_rdepends r) (ri_rdepends_pkg r) (ri_packages r) (dc_rundeps c))
       (\<lambda>rundeps.
     bindE (add_rundeps fn (ri_rrecommends r) (ri_rrecommends_pkg r) (ri_packages r) (dc_runrecs c))
       (\<lambda>runrecs.
     bindE (to_boolean (ri_not_world r) None) (\<lambda>nw.
       Inr (c\<lparr>dc_rundeps := rundeps, dc_runrecs := runrecs,
         dc_possible_world := (if nw = Some True then dc_possible_world c
                               else dc_possible_world c @ [fn]),
         dc_universe_target := dc_universe_target c @ [ri_pn r],
         dc_hashfn := dset fn (ri_hashfilename r) (dc_hashfn c),
         dc_basetaskhash := fold (\<lambda>(task, h). dset (fn @ '':'' @ task) h)
           (ri_basetaskhashes r) (dc_basetaskhash c),
         dc_inherits := dset fn (ri_inherits r) (dc_inherits c),
         dc_fakerootenv := dset fn (ri_fakerootenv r) (dc_fakerootenv c),
         dc_fakerootnoenv := dset fn (ri_fakerootnoenv r) (dc_fakerootnoenv c),
         dc_fakerootdirs := dset fn (ri_fakerootdirs r) (dc_fakerootdirs c),
         dc_fakerootlogs := dset fn (ri_fakerootlogs r) (dc_fakerootlogs c),
         dc_extradepsfunc := dset fn (ri_extradepsfunc r) (dc_extradepsfunc c)\<rparr>))))"

definition add_cacheData :: "string \<Rightarrow> recipe_info \<Rightarrow> cachedata \<Rightarrow> (recipe_info \<times> cachedata) result" where
  "add_cacheData fn r c =
     bindE (add_packages fn r (add_provides fn r c))
       (\<lambda>(r, c). bindE (add_rest fn r c) (\<lambda>c. Inr (r, c)))"

text \<open>\<open>add_from_recipeinfo\<close> for one recipe after the other.\<close>

definition add_recipes :: "(string \<times> recipe_info) list \<Rightarrow> cachedata \<Rightarrow> cachedata result" where
  "add_recipes rs c = foldE (\<lambda>(fn, r) c. bindE (add_cacheData fn r c) (\<lambda>(r, c). Inr c)) rs c"

section \<open>Consistency of the indexes\<close>

definition known_files :: "cachedata \<Rightarrow> (string, string list) odict \<Rightarrow> bool" where
  "known_files c d \<longleftrightarrow> (\<forall>p. \<forall>fn \<in> set (dget_default d p []). dget (dc_pkg_fn c) fn \<noteq> None)"

definition files_wf :: "cachedata \<Rightarrow> bool" where
  "files_wf c \<longleftrightarrow> (\<forall>fn pn. dget (dc_pkg_fn c) fn = Some pn \<longrightarrow>
     dget (dc_pkg_pepvpr c) fn \<noteq> None \<and> dget (dc_pkg_dp c) fn \<noteq> None \<and>
     dget (dc_task_deps c) fn \<noteq> None \<and>
     pn \<in> set (dget_default (dc_fn_provides c) fn []) \<and>
     set (dget_default (dc_fn_provides c) fn []) \<subseteq> set (dget_default (dc_pn_provides c) pn []))"

definition providers_wf :: "cachedata \<Rightarrow> bool" where
  "providers_wf c \<longleftrightarrow> (\<forall>p. distinct (dget_default (dc_providers c) p []) \<and>
     (\<forall>fn. fn \<in> set (dget_default (dc_providers c) p []) \<longleftrightarrow>
        dget (dc_pkg_fn c) fn \<noteq> None \<and> p \<in> set (dget_default (dc_fn_provides c) fn [])))"

definition pkg_pn_wf :: "cachedata \<Rightarrow> bool" where
  "pkg_pn_wf c \<longleftrightarrow> (\<forall>pn. distinct (dget_default (dc_pkg_pn c) pn []) \<and>
     (\<forall>fn. fn \<in> set (dget_default (dc_pkg_pn c) pn []) \<longleftrightarrow> dget (dc_pkg_fn c) fn = Some pn))"

definition packages_wf :: "cachedata \<Rightarrow> bool" where
  "packages_wf c \<longleftrightarrow> known_files c (dc_rproviders c) \<and>
     (\<forall>p. distinct (dget_default (dc_rproviders c) p [])) \<and>
     known_files c (dc_packages c) \<and> known_files c (dc_packages_dynamic c) \<and>
     (\<forall>f \<in> set (dc_possible_world c). dget (dc_pkg_fn c) f \<noteq> None)"

definition cache_wf :: "cachedata \<Rightarrow> bool" where
  "cache_wf c \<longleftrightarrow> files_wf c \<and> providers_wf c \<and> pkg_pn_wf c \<and> packages_wf c"

lemmas cache_wf_defs = cache_wf_def files_wf_def providers_wf_def pkg_pn_wf_def packages_wf_def

lemma cache_wf_init: "cache_wf init_cacheData"
  by (simp add: cache_wf_defs init_cacheData_def known_files_def dget_default_def)

subsection \<open>What the index updates do\<close>

lemma dd_append_get [dict_simps]:
  "dget_default (dd_append k v d) j [] = dget_default d j [] @ (if j = k then [v] else [])"
  by (auto simp: dd_append_def dget_default_dset_other)

lemma dd_append_new_get [dict_simps]:
  "dget_default (dd_append_new k v d) j [] =
     (if j = k then sadd v (dget_default d k []) else dget_default d j [])"
  by (auto simp: dd_append_new_def dd_append_get sadd_def)

lemma fold_dd_append_get [dict_simps]:
  "dget_default (fold (\<lambda>p. dd_append p v) ps d) j [] =
     dget_default d j [] @ replicate (count_list ps j) v"
  by (induction ps arbitrary: d) (auto simp: dd_append_get replicate_app_Cons_same)

lemma fold_dd_append_new_keys [dict_simps]:
  "dget_default (fold (\<lambda>p. dd_append_new p v) ps d) j [] =
     (if j \<in> set ps then sadd v (dget_default d j []) else dget_default d j [])"
proof (induction ps arbitrary: d)
  case (Cons p ps)
  then show ?case by (auto simp: dd_append_new_get sadd_def)
qed simp

lemma fold_dd_append_new_vals [dict_simps]:
  "dget_default (fold (dd_append_new k) vs d) j [] =
     (if j = k then supdate (dget_default d k []) vs else dget_default d j [])"
proof (induction vs arbitrary: d)
  case (Cons v vs)
  then show ?case by (auto simp: dd_append_new_get supdate_def)
qed (simp add: supdate_def)

lemma ri_all_provides_simps [simp]:
  "ri_pn r \<in> set (ri_all_provides r)" "distinct (ri_all_provides r)"
  by (simp_all add: ri_all_provides_def)

lemma set_ri_all_provides: "set (ri_all_provides r) = insert (ri_pn r) (set (ri_provides r))"
  by (simp add: ri_all_provides_def)

lemma count_list_distinct: "distinct xs \<Longrightarrow> count_list xs x = (if x \<in> set xs then 1 else 0)"
  by (induction xs) auto

text \<open>What \<open>add_cacheData\<close> leaves in the indexes that the invariant is about.\<close>

lemma add_rest_world:
  "add_rest fn r c = Inr c' \<Longrightarrow> set (dc_possible_world c') \<subseteq> insert fn (set (dc_possible_world c)) \<and>
     dc_world_target c' = dc_world_target c"
  by (auto simp: add_rest_def bindE_eq_Inr split: if_splits)

lemma add_packages_world:
  "add_packages fn r c = Inr (r', c') \<Longrightarrow> dc_possible_world c' = dc_possible_world c \<and>
     dc_world_target c' = dc_world_target c"
  by (auto simp: add_packages_def bindE_eq_Inr)

lemma add_provides_world:
  "dc_possible_world (add_provides fn r c) = dc_possible_world c"
  "dc_world_target (add_provides fn r c) = dc_world_target c"
  by (simp_all add: add_provides_def Let_def)

lemma add_cacheData_world:
  "add_cacheData fn r c = Inr (r', c') \<Longrightarrow>
     set (dc_possible_world c') \<subseteq> insert fn (set (dc_possible_world c)) \<and>
     dc_world_target c' = dc_world_target c"
  by (auto simp: add_cacheData_def bindE_eq_Inr add_provides_world
      dest!: add_packages_world add_rest_world)

lemma add_cacheData_fields:
  assumes "add_cacheData fn r c = Inr (r', c')"
  shows "dc_pkg_fn c' = dset fn (ri_pn r) (dc_pkg_fn c)"
    and "dc_pkg_pepvpr c' = dset fn (ri_pe r, ri_pv r, ri_pr r) (dc_pkg_pepvpr c)"
    and "dc_pkg_dp c' = dset fn (ri_defaultpref r) (dc_pkg_dp c)"
    and "dc_task_deps c' = dset fn (ri_task_deps r) (dc_task_deps c)"
    and "dc_fn_provides c' = dset fn (ri_all_provides r) (dc_fn_provides c)"
    and "dc_pkg_pn c' = dd_append (ri_pn r) fn (dc_pkg_pn c)"
    and "dc_providers c' = fold (\<lambda>p. dd_append p fn) (ri_all_provides r) (dc_providers c)"
    and "dc_pn_provides c' = fold (dd_append_new (ri_pn r)) (ri_all_provides r) (dc_pn_provides c)"
    and "dc_packages c' = fold (\<lambda>p. dd_append p fn) (ri_packages r) (dc_packages c)"
    and "dc_packages_dynamic c' =
           fold (\<lambda>p. dd_append p fn) (ri_packages_dynamic r) (dc_packages_dynamic c)"
    and "dc_rproviders c' = fold (\<lambda>p. dd_append_new p fn) (ri_rprovides r') (dc_rproviders c)"
    and "rprovides_all r = Inr (ri_rprovides r')"
    and "dc_deps c' = fold (dd_append_new fn) (ri_depends r) (dc_deps c)"
  using assms
  by (auto simp: add_cacheData_def add_packages_def add_rest_def add_provides_def bindE_eq_Inr
      Let_def)

lemma add_cacheData_rundeps:
  assumes "add_cacheData fn r c = Inr (r', c')"
  shows "add_rundeps fn (ri_rdepends r) (ri_rdepends_pkg r) (ri_packages r) (dc_rundeps c) =
           Inr (dc_rundeps c')"
    and "add_rundeps fn (ri_rrecommends r) (ri_rrecommends_pkg r) (ri_packages r) (dc_runrecs c) =
           Inr (dc_runrecs c')"
  using assms
  by (auto simp: add_cacheData_def add_packages_def add_rest_def add_provides_def bindE_eq_Inr
      Let_def)

lemma known_files_fold_append:
  assumes "known_files c d" and "dc_pkg_fn c' = dset fn pn (dc_pkg_fn c)"
  shows "known_files c' (fold (\<lambda>p. dd_append p fn) ps d)"
    and "known_files c' (fold (\<lambda>p. dd_append_new p fn) ps d)"
  using assms by (auto simp: known_files_def dict_simps split: if_splits)

text \<open>The invariant is kept by the record of a file that is not yet indexed.\<close>

lemma cache_wf_add:
  assumes wf: "cache_wf c" and fresh: "dget (dc_pkg_fn c) fn = None"
    and add: "add_cacheData fn r c = Inr (r', c')"
  shows "cache_wf c'"
proof -
  note f = add_cacheData_fields [OF add]
  have 1: "files_wf c" and 2: "providers_wf c" and 3: "pkg_pn_wf c" and 4: "packages_wf c"
    using wf by (simp_all add: cache_wf_def)
  have provided: "x \<in> set (dget_default (dc_pn_provides c) pn [])"
    if "dget (dc_pkg_fn c) g = Some pn" "x \<in> set (dget_default (dc_fn_provides c) g [])" for g pn x
    using 1 that unfolding files_wf_def by blast
  have "files_wf c'"
    using 1 unfolding files_wf_def f by (auto simp: dict_simps dest: provided split: if_splits)
  moreover have "fn \<notin> set (dget_default (dc_providers c) p [])" for p
    using 2 fresh by (simp add: providers_wf_def)
  then have "providers_wf c'"
    using 2 unfolding providers_wf_def f by (auto simp: dict_simps count_list_distinct)
  moreover have "fn \<notin> set (dget_default (dc_pkg_pn c) p [])" for p
    using 3 fresh by (simp add: pkg_pn_wf_def)
  then have "pkg_pn_wf c'"
    using 3 unfolding pkg_pn_wf_def f by (auto simp: dict_simps)
  moreover have "packages_wf c'"
    using 4 known_files_fold_append [OF _ f(1)] unfolding packages_wf_def f
    using add_cacheData_world [OF add] by (auto simp: dict_simps)
  ultimately show ?thesis by (simp add: cache_wf_def)
qed

lemma add_recipes_pkg_fn:
  assumes "add_recipes rs c = Inr c'"
  shows "dget (dc_pkg_fn c') fn =
    (case map_of (rev rs) fn of None \<Rightarrow> dget (dc_pkg_fn c) fn | Some r \<Rightarrow> Some (ri_pn r))"
  using assms
proof (induction rs arbitrary: c)
  case (Cons x rs)
  obtain f r where x: "x = (f, r)" by (cases x)
  obtain r' d where add: "add_cacheData f r c = Inr (r', d)" and rest: "add_recipes rs d = Inr c'"
    using Cons.prems by (auto simp: add_recipes_def x bindE_eq_Inr)
  show ?case
    using Cons.IH [OF rest] add_cacheData_fields(1) [OF add]
    by (auto simp: x dict_simps map_add_def split: option.splits)
qed (simp add: add_recipes_def)

lemma add_recipes_world_target: "add_recipes rs c = Inr c' \<Longrightarrow> dc_world_target c' = dc_world_target c"
  unfolding add_recipes_def
  by (rule foldE_invariant [of _ rs c c' "\<lambda>d. dc_world_target d = dc_world_target c"])
    (auto simp: bindE_eq_Inr dest!: add_cacheData_world)

lemma cache_wf_add_recipes:
  assumes "add_recipes rs c = Inr c'" and "cache_wf c" and "distinct (map fst rs)"
    and "\<forall>fn \<in> fst ` set rs. dget (dc_pkg_fn c) fn = None"
  shows "cache_wf c'"
  using assms
proof (induction rs arbitrary: c)
  case (Cons x rs)
  obtain f r where x: "x = (f, r)" by (cases x)
  obtain r' d where add: "add_cacheData f r c = Inr (r', d)" and rest: "add_recipes rs d = Inr c'"
    using Cons.prems(1) by (auto simp: add_recipes_def x bindE_eq_Inr)
  have "cache_wf d" using cache_wf_add [OF _ _ add] Cons.prems x by simp
  moreover have "\<forall>fn \<in> fst ` set rs. dget (dc_pkg_fn d) fn = None"
    using Cons.prems(3,4) add_cacheData_fields(1) [OF add] x by (auto simp: dict_simps)
  ultimately show ?case using Cons.IH [OF rest] Cons.prems(3) by simp
qed (simp add: add_recipes_def)

lemma add_recipes_indexes:
  assumes "add_recipes rs c = Inr c'"
  shows "dget_default (dc_providers c') p [] = dget_default (dc_providers c) p [] @
           map fst (filter (\<lambda>(fn, r). p \<in> set (ri_all_provides r)) rs)"
    and "dget_default (dc_pkg_pn c') pn [] = dget_default (dc_pkg_pn c) pn [] @
           map fst (filter (\<lambda>(fn, r). ri_pn r = pn) rs)"
  using assms
proof (induction rs arbitrary: c)
  case (Cons x rs)
  obtain f r where x: "x = (f, r)" by (cases x)
  { case 1
    then obtain r' d where add: "add_cacheData f r c = Inr (r', d)" and rest: "add_recipes rs d = Inr c'"
      by (auto simp: add_recipes_def x bindE_eq_Inr)
    show ?case
      using Cons.IH(1) [OF rest] add_cacheData_fields [OF add]
      by (simp add: x dict_simps count_list_distinct)
  next
    case 2
    then obtain r' d where add: "add_cacheData f r c = Inr (r', d)" and rest: "add_recipes rs d = Inr c'"
      by (auto simp: add_recipes_def x bindE_eq_Inr)
    show ?case
      using Cons.IH(2) [OF rest] add_cacheData_fields [OF add]
      by (simp add: x dict_simps)
  }
qed (simp_all add: add_recipes_def)

text \<open>
  The record of a complete recipe has an entry for each of its packages in the three dictionaries
  that are indexed by package, so adding it to the indexes can only fail on the value of
  \<^verbatim>\<open>EXCLUDE_FROM_WORLD\<close>.
\<close>

definition recipe_ok :: "recipe_info \<Rightarrow> bool" where
  "recipe_ok r \<longleftrightarrow> (\<forall>p \<in> set (ri_packages r). dhas (ri_rprovides_pkg r) p \<and>
      dhas (ri_rdepends_pkg r) p \<and> dhas (ri_rrecommends_pkg r) p) \<and>
     \<not> isl (to_boolean (ri_not_world r) None)"

lemma add_rundeps_total:
  assumes "\<forall>p \<in> set pkgs. dhas per_package p"
  shows "\<exists>d'. add_rundeps fn base per_package pkgs d = Inr d'"
  unfolding add_rundeps_def
proof (rule foldE_total)
  fix p and d :: "(string, (string, string list) odict) odict"
  assume "p \<in> set pkgs"
  then obtain ps where "dindex per_package p = Inr ps" using assms dhas_index by fast
  then show "\<exists>t. bindE (dindex per_package p) (\<lambda>ps. Inr (dset fn (dset p (base @ ps)
      (dget_default d fn [])) d)) = Inr t" by simp
qed

lemma rprovides_all_total:
  assumes "\<forall>p \<in> set (ri_packages r). dhas (ri_rprovides_pkg r) p"
  shows "\<exists>ps. rprovides_all r = Inr ps"
  unfolding rprovides_all_def
proof (rule foldE_total)
  fix p and acc :: "string list"
  assume "p \<in> set (ri_packages r)"
  then obtain ps where "dindex (ri_rprovides_pkg r) p = Inr ps" using assms dhas_index by fast
  then show "\<exists>t. bindE (dindex (ri_rprovides_pkg r) p) (\<lambda>ps. Inr (acc @ ps)) = Inr t" by simp
qed

lemma add_cacheData_total:
  assumes "recipe_ok r"
  shows "\<exists>r' c'. add_cacheData fn r c = Inr (r', c')"
proof -
  obtain rps where rps: "rprovides_all r = Inr rps"
    using rprovides_all_total assms unfolding recipe_ok_def by blast
  obtain nw where nw: "to_boolean (ri_not_world r) None = Inr nw"
    using assms by (cases "to_boolean (ri_not_world r) None") (simp_all add: recipe_ok_def)
  have rd: "\<exists>d'. add_rundeps fn base (ri_rdepends_pkg r) (ri_packages r) d = Inr d'"
    and rr: "\<exists>d'. add_rundeps fn base (ri_rrecommends_pkg r) (ri_packages r) d = Inr d'" for base d
    using add_rundeps_total assms unfolding recipe_ok_def by blast+
  obtain r1 c1 where 1: "add_packages fn r (add_provides fn r c) = Inr (r1, c1)"
    and same: "ri_packages r1 = ri_packages r" "ri_rdepends_pkg r1 = ri_rdepends_pkg r"
      "ri_rrecommends_pkg r1 = ri_rrecommends_pkg r" "ri_not_world r1 = ri_not_world r"
    by (simp add: add_packages_def rps)
  obtain d1 where d1: "add_rundeps fn (ri_rdepends r1) (ri_rdepends_pkg r) (ri_packages r)
      (dc_rundeps c1) = Inr d1"
    using rd by blast
  obtain d2 where d2: "add_rundeps fn (ri_rrecommends r1) (ri_rrecommends_pkg r) (ri_packages r)
      (dc_runrecs c1) = Inr d2"
    using rr by blast
  show ?thesis
    by (simp add: add_cacheData_def 1 add_rest_def same d1 d2 nw)
qed

lemma add_recipes_total: "\<forall>r \<in> snd ` set rs. recipe_ok r \<Longrightarrow> \<exists>c'. add_recipes rs c = Inr c'"
  unfolding add_recipes_def
proof (rule foldE_total)
  fix x c
  assume ok: "\<forall>r \<in> snd ` set rs. recipe_ok r" and x: "x \<in> set rs"
  then have "recipe_ok (snd x)" by blast
  then obtain r' c' where "add_cacheData (fst x) (snd x) c = Inr (r', c')"
    using add_cacheData_total by blast
  then show "\<exists>t. (case x of (fn, r) \<Rightarrow> \<lambda>c. bindE (add_cacheData fn r c) (\<lambda>(r, c). Inr c)) c = Inr t"
    by (simp add: case_prod_beta)
qed

lemma pkgvar_keys: "set (dkeys (pkgvar var pkgs md)) = set pkgs"
proof -
  have "set (dkeys (fold (\<lambda>pkg. dset pkg (depvar (var @ '':'' @ pkg) md)) pkgs d)) =
      set (dkeys d) \<union> set pkgs" for d
  proof (induction pkgs arbitrary: d)
    case (Cons p pkgs)
    then show ?case by (auto simp: dict_simps simp del: set_map)
  qed simp
  from this [of "[]"] show ?thesis by (simp add: pkgvar_def)
qed

lemma pkgvar_has: "p \<in> set pkgs \<Longrightarrow> dhas (pkgvar var pkgs md) p"
  using pkgvar_keys [of var pkgs md] by (simp add: dhas_def)

lemma recipe_init_ok:
  assumes "recipe_init filename md cache = (Inr (Inr r), cache')"
    and "\<not> isl (to_boolean (getvar ''EXCLUDE_FROM_WORLD'' md) None)"
  shows "recipe_ok r"
proof -
  obtain b cache'' where b: "recipe_base_init filename md cache = (Inr b, cache'')"
    and full: "recipe_full_init b md = Inr r"
    using assms(1)
    by (auto simp: recipe_init_def bindE_eq_Inr split: prod.splits if_splits)
  have "ri_rprovides_pkg b = pkgvar ''RPROVIDES'' (ri_packages b) md"
    using b by (auto simp: recipe_base_init_def bindE_eq_Inr Let_def split: prod.splits option.splits)
  then show ?thesis
    using full assms(2)
    by (auto simp: recipe_full_init_def bindE_eq_Inr recipe_ok_def recipe_base.defs recipe_info.defs
        pkgvar_has)
qed

subsection \<open>Properties\<close>

text \<open>C37. Parsed recipes of pairwise different files whose EXCLUDE_FROM_WORLD is a boolean are
  indexed without an exception and the cache is consistent: every file has its version, preference
  and task data, and the index from names to files is the inverse of the index from files to the
  names they provide.\<close>

theorem parsed_recipes_indexed:
  assumes "\<forall>(fn, r) \<in> set rs. \<exists>md cache cache'. recipe_init fn md cache = (Inr (Inr r), cache') \<and>
      \<not> isl (to_boolean (getvar ''EXCLUDE_FROM_WORLD'' md) None)"
    and "distinct (map fst rs)"
  shows "\<exists>c. add_recipes rs init_cacheData = Inr c \<and> cache_wf c"
proof -
  have "\<forall>r \<in> snd ` set rs. recipe_ok r"
    using assms(1) recipe_init_ok by fastforce
  then obtain c where c: "add_recipes rs init_cacheData = Inr c"
    using add_recipes_total by blast
  with cache_wf_add_recipes [OF c cache_wf_init assms(2)] show ?thesis
    by (simp add: init_cacheData_def)
qed

text \<open>The providers of a name are exactly the files whose recipe is called or provides it, in
  the order in which the files were added, and so for the files of a recipe name.\<close>

theorem add_recipes_providers:
  assumes "add_recipes rs init_cacheData = Inr c"
  shows "dget_default (dc_providers c) p [] =
           map fst (filter (\<lambda>(fn, r). p = ri_pn r \<or> p \<in> set (ri_provides r)) rs) \<and>
         dget_default (dc_pkg_pn c) pn [] = map fst (filter (\<lambda>(fn, r). ri_pn r = pn) rs)"
  using add_recipes_indexes [OF assms]
  by (simp_all add: set_ri_all_provides init_cacheData_def dget_default_def case_prod_beta)

definition sample_recipe :: "string \<Rightarrow> string list \<Rightarrow> recipe_info" where
  "sample_recipe pn provides =
     recipe_base.extend \<lparr>ri_provides = provides, ri_rprovides = [], ri_pn = pn, ri_packages = [pn],
       ri_packages_dynamic = [], ri_rprovides_pkg = [(pn, [pn])], ri_skipreason = []\<rparr>
     (recipe_info.fields [''do_build''] [] [] \<lparr>td_tasks = [''do_build''], td_parents = [], td_flags = []\<rparr>
        [] ''1'' ''r0'' 0 [] [] [] [] [] [''zlib''] [] [] [(pn, [])] [(pn, [])] [] [] [] [] [] [])"

definition sample_recipes :: "(string \<times> recipe_info) list" where
  "sample_recipes = [(''a.bb'', sample_recipe ''a'' [''virtual/x'']), (''b.bb'', sample_recipe ''b'' [''virtual/x''])]"

lemma sample_recipes_add: "\<exists>c. add_recipes sample_recipes init_cacheData = Inr c"
proof -
  have "\<forall>r \<in> snd ` set sample_recipes. recipe_ok r" by code_simp
  then show ?thesis using add_recipes_total by blast
qed

definition sample_metadata :: metadata where
  "sample_metadata = \<lparr>md_var = map_of [(''PN'', ''a''), (''PV'', ''1''), (''PROVIDES'', ''a virtual/x''),
       (''RDEPENDS:a'', ''zlib (>= 1)'')],
     md_flag = (\<lambda>_ _. None), md_raw = (\<lambda>_. None), md_tasks = [''do_build''], md_task_deps = None,
     md_basehashes = None\<rparr>"

lemma parsed_recipes_indexed_witness:
  "\<exists>r c. fst (recipe_init ''a.bb'' sample_metadata []) = Inr (Inr r) \<and>
     add_recipes [(''a.bb'', r)] init_cacheData = Inr c \<and> cache_wf c"
proof -
  have "case fst (recipe_init ''a.bb'' sample_metadata []) of Inr (Inr r) \<Rightarrow> True | _ \<Rightarrow> False"
    by code_simp
  then obtain r where r: "fst (recipe_init ''a.bb'' sample_metadata []) = Inr (Inr r)"
    by (auto split: sum.splits)
  moreover have "\<not> isl (to_boolean (getvar ''EXCLUDE_FROM_WORLD'' sample_metadata) None)"
    by code_simp
  ultimately show ?thesis
    using parsed_recipes_indexed [of "[(''a.bb'', r)]"] by (auto simp: prod_eq_iff)
qed

lemma add_recipes_providers_witness:
  "\<exists>c. add_recipes sample_recipes init_cacheData = Inr c \<and>
       dget_default (dc_providers c) ''virtual/x'' [] = [''a.bb'', ''b.bb'']"
proof -
  obtain c where c: "add_recipes sample_recipes init_cacheData = Inr c"
    using sample_recipes_add by blast
  have "map fst (filter (\<lambda>(fn, r). ''virtual/x'' = ri_pn r \<or> ''virtual/x'' \<in> set (ri_provides r))
      sample_recipes) = [''a.bb'', ''b.bb'']" by code_simp
  with c show ?thesis using add_recipes_providers [OF c] by auto
qed

end
