(* ===== verification/Versions.thy ===== *)
theory Versions
  imports Strings "HOL-Library.Product_Lexorder"
begin

text \<open>
  Version strings: \<^verbatim>\<open>explode_version\<close>, \<^verbatim>\<open>split_version\<close>,
  \<^verbatim>\<open>vercmp_part\<close>, \<^verbatim>\<open>vercmp\<close>, \<^verbatim>\<open>vercmp_string\<close> and
  \<^verbatim>\<open>vercmp_string_op\<close> of \<^verbatim>\<open>bb/utils.py\<close>. The comparison loop is shown
  equal to a lexicographic comparison of keys, so the comparison is a total preorder; the
  interface \<open>comparator\<close> states that contract and \<open>vercmp\<close> is an instance of it.
\<close>

section \<open>The code\<close>

text \<open>The second component of a part: \<^verbatim>\<open>None\<close>, an integer or a string.\<close>

datatype vval = VNone | VInt int | VStr string

type_synonym vpart = "int \<times> vval"

text \<open>
  What the group \<^verbatim>\<open>(.*)\<close> before \<^verbatim>\<open>$\<close> captures of the rest of a string: a
  dot does not match a newline, and \<^verbatim>\<open>$\<close> also matches before a final newline.
\<close>

definition re_tail :: "string \<Rightarrow> string option" where
  "re_tail t = (let l = takeWhile (\<lambda>c. c \<noteq> newline) t
     in if t = l \<or> t = l @ [newline] then Some l else None)"

lemma length_re_tail: "re_tail t = Some u \<Longrightarrow> length u \<le> length t"
  by (auto simp: re_tail_def Let_def length_takeWhile_le split: if_splits)

function explode_version :: "string \<Rightarrow> vpart list result" where
  "explode_version [] = Inr []"
| "explode_version (c # cs) =
     (if is_digit c then
        (case re_tail (dropWhile is_digit cs) of
           None \<Rightarrow> Inl AttributeError
         | Some t \<Rightarrow> bindE (explode_version t)
             (\<lambda>r. Inr ((0, VInt (digits_val 0 (takeWhile is_digit (c # cs)))) # r)))
      else if is_letter c then
        (case re_tail (dropWhile is_letter cs) of
           None \<Rightarrow> Inl AttributeError
         | Some t \<Rightarrow> bindE (explode_version t)
             (\<lambda>r. Inr ((1, VStr (takeWhile is_letter (c # cs))) # r)))
      else bindE (explode_version cs)
             (\<lambda>r. Inr ((if c = CHR ''~'' then (-1, VStr [c]) else (2, VStr [c])) # r)))"
  by pat_completeness auto
termination
  by (relation "measure length")
    (auto simp: less_Suc_eq_le
      intro: order_trans [OF length_re_tail length_dropWhile_le])

text \<open>\<^verbatim>\<open>(PE, PV, PR)\<close>; an epoch is an integer or a string in the callers.\<close>

datatype epoch = ENone | EInt int | EStr string

type_synonym version = "epoch \<times> string \<times> string"

definition split_version :: "string \<Rightarrow> version result" where
  "split_version s0 =
     (let s = strip_chars '' <>='' s0
      in bindE
        (if CHR '':'' \<in> set s
         then bindE (py_int (split_on (CHR '':'') s ! 0))
                (\<lambda>e. Inr (EInt e, split_on (CHR '':'') s ! 1))
         else Inr (EInt 0, s))
        (\<lambda>(e, s). if CHR ''-'' \<in> set s
           then Inr (e, before_last (CHR ''-'') s, after_last (CHR ''-'') s)
           else Inr (e, s, [])))"

text \<open>\<open>ca < cb\<close> raises TypeError on values of different types.\<close>

fun vless :: "vval \<Rightarrow> vval \<Rightarrow> bool result" where
  "vless (VInt a) (VInt b) = Inr (a < b)"
| "vless (VStr a) (VStr b) = Inr (a < b)"
| "vless _ _ = Inl TypeError"

definition vfirst :: "vpart list \<Rightarrow> vpart" where
  "vfirst v = (case v of [] \<Rightarrow> (0, VNone) | p # _ \<Rightarrow> p)"

function vercmp_loop :: "vpart list \<Rightarrow> vpart list \<Rightarrow> int result" where
  "vercmp_loop va vb =
     (let (oa, ca) = vfirst va; (ob, cb) = vfirst vb
      in if (oa, ca) = (0, VNone) \<and> (ob, cb) = (0, VNone) then Inr 0
         else if oa < ob then Inr (-1)
         else if oa > ob then Inr 1
         else if ca = VNone then Inr (-1)
         else if cb = VNone then Inr 1
         else bindE (vless ca cb) (\<lambda>lt. if lt then Inr (-1) else
              bindE (vless cb ca) (\<lambda>gt. if gt then Inr 1 else
              vercmp_loop (tl va) (tl vb))))"
  by pat_completeness auto
termination
proof (relation "measure (\<lambda>(va, vb). length va + length vb)")
  fix va vb :: "vpart list" and x oa ca y ob cb lt gt
  assume "x = vfirst va" "(oa, ca) = x" "ca \<noteq> VNone"
  then have "va \<noteq> []" by (auto simp: vfirst_def)
  then show "((tl va, tl vb), va, vb) \<in> measure (\<lambda>(va, vb). length va + length vb)"
    by (cases va) auto
qed simp

declare vercmp_loop.simps [simp del]

definition vercmp_part :: "string \<Rightarrow> string \<Rightarrow> int result" where
  "vercmp_part a b =
     bindE (explode_version a) (\<lambda>va. bindE (explode_version b) (\<lambda>vb. vercmp_loop va vb))"

text \<open>\<open>int(ea or 0)\<close>\<close>

fun epoch_int :: "epoch \<Rightarrow> int result" where
  "epoch_int ENone = Inr 0"
| "epoch_int (EInt n) = Inr n"
| "epoch_int (EStr s) = (if s = [] then Inr 0 else py_int s)"

definition vercmp :: "version \<Rightarrow> version \<Rightarrow> int result" where
  "vercmp ta tb =
     (case ta of (ea, va, ra) \<Rightarrow> case tb of (eb, vb, rb) \<Rightarrow>
        bindE (epoch_int ea) (\<lambda>na. bindE (epoch_int eb) (\<lambda>nb.
        bindE (if na - nb = 0 then vercmp_part va vb else Inr (na - nb)) (\<lambda>r.
        if r = 0 then vercmp_part ra rb else Inr r))))"

definition vercmp_string :: "string \<Rightarrow> string \<Rightarrow> int result" where
  "vercmp_string a b =
     bindE (split_version a) (\<lambda>ta. bindE (split_version b) (\<lambda>tb. vercmp ta tb))"

definition vercmp_string_op :: "string \<Rightarrow> string \<Rightarrow> string \<Rightarrow> bool result" where
  "vercmp_string_op a b op =
     bindE (vercmp_string a b) (\<lambda>res.
       if op \<in> set [''='', ''=='' ] then Inr (res = 0)
       else if op = ''<='' then Inr (res \<le> 0)
       else if op = ''>='' then Inr (res \<ge> 0)
       else if op \<in> set [''>'', ''>>'' ] then Inr (res > 0)
       else if op \<in> set [''<'', ''<<'' ] then Inr (res < 0)
       else if op = ''!='' then Inr (res \<noteq> 0)
       else Inl (VersionStringException op))"

section \<open>The comparison is a lexicographic one\<close>

text \<open>
  A part is compared by its class, then by its value; the end of a version counts as a part of
  class 0 below every number. Adding that mark to both key lists turns the loop into the
  lexicographic order of the lists.
\<close>

fun vval_key :: "vval \<Rightarrow> nat \<times> int \<times> string" where
  "vval_key VNone = (0, 0, [])"
| "vval_key (VInt n) = (1, n, [])"
| "vval_key (VStr s) = (2, 0, s)"

definition part_key :: "vpart \<Rightarrow> int \<times> nat \<times> int \<times> string" where
  "part_key p = (fst p, vval_key (snd p))"

definition version_key :: "vpart list \<Rightarrow> (int \<times> nat \<times> int \<times> string) list" where
  "version_key v = map part_key v @ [part_key (0, VNone)]"

definition cmp3 :: "'a::linorder \<Rightarrow> 'a \<Rightarrow> int" where
  "cmp3 a b = (if a < b then -1 else if b < a then 1 else 0)"

lemma cmp3_swap: "cmp3 b a = - cmp3 a b"
  by (auto simp: cmp3_def)

lemma cmp3_zero: "cmp3 a b = 0 \<longleftrightarrow> a = b"
  by (auto simp: cmp3_def)

lemma cmp3_le_zero: "cmp3 a b \<le> 0 \<longleftrightarrow> a \<le> b"
  by (auto simp: cmp3_def)

lemma cmp3_Cons: "cmp3 (x # xs) (y # ys) = (if x = y then cmp3 xs ys else cmp3 x y)"
  by (auto simp: cmp3_def)

lemma cmp3_Pair: "cmp3 (a, b) (c, d) = (if a = c then cmp3 b d else cmp3 a c)"
  by (auto simp: cmp3_def)

lemma sgn_cmp3 [simp]: "sgn (cmp3 a b) = cmp3 a b"
  by (simp add: cmp3_def)

lemma sgn_diff_cmp3: "sgn (m - n) = cmp3 m n" for m n :: int
  by (simp add: cmp3_def sgn_if)

definition wf_part :: "vpart \<Rightarrow> bool" where
  "wf_part p = (case p of (n, VInt k) \<Rightarrow> n = 0 | (n, VStr s) \<Rightarrow> n \<noteq> 0 | (n, VNone) \<Rightarrow> False)"

lemma explode_version_wf: "explode_version s = Inr v \<Longrightarrow> p \<in> set v \<Longrightarrow> wf_part p"
proof (induction s arbitrary: v rule: explode_version.induct)
  case (2 c cs)
  then show ?case
    by (auto simp: bindE_eq_Inr wf_part_def split: if_splits option.splits)
qed simp

lemma vval_key_inject [simp]: "vval_key a = vval_key b \<longleftrightarrow> a = b"
  by (cases a; cases b) auto

lemma part_key_inject [simp]: "part_key p = part_key q \<longleftrightarrow> p = q"
  by (cases p; cases q) (auto simp: part_key_def)

lemma vercmp_loop_both:
  assumes "wf_part p" "wf_part q"
  shows "vercmp_loop (p # va) (q # vb) =
    (if p = q then vercmp_loop va vb else Inr (cmp3 (part_key p) (part_key q)))"
proof -
  obtain oa ca ob cb where pq: "p = (oa, ca)" "q = (ob, cb)" by (cases p; cases q)
  have u: "vercmp_loop (p # va) (q # vb) =
      (if oa < ob then Inr (-1) else if oa > ob then Inr 1
       else bindE (vless ca cb) (\<lambda>lt. if lt then Inr (-1) else
            bindE (vless cb ca) (\<lambda>gt. if gt then Inr 1 else vercmp_loop va vb)))"
    using assms by (subst vercmp_loop.simps) (auto simp: pq vfirst_def wf_part_def cong: if_cong)
  show ?thesis
    using assms unfolding u
    by (cases ca; cases cb)
      (auto simp: pq wf_part_def cmp3_def part_key_def split: if_splits)
qed

lemma vercmp_loop_Nil: "vercmp_loop [] [] = Inr 0"
  by (subst vercmp_loop.simps) (simp add: vfirst_def)

lemma vercmp_loop_end:
  assumes "wf_part p"
  shows "vercmp_loop [] (p # vb) = Inr (cmp3 (part_key (0, VNone)) (part_key p))"
    and "vercmp_loop (p # va) [] = Inr (cmp3 (part_key p) (part_key (0, VNone)))"
proof -
  obtain n v where p: "p = (n, v)" by (cases p)
  show "vercmp_loop [] (p # vb) = Inr (cmp3 (part_key (0, VNone)) (part_key p))"
    using assms unfolding p
    by (subst vercmp_loop.simps, cases v)
      (auto simp: vfirst_def wf_part_def part_key_def cmp3_def)
  show "vercmp_loop (p # va) [] = Inr (cmp3 (part_key p) (part_key (0, VNone)))"
    using assms unfolding p
    by (subst vercmp_loop.simps, cases v)
      (auto simp: vfirst_def wf_part_def part_key_def cmp3_def)
qed

lemma wf_part_not_end: "wf_part p \<Longrightarrow> p \<noteq> (0, VNone)"
  by (auto simp: wf_part_def)

lemma vercmp_loop_key:
  assumes "\<forall>p \<in> set va. wf_part p" "\<forall>p \<in> set vb. wf_part p"
  shows "vercmp_loop va vb = Inr (cmp3 (version_key va) (version_key vb))"
  using assms
proof (induction va arbitrary: vb)
  case Nil
  then show ?case
    by (cases vb)
      (auto simp: vercmp_loop_Nil vercmp_loop_end version_key_def cmp3_Cons cmp3_zero
        dest: wf_part_not_end)
next
  case (Cons p va)
  then show ?case
    by (cases vb)
      (auto simp: vercmp_loop_end vercmp_loop_both version_key_def cmp3_Cons
        dest: wf_part_not_end)
qed

lemma version_key_inject [simp]: "version_key a = version_key b \<longleftrightarrow> a = b"
  using inj_map_eq_map [of part_key a b] by (auto simp: version_key_def inj_def)

lemma vercmp_part_key:
  "vercmp_part a b = bindE (explode_version a) (\<lambda>va. bindE (explode_version b)
     (\<lambda>vb. Inr (cmp3 (version_key va) (version_key vb))))"
  unfolding vercmp_part_def
  by (cases "explode_version a"; cases "explode_version b")
    (auto intro!: vercmp_loop_key dest: explode_version_wf)

section \<open>The contract of a three-way comparison\<close>

text \<open>
  What a caller of a comparison relies on: on good values it returns, swapping the arguments
  negates the result, and the induced order is transitive.
\<close>

locale comparator =
  fixes cmp :: "'a \<Rightarrow> 'a \<Rightarrow> int result"
    and good :: "'a \<Rightarrow> bool"
  assumes cmp_total: "good a \<Longrightarrow> good b \<Longrightarrow> \<exists>r. cmp a b = Inr r"
    and cmp_swap: "cmp a b = Inr r \<Longrightarrow> cmp b a = Inr (- r)"
    and cmp_trans: "good a \<Longrightarrow> good b \<Longrightarrow> good c \<Longrightarrow> cmp a b = Inr r \<Longrightarrow> cmp b c = Inr s \<Longrightarrow> r \<le> 0 \<Longrightarrow> s \<le> 0 \<Longrightarrow>
      \<exists>t. cmp a c = Inr t \<and> t \<le> 0"
begin

definition le :: "'a \<Rightarrow> 'a \<Rightarrow> bool" where
  "le a b \<longleftrightarrow> (\<exists>r. cmp a b = Inr r \<and> r \<le> 0)"

lemma cmp_self: "good a \<Longrightarrow> cmp a a = Inr 0"
  using cmp_total [of a a] cmp_swap [of a a] by force

lemma le_refl: "good a \<Longrightarrow> le a a"
  by (simp add: le_def cmp_self)

lemma le_trans: "good a \<Longrightarrow> good b \<Longrightarrow> good c \<Longrightarrow> le a b \<Longrightarrow> le b c \<Longrightarrow> le a c"
  unfolding le_def using cmp_trans by blast

lemma le_total: "good a \<Longrightarrow> good b \<Longrightarrow> le a b \<or> le b a"
  unfolding le_def using cmp_total [of a b] cmp_swap [of a b] by force

lemma not_less_le: "cmp a b = Inr r \<Longrightarrow> \<not> r < 0 \<Longrightarrow> le b a"
  unfolding le_def using cmp_swap [of a b r] by force

lemma less_le: "cmp a b = Inr r \<Longrightarrow> r < 0 \<Longrightarrow> le a b"
  unfolding le_def by force

end

text \<open>
  Candidates with a rank and a key: the best one has the highest rank and, among those of its rank,
  the highest key. A loop that keeps a best candidate and replaces it by every candidate of a
  higher rank, or of the same rank and a higher key, ends with a best one.
\<close>

locale ranking = comparator cmp good
  for cmp :: "'a \<Rightarrow> 'a \<Rightarrow> int result" and good :: "'a \<Rightarrow> bool" +
  fixes rank :: "'b \<Rightarrow> int"
    and key :: "'b \<Rightarrow> 'a"
    and cand :: "'b \<Rightarrow> bool"
  assumes good_key: "cand f \<Longrightarrow> good (key f)"
begin

definition best_of :: "'b list \<Rightarrow> 'b \<Rightarrow> bool" where
  "best_of fs f \<longleftrightarrow> f \<in> set fs \<and>
     (\<forall>g \<in> set fs. rank g < rank f \<or> rank g = rank f \<and> le (key g) (key f))"

lemma best_of_single: "cand f \<Longrightarrow> best_of [f] f"
  by (simp add: best_of_def le_refl good_key)

lemma best_of_keep:
  assumes "best_of fs f" and "\<not> rank g > rank f"
    and "rank f = rank g \<Longrightarrow> \<exists>r. cmp (key f) (key g) = Inr r \<and> \<not> r < 0"
  shows "best_of (fs @ [g]) f"
proof -
  have "le (key g) (key f)" if "rank f = rank g"
    using assms(3) [OF that] not_less_le by blast
  then have "rank g < rank f \<or> rank g = rank f \<and> le (key g) (key f)" using assms(2) by force
  then show ?thesis using assms(1) by (auto simp: best_of_def)
qed

lemma best_of_take:
  assumes "best_of fs f" and "\<forall>x \<in> set fs. cand x" and "cand g"
    and "rank g > rank f \<or> rank f = rank g \<and> (\<exists>r. cmp (key f) (key g) = Inr r \<and> r < 0)"
  shows "best_of (fs @ [g]) g"
proof -
  have "rank x < rank g \<or> rank x = rank g \<and> le (key x) (key g)" if "x \<in> set fs" for x
  proof -
    have x: "rank x < rank f \<or> rank x = rank f \<and> le (key x) (key f)" and f: "f \<in> set fs"
      using assms(1) that by (auto simp: best_of_def)
    consider "rank g > rank f" | r where "rank f = rank g" "cmp (key f) (key g) = Inr r" "r < 0"
      using assms(4) by blast
    then show ?thesis
    proof cases
      case 2
      then have "le (key x) (key g)" if "le (key x) (key f)"
        using le_trans [OF good_key good_key good_key that less_le] assms(2,3) \<open>x \<in> set fs\<close> f by blast
      with x 2 show ?thesis by auto
    qed (use x in auto)
  qed
  then show ?thesis using assms(3) by (simp add: best_of_def le_refl good_key)
qed

end

definition version_ok :: "version \<Rightarrow> bool" where
  "version_ok t = (case t of (e, v, r) \<Rightarrow>
     \<not> isl (epoch_int e) \<and> \<not> isl (explode_version v) \<and> \<not> isl (explode_version r))"

text \<open>The key of a tuple that parses: the comparison of two tuples has the sign of the
  comparison of their keys.\<close>

definition tuple_key where
  "tuple_key t = (case t of (e, v, r) \<Rightarrow>
     (projr (epoch_int e), version_key (projr (explode_version v)),
      version_key (projr (explode_version r))))"

lemma vercmp_part_swap: "vercmp_part a b = Inr r \<Longrightarrow> vercmp_part b a = Inr (- r)"
  by (auto simp: vercmp_part_key bindE_eq_Inr intro: cmp3_swap)

lemma vercmp_swap_result:
  assumes "vercmp a b = Inr r"
  shows "vercmp b a = Inr (- r)"
proof -
  obtain ea va ra eb vb rb where t: "a = (ea, va, ra)" "b = (eb, vb, rb)"
    by (cases a; cases b)
  from assms obtain na nb q where e: "epoch_int ea = Inr na" "epoch_int eb = Inr nb"
    and q: "(if na - nb = 0 then vercmp_part va vb else Inr (na - nb)) = Inr q"
    and w: "(if q = 0 then vercmp_part ra rb else Inr q) = Inr r"
    by (auto simp: t vercmp_def bindE_eq_Inr)
  have q': "(if nb - na = 0 then vercmp_part vb va else Inr (nb - na)) = Inr (- q)"
    using q vercmp_part_swap [of va vb q] by (auto split: if_splits)
  have w': "(if - q = 0 then vercmp_part rb ra else Inr (- q)) = Inr (- r)"
    using w vercmp_part_swap [of ra rb r] by (auto split: if_splits)
  show ?thesis
    unfolding t vercmp_def prod.case e bindE_simps q' w' ..
qed

lemma version_ok_parts:
  assumes "version_ok (e, v, r)"
  obtains n w s where "epoch_int e = Inr n" "explode_version v = Inr w" "explode_version r = Inr s"
  using assms
  by (cases "epoch_int e"; cases "explode_version v"; cases "explode_version r")
    (auto simp: version_ok_def)

lemma vercmp_key:
  assumes "version_ok a" "version_ok b"
  shows "\<exists>r. vercmp a b = Inr r \<and> sgn r = cmp3 (tuple_key a) (tuple_key b)"
proof -
  obtain ea va ra eb vb rb where t: "a = (ea, va, ra)" "b = (eb, vb, rb)"
    by (cases a; cases b)
  from assms(1) [unfolded t(1)] obtain na wa sa where
    a: "epoch_int ea = Inr na" "explode_version va = Inr wa" "explode_version ra = Inr sa"
    by (rule version_ok_parts)
  from assms(2) [unfolded t(2)] obtain nb wb sb where
    b: "epoch_int eb = Inr nb" "explode_version vb = Inr wb" "explode_version rb = Inr sb"
    by (rule version_ok_parts)
  show ?thesis
    unfolding t vercmp_def vercmp_part_key tuple_key_def
    by (simp add: a b cmp3_Pair cmp3_zero sgn_diff_cmp3)
qed

lemma vercmp_key_le:
  assumes "version_ok a" "version_ok b" "vercmp a b = Inr r"
  shows "r \<le> 0 \<longleftrightarrow> tuple_key a \<le> tuple_key b"
proof -
  from vercmp_key [OF assms(1,2)] assms(3) have "sgn r = cmp3 (tuple_key a) (tuple_key b)"
    by simp
  moreover have "r \<le> 0 \<longleftrightarrow> sgn r \<le> 0" by (simp add: sgn_if)
  ultimately show ?thesis by (simp add: cmp3_le_zero)
qed

interpretation vc: comparator vercmp version_ok
proof
  fix a b c r s
  show "version_ok a \<Longrightarrow> version_ok b \<Longrightarrow> \<exists>r. vercmp a b = Inr r"
    using vercmp_key by blast
  show "vercmp a b = Inr r \<Longrightarrow> vercmp b a = Inr (- r)"
    by (rule vercmp_swap_result)
  assume ok: "version_ok a" "version_ok b" "version_ok c"
    and r: "vercmp a b = Inr r" "r \<le> 0" and s: "vercmp b c = Inr s" "s \<le> 0"
  have "tuple_key a \<le> tuple_key b" using r vercmp_key_le [OF ok(1,2) r(1)] by simp
  also have "\<dots> \<le> tuple_key c" using s vercmp_key_le [OF ok(2,3) s(1)] by simp
  finally have le: "tuple_key a \<le> tuple_key c" .
  obtain t where t: "vercmp a c = Inr t" using vercmp_key [OF ok(1,3)] by blast
  with le show "\<exists>t. vercmp a c = Inr t \<and> t \<le> 0"
    using vercmp_key_le [OF ok(1,3) t] by simp
qed

section \<open>Properties\<close>

text \<open>C39. On tuples whose parts parse, \<^verbatim>\<open>vercmp\<close> returns, and the sign of its
  result is the order of the keys: epoch first, then version, then revision, each a
  lexicographic comparison in which a tilde sorts below the end of the string, the end below a
  number, a number below letters and letters below any other character.\<close>

theorem vercmp_is_key_order:
  assumes "version_ok a" and "version_ok b"
  shows "\<exists>r. vercmp a b = Inr r \<and> sgn r = cmp3 (tuple_key a) (tuple_key b)"
  using assms by (rule vercmp_key)

lemma vercmp_is_key_order_witness:
  "version_ok (EStr ''1'', ''2.10'', ''r0'') \<and> version_ok (ENone, ''2.9~rc1'', ''r1'') \<and>
   (\<exists>r. vercmp (EStr ''1'', ''2.10'', ''r0'') (ENone, ''2.9~rc1'', ''r1'') = Inr r \<and>
     sgn r = cmp3 (tuple_key (EStr ''1'', ''2.10'', ''r0'')) (tuple_key (ENone, ''2.9~rc1'', ''r1'')))"
proof -
  have a: "version_ok (EStr ''1'', ''2.10'', ''r0'')" by code_simp
  have b: "version_ok (ENone, ''2.9~rc1'', ''r1'')" by code_simp
  from vercmp_is_key_order [OF a b] a b show ?thesis by blast
qed

text \<open>The order \<^verbatim>\<open>vercmp\<close> induces is transitive.\<close>

theorem vercmp_transitive:
  assumes "version_ok a" "version_ok b" "version_ok c"
    and "vercmp a b = Inr r" "vercmp b c = Inr s" "r \<le> 0" "s \<le> 0"
  shows "\<exists>t. vercmp a c = Inr t \<and> t \<le> 0"
  using assms by (rule vc.cmp_trans)

lemma vercmp_transitive_witness:
  "\<exists>t. vercmp (EInt 0, ''1.0~b'', []) (EInt 0, ''1.0a'', []) = Inr t \<and> t \<le> 0"
proof -
  have "version_ok (EInt 0, ''1.0~b'', [])" "version_ok (EInt 0, ''1.0'', [])"
    "version_ok (EInt 0, ''1.0a'', [])"
    by code_simp+
  moreover have "vercmp (EInt 0, ''1.0~b'', []) (EInt 0, ''1.0'', []) = Inr (-1)"
    "vercmp (EInt 0, ''1.0'', []) (EInt 0, ''1.0a'', []) = Inr (-1)"
    by code_simp+
  ultimately show ?thesis
    by (rule vercmp_transitive) simp_all
qed

lemma takeWhile_avoid: "x \<notin> set t \<Longrightarrow> takeWhile (\<lambda>c. c \<noteq> x) t = t"
  by (induction t) auto

lemma re_tail_no_newline: "newline \<notin> set t \<Longrightarrow> re_tail t = Some t"
  by (simp add: re_tail_def Let_def takeWhile_avoid)

lemma newline_not_class [simp]: "\<not> is_digit newline" "\<not> is_letter newline"
  by code_simp+

lemma newline_dropWhile: "newline \<notin> set s \<Longrightarrow> newline \<notin> set (dropWhile P s)"
  using set_dropWhileD by fastforce

lemma explode_version_total: "newline \<notin> set s \<Longrightarrow> \<exists>v. explode_version s = Inr v"
proof (induction s rule: explode_version.induct)
  case (2 c cs)
  then show ?case
    by (auto simp: re_tail_no_newline newline_dropWhile)
qed simp

lemma explode_version_append:
  assumes "newline \<notin> set (v @ c # s)" "\<not> is_digit c" "\<not> is_letter c"
  shows "explode_version (v @ c # s) =
    bindE (explode_version v) (\<lambda>a. bindE (explode_version (c # s)) (\<lambda>b. Inr (a @ b)))"
  using assms(1)
proof (induction v rule: explode_version.induct)
  case 1
  then show ?case by (simp add: bindE_def split: sum.splits)
next
  case (2 x xs)
  have dw: "dropWhile P (xs @ c # s) = dropWhile P xs @ c # s"
    and tw: "takeWhile P (xs @ c # s) = takeWhile P xs"
    if "\<not> P c" for P
    using that by (induction xs) auto
  have n: "newline \<notin> set xs" "newline \<notin> set s" "newline \<noteq> c" using "2.prems" by auto
  consider "is_digit x" | "\<not> is_digit x" "is_letter x" | "\<not> is_digit x" "\<not> is_letter x" by blast
  then show ?case
  proof cases
    case 1
    with "2.IH"(1) [OF 1 re_tail_no_newline] n assms(2) show ?thesis
      by (simp add: dw tw re_tail_no_newline newline_dropWhile bindE_def split: sum.splits)
  next
    case 2
    with "2.IH"(2) [OF 2 re_tail_no_newline] n assms(3) show ?thesis
      by (simp add: dw tw re_tail_no_newline newline_dropWhile bindE_def split: sum.splits)
  next
    case 3
    with "2.IH"(3) [OF 3] n show ?thesis
      by (simp add: bindE_def split: sum.splits)
  qed
qed

lemma cmp3_append_same: "cmp3 (xs @ ys) (xs @ zs) = cmp3 ys zs"
  by (induction xs) (simp_all add: cmp3_Cons)

text \<open>A tilde marks a pre-release: whatever follows it, the version sorts before the same
  version without the suffix.\<close>

theorem vercmp_part_tilde_first:
  assumes "newline \<notin> set v" and "newline \<notin> set s"
  shows "vercmp_part (v @ ''~'' @ s) v = Inr (-1) \<and> vercmp_part v (v @ ''~'' @ s) = Inr 1"
proof -
  obtain a b where a: "explode_version v = Inr a" and b: "explode_version s = Inr b"
    using assms explode_version_total by blast
  have t: "\<not> is_digit (CHR ''~'')" "\<not> is_letter (CHR ''~'')" by code_simp+
  have "explode_version (v @ CHR ''~'' # s) = Inr (a @ (-1, VStr ''~'') # b)"
    using explode_version_append [of v "CHR ''~''" s] assms t a b by simp
  moreover have "cmp3 (version_key (a @ (-1, VStr ''~'') # b)) (version_key a) = -1"
    by (simp add: version_key_def cmp3_append_same cmp3_Cons part_key_def cmp3_Pair)
      (simp add: cmp3_def)
  ultimately have "vercmp_part (v @ ''~'' @ s) v = Inr (-1)"
    by (simp add: vercmp_part_key a)
  then show ?thesis using vercmp_part_swap by fastforce
qed

lemma vercmp_part_tilde_first_witness:
  "vercmp_part (''5.4'' @ ''~'' @ ''rc2'') ''5.4'' = Inr (-1) \<and>
   vercmp_part ''5.4'' (''5.4'' @ ''~'' @ ''rc2'') = Inr 1"
  by (rule vercmp_part_tilde_first) simp_all

text \<open>The comparison operators agree with one another: where one comparison of two version
  strings succeeds, all do, strict and non-strict operators are complements, and exchanging the
  strings exchanges the direction; any other operator raises VersionStringException.\<close>

theorem vercmp_string_op_consistent:
  assumes "vercmp_string_op a b ''<'' = Inr lt" and "vercmp_string_op a b ''='' = Inr eq"
  shows "vercmp_string_op a b ''>='' = Inr (\<not> lt) \<and> vercmp_string_op a b ''!='' = Inr (\<not> eq)
    \<and> vercmp_string_op a b ''<='' = Inr (lt \<or> eq) \<and> vercmp_string_op a b ''>>'' = Inr (\<not> lt \<and> \<not> eq)
    \<and> vercmp_string_op b a ''>'' = Inr lt \<and> vercmp_string_op b a ''=='' = Inr eq
    \<and> vercmp_string_op a b ''=<'' = Inl (VersionStringException ''=<'')"
proof -
  from assms obtain ta tb r where t: "split_version a = Inr ta" "split_version b = Inr tb"
    and r: "vercmp ta tb = Inr r" and lt: "lt = (r < 0)" and eq: "eq = (r = 0)"
    by (auto simp: vercmp_string_op_def vercmp_string_def bindE_eq_Inr)
  from r have s: "vercmp tb ta = Inr (- r)" by (rule vercmp_swap_result)
  show ?thesis by (auto simp: vercmp_string_op_def vercmp_string_def t r s lt eq)
qed

lemma vercmp_string_op_consistent_witness:
  "vercmp_string_op ''1:2.0-r1'' ''1:2.0-r2'' ''>='' = Inr False \<and>
   vercmp_string_op ''1:2.0-r2'' ''1:2.0-r1'' ''>'' = Inr True"
proof -
  have "vercmp_string_op ''1:2.0-r1'' ''1:2.0-r2'' ''<'' = Inr True"
    "vercmp_string_op ''1:2.0-r1'' ''1:2.0-r2'' ''='' = Inr False"
    by code_simp+
  from vercmp_string_op_consistent [OF this] show ?thesis by simp
qed

end
