(* ===== verification/Providers.thy ===== *)
theory Providers
  imports RecipeCache Versions
begin

text \<open>
  The choice of the recipe that provides a build or runtime dependency:
  \<^verbatim>\<open>bb/providers.py\<close>. The configuration is the lookup \<open>getvar\<close> of its expanded
  variables. Log messages are left out. The code sorts the list \<^verbatim>\<open>providers\<close> of its
  caller in place; the callers' models put the sorted list back where it was.
\<close>

type_synonym pepvpr = "string \<times> string \<times> string"
type_synonym config = "string \<Rightarrow> string option"

section \<open>Priorities and preferred versions\<close>

text \<open>
  \<open>sortPriorities\<close> groups the files of a recipe name by the priority of their layer, highest
  first, and orders a group by default preference, lowest first. The dictionary
  \<^verbatim>\<open>dataCache.pkg_pn\<close> used for a missing argument is a \<^verbatim>\<open>defaultdict\<close>.
\<close>

definition group_file ::
  "cachedata \<Rightarrow> string \<Rightarrow> (int, (int, string list) odict) odict \<Rightarrow> (int, (int, string list) odict) odict result" where
  "group_file c f priorities =
     bindE (dindex (dc_bbfile_priority c) f) (\<lambda>priority.
     bindE (dindex (dc_pkg_dp c) f) (\<lambda>preference.
       let prefs = dget_default priorities priority []
       in Inr (dset priority (dset preference (dget_default prefs preference [] @ [f]) prefs) priorities)))"

definition sortPriorities ::
  "string \<Rightarrow> cachedata \<Rightarrow> (string, string list) odict \<Rightarrow> string list list result" where
  "sortPriorities pn c pkg_pn =
     bindE (if pkg_pn = [] then Inr (dget_default (dc_pkg_pn c) pn []) else dindex pkg_pn pn) (\<lambda>files.
     bindE (foldE (group_file c) files []) (\<lambda>priorities.
       Inr (fold (\<lambda>pri tmp_pn.
              let prefs = dget_default priorities pri []
              in fold (\<lambda>pref tmp_pref. tmp_pref @ dget_default prefs pref []) (sort (dkeys prefs)) [] # tmp_pn)
            (sort (dkeys priorities)) [])))"

definition versionVariableMatch :: "config \<Rightarrow> string \<Rightarrow> string \<Rightarrow> string option" where
  "versionVariableMatch getv keyword pn =
     (let ver = getv (keyword @ ''_VERSION:pn-'' @ pn);
          ver = (if unset ver then getv (keyword @ ''_VERSION_'' @ pn) else ver)
      in if unset ver then getv (keyword @ ''_VERSION'') else ver)"

definition preferredVersionMatch ::
  "string \<Rightarrow> string \<Rightarrow> string \<Rightarrow> string option \<Rightarrow> string option \<Rightarrow> string option \<Rightarrow> bool" where
  "preferredVersionMatch pe pv pr preferred_e preferred_v preferred_r =
     ((Some pr = preferred_r \<or> preferred_r = None) \<and> (Some pe = preferred_e \<or> preferred_e = None) \<and>
      (preferred_v = Some pv \<or>
       (case preferred_v of None \<Rightarrow> False
        | Some v \<Rightarrow> endswith v ''%'' \<and> startswith pv (butlast v))))"

text \<open>
  The match of \<^verbatim>\<open>(\d+:)*(.*)(_.*)*\<close> against the preferred version: the last epoch and
  the rest. The second group takes everything up to a line break, so the third never matches and
  the preferred revision is always unset.
\<close>

function strip_epochs :: "string option \<Rightarrow> string \<Rightarrow> string option \<times> string" where
  "strip_epochs e s =
     (let d = takeWhile is_digit s; r = dropWhile is_digit s
      in if d \<noteq> [] \<and> startswith r '':'' then strip_epochs (Some d) (tl r) else (e, s))"
  by pat_completeness auto
termination
proof (relation "measure (length \<circ> snd)")
  fix e s d r
  assume "r = dropWhile is_digit s" and *: "d \<noteq> [] \<and> startswith r '':''"
  then have "length r \<le> length s" by (simp add: length_dropWhile_le)
  moreover have "r \<noteq> []" using * by (auto simp: startswith_def)
  ultimately show "((Some d, tl r), (e, s)) \<in> measure (length \<circ> snd)"
    by (cases r) auto
qed simp

declare strip_epochs.simps [simp del]

definition preferred_parts :: "string \<Rightarrow> string option \<times> string \<times> string option" where
  "preferred_parts v =
     (case strip_epochs None v of (e, rest) \<Rightarrow> (e, takeWhile (\<lambda>c. c \<noteq> CHR 10) rest, None))"

text \<open>The first file of a set whose version matches, and the first set that has one. The loop over
  the sets ends when the file found is not empty.\<close>

fun find_match ::
  "cachedata \<Rightarrow> (string option \<times> string \<times> string option) \<Rightarrow> string list \<Rightarrow> (pepvpr \<times> string) option result" where
  "find_match c parts [] = Inr None"
| "find_match c parts (f # fs) =
     bindE (dindex (dc_pkg_pepvpr c) f) (\<lambda>(pe, pv, pr).
       case parts of (preferred_e, preferred_v, preferred_r) \<Rightarrow>
         if preferredVersionMatch pe pv pr preferred_e (Some preferred_v) preferred_r
         then Inr (Some ((pe, pv, pr), f)) else find_match c parts fs)"

fun find_in_sets ::
  "cachedata \<Rightarrow> (string option \<times> string \<times> string option) \<Rightarrow> string list list \<Rightarrow>
   (pepvpr \<times> string) option \<Rightarrow> (pepvpr \<times> string) option result" where
  "find_in_sets c parts [] pref = Inr pref"
| "find_in_sets c parts (file_set # sets) pref =
     bindE (find_match c parts file_set) (\<lambda>r.
       let pref = (case r of None \<Rightarrow> pref | Some x \<Rightarrow> Some x)
       in case pref of
            None \<Rightarrow> find_in_sets c parts sets pref
          | Some (_, f) \<Rightarrow> if f \<noteq> [] then Inr pref else find_in_sets c parts sets pref)"

text \<open>The version and file preferred, if any, and whether a version is required.\<close>

definition findPreferredProvider ::
  "string \<Rightarrow> config \<Rightarrow> cachedata \<Rightarrow> string list list \<Rightarrow> ((pepvpr \<times> string) option \<times> bool) result" where
  "findPreferredProvider pn getv c pkg_pn =
     (let required_v = versionVariableMatch getv ''REQUIRED'' pn;
          preferred_v = versionVariableMatch getv ''PREFERRED'' pn;
          required = (required_v \<noteq> None);
          preferred_v = (if required then required_v else preferred_v)
      in case preferred_v of
           None \<Rightarrow> Inr (None, required)
         | Some v \<Rightarrow> if v = [] then Inr (None, required)
             else bindE (find_in_sets c (preferred_parts v) pkg_pn None) (\<lambda>pref. Inr (pref, required)))"

section \<open>The latest version\<close>

type_synonym latest = "pepvpr option \<times> int \<times> string option"

fun as_version :: "pepvpr \<Rightarrow> version" where
  "as_version (pe, pv, pr) = (EStr pe, pv, pr)"

definition latest_step :: "cachedata \<Rightarrow> string \<Rightarrow> latest \<Rightarrow> latest result" where
  "latest_step c file_name st = (case st of (latest, latest_p, latest_f) \<Rightarrow>
     bindE (dindex (dc_pkg_pepvpr c) file_name) (\<lambda>ver.
     bindE (dindex (dc_pkg_dp c) file_name) (\<lambda>dp.
     bindE (case latest of
              None \<Rightarrow> Inr True
            | Some l \<Rightarrow>
                bindE (if latest_p = dp then bindE (vercmp (as_version l) (as_version ver)) (\<lambda>r. Inr (r < 0))
                       else Inr False)
                  (\<lambda>newer. Inr (newer \<or> dp > latest_p)))
       (\<lambda>take. Inr (if take then (Some ver, dp, Some file_name) else st)))))"

definition findLatestProvider ::
  "cachedata \<Rightarrow> string list \<Rightarrow> (pepvpr option \<times> string option) result" where
  "findLatestProvider c file_set =
     bindE (foldE (latest_step c) file_set (None, 0, None)) (\<lambda>(latest, _, latest_f). Inr (latest, latest_f))"

text \<open>\<open>best = (latest, latest_f, preferred_ver, preferred_file, required)\<close>.\<close>

type_synonym best = "pepvpr option \<times> string option \<times> pepvpr option \<times> string option \<times> bool"

definition findBestProvider ::
  "string \<Rightarrow> config \<Rightarrow> cachedata \<Rightarrow> (string, string list) odict \<Rightarrow> best result" where
  "findBestProvider pn getv c pkg_pn =
     bindE (sortPriorities pn c pkg_pn) (\<lambda>sortpkg_pn.
     bindE (findPreferredProvider pn getv c sortpkg_pn) (\<lambda>(pref, required).
       case sortpkg_pn of
         [] \<Rightarrow> Inl IndexError
       | file_set # _ \<Rightarrow>
           bindE (findLatestProvider c file_set) (\<lambda>(latest, latest_f).
             case pref of
               Some (ver, f) \<Rightarrow> Inr (latest, latest_f, Some ver, Some f, required)
             | None \<Rightarrow> if required then Inr (latest, latest_f, None, None, required)
                       else Inr (latest, latest_f, latest, latest_f, required))))"

text \<open>The latest and the preferred version of every recipe name.\<close>

definition findProviders ::
  "config \<Rightarrow> cachedata \<Rightarrow> (string, string list) odict \<Rightarrow>
   ((string, pepvpr option \<times> string option) odict \<times> (string, pepvpr option \<times> string option) odict \<times>
    (string, bool) odict) result" where
  "findProviders getv c pkg_pn0 =
     (let pkg_pn = (if pkg_pn0 = [] then dc_pkg_pn c else pkg_pn0)
      in foldE (\<lambda>pn (latest_versions, preferred_versions, required).
           bindE (findBestProvider pn getv c pkg_pn) (\<lambda>(last_ver, last_file, pref_ver, pref_file, req).
             Inr (dset pn (last_ver, last_file) latest_versions,
                  dset pn (pref_ver, pref_file) preferred_versions,
                  dset pn req required)))
         (dkeys pkg_pn) ([], [], []))"

definition allProviders :: "cachedata \<Rightarrow> (string, (pepvpr \<times> string) list) odict result" where
  "allProviders c =
     foldE (\<lambda>(fn, pn) all_providers.
        bindE (dindex (dc_pkg_pepvpr c) fn) (\<lambda>ver.
          Inr (dset pn (dget_default all_providers pn [] @ [(ver, fn)]) all_providers)))
       (dc_pkg_fn c) []"

section \<open>Filtering the providers of an item\<close>

text \<open>The collation of the providers by recipe name.\<close>

definition collate :: "cachedata \<Rightarrow> string list \<Rightarrow> (string, string list) odict result" where
  "collate c providers =
     foldE (\<lambda>p pkg_pn. bindE (dindex (dc_pkg_fn c) p) (\<lambda>pn.
        Inr (dset pn (dget_default pkg_pn pn [] @ [p]) pkg_pn))) providers []"

text \<open>
  The loop state of the first pass: the sorted groups, the preferred files by name and the list of
  eligible files. The pass returns early (\<open>Inl eligible\<close>) when a required version is missing.
\<close>

type_synonym pass =
  "(string, string list list) odict \<times> (string, string option) odict \<times> string list"

fun required_pass ::
  "string \<Rightarrow> config \<Rightarrow> cachedata \<Rightarrow> (string, string list) odict \<Rightarrow> string list \<Rightarrow> pass \<Rightarrow> (string list + pass) result" where
  "required_pass item getv c pkg_pn [] st = Inr (Inr st)"
| "required_pass item getv c pkg_pn (pn # pns) (sortpkg_pn, preferred_versions, eligible) =
     bindE (sortPriorities pn c pkg_pn) (\<lambda>sets.
     bindE (findPreferredProvider pn getv c sets) (\<lambda>(pref, required).
       if required \<and> pref = None then Inr (Inl eligible)
       else let file = map_option snd pref
            in required_pass item getv c pkg_pn pns
                 (dset pn sets sortpkg_pn, dset pn file preferred_versions,
                  (if unset file then eligible else eligible @ [the file]))))"

fun latest_pass ::
  "cachedata \<Rightarrow> string list \<Rightarrow> pass \<Rightarrow> pass result" where
  "latest_pass c [] st = Inr st"
| "latest_pass c (pn # pns) (sortpkg_pn, preferred_versions, eligible) =
     (if \<not> unset (dget_default preferred_versions pn None)
      then latest_pass c pns (sortpkg_pn, preferred_versions, eligible)
      else bindE (dindex sortpkg_pn pn) (\<lambda>sets.
           case sets of
             [] \<Rightarrow> Inl IndexError
           | file_set # _ \<Rightarrow>
               bindE (findLatestProvider c file_set) (\<lambda>(_, f).
                 case f of
                   None \<Rightarrow> Inl OutOfModel
                 | Some f \<Rightarrow> latest_pass c pns
                     (sortpkg_pn, dset pn (Some f) preferred_versions, eligible @ [f]))))"

text \<open>The slight default preference for the recipe called like the item.\<close>

definition prefer_item ::
  "string \<Rightarrow> cachedata \<Rightarrow> (string, string option) odict \<Rightarrow> string list \<Rightarrow> string list \<Rightarrow> string list result" where
  "prefer_item item c preferred_versions =
     foldE (\<lambda>p eligible.
       bindE (dindex (dc_pkg_fn c) p) (\<lambda>pn.
         if pn \<noteq> item then Inr eligible
         else bindE (dindex preferred_versions pn) (\<lambda>fn.
           case fn of
             None \<Rightarrow> Inr eligible
           | Some f \<Rightarrow> Inr (if f \<notin> set eligible then eligible else f # remove1 f eligible))))"

text \<open>\<open>_filterProviders\<close>\<close>

definition filter_providers ::
  "string list \<Rightarrow> string \<Rightarrow> config \<Rightarrow> cachedata \<Rightarrow> string list result" where
  "filter_providers providers0 item getv c =
     (let providers = sort providers0
      in bindE (collate c providers) (\<lambda>pkg_pn.
         bindE (required_pass item getv c pkg_pn (sort (dkeys pkg_pn)) ([], [], [])) (\<lambda>r.
           case r of
             Inl eligible \<Rightarrow> Inr eligible
           | Inr st \<Rightarrow>
               bindE (latest_pass c (sort (dkeys (fst st))) st) (\<lambda>(_, preferred_versions, eligible).
                 if eligible = [] then Inr eligible
                 else prefer_item item c preferred_versions providers eligible))))"

text \<open>The first eligible file whose recipe has the given name, moved to the front.\<close>

fun find_pn :: "cachedata \<Rightarrow> string \<Rightarrow> string list \<Rightarrow> string option result" where
  "find_pn c name [] = Inr None"
| "find_pn c name (p # ps) =
     bindE (dindex (dc_pkg_fn c) p) (\<lambda>pn. if name = pn then Inr (Some p) else find_pn c name ps)"

definition move_preferred :: "cachedata \<Rightarrow> string \<Rightarrow> string list \<Rightarrow> (string list \<times> bool) result" where
  "move_preferred c name eligible =
     bindE (find_pn c name eligible) (\<lambda>r.
       Inr (case r of None \<Rightarrow> (eligible, False) | Some p \<Rightarrow> (p # remove1 p eligible, True)))"

definition filterProviders ::
  "string list \<Rightarrow> string \<Rightarrow> config \<Rightarrow> cachedata \<Rightarrow> ((string list \<times> bool) \<times> cachedata) result" where
  "filterProviders providers item getv c0 =
     bindE (filter_providers providers item getv c0) (\<lambda>eligible.
       let prefervar = getv (''PREFERRED_PROVIDER_'' @ item);
           c = (if unset prefervar then c0
                else c0\<lparr>dc_preferred := dset item (the prefervar) (dc_preferred c0)\<rparr>)
       in case dget (dc_preferred c) item of
            None \<Rightarrow> Inr ((eligible, False), c)
          | Some name \<Rightarrow> bindE (move_preferred c name eligible) (\<lambda>r. Inr (r, c)))"

text \<open>
  The inference of a runtime provider from \<^verbatim>\<open>PREFERRED_PROVIDER\<close> entries. The loop
  runs over the list \<open>iter\<close> by position. While \<open>same\<close> holds that list is the list
  \<^verbatim>\<open>eligible\<close> itself, so that the first removal takes an element out of the list being
  iterated; afterwards \<^verbatim>\<open>eligible\<close> names a new list.
\<close>

definition provide_pref ::
  "config \<Rightarrow> (string, string) odict \<Rightarrow> string list \<Rightarrow> string \<Rightarrow> string option" where
  "provide_pref getv pns preferred provide =
     (case getv (''PREFERRED_PROVIDER_'' @ provide) of
        None \<Rightarrow> None
      | Some prefervar \<Rightarrow>
          (case dget pns prefervar of
             None \<Rightarrow> None
           | Some f \<Rightarrow> if f \<in> set preferred then None else Some f))"

fun first_pref ::
  "config \<Rightarrow> (string, string) odict \<Rightarrow> string list \<Rightarrow> string list \<Rightarrow> string option" where
  "first_pref getv pns preferred [] = None"
| "first_pref getv pns preferred (provide # provides) =
     (case provide_pref getv pns preferred provide of
        None \<Rightarrow> first_pref getv pns preferred provides
      | Some f \<Rightarrow> Some f)"

function infer_loop ::
  "config \<Rightarrow> cachedata \<Rightarrow> (string, string) odict \<Rightarrow> nat \<Rightarrow> string list \<Rightarrow> bool \<Rightarrow> string list \<Rightarrow> string list \<Rightarrow>
   (string list \<times> string list) result" where
  "infer_loop getv c pns i iter same eligible preferred =
     (if i < length iter
      then bindE (dindex (dc_pkg_fn c) (iter ! i)) (\<lambda>pn.
        case first_pref getv pns preferred (dget_default (dc_pn_provides c) pn []) of
          None \<Rightarrow> infer_loop getv c pns (Suc i) iter same eligible preferred
        | Some pref \<Rightarrow>
            if pref \<notin> set eligible then Inl ValueError
            else infer_loop getv c pns (Suc i) (if same then remove1 pref iter else iter) False
                   (pref # remove1 pref eligible) (preferred @ [pref]))
      else Inr (eligible, preferred))"
  by pat_completeness auto
termination
  by (relation "measure (\<lambda>(getv, c, pns, i, iter, _). length iter - i)")
    (auto simp: length_remove1)

declare infer_loop.simps [simp del]

definition filterProvidersRunTime ::
  "string list \<Rightarrow> string \<Rightarrow> config \<Rightarrow> cachedata \<Rightarrow> (string list \<times> nat) result" where
  "filterProvidersRunTime providers item getv c =
     bindE (filter_providers providers item getv c) (\<lambda>eligible.
     bindE (let prefervar = getv (''PREFERRED_RPROVIDER_'' @ item)
            in if unset prefervar then Inr (eligible, False)
               else move_preferred c (the prefervar) eligible) (\<lambda>(eligible, foundUnique).
       if foundUnique then Inr (eligible, 1)
       else bindE (foldE (\<lambda>p pns. bindE (dindex (dc_pkg_fn c) p) (\<lambda>pn. Inr (dset pn p pns))) eligible [])
              (\<lambda>pns.
            bindE (infer_loop getv c pns 0 eligible True eligible []) (\<lambda>(eligible, preferred).
              Inr (eligible, length preferred)))))"

section \<open>Runtime providers and the world\<close>

text \<open>
  \<open>rematch p s\<close> is \<^verbatim>\<open>re.compile(p).match(s)\<close>: no value when the pattern does not
  compile.
\<close>

definition getRuntimeProviders ::
  "(string \<Rightarrow> string \<Rightarrow> bool option) \<Rightarrow> cachedata \<Rightarrow> string \<Rightarrow> string list result" where
  "getRuntimeProviders rematch c rdepend =
     (let rproviders = dget_default (dc_rproviders c) rdepend [] @ dget_default (dc_packages c) rdepend []
      in if rproviders \<noteq> [] then Inr rproviders
         else foldE (\<lambda>(pat_key, fns) acc.
                let pattern = replace_str ''+'' [CHR 92, CHR ''+''] pat_key
                in case rematch pattern rdepend of
                     None \<Rightarrow> Inl (RegexError pattern)
                   | Some b \<Rightarrow> Inr (if b then acc @ fns else acc))
              (dc_packages_dynamic c) [])"

text \<open>The inner loop over the providers of a name only stops itself.\<close>

fun provided_by_other :: "cachedata \<Rightarrow> string \<Rightarrow> string list \<Rightarrow> bool result" where
  "provided_by_other c pn [] = Inr False"
| "provided_by_other c pn (pf # pfs) =
     bindE (dindex (dc_pkg_fn c) pf) (\<lambda>n. if n \<noteq> pn then Inr True else provided_by_other c pn pfs)"

fun world_terminal :: "cachedata \<Rightarrow> string \<Rightarrow> string list \<Rightarrow> bool \<Rightarrow> bool result" where
  "world_terminal c pn [] terminal = Inr terminal"
| "world_terminal c pn (p # ps) terminal =
     (if startswith p ''virtual/'' then Inr False
      else bindE (provided_by_other c pn (dget_default (dc_providers c) p [])) (\<lambda>other.
             world_terminal c pn ps (terminal \<and> \<not> other)))"

definition world_step :: "string option \<Rightarrow> string \<Rightarrow> cachedata \<Rightarrow> cachedata result" where
  "world_step task f c =
     bindE (dindex (dc_pkg_fn c) f) (\<lambda>pn.
     bindE (if unset task then Inr True
            else bindE (dindex (dc_task_deps c) f) (\<lambda>td. Inr (the task \<in> set (td_tasks td)))) (\<lambda>has_task.
     bindE (world_terminal c pn (dget_default (dc_pn_provides c) pn []) has_task) (\<lambda>terminal.
       Inr (if terminal then c\<lparr>dc_world_target := sadd pn (dc_world_target c)\<rparr> else c))))"

definition buildWorldTargetList :: "string option \<Rightarrow> cachedata \<Rightarrow> cachedata result" where
  "buildWorldTargetList task c =
     (if dc_world_target c \<noteq> [] then Inr c else foldE (world_step task) (dc_possible_world c) c)"

section \<open>The order of the candidates\<close>

definition prio :: "cachedata \<Rightarrow> string \<Rightarrow> int" where
  "prio c f = the (dget (dc_bbfile_priority c) f)"

definition dpref :: "cachedata \<Rightarrow> string \<Rightarrow> int" where
  "dpref c f = the (dget (dc_pkg_dp c) f)"

definition fver :: "cachedata \<Rightarrow> string \<Rightarrow> pepvpr" where
  "fver c f = the (dget (dc_pkg_pepvpr c) f)"

text \<open>A file with all the data that the selection reads.\<close>

definition file_ok :: "cachedata \<Rightarrow> string \<Rightarrow> bool" where
  "file_ok c f \<longleftrightarrow> dhas (dc_pkg_fn c) f \<and> dhas (dc_bbfile_priority c) f \<and> dhas (dc_pkg_dp c) f \<and>
     dhas (dc_pkg_pepvpr c) f \<and> version_ok (as_version (fver c f))"

lemma file_ok_index:
  assumes "file_ok c f"
  shows "dindex (dc_bbfile_priority c) f = Inr (prio c f)" "dindex (dc_pkg_dp c) f = Inr (dpref c f)"
    "dindex (dc_pkg_pepvpr c) f = Inr (fver c f)" "dindex (dc_pkg_fn c) f = Inr (the (dget (dc_pkg_fn c) f))"
    "version_ok (as_version (fver c f))"
  using assms by (auto simp: file_ok_def dindex_has prio_def dpref_def fver_def)

definition grouped ::
  "cachedata \<Rightarrow> string list \<Rightarrow> (int, (int, string list) odict) odict \<Rightarrow> bool" where
  "grouped c fs d \<longleftrightarrow> distinct (dkeys d) \<and> set (dkeys d) = prio c ` set fs \<and>
     (\<forall>x. distinct (dkeys (dget_default d x [])) \<and>
        set (dkeys (dget_default d x [])) = dpref c ` {f \<in> set fs. prio c f = x} \<and>
        (\<forall>y. dget_default (dget_default d x []) y [] =
           filter (\<lambda>f. dpref c f = y) (filter (\<lambda>f. prio c f = x) fs)))"

lemma grouped_snoc:
  assumes "grouped c fs d" and "file_ok c f"
  shows "\<exists>d'. group_file c f d = Inr d' \<and> grouped c (fs @ [f]) d'"
proof -
  let ?p = "dget_default d (prio c f) []"
  let ?d = "dset (prio c f) (dset (dpref c f) (dget_default ?p (dpref c f) [] @ [f]) ?p) d"
  have "group_file c f d = Inr ?d"
    by (simp add: group_file_def file_ok_index [OF assms(2)] Let_def)
  moreover have "grouped c (fs @ [f]) ?d"
    using assms(1) unfolding grouped_def
    by (auto simp: dict_simps simp del: set_map)
  ultimately show ?thesis by blast
qed

lemma group_files:
  "\<forall>f \<in> set fs. file_ok c f \<Longrightarrow> \<exists>d. foldE (group_file c) fs [] = Inr d \<and> grouped c fs d"
proof (induction fs rule: rev_induct)
  case Nil
  then show ?case by (simp add: grouped_def dget_default_def)
next
  case (snoc f fs)
  then obtain d where "foldE (group_file c) fs [] = Inr d" "grouped c fs d" by auto
  with grouped_snoc [of c fs d f] snoc.prems show ?case by (auto simp: foldE_append)
qed

definition priority_groups :: "cachedata \<Rightarrow> string list \<Rightarrow> string list list" where
  "priority_groups c files =
     map (\<lambda>x. sort_key (dpref c) (filter (\<lambda>f. prio c f = x) files))
       (rev (sorted_list_of_set (prio c ` set files)))"

lemma sortPriorities_groups:
  assumes "\<forall>f \<in> set files. file_ok c f"
    and "(if pkg_pn = [] then Inr (dget_default (dc_pkg_pn c) pn []) else dindex pkg_pn pn) = Inr files"
  shows "sortPriorities pn c pkg_pn = Inr (priority_groups c files)"
proof -
  obtain d where d: "foldE (group_file c) files [] = Inr d" and g: "grouped c files d"
    using group_files assms(1) by blast
  have inner: "concat (map (\<lambda>y. dget_default (dget_default d x []) y []) (sort (dkeys (dget_default d x [])))) =
      sort_key (dpref c) (filter (\<lambda>f. prio c f = x) files)" for x
    using g sort_key_groups [of "dpref c" "filter (\<lambda>f. prio c f = x) files"]
    by (simp add: grouped_def sort_distinct del: set_map)
  show ?thesis
    unfolding sortPriorities_def assms(2) bindE_simps d Let_def fold_cons_map fold_append_map
      append_Nil append_Nil2 inner priority_groups_def rev_map
    using g by (simp add: grouped_def sort_distinct del: set_map)
qed

lemma set_priority_groups: "set (concat (priority_groups c files)) = set files"
  by (auto simp: priority_groups_def)

lemma priority_groups_nonempty:
  "g \<in> set (priority_groups c files) \<Longrightarrow> g \<noteq> [] \<and> set g \<subseteq> set files"
  by (auto simp: priority_groups_def simp flip: set_empty)

section \<open>The preferred and the latest file\<close>

interpretation lp: ranking vercmp version_ok "dpref c" "\<lambda>f. as_version (fver c f)" "file_ok c" for c
  by unfold_locales (simp add: file_ok_index)

lemma latest_step_ok:
  assumes "file_ok c g"
  shows "latest_step c g (None, 0, None) = Inr (Some (fver c g), dpref c g, Some g)"
    and "vercmp (as_version l) (as_version (fver c g)) = Inr r \<Longrightarrow>
      latest_step c g (Some l, p, lf) =
        (if dpref c g > p \<or> p = dpref c g \<and> r < 0 then Inr (Some (fver c g), dpref c g, Some g)
         else Inr (Some l, p, lf))"
  by (auto simp: latest_step_def file_ok_index [OF assms])

lemma latest_loop:
  "fs \<noteq> [] \<Longrightarrow> \<forall>f \<in> set fs. file_ok c f \<Longrightarrow>
   \<exists>f. foldE (latest_step c) fs (None, 0, None) = Inr (Some (fver c f), dpref c f, Some f) \<and>
       lp.best_of c fs f"
proof (induction fs rule: rev_induct)
  case (snoc g fs)
  then have g: "file_ok c g" by simp
  show ?case
  proof (cases "fs = []")
    case True
    then show ?thesis by (simp add: latest_step_ok(1) [OF g] lp.best_of_single [OF g])
  next
    case False
    then obtain f where f: "foldE (latest_step c) fs (None, 0, None) = Inr (Some (fver c f), dpref c f, Some f)"
      and best: "lp.best_of c fs f"
      using snoc by auto
    have okf: "file_ok c f" using best snoc.prems by (auto simp: lp.best_of_def)
    obtain r where r: "vercmp (as_version (fver c f)) (as_version (fver c g)) = Inr r"
      using vc.cmp_total [OF file_ok_index(5) [OF okf] file_ok_index(5) [OF g]] by blast
    show ?thesis
    proof (cases "dpref c g > dpref c f \<or> dpref c f = dpref c g \<and> r < 0")
      case True
      then have "lp.best_of c (fs @ [g]) g"
        using lp.best_of_take [OF best _ g] snoc.prems r by auto
      then show ?thesis using True by (simp add: foldE_append f latest_step_ok(2) [OF g r])
    next
      case False
      then have "lp.best_of c (fs @ [g]) f"
        using lp.best_of_keep [OF best] r by auto
      then show ?thesis using False by (auto simp: foldE_append f latest_step_ok(2) [OF g r])
    qed
  qed
qed simp

lemma findLatestProvider_best:
  "fs \<noteq> [] \<Longrightarrow> \<forall>f \<in> set fs. file_ok c f \<Longrightarrow>
   \<exists>f. findLatestProvider c fs = Inr (Some (fver c f), Some f) \<and> lp.best_of c fs f"
  using latest_loop [of fs c] by (auto simp: findLatestProvider_def)

text \<open>The file the code selects for a version setting.\<close>

fun wanted :: "cachedata \<Rightarrow> string option \<times> string \<times> string option \<Rightarrow> string \<Rightarrow> bool" where
  "wanted c (e, v, r) f = (case fver c f of (pe, pv, pr) \<Rightarrow> preferredVersionMatch pe pv pr e (Some v) r)"

definition version_setting :: "config \<Rightarrow> string \<Rightarrow> string option" where
  "version_setting getv pn = (case versionVariableMatch getv ''REQUIRED'' pn of
     Some v \<Rightarrow> Some v | None \<Rightarrow> versionVariableMatch getv ''PREFERRED'' pn)"

definition version_required :: "config \<Rightarrow> string \<Rightarrow> bool" where
  "version_required getv pn \<longleftrightarrow> versionVariableMatch getv ''REQUIRED'' pn \<noteq> None"

definition set_file :: "config \<Rightarrow> cachedata \<Rightarrow> string \<Rightarrow> string list \<Rightarrow> string option" where
  "set_file getv c pn files =
     (if unset (version_setting getv pn) then None
      else find (wanted c (preferred_parts (the (version_setting getv pn))))
             (concat (priority_groups c files)))"

lemma find_match_find:
  "\<forall>f \<in> set fs. file_ok c f \<Longrightarrow>
   find_match c parts fs = Inr (map_option (\<lambda>f. (fver c f, f)) (find (wanted c parts) fs))"
  by (induction fs) (auto simp: file_ok_index split: prod.splits)

lemma find_append: "find P (xs @ ys) = (case find P xs of None \<Rightarrow> find P ys | Some x \<Rightarrow> Some x)"
  by (induction xs) auto

lemma find_Some_mem: "find P xs = Some x \<Longrightarrow> x \<in> set xs \<and> P x"
  by (induction xs) (auto split: if_splits)

lemma find_in_sets_find:
  assumes "\<forall>f \<in> set (concat sets). file_ok c f \<and> f \<noteq> []"
  shows "find_in_sets c parts sets None =
    Inr (map_option (\<lambda>f. (fver c f, f)) (find (wanted c parts) (concat sets)))"
  using assms
proof (induction sets)
  case (Cons fs sets)
  then have m: "find_match c parts fs = Inr (map_option (\<lambda>f. (fver c f, f)) (find (wanted c parts) fs))"
    by (intro find_match_find) simp
  show ?case
  proof (cases "find (wanted c parts) fs")
    case None
    with Cons m show ?thesis by (simp add: find_append Let_def)
  next
    case (Some f)
    then have "f \<noteq> []" using find_Some_mem [OF Some] Cons.prems by simp
    with Some m show ?thesis by (simp add: find_append Let_def)
  qed
qed simp

lemma findPreferredProvider_set_file:
  assumes "\<forall>f \<in> set files. file_ok c f \<and> f \<noteq> []"
  shows "findPreferredProvider pn getv c (priority_groups c files) =
    Inr (map_option (\<lambda>f. (fver c f, f)) (set_file getv c pn files), version_required getv pn)"
proof -
  have sets: "\<forall>f \<in> set (concat (priority_groups c files)). file_ok c f \<and> f \<noteq> []"
    unfolding set_priority_groups by (rule assms)
  show ?thesis
    by (auto simp: findPreferredProvider_def set_file_def version_setting_def version_required_def
        unset_def find_in_sets_find [OF sets] Let_def split: option.splits)
qed

lemma set_file_mem: "set_file getv c pn files = Some f \<Longrightarrow> f \<in> set files"
  using set_priority_groups [of c files]
  by (auto simp: set_file_def split: if_splits dest!: find_Some_mem)

lemma priority_groups_Cons:
  assumes "files \<noteq> []"
  shows "\<exists>g gs. priority_groups c files = g # gs \<and> g \<noteq> [] \<and> set g \<subseteq> set files"
proof -
  have "priority_groups c files \<noteq> []" using assms by (simp add: priority_groups_def)
  then obtain g gs where "priority_groups c files = g # gs" by (cases "priority_groups c files") auto
  with priority_groups_nonempty [of g c files] show ?thesis by simp
qed

text \<open>The best of the files of the highest priority.\<close>

definition latest_file :: "cachedata \<Rightarrow> string list \<Rightarrow> string" where
  "latest_file c files = (case findLatestProvider c (hd (priority_groups c files)) of
     Inr (_, Some f) \<Rightarrow> f | _ \<Rightarrow> [])"

lemma latest_file_best:
  assumes "files \<noteq> []" and "\<forall>f \<in> set files. file_ok c f"
  shows "findLatestProvider c (hd (priority_groups c files)) =
      Inr (Some (fver c (latest_file c files)), Some (latest_file c files))"
    and "lp.best_of c (hd (priority_groups c files)) (latest_file c files)"
    and "latest_file c files \<in> set files"
proof -
  obtain g gs where g: "priority_groups c files = g # gs" "g \<noteq> []" "set g \<subseteq> set files"
    using priority_groups_Cons [OF assms(1)] by blast
  then obtain f where f: "findLatestProvider c g = Inr (Some (fver c f), Some f)" "lp.best_of c g f"
    using findLatestProvider_best [of g c] assms(2) by blast
  have "latest_file c files = f" by (simp add: latest_file_def g f)
  with f g show "findLatestProvider c (hd (priority_groups c files)) =
      Inr (Some (fver c (latest_file c files)), Some (latest_file c files))"
    and "lp.best_of c (hd (priority_groups c files)) (latest_file c files)"
    and "latest_file c files \<in> set files"
    by (auto simp: lp.best_of_def)
qed

text \<open>The file that stands for a recipe name.\<close>

definition choice :: "config \<Rightarrow> cachedata \<Rightarrow> string \<Rightarrow> string list \<Rightarrow> string" where
  "choice getv c pn files =
     (case set_file getv c pn files of Some f \<Rightarrow> f | None \<Rightarrow> latest_file c files)"

definition missing :: "config \<Rightarrow> cachedata \<Rightarrow> string \<Rightarrow> string list \<Rightarrow> bool" where
  "missing getv c pn files \<longleftrightarrow> version_required getv pn \<and> set_file getv c pn files = None"

lemma choice_mem:
  "files \<noteq> [] \<Longrightarrow> \<forall>f \<in> set files. file_ok c f \<Longrightarrow> choice getv c pn files \<in> set files"
  by (auto simp: choice_def dest: set_file_mem latest_file_best(3) split: option.splits)

text \<open>C32. The search for the best provider of a recipe name returns, for files with priority,
  preference and a version that parses, the best file of the highest priority as the latest one; the
  preferred file is the first file, in order of priority, whose version matches REQUIRED_VERSION or
  else PREFERRED_VERSION, and without a match it is the latest file, or none if the version is
  required.\<close>

theorem findBestProvider_chooses:
  assumes "dget_default (dc_pkg_pn c) pn [] = files" and "files \<noteq> []"
    and "\<forall>f \<in> set files. file_ok c f \<and> f \<noteq> []"
  shows "\<exists>latest. lp.best_of c (hd (priority_groups c files)) latest \<and>
    findBestProvider pn getv c [] =
      Inr (Some (fver c latest), Some latest,
           (case set_file getv c pn files of
              Some f \<Rightarrow> (Some (fver c f), Some f, version_required getv pn)
            | None \<Rightarrow> if version_required getv pn then (None, None, True)
                      else (Some (fver c latest), Some latest, False)))"
proof -
  have ok: "\<forall>f \<in> set files. file_ok c f" using assms(3) by blast
  obtain g gs where g: "priority_groups c files = g # gs"
    using priority_groups_Cons [OF assms(2)] by blast
  have "findBestProvider pn getv c [] =
      Inr (Some (fver c (latest_file c files)), Some (latest_file c files),
           (case set_file getv c pn files of
              Some f \<Rightarrow> (Some (fver c f), Some f, version_required getv pn)
            | None \<Rightarrow> if version_required getv pn then (None, None, True)
                      else (Some (fver c (latest_file c files)), Some (latest_file c files), False)))"
    using findPreferredProvider_set_file [OF assms(3), of pn getv] latest_file_best(1) [OF assms(2) ok]
    by (auto simp: findBestProvider_def sortPriorities_groups [OF ok] assms(1) g split: option.splits)
  with latest_file_best(2) [OF assms(2) ok] show ?thesis by blast
qed

section \<open>One candidate per recipe name\<close>

definition name_of :: "cachedata \<Rightarrow> string \<Rightarrow> string" where
  "name_of c f = the (dget (dc_pkg_fn c) f)"

definition files_named :: "cachedata \<Rightarrow> string list \<Rightarrow> string \<Rightarrow> string list" where
  "files_named c fs pn = filter (\<lambda>f. name_of c f = pn) fs"

lemma files_named_empty: "files_named c fs pn = [] \<longleftrightarrow> pn \<notin> name_of c ` set fs"
  by (auto simp: files_named_def filter_empty_conv)

definition usable :: "cachedata \<Rightarrow> string list \<Rightarrow> bool" where
  "usable c fs \<longleftrightarrow> (\<forall>f \<in> set fs. file_ok c f \<and> f \<noteq> [])"

lemma usable_named: "usable c fs \<Longrightarrow> usable c (files_named c fs pn)"
  by (simp add: usable_def files_named_def)

definition collated :: "cachedata \<Rightarrow> string list \<Rightarrow> (string, string list) odict \<Rightarrow> bool" where
  "collated c fs d \<longleftrightarrow> distinct (dkeys d) \<and> set (dkeys d) = name_of c ` set fs \<and>
    (\<forall>pn. dget_default d pn [] = files_named c fs pn)"

lemma collate_files:
  assumes "usable c fs"
  shows "\<exists>d. collate c fs = Inr d \<and> collated c fs d"
  using assms
proof (induction fs rule: rev_induct)
  case Nil
  then show ?case by (simp add: collate_def collated_def files_named_def dget_default_def)
next
  case (snoc f fs)
  then obtain d where d: "collate c fs = Inr d" "collated c fs d"
    by (auto simp: usable_def)
  have "dindex (dc_pkg_fn c) f = Inr (name_of c f)"
    using snoc.prems file_ok_index(4) by (simp add: usable_def name_of_def)
  then have "collate c (fs @ [f]) = Inr (dset (name_of c f) (files_named c fs (name_of c f) @ [f]) d)"
    using d by (simp add: collate_def collated_def foldE_append)
  with d(2) show ?case
    by (auto simp: collated_def dict_simps files_named_def simp del: set_map)
qed

lemma collated_sort:
  assumes "usable c fs" and "collated c fs d" and pn: "pn \<in> name_of c ` set fs"
  shows "sortPriorities pn c d = Inr (priority_groups c (files_named c fs pn))"
proof (rule sortPriorities_groups)
  show "\<forall>f \<in> set (files_named c fs pn). file_ok c f"
    using usable_named [OF assms(1)] by (simp add: usable_def)
  obtain v where "dget d pn = Some v"
    using assms(2) pn by (cases "dget d pn") (auto simp: collated_def map_of_eq_None_iff)
  moreover from this have "v = files_named c fs pn"
    using assms(2) by (metis collated_def dget_default_simps(1))
  ultimately show "(if d = [] then Inr (dget_default (dc_pkg_pn c) pn []) else dindex d pn) =
      Inr (files_named c fs pn)"
    by (auto simp: dindex_def)
qed

text \<open>The first pass, with and without a missing required version.\<close>

abbreviation set_of where "set_of getv c fs pn \<equiv> set_file getv c pn (files_named c fs pn)"
abbreviation missing_of where "missing_of getv c fs pn \<equiv> missing getv c pn (files_named c fs pn)"
abbreviation choice_of where "choice_of getv c fs pn \<equiv> choice getv c pn (files_named c fs pn)"

lemma set_of_usable:
  assumes "usable c fs" and "set_of getv c fs pn = Some f"
  shows "f \<in> set fs \<and> name_of c f = pn \<and> f \<noteq> []"
  using set_file_mem [OF assms(2)] assms(1) by (simp add: usable_def files_named_def)

lemma required_pass_step:
  assumes "usable c fs" and "collated c fs d" and "pn \<in> name_of c ` set fs"
  shows "required_pass item getv c d (pn # pns) (s, pv, el) =
    (if missing_of getv c fs pn then Inr (Inl el)
     else required_pass item getv c d pns
       (dset pn (priority_groups c (files_named c fs pn)) s, dset pn (set_of getv c fs pn) pv,
        (case set_of getv c fs pn of None \<Rightarrow> el | Some f \<Rightarrow> el @ [f])))"
proof -
  have "\<forall>f \<in> set (files_named c fs pn). file_ok c f \<and> f \<noteq> []"
    using usable_named [OF assms(1)] by (simp add: usable_def)
  note fp = findPreferredProvider_set_file [OF this, of pn getv]
  show ?thesis
    using set_of_usable [OF assms(1), of getv pn]
    by (auto simp: collated_sort [OF assms] fp missing_def unset_def option.map_comp o_def
        split: option.splits)
qed

lemma required_pass_all:
  assumes "usable c fs" and "collated c fs d"
    and "set pns \<subseteq> name_of c ` set fs" and "\<forall>pn \<in> set pns. \<not> missing_of getv c fs pn"
  shows "required_pass item getv c d pns (s, pv, el) =
    Inr (Inr (fold (\<lambda>pn. dset pn (priority_groups c (files_named c fs pn))) pns s,
       fold (\<lambda>pn. dset pn (set_of getv c fs pn)) pns pv,
       el @ map (choice_of getv c fs) (filter (\<lambda>pn. set_of getv c fs pn \<noteq> None) pns)))"
  using assms(3,4)
proof (induction pns arbitrary: s pv el)
  case (Cons pn pns)
  then show ?case
    by (auto simp: required_pass_step [OF assms(1,2)] choice_def simp del: required_pass.simps(2))
qed simp

lemma required_pass_missing:
  assumes "usable c fs" and "collated c fs d"
    and "set pns \<subseteq> name_of c ` set fs" and "\<exists>pn \<in> set pns. missing_of getv c fs pn"
  shows "required_pass item getv c d pns (s, pv, el) =
    Inr (Inl (el @ map (choice_of getv c fs) (filter (\<lambda>pn. set_of getv c fs pn \<noteq> None)
       (takeWhile (\<lambda>pn. \<not> missing_of getv c fs pn) pns))))"
  using assms(3,4)
proof (induction pns arbitrary: s pv el)
  case (Cons pn pns)
  show ?case
  proof (cases "missing_of getv c fs pn")
    case True
    with Cons.prems show ?thesis
      by (simp add: required_pass_step [OF assms(1,2)] del: required_pass.simps(2))
  next
    case False
    with Cons.prems have "\<exists>pn \<in> set pns. missing_of getv c fs pn" by auto
    note IH = Cons.IH [OF _ this]
    have "choice_of getv c fs pn = f" if "set_of getv c fs pn = Some f" for f
      using that by (simp add: choice_def)
    with False Cons.prems(1) show ?thesis
      by (cases "set_of getv c fs pn")
        (simp_all add: required_pass_step [OF assms(1,2)] IH del: required_pass.simps(2))
  qed
qed simp

lemma fold_dset_get:
  "dget (fold (\<lambda>k. dset k (g k)) ks d) j = (if j \<in> set ks then Some (g j) else dget d j)"
  by (induction ks arbitrary: d) (auto simp: dict_simps)

lemma fold_dset_keys: "set (dkeys (fold (\<lambda>k. dset k (g k)) ks d)) = set ks \<union> set (dkeys d)"
proof (induction ks arbitrary: d)
  case (Cons k ks)
  then show ?case by (auto simp: dict_simps simp del: set_map)
qed simp

lemma fold_dset_distinct: "distinct (dkeys d) \<Longrightarrow> distinct (dkeys (fold (\<lambda>k. dset k (g k)) ks d))"
  by (induction ks arbitrary: d) (auto simp: distinct_update)

text \<open>The second pass adds the latest file of every name without a preferred one.\<close>

lemma latest_pass_all:
  assumes "usable c fs" and "set pns \<subseteq> name_of c ` set fs" and "distinct pns"
    and "\<forall>pn \<in> set pns. dget s pn = Some (priority_groups c (files_named c fs pn)) \<and>
          dget pv pn = Some (set_of getv c fs pn)"
  shows "\<exists>pv'. latest_pass c pns (s, pv, el) =
      Inr (s, pv', el @ map (choice_of getv c fs) (filter (\<lambda>pn. set_of getv c fs pn = None) pns)) \<and>
    (\<forall>pn \<in> set pns. dget pv' pn = Some (Some (choice_of getv c fs pn))) \<and>
    (\<forall>pn. pn \<notin> set pns \<longrightarrow> dget pv' pn = dget pv pn)"
  using assms(2,3,4)
proof (induction pns arbitrary: pv el)
  case (Cons pn pns)
  let ?files = "files_named c fs pn"
  have files: "?files \<noteq> []" "\<forall>f \<in> set ?files. file_ok c f"
    using Cons.prems(1) usable_named [OF assms(1)] by (auto simp: files_named_empty usable_def)
  obtain g gs where g: "priority_groups c ?files = g # gs"
    using priority_groups_Cons [OF files(1)] by blast
  show ?case
  proof (cases "set_of getv c fs pn")
    case None
    let ?pv = "dset pn (Some (choice_of getv c fs pn)) pv"
    have "latest_pass c (pn # pns) (s, pv, el) = latest_pass c pns (s, ?pv, el @ [choice_of getv c fs pn])"
      using Cons.prems(3) latest_file_best(1) [OF files] None g
      by (simp add: unset_def dindex_def choice_def)
    moreover have "\<forall>pn' \<in> set pns. dget ?pv pn' = dget pv pn'"
      using Cons.prems(2) by (auto simp: dict_simps)
    then obtain pv' where "latest_pass c pns (s, ?pv, el @ [choice_of getv c fs pn]) =
        Inr (s, pv', (el @ [choice_of getv c fs pn]) @
          map (choice_of getv c fs) (filter (\<lambda>pn. set_of getv c fs pn = None) pns))"
      "\<forall>pn \<in> set pns. dget pv' pn = Some (Some (choice_of getv c fs pn))"
      "\<forall>pn. pn \<notin> set pns \<longrightarrow> dget pv' pn = dget ?pv pn"
      using Cons.IH [of ?pv "el @ [choice_of getv c fs pn]"] Cons.prems by auto
    ultimately show ?thesis using None Cons.prems(2) by (auto simp: dict_simps)
  next
    case (Some f)
    then have "f \<noteq> []" using set_of_usable [OF assms(1)] by blast
    then have "latest_pass c (pn # pns) (s, pv, el) = latest_pass c pns (s, pv, el)"
      using Cons.prems(3) Some by (simp add: unset_def)
    moreover obtain pv' where "latest_pass c pns (s, pv, el) =
        Inr (s, pv', el @ map (choice_of getv c fs) (filter (\<lambda>pn. set_of getv c fs pn = None) pns))"
      "\<forall>pn \<in> set pns. dget pv' pn = Some (Some (choice_of getv c fs pn))"
      "\<forall>pn. pn \<notin> set pns \<longrightarrow> dget pv' pn = dget pv pn"
      using Cons.IH [of pv el] Cons.prems by auto
    moreover have "Some f = Some (choice_of getv c fs pn)" using Some by (simp add: choice_def)
    ultimately show ?thesis using Some Cons.prems(2,3) by auto
  qed
qed simp

text \<open>The preference for the item's own recipe moves its file to the front.\<close>

lemma prefer_item_front:
  assumes "\<forall>f \<in> set ps. dget (dc_pkg_fn c) f \<noteq> None"
    and "item \<in> name_of c ` set ps \<Longrightarrow> dget pv item = Some (Some g) \<and> g \<in> set el"
  shows "prefer_item item c pv ps el =
    Inr (if item \<in> name_of c ` set ps then g # remove1 g el else el)"
  using assms
proof (induction ps arbitrary: el)
  case (Cons f ps)
  have f: "dindex (dc_pkg_fn c) f = Inr (name_of c f)"
    using Cons.prems(1) by (auto simp: dindex_def name_of_def)
  show ?case
  proof (cases "name_of c f = item")
    case True
    with Cons.prems(2) have g: "dindex pv item = Inr (Some g)" "g \<in> set el"
      by (auto simp: dindex_def)
    have "prefer_item item c pv ps (g # remove1 g el) = Inr (g # remove1 g el)"
      using Cons.IH [of "g # remove1 g el"] Cons.prems g True by (auto split: if_splits)
    with True f g show ?thesis by (auto simp: prefer_item_def)
  next
    case False
    then have "prefer_item item c pv (f # ps) el = prefer_item item c pv ps el"
      by (simp add: prefer_item_def f)
    with False Cons show ?thesis by auto
  qed
qed (simp add: prefer_item_def)

definition names_of :: "cachedata \<Rightarrow> string list \<Rightarrow> string list" where
  "names_of c providers = sorted_list_of_set (name_of c ` set providers)"

lemma filter_providers_passes:
  assumes "usable c providers"
  shows "\<exists>d. collated c (sort providers) d \<and> usable c (sort providers) \<and>
     filter_providers providers item getv c =
       bindE (required_pass item getv c d (names_of c providers) ([], [], [])) (\<lambda>r.
           case r of
             Inl eligible \<Rightarrow> Inr eligible
           | Inr st \<Rightarrow>
               bindE (latest_pass c (sort (dkeys (fst st))) st) (\<lambda>(_, preferred_versions, eligible).
                 if eligible = [] then Inr eligible
                 else prefer_item item c preferred_versions (sort providers) eligible))"
proof -
  have "usable c (sort providers)" using assms by (simp add: usable_def)
  moreover from collate_files [OF this] obtain d where "collate c (sort providers) = Inr d"
    and d: "collated c (sort providers) d"
    by blast
  moreover have "sort (dkeys d) = names_of c providers"
    using d by (simp add: collated_def names_of_def sort_distinct del: set_map)
  ultimately show ?thesis by (auto simp: filter_providers_def Let_def)
qed

text \<open>
  Without a missing required version: the files preferred by a version setting, then the latest
  files of the other names, both in the order of the names, the item's own recipe first.
\<close>

definition candidates :: "string \<Rightarrow> config \<Rightarrow> cachedata \<Rightarrow> string list \<Rightarrow> string list" where
  "candidates item getv c providers =
     (let ps = sort providers; pns = names_of c providers;
          el = map (choice_of getv c ps)
            (filter (\<lambda>pn. set_of getv c ps pn \<noteq> None) pns @ filter (\<lambda>pn. set_of getv c ps pn = None) pns)
      in if item \<in> set pns then choice_of getv c ps item # remove1 (choice_of getv c ps item) el else el)"

lemma filter_providers_candidates:
  assumes u: "usable c providers"
    and nm: "\<forall>pn \<in> name_of c ` set providers. \<not> missing_of getv c (sort providers) pn"
  shows "filter_providers providers item getv c = Inr (candidates item getv c providers)"
proof -
  let ?ps = "sort providers" and ?pns = "names_of c providers"
  have pns: "set ?pns = name_of c ` set ?ps" "distinct ?pns" by (simp_all add: names_of_def)
  obtain d where d: "collated c ?ps d" and up: "usable c ?ps" and fp: "filter_providers providers item getv c =
       bindE (required_pass item getv c d ?pns ([], [], [])) (\<lambda>r.
           case r of
             Inl eligible \<Rightarrow> Inr eligible
           | Inr st \<Rightarrow>
               bindE (latest_pass c (sort (dkeys (fst st))) st) (\<lambda>(_, preferred_versions, eligible).
                 if eligible = [] then Inr eligible
                 else prefer_item item c preferred_versions ?ps eligible))"
    using filter_providers_passes [OF u] by blast
  let ?s = "fold (\<lambda>pn. dset pn (priority_groups c (files_named c ?ps pn))) ?pns []"
  let ?pv = "fold (\<lambda>pn. dset pn (set_of getv c ?ps pn)) ?pns []"
  let ?el = "map (choice_of getv c ?ps) (filter (\<lambda>pn. set_of getv c ?ps pn \<noteq> None) ?pns)"
  have req: "required_pass item getv c d ?pns ([], [], []) = Inr (Inr (?s, ?pv, ?el))"
    using required_pass_all [OF up d, of ?pns getv] pns(1) nm by simp
  have keys: "sort (dkeys ?s) = ?pns"
    using fold_dset_keys [of "\<lambda>pn. priority_groups c (files_named c ?ps pn)" ?pns "[]"]
      fold_dset_distinct [of "[]" "\<lambda>pn. priority_groups c (files_named c ?ps pn)" ?pns]
    by (simp add: sort_distinct names_of_def del: set_map)
  obtain pv' where lat: "latest_pass c ?pns (?s, ?pv, ?el) =
      Inr (?s, pv', ?el @ map (choice_of getv c ?ps) (filter (\<lambda>pn. set_of getv c ?ps pn = None) ?pns))"
    and pv': "\<forall>pn \<in> set ?pns. dget pv' pn = Some (Some (choice_of getv c ?ps pn))"
    using latest_pass_all [OF up, of ?pns ?s ?pv getv ?el] pns by (auto simp: fold_dset_get)
  let ?el' = "?el @ map (choice_of getv c ?ps) (filter (\<lambda>pn. set_of getv c ?ps pn = None) ?pns)"
  have mem: "choice_of getv c ?ps pn \<in> set ?el'" if "pn \<in> set ?pns" for pn
    using that by (cases "set_of getv c ?ps pn") auto
  have "prefer_item item c pv' ?ps ?el' = Inr (candidates item getv c providers)" 
    using prefer_item_front [of ?ps c item pv' "choice_of getv c ?ps item" ?el'] pv' pns(1) mem [of item] up
    by (auto simp: candidates_def Let_def usable_def file_ok_def dhas_iff)
  moreover have "candidates item getv c providers = []" if "?el' = []"
    using that mem [of item] by (auto simp: candidates_def Let_def)
  ultimately show ?thesis
    by (auto simp: fp req keys lat simp del: not_None_eq)
qed

lemma candidates_names:
  assumes "usable c providers"
  shows "map (name_of c) (candidates item getv c providers) =
    (let ps = sort providers; pns = names_of c providers;
         el = filter (\<lambda>pn. set_of getv c ps pn \<noteq> None) pns @ filter (\<lambda>pn. set_of getv c ps pn = None) pns
     in if item \<in> set pns then item # remove1 item el else el)"
proof -
  let ?ps = "sort providers" and ?pns = "names_of c providers"
  let ?ch = "choice_of getv c ?ps"
  have up: "usable c ?ps" using assms by (simp add: usable_def)
  have nm: "name_of c (?ch pn) = pn" if "pn \<in> set ?pns" for pn
  proof -
    have "files_named c ?ps pn \<noteq> []" using that by (simp add: names_of_def files_named_empty)
    then have "?ch pn \<in> set (files_named c ?ps pn)"
      using choice_mem usable_named [OF up] by (simp add: usable_def)
    then show ?thesis by (simp add: files_named_def)
  qed
  then have inj: "inj_on ?ch (set ?pns)" by (rule inj_on_inverseI)
  have mp: "map (name_of c \<circ> ?ch) xs = xs" if "set xs \<subseteq> set ?pns" for xs
    using that nm by (intro map_idI) auto
  have mpr: "map (name_of c \<circ> ?ch) (remove1 item xs) = remove1 item xs" if "set xs \<subseteq> set ?pns" for xs
    using mp [OF order_trans [OF set_remove1_subset that]] by simp
  have rm: "remove1 (?ch item) (map ?ch xs) = map ?ch (remove1 item xs)"
    if "item \<in> set ?pns" "set xs \<subseteq> set ?pns" for xs
    using that inj by (induction xs) (auto simp: inj_on_def)
  show ?thesis
    using nm [of item] mp mpr
    by (auto simp: candidates_def Let_def rm map_append [symmetric] simp del: map_append)
qed

lemma filter_providers_names:
  assumes "usable c providers"
    and "\<forall>pn \<in> name_of c ` set providers. \<not> missing_of getv c (sort providers) pn"
  shows "\<exists>eligible. filter_providers providers item getv c = Inr eligible \<and>
    set eligible \<subseteq> set providers \<and> distinct (map (name_of c) eligible) \<and>
    name_of c ` set eligible = name_of c ` set providers \<and>
    (item \<in> name_of c ` set providers \<longrightarrow> eligible \<noteq> [] \<and> name_of c (hd eligible) = item) \<and>
    (\<forall>f \<in> set eligible. f = choice_of getv c (sort providers) (name_of c f))"
proof -
  let ?ps = "sort providers" and ?pns = "names_of c providers" and ?el = "candidates item getv c providers"
  let ?ns = "filter (\<lambda>pn. set_of getv c ?ps pn \<noteq> None) ?pns @ filter (\<lambda>pn. set_of getv c ?ps pn = None) ?pns"
  have up: "usable c ?ps" using assms(1) by (simp add: usable_def)
  have ns: "distinct ?ns" "set ?ns = name_of c ` set providers"
    by (auto simp: names_of_def)
  note cn = candidates_names [OF assms(1), of item getv, unfolded Let_def]
  have pns: "set ?pns = name_of c ` set providers" by (simp add: names_of_def)
  have names: "distinct (map (name_of c) ?el)" "set (map (name_of c) ?el) = name_of c ` set providers"
    unfolding cn using ns pns by (auto simp: distinct_remove1 set_remove1_eq)
  have sub: "set ?el \<subseteq> choice_of getv c ?ps ` set ?pns"
  proof -
    have "set (map (choice_of getv c ?ps) ?ns) \<subseteq> choice_of getv c ?ps ` set ?pns" by auto
    then show ?thesis
      using order_trans [OF set_remove1_subset [of "choice_of getv c ?ps item" "map (choice_of getv c ?ps) ?ns"]]
      by (simp add: candidates_def Let_def del: map_append filter_append set_map)
  qed
  have ch: "choice_of getv c ?ps pn \<in> set providers \<and> name_of c (choice_of getv c ?ps pn) = pn"
    if "pn \<in> set ?pns" for pn
  proof -
    have "files_named c ?ps pn \<noteq> []" using that by (simp add: names_of_def files_named_empty)
    then have "choice_of getv c ?ps pn \<in> set (files_named c ?ps pn)"
      using choice_mem usable_named [OF up] by (simp add: usable_def)
    then show ?thesis by (simp add: files_named_def)
  qed
  have hd: "?el \<noteq> [] \<and> name_of c (hd ?el) = item" if "item \<in> name_of c ` set providers"
    using that ch [of item] pns by (simp add: candidates_def Let_def)
  have "filter_providers providers item getv c = Inr ?el"
    using filter_providers_candidates assms by blast
  moreover have "set ?el \<subseteq> set providers" using sub ch by blast
  moreover have "name_of c ` set ?el = name_of c ` set providers" using names(2) by simp
  moreover have "\<forall>f \<in> set ?el. f = choice_of getv c ?ps (name_of c f)" using sub ch by auto
  ultimately show ?thesis using names(1) hd by blast
qed

lemma filter_providers_missing:
  assumes "usable c providers"
    and "\<exists>pn \<in> name_of c ` set providers. missing_of getv c (sort providers) pn"
  shows "filter_providers providers item getv c =
    Inr (map (choice_of getv c (sort providers))
      (filter (\<lambda>pn. set_of getv c (sort providers) pn \<noteq> None)
        (takeWhile (\<lambda>pn. \<not> missing_of getv c (sort providers) pn) (names_of c providers))))"
proof -
  obtain d where d: "collated c (sort providers) d" "usable c (sort providers)"
    and fp: "filter_providers providers item getv c =
       bindE (required_pass item getv c d (names_of c providers) ([], [], [])) (\<lambda>r.
           case r of
             Inl eligible \<Rightarrow> Inr eligible
           | Inr st \<Rightarrow>
               bindE (latest_pass c (sort (dkeys (fst st))) st) (\<lambda>(_, preferred_versions, eligible).
                 if eligible = [] then Inr eligible
                 else prefer_item item c preferred_versions (sort providers) eligible))"
    using filter_providers_passes [OF assms(1)] by blast
  show ?thesis
    unfolding fp
    using required_pass_missing [OF d(2,1), of "names_of c providers" getv item "[]" "[]" "[]"] assms(2)
    by (simp add: names_of_def)
qed

text \<open>C33. Filtering the providers of an item keeps one file per recipe name: when no required
  version is missing the eligible files have pairwise different names, all the names of the
  providers occur, the item's own recipe comes first if it is among them, and the file kept for a
  name is its preferred one or the best of its highest priority.\<close>

theorem filter_providers_one_per_name:
  assumes "usable c providers"
    and "\<forall>pn \<in> name_of c ` set providers. \<not> missing_of getv c (sort providers) pn"
  shows "\<exists>eligible. filter_providers providers item getv c = Inr eligible \<and>
    set eligible \<subseteq> set providers \<and> distinct (map (name_of c) eligible) \<and>
    name_of c ` set eligible = name_of c ` set providers \<and>
    (item \<in> name_of c ` set providers \<longrightarrow> eligible \<noteq> [] \<and> name_of c (hd eligible) = item) \<and>
    (\<forall>f \<in> set eligible. f = choice_of getv c (sort providers) (name_of c f))"
  using filter_providers_names [OF assms] .

text \<open>A missing required version ends the search: only the preferred files of the names that
  sort before the first such name are eligible, and nothing is when it is the first name.\<close>

theorem filter_providers_required_missing:
  assumes "usable c providers"
    and "\<exists>pn \<in> name_of c ` set providers. missing_of getv c (sort providers) pn"
  shows "filter_providers providers item getv c =
    Inr (map (choice_of getv c (sort providers))
      (filter (\<lambda>pn. set_of getv c (sort providers) pn \<noteq> None)
        (takeWhile (\<lambda>pn. \<not> missing_of getv c (sort providers) pn) (names_of c providers))))"
  using filter_providers_missing [OF assms] .

lemma filter_providers_total:
  assumes u: "usable c providers"
  shows "\<exists>el. filter_providers providers item getv c = Inr el \<and> set el \<subseteq> set providers \<and> distinct el"
proof (cases "\<exists>pn \<in> name_of c ` set providers. missing_of getv c (sort providers) pn")
  case True
  let ?ps = "sort providers"
  let ?ns = "filter (\<lambda>pn. set_of getv c ?ps pn \<noteq> None)
        (takeWhile (\<lambda>pn. \<not> missing_of getv c ?ps pn) (names_of c providers))"
  have f: "choice_of getv c ?ps pn \<in> set providers \<and> name_of c (choice_of getv c ?ps pn) = pn"
    if "pn \<in> set ?ns" for pn
    using that set_of_usable [of c ?ps getv pn] u by (auto simp: choice_def usable_def)
  have "inj_on (choice_of getv c ?ps) (set ?ns)"
    using f by (intro inj_on_inverseI [of _ "name_of c"]) blast
  then have "distinct (map (choice_of getv c ?ps) ?ns)"
    by (simp add: distinct_map names_of_def distinct_takeWhile)
  moreover have "set (map (choice_of getv c ?ps) ?ns) \<subseteq> set providers"
    unfolding set_map using f by blast
  ultimately show ?thesis
    using filter_providers_missing [OF u True, of item] by blast
next
  case False
  then have "\<forall>pn \<in> name_of c ` set providers. \<not> missing_of getv c (sort providers) pn" by blast
  from filter_providers_names [OF u this, of item] show ?thesis
    by (elim exE conjE) (auto simp: distinct_map)
qed

section \<open>Preferred build and runtime providers\<close>

lemma find_pn_find:
  "\<forall>f \<in> set fs. dget (dc_pkg_fn c) f \<noteq> None \<Longrightarrow>
   find_pn c name fs = Inr (find (\<lambda>f. name = name_of c f) fs)"
  by (induction fs) (auto simp: dindex_def name_of_def)

lemma find_None_mem: "find P xs = None \<longleftrightarrow> (\<forall>x \<in> set xs. \<not> P x)"
  by (induction xs) auto

lemma move_preferred_result:
  assumes "\<forall>f \<in> set el. dget (dc_pkg_fn c) f \<noteq> None"
  shows "\<exists>el' u. move_preferred c name el = Inr (el', u) \<and> mset el' = mset el \<and>
    (u \<longrightarrow> el' \<noteq> [] \<and> name_of c (hd el') = name) \<and> (\<not> u \<longrightarrow> el' = el \<and> name \<notin> name_of c ` set el)"
proof (cases "find (\<lambda>f. name = name_of c f) el")
  case None
  then have "move_preferred c name el = Inr (el, False)"
    by (simp add: move_preferred_def find_pn_find [OF assms])
  moreover have "name \<notin> name_of c ` set el"
    using None by (auto simp: find_None_mem)
  ultimately show ?thesis by blast
next
  case (Some f)
  then have "f \<in> set el" "name = name_of c f" using find_Some_mem by fast+
  with Some show ?thesis
    by (auto simp: move_preferred_def find_pn_find [OF assms])
qed

lemma move_preferred_find:
  assumes "\<forall>f \<in> set el. dget (dc_pkg_fn c) f \<noteq> None"
  shows "move_preferred c name el =
    Inr (case find (\<lambda>f. name = name_of c f) el of None \<Rightarrow> (el, False) | Some f \<Rightarrow> (f # remove1 f el, True))"
  by (auto simp: move_preferred_def find_pn_find [OF assms] split: option.split)

text \<open>C34. Filtering for a build dependency reorders the eligible files and loses none: the answer
  is unique exactly when the recipe named by PREFERRED_PROVIDER, or by the preference recorded
  earlier, is eligible, and then its file comes first; a PREFERRED_PROVIDER is remembered.\<close>

theorem filterProviders_result:
  assumes "usable c providers"
  shows "\<exists>el el' u c'. filter_providers providers item getv c = Inr el \<and>
    filterProviders providers item getv c = Inr ((el', u), c') \<and> mset el' = mset el \<and>
    (let v = getv (''PREFERRED_PROVIDER_'' @ item)
     in dget (dc_preferred c') item = (if unset v then dget (dc_preferred c) item else v)) \<and>
    (u \<longleftrightarrow> (\<exists>f \<in> set el. dget (dc_preferred c') item = Some (name_of c f))) \<and>
    (u \<longrightarrow> el' \<noteq> [] \<and> dget (dc_preferred c') item = Some (name_of c (hd el'))) \<and> (\<not> u \<longrightarrow> el' = el)"
proof -
  obtain el where el: "filter_providers providers item getv c = Inr el" "set el \<subseteq> set providers"
    using filter_providers_total [OF assms] by blast
  define v where "v = getv (''PREFERRED_PROVIDER_'' @ item)"
  define c' where
    "c' = (if unset v then c else c\<lparr>dc_preferred := dset item (the v) (dc_preferred c)\<rparr>)"
  have pf: "dc_pkg_fn c' = dc_pkg_fn c" by (simp add: c'_def)
  then have same: "name_of c' f = name_of c f" for f by (simp add: name_of_def)
  have known: "\<forall>f \<in> set el. dget (dc_pkg_fn c') f \<noteq> None"
    using el(2) assms unfolding pf by (auto simp: usable_def file_ok_def dhas_iff)
  have pv: "dget (dc_preferred c') item = (if unset v then dget (dc_preferred c) item else v)"
    by (auto simp: dict_simps unset_def c'_def)
  have fp: "filterProviders providers item getv c =
      (case dget (dc_preferred c') item of None \<Rightarrow> Inr ((el, False), c')
       | Some name \<Rightarrow> bindE (move_preferred c' name el) (\<lambda>r. Inr (r, c')))"
    by (simp only: filterProviders_def el(1) bindE_simps Let_def c'_def v_def)
  show ?thesis
  proof (cases "dget (dc_preferred c') item")
    case None
    then show ?thesis unfolding Let_def v_def [symmetric] using el(1) pv fp
      by (intro exI [of _ el] exI [of _ False] exI [of _ c']) simp
  next
    case (Some name)
    obtain el' u where m: "move_preferred c' name el = Inr (el', u)" "mset el' = mset el"
      "u \<longrightarrow> el' \<noteq> [] \<and> name_of c (hd el') = name" "\<not> u \<longrightarrow> el' = el \<and> name \<notin> name_of c ` set el"
      using move_preferred_result [OF known, of name] unfolding same by blast
    have "u \<longleftrightarrow> (\<exists>f \<in> set el. name = name_of c f)"
      using m(3,4) mset_eq_setD [OF m(2)] by (metis hd_in_set image_eqI)
    then have u: "u \<longleftrightarrow> (\<exists>f \<in> set el. dget (dc_preferred c') item = Some (name_of c f))"
      using Some by auto
    have "filterProviders providers item getv c = Inr ((el', u), c')"
      by (simp add: fp Some m(1))
    moreover have "u \<longrightarrow> el' \<noteq> [] \<and> dget (dc_preferred c') item = Some (name_of c (hd el'))"
      "\<not> u \<longrightarrow> el' = el"
      using m Some by auto
    ultimately show ?thesis
      unfolding Let_def v_def [symmetric] using el(1) m(2) pv u by blast
  qed
qed

text \<open>The names of the eligible files, last file first, and the inference loop.\<close>

lemma pns_of_eligible:
  assumes "\<forall>f \<in> set el. dget (dc_pkg_fn c) f \<noteq> None"
  shows "\<exists>d. foldE (\<lambda>p pns. bindE (dindex (dc_pkg_fn c) p) (\<lambda>pn. Inr (dset pn p pns))) el [] = Inr d \<and>
    (\<forall>n f. dget d n = Some f \<longrightarrow> f \<in> set el \<and> name_of c f = n) \<and> (\<forall>f \<in> set el. dget d (name_of c f) \<noteq> None)"
  using assms
proof (induction el rule: rev_induct)
  case (snoc f el)
  then obtain d where "foldE (\<lambda>p pns. bindE (dindex (dc_pkg_fn c) p) (\<lambda>pn. Inr (dset pn p pns))) el [] = Inr d"
    and d: "\<forall>n f. dget d n = Some f \<longrightarrow> f \<in> set el \<and> name_of c f = n" "\<forall>f \<in> set el. dget d (name_of c f) \<noteq> None"
    by auto
  moreover have "dindex (dc_pkg_fn c) f = Inr (name_of c f)"
    using snoc.prems by (auto simp: dindex_def name_of_def)
  ultimately show ?case by (auto simp: foldE_append dict_simps)
qed simp

lemma first_pref_Some:
  "first_pref getv pns preferred provides = Some f \<Longrightarrow>
   \<exists>p n. p \<in> set provides \<and> getv (''PREFERRED_PROVIDER_'' @ p) = Some n \<and> dget pns n = Some f \<and> f \<notin> set preferred"
  by (induction provides)
    (auto simp: provide_pref_def split: option.splits if_splits)

lemma first_pref_None:
  "first_pref getv pns [] provides = None \<Longrightarrow> p \<in> set provides \<Longrightarrow> getv (''PREFERRED_PROVIDER_'' @ p) = Some n \<Longrightarrow>
   dget pns n = None"
  by (induction provides) (auto simp: provide_pref_def split: option.splits if_splits)

definition supported :: "config \<Rightarrow> cachedata \<Rightarrow> string list \<Rightarrow> string \<Rightarrow> bool" where
  "supported getv c el f \<longleftrightarrow> (\<exists>g \<in> set el. \<exists>p \<in> set (dget_default (dc_pn_provides c) (name_of c g) []).
     getv (''PREFERRED_PROVIDER_'' @ p) = Some (name_of c f))"

definition infer_inv ::
  "config \<Rightarrow> cachedata \<Rightarrow> string list \<Rightarrow> string list \<Rightarrow> string list \<Rightarrow> bool" where
  "infer_inv getv c el0 el preferred \<longleftrightarrow> mset el = mset el0 \<and> set preferred \<subseteq> set el0 \<and>
     distinct preferred \<and> (\<forall>f \<in> set preferred. supported getv c el0 f) \<and>
     el = rev preferred @ fold remove1 preferred el0"

lemma infer_inv_hit:
  assumes "infer_inv getv c el0 el preferred" and "f \<in> set el0" and "f \<notin> set preferred"
    and "supported getv c el0 f"
  shows "f \<in> set el \<and> infer_inv getv c el0 (f # remove1 f el) (preferred @ [f])"
proof -
  have "f \<in> set el" using assms(1,2) mset_eq_setD unfolding infer_inv_def by fastforce
  then show ?thesis using assms by (auto simp: infer_inv_def remove1_append)
qed

lemma infer_loop_inv:
  assumes known: "\<forall>f \<in> set el0. dget (dc_pkg_fn c) f \<noteq> None"
    and pns: "\<forall>n f. dget pns n = Some f \<longrightarrow> f \<in> set el0 \<and> name_of c f = n"
    and "set iter \<subseteq> set el0" and "infer_inv getv c el0 el preferred"
  shows "\<exists>el' preferred'. infer_loop getv c pns i iter same el preferred = Inr (el', preferred') \<and>
    infer_inv getv c el0 el' preferred' \<and> length preferred' \<le> length preferred + (length iter - i) \<and>
    length preferred \<le> length preferred'"
  using assms(3,4)
proof (induction "length iter - i" arbitrary: i iter same el preferred rule: less_induct)
  case less
  show ?case
  proof (cases "i < length iter")
    case False
    then show ?thesis using less.prems by (simp add: infer_loop.simps)
  next
    case True
    let ?provides = "dget_default (dc_pn_provides c) (name_of c (iter ! i)) []"
    have mem: "iter ! i \<in> set el0" using True less.prems(1) by (meson nth_mem subsetD)
    then have idx: "dindex (dc_pkg_fn c) (iter ! i) = Inr (name_of c (iter ! i))"
      using known by (auto simp: dindex_def name_of_def)
    show ?thesis
    proof (cases "first_pref getv pns preferred ?provides")
      case None
      have smaller: "length iter - Suc i < length iter - i" using True by simp
      have step: "infer_loop getv c pns i iter same el preferred =
          infer_loop getv c pns (Suc i) iter same el preferred"
        by (subst infer_loop.simps) (simp add: True idx None)
      have len: "length preferred + (length iter - Suc i) \<le> length preferred + (length iter - i)" by simp
      obtain el' preferred' where "infer_loop getv c pns (Suc i) iter same el preferred = Inr (el', preferred')"
        "infer_inv getv c el0 el' preferred'" "length preferred' \<le> length preferred + (length iter - Suc i)"
        "length preferred \<le> length preferred'"
        using less.hyps [OF smaller less.prems, of same] by blast
      then show ?thesis unfolding step using len by (intro exI [of _ el'] exI [of _ preferred'] conjI) linarith+
    next
      case (Some f)
      let ?iter = "if same then remove1 f iter else iter"
      obtain p n where p: "p \<in> set ?provides" "getv (''PREFERRED_PROVIDER_'' @ p) = Some n"
          "dget pns n = Some f" "f \<notin> set preferred"
        using first_pref_Some [OF Some] by blast
      then have f: "f \<in> set el0" "name_of c f = n" using pns by blast+
      then have "supported getv c el0 f"
        using p mem unfolding supported_def by blast
      note inv = infer_inv_hit [OF less.prems(2) f(1) p(4) this]
      have step: "infer_loop getv c pns i iter same el preferred =
          infer_loop getv c pns (Suc i) ?iter False (f # remove1 f el) (preferred @ [f])"
        using inv by (subst infer_loop.simps) (simp add: True idx Some)
      have li: "length ?iter \<le> length iter" by (auto simp: length_remove1)
      then have smaller: "length ?iter - Suc i < length iter - i" using True by linarith
      have sub: "set ?iter \<subseteq> set el0"
        using less.prems(1) order_trans [OF set_remove1_subset [of f iter] less.prems(1)] by simp
      have len: "length (preferred @ [f]) + (length ?iter - Suc i) \<le> length preferred + (length iter - i)"
        using li True by simp
      obtain el' preferred' where "infer_loop getv c pns (Suc i) ?iter False (f # remove1 f el) (preferred @ [f]) = Inr (el', preferred')"
        "infer_inv getv c el0 el' preferred'" "length preferred' \<le> length (preferred @ [f]) + (length ?iter - Suc i)"
        "length (preferred @ [f]) \<le> length preferred'"
        using less.hyps [OF smaller sub inv [THEN conjunct2], of False] by blast
      then show ?thesis unfolding step using len by (intro exI [of _ el'] exI [of _ preferred'] conjI) simp_all
    qed
  qed
qed

text \<open>While the loop still iterates the list it changes, the first preference found costs an
  iteration: with two files at most one preference is counted.\<close>

lemma infer_loop_count:
  assumes known: "\<forall>f \<in> set el0. dget (dc_pkg_fn c) f \<noteq> None"
    and pns: "\<forall>n f. dget pns n = Some f \<longrightarrow> f \<in> set el0 \<and> name_of c f = n"
  shows "i \<le> length el0 \<Longrightarrow> \<exists>el' preferred'. infer_loop getv c pns i el0 True el0 [] = Inr (el', preferred') \<and>
    length preferred' \<le> max 1 (length el0 - 1) \<and>
    (preferred' = [] \<longrightarrow> (\<forall>j. i \<le> j \<longrightarrow> j < length el0 \<longrightarrow>
        first_pref getv pns [] (dget_default (dc_pn_provides c) (name_of c (el0 ! j)) []) = None))"
proof (induction "length el0 - i" arbitrary: i)
  case 0
  then show ?case by (simp add: infer_loop.simps)
next
  case (Suc k)
  then have i: "i < length el0" by simp
  let ?provides = "dget_default (dc_pn_provides c) (name_of c (el0 ! i)) []"
  have mem: "el0 ! i \<in> set el0" using i by simp
  then have idx: "dindex (dc_pkg_fn c) (el0 ! i) = Inr (name_of c (el0 ! i))"
    using known by (auto simp: dindex_def name_of_def)
  show ?case
  proof (cases "first_pref getv pns [] ?provides")
    case None
    have "infer_loop getv c pns i el0 True el0 [] = infer_loop getv c pns (Suc i) el0 True el0 []"
      by (subst infer_loop.simps) (simp add: i idx None)
    moreover obtain el' preferred' where r: "infer_loop getv c pns (Suc i) el0 True el0 [] = Inr (el', preferred')"
        "length preferred' \<le> max 1 (length el0 - 1)"
      and n: "preferred' = [] \<longrightarrow> (\<forall>j. Suc i \<le> j \<longrightarrow> j < length el0 \<longrightarrow>
        first_pref getv pns [] (dget_default (dc_pn_provides c) (name_of c (el0 ! j)) []) = None)"
      using Suc.hyps(1) [of "Suc i"] Suc.hyps(2) i by fastforce
    moreover have "preferred' = [] \<longrightarrow> (\<forall>j. i \<le> j \<longrightarrow> j < length el0 \<longrightarrow>
        first_pref getv pns [] (dget_default (dc_pn_provides c) (name_of c (el0 ! j)) []) = None)"
    proof (intro impI allI)
      fix j assume "preferred' = []" "i \<le> j" "j < length el0"
      then show "first_pref getv pns [] (dget_default (dc_pn_provides c) (name_of c (el0 ! j)) []) = None"
        using n None by (cases "j = i") simp_all
    qed
    ultimately show ?thesis by (intro exI [of _ el'] exI [of _ preferred'] conjI) simp_all
  next
    case (Some f)
    obtain p n where p: "p \<in> set ?provides" "getv (''PREFERRED_PROVIDER_'' @ p) = Some n"
        "dget pns n = Some f" "f \<notin> set []"
      using first_pref_Some [OF Some] by blast
    then have f: "f \<in> set el0" "name_of c f = n" using pns by blast+
    then have sup: "supported getv c el0 f"
      using p mem unfolding supported_def by blast
    have "infer_inv getv c el0 el0 []" by (simp add: infer_inv_def)
    note inv = infer_inv_hit [OF this f(1) p(4) sup]
    have step: "infer_loop getv c pns i el0 True el0 [] =
        infer_loop getv c pns (Suc i) (remove1 f el0) False (f # remove1 f el0) [f]"
      using f(1) by (subst infer_loop.simps) (simp add: i idx Some)
    obtain el' preferred' where "infer_loop getv c pns (Suc i) (remove1 f el0) False (f # remove1 f el0) [f]
        = Inr (el', preferred')" "length preferred' \<le> length [f] + (length (remove1 f el0) - Suc i)"
      "length [f] \<le> length preferred'"
      using infer_loop_inv [OF known pns set_remove1_subset [of f el0] inv [THEN conjunct2],
          where i = "Suc i" and same = False]
      by auto
    moreover from this have "preferred' \<noteq> []" "length preferred' \<le> max 1 (length el0 - 1)"
      using f(1) i by (auto simp: length_remove1)
    ultimately show ?thesis unfolding step by (intro exI [of _ el'] exI [of _ preferred'] conjI) simp_all
  qed
qed

text \<open>The eligible file that PREFERRED_RPROVIDER chooses.\<close>

definition runtime_choice :: "config \<Rightarrow> cachedata \<Rightarrow> string \<Rightarrow> string list \<Rightarrow> string option" where
  "runtime_choice getv c item el =
     (let v = getv (''PREFERRED_RPROVIDER_'' @ item) in if unset v then None else find (\<lambda>f. v = Some (name_of c f)) el)"

lemma inferred_preferences:
  assumes known: "\<forall>f \<in> set el. dget (dc_pkg_fn c) f \<noteq> None"
    and pns: "\<forall>n f. dget pns n = Some f \<longrightarrow> f \<in> set el \<and> name_of c f = n" "\<forall>f \<in> set el. dget pns (name_of c f) \<noteq> None"
  shows "\<exists>el' preferred. infer_loop getv c pns 0 el True el [] = Inr (el', preferred) \<and> infer_inv getv c el el' preferred \<and>
    length preferred \<le> max 1 (length el - 1) \<and> (preferred \<noteq> [] \<longleftrightarrow> (\<exists>f \<in> set el. supported getv c el f))"
proof -
  have "infer_inv getv c el el []" by (simp add: infer_inv_def)
  then obtain el' preferred where inf: "infer_loop getv c pns 0 el True el [] = Inr (el', preferred)"
    "infer_inv getv c el el' preferred"
    using infer_loop_inv [OF known pns(1) order_refl, where i = 0 and same = True] by blast
  obtain el2 preferred2 where two: "infer_loop getv c pns 0 el True el [] = Inr (el2, preferred2)"
    "length preferred2 \<le> max 1 (length el - 1)"
    "preferred2 = [] \<longrightarrow> (\<forall>j. 0 \<le> j \<longrightarrow> j < length el \<longrightarrow>
        first_pref getv pns [] (dget_default (dc_pn_provides c) (name_of c (el ! j)) []) = None)"
    using infer_loop_count [OF known pns(1), of 0 getv] by blast
  from two(1) inf(1) have same: "preferred2 = preferred" by simp
  have cnt: "length preferred \<le> max 1 (length el - 1)" using two(2) unfolding same .
  have none: "preferred = [] \<Longrightarrow> j < length el \<Longrightarrow>
      first_pref getv pns [] (dget_default (dc_pn_provides c) (name_of c (el ! j)) []) = None" for j
    using two(3) unfolding same by blast
  have "\<not> supported getv c el f" if e: "preferred = []" and f: "f \<in> set el" for f
  proof
    assume "supported getv c el f"
    then obtain g p where g: "g \<in> set el" "p \<in> set (dget_default (dc_pn_provides c) (name_of c g) [])"
      "getv (''PREFERRED_PROVIDER_'' @ p) = Some (name_of c f)" unfolding supported_def by blast
    from g(1) obtain j where j: "j < length el" "el ! j = g" unfolding in_set_conv_nth by blast
    from none [OF e j(1)] have "first_pref getv pns [] (dget_default (dc_pn_provides c) (name_of c g) []) = None"
      unfolding j(2) .
    from first_pref_None [OF this g(2,3)] have "dget pns (name_of c f) = None" .
    with bspec [OF pns(2) f] show False by contradiction
  qed
  moreover have "\<exists>f \<in> set el. supported getv c el f" if "preferred \<noteq> []"
  proof (rule bexI [of _ "hd preferred"])
    show "supported getv c el (hd preferred)" "hd preferred \<in> set el"
      using inf(2) hd_in_set [OF that] by (auto simp: infer_inv_def)
  qed
  ultimately have "preferred \<noteq> [] \<longleftrightarrow> (\<exists>f \<in> set el. supported getv c el f)" by meson
  with inf cnt show ?thesis by (intro exI [of _ el'] exI [of _ preferred] conjI)
qed

lemma filterProvidersRunTime_inv:
  assumes "usable c providers"
  shows "\<exists>el el' n. filter_providers providers item getv c = Inr el \<and>
    filterProvidersRunTime providers item getv c = Inr (el', n) \<and> n \<le> max 1 (length el - 1) \<and>
    (case runtime_choice getv c item el of
       Some f \<Rightarrow> n = 1 \<and> f \<in> set el \<and> el' = f # remove1 f el
     | None \<Rightarrow> \<exists>preferred. infer_inv getv c el el' preferred \<and> n = length preferred \<and>
         (preferred \<noteq> [] \<longleftrightarrow> (\<exists>f \<in> set el. supported getv c el f)))"
proof -
  obtain el where el: "filter_providers providers item getv c = Inr el" "set el \<subseteq> set providers"
    using filter_providers_total [OF assms] by blast
  have known: "\<forall>f \<in> set el. dget (dc_pkg_fn c) f \<noteq> None"
    using el(2) assms by (auto simp: usable_def file_ok_def dhas_iff)
  obtain pns where pns: "foldE (\<lambda>p pns. bindE (dindex (dc_pkg_fn c) p) (\<lambda>pn. Inr (dset pn p pns))) el []
      = Inr pns" "\<forall>n f. dget pns n = Some f \<longrightarrow> f \<in> set el \<and> name_of c f = n" "\<forall>f \<in> set el. dget pns (name_of c f) \<noteq> None"
    using pns_of_eligible [OF known] by blast
  obtain el' preferred where inf: "infer_loop getv c pns 0 el True el [] = Inr (el', preferred)"
    "infer_inv getv c el el' preferred" "length preferred \<le> max 1 (length el - 1)"
    "preferred \<noteq> [] \<longleftrightarrow> (\<exists>f \<in> set el. supported getv c el f)"
    using inferred_preferences [OF known pns(2,3)] by blast
  define v where "v = getv (''PREFERRED_RPROVIDER_'' @ item)"
  have rt: "filterProvidersRunTime providers item getv c =
      bindE (if unset v then Inr (el, False) else move_preferred c (the v) el) (\<lambda>(el, u).
        if u then Inr (el, 1)
        else bindE (foldE (\<lambda>p pns. bindE (dindex (dc_pkg_fn c) p) (\<lambda>pn. Inr (dset pn p pns))) el []) (\<lambda>pns.
            bindE (infer_loop getv c pns 0 el True el []) (\<lambda>(el, preferred). Inr (el, length preferred))))"
    by (simp only: filterProvidersRunTime_def el(1) bindE_simps Let_def v_def)
  have choice: "runtime_choice getv c item el = (if unset v then None else find (\<lambda>f. the v = name_of c f) el)"
    unfolding runtime_choice_def v_def Let_def by (cases "getv (''PREFERRED_RPROVIDER_'' @ item)") (simp_all add: unset_def del: append.simps)
  show ?thesis
  proof (cases "runtime_choice getv c item el")
    case None
    then have m: "(if unset v then Inr (el, False) else move_preferred c (the v) el) = Inr (el, False)"
      by (simp add: choice move_preferred_find [OF known] split: if_splits)
    have "filterProvidersRunTime providers item getv c = Inr (el', length preferred)"
      unfolding rt m by (simp add: pns(1) inf(1))
    then show ?thesis using el(1) inf(2-4) None by auto
  next
    case (Some f)
    then have u: "\<not> unset v" and f: "find (\<lambda>f. the v = name_of c f) el = Some f"
      by (simp_all add: choice split: if_splits)
    then have m: "move_preferred c (the v) el = Inr (f # remove1 f el, True)" by (simp add: move_preferred_find [OF known])
    have "filterProvidersRunTime providers item getv c = Inr (f # remove1 f el, 1)"
      unfolding rt using u m by simp
    moreover have "f \<in> set el" using find_Some_mem [OF f] by blast
    ultimately show ?thesis using el(1) Some by auto
  qed
qed

text \<open>C35. Filtering for a runtime dependency reorders the eligible files and counts the preferences found. When
  PREFERRED_RPROVIDER names an eligible recipe, its file is moved to the front and the count is 1. Otherwise the
  count is the number of different eligible files found whose recipes PREFERRED_PROVIDER entries, for names that
  eligible recipes provide, choose; there is at least one exactly when there is such an entry. These files are moved to
  the front, the one found last first, and the others keep their order; without any the order is unchanged.\<close>

theorem filterProvidersRunTime_result:
  assumes "usable c providers"
  shows "\<exists>el el' n. filter_providers providers item getv c = Inr el \<and>
    filterProvidersRunTime providers item getv c = Inr (el', n) \<and> mset el' = mset el \<and>
    (case runtime_choice getv c item el of
       Some f \<Rightarrow> n = 1 \<and> el' = f # remove1 f el
     | None \<Rightarrow> \<exists>preferred. n = length preferred \<and> distinct preferred \<and>
         (\<forall>f \<in> set preferred. f \<in> set el \<and> supported getv c el f) \<and>
         el' = rev preferred @ fold remove1 preferred el \<and>
         (n > 0 \<longleftrightarrow> (\<exists>f \<in> set el. supported getv c el f)))"
proof -
  obtain el el' n where e: "filter_providers providers item getv c = Inr el"
    "filterProvidersRunTime providers item getv c = Inr (el', n)"
    and r: "case runtime_choice getv c item el of
       Some f \<Rightarrow> n = 1 \<and> f \<in> set el \<and> el' = f # remove1 f el
     | None \<Rightarrow> \<exists>preferred. infer_inv getv c el el' preferred \<and> n = length preferred \<and>
         (preferred \<noteq> [] \<longleftrightarrow> (\<exists>f \<in> set el. supported getv c el f))"
    using filterProvidersRunTime_inv [OF assms, of item getv] by blast
  show ?thesis
  proof (cases "runtime_choice getv c item el")
    case (Some f)
    with r have "n = 1" "el' = f # remove1 f el" "mset el' = mset el" by auto
    then show ?thesis using e Some by (intro exI [of _ el] exI [of _ el'] exI [of _ n]) simp
  next
    case None
    with r obtain preferred where i: "infer_inv getv c el el' preferred" and n: "n = length preferred"
      "preferred \<noteq> [] \<longleftrightarrow> (\<exists>f \<in> set el. supported getv c el f)" by auto
    from i have p: "mset el' = mset el" "distinct preferred" "\<forall>f \<in> set preferred. f \<in> set el \<and> supported getv c el f"
      "el' = rev preferred @ fold remove1 preferred el" by (auto simp: infer_inv_def)
    have "n > 0 \<longleftrightarrow> (\<exists>f \<in> set el. supported getv c el f)" using n by simp
    with p n(1) have "\<exists>preferred. n = length preferred \<and> distinct preferred \<and>
         (\<forall>f \<in> set preferred. f \<in> set el \<and> supported getv c el f) \<and>
         el' = rev preferred @ fold remove1 preferred el \<and> (n > 0 \<longleftrightarrow> (\<exists>f \<in> set el. supported getv c el f))"
      by (intro exI [of _ preferred] conjI)
    then show ?thesis using e None p(1) by (intro exI [of _ el] exI [of _ el'] exI [of _ n]) simp
  qed
qed

text \<open>The loop that infers a runtime provider removes from the list it iterates, so it can
  skip a file: of two eligible recipes with conflicting PREFERRED_PROVIDER entries at most one is
  counted, and the conflict is never reported.\<close>

theorem runtime_conflict_of_two_unnoticed:
  assumes "usable c providers" and "filter_providers providers item getv c = Inr el" and "length el \<le> 2"
    and "filterProvidersRunTime providers item getv c = Inr (el', n)"
  shows "n \<le> 1"
  using filterProvidersRunTime_inv [OF assms(1), of item getv] assms(2,3,4) by auto

section \<open>The world\<close>

definition in_world :: "string option \<Rightarrow> cachedata \<Rightarrow> string \<Rightarrow> bool" where
  "in_world task c f \<longleftrightarrow>
     (unset task \<or> the task \<in> set (td_tasks (the (dget (dc_task_deps c) f)))) \<and>
     (\<forall>p \<in> set (dget_default (dc_pn_provides c) (name_of c f) []).
        \<not> startswith p ''virtual/'' \<and>
        (\<forall>g \<in> set (dget_default (dc_providers c) p []). name_of c g = name_of c f))"

lemma provided_by_other_iff:
  "\<forall>f \<in> set pfs. dget (dc_pkg_fn c) f \<noteq> None \<Longrightarrow>
   provided_by_other c pn pfs = Inr (\<exists>f \<in> set pfs. name_of c f \<noteq> pn)"
  by (induction pfs) (auto simp: dindex_def name_of_def)

lemma world_terminal_iff:
  "\<forall>p. \<forall>f \<in> set (dget_default (dc_providers c) p []). dget (dc_pkg_fn c) f \<noteq> None \<Longrightarrow>
   world_terminal c pn ps t = Inr (t \<and> (\<forall>p \<in> set ps. \<not> startswith p ''virtual/'' \<and>
        (\<forall>g \<in> set (dget_default (dc_providers c) p []). name_of c g = pn)))"
  by (induction ps arbitrary: t) (auto simp: provided_by_other_iff)

lemma world_step_result:
  assumes "cache_wf c" and "dhas (dc_pkg_fn c) f"
  shows "world_step task f (c\<lparr>dc_world_target := w\<rparr>) =
    Inr (c\<lparr>dc_world_target := (if in_world task c f then sadd (name_of c f) w else w)\<rparr>)"
proof -
  let ?c = "c\<lparr>dc_world_target := w\<rparr>"
  have prov: "\<forall>p. \<forall>f \<in> set (dget_default (dc_providers ?c) p []). dget (dc_pkg_fn ?c) f \<noteq> None"
    using assms(1) by (simp add: cache_wf_def providers_wf_def)
  obtain pn where pn: "dget (dc_pkg_fn c) f = Some pn" using assms(2) by (auto simp: dhas_iff)
  then have "dget (dc_task_deps c) f \<noteq> None"
    using assms(1) unfolding cache_wf_def files_wf_def by blast
  then obtain td where td: "dget (dc_task_deps c) f = Some td" by blast
  have nm: "name_of ?c g = name_of c g" for g by (simp add: name_of_def)
  have "name_of c f = pn" by (simp add: name_of_def pn)
  then show ?thesis
    by (auto simp: world_step_def world_terminal_iff [OF prov] nm dindex_def pn td in_world_def)
qed

text \<open>C36. On a consistent cache the world targets are exactly the names of the files for world
  builds that have the task, provide nothing virtual and share none of their names with another
  recipe.\<close>

theorem world_targets:
  assumes "cache_wf c" and "dc_world_target c = []"
  shows "\<exists>c'. buildWorldTargetList task c = Inr c' \<and> distinct (dc_world_target c') \<and>
    set (dc_world_target c') = name_of c ` {f \<in> set (dc_possible_world c). in_world task c f}"
proof -
  have "foldE (world_step task) fs (c\<lparr>dc_world_target := w\<rparr>) =
      Inr (c\<lparr>dc_world_target := supdate w (map (name_of c) (filter (in_world task c) fs))\<rparr>)"
    if "\<forall>f \<in> set fs. dhas (dc_pkg_fn c) f" for fs w
    using that
    by (induction fs arbitrary: w) (simp_all add: world_step_result [OF assms(1)] supdate_def)
  moreover have "\<forall>f \<in> set (dc_possible_world c). dhas (dc_pkg_fn c) f"
    using assms(1) by (simp add: cache_wf_def packages_wf_def dhas_iff)
  ultimately have loop: "foldE (world_step task) (dc_possible_world c) (c\<lparr>dc_world_target := []\<rparr>) =
      Inr (c\<lparr>dc_world_target := supdate [] (map (name_of c) (filter (in_world task c) (dc_possible_world c)))\<rparr>)"
    by blast
  have "c\<lparr>dc_world_target := []\<rparr> = c" using assms(2) by simp
  with loop show ?thesis
    by (simp add: buildWorldTargetList_def assms(2))
qed

section \<open>Witnesses\<close>

text \<open>Two recipes that both provide \<^verbatim>\<open>virtual/x\<close>, the second in two versions.\<close>

definition sample_cache :: cachedata where
  "sample_cache = init_cacheData\<lparr>
     dc_pkg_fn := [(''b1'', ''b''), (''a1'', ''a''), (''b2'', ''b'')],
     dc_pkg_pn := [(''b'', [''b1'', ''b2'']), (''a'', [''a1''])],
     dc_pkg_pepvpr := [(''b1'', ([], ''1.9'', ''r0'')), (''a1'', ([], ''2'', ''r0'')), (''b2'', ([], ''1.10'', ''r0''))],
     dc_pkg_dp := [(''b1'', 0), (''a1'', 0), (''b2'', 0)],
     dc_bbfile_priority := [(''b1'', 5), (''a1'', 5), (''b2'', 5)],
     dc_pn_provides := [(''b'', [''b'', ''y'']), (''a'', [''a'', ''x''])]\<rparr>"

definition sample_config :: config where
  "sample_config = map_of [(''PREFERRED_PROVIDER_x'', ''a''), (''PREFERRED_PROVIDER_y'', ''b'')]"

lemma sample_usable: "usable sample_cache [''b1'', ''a1'', ''b2'']"
  by code_simp

lemma findBestProvider_chooses_witness:
  "\<exists>latest. lp.best_of sample_cache (hd (priority_groups sample_cache [''b1'', ''b2''])) latest \<and>
    findBestProvider ''b'' sample_config sample_cache [] =
      Inr (Some (fver sample_cache latest), Some latest,
           (case set_file sample_config sample_cache ''b'' [''b1'', ''b2''] of
              Some f \<Rightarrow> (Some (fver sample_cache f), Some f, version_required sample_config ''b'')
            | None \<Rightarrow> if version_required sample_config ''b'' then (None, None, True)
                      else (Some (fver sample_cache latest), Some latest, False)))"
proof (rule findBestProvider_chooses)
  show "dget_default (dc_pkg_pn sample_cache) ''b'' [] = [''b1'', ''b2'']" by code_simp
  show "\<forall>f \<in> set [''b1'', ''b2'']. file_ok sample_cache f \<and> f \<noteq> []"
    using sample_usable by (simp add: usable_def)
qed simp

lemma sample_not_missing:
  "\<forall>pn \<in> name_of sample_cache ` set [''b1'', ''a1'', ''b2''].
     \<not> missing_of sample_config sample_cache (sort [''b1'', ''a1'', ''b2'']) pn"
  by code_simp

lemma filter_providers_one_per_name_witness:
  "\<exists>eligible. filter_providers [''b1'', ''a1'', ''b2''] ''b'' sample_config sample_cache = Inr eligible \<and>
    distinct (map (name_of sample_cache) eligible) \<and> name_of sample_cache (hd eligible) = ''b''"
proof -
  have "''b'' \<in> name_of sample_cache ` set [''b1'', ''a1'', ''b2'']" by code_simp
  then show ?thesis
    using filter_providers_one_per_name [OF sample_usable sample_not_missing, of "''b''"] by blast
qed

definition required_config :: config where
  "required_config = map_of [(''REQUIRED_VERSION_b'', ''7%''), (''PREFERRED_VERSION_a'', ''2'')]"

lemma filter_providers_required_missing_witness:
  "filter_providers [''b1'', ''a1'', ''b2''] ''y'' required_config sample_cache = Inr [''a1'']"
proof -
  have "\<exists>pn \<in> name_of sample_cache ` set [''b1'', ''a1'', ''b2''].
     missing_of required_config sample_cache (sort [''b1'', ''a1'', ''b2'']) pn"
    by code_simp
  note filter_providers_required_missing [OF sample_usable this, of "''y''"]
  moreover have "map (choice_of required_config sample_cache (sort [''b1'', ''a1'', ''b2'']))
      (filter (\<lambda>pn. set_of required_config sample_cache (sort [''b1'', ''a1'', ''b2'']) pn \<noteq> None)
        (takeWhile (\<lambda>pn. \<not> missing_of required_config sample_cache (sort [''b1'', ''a1'', ''b2'']) pn)
          (names_of sample_cache [''b1'', ''a1'', ''b2'']))) = [''a1'']"
    by code_simp
  ultimately show ?thesis by simp
qed

lemma filterProviders_result_witness:
  "\<exists>el el' u c'. filter_providers [''b1'', ''a1'', ''b2''] ''x'' sample_config sample_cache = Inr el \<and>
    filterProviders [''b1'', ''a1'', ''b2''] ''x'' sample_config sample_cache = Inr ((el', u), c') \<and>
    dget (dc_preferred c') ''x'' = Some ''a''"
proof -
  have "sample_config (''PREFERRED_PROVIDER_'' @ ''x'') = Some ''a''" by code_simp
  then show ?thesis
    using filterProviders_result [OF sample_usable, of "''x''" sample_config]
    by (auto simp: Let_def unset_def)
qed

lemma filterProvidersRunTime_result_witness:
  "\<exists>el' n. filterProvidersRunTime [''b1'', ''a1'', ''b2''] ''z'' sample_config sample_cache = Inr (el', n) \<and>
    mset el' = mset [''a1'', ''b2''] \<and> n > 0 \<and> supported sample_config sample_cache [''a1'', ''b2''] (hd el')"
proof -
  have el: "filter_providers [''b1'', ''a1'', ''b2''] ''z'' sample_config sample_cache = Inr [''a1'', ''b2'']"
    and c: "runtime_choice sample_config sample_cache ''z'' [''a1'', ''b2''] = None"
    and s: "\<exists>f \<in> set [''a1'', ''b2'']. supported sample_config sample_cache [''a1'', ''b2''] f" by code_simp+
  from filterProvidersRunTime_result [OF sample_usable, of "''z''" sample_config] el c
  obtain el' n preferred where r: "filterProvidersRunTime [''b1'', ''a1'', ''b2''] ''z'' sample_config sample_cache = Inr (el', n)"
    "mset el' = mset [''a1'', ''b2'']" "n = length preferred"
    "\<forall>f \<in> set preferred. supported sample_config sample_cache [''a1'', ''b2''] f"
    "el' = rev preferred @ fold remove1 preferred [''a1'', ''b2'']"
    "n > 0 \<longleftrightarrow> (\<exists>f \<in> set [''a1'', ''b2'']. supported sample_config sample_cache [''a1'', ''b2''] f)"
    by auto
  from r(6) s have n: "n > 0" by blast
  with r(3) have "preferred \<noteq> []" by simp
  then have "hd el' \<in> set preferred" using r(5) by (simp add: hd_append hd_rev)
  with r(1,2,4) n show ?thesis by blast
qed

lemma runtime_conflict_of_two_unnoticed_witness:
  "supported sample_config sample_cache [''a1'', ''b2''] ''a1'' \<and>
   supported sample_config sample_cache [''a1'', ''b2''] ''b2'' \<and>
   (\<exists>el' n. filterProvidersRunTime [''b1'', ''a1'', ''b2''] ''z'' sample_config sample_cache = Inr (el', n) \<and> n \<le> 1)"
proof -
  have el: "filter_providers [''b1'', ''a1'', ''b2''] ''z'' sample_config sample_cache = Inr [''a1'', ''b2'']"
    by code_simp
  obtain el' n where "filterProvidersRunTime [''b1'', ''a1'', ''b2''] ''z'' sample_config sample_cache = Inr (el', n)"
    using filterProvidersRunTime_inv [OF sample_usable] by blast
  moreover from runtime_conflict_of_two_unnoticed [OF sample_usable el _ this] have "n \<le> 1" by simp
  moreover have "supported sample_config sample_cache [''a1'', ''b2''] ''a1'' \<and>
     supported sample_config sample_cache [''a1'', ''b2''] ''b2''" by code_simp
  ultimately show ?thesis by blast
qed

lemma world_targets_witness:
  "\<exists>c c'. add_recipes sample_recipes init_cacheData = Inr c \<and> buildWorldTargetList None c = Inr c' \<and>
     distinct (dc_world_target c')"
proof -
  obtain c where c: "add_recipes sample_recipes init_cacheData = Inr c"
    using sample_recipes_add by blast
  have "distinct (map fst sample_recipes)" by code_simp
  then have wf: "cache_wf c"
    using cache_wf_add_recipes [OF c cache_wf_init] by (simp add: init_cacheData_def)
  have "dc_world_target c = []"
    using add_recipes_world_target [OF c] by (simp add: init_cacheData_def)
  then show ?thesis using world_targets [OF wf, of None] c by blast
qed

end
