(* ===== verification/TaskData.thy ===== *)
theory TaskData
  imports Providers
begin

text \<open>
  The resolution of dependency names to recipe files: \<^verbatim>\<open>bb/taskdata.py\<close>. The state is
  the object \<^verbatim>\<open>TaskData\<close> together with the cache it consults and the events it fires;
  a method is a function of type \<open>sx\<close>, since the handlers of \<^verbatim>\<open>add_provider\<close> and
  \<^verbatim>\<open>add_unresolved\<close> continue with the state an exception leaves. Log messages and the
  close matches of an event are left out. The iteration order of a \<^verbatim>\<open>set\<close> turned into a
  list is its insertion order.
\<close>

section \<open>State\<close>

record taskentry =
  te_tdepends :: "string list"
  te_idepends :: "(string \<times> string) list"
  te_irdepends :: "(string \<times> string) list"

record skipinfo =
  sk_pn :: string
  sk_reason :: string
  sk_provides :: "string list"
  sk_rprovides :: "string list"

datatype event =
    EvNoProvider (ev_item: string) (ev_runtime: bool) (ev_dependees: "string list") (ev_reasons: "string list")
  | EvMultipleProviders (ev_item: string) (ev_candidates: "string list") (ev_runtime: bool)

record taskdata =
  tk_build_targets :: "(string, string list) odict"
  tk_run_targets :: "(string, string list) odict"
  tk_external_targets :: "string list"
  tk_seenfns :: "string list"
  tk_taskentries :: "(string, taskentry) odict"
  tk_depids :: "(string, string list) odict"
  tk_rdepids :: "(string, string list) odict"
  tk_consider_msgs :: "string list"
  tk_failed_deps :: "string list"
  tk_failed_rdeps :: "string list"
  tk_failed_fns :: "string list"
  tk_halt :: bool
  tk_allowincomplete :: bool
  tk_skiplist :: "(string, skipinfo) odict"
  tk_mcdepends :: "string list"
  tk_cache :: cachedata
  tk_events :: "event list"

definition taskdata_init :: "bool \<Rightarrow> (string, skipinfo) odict \<Rightarrow> bool \<Rightarrow> cachedata \<Rightarrow> taskdata" where
  "taskdata_init halt skiplist allowincomplete c =
     \<lparr>tk_build_targets = [], tk_run_targets = [], tk_external_targets = [], tk_seenfns = [],
      tk_taskentries = [], tk_depids = [], tk_rdepids = [], tk_consider_msgs = [],
      tk_failed_deps = [], tk_failed_rdeps = [], tk_failed_fns = [], tk_halt = halt,
      tk_allowincomplete = allowincomplete, tk_skiplist = skiplist, tk_mcdepends = [],
      tk_cache = c, tk_events = []\<rparr>"

text \<open>
  What the resolution takes from outside: the configuration, regular expressions
  (\<open>ev_rematch p s\<close> is \<^verbatim>\<open>re.match(p, s)\<close>, without a value when the pattern does
  not compile), the Python text of \<^verbatim>\<open>calculate_extra_depends\<close>, which may change the list
  of dependencies it is given, and the depth of the recursion the interpreter allows.
\<close>

record tdenv =
  ev_getvar :: config
  ev_rematch :: "string \<Rightarrow> string \<Rightarrow> bool option"
  ev_exec :: "string \<Rightarrow> string list \<Rightarrow> string list \<Rightarrow> (string, string list) odict \<Rightarrow> string \<Rightarrow> string list result"
  ev_depth :: nat

fun re_match_strings :: "(string \<Rightarrow> string \<Rightarrow> bool option) \<Rightarrow> string \<Rightarrow> string list \<Rightarrow> bool result" where
  "re_match_strings rematch target [] = Inr False"
| "re_match_strings rematch target (name # names) =
     (if startswith name ''^'' \<or> endswith name ''$''
      then case rematch name target of
             None \<Rightarrow> Inl (RegexError name)
           | Some b \<Rightarrow> if b then Inr True else re_match_strings rematch target names
      else if name = target then Inr True
      else re_match_strings rematch target names)"

section \<open>Targets\<close>

definition have_build_target :: "string \<Rightarrow> taskdata \<Rightarrow> bool" where
  "have_build_target target s \<longleftrightarrow> dget_default (tk_build_targets s) target [] \<noteq> []"

definition have_runtime_target :: "string \<Rightarrow> taskdata \<Rightarrow> bool" where
  "have_runtime_target target s \<longleftrightarrow> dget_default (tk_run_targets s) target [] \<noteq> []"

definition seen_build_target :: "string \<Rightarrow> taskdata \<Rightarrow> taskdata" where
  "seen_build_target name s =
     (if dhas (tk_build_targets s) name then s
      else s\<lparr>tk_build_targets := dset name [] (tk_build_targets s)\<rparr>)"

definition seen_run_target :: "string \<Rightarrow> taskdata \<Rightarrow> taskdata" where
  "seen_run_target name s =
     (if dhas (tk_run_targets s) name then s
      else s\<lparr>tk_run_targets := dset name [] (tk_run_targets s)\<rparr>)"

definition add_target :: "string \<Rightarrow> string \<Rightarrow> (string, string list) odict \<Rightarrow> (string, string list) odict" where
  "add_target fn item d =
     (case dget d item of
        Some fns \<Rightarrow> if fn \<in> set fns then d else dset item (fns @ [fn]) d
      | None \<Rightarrow> dset item [fn] d)"

definition add_build_target :: "string \<Rightarrow> string \<Rightarrow> taskdata \<Rightarrow> taskdata" where
  "add_build_target fn item s = s\<lparr>tk_build_targets := add_target fn item (tk_build_targets s)\<rparr>"

definition add_runtime_target :: "string \<Rightarrow> string \<Rightarrow> taskdata \<Rightarrow> taskdata" where
  "add_runtime_target fn item s = s\<lparr>tk_run_targets := add_target fn item (tk_run_targets s)\<rparr>"

definition mark_external_target :: "string \<Rightarrow> taskdata \<Rightarrow> taskdata" where
  "mark_external_target target s =
     (if target \<in> set (tk_external_targets s) then s
      else s\<lparr>tk_external_targets := tk_external_targets s @ [target]\<rparr>)"

text \<open>The targets of \<open>d\<close> that are not ignored, not failed and have no provider.\<close>

definition unresolved ::
  "tdenv \<Rightarrow> string list \<Rightarrow> string list \<Rightarrow> (string, string list) odict \<Rightarrow> string list result" where
  "unresolved e ignored failed d =
     foldE (\<lambda>target acc. bindE (re_match_strings (ev_rematch e) target ignored) (\<lambda>m.
        Inr (if m \<or> target \<in> set failed \<or> dget_default d target [] \<noteq> [] then acc else acc @ [target])))
       (dkeys d) []"

definition get_unresolved_build_targets :: "tdenv \<Rightarrow> taskdata \<Rightarrow> string list result" where
  "get_unresolved_build_targets e s =
     unresolved e (dc_ignored_dependencies (tk_cache s)) (tk_failed_deps s) (tk_build_targets s)"

definition get_unresolved_run_targets :: "tdenv \<Rightarrow> taskdata \<Rightarrow> string list result" where
  "get_unresolved_run_targets e s =
     unresolved e (dc_ignored_dependencies (tk_cache s)) (tk_failed_rdeps s) (tk_run_targets s)"

definition get_provider :: "string \<Rightarrow> taskdata \<Rightarrow> string list result" where
  "get_provider item s = dindex (tk_build_targets s) item"

definition get_dependees :: "string \<Rightarrow> taskdata \<Rightarrow> string list" where
  "get_dependees item s = map fst (filter (\<lambda>(fn, deps). item \<in> set deps) (tk_depids s))"

definition get_rdependees :: "string \<Rightarrow> taskdata \<Rightarrow> string list" where
  "get_rdependees item s = map fst (filter (\<lambda>(fn, deps). item \<in> set deps) (tk_rdepids s))"

definition get_reasons :: "string \<Rightarrow> bool \<Rightarrow> taskdata \<Rightarrow> string list" where
  "get_reasons item runtime s =
     concat (map (\<lambda>(fn, i).
       if sk_pn i = item then [sk_pn i @ '' was skipped: '' @ sk_reason i]
       else if runtime \<and> item \<in> set (sk_rprovides i)
            then [sk_pn i @ '' RPROVIDES '' @ item @ '' but was skipped: '' @ sk_reason i]
       else if \<not> runtime \<and> item \<in> set (sk_provides i)
            then [sk_pn i @ '' PROVIDES '' @ item @ '' but was skipped: '' @ sk_reason i]
       else []) (tk_skiplist s))"

definition fire :: "event \<Rightarrow> (taskdata, unit) sx" where
  "fire ev s = (Inr (), s\<lparr>tk_events := tk_events s @ [ev]\<rparr>)"

section \<open>Failing files and targets\<close>

text \<open>
  \<open>fail_fn\<close> and the two methods that remove a target call each other. \<open>fail\<close> stands for
  \<open>fail_fn\<close> one level deeper; running out of depth is the interpreter's RecursionError.
\<close>

definition fn_of_tid :: "string \<Rightarrow> string" where
  "fn_of_tid tid = hd (rsplit1 (CHR '':'') tid)"

definition task_files ::
  "(taskentry \<Rightarrow> (string \<times> string) list) \<Rightarrow> string \<Rightarrow> taskdata \<Rightarrow> string list" where
  "task_files depends target s =
     concat (map (\<lambda>tid_te. map (\<lambda>_. fn_of_tid (fst tid_te))
       (filter (\<lambda>idepend_task. fst idepend_task = target) (depends (snd tid_te)))) (tk_taskentries s))"

definition remove_buildtarget_with ::
  "(string \<Rightarrow> (taskdata, unit) sx) \<Rightarrow> string \<Rightarrow> (taskdata, unit) sx" where
  "remove_buildtarget_with fail target s0 =
     (let s = s0\<lparr>tk_failed_deps := tk_failed_deps s0 @ [target]\<rparr>
      in bindX (forX fail (get_dependees target s)) (\<lambda>_.
         bindX (\<lambda>s. forX fail (task_files te_idepends target s) s) (\<lambda>_ s.
         if tk_halt s \<and> target \<in> set (tk_external_targets s) then raiseX (NoProvider target) s
         else retX () s)) s)"

definition remove_runtarget_with ::
  "(string \<Rightarrow> (taskdata, unit) sx) \<Rightarrow> string \<Rightarrow> (taskdata, unit) sx" where
  "remove_runtarget_with fail target s0 =
     (let s = s0\<lparr>tk_failed_rdeps := tk_failed_rdeps s0 @ [target]\<rparr>
      in bindX (forX fail (get_rdependees target s)) (\<lambda>_ s.
           forX fail (task_files te_irdepends target s) s) s)"

text \<open>The body of the loops over the targets.\<close>

definition drop_build_provider ::
  "(string \<Rightarrow> (taskdata, unit) sx) \<Rightarrow> string \<Rightarrow> string \<Rightarrow> (taskdata, unit) sx" where
  "drop_build_provider fail fn target s =
     (let fns = dget_default (tk_build_targets s) target []
      in if fn \<in> set fns
         then let s = s\<lparr>tk_build_targets := dset target (remove1 fn fns) (tk_build_targets s)\<rparr>
              in if remove1 fn fns = [] then remove_buildtarget_with fail target s else retX () s
         else retX () s)"

definition drop_run_provider ::
  "(string \<Rightarrow> (taskdata, unit) sx) \<Rightarrow> string \<Rightarrow> string \<Rightarrow> (taskdata, unit) sx" where
  "drop_run_provider fail fn target s =
     (let fns = dget_default (tk_run_targets s) target []
      in if fn \<in> set fns
         then let s = s\<lparr>tk_run_targets := dset target (remove1 fn fns) (tk_run_targets s)\<rparr>
              in if remove1 fn fns = [] then remove_runtarget_with fail target s else retX () s
         else retX () s)"

definition fail_fn_with :: "(string \<Rightarrow> (taskdata, unit) sx) \<Rightarrow> string \<Rightarrow> (taskdata, unit) sx" where
  "fail_fn_with fail fn s0 =
     (if fn \<in> set (tk_failed_fns s0) then retX () s0
      else let s = s0\<lparr>tk_failed_fns := tk_failed_fns s0 @ [fn]\<rparr>
           in bindX (forX (drop_build_provider fail fn) (dkeys (tk_build_targets s))) (\<lambda>_ s.
                forX (drop_run_provider fail fn) (dkeys (tk_run_targets s)) s) s)"

primrec fail_fn :: "nat \<Rightarrow> string \<Rightarrow> (taskdata, unit) sx" where
  "fail_fn 0 = (\<lambda>fn. raiseX RecursionError)"
| "fail_fn (Suc depth) = fail_fn_with (fail_fn depth)"

definition remove_buildtarget :: "nat \<Rightarrow> string \<Rightarrow> (taskdata, unit) sx" where
  "remove_buildtarget depth = remove_buildtarget_with (fail_fn depth)"

definition remove_runtarget :: "nat \<Rightarrow> string \<Rightarrow> (taskdata, unit) sx" where
  "remove_runtarget depth = remove_runtarget_with (fail_fn depth)"

section \<open>Adding the tasks of a file\<close>

text \<open>
  \<open>handle_deps\<close> for one kind of dependency: the words of the flag, each of the form
  \<^verbatim>\<open>name:task\<close>; \<open>seen\<close> registers a name at once, the list is only extended when
  every word is well formed.
\<close>

fun handle_words ::
  "(string \<Rightarrow> taskdata \<Rightarrow> taskdata) \<Rightarrow> string list \<Rightarrow> (string \<times> string) list \<Rightarrow> (taskdata, (string \<times> string) list) sx" where
  "handle_words seen [] ids s = (Inr ids, s)"
| "handle_words seen (dep # deps) ids s =
     (case split_on (CHR '':'') dep of
        [name, task] \<Rightarrow> handle_words seen deps (ids @ [(name, task)]) (seen name s)
      | _ \<Rightarrow> (Inl (BBFatal dep), s))"

definition handle_deps ::
  "taskdeps \<Rightarrow> string \<Rightarrow> string \<Rightarrow> (string \<Rightarrow> taskdata \<Rightarrow> taskdata) \<Rightarrow> (taskdata, (string \<times> string) list) sx" where
  "handle_deps td task flag seen =
     (case task_flag td flag task of
        None \<Rightarrow> retX []
      | Some v \<Rightarrow> handle_words seen (split_ws v) [])"

fun add_mcdepends :: "string list \<Rightarrow> (taskdata, unit) sx" where
  "add_mcdepends [] s = (Inr (), s)"
| "add_mcdepends (dep # deps) s =
     (if length (split_on (CHR '':'') dep) \<noteq> 5 then (Inl (BBFatal dep), s)
      else add_mcdepends deps (s\<lparr>tk_mcdepends := sadd dep (tk_mcdepends s)\<rparr>))"

definition change_entry :: "string \<Rightarrow> (taskentry \<Rightarrow> taskentry) \<Rightarrow> taskdata \<Rightarrow> taskdata" where
  "change_entry tid f s =
     (case dget (tk_taskentries s) tid of
        None \<Rightarrow> s
      | Some te \<Rightarrow> s\<lparr>tk_taskentries := dset tid (f te) (tk_taskentries s)\<rparr>)"

definition add_task :: "string \<Rightarrow> taskdeps \<Rightarrow> string \<Rightarrow> (taskdata, unit) sx" where
  "add_task fn td task s0 =
     (let tid = fn @ '':'' @ task;
          s = s0\<lparr>tk_taskentries :=
                dset tid \<lparr>te_tdepends = [], te_idepends = [], te_irdepends = []\<rparr> (tk_taskentries s0)\<rparr>
      in bindX (liftX (dindex (td_parents td) task)) (\<lambda>parents s.
           let parentids = map (\<lambda>dep. fn @ '':'' @ dep) (filter (\<lambda>dep. dep \<in> set (td_tasks td)) parents);
               s = change_entry tid (\<lambda>te. te\<lparr>te_tdepends := te_tdepends te @ parentids\<rparr>) s
           in bindX (handle_deps td task ''depends'' seen_build_target) (\<lambda>ids s.
              let s = change_entry tid (\<lambda>te. te\<lparr>te_idepends := te_idepends te @ ids\<rparr>) s
              in bindX (handle_deps td task ''rdepends'' seen_run_target) (\<lambda>ids s.
                 let s = change_entry tid (\<lambda>te. te\<lparr>te_irdepends := te_irdepends te @ ids\<rparr>) s
                 in case task_flag td ''mcdepends'' task of
                      None \<Rightarrow> retX () s
                    | Some v \<Rightarrow> add_mcdepends (split_ws v) s) s) s) s)"

definition add_extra_deps :: "tdenv \<Rightarrow> string \<Rightarrow> (taskdata, unit) sx" where
  "add_extra_deps e fn s =
     (let func = dget_default (dc_extradepsfunc (tk_cache s)) fn []
      in if func = [] then retX () s
         else case buildWorldTargetList None (tk_cache s) of
                Inl x \<Rightarrow> raiseX x s
              | Inr c \<Rightarrow>
                  let s = s\<lparr>tk_cache := c\<rparr>
                  in bindX (liftX (dindex (dc_pkg_fn c) fn)) (\<lambda>pn.
                     bindX (liftX (ev_exec e func (dget_default (dc_deps c) fn []) (dc_world_target c)
                                     (dc_pkg_pn c) pn)) (\<lambda>deps s.
                       retX () (s\<lparr>tk_cache := c\<lparr>dc_deps := dset fn deps (dc_deps c)\<rparr>\<rparr>))) s)"

text \<open>
  The registration of the dependencies of a file. A dependency that has failed fails the file and
  ends the method; the value says whether that happened.
\<close>

fun see_deps ::
  "(string \<Rightarrow> taskdata \<Rightarrow> taskdata) \<Rightarrow> (taskdata \<Rightarrow> string list) \<Rightarrow> nat \<Rightarrow> string \<Rightarrow> string list \<Rightarrow> (taskdata, bool) sx" where
  "see_deps seen failed depth fn [] s = (Inr False, s)"
| "see_deps seen failed depth fn (dep # deps) s0 =
     (let s = seen dep s0
      in if dep \<in> set (failed s) then bindX (fail_fn depth fn) (\<lambda>_. retX True) s
         else see_deps seen failed depth fn deps s)"

definition rdepend_list :: "cachedata \<Rightarrow> string \<Rightarrow> string list" where
  "rdepend_list c fn = concat (map snd (dget_default (dc_rundeps c) fn [])) @
     concat (map snd (dget_default (dc_runrecs c) fn []))"

definition add_dependencies :: "string \<Rightarrow> taskdata \<Rightarrow> taskdata" where
  "add_dependencies fn s0 =
     (let c = tk_cache s0;
          s = (if dhas (tk_depids s0) fn then s0
               else s0\<lparr>tk_depids := dset fn (supdate [] (dget_default (dc_deps c) fn [])) (tk_depids s0)\<rparr>)
      in if dhas (tk_rdepids s) fn then s
         else s\<lparr>tk_rdepids := dset fn (supdate [] (rdepend_list c fn)) (tk_rdepids s)\<rparr>)"

definition add_tasks :: "tdenv \<Rightarrow> string \<Rightarrow> (taskdata, unit) sx" where
  "add_tasks e fn s =
     (case dindex (dc_task_deps (tk_cache s)) fn of
        Inl x \<Rightarrow> raiseX x s
      | Inr td \<Rightarrow>
          if fn \<in> set (tk_failed_fns s) then raiseX (BBFatal fn) s
          else if fn \<in> set (tk_seenfns s) then retX () s
          else bindX (add_extra_deps e fn) (\<lambda>_.
               bindX (forX (add_task fn td) (td_tasks td)) (\<lambda>_ s.
                 let s = add_dependencies fn s
                 in bindX (see_deps seen_build_target tk_failed_deps (ev_depth e) fn
                            (dget_default (tk_depids s) fn [])) (\<lambda>stop s.
                    if stop then retX () s
                    else bindX (see_deps seen_run_target tk_failed_rdeps (ev_depth e) fn
                                 (dget_default (tk_rdepids s) fn [])) (\<lambda>_. retX ()) s) s))
               (s\<lparr>tk_seenfns := tk_seenfns s @ [fn]\<rparr>))"

section \<open>Adding providers\<close>

definition no_provider_event :: "string \<Rightarrow> bool \<Rightarrow> string list \<Rightarrow> taskdata \<Rightarrow> event" where
  "no_provider_event item runtime reasons s =
     EvNoProvider item runtime (if runtime then get_rdependees item s else get_dependees item s) reasons"

definition names_of_files :: "cachedata \<Rightarrow> string list \<Rightarrow> string list result" where
  "names_of_files c fns =
     foldE (\<lambda>fn acc. bindE (dindex (dc_pkg_fn c) fn) (\<lambda>pn. Inr (acc @ [pn]))) fns []"

text \<open>The event about several providers is fired once per item.\<close>

definition note_multiple :: "string \<Rightarrow> bool \<Rightarrow> string list \<Rightarrow> (taskdata, unit) sx" where
  "note_multiple item runtime eligible =
     bindX (\<lambda>s. if item \<in> set (tk_consider_msgs s) then retX () s
                else bindX (liftX (names_of_files (tk_cache s) eligible))
                       (\<lambda>names. fire (EvMultipleProviders item names runtime)) s)
       (\<lambda>_ s. retX () (s\<lparr>tk_consider_msgs := tk_consider_msgs s @ [item]\<rparr>))"

text \<open>The loop over the eligible files; a file may fail while an earlier one is added.\<close>

definition add_eligible ::
  "tdenv \<Rightarrow> (string \<Rightarrow> string \<Rightarrow> taskdata \<Rightarrow> taskdata) \<Rightarrow> string \<Rightarrow> string \<Rightarrow> (taskdata, unit) sx" where
  "add_eligible e add item fn s =
     (if fn \<in> set (tk_failed_fns s) then retX () s else add_tasks e fn (add fn item s))"

definition add_provider_internal :: "tdenv \<Rightarrow> string \<Rightarrow> (taskdata, unit) sx" where
  "add_provider_internal e item s =
     bindX (liftX (re_match_strings (ev_rematch e) item (dc_ignored_dependencies (tk_cache s)))) (\<lambda>ignored s.
       if ignored then retX () s
       else if \<not> dhas (dc_providers (tk_cache s)) item
       then bindX (liftX (bindE (getRuntimeProviders (ev_rematch e) (tk_cache s) item)
                            (names_of_files (tk_cache s)))) (\<lambda>_.
            bindX (fire (no_provider_event item False (get_reasons item False s) s)) (\<lambda>_.
              raiseX (NoProvider item))) s
       else if have_build_target item s then retX () s
       else let c = tk_cache s; all_p = dget_default (dc_providers c) item []
            in case filterProviders all_p item (ev_getvar e) c of
                 Inl x \<Rightarrow> raiseX x s
               | Inr ((eligible, foundUnique), c) \<Rightarrow>
                   let s = s\<lparr>tk_cache := c\<lparr>dc_providers := dset item (sort all_p) (dc_providers c)\<rparr>\<rparr>;
                       eligible = filter (\<lambda>p. p \<notin> set (tk_failed_fns s)) eligible
                   in if eligible = []
                      then bindX (fire (no_provider_event item False
                                   [''No eligible PROVIDERs exist for '' @ [CHR 39] @ item @ [CHR 39]] s)) (\<lambda>_.
                             raiseX (NoProvider item)) s
                      else bindX (if length eligible > 1 \<and> \<not> foundUnique
                                  then note_multiple item False eligible else retX ()) (\<lambda>_.
                             forX (add_eligible e add_build_target item) eligible) s) s"

definition add_provider :: "tdenv \<Rightarrow> string \<Rightarrow> (taskdata, unit) sx" where
  "add_provider e item s =
     bindX (\<lambda>s. case add_provider_internal e item s of
                  (Inl (NoProvider n), s) \<Rightarrow>
                    if tk_halt s then (Inl (NoProvider n), s) else remove_buildtarget (ev_depth e) item s
                | r \<Rightarrow> r)
       (\<lambda>_ s. retX () (mark_external_target item s)) s"

definition add_rprovider :: "tdenv \<Rightarrow> string \<Rightarrow> (taskdata, unit) sx" where
  "add_rprovider e item s =
     bindX (liftX (re_match_strings (ev_rematch e) item (dc_ignored_dependencies (tk_cache s)))) (\<lambda>ignored s.
       if ignored \<or> have_runtime_target item s then retX () s
       else bindX (liftX (getRuntimeProviders (ev_rematch e) (tk_cache s) item)) (\<lambda>all_p s.
         if all_p = []
         then bindX (fire (no_provider_event item True (get_reasons item True s) s)) (\<lambda>_.
                raiseX (NoRProvider item)) s
         else bindX (liftX (filterProvidersRunTime all_p item (ev_getvar e) (tk_cache s)))
           (\<lambda>(eligible, numberPreferred) s.
             let eligible = filter (\<lambda>p. p \<notin> set (tk_failed_fns s)) eligible
             in if eligible = []
                then bindX (fire (no_provider_event item True
                             [''No eligible RPROVIDERs exist for '' @ [CHR 39] @ item @ [CHR 39]] s)) (\<lambda>_.
                       raiseX (NoRProvider item)) s
                else bindX (if length eligible > 1 \<and> numberPreferred = 0
                            then note_multiple item True eligible else retX ()) (\<lambda>_.
                     if numberPreferred > 1
                     then bindX (note_multiple item True eligible) (\<lambda>_. raiseX (MultipleRProvider item))
                     else forX (add_eligible e add_runtime_target item) eligible) s) s) s) s"

section \<open>Resolving what is missing\<close>

text \<open>One target of a round; the value is whether it counts as added.\<close>

definition resolve_build :: "tdenv \<Rightarrow> string \<Rightarrow> (taskdata, bool) sx" where
  "resolve_build e target s =
     (case add_provider_internal e target s of
        (Inr _, s) \<Rightarrow> (Inr True, s)
      | (Inl (NoProvider n), s) \<Rightarrow>
          if tk_halt s \<and> target \<in> set (tk_external_targets s) \<and> \<not> tk_allowincomplete s
          then (Inl (NoProvider n), s)
          else if \<not> tk_allowincomplete s
          then bindX (remove_buildtarget (ev_depth e) target) (\<lambda>_. retX False) s
          else (Inr False, s)
      | (Inl x, s) \<Rightarrow> (Inl x, s))"

definition resolve_run :: "tdenv \<Rightarrow> string \<Rightarrow> (taskdata, bool) sx" where
  "resolve_run e target s =
     (case add_rprovider e target s of
        (Inr _, s) \<Rightarrow> (Inr True, s)
      | (Inl (NoRProvider n), s) \<Rightarrow> bindX (remove_runtarget (ev_depth e) target) (\<lambda>_. retX False) s
      | (Inl (MultipleRProvider n), s) \<Rightarrow> bindX (remove_runtarget (ev_depth e) target) (\<lambda>_. retX False) s
      | (Inl x, s) \<Rightarrow> (Inl x, s))"

fun count_added :: "(string \<Rightarrow> (taskdata, bool) sx) \<Rightarrow> string list \<Rightarrow> nat \<Rightarrow> (taskdata, nat) sx" where
  "count_added f [] added s = (Inr added, s)"
| "count_added f (target # targets) added s =
     bindX (f target) (\<lambda>b. count_added f targets (if b then added + 1 else added)) s"

definition resolve_round :: "tdenv \<Rightarrow> (taskdata, nat) sx" where
  "resolve_round e =
     bindX (\<lambda>s. liftX (get_unresolved_build_targets e s) s) (\<lambda>targets.
     bindX (count_added (resolve_build e) targets 0) (\<lambda>added.
     bindX (\<lambda>s. liftX (get_unresolved_run_targets e s) s) (\<lambda>targets.
       count_added (resolve_run e) targets added)))"

text \<open>The loop \<^verbatim>\<open>while True\<close>: no value means that it has not ended.\<close>

partial_function (option) add_unresolved :: "tdenv \<Rightarrow> taskdata \<Rightarrow> (unit result \<times> taskdata) option" where
  "add_unresolved e s =
     (case resolve_round e s of
        (Inl x, s) \<Rightarrow> Some (Inl x, s)
      | (Inr added, s) \<Rightarrow> if added = 0 then Some (Inr (), s) else add_unresolved e s)"

definition get_providermap :: "string \<Rightarrow> taskdata \<Rightarrow> (string, string) odict" where
  "get_providermap pfx s =
     fold (\<lambda>name provmap.
        if pfx \<noteq> [] \<and> \<not> startswith name pfx then provmap
        else case dget_default (tk_build_targets s) name [] of
               [] \<Rightarrow> provmap
             | provider # _ \<Rightarrow> dset name provider provmap)
       (dkeys (tk_build_targets s)) []"

end
