(* ===== verification/TaskFailure.thy ===== *)
theory TaskFailure
  imports TaskData
begin

text \<open>
  What \<^verbatim>\<open>fail_fn\<close> and the removal of targets of \<^verbatim>\<open>bb/taskdata.py\<close> do: a failure that
  ends normally is complete (\<open>completes\<close>), the mutual recursion is bounded by the number of
  files that depend on something, and without \<^verbatim>\<open>halt\<close> nothing is raised.
\<close>

section \<open>What a failure leaves\<close>

definition bt :: "taskdata \<Rightarrow> string \<Rightarrow> string list" where
  "bt s x = dget_default (tk_build_targets s) x []"

definition rt :: "taskdata \<Rightarrow> string \<Rightarrow> string list" where
  "rt s x = dget_default (tk_run_targets s) x []"

text \<open>The fields a failure changes; providers are only removed and failures only added.\<close>

definition rest where
  "rest s = (tk_external_targets s, tk_seenfns s, tk_taskentries s, tk_depids s, tk_rdepids s,
     tk_consider_msgs s, tk_halt s, tk_allowincomplete s, tk_skiplist s, tk_mcdepends s,
     tk_cache s, tk_events s)"

definition shrinks :: "taskdata \<Rightarrow> taskdata \<Rightarrow> bool" where
  "shrinks s t \<longleftrightarrow> rest t = rest s \<and>
     dkeys (tk_build_targets t) = dkeys (tk_build_targets s) \<and> dkeys (tk_run_targets t) = dkeys (tk_run_targets s) \<and>
     set (tk_failed_fns s) \<subseteq> set (tk_failed_fns t) \<and> set (tk_failed_deps s) \<subseteq> set (tk_failed_deps t) \<and>
     set (tk_failed_rdeps s) \<subseteq> set (tk_failed_rdeps t) \<and>
     (\<forall>x. subseq (bt t x) (bt s x)) \<and> (\<forall>x. subseq (rt t x) (rt s x))"

lemma rest_fields:
  assumes "rest t = rest s"
  shows "tk_depids t = tk_depids s" "tk_rdepids t = tk_rdepids s" "tk_taskentries t = tk_taskentries s"
    "tk_external_targets t = tk_external_targets s" "tk_halt t = tk_halt s" "tk_seenfns t = tk_seenfns s"
    "tk_cache t = tk_cache s" "tk_allowincomplete t = tk_allowincomplete s" "tk_events t = tk_events s"
  using assms by (simp_all add: rest_def)

lemma subseq_set: "subseq xs ys \<Longrightarrow> set xs \<subseteq> set ys"
  by (auto dest: list_emb_set)

lemma subseq_distinct: "subseq xs ys \<Longrightarrow> distinct ys \<Longrightarrow> distinct xs"
  by (auto simp: subseq_conv_nths)

lemma subseq_remove1: "subseq (remove1 x xs) xs"
  by (induction xs) auto

lemma shrinks_lists:
  assumes "shrinks s t"
  shows "subseq (bt t x) (bt s x)" "subseq (rt t x) (rt s x)"
  using assms by (simp_all add: shrinks_def)

lemma shrinks_refl [simp]: "shrinks s s"
  by (simp add: shrinks_def)

lemma shrinks_trans:
  assumes "shrinks s t" and "shrinks t u"
  shows "shrinks s u"
proof -
  have "subseq (bt u x) (bt s x)" "subseq (rt u x) (rt s x)" for x
    using assms subseq_order.trans unfolding shrinks_def by blast+
  moreover have "set (tk_failed_fns s) \<subseteq> set (tk_failed_fns u)"
    "set (tk_failed_deps s) \<subseteq> set (tk_failed_deps u)" "set (tk_failed_rdeps s) \<subseteq> set (tk_failed_rdeps u)"
    using assms unfolding shrinks_def by blast+
  ultimately show ?thesis using assms unfolding shrinks_def by simp
qed

text \<open>Files that depend on a target, at build time and at run time.\<close>

definition needers :: "string \<Rightarrow> taskdata \<Rightarrow> string set" where
  "needers x s = set (get_dependees x s) \<union> set (task_files te_idepends x s)"

definition rneeders :: "string \<Rightarrow> taskdata \<Rightarrow> string set" where
  "rneeders x s = set (get_rdependees x s) \<union> set (task_files te_irdepends x s)"

lemma needers_rest:
  assumes "rest t = rest s"
  shows "needers x t = needers x s \<and> rneeders x t = rneeders x s"
  unfolding needers_def rneeders_def get_dependees_def get_rdependees_def task_files_def
    rest_fields(1,2,3) [OF assms]
  by (intro conjI refl)

text \<open>
  A complete failure: the files that failed in it are nobody's provider any more, the files that
  depend on a target that failed in it failed, and a target that lost its last provider failed.
\<close>

definition completes :: "taskdata \<Rightarrow> taskdata \<Rightarrow> bool" where
  "completes s t \<longleftrightarrow> shrinks s t \<and>
     (\<forall>f \<in> set (tk_failed_fns t) - set (tk_failed_fns s). \<forall>x. f \<notin> set (bt t x) \<and> f \<notin> set (rt t x)) \<and>
     (\<forall>x \<in> set (tk_failed_deps t) - set (tk_failed_deps s). needers x t \<subseteq> set (tk_failed_fns t)) \<and>
     (\<forall>x \<in> set (tk_failed_rdeps t) - set (tk_failed_rdeps s). rneeders x t \<subseteq> set (tk_failed_fns t)) \<and>
     (\<forall>x. bt s x \<noteq> [] \<and> bt t x = [] \<longrightarrow> x \<in> set (tk_failed_deps t)) \<and>
     (\<forall>x. rt s x \<noteq> [] \<and> rt t x = [] \<longrightarrow> x \<in> set (tk_failed_rdeps t))"

lemma completes_refl [simp]: "completes s s"
  by (simp add: completes_def)

lemma completes_shrinks: "completes s t \<Longrightarrow> shrinks s t"
  by (simp add: completes_def)

lemma completes_trans:
  assumes "completes s t" and "completes t u"
  shows "completes s u"
proof -
  have sh: "shrinks s t" "shrinks t u" "shrinks s u"
    using assms shrinks_trans by (auto simp: completes_def)
  have "rest u = rest t" using sh(2) by (simp add: shrinks_def)
  then have n: "needers x u = needers x t" "rneeders x u = rneeders x t" for x
    using needers_rest by blast+
  have sub: "set (tk_failed_fns t) \<subseteq> set (tk_failed_fns u)" "set (tk_failed_deps t) \<subseteq> set (tk_failed_deps u)"
    "set (tk_failed_rdeps t) \<subseteq> set (tk_failed_rdeps u)" "\<And>x. set (bt u x) \<subseteq> set (bt t x)"
    "\<And>x. set (rt u x) \<subseteq> set (rt t x)"
    using sh(2) unfolding shrinks_def by (simp_all add: subseq_set)
  have "f \<notin> set (bt u x) \<and> f \<notin> set (rt u x)"
    if "f \<in> set (tk_failed_fns u)" "f \<notin> set (tk_failed_fns s)" for f x
  proof (cases "f \<in> set (tk_failed_fns t)")
    case True
    with assms(1) that(2) have "f \<notin> set (bt t x) \<and> f \<notin> set (rt t x)" by (simp add: completes_def)
    with sub(4,5) show ?thesis by blast
  next
    case False
    with assms(2) that(1) show ?thesis by (simp add: completes_def)
  qed
  moreover have "needers x u \<subseteq> set (tk_failed_fns u)"
    if "x \<in> set (tk_failed_deps u)" "x \<notin> set (tk_failed_deps s)" for x
  proof (cases "x \<in> set (tk_failed_deps t)")
    case True
    with assms(1) that(2) have "needers x t \<subseteq> set (tk_failed_fns t)" by (simp add: completes_def)
    with sub(1) n show ?thesis by blast
  next
    case False
    with assms(2) that(1) show ?thesis by (simp add: completes_def)
  qed
  moreover have "rneeders x u \<subseteq> set (tk_failed_fns u)"
    if "x \<in> set (tk_failed_rdeps u)" "x \<notin> set (tk_failed_rdeps s)" for x
  proof (cases "x \<in> set (tk_failed_rdeps t)")
    case True
    with assms(1) that(2) have "rneeders x t \<subseteq> set (tk_failed_fns t)" by (simp add: completes_def)
    with sub(1) n show ?thesis by blast
  next
    case False
    with assms(2) that(1) show ?thesis by (simp add: completes_def)
  qed
  moreover have "x \<in> set (tk_failed_deps u)" if "bt s x \<noteq> []" "bt u x = []" for x
    using assms that sub(2) by (cases "bt t x = []") (auto simp: completes_def)
  moreover have "x \<in> set (tk_failed_rdeps u)" if "rt s x \<noteq> []" "rt u x = []" for x
    using assms that sub(3) by (cases "rt t x = []") (auto simp: completes_def)
  ultimately show ?thesis using sh(3) by (simp add: completes_def)
qed

subsection \<open>Every failure is complete\<close>

lemma bt_update [simp]:
  "bt (s\<lparr>tk_build_targets := dset x v (tk_build_targets s)\<rparr>) y = (if y = x then v else bt s y)"
  "rt (s\<lparr>tk_run_targets := dset x v (tk_run_targets s)\<rparr>) y = (if y = x then v else rt s y)"
  by (simp_all add: bt_def rt_def dict_simps)

lemma bt_other [simp]:
  "rt (s\<lparr>tk_build_targets := d\<rparr>) x = rt s x" "bt (s\<lparr>tk_run_targets := d\<rparr>) x = bt s x"
  "bt (s\<lparr>tk_failed_deps := l\<rparr>) x = bt s x" "rt (s\<lparr>tk_failed_deps := l\<rparr>) x = rt s x"
  "bt (s\<lparr>tk_failed_rdeps := l\<rparr>) x = bt s x" "rt (s\<lparr>tk_failed_rdeps := l\<rparr>) x = rt s x"
  "bt (s\<lparr>tk_failed_fns := l\<rparr>) x = bt s x" "rt (s\<lparr>tk_failed_fns := l\<rparr>) x = rt s x"
  by (simp_all add: bt_def rt_def)

lemma rest_update [simp]:
  "rest (s\<lparr>tk_build_targets := d\<rparr>) = rest s" "rest (s\<lparr>tk_run_targets := d\<rparr>) = rest s"
  "rest (s\<lparr>tk_failed_deps := l\<rparr>) = rest s" "rest (s\<lparr>tk_failed_rdeps := l\<rparr>) = rest s"
  "rest (s\<lparr>tk_failed_fns := l\<rparr>) = rest s"
  by (simp_all add: rest_def)

lemma bt_mem_key: "f \<in> set (bt s x) \<Longrightarrow> x \<in> set (dkeys (tk_build_targets s))"
  by (cases "dget (tk_build_targets s) x") (force simp: bt_def dest: map_of_SomeD)+

lemma rt_mem_key: "f \<in> set (rt s x) \<Longrightarrow> x \<in> set (dkeys (tk_run_targets s))"
  by (cases "dget (tk_run_targets s) x") (force simp: rt_def dest: map_of_SomeD)+

text \<open>What is assumed of the method one level deeper, and shown of every level.\<close>

definition fail_ok :: "(string \<Rightarrow> (taskdata, unit) sx) \<Rightarrow> bool" where
  "fail_ok fail \<longleftrightarrow> (\<forall>f s r t. fail f s = (r, t) \<longrightarrow> shrinks s t \<and>
     ((\<forall>x. distinct (bt s x) \<and> distinct (rt s x)) \<longrightarrow> r = Inr () \<longrightarrow>
        completes s t \<and> f \<in> set (tk_failed_fns t)))"

lemma fail_ok_shrinks: "fail_ok fail \<Longrightarrow> fail f s = (r, t) \<Longrightarrow> shrinks s t"
  by (simp add: fail_ok_def)

definition distinct_lists :: "taskdata \<Rightarrow> bool" where
  "distinct_lists s \<longleftrightarrow> (\<forall>x. distinct (bt s x) \<and> distinct (rt s x))"

lemma fail_ok_completes:
  "fail_ok fail \<Longrightarrow> fail f s = (Inr (), t) \<Longrightarrow> distinct_lists s \<Longrightarrow>
   completes s t \<and> f \<in> set (tk_failed_fns t)"
  by (simp add: fail_ok_def distinct_lists_def)

lemma shrinks_distinct: "shrinks s t \<Longrightarrow> distinct_lists s \<Longrightarrow> distinct_lists t"
  unfolding shrinks_def distinct_lists_def using subseq_distinct by blast

lemma forX_shrinks:
  assumes "forX f xs s = (r, t)" and "\<And>x s r t. x \<in> set xs \<Longrightarrow> f x s = (r, t) \<Longrightarrow> shrinks s t"
  shows "shrinks s t"
  using assms(1) by (rule forX_trans [where R = shrinks]) (auto intro: shrinks_trans assms(2))

text \<open>A loop of complete failures is one, and each of its steps is visible at the end.\<close>

lemma forX_completes:
  assumes "forX f xs s = (Inr (), t)" and "distinct_lists s"
    and "\<And>x s t. x \<in> set xs \<Longrightarrow> f x s = (Inr (), t) \<Longrightarrow> distinct_lists s \<Longrightarrow> completes s t \<and> Q x t"
    and "\<And>x s t. completes s t \<Longrightarrow> Q x s \<Longrightarrow> Q x t"
  shows "completes s t \<and> (\<forall>x \<in> set xs. Q x t)"
  using assms(1,2,3)
proof (induction xs arbitrary: s)
  case (Cons x xs)
  from Cons.prems(1) obtain u where u: "f x s = (Inr (), u)" "forX f xs u = (Inr (), t)"
    by (auto simp: bindX_Inr)
  have c: "completes s u" "Q x u" using Cons.prems(3) [OF _ u(1)] Cons.prems(2) by auto
  then have "distinct_lists u" using Cons.prems(2) completes_shrinks shrinks_distinct by blast
  then have IH: "completes u t \<and> (\<forall>x \<in> set xs. Q x t)"
    by (rule Cons.IH [OF u(2)]) (rule Cons.prems(3), simp_all)
  then show ?case using c completes_trans assms(4) by auto
qed simp

lemma completes_failed: "completes s t \<Longrightarrow> set (tk_failed_fns s) \<subseteq> set (tk_failed_fns t)"
  by (simp add: completes_def shrinks_def)

lemma forX_fail:
  assumes "fail_ok fail" and "forX fail fs s = (Inr (), t)" and "distinct_lists s"
  shows "completes s t \<and> set fs \<subseteq> set (tk_failed_fns t)"
proof -
  have "completes s t \<and> (\<forall>f \<in> set fs. f \<in> set (tk_failed_fns t))"
    by (rule forX_completes [OF assms(2,3)])
      (auto dest: fail_ok_completes [OF assms(1)] completes_failed)
  then show ?thesis by blast
qed

lemma remove_buildtarget_ok:
  assumes ok: "fail_ok fail" and run: "remove_buildtarget_with fail target s = (r, t)"
  shows "shrinks s t"
    and "distinct_lists s \<Longrightarrow> r = Inr () \<Longrightarrow> completes s t"
proof -
  let ?s = "s\<lparr>tk_failed_deps := tk_failed_deps s @ [target]\<rparr>"
  have s0: "shrinks s ?s" by (auto simp: shrinks_def)
  have step: "fail f u = (q, v) \<Longrightarrow> shrinks u v" for f u q v using fail_ok_shrinks [OF ok] .
  obtain q u where u: "forX fail (get_dependees target ?s) ?s = (q, u)"
    by (cases "forX fail (get_dependees target ?s) ?s")
  have su: "shrinks ?s u" by (rule forX_shrinks [OF u step])
  obtain q' v where v: "forX fail (task_files te_idepends target u) u = (q', v)"
    by (cases "forX fail (task_files te_idepends target u) u")
  have sv: "shrinks u v" by (rule forX_shrinks [OF v step])
  have "t = u \<or> t = v"
    using run u v by (auto simp: remove_buildtarget_with_def bindX_def split: sum.splits if_splits)
  then show "shrinks s t" using s0 su sv shrinks_trans by blast
  assume d: "distinct_lists s" and "r = Inr ()"
  then have ends: "q = Inr ()" "q' = Inr ()" "t = v"
    using run u v by (auto simp: remove_buildtarget_with_def bindX_def split: sum.splits if_splits)
  have ds: "distinct_lists ?s" using d by (simp add: distinct_lists_def)
  have cu: "completes ?s u \<and> set (get_dependees target ?s) \<subseteq> set (tk_failed_fns u)"
    by (rule forX_fail [OF ok u [unfolded ends] ds])
  have "distinct_lists u" using su ds shrinks_distinct by blast
  then have cv: "completes u v \<and> set (task_files te_idepends target u) \<subseteq> set (tk_failed_fns v)"
    by (rule forX_fail [OF ok v [unfolded ends]])
  have c: "completes ?s v" using cu cv completes_trans by blast
  have "rest u = rest ?s" "rest v = rest ?s" using su sv by (auto simp: shrinks_def)
  then have "needers target v = set (get_dependees target ?s) \<union> set (task_files te_idepends target u)"
    unfolding needers_def get_dependees_def task_files_def
    by (simp only: rest_fields(1,3) [of u ?s] rest_fields(1,3) [of v ?s])
  then have "needers target v \<subseteq> set (tk_failed_fns v)"
    using cu cv completes_failed by blast
  then show "completes s t"
    using c s0 shrinks_trans [OF s0 completes_shrinks [OF c]] ends by (auto simp: completes_def)
qed

lemma remove_runtarget_ok:
  assumes ok: "fail_ok fail" and run: "remove_runtarget_with fail target s = (r, t)"
  shows "shrinks s t"
    and "distinct_lists s \<Longrightarrow> r = Inr () \<Longrightarrow> completes s t"
proof -
  let ?s = "s\<lparr>tk_failed_rdeps := tk_failed_rdeps s @ [target]\<rparr>"
  have s0: "shrinks s ?s" by (auto simp: shrinks_def)
  have step: "fail f u = (q, v) \<Longrightarrow> shrinks u v" for f u q v using fail_ok_shrinks [OF ok] .
  obtain q u where u: "forX fail (get_rdependees target ?s) ?s = (q, u)"
    by (cases "forX fail (get_rdependees target ?s) ?s")
  have su: "shrinks ?s u" by (rule forX_shrinks [OF u step])
  obtain q' v where v: "forX fail (task_files te_irdepends target u) u = (q', v)"
    by (cases "forX fail (task_files te_irdepends target u) u")
  have sv: "shrinks u v" by (rule forX_shrinks [OF v step])
  have "t = u \<or> t = v"
    using run u v by (auto simp: remove_runtarget_with_def bindX_def split: sum.splits if_splits)
  then show "shrinks s t" using s0 su sv shrinks_trans by blast
  assume d: "distinct_lists s" and "r = Inr ()"
  then have ends: "q = Inr ()" "q' = Inr ()" "t = v"
    using run u v by (auto simp: remove_runtarget_with_def bindX_def split: sum.splits if_splits)
  have ds: "distinct_lists ?s" using d by (simp add: distinct_lists_def)
  have cu: "completes ?s u \<and> set (get_rdependees target ?s) \<subseteq> set (tk_failed_fns u)"
    by (rule forX_fail [OF ok u [unfolded ends] ds])
  have "distinct_lists u" using su ds shrinks_distinct by blast
  then have cv: "completes u v \<and> set (task_files te_irdepends target u) \<subseteq> set (tk_failed_fns v)"
    by (rule forX_fail [OF ok v [unfolded ends]])
  have c: "completes ?s v" using cu cv completes_trans by blast
  have "rest u = rest ?s" "rest v = rest ?s" using su sv by (auto simp: shrinks_def)
  then have "rneeders target v = set (get_rdependees target ?s) \<union> set (task_files te_irdepends target u)"
    unfolding rneeders_def get_rdependees_def task_files_def
    by (simp only: rest_fields(2,3) [of u ?s] rest_fields(2,3) [of v ?s])
  then have "rneeders target v \<subseteq> set (tk_failed_fns v)"
    using cu cv completes_failed by blast
  then show "completes s t"
    using c s0 shrinks_trans [OF s0 completes_shrinks [OF c]] ends by (auto simp: completes_def)
qed

lemma remove_buildtarget_marks:
  assumes "fail_ok fail" and "remove_buildtarget_with fail target s = (r, t)"
  shows "target \<in> set (tk_failed_deps t)"
proof -
  let ?s = "s\<lparr>tk_failed_deps := tk_failed_deps s @ [target]\<rparr>"
  have step: "fail f u = (q, v) \<Longrightarrow> shrinks u v" for f u q v using fail_ok_shrinks [OF assms(1)] .
  obtain q u where u: "forX fail (get_dependees target ?s) ?s = (q, u)"
    by (cases "forX fail (get_dependees target ?s) ?s")
  obtain q' v where v: "forX fail (task_files te_idepends target u) u = (q', v)"
    by (cases "forX fail (task_files te_idepends target u) u")
  have "shrinks ?s u" by (rule forX_shrinks [OF u step])
  moreover have "shrinks u v" by (rule forX_shrinks [OF v step])
  ultimately have "target \<in> set (tk_failed_deps u)" "target \<in> set (tk_failed_deps v)"
    by (auto simp: shrinks_def)
  moreover have "t = u \<or> t = v"
    using assms(2) u v by (auto simp: remove_buildtarget_with_def bindX_def split: sum.splits if_splits)
  ultimately show ?thesis by blast
qed

lemma remove_runtarget_marks:
  assumes "fail_ok fail" and "remove_runtarget_with fail target s = (r, t)"
  shows "target \<in> set (tk_failed_rdeps t)"
proof -
  let ?s = "s\<lparr>tk_failed_rdeps := tk_failed_rdeps s @ [target]\<rparr>"
  have step: "fail f u = (q, v) \<Longrightarrow> shrinks u v" for f u q v using fail_ok_shrinks [OF assms(1)] .
  obtain q u where u: "forX fail (get_rdependees target ?s) ?s = (q, u)"
    by (cases "forX fail (get_rdependees target ?s) ?s")
  obtain q' v where v: "forX fail (task_files te_irdepends target u) u = (q', v)"
    by (cases "forX fail (task_files te_irdepends target u) u")
  have "shrinks ?s u" by (rule forX_shrinks [OF u step])
  moreover have "shrinks u v" by (rule forX_shrinks [OF v step])
  ultimately have "target \<in> set (tk_failed_rdeps u)" "target \<in> set (tk_failed_rdeps v)"
    by (auto simp: shrinks_def)
  moreover have "t = u \<or> t = v"
    using assms(2) u v by (auto simp: remove_runtarget_with_def bindX_def split: sum.splits if_splits)
  ultimately show ?thesis by blast
qed

lemma drop_build_provider_ok:
  assumes ok: "fail_ok fail" and run: "drop_build_provider fail fn target s = (r, t)"
  shows "shrinks s t"
    and "distinct_lists s \<Longrightarrow> r = Inr () \<Longrightarrow> completes s t \<and> fn \<notin> set (bt t target)"
proof -
  let ?s = "s\<lparr>tk_build_targets := dset target (remove1 fn (bt s target)) (tk_build_targets s)\<rparr>"
  have s0: "shrinks s ?s" if "fn \<in> set (bt s target)"
    using dkeys_dset_present [OF bt_mem_key [OF that]] by (auto simp: shrinks_def subseq_remove1)
  show "shrinks s t"
    using run s0 remove_buildtarget_ok(1) [OF ok, of target ?s r t] shrinks_trans
    by (auto simp: drop_build_provider_def Let_def bt_def [symmetric] split: if_splits)
  assume d: "distinct_lists s" and r: "r = Inr ()"
  show "completes s t \<and> fn \<notin> set (bt t target)"
  proof (cases "fn \<in> set (bt s target)")
    case False
    then show ?thesis using run by (simp add: drop_build_provider_def Let_def bt_def [symmetric])
  next
    case mem: True
    have ds: "distinct_lists ?s" using shrinks_distinct [OF s0 [OF mem] d] .
    show ?thesis
    proof (cases "remove1 fn (bt s target) = []")
      case True
      then have rm: "remove_buildtarget_with fail target ?s = (Inr (), t)"
        using run mem r by (simp add: drop_build_provider_def Let_def bt_def [symmetric])
      have c: "completes ?s t" using remove_buildtarget_ok(2) [OF ok rm ds] by simp
      have "shrinks ?s t" using c by (simp add: completes_def)
      then have "subseq (bt t target) (bt ?s target)" by (rule shrinks_lists(1))
      then have e: "bt t target = []" using True by simp
      have "target \<in> set (tk_failed_deps t)"
        using remove_buildtarget_marks [OF ok rm] .
      then have "x \<in> set (tk_failed_deps t)" if "bt s x \<noteq> []" "bt t x = []" for x
        using c that by (cases "x = target") (simp_all add: completes_def)
      moreover have "shrinks s t" using s0 [OF mem] completes_shrinks [OF c] by (rule shrinks_trans)
      ultimately show ?thesis using c e by (simp add: completes_def)
    next
      case False
      then have "t = ?s" using run mem r by (simp add: drop_build_provider_def Let_def bt_def [symmetric])
      with False show ?thesis
        using s0 [OF mem] d by (auto simp: completes_def distinct_lists_def)
    qed
  qed
qed

lemma drop_run_provider_ok:
  assumes ok: "fail_ok fail" and run: "drop_run_provider fail fn target s = (r, t)"
  shows "shrinks s t"
    and "distinct_lists s \<Longrightarrow> r = Inr () \<Longrightarrow> completes s t \<and> fn \<notin> set (rt t target)"
proof -
  let ?s = "s\<lparr>tk_run_targets := dset target (remove1 fn (rt s target)) (tk_run_targets s)\<rparr>"
  have s0: "shrinks s ?s" if "fn \<in> set (rt s target)"
    using dkeys_dset_present [OF rt_mem_key [OF that]] by (auto simp: shrinks_def subseq_remove1)
  show "shrinks s t"
    using run s0 remove_runtarget_ok(1) [OF ok, of target ?s r t] shrinks_trans
    by (auto simp: drop_run_provider_def Let_def rt_def [symmetric] split: if_splits)
  assume d: "distinct_lists s" and r: "r = Inr ()"
  show "completes s t \<and> fn \<notin> set (rt t target)"
  proof (cases "fn \<in> set (rt s target)")
    case False
    then show ?thesis using run by (simp add: drop_run_provider_def Let_def rt_def [symmetric])
  next
    case mem: True
    have ds: "distinct_lists ?s" using shrinks_distinct [OF s0 [OF mem] d] .
    show ?thesis
    proof (cases "remove1 fn (rt s target) = []")
      case True
      then have rm: "remove_runtarget_with fail target ?s = (Inr (), t)"
        using run mem r by (simp add: drop_run_provider_def Let_def rt_def [symmetric])
      have c: "completes ?s t" using remove_runtarget_ok(2) [OF ok rm ds] by simp
      have "shrinks ?s t" using c by (simp add: completes_def)
      then have "subseq (rt t target) (rt ?s target)" by (rule shrinks_lists(2))
      then have e: "rt t target = []" using True by simp
      have "target \<in> set (tk_failed_rdeps t)"
        using remove_runtarget_marks [OF ok rm] .
      then have "x \<in> set (tk_failed_rdeps t)" if "rt s x \<noteq> []" "rt t x = []" for x
        using c that by (cases "x = target") (simp_all add: completes_def)
      moreover have "shrinks s t" using s0 [OF mem] completes_shrinks [OF c] by (rule shrinks_trans)
      ultimately show ?thesis using c e by (simp add: completes_def)
    next
      case False
      then have "t = ?s" using run mem r by (simp add: drop_run_provider_def Let_def rt_def [symmetric])
      with False show ?thesis
        using s0 [OF mem] d by (auto simp: completes_def distinct_lists_def)
    qed
  qed
qed

lemma loop_drop_build:
  assumes ok: "fail_ok fail" and run: "forX (drop_build_provider fail fn) xs s = (Inr (), t)"
    and "distinct_lists s"
  shows "completes s t \<and> (\<forall>x \<in> set xs. fn \<notin> set (bt t x))"
proof (rule forX_completes [OF run assms(3)])
  show "completes u v \<Longrightarrow> fn \<notin> set (bt u x) \<Longrightarrow> fn \<notin> set (bt v x)" for x u v
    using shrinks_lists(1) [OF completes_shrinks] subseq_set by blast
qed (simp add: drop_build_provider_ok [OF ok])

lemma loop_drop_run:
  assumes ok: "fail_ok fail" and run: "forX (drop_run_provider fail fn) xs s = (Inr (), t)"
    and "distinct_lists s"
  shows "completes s t \<and> (\<forall>x \<in> set xs. fn \<notin> set (rt t x))"
proof (rule forX_completes [OF run assms(3)])
  show "completes u v \<Longrightarrow> fn \<notin> set (rt u x) \<Longrightarrow> fn \<notin> set (rt v x)" for x u v
    using shrinks_lists(2) [OF completes_shrinks] subseq_set by blast
qed (simp add: drop_run_provider_ok [OF ok])

lemma fail_fn_with_ok:
  assumes ok: "fail_ok fail"
  shows "fail_ok (fail_fn_with fail)"
  unfolding fail_ok_def
proof (intro allI impI conjI)
  fix fn s r t
  assume run: "fail_fn_with fail fn s = (r, t)"
  let ?s = "s\<lparr>tk_failed_fns := tk_failed_fns s @ [fn]\<rparr>"
  have s0: "shrinks s ?s" by (auto simp: shrinks_def)
  obtain q u where u: "forX (drop_build_provider fail fn) (dkeys (tk_build_targets ?s)) ?s = (q, u)"
    by (cases "forX (drop_build_provider fail fn) (dkeys (tk_build_targets ?s)) ?s")
  obtain q' v where v: "forX (drop_run_provider fail fn) (dkeys (tk_run_targets u)) u = (q', v)"
    by (cases "forX (drop_run_provider fail fn) (dkeys (tk_run_targets u)) u")
  have su: "shrinks ?s u" by (rule forX_shrinks [OF u]) (rule drop_build_provider_ok(1) [OF ok])
  have sv: "shrinks u v" by (rule forX_shrinks [OF v]) (rule drop_run_provider_ok(1) [OF ok])
  have t: "t = s \<or> t = u \<or> t = v"
    using run u v by (auto simp: fail_fn_with_def bindX_def split: sum.splits if_splits)
  then show "shrinks s t" using s0 su sv shrinks_trans shrinks_refl by blast
  assume d: "\<forall>x. distinct (bt s x) \<and> distinct (rt s x)" and r: "r = Inr ()"
  show "completes s t" and "fn \<in> set (tk_failed_fns t)"
  proof -
    have "completes s t \<and> fn \<in> set (tk_failed_fns t)"
    proof (cases "fn \<in> set (tk_failed_fns s)")
      case True
      then show ?thesis using run by (simp add: fail_fn_with_def)
    next
      case False
      then have ends: "q = Inr ()" "q' = Inr ()" "t = v"
        using run u v r by (auto simp: fail_fn_with_def bindX_def split: sum.splits)
      have ds: "distinct_lists ?s" using d by (simp add: distinct_lists_def)
      have cu: "completes ?s u \<and> (\<forall>x \<in> set (dkeys (tk_build_targets ?s)). fn \<notin> set (bt u x))"
        by (rule loop_drop_build [OF ok u [unfolded ends] ds])
      have "distinct_lists u" using shrinks_distinct su ds by blast
      then have cv: "completes u v \<and> (\<forall>x \<in> set (dkeys (tk_run_targets u)). fn \<notin> set (rt v x))"
        by (rule loop_drop_run [OF ok v [unfolded ends]])
      have c: "completes ?s v" using cu cv completes_trans by blast
      have keys: "dkeys (tk_build_targets ?s) = dkeys (tk_build_targets v)"
        "dkeys (tk_run_targets u) = dkeys (tk_run_targets v)"
        using su sv by (simp_all add: shrinks_def)
      have "fn \<notin> set (bt v x)" for x
      proof
        assume m: "fn \<in> set (bt v x)"
        then have "x \<in> set (dkeys (tk_build_targets ?s))" unfolding keys(1) by (rule bt_mem_key)
        with cu have "fn \<notin> set (bt u x)" by blast
        with m show False using subseq_set [OF shrinks_lists(1) [OF sv]] by blast
      qed
      moreover have "fn \<notin> set (rt v x)" for x
      proof
        assume m: "fn \<in> set (rt v x)"
        then have "x \<in> set (dkeys (tk_run_targets u))" unfolding keys(2) by (rule rt_mem_key)
        with cv m show False by blast
      qed
      moreover have "fn \<in> set (tk_failed_fns v)"
        using completes_failed [OF c] by simp
      ultimately show ?thesis
        using c shrinks_trans [OF s0 completes_shrinks [OF c]] ends unfolding completes_def by auto
    qed
    then show "completes s t" and "fn \<in> set (tk_failed_fns t)" by blast+
  qed
qed

lemma fail_fn_ok: "fail_ok (fail_fn depth)"
proof (induction depth)
  case 0
  then show ?case by (simp add: fail_ok_def)
qed (simp add: fail_fn_with_ok)

text \<open>
  The recursion is never deeper than the number of files that depend on something: a call one level
  deeper is for another such file, and the file of the current level has failed already.
\<close>

definition dependent_files :: "taskdata \<Rightarrow> string set" where
  "dependent_files s = set (dkeys (tk_depids s)) \<union> set (dkeys (tk_rdepids s)) \<union>
     fn_of_tid ` set (dkeys (tk_taskentries s))"

definition pending_files :: "taskdata \<Rightarrow> nat" where
  "pending_files s = card (dependent_files s - set (tk_failed_fns s))"

lemma dependent_files_rest:
  assumes "rest t = rest s" shows "dependent_files t = dependent_files s"
  unfolding dependent_files_def rest_fields(1,2,3) [OF assms] by (rule refl)

lemma dependent_files_mem:
  "f \<in> set (get_dependees x s) \<or> f \<in> set (get_rdependees x s) \<Longrightarrow> f \<in> dependent_files s"
  "f \<in> set (task_files d x s) \<Longrightarrow> f \<in> dependent_files s"
  by (auto simp: get_dependees_def get_rdependees_def task_files_def dependent_files_def
      intro: rev_image_eqI)

lemma pending_files_shrinks:
  assumes "shrinks s t" shows "pending_files t \<le> pending_files s"
proof -
  have "dependent_files t = dependent_files s"
    using assms dependent_files_rest [of t s] by (simp add: shrinks_def)
  moreover have "finite (dependent_files s)" by (simp add: dependent_files_def)
  ultimately show ?thesis
    using assms unfolding pending_files_def shrinks_def by (auto intro: card_mono)
qed

definition deep_enough :: "nat \<Rightarrow> (string \<Rightarrow> (taskdata, unit) sx) \<Rightarrow> bool" where
  "deep_enough n fail \<longleftrightarrow> (\<forall>f s. f \<in> dependent_files s \<longrightarrow> pending_files s < n \<longrightarrow>
     fst (fail f s) \<noteq> Inl RecursionError)"

lemma forX_no_recursion:
  assumes "deep_enough n fail" and "fail_ok fail" and "set fs \<subseteq> dependent_files s"
    and "pending_files s < n"
  shows "fst (forX fail fs s) \<noteq> Inl RecursionError"
proof
  assume "fst (forX fail fs s) = Inl RecursionError"
  then obtain t where t: "forX fail fs s = (Inl RecursionError, t)" by (cases "forX fail fs s") simp
  have "\<exists>f \<in> set fs. \<exists>u. shrinks s u \<and> fail f u = (Inl RecursionError, t)"
    by (rule forX_Inl [OF t]) (auto intro: shrinks_trans fail_ok_shrinks [OF assms(2)])
  then obtain f u where u: "f \<in> set fs" "shrinks s u" "fail f u = (Inl RecursionError, t)" by blast
  have "f \<in> dependent_files u"
    using u(1,2) assms(3) dependent_files_rest [of u s] by (auto simp: shrinks_def)
  moreover have "pending_files u < n" using pending_files_shrinks [OF u(2)] assms(4) by simp
  ultimately show False using assms(1) u(3) unfolding deep_enough_def by (metis fst_conv)
qed

lemma remove_buildtarget_no_recursion:
  assumes "deep_enough n fail" and "fail_ok fail" and "pending_files s < n"
  shows "fst (remove_buildtarget_with fail target s) \<noteq> Inl RecursionError"
proof -
  let ?s = "s\<lparr>tk_failed_deps := tk_failed_deps s @ [target]\<rparr>"
  have s0: "shrinks s ?s" by (auto simp: shrinks_def)
  obtain q u where u: "forX fail (get_dependees target ?s) ?s = (q, u)"
    by (cases "forX fail (get_dependees target ?s) ?s")
  have su: "shrinks ?s u" by (rule forX_shrinks [OF u]) (rule fail_ok_shrinks [OF assms(2)])
  have p: "pending_files ?s < n" "pending_files u < n"
    using assms(3) pending_files_shrinks [OF s0] pending_files_shrinks [OF su] by simp_all
  have "q \<noteq> Inl RecursionError"
    using forX_no_recursion [OF assms(1,2) _ p(1)] dependent_files_mem(1) u by (metis fst_conv subsetI)
  moreover have "fst (forX fail (task_files te_idepends target u) u) \<noteq> Inl RecursionError"
    using forX_no_recursion [OF assms(1,2) _ p(2)] dependent_files_mem(2) by blast
  ultimately show ?thesis
    using u by (auto simp: remove_buildtarget_with_def bindX_def retX_def raiseX_def split: sum.splits prod.splits)
qed

lemma remove_runtarget_no_recursion:
  assumes "deep_enough n fail" and "fail_ok fail" and "pending_files s < n"
  shows "fst (remove_runtarget_with fail target s) \<noteq> Inl RecursionError"
proof -
  let ?s = "s\<lparr>tk_failed_rdeps := tk_failed_rdeps s @ [target]\<rparr>"
  have s0: "shrinks s ?s" by (auto simp: shrinks_def)
  obtain q u where u: "forX fail (get_rdependees target ?s) ?s = (q, u)"
    by (cases "forX fail (get_rdependees target ?s) ?s")
  have su: "shrinks ?s u" by (rule forX_shrinks [OF u]) (rule fail_ok_shrinks [OF assms(2)])
  have p: "pending_files ?s < n" "pending_files u < n"
    using assms(3) pending_files_shrinks [OF s0] pending_files_shrinks [OF su] by simp_all
  have "q \<noteq> Inl RecursionError"
    using forX_no_recursion [OF assms(1,2) _ p(1)] dependent_files_mem(1) u by (metis fst_conv subsetI)
  moreover have "fst (forX fail (task_files te_irdepends target u) u) \<noteq> Inl RecursionError"
    using forX_no_recursion [OF assms(1,2) _ p(2)] dependent_files_mem(2) by blast
  ultimately show ?thesis
    using u by (auto simp: remove_runtarget_with_def bindX_def split: sum.splits prod.splits)
qed

lemma pending_files_build [simp]:
  "pending_files (s\<lparr>tk_build_targets := x\<rparr>) = pending_files s"
  "pending_files (s\<lparr>tk_run_targets := x\<rparr>) = pending_files s"
  by (simp_all add: pending_files_def dependent_files_def)

lemma drop_no_recursion:
  assumes "deep_enough n fail" and "fail_ok fail" and "pending_files s < n"
  shows "fst (drop_build_provider fail fn target s) \<noteq> Inl RecursionError"
    and "fst (drop_run_provider fail fn target s) \<noteq> Inl RecursionError"
  using remove_buildtarget_no_recursion [OF assms(1,2)] remove_runtarget_no_recursion [OF assms(1,2)]
    assms(3)
  by (simp_all add: drop_build_provider_def drop_run_provider_def Let_def retX_def)

lemma forX_drop_no_recursion:
  assumes "\<And>x t. shrinks s t \<Longrightarrow> fst (f x t) \<noteq> Inl RecursionError"
    and "\<And>x s r t. f x s = (r, t) \<Longrightarrow> shrinks s t"
  shows "fst (forX f xs s) \<noteq> Inl RecursionError"
proof
  assume "fst (forX f xs s) = Inl RecursionError"
  then obtain t where t: "forX f xs s = (Inl RecursionError, t)" by (cases "forX f xs s") simp
  have "\<exists>x \<in> set xs. \<exists>u. shrinks s u \<and> f x u = (Inl RecursionError, t)"
    by (rule forX_Inl [OF t]) (auto intro: shrinks_trans assms(2))
  then show False using assms(1) by (metis fst_conv)
qed

lemma fail_fn_step_no_recursion:
  assumes deep: "deep_enough n (fail_fn n)"
    and p: "fn \<notin> set (tk_failed_fns s) \<Longrightarrow>
      pending_files (s\<lparr>tk_failed_fns := tk_failed_fns s @ [fn]\<rparr>) < n"
  shows "fst (fail_fn_with (fail_fn n) fn s) \<noteq> Inl RecursionError"
proof (cases "fn \<in> set (tk_failed_fns s)")
  case True
  then show ?thesis by (simp add: fail_fn_with_def retX_def)
next
  case False
  let ?fail = "fail_fn n" and ?s = "s\<lparr>tk_failed_fns := tk_failed_fns s @ [fn]\<rparr>"
  obtain q u where u: "forX (drop_build_provider ?fail fn) (dkeys (tk_build_targets ?s)) ?s = (q, u)"
    by (cases "forX (drop_build_provider ?fail fn) (dkeys (tk_build_targets ?s)) ?s")
  have su: "shrinks ?s u" by (rule forX_shrinks [OF u]) (rule drop_build_provider_ok(1) [OF fail_fn_ok])
  have pt: "pending_files t < n" if "shrinks ?s t" for t
    using pending_files_shrinks [OF that] p [OF False] by simp
  have "fst (forX (drop_build_provider ?fail fn) (dkeys (tk_build_targets ?s)) ?s) \<noteq> Inl RecursionError"
    using drop_no_recursion(1) [OF deep fail_fn_ok pt] drop_build_provider_ok(1) [OF fail_fn_ok]
    by (rule forX_drop_no_recursion)
  moreover have "fst (forX (drop_run_provider ?fail fn) (dkeys (tk_run_targets u)) u) \<noteq> Inl RecursionError"
    using drop_no_recursion(2) [OF deep fail_fn_ok pt [OF shrinks_trans [OF su]]]
      drop_run_provider_ok(1) [OF fail_fn_ok]
    by (rule forX_drop_no_recursion)
  ultimately show ?thesis
    using u False by (auto simp: fail_fn_with_def bindX_def retX_def split: sum.splits prod.splits)
qed

lemma fail_fn_deep: "deep_enough depth (fail_fn depth)"
proof (induction depth)
  case (Suc n)
  have "fst (fail_fn_with (fail_fn n) fn s) \<noteq> Inl RecursionError"
    if fn: "fn \<in> dependent_files s" and p: "pending_files s < Suc n" for fn s
  proof (rule fail_fn_step_no_recursion [OF Suc])
    assume new: "fn \<notin> set (tk_failed_fns s)"
    let ?s = "s\<lparr>tk_failed_fns := tk_failed_fns s @ [fn]\<rparr>"
    have "dependent_files ?s = dependent_files s" by (rule dependent_files_rest) simp
    moreover have "finite (dependent_files s)" by (simp add: dependent_files_def)
    moreover have "dependent_files s - set (tk_failed_fns ?s) \<subset> dependent_files s - set (tk_failed_fns s)"
      using fn new by auto
    ultimately have "pending_files ?s < pending_files s"
      unfolding pending_files_def by (simp only: psubset_card_mono finite_Diff)
    then show "pending_files ?s < n" using p by simp
  qed
  then show ?case by (simp add: deep_enough_def)
qed (simp add: deep_enough_def)

lemma fail_fn_no_recursion:
  assumes "pending_files s < n"
  shows "fst (fail_fn (Suc n) fn s) \<noteq> Inl RecursionError"
proof -
  have "shrinks s (s\<lparr>tk_failed_fns := tk_failed_fns s @ [fn]\<rparr>)" by (auto simp: shrinks_def)
  then have "pending_files (s\<lparr>tk_failed_fns := tk_failed_fns s @ [fn]\<rparr>) < n"
    using assms pending_files_shrinks by fastforce
  then show ?thesis using fail_fn_step_no_recursion [OF fail_fn_deep] by simp
qed

section \<open>Failures without an exception\<close>

text \<open>
  When building continues after errors (\<open>tk_halt\<close> is false), a failure raises nothing but the
  interpreter's RecursionError, and that only when the depth allowed is too small.
\<close>

definition quiet :: "(taskdata, 'a) sx \<Rightarrow> bool" where
  "quiet m \<longleftrightarrow> (\<forall>s x. \<not> tk_halt s \<longrightarrow> fst (m s) = Inl x \<longrightarrow> x = RecursionError)"

lemma quietD: "quiet m \<Longrightarrow> fst (m s) = Inl x \<Longrightarrow> \<not> tk_halt s \<Longrightarrow> x = RecursionError"
  by (simp add: quiet_def)

lemma quietI: "(\<And>s x. \<not> tk_halt s \<Longrightarrow> fst (m s) = Inl x \<Longrightarrow> x = RecursionError) \<Longrightarrow> quiet m"
  by (simp add: quiet_def)

lemma forX_quiet:
  assumes "\<And>x. x \<in> set xs \<Longrightarrow> quiet (f x)"
    and "\<And>x s r t. x \<in> set xs \<Longrightarrow> f x s = (r, t) \<Longrightarrow> shrinks s t"
  shows "quiet (forX f xs)"
  unfolding quiet_def
proof (intro allI impI)
  fix s x
  assume h: "\<not> tk_halt s" and "fst (forX f xs s) = Inl x"
  then obtain t where t: "forX f xs s = (Inl x, t)" by (cases "forX f xs s") simp
  have "\<exists>y \<in> set xs. \<exists>u. shrinks s u \<and> f y u = (Inl x, t)"
    by (rule forX_Inl [OF t]) (auto intro: shrinks_trans assms(2))
  then obtain y u where u: "y \<in> set xs" "shrinks s u" "f y u = (Inl x, t)" by blast
  have "rest u = rest s" using u(2) by (simp add: shrinks_def)
  then have "\<not> tk_halt u" using h rest_fields(5) by metis
  then show "x = RecursionError" using assms(1) [OF u(1)] u(3) unfolding quiet_def by (metis fst_conv)
qed

lemma remove_quiet:
  assumes "fail_ok fail" and "\<And>f. quiet (fail f)"
  shows "quiet (remove_buildtarget_with fail target)" and "quiet (remove_runtarget_with fail target)"
proof -
  have loop: "quiet (forX fail fs)" for fs
    using forX_quiet [of fs fail] assms(2) fail_ok_shrinks [OF assms(1)] by blast
  have halt: "tk_halt t = tk_halt s" if "forX fail fs s = (r, t)" for fs s r t
  proof -
    have "shrinks s t" by (rule forX_shrinks [OF that]) (rule fail_ok_shrinks [OF assms(1)])
    then have "rest t = rest s" by (simp add: shrinks_def)
    then show ?thesis by (rule rest_fields(5))
  qed
  note q = loop [unfolded quiet_def, rule_format]
  show "quiet (remove_buildtarget_with fail target)"
    unfolding quiet_def
  proof (intro allI impI)
    fix s x
    assume h: "\<not> tk_halt s" and x: "fst (remove_buildtarget_with fail target s) = Inl x"
    let ?s = "s\<lparr>tk_failed_deps := tk_failed_deps s @ [target]\<rparr>"
    obtain r u where u: "forX fail (get_dependees target ?s) ?s = (r, u)"
      by (cases "forX fail (get_dependees target ?s) ?s")
    obtain r' v where v: "forX fail (task_files te_idepends target u) u = (r', v)"
      by (cases "forX fail (task_files te_idepends target u) u")
    have hu: "\<not> tk_halt u" "\<not> tk_halt v" using h halt [OF u] halt [OF v] by simp_all
    have "r = Inl x \<or> r' = Inl x"
      using x u v hu by (auto simp: remove_buildtarget_with_def bindX_def retX_def split: sum.splits)
    then show "x = RecursionError"
      using q [of ?s "get_dependees target ?s" x] q [of u "task_files te_idepends target u" x] h hu u v
      by auto
  qed
  show "quiet (remove_runtarget_with fail target)"
    unfolding quiet_def
  proof (intro allI impI)
    fix s x
    assume h: "\<not> tk_halt s" and x: "fst (remove_runtarget_with fail target s) = Inl x"
    let ?s = "s\<lparr>tk_failed_rdeps := tk_failed_rdeps s @ [target]\<rparr>"
    obtain r u where u: "forX fail (get_rdependees target ?s) ?s = (r, u)"
      by (cases "forX fail (get_rdependees target ?s) ?s")
    obtain r' v where v: "forX fail (task_files te_irdepends target u) u = (r', v)"
      by (cases "forX fail (task_files te_irdepends target u) u")
    have hu: "\<not> tk_halt u" using h halt [OF u] by simp
    have "r = Inl x \<or> r' = Inl x"
      using x u v by (auto simp: remove_runtarget_with_def bindX_def split: sum.splits)
    then show "x = RecursionError"
      using q [of ?s "get_rdependees target ?s" x] q [of u "task_files te_irdepends target u" x] h hu u v
      by auto
  qed
qed

lemma drop_quiet:
  assumes "fail_ok fail" and "\<And>f. quiet (fail f)"
  shows "quiet (drop_build_provider fail fn target)" and "quiet (drop_run_provider fail fn target)"
  by (auto simp: drop_build_provider_def drop_run_provider_def Let_def retX_def split: if_splits
      intro!: quietI)
    (erule quietD [OF remove_quiet(1) [OF assms]], simp, erule quietD [OF remove_quiet(2) [OF assms]], simp)

lemma fail_fn_quiet: "quiet (fail_fn depth fn)"
proof (induction depth arbitrary: fn)
  case 0
  then show ?case by (simp add: quiet_def raiseX_def)
next
  case (Suc n)
  let ?fail = "fail_fn n"
  note dq = drop_quiet [OF fail_fn_ok [of n] Suc]
  have b: "quiet (forX (drop_build_provider ?fail fn) xs)" for xs
    using forX_quiet [of xs "drop_build_provider ?fail fn"] dq(1) drop_build_provider_ok(1) [OF fail_fn_ok]
    by blast
  have r: "quiet (forX (drop_run_provider ?fail fn) xs)" for xs
    using forX_quiet [of xs "drop_run_provider ?fail fn"] dq(2) drop_run_provider_ok(1) [OF fail_fn_ok]
    by blast
  show ?case
    unfolding quiet_def
  proof (intro allI impI)
    fix s x
    assume h: "\<not> tk_halt s" and x: "fst (fail_fn (Suc n) fn s) = Inl x"
    let ?s = "s\<lparr>tk_failed_fns := tk_failed_fns s @ [fn]\<rparr>"
    obtain q u where u: "forX (drop_build_provider ?fail fn) (dkeys (tk_build_targets ?s)) ?s = (q, u)"
      by (cases "forX (drop_build_provider ?fail fn) (dkeys (tk_build_targets ?s)) ?s")
    have "shrinks ?s u" by (rule forX_shrinks [OF u]) (rule drop_build_provider_ok(1) [OF fail_fn_ok])
    then have "rest u = rest ?s" by (simp add: shrinks_def)
    then have hu: "\<not> tk_halt u" using h rest_fields(5) [of u ?s] by simp
    have "q = Inl x \<or> fst (forX (drop_run_provider ?fail fn) (dkeys (tk_run_targets u)) u) = Inl x"
      using x u by (auto simp: fail_fn_with_def bindX_def retX_def split: sum.splits if_splits)
    moreover have "\<not> tk_halt ?s" using h by simp
    ultimately show "x = RecursionError"
      using quietD [OF b] quietD [OF r _ hu] u by (metis fst_conv)
  qed
qed

text \<open>C38. Failing a file, with a recursion depth of at least the number of files that depend on
  something and have not failed, raises no RecursionError, and without halt raises nothing. When it
  ends normally the failure is complete: the file and every file failed with it provide nothing any
  more, every target that lost its last provider has failed, and so has every file that depends on
  a target that failed.\<close>

theorem fail_fn_complete:
  assumes "distinct_lists s" and "pending_files s < depth" and "fail_fn (Suc depth) fn s = (r, t)"
  shows "r \<noteq> Inl RecursionError \<and> (\<not> tk_halt s \<longrightarrow> r = Inr ()) \<and>
    (r = Inr () \<longrightarrow> fn \<in> set (tk_failed_fns t) \<and> completes s t)"
proof -
  have nr: "r \<noteq> Inl RecursionError"
    using fail_fn_no_recursion [OF assms(2), of fn] assms(3) by (simp del: fail_fn.simps)
  moreover have "r = Inr ()" if "\<not> tk_halt s"
  proof (cases r)
    case (Inl x)
    then have "fst (fail_fn (Suc depth) fn s) = Inl x" using assms(3) by (simp del: fail_fn.simps)
    then have "x = RecursionError" using quietD [OF fail_fn_quiet _ that] by blast
    with Inl nr show ?thesis by simp
  qed simp
  moreover have "fn \<in> set (tk_failed_fns t) \<and> completes s t" if "r = Inr ()"
    using fail_ok_completes [OF fail_fn_ok _ assms(1)] assms(3) that by blast
  ultimately show ?thesis by blast
qed

text \<open>Two recipes; the second depends on what the first provides.\<close>

definition sample_state :: taskdata where
  "sample_state = (taskdata_init False [] False init_cacheData)\<lparr>
     tk_build_targets := [(''x'', [''p1'']), (''y'', [''p2''])],
     tk_depids := [(''p1'', []), (''p2'', [''x''])], tk_rdepids := [(''p1'', []), (''p2'', [])]\<rparr>"

lemma sample_state_ok: "distinct_lists sample_state" "pending_files sample_state < 3"
  by (auto simp: sample_state_def taskdata_init_def distinct_lists_def bt_def rt_def pending_files_def
      dependent_files_def dget_default_def card_insert_if)

lemma fail_fn_complete_witness:
  "\<exists>t. fail_fn 4 ''p1'' sample_state = (Inr (), t) \<and> ''p1'' \<in> set (tk_failed_fns t) \<and>
     completes sample_state t"
proof -
  obtain r t where run: "fail_fn (Suc 3) ''p1'' sample_state = (r, t)"
    by (cases "fail_fn (Suc 3) ''p1'' sample_state")
  have "\<not> tk_halt sample_state" by (simp add: sample_state_def taskdata_init_def)
  then have "r = Inr () \<and> ''p1'' \<in> set (tk_failed_fns t) \<and> completes sample_state t"
    using fail_fn_complete [OF sample_state_ok run] by blast
  moreover have "Suc 3 = 4" by simp
  ultimately show ?thesis using run by metis
qed

end
