(* ===== verification/Resolution.thy ===== *)
theory Resolution
  imports TaskFailure
begin

text \<open>
  The resolution of names to providers: \<^verbatim>\<open>add_provider_internal\<close> and the rounds of
  \<^verbatim>\<open>add_unresolved\<close> of \<^verbatim>\<open>bb/taskdata.py\<close>.
\<close>

section \<open>A provider added after its target failed\<close>

text \<open>
  Two recipes provide \<open>x\<close>; the first needs \<open>d\<close>, which has failed already.
\<close>

definition two_providers :: cachedata where
  "two_providers = init_cacheData\<lparr>
     dc_pkg_fn := [(''p1'', ''a''), (''p2'', ''b'')],
     dc_pkg_pepvpr := [(''p1'', ([], ''1'', ''r0'')), (''p2'', ([], ''1'', ''r0''))],
     dc_pkg_dp := [(''p1'', 0), (''p2'', 0)], dc_bbfile_priority := [(''p1'', 5), (''p2'', 5)],
     dc_providers := [(''x'', [''p1'', ''p2''])], dc_deps := [(''p1'', [''d''])],
     dc_task_deps := [(''p1'', \<lparr>td_tasks = [], td_parents = [], td_flags = []\<rparr>),
       (''p2'', \<lparr>td_tasks = [], td_parents = [], td_flags = []\<rparr>)]\<rparr>"

definition plain_env :: tdenv where
  "plain_env = \<lparr>ev_getvar = (\<lambda>_. None), ev_rematch = (\<lambda>_ _. Some False),
     ev_exec = (\<lambda>_ deps _ _ _. Inr deps), ev_depth = 10\<rparr>"

definition d_failed :: taskdata where
  "d_failed = (taskdata_init False [] False two_providers)\<lparr>
     tk_build_targets := [(''d'', [])], tk_failed_deps := [''d'']\<rparr>"

text \<open>Two files provide a target and the first of them depends on a target that has failed already: the
  call ends normally with the target recorded as failed, although the second file is registered as its
  provider.\<close>

lemma target_fails_with_a_provider_left:
  "(case add_provider_internal plain_env ''x'' d_failed of
      (r, t) \<Rightarrow> r = Inr () \<and> ''x'' \<in> set (tk_failed_deps t) \<and> bt t ''x'' = [''p2''])"
  by code_simp

end
