(* ===== verification/TaskIds.thy ===== *)
theory TaskIds
  imports RecipeCache
begin

text \<open>
  Task identifiers and counters of the run queue: the functions
  \<^verbatim>\<open>fn_from_tid\<close> to \<^verbatim>\<open>pending_hash_index\<close> and the class
  \<^verbatim>\<open>RunQueueStats\<close> of \<^verbatim>\<open>bb/runqueue.py\<close>. A task identifier is
  \<^verbatim>\<open>fn:task\<close>, or \<^verbatim>\<open>mc:name:fn:task\<close> for a multiconfig.
\<close>

section \<open>Identifiers\<close>

definition fn_from_tid :: "string \<Rightarrow> string" where
  "fn_from_tid tid = hd (rsplit1 colon tid)"

definition taskname_from_tid :: "string \<Rightarrow> string result" where
  "taskname_from_tid tid = (case rsplit1 colon tid of [_, t] \<Rightarrow> Inr t | _ \<Rightarrow> Inl IndexError)"

text \<open>The test for a multiconfig name with at least \<^verbatim>\<open>mc\<close> and two colons.\<close>

definition has_mc :: "string \<Rightarrow> bool" where
  "has_mc s \<longleftrightarrow> startswith s ''mc:'' \<and> count_list s colon \<ge> 2"

definition mc_from_tid :: "string \<Rightarrow> string" where
  "mc_from_tid tid = (if has_mc tid then split_on colon tid ! 1 else [])"

definition split_mc :: "string \<Rightarrow> string \<times> string" where
  "split_mc n =
     (if has_mc n then let r = after_first colon n in (before_first colon r, after_first colon r)
      else ([], n))"

definition split_tid_mcfn :: "string \<Rightarrow> (string \<times> string \<times> string \<times> string) result" where
  "split_tid_mcfn tid =
     (if has_mc tid
      then let elems = split_on colon tid; mc = elems ! 1;
               fn = join [colon] (butlast (drop 2 elems)); taskname = last elems
           in Inr (mc, fn, taskname, ''mc:'' @ mc @ [colon] @ fn)
      else case rsplit1 colon tid of
             [fn, taskname] \<Rightarrow> Inr ([], fn, taskname, fn)
           | _ \<Rightarrow> Inl IndexError)"

definition split_tid :: "string \<Rightarrow> (string \<times> string \<times> string) result" where
  "split_tid tid = bindE (split_tid_mcfn tid) (\<lambda>(mc, fn, taskname, _). Inr (mc, fn, taskname))"

definition build_tid :: "string \<Rightarrow> string \<Rightarrow> string \<Rightarrow> string" where
  "build_tid mc fn taskname =
     (if mc \<noteq> [] then ''mc:'' @ mc @ [colon] @ fn @ [colon] @ taskname else fn @ [colon] @ taskname)"

text \<open>The key used to pair tasks of different multiconfigs. The name of the task is not in it.\<close>

definition pending_hash_index ::
  "string \<Rightarrow> (string, cachedata) odict \<Rightarrow> (string \<Rightarrow> string result) \<Rightarrow> string result" where
  "pending_hash_index tid dataCaches unihash =
     bindE (split_tid_mcfn tid) (\<lambda>(mc, fn, taskname, taskfn).
     bindE (dindex dataCaches mc) (\<lambda>c.
     bindE (dindex (dc_pkg_fn c) taskfn) (\<lambda>pn.
     bindE (unihash tid) (\<lambda>h. Inr (pn @ '':'' @ ''taskname'' @ h)))))"

section \<open>Counters\<close>

record stats =
  st_completed :: int
  st_skipped :: int
  st_failed :: int
  st_active :: int
  st_setscene_active :: int
  st_setscene_covered :: int
  st_setscene_notcovered :: int
  st_setscene_total :: int
  st_total :: int

definition stats_init :: "int \<Rightarrow> int \<Rightarrow> stats" where
  "stats_init tot setscene_tot =
     \<lparr>st_completed = 0, st_skipped = 0, st_failed = 0, st_active = 0, st_setscene_active = 0,
      st_setscene_covered = 0, st_setscene_notcovered = 0, st_setscene_total = setscene_tot,
      st_total = tot\<rparr>"

definition taskFailed :: "stats \<Rightarrow> stats" where
  "taskFailed s = s\<lparr>st_active := st_active s - 1, st_failed := st_failed s + 1\<rparr>"

definition taskCompleted :: "stats \<Rightarrow> stats" where
  "taskCompleted s = s\<lparr>st_active := st_active s - 1, st_completed := st_completed s + 1\<rparr>"

definition taskSkipped :: "stats \<Rightarrow> stats" where
  "taskSkipped s = s\<lparr>st_active := st_active s + 1, st_skipped := st_skipped s + 1\<rparr>"

definition taskActive :: "stats \<Rightarrow> stats" where
  "taskActive s = s\<lparr>st_active := st_active s + 1\<rparr>"

definition updateCovered :: "int \<Rightarrow> int \<Rightarrow> stats \<Rightarrow> stats" where
  "updateCovered covered notcovered s =
     s\<lparr>st_setscene_covered := covered, st_setscene_notcovered := notcovered\<rparr>"

definition updateActiveSetscene :: "int \<Rightarrow> stats \<Rightarrow> stats" where
  "updateActiveSetscene active s = s\<lparr>st_setscene_active := active\<rparr>"

section \<open>Building and splitting\<close>

lemma rsplit1_colon: "colon \<notin> set t \<Longrightarrow> rsplit1 colon (f @ colon # t) = [f, t]"
  by (rule rsplit1_append)

lemma fn_from_tid_append: "colon \<notin> set t \<Longrightarrow> fn_from_tid (f @ colon # t) = f"
  by (simp add: fn_from_tid_def rsplit1_colon)

lemma taskname_from_tid_append: "colon \<notin> set t \<Longrightarrow> taskname_from_tid (f @ colon # t) = Inr t"
  by (simp add: taskname_from_tid_def rsplit1_colon)

text \<open>Splitting undoes building for names without a colon in the multiconfig and the task; for
  the default configuration the result must not look like a multiconfig identifier.\<close>

theorem split_build_tid:
  assumes "colon \<notin> set mc" and "colon \<notin> set taskname" and "mc = [] \<Longrightarrow> \<not> has_mc (build_tid mc fn taskname)"
  shows "split_tid_mcfn (build_tid mc fn taskname) =
      Inr (mc, fn, taskname, if mc = [] then fn else ''mc:'' @ mc @ [colon] @ fn) \<and>
    mc_from_tid (build_tid mc fn taskname) = mc \<and>
    fn_from_tid (build_tid mc fn taskname) = (if mc = [] then fn else ''mc:'' @ mc @ [colon] @ fn) \<and>
    taskname_from_tid (build_tid mc fn taskname) = Inr taskname"
proof (cases "mc = []")
  case True
  with assms show ?thesis
    by (simp add: split_tid_mcfn_def mc_from_tid_def build_tid_def rsplit1_colon fn_from_tid_append
        taskname_from_tid_append)
next
  case False
  let ?tid = "build_tid mc fn taskname"
  have tid: "?tid = ''mc'' @ colon # (mc @ colon # (fn @ colon # taskname))"
    using False by (simp add: build_tid_def colon_def)
  have has: "has_mc ?tid"
    unfolding has_mc_def using False by (auto simp: build_tid_def startswith_iff colon_def)
  have "colon \<notin> set ''mc''" by (simp add: colon_def)
  then have sp: "split_on colon ?tid = [''mc'', mc] @ split_on colon fn @ [taskname]"
    using assms(1,2) split_on_append_sep split_on_absent unfolding tid by auto
  have "split_on colon fn \<noteq> []" by simp
  then have dr: "join [colon] (butlast (drop 2 (split_on colon ?tid))) = fn"
    by (simp add: sp butlast_append join_split_on numeral_2_eq_2)
  have tid2: "?tid = (''mc:'' @ mc @ [colon] @ fn) @ colon # taskname"
    using False by (simp add: build_tid_def)
  have "fn_from_tid ?tid = ''mc:'' @ mc @ [colon] @ fn" "taskname_from_tid ?tid = Inr taskname"
    unfolding tid2 by (rule fn_from_tid_append [OF assms(2)], rule taskname_from_tid_append [OF assms(2)])
  then show ?thesis
    using False has dr by (simp add: split_tid_mcfn_def mc_from_tid_def Let_def sp)
qed

lemma split_build_tid_witness:
  "split_tid_mcfn (build_tid ''arm'' ''/r/a.bb'' ''do_build'') =
     Inr (''arm'', ''/r/a.bb'', ''do_build'', ''mc:arm:/r/a.bb'')"
  using split_build_tid [of "''arm''" "''do_build''" "''/r/a.bb''"] by (simp add: colon_def)

end
