(* ===== verification/Scheduler.thy ===== *)
theory Scheduler
  imports TaskIds
begin

text \<open>
  The task schedulers of \<^verbatim>\<open>bb/runqueue.py\<close>: \<^verbatim>\<open>RunQueueScheduler\<close>
  and its subclasses for speed and completion. The set \<^verbatim>\<open>buildable\<close> is a list without
  duplicates; what the scheduler reads of the run queue is the record \<open>rqview\<close>. The measurement of
  the system's pressure is the field \<open>rv_pressure\<close>.
\<close>

section \<open>Priority maps\<close>

text \<open>
  An element of the list \<^verbatim>\<open>prio_map\<close>: a task, or, in the basic scheduler, the view of all
  the keys of \<^verbatim>\<open>runtaskentries\<close>, which is the only element there.
\<close>

datatype prio_item = PTask string | PKeys "string list"

definition basic_prio_map :: "string list \<Rightarrow> prio_item list" where
  "basic_prio_map tids = [PKeys tids]"

text \<open>The tasks grouped by weight, by increasing weight, reversed.\<close>

definition weight_groups :: "(string \<Rightarrow> int) \<Rightarrow> string list \<Rightarrow> (int, string list) odict" where
  "weight_groups weight tids =
     fold (\<lambda>tid weights. dset (weight tid) (dget_default weights (weight tid) [] @ [tid]) weights) tids []"

definition speed_prio_map :: "(string \<Rightarrow> int) \<Rightarrow> string list \<Rightarrow> string list" where
  "speed_prio_map weight tids =
     (let weights = weight_groups weight tids
      in rev (fold (\<lambda>w prio_map. prio_map @ dget_default weights w []) (sort (dkeys weights)) []))"

text \<open>The task names of each file, in the order of the priority map.\<close>

definition task_lists :: "string list \<Rightarrow> (string, string list) odict result" where
  "task_lists prio_map =
     foldE (\<lambda>taskid per_fn. case rsplit1 colon taskid of
         [fn, taskname] \<Rightarrow> Inr (dset fn (dget_default per_fn fn [] @ [taskname]) per_fn)
       | _ \<Rightarrow> Inl ValueError) prio_map []"

text \<open>
  The unification of the lists: \<open>index\<close> is the place in \<open>all_tasks\<close>. \<^verbatim>\<open>old_task\<close> is
  always the task at that place, except after an insertion, where the code leaves it at the task
  that was there, which is the one at the new place.
\<close>

definition task_at :: "string list \<Rightarrow> nat \<Rightarrow> string option" where
  "task_at xs i = (if i < length xs then Some (xs ! i) else None)"

fun index_of :: "'a \<Rightarrow> 'a list \<Rightarrow> nat option" where
  "index_of x [] = None"
| "index_of x (y # ys) = (if x = y then Some 0 else map_option Suc (index_of x ys))"

definition insert_at :: "nat \<Rightarrow> 'a \<Rightarrow> 'a list \<Rightarrow> 'a list" where
  "insert_at i x xs = take i xs @ x # drop i xs"

fun merge_tasks :: "string list \<Rightarrow> nat \<Rightarrow> string option \<Rightarrow> string list \<Rightarrow> string list" where
  "merge_tasks [] index old_task all_tasks = all_tasks"
| "merge_tasks (new_task # new_tasks) index old_task all_tasks =
     (if old_task = Some new_task
      then merge_tasks new_tasks (Suc index) (task_at all_tasks (Suc index)) all_tasks
      else case index_of new_task all_tasks of
             Some i \<Rightarrow> merge_tasks new_tasks (Suc i) (task_at all_tasks (Suc i)) all_tasks
           | None \<Rightarrow> merge_tasks new_tasks (Suc index) old_task (insert_at index new_task all_tasks))"

definition merged_tasks :: "(string, string list) odict \<Rightarrow> string list" where
  "merged_tasks per_fn =
     fold (\<lambda>(recipe, new_tasks) all_tasks. merge_tasks new_tasks 0 (task_at all_tasks 0) all_tasks) per_fn []"

text \<open>
  \<^verbatim>\<open>for index in range(task_index, numTasks)\<close> with the deletion and insertion that move a
  task of the kind forward; the value is the list and the new \<^verbatim>\<open>task_index\<close>.
\<close>

fun move_kind :: "string \<Rightarrow> nat list \<Rightarrow> string list \<times> nat \<Rightarrow> (string list \<times> nat) result" where
  "move_kind task [] st = Inr st"
| "move_kind task (index # indices) (prio_map, task_index) =
     (if index < length prio_map
      then bindE (taskname_from_tid (prio_map ! index)) (\<lambda>taskname.
        if taskname = task
        then move_kind task indices
               (insert_at task_index (prio_map ! index) (take index prio_map @ drop (Suc index) prio_map),
                Suc task_index)
        else move_kind task indices (prio_map, task_index))
      else Inl IndexError)"

definition completion_prio_map :: "(string \<Rightarrow> int) \<Rightarrow> string list \<Rightarrow> string list result" where
  "completion_prio_map weight tids =
     (let numTasks = length tids; prio_map = speed_prio_map weight tids
      in bindE (task_lists prio_map) (\<lambda>per_fn.
         bindE (foldE (\<lambda>task (prio_map, task_index).
                  move_kind task [task_index..<numTasks] (prio_map, task_index))
                (rev (merged_tasks per_fn)) (prio_map, 0)) (\<lambda>(prio_map, _). Inr prio_map)))"

section \<open>The next task\<close>

record rqview =
  rv_runtasks :: "string list"
  rv_running :: "string list"
  rv_complete :: "string list"
  rv_holdoff :: "string list"
  rv_covered :: "string list"
  rv_notcovered :: "string list"
  rv_build_stamps :: "string list"
  rv_active :: int
  rv_number_threads :: "string \<Rightarrow> string option"
  rv_pressure :: bool
  rv_can_start :: bool

record scheduler =
  sc_buildable :: "string list"
  sc_skip_maxthread :: "(string, string option) odict"
  sc_stamps :: "(string, string) odict"
  sc_prio_map :: "prio_item list"
  sc_rev_prio_map :: "(string, nat) odict"

definition scheduler_init :: "prio_item list \<Rightarrow> (string \<Rightarrow> string) \<Rightarrow> string list \<Rightarrow> string list \<Rightarrow> scheduler" where
  "scheduler_init prio_map stampfile tids runq_buildable =
     \<lparr>sc_buildable = filter (\<lambda>tid. tid \<in> set runq_buildable) tids, sc_skip_maxthread = [],
      sc_stamps = map (\<lambda>tid. (tid, stampfile tid)) tids, sc_prio_map = prio_map,
      sc_rev_prio_map = []\<rparr>"

text \<open>
  The number of running tasks per kind with a limit on its threads, and the cache of the limits.
\<close>

fun count_running ::
  "rqview \<Rightarrow> string list \<Rightarrow> (string, string option) odict \<Rightarrow> (string, nat) odict \<Rightarrow>
   ((string, string option) odict \<times> (string, nat) odict) result" where
  "count_running v [] maxthread skip = Inr (maxthread, skip)"
| "count_running v (running # rest) maxthread skip =
     bindE (taskname_from_tid running) (\<lambda>rtaskname.
       let maxthread = (if dhas maxthread rtaskname then maxthread
                        else dset rtaskname (rv_number_threads v rtaskname) maxthread);
           limit = dget_default maxthread rtaskname None
       in if unset limit then count_running v rest maxthread skip
          else count_running v rest maxthread
                 (dset rtaskname (dget_default skip rtaskname 0 + 1) skip))"

text \<open>Whether so many tasks of the kind run that no further one may start.\<close>

definition limit_reached ::
  "(string, string option) odict \<Rightarrow> (string, nat) odict \<Rightarrow> string \<Rightarrow> bool result" where
  "limit_reached maxthread skip taskname =
     (case dget skip taskname of
        None \<Rightarrow> Inr False
      | Some n \<Rightarrow> bindE (case dget_default maxthread taskname None of None \<Rightarrow> Inl TypeError | Some v \<Rightarrow> py_int v)
          (\<lambda>limit. Inr (int n \<ge> limit)))"

fun prio_index :: "string \<Rightarrow> prio_item list \<Rightarrow> nat result" where
  "prio_index tid items = (case index_of (PTask tid) items of None \<Rightarrow> Inl ValueError | Some i \<Rightarrow> Inr i)"

definition make_rev_prio_map :: "string list \<Rightarrow> prio_item list \<Rightarrow> (string, nat) odict result" where
  "make_rev_prio_map tids prio_map =
     foldE (\<lambda>tid d. bindE (prio_index tid prio_map) (\<lambda>i. Inr (dset tid i d))) tids []"

fun pick_best ::
  "scheduler \<Rightarrow> rqview \<Rightarrow> (string, nat) odict \<Rightarrow> string list \<Rightarrow> (string \<times> nat) option \<Rightarrow> (string \<times> nat) option result" where
  "pick_best sc v skip [] best = Inr best"
| "pick_best sc v skip (tid # tids) best =
     bindE (dindex (sc_rev_prio_map sc) tid) (\<lambda>prio.
       if (case best of None \<Rightarrow> True | Some (_, bestprio) \<Rightarrow> bestprio > prio)
       then bindE (taskname_from_tid tid) (\<lambda>taskname.
            bindE (limit_reached (sc_skip_maxthread sc) skip taskname) (\<lambda>full.
              if full then pick_best sc v skip tids best
              else bindE (dindex (sc_stamps sc) tid) (\<lambda>stamp.
                     if stamp \<in> set (rv_build_stamps v) then pick_best sc v skip tids best
                     else pick_best sc v skip tids (Some (tid, prio)))))
       else pick_best sc v skip tids best)"

definition choose_best ::
  "scheduler \<Rightarrow> rqview \<Rightarrow> (string, nat) odict \<Rightarrow> string list \<Rightarrow> string option result \<times> scheduler" where
  "choose_best sc v skip buildable =
     (case (if sc_rev_prio_map sc = [] then make_rev_prio_map (rv_runtasks v) (sc_prio_map sc)
            else Inr (sc_rev_prio_map sc)) of
        Inl x \<Rightarrow> (Inl x, sc)
      | Inr m \<Rightarrow>
          let sc = sc\<lparr>sc_rev_prio_map := m\<rparr>
          in (bindE (pick_best sc v skip buildable None) (\<lambda>best. Inr (map_option fst best)), sc))"

text \<open>A single buildable task is popped, so nothing is left for the search when its stamp is in use.\<close>

definition next_buildable_task :: "rqview \<Rightarrow> scheduler \<Rightarrow> string option result \<times> scheduler" where
  "next_buildable_task v sc0 =
     (let sc = sc0\<lparr>sc_buildable := sdiff (sc_buildable sc0) (rv_running v)\<rparr>;
          buildable = sinter (sdiff (sc_buildable sc) (rv_holdoff v)) (rv_covered v @ rv_notcovered v)
      in if buildable = [] then (Inr None, sc)
         else if rv_active v \<noteq> 0 \<and> rv_pressure v then (Inr None, sc)
         else case count_running v (sdiff (rv_running v) (rv_complete v)) (sc_skip_maxthread sc) [] of
                Inl x \<Rightarrow> (Inl x, sc)
              | Inr (maxthread, skip) \<Rightarrow>
                  let sc = sc\<lparr>sc_skip_maxthread := maxthread\<rparr>
                  in case buildable of
                       [tid] \<Rightarrow>
                         (case bindE (taskname_from_tid tid) (limit_reached maxthread skip) of
                            Inl x \<Rightarrow> (Inl x, sc)
                          | Inr True \<Rightarrow> (Inr None, sc)
                          | Inr False \<Rightarrow>
                              (case dindex (sc_stamps sc) tid of
                                 Inl x \<Rightarrow> (Inl x, sc)
                               | Inr stamp \<Rightarrow>
                                   if stamp \<notin> set (rv_build_stamps v) then (Inr (Some tid), sc)
                                   else choose_best sc v skip []))
                     | _ \<Rightarrow> choose_best sc v skip buildable)"

definition next_task :: "rqview \<Rightarrow> scheduler \<Rightarrow> string option result \<times> scheduler" where
  "next_task v sc = (if rv_can_start v then next_buildable_task v sc else (Inr None, sc))"

definition newbuildable :: "string \<Rightarrow> scheduler \<Rightarrow> scheduler" where
  "newbuildable task sc = sc\<lparr>sc_buildable := sadd task (sc_buildable sc)\<rparr>"

definition removebuildable :: "string \<Rightarrow> scheduler \<Rightarrow> scheduler result" where
  "removebuildable task sc =
     (if task \<in> set (sc_buildable sc) then Inr (sc\<lparr>sc_buildable := sdiscard task (sc_buildable sc)\<rparr>)
      else Inl (KeyError task))"

section \<open>The order of the speed scheduler\<close>

lemma weight_groups_get:
  "dget_default (weight_groups weight tids) w [] = filter (\<lambda>t. weight t = w) tids \<and>
   set (dkeys (weight_groups weight tids)) = weight ` set tids \<and> distinct (dkeys (weight_groups weight tids))"
proof (induction tids rule: rev_induct)
  case Nil
  then show ?case by (simp add: weight_groups_def dget_default_def)
next
  case (snoc t tids)
  have "weight_groups weight (tids @ [t]) =
      dset (weight t) (dget_default (weight_groups weight tids) (weight t) [] @ [t]) (weight_groups weight tids)"
    by (simp add: weight_groups_def)
  then show ?case using snoc by (auto simp: dict_simps simp del: set_map)
qed

lemma speed_prio_map_sort: "speed_prio_map weight tids = rev (sort_key weight tids)"
proof -
  have get: "dget_default (weight_groups weight tids) w [] = filter (\<lambda>t. weight t = w) tids" for w
    using weight_groups_get by blast
  have keys: "sort (dkeys (weight_groups weight tids)) = sorted_list_of_set (weight ` set tids)"
    using weight_groups_get sort_distinct by metis
  show ?thesis
    unfolding speed_prio_map_def Let_def fold_append_map append_Nil get keys sort_key_groups by (rule refl)
qed

section \<open>The order of the completion scheduler\<close>

definition has_kind :: "string \<Rightarrow> bool" where
  "has_kind tid \<longleftrightarrow> colon \<in> set tid"

definition kind :: "string \<Rightarrow> string" where
  "kind tid = after_last colon tid"

lemma taskname_kind: "has_kind tid \<Longrightarrow> taskname_from_tid tid = Inr (kind tid)"
  by (simp add: taskname_from_tid_def rsplit1_def has_kind_def kind_def)

lemma task_lists_kinds:
  assumes "\<forall>t \<in> set tids. has_kind t"
  shows "\<exists>d. task_lists tids = Inr d \<and> (\<Union>p \<in> set d. set (snd p)) = kind ` set tids"
  using assms
proof (induction tids rule: rev_induct)
  case Nil
  then show ?case by (simp add: task_lists_def)
next
  case (snoc t tids)
  then obtain d where d: "task_lists tids = Inr d" "(\<Union>p \<in> set d. set (snd p)) = kind ` set tids" by auto
  have r: "rsplit1 colon t = [before_last colon t, kind t]"
    using snoc.prems by (simp add: rsplit1_def has_kind_def kind_def)
  let ?fn = "before_last colon t"
  let ?d = "dset ?fn (dget_default d ?fn [] @ [kind t]) d"
  have run: "task_lists (tids @ [t]) = Inr ?d"
    using d(1) by (simp add: task_lists_def foldE_append r)
  have "(\<Union>p \<in> set (dset fn (dget_default d fn [] @ [k]) d). set (snd p)) =
      insert k (\<Union>p \<in> set d. set (snd p))" for fn k and d :: "(string, string list) odict"
  proof (induction d)
    case (Cons p d)
    obtain f ks where p: "p = (f, ks)" by (cases p)
    show ?case
    proof (cases "f = fn")
      case True
      then show ?thesis by (simp add: p dget_default_def)
    next
      case False
      then have "dget_default (p # d) fn [] = dget_default d fn []" by (simp add: p dget_default_def)
      with False Cons show ?thesis by (auto simp: p)
    qed
  qed (simp add: dget_default_def)
  with d(2) run show ?case by auto
qed

lemma index_of_Some: "index_of x xs = Some i \<Longrightarrow> i < length xs \<and> xs ! i = x"
  by (induction xs arbitrary: i) (auto split: if_splits)

lemma index_of_None: "index_of x xs = None \<longleftrightarrow> x \<notin> set xs"
  by (induction xs) auto

lemma index_of_mem: "x \<in> set xs \<Longrightarrow> \<exists>i. index_of x xs = Some i"
  using index_of_None [of x xs] by (cases "index_of x xs") auto

lemma index_of_inject:
  "index_of x xs = Some i \<Longrightarrow> index_of y xs = Some i \<Longrightarrow> x = y"
  using index_of_Some by metis

lemma insert_at_set: "set (insert_at i x xs) = insert x (set xs)"
proof -
  have "set (take i xs) \<union> set (drop i xs) = set xs"
    by (simp flip: set_append)
  then show ?thesis by (auto simp: insert_at_def)
qed

lemma mset_insert_at: "mset (insert_at i x xs) = mset (x # xs)"
proof -
  have "mset (take i xs) + mset (drop i xs) = mset xs" by (metis append_take_drop_id mset_append)
  then show ?thesis by (simp add: insert_at_def)
qed

lemma insert_at_distinct: "distinct (insert_at i x xs) \<longleftrightarrow> x \<notin> set xs \<and> distinct xs"
  using mset_eq_imp_distinct_iff [OF mset_insert_at, of i x xs] by simp

lemma task_at_mem: "task_at xs i = Some x \<Longrightarrow> x \<in> set xs"
  by (auto simp: task_at_def split: if_splits)

lemma merge_tasks_set:
  assumes "\<forall>x. old_task = Some x \<longrightarrow> x \<in> set all_tasks" and "distinct all_tasks"
  shows "set (merge_tasks new_tasks index old_task all_tasks) = set all_tasks \<union> set new_tasks \<and>
    distinct (merge_tasks new_tasks index old_task all_tasks)"
  using assms
proof (induction new_tasks index old_task all_tasks rule: merge_tasks.induct)
  case (2 new_task new_tasks index old_task all_tasks)
  have at: "\<forall>x. task_at all_tasks i = Some x \<longrightarrow> x \<in> set all_tasks" for i
    using task_at_mem by blast
  show ?case
  proof (cases "old_task = Some new_task")
    case True
    from 2(1) [OF True at 2(5)] show ?thesis using 2(4) True by auto
  next
    case False
    show ?thesis
    proof (cases "index_of new_task all_tasks")
      case None
      then have new: "new_task \<notin> set all_tasks" by (simp add: index_of_None)
      have "\<forall>x. old_task = Some x \<longrightarrow> x \<in> set (insert_at index new_task all_tasks)"
        using 2(4) by (simp add: insert_at_set)
      from 2(2) [OF False None this] show ?thesis
        using 2(5) False None new by (simp add: insert_at_set insert_at_distinct)
    next
      case (Some i)
      then have "new_task \<in> set all_tasks" using index_of_Some nth_mem by metis
      with 2(3) [OF False Some at 2(5)] show ?thesis using False Some by auto
    qed
  qed
qed simp

lemma merged_tasks_set:
  "set (merged_tasks d) = (\<Union>p \<in> set d. set (snd p)) \<and> distinct (merged_tasks d)"
proof (induction d rule: rev_induct)
  case Nil
  then show ?case by (simp add: merged_tasks_def)
next
  case (snoc p d)
  obtain f ks where p: "p = (f, ks)" by (cases p)
  have run: "merged_tasks (d @ [p]) = merge_tasks ks 0 (task_at (merged_tasks d) 0) (merged_tasks d)"
    by (simp add: merged_tasks_def p)
  have "\<forall>x. task_at (merged_tasks d) 0 = Some x \<longrightarrow> x \<in> set (merged_tasks d)"
    using task_at_mem by blast
  from merge_tasks_set [OF this, of ks 0] snoc show ?case
    unfolding run by (auto simp: p)
qed

text \<open>Moving the tasks of a kind forward partitions what is left, keeping the order of each part.\<close>

lemma move_kind_partition:
  assumes "\<forall>x \<in> set suf. has_kind x" and "\<forall>x \<in> set mid. kind x \<noteq> task"
  shows "move_kind task [length (pre @ mid)..<length (pre @ mid @ suf)] (pre @ mid @ suf, length pre) =
    Inr (pre @ filter (\<lambda>x. kind x = task) suf @ mid @ filter (\<lambda>x. kind x \<noteq> task) suf,
         length pre + length (filter (\<lambda>x. kind x = task) suf))"
  using assms
proof (induction suf arbitrary: pre mid)
  case (Cons x suf)
  have range: "[length (pre @ mid)..<length (pre @ mid @ x # suf)] =
      length (pre @ mid) # [Suc (length (pre @ mid))..<length (pre @ mid @ x # suf)]"
    by (rule upt_conv_Cons) simp
  have x: "(pre @ mid @ x # suf) ! length (pre @ mid) = x" "taskname_from_tid x = Inr (kind x)"
    using Cons.prems taskname_kind by (simp_all add: nth_append)
  show ?case
  proof (cases "kind x = task")
    case True
    have "insert_at (length pre) x (take (length (pre @ mid)) (pre @ mid @ x # suf) @
        drop (Suc (length (pre @ mid))) (pre @ mid @ x # suf)) = (pre @ [x]) @ mid @ suf"
      by (simp add: insert_at_def)
    moreover have "[Suc (length (pre @ mid))..<length (pre @ mid @ x # suf)] =
        [length ((pre @ [x]) @ mid)..<length ((pre @ [x]) @ mid @ suf)]" by simp
    ultimately show ?thesis
      using Cons.IH [of mid "pre @ [x]"] Cons.prems True x unfolding range by simp
  next
    case False
    then show ?thesis
      using Cons.IH [of "mid @ [x]" pre] Cons.prems x unfolding range by simp
  qed
qed simp

lemma move_kinds_groups:
  assumes "\<forall>x \<in> set suf. has_kind x" and "distinct ts"
  shows "foldE (\<lambda>task (prio_map, task_index).
      move_kind task [task_index..<length (pre @ suf)] (prio_map, task_index)) ts (pre @ suf, length pre) =
    Inr (pre @ concat (map (\<lambda>t. filter (\<lambda>x. kind x = t) suf) ts) @ filter (\<lambda>x. kind x \<notin> set ts) suf,
         length pre + length (concat (map (\<lambda>t. filter (\<lambda>x. kind x = t) suf) ts)))"
  using assms
proof (induction ts arbitrary: pre suf)
  case (Cons t ts)
  let ?same = "filter (\<lambda>x. kind x = t) suf" and ?others = "filter (\<lambda>x. kind x \<noteq> t) suf"
  have len: "length (pre @ suf) = length ((pre @ ?same) @ ?others)"
    using sum_length_filter_compl [of "\<lambda>x. kind x = t" suf] by simp
  have step: "move_kind t [length pre..<length (pre @ suf)] (pre @ suf, length pre) =
      Inr ((pre @ ?same) @ ?others, length (pre @ ?same))"
    using move_kind_partition [of suf "[]" t pre] Cons.prems(1) by simp
  have "\<forall>x \<in> set ?others. has_kind x" using Cons.prems(1) by simp
  note IH = Cons.IH [OF this, of "pre @ ?same"]
  have f: "filter (\<lambda>x. kind x = t') ?others = filter (\<lambda>x. kind x = t') suf" if "t' \<in> set ts" for t'
    using that Cons.prems(2) by (auto intro: filter_cong)
  have g: "map (\<lambda>t'. filter (\<lambda>x. kind x = t') ?others) ts = map (\<lambda>t'. filter (\<lambda>x. kind x = t') suf) ts"
    using f by (rule map_cong [OF refl])
  have h: "filter (\<lambda>x. kind x \<notin> set ts) ?others = filter (\<lambda>x. kind x \<notin> set (t # ts)) suf"
    by (auto intro: filter_cong)
  show ?case
    using IH Cons.prems(2) unfolding len [symmetric] g h
    by (simp add: step [unfolded length_append append_assoc])
qed simp

definition kinds_in_order :: "(string \<Rightarrow> int) \<Rightarrow> string list \<Rightarrow> string list" where
  "kinds_in_order weight tids =
     (case task_lists (speed_prio_map weight tids) of Inl _ \<Rightarrow> [] | Inr d \<Rightarrow> rev (merged_tasks d))"

lemma kinds_in_order_set:
  assumes "\<forall>t \<in> set tids. has_kind t"
  shows "set (kinds_in_order weight tids) = kind ` set tids" "distinct (kinds_in_order weight tids)"
proof -
  have "set (speed_prio_map weight tids) = set tids" by (simp add: speed_prio_map_sort)
  then obtain d where "task_lists (speed_prio_map weight tids) = Inr d"
    "(\<Union>p \<in> set d. set (snd p)) = kind ` set tids"
    using task_lists_kinds [of "speed_prio_map weight tids"] assms by auto
  then show "set (kinds_in_order weight tids) = kind ` set tids" "distinct (kinds_in_order weight tids)"
    using merged_tasks_set [of d] by (simp_all add: kinds_in_order_def)
qed

lemma completion_prio_map_groups:
  assumes "\<forall>t \<in> set tids. has_kind t"
  shows "completion_prio_map weight tids =
    Inr (concat (map (\<lambda>k. filter (\<lambda>t. kind t = k) (speed_prio_map weight tids)) (kinds_in_order weight tids)))"
proof -
  let ?p = "speed_prio_map weight tids"
  have s: "set ?p = set tids" and l: "length ?p = length tids" by (simp_all add: speed_prio_map_sort)
  have hk: "\<forall>t \<in> set ?p. has_kind t" using assms s by simp
  then obtain d where d: "task_lists ?p = Inr d" using task_lists_kinds by blast
  have ks: "rev (merged_tasks d) = kinds_in_order weight tids" by (simp add: kinds_in_order_def d)
  have "filter (\<lambda>x. kind x \<notin> set (kinds_in_order weight tids)) ?p = []"
    using kinds_in_order_set(1) [OF assms] s by (auto simp: filter_empty_conv)
  then show ?thesis
    using move_kinds_groups [OF hk kinds_in_order_set(2) [OF assms], of "[]" weight] l
    by (simp add: completion_prio_map_def d ks Let_def)
qed

lemma mset_by_kind:
  assumes "distinct ks" and "kind ` set xs \<subseteq> set ks"
  shows "mset (concat (map (\<lambda>k. filter (\<lambda>t. kind t = k) xs) ks)) = mset xs"
  using assms
proof (induction ks arbitrary: xs)
  case (Cons k ks)
  have "map (\<lambda>k'. filter (\<lambda>t. kind t = k') (filter (\<lambda>t. kind t \<noteq> k) xs)) ks =
      map (\<lambda>k'. filter (\<lambda>t. kind t = k') xs) ks"
    using Cons.prems(1) by (auto intro: filter_cong)
  moreover have "mset (concat (map (\<lambda>k'. filter (\<lambda>t. kind t = k') (filter (\<lambda>t. kind t \<noteq> k) xs)) ks)) =
      mset (filter (\<lambda>t. kind t \<noteq> k) xs)"
    using Cons.prems by (intro Cons.IH) auto
  ultimately have "mset (concat (map (\<lambda>k'. filter (\<lambda>t. kind t = k') xs) ks)) =
      filter_mset (\<lambda>t. kind t \<noteq> k) (mset xs)"
    by (simp only: mset_filter)
  then show ?case by (simp add: mset_filter)
qed simp

section \<open>The interface of a priority map\<close>

text \<open>
  What \<open>next_buildable_task\<close> relies on: the map lists every task once. Then the number of a task in
  the map is unique and the task found is the most important one that may start.
\<close>

locale priority_map =
  fixes make :: "(string \<Rightarrow> int) \<Rightarrow> string list \<Rightarrow> string list result"
  assumes makes: "\<forall>t \<in> set tids. has_kind t \<Longrightarrow> \<exists>p. make weight tids = Inr p \<and> mset p = mset tids"
begin

lemma makes_distinct:
  "\<forall>t \<in> set tids. has_kind t \<Longrightarrow> distinct tids \<Longrightarrow>
   \<exists>p. make weight tids = Inr p \<and> distinct p \<and> set p = set tids"
  using makes [of tids weight] mset_eq_imp_distinct_iff mset_eq_setD by metis

end

interpretation speed: priority_map "\<lambda>weight tids. Inr (speed_prio_map weight tids)"
  by unfold_locales (simp add: speed_prio_map_sort)

interpretation completion: priority_map completion_prio_map
proof
  fix weight and tids :: "string list"
  assume a: "\<forall>t \<in> set tids. has_kind t"
  have m: "mset (speed_prio_map weight tids) = mset tids" by (simp add: speed_prio_map_sort)
  then have "kind ` set (speed_prio_map weight tids) \<subseteq> set (kinds_in_order weight tids)"
    using kinds_in_order_set(1) [OF a] mset_eq_setD [OF m] by simp
  with m show "\<exists>p. completion_prio_map weight tids = Inr p \<and> mset p = mset tids"
    using completion_prio_map_groups [OF a] mset_by_kind [OF kinds_in_order_set(2) [OF a]] by auto
qed

section \<open>The next task is the most important one that may start\<close>

definition running_of :: "rqview \<Rightarrow> string \<Rightarrow> nat" where
  "running_of v k = length (filter (\<lambda>t. kind t = k) (sdiff (rv_running v) (rv_complete v)))"

definition limits_ok :: "rqview \<Rightarrow> bool" where
  "limits_ok v \<longleftrightarrow> (\<forall>k s. rv_number_threads v k = Some s \<longrightarrow> s = [] \<or> (\<exists>n. py_int s = Inr n))"

text \<open>So many tasks of the kind run that its limit, if it has one, is reached.\<close>

definition kind_full :: "rqview \<Rightarrow> string \<Rightarrow> bool" where
  "kind_full v k \<longleftrightarrow> running_of v k > 0 \<and>
     (\<exists>s n. rv_number_threads v k = Some s \<and> s \<noteq> [] \<and> py_int s = Inr n \<and> int (running_of v k) \<ge> n)"

definition may_start :: "rqview \<Rightarrow> scheduler \<Rightarrow> string \<Rightarrow> bool" where
  "may_start v sc t \<longleftrightarrow> t \<in> set (sc_buildable sc) \<and> t \<notin> set (rv_running v) \<and> t \<notin> set (rv_holdoff v) \<and>
     t \<in> set (rv_covered v) \<union> set (rv_notcovered v) \<and>
     the (dget (sc_stamps sc) t) \<notin> set (rv_build_stamps v) \<and> \<not> kind_full v (kind t)"

definition limits_cached :: "rqview \<Rightarrow> (string, string option) odict \<Rightarrow> bool" where
  "limits_cached v d \<longleftrightarrow> (\<forall>k l. dget d k = Some l \<longrightarrow> l = rv_number_threads v k)"

definition scheduler_ok :: "rqview \<Rightarrow> string list \<Rightarrow> scheduler \<Rightarrow> bool" where
  "scheduler_ok v p sc \<longleftrightarrow> sc_prio_map sc = map PTask p \<and> distinct p \<and> set p = set (rv_runtasks v) \<and>
     (\<forall>t \<in> set p. has_kind t \<and> dhas (sc_stamps sc) t) \<and> set (sc_buildable sc) \<subseteq> set p \<and>
     (\<forall>t \<in> set (rv_running v). has_kind t) \<and>
     (sc_rev_prio_map sc = [] \<or> (\<forall>t \<in> set p. dget (sc_rev_prio_map sc) t = index_of t p)) \<and>
     limits_cached v (sc_skip_maxthread sc) \<and> limits_ok v"

definition of_kind :: "string list \<Rightarrow> string \<Rightarrow> nat" where
  "of_kind ts k = length (filter (\<lambda>t. kind t = k) ts)"

definition counted :: "rqview \<Rightarrow> string list \<Rightarrow> (string, nat) odict \<Rightarrow> string \<Rightarrow> nat option" where
  "counted v ts skip k =
     (if unset (rv_number_threads v k) \<or> of_kind ts k = 0 then dget skip k
      else Some (dget_default skip k 0 + of_kind ts k))"

lemma counted_Cons:
  "unset (rv_number_threads v (kind t)) \<Longrightarrow> counted v (t # ts) skip k = counted v ts skip k"
  "\<not> unset (rv_number_threads v (kind t)) \<Longrightarrow>
   counted v (t # ts) skip k = counted v ts (dset (kind t) (dget_default skip (kind t) 0 + 1) skip) k"
  by (auto simp: counted_def of_kind_def dict_simps)

lemma count_running_result:
  assumes "\<forall>t \<in> set rs. has_kind t" and "limits_cached v maxthread"
  shows "\<exists>maxthread' skip'. count_running v rs maxthread skip = Inr (maxthread', skip') \<and>
    limits_cached v maxthread' \<and> (\<forall>t \<in> kind ` set rs. dhas maxthread' t) \<and>
    (\<forall>t. dhas maxthread t \<longrightarrow> dhas maxthread' t) \<and> (\<forall>k. dget skip' k = counted v rs skip k)"
  using assms
proof (induction rs arbitrary: maxthread skip)
  case Nil
  then show ?case by (simp add: counted_def of_kind_def)
next
  case (Cons r rs)
  define m where "m = (if dhas maxthread (kind r) then maxthread
            else dset (kind r) (rv_number_threads v (kind r)) maxthread)"
  have m: "limits_cached v m" "dhas m (kind r)" "\<And>t. dhas maxthread t \<Longrightarrow> dhas m t"
    using Cons.prems(2) by (auto simp: m_def limits_cached_def dict_simps dhas_iff)
  then have lim: "dget_default m (kind r) None = rv_number_threads v (kind r)"
    by (auto simp: limits_cached_def dhas_iff)
  have r: "taskname_from_tid r = Inr (kind r)" using Cons.prems(1) by (simp add: taskname_kind)
  define s where "s = (if unset (rv_number_threads v (kind r)) then skip
    else dset (kind r) (dget_default skip (kind r) 0 + 1) skip)"
  have run: "count_running v (r # rs) maxthread skip = count_running v rs m s"
    by (simp add: r Let_def m_def [symmetric] lim s_def)
  have c: "counted v rs s k = counted v (r # rs) skip k" for k
    by (cases "unset (rv_number_threads v (kind r))") (simp_all add: counted_Cons s_def)
  obtain m' s' where IH: "count_running v rs m s = Inr (m', s')" "limits_cached v m'"
      "\<forall>t \<in> kind ` set rs. dhas m' t" "\<forall>t. dhas m t \<longrightarrow> dhas m' t" "\<forall>k. dget s' k = counted v rs s k"
    using Cons.IH [OF _ m(1), of s] Cons.prems(1) by auto
  show ?case
    unfolding run
    by (intro exI [of _ m'] exI [of _ s'] conjI) (use IH m c in auto)
qed

lemma limit_reached_full:
  assumes "limits_ok v" and "limits_cached v m" and "\<forall>t \<in> kind ` set (sdiff (rv_running v) (rv_complete v)). dhas m t"
    and "\<forall>k. dget skip k = (if unset (rv_number_threads v k) \<or> running_of v k = 0 then None
       else Some (running_of v k))"
  shows "limit_reached m skip k = Inr (kind_full v k)"
proof (cases "unset (rv_number_threads v k) \<or> running_of v k = 0")
  case True
  then show ?thesis using assms(4) by (auto simp: limit_reached_def kind_full_def unset_def)
next
  case False
  then obtain s where s: "rv_number_threads v k = Some s" "s \<noteq> []" by (auto simp: unset_def)
  then obtain n where n: "py_int s = Inr n" using assms(1) by (auto simp: limits_ok_def)
  have "k \<in> kind ` set (sdiff (rv_running v) (rv_complete v))"
    using False unfolding running_of_def by (auto simp: filter_empty_conv)
  then have "dhas m k" using assms(3) by blast
  then have "dget_default m k None = Some s"
    using assms(2) s by (auto simp: limits_cached_def dhas_iff)
  then show ?thesis using assms(4) False s n by (auto simp: limit_reached_def kind_full_def)
qed

text \<open>\<open>b\<close> is the smallest of \<open>best\<close> and the tasks of the list that are acceptable.\<close>

definition least_of ::
  "(string \<Rightarrow> bool) \<Rightarrow> (string \<Rightarrow> nat) \<Rightarrow> string set \<Rightarrow> (string \<times> nat) option \<Rightarrow> (string \<times> nat) option \<Rightarrow> bool" where
  "least_of ok idx T best b \<longleftrightarrow>
     (case b of
        None \<Rightarrow> best = None \<and> (\<forall>t \<in> T. \<not> ok t)
      | Some (t, i) \<Rightarrow> (best = Some (t, i) \<or> t \<in> T \<and> ok t \<and> i = idx t) \<and>
          (\<forall>u \<in> T. ok u \<longrightarrow> i \<le> idx u) \<and> (case best of None \<Rightarrow> True | Some (_, i0) \<Rightarrow> i \<le> i0))"

lemma least_of_take:
  assumes "least_of ok idx T (Some (t, idx t)) b" and "ok t"
    and "case best of None \<Rightarrow> True | Some (_, i) \<Rightarrow> i > idx t"
  shows "least_of ok idx (insert t T) best b"
  using assms by (cases best; cases b) (auto simp: least_of_def)

lemma least_of_skip:
  assumes "least_of ok idx T best b" and "\<not> (ok t \<and> (case best of None \<Rightarrow> True | Some (_, i) \<Rightarrow> i > idx t))"
  shows "least_of ok idx (insert t T) best b"
  using assms by (cases best; cases b) (auto simp: least_of_def)

lemma pick_best_least:
  assumes "\<forall>t \<in> set tids. has_kind t \<and> dhas (sc_stamps sc) t \<and> dget (sc_rev_prio_map sc) t = Some (idx t)"
    and "\<And>k. limit_reached (sc_skip_maxthread sc) skip k = Inr (full k)"
    and ok: "\<And>t. ok t \<longleftrightarrow> the (dget (sc_stamps sc) t) \<notin> set (rv_build_stamps v) \<and> \<not> full (kind t)"
  shows "\<exists>b. pick_best sc v skip tids best = Inr b \<and> least_of ok idx (set tids) best b"
  using assms(1)
proof (induction tids arbitrary: best)
  case Nil
  then show ?case by (cases best) (auto simp: least_of_def)
next
  case (Cons t tids)
  have t: "dindex (sc_rev_prio_map sc) t = Inr (idx t)" "taskname_from_tid t = Inr (kind t)"
    "dindex (sc_stamps sc) t = Inr (the (dget (sc_stamps sc) t))"
    using Cons.prems by (auto simp: dindex_def taskname_kind dhas_iff)
  let ?better = "case best of None \<Rightarrow> True | Some (_, bestprio) \<Rightarrow> bestprio > idx t"
  have ts: "\<forall>t \<in> set tids. has_kind t \<and> dhas (sc_stamps sc) t \<and> dget (sc_rev_prio_map sc) t = Some (idx t)"
    using Cons.prems by simp
  show ?case
  proof (cases "ok t \<and> ?better")
    case True
    then have "pick_best sc v skip (t # tids) best = pick_best sc v skip tids (Some (t, idx t))"
      by (simp add: t assms(2) ok)
    then show ?thesis
      using Cons.IH [OF ts, of "Some (t, idx t)"] least_of_take True by fastforce
  next
    case False
    then have "pick_best sc v skip (t # tids) best = pick_best sc v skip tids best"
      by (auto simp: t assms(2) ok)
    then show ?thesis
      using Cons.IH [OF ts, of best] least_of_skip [of ok idx "set tids" best _ t] False by auto
  qed
qed

lemma make_rev_prio_map_index:
  assumes "set tids \<subseteq> set p"
  shows "\<exists>d. make_rev_prio_map tids (map PTask p) = Inr d \<and> (\<forall>t \<in> set tids. dget d t = index_of t p)"
  using assms
proof (induction tids rule: rev_induct)
  case Nil
  then show ?case by (simp add: make_rev_prio_map_def)
next
  case (snoc t tids)
  then obtain d where d: "make_rev_prio_map tids (map PTask p) = Inr d" "\<forall>t \<in> set tids. dget d t = index_of t p"
    by auto
  have io: "index_of (PTask t) (map PTask p) = index_of t p" by (induction p) auto
  obtain i where i: "index_of t p = Some i" using snoc.prems index_of_mem [of t p] by auto
  have "make_rev_prio_map (tids @ [t]) (map PTask p) = Inr (dset t i d)"
    using d(1) io i by (simp add: make_rev_prio_map_def foldE_append)
  then show ?case using d(2) i by (auto simp: dict_simps)
qed

lemma choose_best_least:
  assumes ok: "scheduler_ok v p sc" and sub: "set buildable \<subseteq> set p"
    and lim: "\<And>k. limit_reached (sc_skip_maxthread sc) skip k = Inr (full k)"
  shows "\<exists>b sc'. choose_best sc v skip buildable = (Inr (map_option fst b), sc') \<and> scheduler_ok v p sc' \<and>
    (\<exists>m. sc' = sc\<lparr>sc_rev_prio_map := m\<rparr>) \<and>
    least_of (\<lambda>t. the (dget (sc_stamps sc) t) \<notin> set (rv_build_stamps v) \<and> \<not> full (kind t))
      (\<lambda>t. the (index_of t p)) (set buildable) None b"
proof -
  have so: "sc_prio_map sc = map PTask p" "distinct p" "set p = set (rv_runtasks v)"
    "\<forall>t \<in> set p. has_kind t \<and> dhas (sc_stamps sc) t" "set (sc_buildable sc) \<subseteq> set p"
    using ok unfolding scheduler_ok_def by blast+
  obtain d where d: "make_rev_prio_map (rv_runtasks v) (map PTask p) = Inr d"
    "\<forall>t \<in> set (rv_runtasks v). dget d t = index_of t p"
    using make_rev_prio_map_index [of "rv_runtasks v" p] so(3) by auto
  obtain m where m: "(if sc_rev_prio_map sc = [] then make_rev_prio_map (rv_runtasks v) (sc_prio_map sc)
      else Inr (sc_rev_prio_map sc)) = Inr m" "\<forall>t \<in> set p. dget m t = index_of t p"
    using ok d so(1,3) unfolding scheduler_ok_def by (cases "sc_rev_prio_map sc = []") auto
  let ?sc = "sc\<lparr>sc_rev_prio_map := m\<rparr>"
  have run: "choose_best sc v skip buildable =
      (bindE (pick_best ?sc v skip buildable None) (\<lambda>best. Inr (map_option fst best)), ?sc)"
    by (simp add: choose_best_def m(1) Let_def)
  have ok': "scheduler_ok v p ?sc" using ok m(2) unfolding scheduler_ok_def by auto
  have "\<forall>t \<in> set buildable. has_kind t \<and> dhas (sc_stamps ?sc) t \<and>
      dget (sc_rev_prio_map ?sc) t = Some (the (index_of t p))"
    using so(4) m(2) sub index_of_mem [of _ p] by (simp add: subset_iff)
  from pick_best_least [OF this, of skip full "\<lambda>t. the (dget (sc_stamps ?sc) t) \<notin> set (rv_build_stamps v)
      \<and> \<not> full (kind t)" v None] lim
  obtain b where "pick_best ?sc v skip buildable None = Inr b"
    "least_of (\<lambda>t. the (dget (sc_stamps ?sc) t) \<notin> set (rv_build_stamps v) \<and> \<not> full (kind t))
      (\<lambda>t. the (index_of t p)) (set buildable) None b"
    by auto
  with run ok' show ?thesis by auto
qed

definition most_important :: "rqview \<Rightarrow> string list \<Rightarrow> scheduler \<Rightarrow> string option \<Rightarrow> bool" where
  "most_important v p sc r \<longleftrightarrow>
     (case r of
        None \<Rightarrow> \<forall>t. \<not> may_start v sc t
      | Some t \<Rightarrow> may_start v sc t \<and> (\<forall>u. may_start v sc u \<longrightarrow> the (index_of t p) \<le> the (index_of u p)))"

lemma next_buildable_task_best:
  assumes ok: "scheduler_ok v p sc" and np: "\<not> (rv_active v \<noteq> 0 \<and> rv_pressure v)"
  shows "\<exists>r sc'. next_buildable_task v sc = (Inr r, sc') \<and> scheduler_ok v p sc' \<and> most_important v p sc r"
proof -
  let ?sc = "sc\<lparr>sc_buildable := sdiff (sc_buildable sc) (rv_running v)\<rparr>"
  define bl where "bl = sinter (sdiff (sc_buildable ?sc) (rv_holdoff v)) (rv_covered v @ rv_notcovered v)"
  have ok1: "scheduler_ok v p ?sc" using ok unfolding scheduler_ok_def by auto
  have bl: "t \<in> set bl \<longleftrightarrow> t \<in> set (sc_buildable sc) \<and> t \<notin> set (rv_running v) \<and> t \<notin> set (rv_holdoff v) \<and>
     t \<in> set (rv_covered v) \<union> set (rv_notcovered v)" for t
    by (auto simp: bl_def)
  have sub: "set bl \<subseteq> set p" using ok bl unfolding scheduler_ok_def by blast
  have lc: "limits_cached v (sc_skip_maxthread sc)" "limits_ok v" "\<forall>t \<in> set (rv_running v). has_kind t"
    using ok unfolding scheduler_ok_def by blast+
  then have "\<forall>t \<in> set (sdiff (rv_running v) (rv_complete v)). has_kind t" by simp
  from count_running_result [OF this lc(1), of "[]"] obtain m skip where
    cr: "count_running v (sdiff (rv_running v) (rv_complete v)) (sc_skip_maxthread ?sc) [] = Inr (m, skip)"
    "limits_cached v m" "\<forall>t \<in> kind ` set (sdiff (rv_running v) (rv_complete v)). dhas m t"
    "\<forall>k. dget skip k = counted v (sdiff (rv_running v) (rv_complete v)) [] k" by auto
  have lr: "limit_reached m skip k = Inr (kind_full v k)" for k
    using limit_reached_full [OF lc(2) cr(2,3)] cr(4)
    by (simp add: counted_def of_kind_def running_of_def dget_default_def)
  let ?sc2 = "?sc\<lparr>sc_skip_maxthread := m\<rparr>"
  have ok2: "scheduler_ok v p ?sc2" using ok1 cr(2) unfolding scheduler_ok_def by auto
  define acc where "acc t \<longleftrightarrow> the (dget (sc_stamps sc) t) \<notin> set (rv_build_stamps v) \<and> \<not> kind_full v (kind t)" for t
  have ms: "may_start v sc t \<longleftrightarrow> t \<in> set bl \<and> acc t" for t
    using bl by (auto simp: may_start_def acc_def)
  have found: "most_important v p sc (map_option fst b)"
    if "least_of acc (\<lambda>t. the (index_of t p)) (set bl) None b" for b
    using that by (cases b) (auto simp: least_of_def most_important_def ms)
  have cb: "\<exists>b sc'. choose_best ?sc2 v skip xs = (Inr (map_option fst b), sc') \<and> scheduler_ok v p sc' \<and>
      least_of acc (\<lambda>t. the (index_of t p)) (set xs) None b" if "set xs \<subseteq> set p" for xs
    using choose_best_least [OF ok2 that, of skip "kind_full v"] lr unfolding acc_def by auto
  have start: "next_buildable_task v sc =
    (if bl = [] then (Inr None, ?sc)
     else case bl of
       [tid] \<Rightarrow>
         (case bindE (taskname_from_tid tid) (limit_reached m skip) of
            Inl x \<Rightarrow> (Inl x, ?sc2)
          | Inr True \<Rightarrow> (Inr None, ?sc2)
          | Inr False \<Rightarrow>
              (case dindex (sc_stamps ?sc2) tid of
                 Inl x \<Rightarrow> (Inl x, ?sc2)
               | Inr stamp \<Rightarrow>
                   if stamp \<notin> set (rv_build_stamps v) then (Inr (Some tid), ?sc2)
                   else choose_best ?sc2 v skip []))
     | _ \<Rightarrow> choose_best ?sc2 v skip bl)"
    using np cr(1) by (auto simp: next_buildable_task_def Let_def bl_def split: list.splits)
  have tk: "\<forall>t \<in> set p. has_kind t \<and> dhas (sc_stamps sc) t" using ok unfolding scheduler_ok_def by blast
  consider "bl = []" | tid where "bl = [tid]" | a b xs where "bl = a # b # xs"
    by (cases bl; cases "tl bl") auto
  then show ?thesis
  proof cases
    case 1
    then show ?thesis using start ok1 ms by (auto simp: most_important_def)
  next
    case 2
    then have t: "taskname_from_tid tid = Inr (kind tid)" "dindex (sc_stamps sc) tid = Inr (the (dget (sc_stamps sc) tid))"
      using tk 2 sub taskname_kind by (auto simp: dindex_def dhas_iff)
    show ?thesis
    proof (cases "acc tid")
      case True
      then have "next_buildable_task v sc = (Inr (Some tid), ?sc2)"
        using start 2 t lr by (simp add: acc_def)
      then show ?thesis using ok2 ms 2 True by (auto simp: most_important_def)
    next
      case False
      have none: "most_important v p sc None" using ms 2 False by (auto simp: most_important_def)
      show ?thesis
      proof (cases "kind_full v (kind tid)")
        case True
        then have "next_buildable_task v sc = (Inr None, ?sc2)" using start 2 t lr by simp
        then show ?thesis using ok2 none by blast
      next
        case notfull: False
        then have run: "next_buildable_task v sc = choose_best ?sc2 v skip []"
          using start 2 t lr False by (simp add: acc_def)
        obtain b sc' where b: "choose_best ?sc2 v skip [] = (Inr (map_option fst b), sc')" "scheduler_ok v p sc'"
          "least_of acc (\<lambda>t. the (index_of t p)) (set []) None b"
          using cb [of "[]"] by auto
        from b(3) have "b = None" by (cases b) (auto simp: least_of_def)
        then show ?thesis using run b none by auto
      qed
    qed
  next
    case 3
    then have run: "next_buildable_task v sc = choose_best ?sc2 v skip bl" using start by simp
    show ?thesis unfolding run using cb [OF sub] found by blast
  qed
qed

section \<open>Properties\<close>

text \<open>The speed scheduler orders the tasks by decreasing weight; among tasks of one weight the
  one added last comes first.\<close>

theorem speed_prio_map_order:
  "speed_prio_map weight tids = rev (sort_key weight tids)"
  by (rule speed_prio_map_sort)

text \<open>C16. The completion scheduler reorders the map of the speed scheduler by kind of task: it
  lists every task once, the tasks of one kind together and in the order of the speed scheduler.\<close>

theorem completion_prio_map_order:
  assumes "\<forall>t \<in> set tids. has_kind t"
  shows "\<exists>p ks. completion_prio_map weight tids = Inr p \<and> mset p = mset tids \<and>
    distinct ks \<and> set ks = kind ` set tids \<and>
    p = concat (map (\<lambda>k. filter (\<lambda>t. kind t = k) (speed_prio_map weight tids)) ks)"
proof -
  obtain p where "completion_prio_map weight tids = Inr p" "mset p = mset tids"
    using completion.makes [OF assms] by blast
  moreover have "p = concat (map (\<lambda>k. filter (\<lambda>t. kind t = k) (speed_prio_map weight tids))
      (kinds_in_order weight tids))"
    using calculation(1) completion_prio_map_groups [OF assms, of weight] by simp
  ultimately show ?thesis using kinds_in_order_set [OF assms, of weight] by blast
qed

lemma completion_prio_map_order_witness:
  "\<exists>p. completion_prio_map (\<lambda>_. 1) [''a:do_fetch'', ''b:do_fetch'', ''a:do_build''] = Inr p \<and>
     mset p = mset [''a:do_fetch'', ''b:do_fetch'', ''a:do_build'']"
proof -
  have "\<forall>t \<in> set [''a:do_fetch'', ''b:do_fetch'', ''a:do_build'']. has_kind t" by code_simp
  from completion_prio_map_order [OF this, of "\<lambda>_. 1"] show ?thesis by blast
qed

lemma scheduler_init_ok:
  assumes "distinct p" and "set p = set tids" and "\<forall>t \<in> set tids. has_kind t"
    and "rv_runtasks v = tids" and "\<forall>t \<in> set (rv_running v). has_kind t" and "limits_ok v"
  shows "scheduler_ok v p (scheduler_init (map PTask p) stampfile tids runq_buildable)"
  using assms
  by (auto simp: scheduler_ok_def scheduler_init_def dhas_def limits_cached_def image_iff)

text \<open>C15. With the priority map of the speed or of the completion scheduler, a new scheduler finds
  the next task, unless the pressure on the system is too high: the task may start (it is buildable,
  not running, not held off, its setscene decision is taken, no task with its stamp runs and the
  limit of its kind is not reached) and it is the first such task in the map; without a task there
  is none that may start. The scheduler stays consistent, so this holds of later calls too.\<close>

theorem scheduler_finds_most_important:
  assumes "Inr p = completion_prio_map weight tids \<or> p = speed_prio_map weight tids"
    and "distinct tids" and "\<forall>t \<in> set tids. has_kind t" and "rv_runtasks v = tids"
    and "\<forall>t \<in> set (rv_running v). has_kind t" and "limits_ok v" and "\<not> (rv_active v \<noteq> 0 \<and> rv_pressure v)"
    and "sc = scheduler_init (map PTask p) stampfile tids runq_buildable"
  shows "\<exists>r sc'. next_buildable_task v sc = (Inr r, sc') \<and> scheduler_ok v p sc' \<and> most_important v p sc r"
proof -
  have "distinct p \<and> set p = set tids"
    using speed.makes_distinct [OF assms(3,2), of weight] completion.makes_distinct [OF assms(3,2), of weight]
      assms(1) by auto
  then have "scheduler_ok v p sc" unfolding assms(8) using scheduler_init_ok assms(3-6) by blast
  then show ?thesis using next_buildable_task_best assms(7) by blast
qed

definition sample_view :: rqview where
  "sample_view = \<lparr>rv_runtasks = [''a:do_fetch'', ''b:do_fetch'', ''a:do_build''], rv_running = [], rv_complete = [],
     rv_holdoff = [], rv_covered = [], rv_notcovered = [''a:do_fetch'', ''b:do_fetch''], rv_build_stamps = [],
     rv_active = 0, rv_number_threads = (\<lambda>_. None), rv_pressure = True, rv_can_start = True\<rparr>"

definition sample_scheduler :: scheduler where
  "sample_scheduler = scheduler_init (map PTask (speed_prio_map (\<lambda>_. 1) [''a:do_fetch'', ''b:do_fetch'', ''a:do_build'']))
     (\<lambda>t. t) [''a:do_fetch'', ''b:do_fetch'', ''a:do_build''] [''a:do_fetch'', ''b:do_fetch'']"

lemma scheduler_finds_most_important_witness:
  "\<exists>r sc'. next_buildable_task sample_view sample_scheduler = (Inr r, sc') \<and>
     most_important sample_view (speed_prio_map (\<lambda>_. 1) [''a:do_fetch'', ''b:do_fetch'', ''a:do_build''])
       sample_scheduler r"
proof -
  let ?tids = "[''a:do_fetch'', ''b:do_fetch'', ''a:do_build'']"
  have k: "\<forall>t \<in> set ?tids. has_kind t" by code_simp
  have v: "rv_runtasks sample_view = ?tids" "\<forall>t \<in> set (rv_running sample_view). has_kind t"
    "limits_ok sample_view" "\<not> (rv_active sample_view \<noteq> 0 \<and> rv_pressure sample_view)"
    by (simp_all add: sample_view_def limits_ok_def)
  have d: "distinct ?tids" by simp
  from scheduler_finds_most_important [OF disjI2 [OF refl] d k v sample_scheduler_def]
  show ?thesis by blast
qed

text \<open>The basic scheduler cannot choose: its priority map holds the view of the keys instead of
  the keys, so with at least two buildable tasks the search raises ValueError.\<close>

theorem basic_scheduler_raises:
  assumes "rv_runtasks v = t # ts" and "sc_prio_map sc = basic_prio_map (rv_runtasks v)"
    and "sc_rev_prio_map sc = []"
  shows "fst (choose_best sc v skip buildable) = Inl ValueError"
  using assms by (simp add: choose_best_def make_rev_prio_map_def basic_prio_map_def)

lemma basic_scheduler_raises_witness:
  "fst (next_buildable_task sample_view (sample_scheduler\<lparr>sc_prio_map := basic_prio_map (rv_runtasks sample_view)\<rparr>))
     = Inl ValueError"
proof -
  let ?sc = "sample_scheduler\<lparr>sc_prio_map := basic_prio_map (rv_runtasks sample_view)\<rparr>"
  have "next_buildable_task sample_view ?sc = choose_best ?sc sample_view [] [''a:do_fetch'', ''b:do_fetch'']"
    by code_simp
  moreover have "fst (choose_best ?sc sample_view [] [''a:do_fetch'', ''b:do_fetch'']) = Inl ValueError"
    by (rule basic_scheduler_raises [of _ "''a:do_fetch''" "[''b:do_fetch'', ''a:do_build'']"])
      (simp_all add: sample_view_def sample_scheduler_def scheduler_init_def)
  ultimately show ?thesis by simp
qed

end
