(* ===== verification/TaskGraph.thy ===== *)
theory TaskGraph
  imports Scheduler
begin

text \<open>
  The graph of tasks of \<^verbatim>\<open>RunQueueData\<close> in \<^verbatim>\<open>bb/runqueue.py\<close>: the
  entries, and the order in which a wave that starts at the tasks without predecessors visits the
  others. The waves of \<^verbatim>\<open>calculate_task_weights\<close> and of the cumulative dependencies
  in \<^verbatim>\<open>prepare\<close> both follow the locale \<open>layering\<close>.
\<close>

section \<open>Entries\<close>

text \<open>The sets of an entry are lists without duplicates.\<close>

record runtaskentry =
  re_depends :: "string list"
  re_revdeps :: "string list"
  re_hash :: "string option"
  re_unihash :: "string option"
  re_task :: "string option"
  re_weight :: int

definition new_entry :: runtaskentry where
  "new_entry = \<lparr>re_depends = [], re_revdeps = [], re_hash = None, re_unihash = None, re_task = None, re_weight = 1\<rparr>"

type_synonym taskgraph = "(string, runtaskentry) odict"

abbreviation deps_of :: "taskgraph \<Rightarrow> string \<Rightarrow> string list" where
  "deps_of g t \<equiv> re_depends (dget_default g t new_entry)"

abbreviation revs_of :: "taskgraph \<Rightarrow> string \<Rightarrow> string list" where
  "revs_of g t \<equiv> re_revdeps (dget_default g t new_entry)"

definition get_task_hash :: "taskgraph \<Rightarrow> string \<Rightarrow> string option result" where
  "get_task_hash g tid = bindE (dindex g tid) (\<lambda>e. Inr (re_hash e))"

definition get_task_unihash :: "taskgraph \<Rightarrow> string \<Rightarrow> string option result" where
  "get_task_unihash g tid = bindE (dindex g tid) (\<lambda>e. Inr (re_unihash e))"

definition get_user_idstring :: "string \<Rightarrow> string \<Rightarrow> string" where
  "get_user_idstring tid sfx = tid @ sfx"

definition get_short_user_idstring :: "(string, cachedata) odict \<Rightarrow> string \<Rightarrow> string \<Rightarrow> string result" where
  "get_short_user_idstring dataCaches task sfx =
     bindE (split_tid_mcfn task) (\<lambda>(mc, fn, taskname, taskfn).
     bindE (dindex dataCaches mc) (\<lambda>c.
     bindE (dindex (dc_pkg_fn c) taskfn) (\<lambda>pn.
     bindE (taskname_from_tid task) (\<lambda>t. Inr (pn @ '':'' @ t @ sfx)))))"

text \<open>
  The names in a message: the last component of the path, with the part from an underscore to
  the next comma replaced by the comma.
\<close>

lemma length_after_first [termination_simp]: "length (after_first c s) < Suc (length s)"
  unfolding after_first_def using length_dropWhile_le [of "\<lambda>ca. ca \<noteq> c" s]
  by (simp del: length_dropWhile_le)

fun drop_version :: "string \<Rightarrow> string" where
  "drop_version [] = []"
| "drop_version (c # cs) =
     (if c = CHR ''_'' \<and> CHR '','' \<in> set cs then CHR '','' # drop_version (after_first (CHR '','') cs)
      else c # drop_version cs)"

definition basename :: "string \<Rightarrow> string" where
  "basename p = (if CHR ''/'' \<in> set p then after_last (CHR ''/'') p else p)"

definition runq_depends_names :: "string list \<Rightarrow> string list" where
  "runq_depends_names ids = map (\<lambda>i. drop_version (basename i)) ids"

section \<open>Waves over a finite graph\<close>

text \<open>
  An edge \<open>(r, t)\<close> makes \<open>t\<close> wait for \<open>r\<close>. \<open>X\<close> is the set of edges the wave has
  crossed and \<open>D\<close> the set of nodes all of whose incoming edges are crossed.
\<close>

locale layering =
  fixes V :: "'a set" and E :: "('a \<times> 'a) set"
  assumes finite_V: "finite V" and edges_V: "E \<subseteq> V \<times> V"
begin

definition entered :: "('a \<times> 'a) set \<Rightarrow> 'a set" where
  "entered X = {t \<in> V. \<forall>r. (r, t) \<in> E \<longrightarrow> (r, t) \<in> X}"

definition looped :: "'a set" where
  "looped = {t \<in> V. \<exists>c. (c, c) \<in> E\<^sup>+ \<and> (c, t) \<in> E\<^sup>*}"

definition wave :: "'a set \<Rightarrow> ('a \<times> 'a) set \<Rightarrow> bool" where
  "wave D X \<longleftrightarrow> D = entered X \<and> X \<subseteq> {(r, t) \<in> E. r \<in> D} \<and> D \<inter> looped = {}"

lemma finite_E: "finite E"
  using finite_V edges_V finite_subset by fastforce

lemma looped_pred:
  assumes "t \<in> looped"
  shows "\<exists>r. (r, t) \<in> E \<and> r \<in> looped"
proof -
  from assms obtain c where c: "(c, c) \<in> E\<^sup>+" "(c, t) \<in> E\<^sup>*" by (auto simp: looped_def)
  have "(c, t) \<in> E\<^sup>+" using c by (cases "c = t") (auto simp: rtrancl_eq_or_trancl)
  then obtain r where r: "(c, r) \<in> E\<^sup>*" "(r, t) \<in> E" by (meson tranclD2)
  with c(1) edges_V show ?thesis by (auto simp: looped_def)
qed

lemma not_looped_start: "t \<in> V \<Longrightarrow> (\<And>r. (r, t) \<notin> E) \<Longrightarrow> t \<notin> looped"
  using looped_pred by blast

lemma wave_start: "wave {t \<in> V. \<forall>r. (r, t) \<notin> E} {}"
  unfolding wave_def entered_def using not_looped_start by auto

lemma wave_D: "wave D X \<Longrightarrow> D \<subseteq> V" "wave D X \<Longrightarrow> X \<subseteq> E" "wave D X \<Longrightarrow> (r, t) \<in> X \<Longrightarrow> r \<in> D"
  by (auto simp: wave_def entered_def)

lemma wave_target: "wave D X \<Longrightarrow> (r, t) \<in> E \<Longrightarrow> (r, t) \<notin> X \<Longrightarrow> t \<notin> D"
  by (auto simp: wave_def entered_def)

lemma wave_done: "wave D X \<Longrightarrow> t \<in> D \<Longrightarrow> (r, t) \<in> E \<Longrightarrow> (r, t) \<in> X"
  by (auto simp: wave_def entered_def)

lemma wave_step:
  assumes w: "wave D X" and e: "r \<in> D" "(r, t) \<in> E"
  shows "wave (if t \<in> entered (insert (r, t) X) then insert t D else D) (insert (r, t) X)"
proof -
  let ?X = "insert (r, t) X"
  have D: "D = entered X" "X \<subseteq> {(r, t) \<in> E. r \<in> D}" "D \<inter> looped = {}"
    using w by (auto simp: wave_def)
  have eq: "entered ?X = (if t \<in> entered ?X then insert t D else D)"
    unfolding D(1) by (auto simp: entered_def)
  have "t \<notin> looped" if "t \<in> entered ?X"
  proof
    assume "t \<in> looped"
    then obtain q where q: "(q, t) \<in> E" "q \<in> looped" using looped_pred by blast
    then have "(q, t) \<in> ?X" using that by (auto simp: entered_def)
    with D(2) e have "q \<in> D" by auto
    with q D(3) show False by blast
  qed
  then show ?thesis unfolding wave_def using eq D e by (auto split: if_splits)
qed

text \<open>When all edges out of the entered nodes are crossed, the nodes not entered are those behind a cycle.\<close>

lemma back_to_cycle:
  assumes "t \<in> U" and "finite U" and "\<And>u. u \<in> U \<Longrightarrow> \<exists>r \<in> U. (r, u) \<in> E"
  shows "\<exists>c. (c, c) \<in> E\<^sup>+ \<and> (c, t) \<in> E\<^sup>*"
proof (rule ccontr)
  assume none: "\<not> ?thesis"
  define P where "P = {r \<in> U. (r, t) \<in> E\<^sup>*}"
  have "acyclic (E \<inter> P \<times> P)"
  proof (rule acyclicI, intro allI notI)
    fix c assume c: "(c, c) \<in> (E \<inter> P \<times> P)\<^sup>+"
    then have "(c, c) \<in> E\<^sup>+" by (rule trancl_mono) auto
    moreover have "c \<in> P" using c by (auto dest: tranclD)
    ultimately show False using none by (auto simp: P_def)
  qed
  moreover have "finite (E \<inter> P \<times> P)" using assms(2) by (auto simp: P_def)
  ultimately have "wf (E \<inter> P \<times> P)" by (rule finite_acyclic_wf [rotated])
  moreover have "t \<in> P" using assms(1) by (simp add: P_def)
  ultimately obtain m where m: "m \<in> P" "\<And>y. (y, m) \<in> E \<inter> P \<times> P \<Longrightarrow> y \<notin> P"
    using wfE_min by metis
  then obtain r where "r \<in> U" "(r, m) \<in> E" using assms(3) by (auto simp: P_def)
  with m show False by (auto simp: P_def intro: converse_rtrancl_into_rtrancl)
qed

lemma wave_end:
  assumes w: "wave D X" and X: "X = {(r, t) \<in> E. r \<in> D}"
  shows "D = V - looped"
proof
  show "D \<subseteq> V - looped" using w by (auto simp: wave_def entered_def)
  show "V - looped \<subseteq> D"
  proof
    fix t assume t: "t \<in> V - looped"
    show "t \<in> D"
    proof (rule ccontr)
      assume "t \<notin> D"
      have "\<exists>r \<in> V - D. (r, u) \<in> E" if "u \<in> V - D" for u
        using that w X edges_V by (fastforce simp: wave_def entered_def)
      with \<open>t \<notin> D\<close> t finite_V have "\<exists>c. (c, c) \<in> E\<^sup>+ \<and> (c, t) \<in> E\<^sup>*"
        by (intro back_to_cycle [of t "V - D"]) auto
      with t show False by (auto simp: looped_def)
    qed
  qed
qed

lemma looped_empty: "looped = {} \<longleftrightarrow> acyclic E"
proof
  assume none: "looped = {}"
  show "acyclic E"
  proof (rule acyclicI, intro allI notI)
    fix c assume c: "(c, c) \<in> E\<^sup>+"
    then obtain d where "(c, d) \<in> E" by (meson tranclD)
    with c edges_V have "c \<in> looped" by (auto simp: looped_def)
    with none show False by simp
  qed
qed (auto simp: looped_def acyclic_def)

end

text \<open>
  The rounds of such a wave: every node of a list is expanded, each edge out of it is visited once, and
  the nodes entered form the next list. \<open>inv\<close> relates the state of the loop to the wave; \<open>good\<close> is
  what the caller knows of the graph.
\<close>

locale wave_run = layering V E for V :: "'a set" and E :: "('a \<times> 'a) set" +
  fixes good :: bool
    and succs :: "'a \<Rightarrow> 'a list"
    and visit :: "'a \<Rightarrow> 'a \<Rightarrow> 's \<times> 'a list \<Rightarrow> ('s \<times> 'a list) result"
    and inv :: "'s \<Rightarrow> 'a set \<Rightarrow> ('a \<times> 'a) set \<Rightarrow> bool"
  assumes succs: "good \<Longrightarrow> r \<in> V \<Longrightarrow> distinct (succs r) \<and> set (succs r) = {t. (r, t) \<in> E}"
    and visit: "good \<Longrightarrow> wave D X \<Longrightarrow> inv s D X \<Longrightarrow> r \<in> D \<Longrightarrow> (r, t) \<in> E - X \<Longrightarrow> set nx \<subseteq> D \<Longrightarrow>
      \<exists>s'. visit r t (s, nx) = Inr (s', nx @ (if t \<in> entered (insert (r, t) X) then [t] else [])) \<and>
        inv s' (if t \<in> entered (insert (r, t) X) then insert t D else D) (insert (r, t) X)"
begin

definition expand :: "'a \<Rightarrow> 's \<times> 'a list \<Rightarrow> ('s \<times> 'a list) result" where
  "expand r = foldE (visit r) (succs r)"

definition frontier :: "'s \<Rightarrow> 'a set \<Rightarrow> 'a list \<Rightarrow> bool" where
  "frontier s D pend \<longleftrightarrow> wave D {(r, t) \<in> E. r \<in> D - set pend} \<and> inv s D {(r, t) \<in> E. r \<in> D - set pend} \<and>
     distinct pend \<and> set pend \<subseteq> D"

lemma visit_all:
  assumes "good" and "wave D X" and "inv s D X" and "r \<in> D" and "distinct ts" and "set ts \<subseteq> {t. (r, t) \<in> E}"
    and "\<forall>t \<in> set ts. (r, t) \<notin> X" and "set nx \<subseteq> D"
  shows "\<exists>s' new. foldE (visit r) ts (s, nx) = Inr (s', nx @ new) \<and> wave (D \<union> set new) (X \<union> {r} \<times> set ts) \<and>
     inv s' (D \<union> set new) (X \<union> {r} \<times> set ts) \<and> distinct new \<and> set new \<inter> D = {}"
  using assms
proof (induction ts arbitrary: s D X nx)
  case Nil
  then have "foldE (visit r) [] (s, nx) = Inr (s, nx @ []) \<and> wave (D \<union> set []) (X \<union> {r} \<times> set []) \<and>
     inv s (D \<union> set []) (X \<union> {r} \<times> set [])" by simp
  then show ?case by (intro exI [of _ s] exI [of _ "[]"]) simp
next
  case (Cons t ts)
  define X' where "X' = insert (r, t) X"
  define new1 where "new1 = (if t \<in> entered X' then [t] else [])"
  have e: "(r, t) \<in> E - X" using Cons.prems(6,7) by simp
  have D1: "(if t \<in> entered X' then insert t D else D) = D \<union> set new1" by (simp add: new1_def)
  have wv: "wave (D \<union> set new1) X'"
    using wave_step [OF Cons.prems(2,4), of t] e unfolding X'_def [symmetric] D1 by simp
  from visit [OF Cons.prems(1-4) e Cons.prems(8)] obtain s1 where
    s1: "visit r t (s, nx) = Inr (s1, nx @ new1)" "inv s1 (D \<union> set new1) X'"
    unfolding X'_def [symmetric] D1 unfolding new1_def [symmetric] by blast
  have tD: "t \<notin> D" using wave_target [OF Cons.prems(2), of r t] e by simp
  have prems: "r \<in> D \<union> set new1" "distinct ts" "set ts \<subseteq> {t. (r, t) \<in> E}"
    "\<forall>t \<in> set ts. (r, t) \<notin> X'" "set (nx @ new1) \<subseteq> D \<union> set new1"
    using Cons.prems by (auto simp: X'_def)
  from Cons.IH [OF Cons.prems(1) wv s1(2) prems] obtain s' new where
    s': "foldE (visit r) ts (s1, nx @ new1) = Inr (s', (nx @ new1) @ new)"
    "wave (D \<union> set new1 \<union> set new) (X' \<union> {r} \<times> set ts)" "inv s' (D \<union> set new1 \<union> set new) (X' \<union> {r} \<times> set ts)"
    "distinct new" "set new \<inter> (D \<union> set new1) = {}" by blast
  have X: "X' \<union> {r} \<times> set ts = X \<union> {r} \<times> set (t # ts)" by (auto simp: X'_def)
  have D: "D \<union> set new1 \<union> set new = D \<union> set (new1 @ new)" by auto
  have "foldE (visit r) (t # ts) (s, nx) = Inr (s', nx @ (new1 @ new))" using s1(1) s'(1) by simp
  moreover have "distinct (new1 @ new)" "set (new1 @ new) \<inter> D = {}"
    using s'(4,5) tD by (auto simp: new1_def)
  ultimately show ?case using s'(2,3) unfolding X D by blast
qed

lemma expand_frontier:
  assumes g: "good" and f: "frontier s D (r # pend @ nx)"
  shows "\<exists>s' new. expand r (s, nx) = Inr (s', nx @ new) \<and> frontier s' (D \<union> set new) (pend @ nx @ new) \<and>
    set new \<inter> D = {}"
proof -
  let ?X = "{(q, t) \<in> E. q \<in> D - set (r # pend @ nx)}"
  have wv: "wave D ?X" and inv: "inv s D ?X" and d: "distinct (r # pend @ nx)" "set (r # pend @ nx) \<subseteq> D"
    using f by (auto simp: frontier_def)
  have "r \<in> V" using d wave_D(1) [OF wv] by auto
  note sc = succs [OF g this]
  from visit_all [OF g wv inv, of r "succs r" nx] d sc obtain s' new where
    s': "foldE (visit r) (succs r) (s, nx) = Inr (s', nx @ new)"
    "wave (D \<union> set new) (?X \<union> {r} \<times> set (succs r))" "inv s' (D \<union> set new) (?X \<union> {r} \<times> set (succs r))"
    "distinct new" "set new \<inter> D = {}" by auto
  have "?X \<union> {r} \<times> set (succs r) = {(q, t) \<in> E. q \<in> (D \<union> set new) - set (pend @ nx @ new)}"
    using d s'(5) unfolding conjunct2 [OF sc] by auto
  with s' d show ?thesis unfolding frontier_def expand_def
    by (intro exI [of _ s'] exI [of _ new]) auto
qed

lemma round_frontier:
  assumes g: "good" and f: "frontier s D (pend @ nx)"
  shows "\<exists>s' new. foldE expand pend (s, nx) = Inr (s', nx @ new) \<and> frontier s' (D \<union> set new) (nx @ new) \<and>
    set new \<inter> D = {}"
  using f
proof (induction pend arbitrary: s D nx)
  case Nil
  then have "foldE expand [] (s, nx) = Inr (s, nx @ []) \<and> frontier s (D \<union> set []) (nx @ []) \<and> set [] \<inter> D = {}" by simp
  then show ?case by blast
next
  case (Cons r pend)
  from Cons.prems have "frontier s D (r # pend @ nx)" by simp
  from expand_frontier [OF g this] obtain s1 new1 where
    s1: "expand r (s, nx) = Inr (s1, nx @ new1)" "frontier s1 (D \<union> set new1) (pend @ nx @ new1)"
    "set new1 \<inter> D = {}" by blast
  from Cons.IH [OF s1(2)] obtain s' new where
    s': "foldE expand pend (s1, nx @ new1) = Inr (s', (nx @ new1) @ new)"
    "frontier s' (D \<union> set new1 \<union> set new) ((nx @ new1) @ new)" "set new \<inter> (D \<union> set new1) = {}" by blast
  have "foldE expand (r # pend) (s, nx) = Inr (s', nx @ (new1 @ new))" using s1(1) s'(1) by simp
  moreover have "set (new1 @ new) \<inter> D = {}" using s1(3) s'(3) by auto
  moreover have "D \<union> set new1 \<union> set new = D \<union> set (new1 @ new)" by auto
  ultimately show ?case using s'(2) unfolding append_assoc by metis
qed

text \<open>A round that enters new nodes leaves fewer nodes to enter.\<close>

lemma frontier_left: "frontier s (D \<union> set new) pend \<Longrightarrow> set new \<inter> D = {} \<Longrightarrow> new \<noteq> [] \<Longrightarrow>
    card (V - (D \<union> set new)) < card (V - D)"
proof (rule psubset_card_mono)
  assume "frontier s (D \<union> set new) pend" "set new \<inter> D = {}" "new \<noteq> []"
  moreover from this(1) have "set new \<subseteq> V" using wave_D(1) unfolding frontier_def by blast
  moreover from \<open>new \<noteq> []\<close> have "hd new \<in> set new" by simp
  ultimately show "V - (D \<union> set new) \<subset> V - D" by blast
qed (simp add: finite_V)

text \<open>When nothing is pending, everything but the nodes behind a cycle is entered.\<close>

lemma frontier_end:
  assumes "frontier s D []"
  shows "D = V - looped" and "inv s D {(r, t) \<in> E. r \<in> D}"
proof -
  have "wave D {(r, t) \<in> E. r \<in> D}" using assms by (simp add: frontier_def)
  then show "D = V - looped" by (rule wave_end) simp
  show "inv s D {(r, t) \<in> E. r \<in> D}" using assms by (simp add: frontier_def)
qed

end

section \<open>The graph as a layering\<close>

text \<open>An edge from \<open>r\<close> to \<open>t\<close>: \<open>r\<close> depends on \<open>t\<close>, so the wave that starts at the
  final tasks reaches \<open>t\<close> through \<open>r\<close>.\<close>

definition nodes :: "taskgraph \<Rightarrow> string set" where
  "nodes g = set (dkeys g)"

definition edges :: "taskgraph \<Rightarrow> (string \<times> string) set" where
  "edges g = {(r, t). r \<in> nodes g \<and> t \<in> nodes g \<and> t \<in> set (deps_of g r)}"

interpretation down: layering "nodes g" "edges g" for g
  by unfold_locales (auto simp: nodes_def edges_def)

interpretation up: layering "nodes g" "(edges g)\<inverse>" for g
  by unfold_locales (auto simp: nodes_def edges_def)

text \<open>The dependencies of the tasks are tasks of the graph.\<close>

definition deps_ok :: "taskgraph \<Rightarrow> bool" where
  "deps_ok g \<longleftrightarrow> distinct (dkeys g) \<and>
     (\<forall>t \<in> nodes g. distinct (deps_of g t) \<and> set (deps_of g t) \<subseteq> nodes g)"

lemma deps_okD:
  assumes "deps_ok g"
  shows "distinct (dkeys g)" "t \<in> nodes g \<Longrightarrow> distinct (deps_of g t)" "t \<in> nodes g \<Longrightarrow> set (deps_of g t) \<subseteq> nodes g"
    "r \<in> nodes g \<Longrightarrow> set (deps_of g r) = {t. (r, t) \<in> edges g}"
  using assms by (auto simp: deps_ok_def edges_def)

text \<open>The two directions of the graph agree and mention only its tasks.\<close>

definition consistent :: "taskgraph \<Rightarrow> bool" where
  "consistent g \<longleftrightarrow> distinct (dkeys g) \<and>
     (\<forall>t \<in> nodes g. distinct (deps_of g t) \<and> distinct (revs_of g t) \<and>
        set (deps_of g t) \<subseteq> nodes g \<and> set (revs_of g t) = {r \<in> nodes g. t \<in> set (deps_of g r)})"

lemma consistentD:
  assumes "consistent g"
  shows "distinct (dkeys g)" "t \<in> nodes g \<Longrightarrow> distinct (deps_of g t)" "t \<in> nodes g \<Longrightarrow> distinct (revs_of g t)"
    "t \<in> nodes g \<Longrightarrow> set (deps_of g t) \<subseteq> nodes g"
    "t \<in> nodes g \<Longrightarrow> set (revs_of g t) = {r. (r, t) \<in> edges g}"
    "r \<in> nodes g \<Longrightarrow> set (deps_of g r) = {t. (r, t) \<in> edges g}"
  using assms by (auto simp: consistent_def edges_def)

lemma consistent_deps_ok: "consistent g \<Longrightarrow> deps_ok g"
  by (simp add: consistent_def deps_ok_def)

lemma nodes_has: "t \<in> nodes g \<longleftrightarrow> dhas g t"
  by (simp add: nodes_def dhas_def)

lemma dindex_node: "t \<in> nodes g \<Longrightarrow> dindex g t = Inr (dget_default g t new_entry)"
  by (auto simp: nodes_has dhas_iff dindex_def)

end
