(* ===== verification/Weights.thy ===== *)
theory Weights
  imports TaskGraph
begin

text \<open>
  The weights of the tasks and the report of dependency loops:
  \<^verbatim>\<open>calculate_task_weights\<close> and \<^verbatim>\<open>circular_depchains_handler\<close> of
  \<^verbatim>\<open>RunQueueData\<close> in \<^verbatim>\<open>bb/runqueue.py\<close>.
\<close>

section \<open>The search for dependency loops\<close>

text \<open>The lines of the report; \<open>LoopFound\<close> carries the number of the loop.\<close>

datatype loop_msg = LoopFound nat | LoopTask string "string list" | LoopEnd | LoopHalted

definition chain_reorder :: "string list \<Rightarrow> string list" where
  "chain_reorder chain =
     (let lowest = fold (\<lambda>entry lowest. if chain ! entry < chain ! lowest then entry else lowest)
                     [0..<length chain] 0
      in drop lowest chain @ take lowest chain)"

definition chain_compare_equal :: "string list \<Rightarrow> string list \<Rightarrow> bool" where
  "chain_compare_equal chain1 chain2 \<longleftrightarrow>
     length chain1 = length chain2 \<and> (\<forall>i \<in> set [0..<length chain1]. chain1 ! i = chain2 ! i)"

definition chain_array_contains :: "string list \<Rightarrow> string list list \<Rightarrow> bool" where
  "chain_array_contains chain chain_array \<longleftrightarrow> (\<exists>ch \<in> set chain_array. chain_compare_equal ch chain)"

text \<open>
  The state of the search. \<open>ch_halted\<close> says that the exception
  \<^verbatim>\<open>TooManyLoops\<close> is on its way to the handler.
\<close>

record chains =
  ch_valid :: "string list list"
  ch_explored :: "(string, string list) odict"
  ch_msgs :: "loop_msg list"
  ch_halted :: bool

definition report_chain :: "taskgraph \<Rightarrow> string list \<Rightarrow> chains \<Rightarrow> chains result" where
  "report_chain g new_chain c =
     (if chain_array_contains new_chain (ch_valid c) then Inr c
      else let valid = ch_valid c @ [new_chain]
           in bindE (foldE (\<lambda>dep ms. bindE (dindex g dep) (\<lambda>e.
                        Inr (ms @ [LoopTask dep (runq_depends_names (re_depends e))])))
                      new_chain (ch_msgs c @ [LoopFound (length valid)]))
                (\<lambda>ms. Inr (c\<lparr>ch_valid := valid, ch_msgs := ms @ [LoopEnd]\<rparr>)))"

definition halt_search :: "chains \<Rightarrow> chains" where
  "halt_search c =
     (if length (ch_valid c) > 10 then c\<lparr>ch_msgs := ch_msgs c @ [LoopHalted], ch_halted := True\<rparr> else c)"

text \<open>Whether an explored task must be scanned again under the chain.\<close>

definition must_scan :: "string \<Rightarrow> string list \<Rightarrow> chains \<Rightarrow> bool" where
  "must_scan revdep prev_chain c =
     (case dget (ch_explored c) revdep of
        None \<Rightarrow> True
      | Some deps \<Rightarrow> revdep \<in> set deps \<or> (\<exists>dep \<in> set prev_chain. dep \<in> set deps))"

definition merge_deps :: "string list \<Rightarrow> string list \<Rightarrow> string list" where
  "merge_deps total_deps deps = fold (\<lambda>dep ds. if dep \<in> set ds then ds else ds @ [dep]) deps total_deps"

text \<open>The tasks a chain can still grow by.\<close>

definition open_tasks :: "taskgraph \<Rightarrow> string list \<Rightarrow> nat" where
  "open_tasks g chain = card (nodes g - set chain)"

lemma open_tasks_less: "t \<in> nodes g \<Longrightarrow> t \<notin> set chain \<Longrightarrow> open_tasks g (chain @ [t]) < open_tasks g chain"
  unfolding open_tasks_def by (rule psubset_card_mono) (auto simp: nodes_def)

definition chains_measure ::
  "taskgraph \<times> string \<times> string list \<times> chains + taskgraph \<times> string list \<times> string list \<times> string list \<times> chains \<Rightarrow> nat \<times> nat" where
  "chains_measure x = (case x of
       Inl (g, tid, chain, c) \<Rightarrow>
         (case dget g tid of None \<Rightarrow> (0, 0) | Some e \<Rightarrow> (open_tasks g (chain @ [tid]), Suc (length (re_revdeps e))))
     | Inr (g, chain, revdeps, ds, c) \<Rightarrow> (open_tasks g chain, length revdeps))"

text \<open>
  \<^verbatim>\<open>find_chains\<close> and its loop over the reverse dependencies. The list \<open>prev_chain\<close> of a
  call holds distinct tasks, so the depth of the calls is bounded by the number of tasks.
\<close>

function (sequential)
  find_chains :: "taskgraph \<Rightarrow> string \<Rightarrow> string list \<Rightarrow> chains \<Rightarrow> chains result" and
  chains_loop :: "taskgraph \<Rightarrow> string list \<Rightarrow> string list \<Rightarrow> string list \<Rightarrow> chains \<Rightarrow> (string list \<times> chains) result" where
  "find_chains g tid chain c =
     (case dget g tid of
        None \<Rightarrow> Inl (KeyError tid)
      | Some e \<Rightarrow>
          bindE (chains_loop g (chain @ [tid]) (re_revdeps e) (re_revdeps e) c) (\<lambda>(total_deps, c).
          Inr (if ch_halted c then c else c\<lparr>ch_explored := dset tid total_deps (ch_explored c)\<rparr>)))"
| "chains_loop g prev_chain [] total_deps c = Inr (total_deps, c)"
| "chains_loop g prev_chain (revdep # revdeps) total_deps c =
     (if revdep \<in> set prev_chain
      then bindE (report_chain g (chain_reorder (dropWhile (\<lambda>x. x \<noteq> revdep) prev_chain)) c) (\<lambda>c.
             let c = halt_search c
             in if ch_halted c then Inr (total_deps, c) else chains_loop g prev_chain revdeps total_deps c)
      else bindE (if must_scan revdep prev_chain c then find_chains g revdep prev_chain c else Inr c) (\<lambda>c.
             if ch_halted c then Inr (total_deps, c)
             else bindE (dindex (ch_explored c) revdep) (\<lambda>deps.
                    chains_loop g prev_chain revdeps (merge_deps total_deps deps) c)))"
  by pat_completeness auto

termination
proof (relation "inv_image (less_than <*lex*> less_than) chains_measure", goal_cases)
  case 1
  show ?case by auto
next
  case (2 g tid chain c e)
  then show ?case by (simp add: chains_measure_def)
next
  case (3 g prev_chain revdep revdeps total_deps c d e)
  then show ?case by (simp add: chains_measure_def)
next
  case (4 g prev_chain revdep revdeps total_deps c)
  then have "open_tasks g (prev_chain @ [revdep]) < open_tasks g prev_chain" if "dget g revdep = Some e" for e
    using that by (intro open_tasks_less) (auto simp: nodes_has dhas_iff)
  then show ?case by (auto simp: chains_measure_def split: option.splits)
next
  case (5 g prev_chain revdep revdeps total_deps c x deps)
  then show ?case by (simp add: chains_measure_def)
qed

definition no_chains :: chains where
  "no_chains = \<lparr>ch_valid = [], ch_explored = [], ch_msgs = [], ch_halted = False\<rparr>"

definition search_chains :: "taskgraph \<Rightarrow> string list \<Rightarrow> chains result" where
  "search_chains g tasks =
     foldE (\<lambda>task c. if ch_halted c then Inr c else find_chains g task [] c) tasks no_chains"

definition circular_depchains_handler :: "taskgraph \<Rightarrow> string list \<Rightarrow> loop_msg list result" where
  "circular_depchains_handler g tasks = bindE (search_chains g tasks) (\<lambda>c. Inr (ch_msgs c))"

section \<open>The weights\<close>

record wstate =
  ws_weight :: "(string, int) odict"
  ws_left :: "(string, int) odict"
  ws_done :: "(string, bool) odict"

definition weights_start :: "taskgraph \<Rightarrow> string list \<Rightarrow> wstate" where
  "weights_start g endpoints =
     fold (\<lambda>tid s. s\<lparr>ws_weight := dset tid 10 (ws_weight s), ws_done := dset tid True (ws_done s)\<rparr>) endpoints
       (fold (\<lambda>(tid, e) s. \<lparr>ws_weight = dset tid 1 (ws_weight s),
             ws_left = dset tid (int (length (re_revdeps e))) (ws_left s),
             ws_done = dset tid False (ws_done s)\<rparr>) g \<lparr>ws_weight = [], ws_left = [], ws_done = []\<rparr>)"

text \<open>The body of the inner loop: one dependency of one of the current endpoints.\<close>

definition visit_dep :: "string \<Rightarrow> string \<Rightarrow> wstate \<times> string list \<Rightarrow> (wstate \<times> string list) result" where
  "visit_dep tid revdep = (\<lambda>(s, next_points).
     bindE (dindex (ws_weight s) revdep) (\<lambda>w.
     bindE (dindex (ws_weight s) tid) (\<lambda>wt.
     bindE (dindex (ws_left s) revdep) (\<lambda>l.
     let s = s\<lparr>ws_weight := dset revdep (w + wt) (ws_weight s), ws_left := dset revdep (l - 1) (ws_left s)\<rparr>
     in if l - 1 = 0 then Inr (s\<lparr>ws_done := dset revdep True (ws_done s)\<rparr>, next_points @ [revdep])
        else Inr (s, next_points)))))"

definition visit_point :: "taskgraph \<Rightarrow> string \<Rightarrow> wstate \<times> string list \<Rightarrow> (wstate \<times> string list) result" where
  "visit_point g tid st = bindE (dindex g tid) (\<lambda>e. foldE (visit_dep tid) (re_depends e) st)"

definition weights_round :: "taskgraph \<Rightarrow> string list \<Rightarrow> wstate \<Rightarrow> (wstate \<times> string list) result" where
  "weights_round g endpoints s = foldE (visit_point g) endpoints (s, [])"

text \<open>The number of tasks that can still become an endpoint drops with each new endpoint.\<close>

definition waiting :: "wstate \<Rightarrow> nat" where
  "waiting s = length (filter (\<lambda>kv. snd kv > 0) (ws_left s))"

lemma waiting_update:
  "dget d k = Some l \<Longrightarrow> length (filter (\<lambda>kv. snd kv > (0::int)) (dset k (l - 1) d)) + (if l = 1 then 1 else 0) \<le>
     length (filter (\<lambda>kv. snd kv > 0) d)"
  by (induction d) (auto split: if_splits)

lemma visit_dep_waiting:
  assumes "visit_dep tid revdep st = Inr st'"
  shows "waiting (fst st') + length (snd st') \<le> waiting (fst st) + length (snd st)"
  using assms waiting_update [of "ws_left (fst st)" revdep]
  by (cases st) (auto simp: visit_dep_def bindE_eq_Inr dindex_eq_Inr waiting_def Let_def split: if_splits)

lemma weights_round_waiting:
  assumes "weights_round g endpoints s = Inr (s', next_points)"
  shows "waiting s' + length next_points \<le> waiting s"
proof -
  let ?P = "\<lambda>st. waiting (fst st) + length (snd st) \<le> waiting s"
  have step: "?P st'" if "visit_point g tid st = Inr st'" "?P st" for tid st st'
  proof -
    from that(1) obtain e :: runtaskentry where "foldE (visit_dep tid) (re_depends e) st = Inr st'"
      unfolding visit_point_def bindE_eq_Inr by (elim exE conjE)
    then show ?thesis
      by (rule foldE_invariant [where P = ?P]) (use that(2) visit_dep_waiting le_trans in blast)+
  qed
  have "?P (s', next_points)"
    by (rule foldE_invariant [OF assms [unfolded weights_round_def], where P = ?P]) (use step in auto)
  then show ?thesis by simp
qed

function weights_loop :: "taskgraph \<Rightarrow> string list \<Rightarrow> wstate \<Rightarrow> wstate result" where
  "weights_loop g endpoints s =
     bindE (weights_round g endpoints s) (\<lambda>r.
       if snd r = [] then Inr (fst r) else weights_loop g (snd r) (fst r))"
  by pat_completeness auto

termination
proof (relation "measure (\<lambda>(g, endpoints, s). waiting s)", goal_cases)
  case (2 g endpoints s r)
  then have "waiting (fst r) + length (snd r) \<le> waiting s"
    by (intro weights_round_waiting [of g endpoints]) simp
  moreover have "length (snd r) > 0" using 2 by blast
  ultimately show ?case by (simp del: length_greater_0_conv)
qed simp

declare weights_loop.simps [simp del]

text \<open>The tasks that the check of circular dependencies reports.\<close>

definition problem_tasks :: "taskgraph \<Rightarrow> wstate \<Rightarrow> string list" where
  "problem_tasks g s =
     filter (\<lambda>tid. dget_default (ws_done s) tid False = False \<or> dget_default (ws_left s) tid 0 \<noteq> 0) (dkeys g)"

definition set_weights :: "(string, int) odict \<Rightarrow> taskgraph \<Rightarrow> taskgraph" where
  "set_weights weight g = map (\<lambda>(tid, e). (tid, e\<lparr>re_weight := dget_default weight tid 0\<rparr>)) g"

datatype weights_result = WeightsOf "(string, int) odict" | Unbuildable "string list" "loop_msg list"

definition calculate_task_weights :: "taskgraph \<Rightarrow> string list \<Rightarrow> (weights_result \<times> taskgraph) result" where
  "calculate_task_weights g endpoints =
     bindE (weights_loop g endpoints (weights_start g endpoints)) (\<lambda>s.
     let problems = problem_tasks g s; g = set_weights (ws_weight s) g
     in if problems \<noteq> []
        then bindE (circular_depchains_handler g problems) (\<lambda>msgs. Inr (Unbuildable problems msgs, g))
        else Inr (WeightsOf (ws_weight s), g))"

section \<open>The wave of weights\<close>

definition base_weight :: "string set \<Rightarrow> string \<Rightarrow> int" where
  "base_weight S t = (if t \<in> S then 10 else 1)"

text \<open>The state of the loop when the wave has crossed the edges \<open>X\<close>.\<close>

definition winv :: "taskgraph \<Rightarrow> string set \<Rightarrow> wstate \<Rightarrow> string set \<Rightarrow> (string \<times> string) set \<Rightarrow> bool" where
  "winv g S s D X \<longleftrightarrow> (\<forall>t \<in> nodes g.
        dget (ws_left s) t = Some (int (card {r. (r, t) \<in> edges g - X})) \<and>
        dget (ws_weight s) t =
          Some (base_weight S t + (\<Sum>r \<in> {r. (r, t) \<in> X}. dget_default (ws_weight s) r 0)) \<and>
        dget (ws_done s) t = Some (t \<in> D))"

lemma edges_nodes: "(r, t) \<in> edges g \<Longrightarrow> r \<in> nodes g" "(r, t) \<in> edges g \<Longrightarrow> t \<in> nodes g"
  by (auto simp: edges_def)

lemma finite_preds [simp]: "finite {r. (r, t) \<in> edges g}" "finite {r. (r, t) \<in> edges g \<and> P r}"
proof -
  have "{r. (r, t) \<in> edges g} \<subseteq> nodes g" by (auto simp: edges_def)
  then show "finite {r. (r, t) \<in> edges g}" by (rule finite_subset) (simp add: nodes_def)
  then show "finite {r. (r, t) \<in> edges g \<and> P r}" by (rule rev_finite_subset) auto
qed

lemma entered_card:
  "t \<in> nodes g \<Longrightarrow> t \<in> down.entered g X \<longleftrightarrow> card {r. (r, t) \<in> edges g - X} = 0"
  by (auto simp: down.entered_def)

lemma crossing_card:
  assumes "(r, t) \<in> edges g - X"
  shows "int (card {q. (q, t) \<in> edges g - insert (r, t) X}) = int (card {q. (q, t) \<in> edges g - X}) - 1"
proof -
  have eq: "{q. (q, t) \<in> edges g - insert (r, t) X} = {q. (q, t) \<in> edges g - X} - {r}" by auto
  have "finite {q. (q, t) \<in> edges g - X}" by simp
  moreover have "r \<in> {q. (q, t) \<in> edges g - X}" using assms by auto
  ultimately have "card {q. (q, t) \<in> edges g - X} = Suc (card ({q. (q, t) \<in> edges g - X} - {r}))"
    by (metis card.remove)
  then show ?thesis unfolding eq by simp
qed

lemma visit_dep_step:
  assumes wv: "down.wave g D X" and inv: "winv g S s D X" and e: "(r, t) \<in> edges g - X" and r: "r \<in> D"
  defines "X' \<equiv> insert (r, t) X"
  defines "go \<equiv> t \<in> down.entered g X'"
  shows "\<exists>s'. visit_dep r t (s, nx) = Inr (s', nx @ (if go then [t] else [])) \<and>
           winv g S s' (if go then insert t D else D) X'"
proof -
  have rt: "r \<in> nodes g" "t \<in> nodes g" using e edges_nodes by auto
  have tD: "t \<notin> D" using down.wave_target [OF wv, of r t] e by simp
  with r have ne: "r \<noteq> t" by auto
  let ?w = "ws_weight s"
  let ?l = "int (card {q. (q, t) \<in> edges g - X}) - 1"
  let ?v = "dget_default ?w t 0 + dget_default ?w r 0"
  have sums: "dget_default ?w u 0 = base_weight S u + (\<Sum>q \<in> {q. (q, u) \<in> X}. dget_default ?w q 0)"
    if "u \<in> nodes g" for u
    using inv that by (auto simp: winv_def)
  have idx: "dindex ?w u = Inr (dget_default ?w u 0)" if "u \<in> nodes g" for u
    using inv that by (auto simp: winv_def dindex_def)
  have left: "dindex (ws_left s) t = Inr (?l + 1)"
    using inv rt by (auto simp: winv_def dindex_def)
  define s1 where "s1 = s\<lparr>ws_weight := dset t ?v ?w, ws_left := dset t ?l (ws_left s)\<rparr>"
  define s' where "s' = (if go then s1\<lparr>ws_done := dset t True (ws_done s)\<rparr> else s1)"
  have go: "go \<longleftrightarrow> ?l = 0"
    unfolding crossing_card [OF e, symmetric] go_def X'_def entered_card [OF rt(2)]
    by (simp only: of_nat_eq_0_iff)
  have run: "visit_dep r t (s, nx) = Inr (s', nx @ (if go then [t] else []))"
    using go by (simp add: visit_dep_def idx rt left s'_def s1_def Let_def)
  have src: "q \<noteq> t" if "(q, u) \<in> X'" for q u
    using that down.wave_D(3) [OF wv] tD ne unfolding X'_def by auto
  have fin: "finite {q. (q, u) \<in> X}" for u
    using down.wave_D(2) [OF wv] by (intro finite_subset [OF _ finite_preds(1)]) auto
  have wsum: "dget (ws_weight s') u =
      Some (base_weight S u + (\<Sum>q \<in> {q. (q, u) \<in> X'}. dget_default (ws_weight s') q 0))"
    if u: "u \<in> nodes g" for u
  proof -
    have keep: "dget_default (ws_weight s') q 0 = dget_default ?w q 0" if "q \<noteq> t" for q
      using that by (simp add: s'_def s1_def dict_simps)
    have same: "(\<Sum>q \<in> {q. (q, u) \<in> X'}. dget_default (ws_weight s') q 0) =
        (\<Sum>q \<in> {q. (q, u) \<in> X'}. dget_default ?w q 0)"
      using src keep by (intro sum.cong) auto
    show ?thesis
    proof (cases "u = t")
      case True
      have "{q. (q, u) \<in> X'} = insert r {q. (q, t) \<in> X}" using True by (auto simp: X'_def)
      moreover have "r \<notin> {q. (q, t) \<in> X}" using e by auto
      ultimately have "(\<Sum>q \<in> {q. (q, u) \<in> X'}. dget_default ?w q 0) =
          dget_default ?w r 0 + (\<Sum>q \<in> {q. (q, t) \<in> X}. dget_default ?w q 0)"
        using fin by simp
      then show ?thesis
        unfolding same using True sums [OF rt(2)] by (simp add: s'_def s1_def dict_simps)
    next
      case False
      have "{q. (q, u) \<in> X'} = {q. (q, u) \<in> X}" using False by (auto simp: X'_def)
      then show ?thesis
        unfolding same using False inv u by (simp add: s'_def s1_def dict_simps winv_def)
    qed
  qed
  have lefts: "dget (ws_left s') u = Some (int (card {q. (q, u) \<in> edges g - X'}))" if u: "u \<in> nodes g" for u
  proof (cases "u = t")
    case True
    then show ?thesis using crossing_card [OF e] by (simp add: s'_def s1_def dict_simps X'_def)
  next
    case False
    then have "{q. (q, u) \<in> edges g - X'} = {q. (q, u) \<in> edges g - X}" by (auto simp: X'_def)
    then show ?thesis using False inv u by (simp add: s'_def s1_def dict_simps winv_def)
  qed
  have dones: "dget (ws_done s') u = Some (u \<in> (if go then insert t D else D))" if u: "u \<in> nodes g" for u
    using inv u by (auto simp: s'_def s1_def dict_simps winv_def)
  with run wsum lefts dones show ?thesis unfolding winv_def by blast
qed

interpretation weights: wave_run "nodes g" "edges g" "consistent g" "deps_of g" visit_dep "winv g S" for g S
  by unfold_locales (simp_all add: consistentD visit_dep_step)

lemma weights_round_expand:
  assumes g: "consistent g" and p: "set pend \<subseteq> nodes g"
  shows "foldE (visit_point g) pend st = foldE (weights.expand g) pend st"
  using p
proof (induction pend arbitrary: st)
  case (Cons tid pend)
  have "visit_point g tid st = weights.expand g tid st"
    using Cons.prems by (simp add: visit_point_def weights.expand_def dindex_node)
  with Cons show ?case by (cases "weights.expand g tid st") simp_all
qed simp

lemma weights_loop_frontier:
  "consistent g \<Longrightarrow> weights.frontier g S s D pend \<Longrightarrow>
    \<exists>s' D'. weights_loop g pend s = Inr s' \<and> weights.frontier g S s' D' []"
proof (induction g pend s arbitrary: D rule: weights_loop.induct)
  case (1 g pend s)
  have "set pend \<subseteq> nodes g"
    using 1(3) down.wave_D(1) unfolding weights.frontier_def by blast
  moreover from 1(3) have "weights.frontier g S s D (pend @ [])" by simp
  ultimately obtain s1 D1 new where s1: "weights_round g pend s = Inr (s1, new)" "weights.frontier g S s1 D1 new"
    using weights.round_frontier [OF 1(2), of S s D pend "[]"]
    by (auto simp: weights_round_def weights_round_expand [OF 1(2)])
  show ?case
  proof (cases "new = []")
    case True
    have "weights_loop g pend s = Inr s1" by (subst weights_loop.simps) (simp add: s1(1) True)
    with s1(2) True show ?thesis by blast
  next
    case False
    have "weights_loop g pend s = weights_loop g new s1"
      by (subst weights_loop.simps) (simp add: s1(1) False)
    with "1.IH" [of "(s1, new)" D1] s1 False 1(2) show ?thesis by simp
  qed
qed

text \<open>The initial state.\<close>

lemma weights_init_fields:
  fixes s :: wstate
  assumes "distinct (dkeys xs)"
  defines "r \<equiv> fold (\<lambda>(tid, e) s. \<lparr>ws_weight = dset tid 1 (ws_weight s),
             ws_left = dset tid (int (length (re_revdeps e))) (ws_left s),
             ws_done = dset tid False (ws_done s)\<rparr>) xs s"
  shows "dget (ws_weight r) t = (if t \<in> set (dkeys xs) then Some 1 else dget (ws_weight s) t) \<and>
    dget (ws_left r) t = (case dget xs t of Some e \<Rightarrow> Some (int (length (re_revdeps e))) | None \<Rightarrow> dget (ws_left s) t) \<and>
    dget (ws_done r) t = (if t \<in> set (dkeys xs) then Some False else dget (ws_done s) t)"
  using assms(1) unfolding r_def
proof (induction xs arbitrary: s)
  case (Cons x xs)
  obtain tid e where x: "x = (tid, e)" by (cases x)
  with Cons.prems have "tid \<notin> set (dkeys xs)" by simp
  then have "dget xs tid = None" by (simp add: map_of_eq_None_iff)
  with Cons x show ?case by (auto simp: dict_simps split: option.splits)
qed simp

lemma weights_start_fields:
  assumes "consistent g" and "t \<in> nodes g"
  shows "dget (ws_weight (weights_start g S)) t = Some (base_weight (set S) t)"
    "dget (ws_left (weights_start g S)) t = Some (int (length (revs_of g t)))"
    "dget (ws_done (weights_start g S)) t = Some (t \<in> set S)"
proof -
  define ends where "ends = (\<lambda>xs (s::wstate). fold (\<lambda>tid s. s\<lparr>ws_weight := dset tid 10 (ws_weight s),
      ws_done := dset tid True (ws_done s)\<rparr>) xs s)"
  have ends: "dget (ws_weight (ends xs s)) t = (if t \<in> set xs then Some 10 else dget (ws_weight s) t) \<and>
    ws_left (ends xs s) = ws_left s \<and>
    dget (ws_done (ends xs s)) t = (if t \<in> set xs then Some True else dget (ws_done s) t)" for xs s
    unfolding ends_def by (induction xs arbitrary: s) (auto simp: dict_simps)
  obtain e where e: "dget g t = Some e" using assms(2) by (auto simp: nodes_has dhas_iff)
  have t: "t \<in> set (dkeys g)" using assms(2) by (simp add: nodes_def)
  define s0 :: wstate where "s0 = \<lparr>ws_weight = [], ws_left = [], ws_done = []\<rparr>"
  define s1 where "s1 = fold (\<lambda>(tid, e) s. \<lparr>ws_weight = dset tid 1 (ws_weight s),
             ws_left = dset tid (int (length (re_revdeps e))) (ws_left s),
             ws_done = dset tid False (ws_done s)\<rparr>) g s0"
  have start: "weights_start g S = ends S s1"
    by (simp add: weights_start_def ends_def s1_def s0_def)
  have s1: "dget (ws_weight s1) t = Some 1" "dget (ws_left s1) t = Some (int (length (revs_of g t)))"
    "dget (ws_done s1) t = Some False"
    using weights_init_fields [OF consistentD(1) [OF assms(1)], of s0 t] t e
    unfolding s1_def [symmetric] by simp_all
  show "dget (ws_weight (weights_start g S)) t = Some (base_weight (set S) t)"
    "dget (ws_left (weights_start g S)) t = Some (int (length (revs_of g t)))"
    "dget (ws_done (weights_start g S)) t = Some (t \<in> set S)"
    unfolding start using ends [of S s1] s1 by (simp_all add: base_weight_def)
qed

text \<open>The tasks no other task depends on.\<close>

definition final_tasks :: "taskgraph \<Rightarrow> string list" where
  "final_tasks g = filter (\<lambda>t. revs_of g t = []) (dkeys g)"

lemma weights_start_frontier:
  assumes g: "consistent g"
  shows "weights.frontier g (set (final_tasks g)) (weights_start g (final_tasks g)) (set (final_tasks g)) (final_tasks g)"
proof -
  let ?S = "set (final_tasks g)"
  have S: "?S = {t \<in> nodes g. \<forall>r. (r, t) \<notin> edges g}"
  proof (rule set_eqI)
    fix t
    have "revs_of g t = [] \<longleftrightarrow> (\<forall>r. (r, t) \<notin> edges g)" if "t \<in> nodes g"
    proof -
      have "revs_of g t = [] \<longleftrightarrow> set (revs_of g t) = {}" by simp
      also have "\<dots> \<longleftrightarrow> (\<forall>r. (r, t) \<notin> edges g)" unfolding consistentD(5) [OF g that] by blast
      finally show ?thesis .
    qed
    then show "t \<in> ?S \<longleftrightarrow> t \<in> {t \<in> nodes g. \<forall>r. (r, t) \<notin> edges g}"
      unfolding final_tasks_def nodes_def [symmetric] set_filter mem_Collect_eq by (auto simp: nodes_def)
  qed
  have card: "length (revs_of g t) = card {r. (r, t) \<in> edges g}" if "t \<in> nodes g" for t
    using distinct_card [OF consistentD(3) [OF g that]] consistentD(5) [OF g that] by simp
  have none: "{(r, t) \<in> edges g. r \<in> ?S - ?S} = {}" by auto
  have "winv g ?S (weights_start g (final_tasks g)) ?S {}"
    unfolding winv_def using weights_start_fields [OF g] card by simp
  moreover have "down.wave g ?S {}" using down.wave_start [of g] S by simp
  moreover have "distinct (final_tasks g)" using consistentD(1) [OF g] by (simp add: final_tasks_def)
  ultimately show ?thesis unfolding weights.frontier_def none by simp
qed

text \<open>
  The tasks left over are those that a cycle depends on, and the weight of a task is its own weight
  and that of everything that waits for it.
\<close>

lemma weights_loop_result:
  assumes g: "consistent g"
  shows "\<exists>s. weights_loop g (final_tasks g) (weights_start g (final_tasks g)) = Inr s \<and>
    set (problem_tasks g s) = down.looped g \<and>
    (\<forall>t \<in> nodes g. dget (ws_weight s) t =
       Some (base_weight (set (final_tasks g)) t +
         (\<Sum>r \<in> {r. (r, t) \<in> edges g \<and> r \<notin> down.looped g}. dget_default (ws_weight s) r 0)))"
proof -
  let ?S = "set (final_tasks g)"
  from weights_loop_frontier [OF g weights_start_frontier [OF g]] obtain s D where
    s: "weights_loop g (final_tasks g) (weights_start g (final_tasks g)) = Inr s"
    and f: "weights.frontier g ?S s D []" by blast
  define X where "X = {(r, t) \<in> edges g. r \<in> D}"
  have inv: "winv g ?S s D X" using weights.frontier_end(2) [OF f] by (simp add: X_def)
  have wv: "down.wave g D X" using f by (simp add: weights.frontier_def X_def)
  have D: "D = nodes g - down.looped g" by (rule weights.frontier_end(1) [OF f])
  have DX: "D = down.entered g X" using wv by (simp add: down.wave_def)
  have fields: "dget (ws_left s) t = Some (int (card {r. (r, t) \<in> edges g - X}))"
    "dget (ws_done s) t = Some (t \<in> D)" if "t \<in> nodes g" for t
    using inv that by (auto simp only: winv_def)
  have "dget_default (ws_left s) t 0 \<noteq> 0 \<longleftrightarrow> t \<notin> D" if "t \<in> nodes g" for t
    unfolding DX entered_card [OF that] using fields(1) [OF that] by (simp add: dget_default_def)
  moreover have "dget_default (ws_done s) t False = False \<longleftrightarrow> t \<notin> D" if "t \<in> nodes g" for t
    using fields(2) [OF that] by (simp add: dget_default_def)
  ultimately have "set (problem_tasks g s) = {t \<in> nodes g. t \<notin> D}"
    unfolding problem_tasks_def nodes_def [symmetric] set_filter set_map
    by (auto simp: nodes_def)
  also have "\<dots> = down.looped g" unfolding D by (auto simp: down.looped_def)
  finally have probs: "set (problem_tasks g s) = down.looped g" .
  have "{r. (r, t) \<in> X} = {r. (r, t) \<in> edges g \<and> r \<notin> down.looped g}" for t
    unfolding X_def D using edges_nodes by auto
  with s probs inv show ?thesis unfolding winv_def by auto
qed

section \<open>The reported loops\<close>

text \<open>A loop lists distinct tasks, each a dependency of the next, and the last one of the first.\<close>

definition waits :: "taskgraph \<Rightarrow> string \<Rightarrow> string \<Rightarrow> bool" where
  "waits g a b \<longleftrightarrow> b \<in> set (revs_of g a)"

definition is_loop :: "taskgraph \<Rightarrow> string list \<Rightarrow> bool" where
  "is_loop g ch \<longleftrightarrow> ch \<noteq> [] \<and> distinct ch \<and> successively (waits g) (ch @ [hd ch])"

lemma chain_compare_equal_iff: "chain_compare_equal a b \<longleftrightarrow> a = b"
  unfolding chain_compare_equal_def by (metis atLeastLessThan_iff le0 nth_equalityI set_upt)

lemma chain_array_contains_iff: "chain_array_contains ch chs \<longleftrightarrow> ch \<in> set chs"
  by (auto simp: chain_array_contains_def chain_compare_equal_iff)

lemma lowest_bound:
  fixes chain :: "string list"
  assumes "l0 < n" and "\<forall>i \<in> set is. i < n"
  shows "fold (\<lambda>entry lowest. if chain ! entry < chain ! lowest then entry else lowest) is l0 < n"
  using assms by (induction "is" arbitrary: l0) auto

lemma chain_reorder_rotation:
  assumes "ch \<noteq> []"
  shows "\<exists>as bs. ch = as @ bs \<and> bs \<noteq> [] \<and> chain_reorder ch = bs @ as"
proof -
  define l where "l = fold (\<lambda>entry lowest. if ch ! entry < ch ! lowest then entry else lowest) [0..<length ch] 0"
  have "l < length ch" unfolding l_def using assms by (intro lowest_bound) auto
  then show ?thesis
    by (intro exI [of _ "take l ch"] exI [of _ "drop l ch"]) (simp add: chain_reorder_def l_def Let_def)
qed

lemma is_loop_rotate:
  assumes "is_loop g (as @ bs)" and "bs \<noteq> []"
  shows "is_loop g (bs @ as)"
proof (cases "as = []")
  case True
  with assms show ?thesis by simp
next
  case False
  with assms have "successively (waits g) (as @ bs @ [hd as])" and d: "distinct (as @ bs)"
    by (auto simp: is_loop_def)
  then have "successively (waits g) as" "waits g (last as) (hd bs)" "successively (waits g) bs"
    "waits g (last bs) (hd as)"
    using False assms(2) by (auto simp: successively_append_iff)
  then have "successively (waits g) (bs @ as @ [hd bs])"
    using False assms(2) by (simp add: successively_append_iff)
  with d False assms(2) show ?thesis by (auto simp: is_loop_def)
qed

lemma chain_reorder_loop: "is_loop g ch \<Longrightarrow> is_loop g (chain_reorder ch)"
proof -
  assume l: "is_loop g ch"
  then obtain as bs where "ch = as @ bs" "bs \<noteq> []" "chain_reorder ch = bs @ as"
    using chain_reorder_rotation [of ch] by (auto simp: is_loop_def)
  with l is_loop_rotate [of g as bs] show "is_loop g (chain_reorder ch)" by simp
qed

definition chains_ok :: "taskgraph \<Rightarrow> chains \<Rightarrow> bool" where
  "chains_ok g c \<longleftrightarrow> (\<forall>ch \<in> set (ch_valid c). is_loop g ch) \<and> distinct (ch_valid c) \<and>
     length (ch_valid c) \<le> (if ch_halted c then 11 else 10)"

text \<open>What a call of the search adds.\<close>

definition chains_grow :: "chains \<Rightarrow> chains \<Rightarrow> bool" where
  "chains_grow c c' \<longleftrightarrow> set (dkeys (ch_explored c)) \<subseteq> set (dkeys (ch_explored c'))"

lemma chains_grow_trans: "chains_grow a b \<Longrightarrow> chains_grow b c \<Longrightarrow> chains_grow a c"
  by (auto simp: chains_grow_def)

lemma chain_part_loop:
  assumes "successively (waits g) chain" and "distinct chain" and "r \<in> set chain" and "waits g (last chain) r"
  shows "is_loop g (dropWhile (\<lambda>x. x \<noteq> r) chain)"
proof -
  obtain as bs where ch: "chain = as @ r # bs" "r \<notin> set as" using assms(3) by (meson split_list_first)
  then have "dropWhile (\<lambda>x. x \<noteq> r) chain = r # bs" by (simp add: dropWhile_upto)
  moreover have "successively (waits g) (r # bs)" using assms(1) ch by (simp add: successively_append_iff)
  then have "successively (waits g) ((r # bs) @ [r])"
    using assms(4) ch by (simp only: successively_append_iff) auto
  ultimately show ?thesis using assms(2) ch by (simp add: is_loop_def)
qed

lemma waits_nodes:
  assumes g: "consistent g" and w: "waits g a b"
  shows "a \<in> nodes g" "b \<in> nodes g"
proof -
  show a: "a \<in> nodes g"
    using w by (auto simp: waits_def nodes_has dhas_iff dget_default_def new_entry_def split: option.splits)
  show "b \<in> nodes g" using w consistentD(5) [OF g a] edges_nodes unfolding waits_def by blast
qed

lemma loop_nodes: "consistent g \<Longrightarrow> is_loop g ch \<Longrightarrow> set ch \<subseteq> nodes g"
proof
  fix x assume g: "consistent g" and l: "is_loop g ch" and x: "x \<in> set ch"
  then obtain as bs where ch: "ch = as @ x # bs" by (meson split_list)
  with l have "successively (waits g) (x # bs @ [hd ch])" by (simp add: is_loop_def successively_append_iff)
  then have "\<exists>y. waits g x y" by (cases bs) auto
  then show "x \<in> nodes g" using waits_nodes [OF g] by blast
qed

lemma report_chain_ok:
  assumes g: "consistent g" and c: "chains_ok g c" "\<not> ch_halted c" and l: "is_loop g ch"
  shows "\<exists>c'. report_chain g ch c = Inr c' \<and> chains_ok g (halt_search c') \<and> chains_grow c (halt_search c')"
proof (cases "ch \<in> set (ch_valid c)")
  case True
  with c show ?thesis
    by (auto simp: report_chain_def chain_array_contains_iff halt_search_def chains_grow_def chains_ok_def)
next
  case False
  let ?f = "\<lambda>dep ms. bindE (dindex g dep) (\<lambda>e. Inr (ms @ [LoopTask dep (runq_depends_names (re_depends e))]))"
  have "\<exists>t. ?f x ms = Inr t" if "x \<in> set ch" for x ms
    using that loop_nodes [OF g l] dindex_node [of x g] by auto
  then obtain ms where "foldE ?f ch (ch_msgs c @ [LoopFound (length (ch_valid c @ [ch]))]) = Inr ms"
    using foldE_total [of ch ?f] by blast
  with False have "report_chain g ch c =
      Inr (c\<lparr>ch_valid := ch_valid c @ [ch], ch_msgs := ms @ [LoopEnd]\<rparr>)"
    by (simp add: report_chain_def chain_array_contains_iff)
  with False c l show ?thesis
    by (auto simp: halt_search_def chains_grow_def chains_ok_def)
qed

lemma find_chains_ok:
  assumes g: "consistent g"
  shows "tid \<in> nodes g \<Longrightarrow> successively (waits g) (chain @ [tid]) \<Longrightarrow> distinct (chain @ [tid]) \<Longrightarrow>
      chains_ok g c \<Longrightarrow> \<not> ch_halted c \<Longrightarrow>
      \<exists>c'. find_chains g tid chain c = Inr c' \<and> chains_ok g c' \<and> chains_grow c c' \<and>
        (ch_halted c' \<or> dhas (ch_explored c') tid)"
    and "successively (waits g) prev \<Longrightarrow> distinct prev \<Longrightarrow> prev \<noteq> [] \<Longrightarrow>
      set revs \<subseteq> {r. waits g (last prev) r} \<Longrightarrow> chains_ok g d \<Longrightarrow> \<not> ch_halted d \<Longrightarrow>
      \<exists>ds d'. chains_loop g prev revs tot d = Inr (ds, d') \<and> chains_ok g d' \<and> chains_grow d d'"
  using g
proof (induction g tid chain c and g prev revs tot d rule: find_chains_chains_loop.induct)
  case (1 g tid chain c)
  then obtain e where e: "dget g tid = Some e" by (auto simp: nodes_has dhas_iff)
  then have "set (re_revdeps e) \<subseteq> {r. waits g tid r}" by (auto simp: waits_def)
  with 1 e obtain ds c1 where c1: "chains_loop g (chain @ [tid]) (re_revdeps e) (re_revdeps e) c = Inr (ds, c1)"
    "chains_ok g c1" "chains_grow c c1" by force
  show ?case
  proof (cases "ch_halted c1")
    case True
    with c1 e show ?thesis by simp
  next
    case False
    with c1 e keys_dset [of tid ds "ch_explored c1"] show ?thesis
      by (auto simp: chains_ok_def chains_grow_def dhas_def)
  qed
next
  case (2 g prev tot d)
  then show ?case by (simp add: chains_grow_def)
next
  case (3 g prev revdep revdeps tot d)
  have w: "waits g (last prev) revdep" and ws: "set revdeps \<subseteq> {r. waits g (last prev) r}"
    using 3(7) by auto
  show ?case
  proof (cases "revdep \<in> set prev")
    case True
    have "is_loop g (chain_reorder (dropWhile (\<lambda>x. x \<noteq> revdep) prev))"
      using chain_part_loop [OF 3(4,5) True w] by (rule chain_reorder_loop)
    from report_chain_ok [OF 3(10) 3(8,9) this] obtain d1 where
      d1: "report_chain g (chain_reorder (dropWhile (\<lambda>x. x \<noteq> revdep) prev)) d = Inr d1"
      "chains_ok g (halt_search d1)" "chains_grow d (halt_search d1)" by blast
    show ?thesis
    proof (cases "ch_halted (halt_search d1)")
      case True
      with d1 \<open>revdep \<in> set prev\<close> show ?thesis by (simp add: Let_def)
    next
      case False
      from 3(1) [OF True d1(1) refl False 3(4,5,6) ws d1(2) False 3(10)] obtain ds d' where
        "chains_loop g prev revdeps tot (halt_search d1) = Inr (ds, d')" "chains_ok g d'"
        "chains_grow (halt_search d1) d'" by blast
      with d1 True False chains_grow_trans [OF d1(3)] show ?thesis by (simp add: Let_def)
    qed
  next
    case False
    have node: "revdep \<in> nodes g" by (rule waits_nodes(2) [OF 3(10) w])
    have path: "successively (waits g) (prev @ [revdep])" "distinct (prev @ [revdep])"
      using 3(4,5,6) w False by (auto simp: successively_append_iff)
    let ?m = "if must_scan revdep prev d then find_chains g revdep prev d else Inr d"
    have "\<exists>d1. ?m = Inr d1 \<and> chains_ok g d1 \<and> chains_grow d d1 \<and> (ch_halted d1 \<or> dhas (ch_explored d1) revdep)"
    proof (cases "must_scan revdep prev d")
      case True
      from 3(2) [OF False True node path 3(8,9,10)] True show ?thesis by simp
    next
      case ns: False
      then have "dhas (ch_explored d) revdep" by (auto simp: must_scan_def dhas_iff split: option.splits)
      with ns 3(8) show ?thesis by (simp add: chains_grow_def)
    qed
    then obtain d1 where d1: "?m = Inr d1" "chains_ok g d1" "chains_grow d d1"
      "ch_halted d1 \<or> dhas (ch_explored d1) revdep" by blast
    show ?thesis
    proof (cases "ch_halted d1")
      case True
      have "chains_loop g prev (revdep # revdeps) tot d = Inr (tot, d1)"
        using d1(1) False True by (simp only: chains_loop.simps if_False if_True bindE_simps)
      with d1(2,3) show ?thesis by blast
    next
      case run: False
      with d1(4) obtain deps where deps: "dindex (ch_explored d1) revdep = Inr deps"
        using dhas_index by blast
      from 3(3) [OF False d1(1) run deps 3(4,5,6) ws d1(2) run 3(10)] obtain ds d' where
        "chains_loop g prev revdeps (merge_deps tot deps) d1 = Inr (ds, d')" "chains_ok g d'" "chains_grow d1 d'"
        by blast
      moreover have "chains_loop g prev (revdep # revdeps) tot d = chains_loop g prev revdeps (merge_deps tot deps) d1"
        using d1(1) False run deps by (simp only: chains_loop.simps if_False bindE_simps)
      ultimately show ?thesis using chains_grow_trans [OF d1(3)] by simp
    qed
  qed
qed

text \<open>
  While no loop is found, the explored tasks are in an order in which everything that waits for a task
  comes before it, so a task behind a cycle cannot be explored.
\<close>

fun ordered_by :: "taskgraph \<Rightarrow> string list \<Rightarrow> bool" where
  "ordered_by g [] = True"
| "ordered_by g (t # ts) = (set (revs_of g t) \<subseteq> set ts \<and> ordered_by g ts)"

definition explored_order :: "taskgraph \<Rightarrow> chains \<Rightarrow> bool" where
  "explored_order g c \<longleftrightarrow> ordered_by g (rev (dkeys (ch_explored c)))"

definition quiet_search :: "taskgraph \<Rightarrow> chains \<Rightarrow> chains \<Rightarrow> bool" where
  "quiet_search g c c' \<longleftrightarrow> (ch_valid c' = [] \<longrightarrow>
     ch_valid c = [] \<and> \<not> ch_halted c' \<and> chains_grow c c' \<and> (explored_order g c \<longrightarrow> explored_order g c'))"

lemma search_quiet_refl: "\<not> ch_halted c \<Longrightarrow> quiet_search g c c"
  by (simp add: quiet_search_def chains_grow_def)

lemma search_quiet_trans: "quiet_search g a b \<Longrightarrow> quiet_search g b c \<Longrightarrow> quiet_search g a c"
  unfolding quiet_search_def using chains_grow_trans by blast

lemma explored_order_dset:
  assumes "explored_order g c" and "set (revs_of g tid) \<subseteq> set (dkeys (ch_explored c))"
  shows "explored_order g (c\<lparr>ch_explored := dset tid ds (ch_explored c)\<rparr>)"
proof (cases "tid \<in> set (dkeys (ch_explored c))")
  case True
  with assms(1) show ?thesis by (simp add: explored_order_def dkeys_dset_present)
next
  case False
  with assms show ?thesis unfolding explored_order_def by (simp add: dkeys_dset_absent)
qed

lemma report_chain_valid:
  assumes "report_chain g ch c = Inr c'"
  shows "ch_valid (halt_search c') \<noteq> []"
proof (cases "ch \<in> set (ch_valid c)")
  case True
  with assms show ?thesis by (auto simp: report_chain_def chain_array_contains_iff halt_search_def)
next
  case False
  with assms show ?thesis
    by (auto simp: report_chain_def chain_array_contains_iff halt_search_def bindE_eq_Inr Let_def)
qed

lemma chains_loop_valid: "find_chains g tid chain c = Inr c' \<Longrightarrow> ch_valid c \<noteq> [] \<Longrightarrow> ch_valid c' \<noteq> []"
  "chains_loop g prev revs tot d = Inr (ds, d') \<Longrightarrow> ch_valid d \<noteq> [] \<Longrightarrow> ch_valid d' \<noteq> []"
proof (induction g tid chain c and g prev revs tot d arbitrary: c' and ds d' rule: find_chains_chains_loop.induct)
  case (1 g tid chain c)
  then show ?case by (fastforce simp: bindE_eq_Inr split: option.splits if_splits)
next
  case (2 g prev tot d)
  then show ?case by simp
next
  case (3 g prev revdep revdeps tot d)
  show ?case
  proof (cases "revdep \<in> set prev")
    case True
    with 3(4) obtain d1 where d1: "report_chain g (chain_reorder (dropWhile (\<lambda>x. x \<noteq> revdep) prev)) d = Inr d1"
      "ch_halted (halt_search d1) \<and> d' = halt_search d1 \<or>
       \<not> ch_halted (halt_search d1) \<and> chains_loop g prev revdeps tot (halt_search d1) = Inr (ds, d')"
      by (auto simp: bindE_eq_Inr Let_def split: if_splits)
    with report_chain_valid [OF d1(1)] 3(1) [OF True d1(1) refl] show ?thesis by auto
  next
    case False
    with 3(4) obtain d1 where
      d1: "(if must_scan revdep prev d then find_chains g revdep prev d else Inr d) = Inr d1"
      "ch_halted d1 \<and> d' = d1 \<or> (\<exists>deps. \<not> ch_halted d1 \<and>
         chains_loop g prev revdeps (merge_deps tot deps) d1 = Inr (ds, d') \<and> dindex (ch_explored d1) revdep = Inr deps)"
      by (auto simp: bindE_eq_Inr split: if_splits)
    have "ch_valid d1 \<noteq> []" using d1(1) 3(2) [OF False] 3(5) by (auto split: if_splits)
    with d1 3(3) [OF False d1(1)] show ?thesis by auto
  qed
qed

lemma find_chains_quiet:
  "find_chains g tid chain c = Inr c' \<Longrightarrow> \<not> ch_halted c \<Longrightarrow>
     quiet_search g c c' \<and> (ch_valid c' = [] \<longrightarrow> tid \<in> set (dkeys (ch_explored c')))"
  "chains_loop g prev revs tot d = Inr (ds, d') \<Longrightarrow> \<not> ch_halted d \<Longrightarrow>
     quiet_search g d d' \<and> (ch_valid d' = [] \<longrightarrow> set revs \<subseteq> set (dkeys (ch_explored d')))"
proof (induction g tid chain c and g prev revs tot d arbitrary: c' and ds d' rule: find_chains_chains_loop.induct)
  case (1 g tid chain c)
  then obtain e ds c1 where e: "dget g tid = Some e"
    and c1: "chains_loop g (chain @ [tid]) (re_revdeps e) (re_revdeps e) c = Inr (ds, c1)"
    and c': "c' = (if ch_halted c1 then c1 else c1\<lparr>ch_explored := dset tid ds (ch_explored c1)\<rparr>)"
    by (auto simp: bindE_eq_Inr split: option.splits)
  from 1(1) [OF e c1 1(3)] have q: "quiet_search g c c1"
    "ch_valid c1 = [] \<longrightarrow> set (revs_of g tid) \<subseteq> set (dkeys (ch_explored c1))"
    using e by simp_all
  show ?case
  proof (cases "ch_valid c1 = []")
    case True
    with q have "\<not> ch_halted c1" by (simp add: quiet_search_def)
    moreover have "chains_grow c1 (c1\<lparr>ch_explored := dset tid ds (ch_explored c1)\<rparr>)"
      using keys_dset [of tid ds "ch_explored c1"] by (auto simp: chains_grow_def)
    ultimately have "quiet_search g c1 c'"
      using True q explored_order_dset [of g c1 tid ds] c' by (simp add: quiet_search_def)
    with search_quiet_trans [OF q(1)] c' \<open>\<not> ch_halted c1\<close> keys_dset [of tid ds "ch_explored c1"]
    show ?thesis by simp
  next
    case False
    with c' show ?thesis by (simp add: quiet_search_def)
  qed
next
  case (2 g prev tot d)
  then show ?case by (simp add: search_quiet_refl)
next
  case (3 g prev revdep revdeps tot d)
  show ?case
  proof (cases "ch_valid d' = []")
    case none: True
    have "revdep \<notin> set prev"
    proof
      assume i: "revdep \<in> set prev"
      with 3(4) obtain d1 where d1: "report_chain g (chain_reorder (dropWhile (\<lambda>x. x \<noteq> revdep) prev)) d = Inr d1"
        "d' = halt_search d1 \<or> chains_loop g prev revdeps tot (halt_search d1) = Inr (ds, d')"
        by (auto simp: bindE_eq_Inr Let_def split: if_splits)
      with report_chain_valid [OF d1(1)] chains_loop_valid(2) none show False by blast
    qed
    with 3(4) obtain d1 where
      d1: "(if must_scan revdep prev d then find_chains g revdep prev d else Inr d) = Inr d1"
      "ch_halted d1 \<and> d' = d1 \<or> (\<exists>deps. \<not> ch_halted d1 \<and>
         chains_loop g prev revdeps (merge_deps tot deps) d1 = Inr (ds, d') \<and> dindex (ch_explored d1) revdep = Inr deps)"
      by (auto simp: bindE_eq_Inr split: if_splits)
    have q1: "quiet_search g d d1"
      using d1(1) 3(2) [OF \<open>revdep \<notin> set prev\<close> _ _ 3(5)] search_quiet_refl [OF 3(5)] by (auto split: if_splits)
    from d1(2) obtain deps where d2: "\<not> ch_halted d1"
      "chains_loop g prev revdeps (merge_deps tot deps) d1 = Inr (ds, d')" "dindex (ch_explored d1) revdep = Inr deps"
      using q1 none by (auto simp: quiet_search_def)
    from 3(3) [OF \<open>revdep \<notin> set prev\<close> d1(1) d2(1,3,2,1)]
    have q2: "quiet_search g d1 d'" "set revdeps \<subseteq> set (dkeys (ch_explored d'))" using none by auto
    have "revdep \<in> set (dkeys (ch_explored d1))"
      using d2(3) by (auto simp: dindex_eq_Inr intro: map_of_SomeD rev_image_eqI)
    then have "revdep \<in> set (dkeys (ch_explored d'))" using q2(1) none by (auto simp: quiet_search_def chains_grow_def)
    with q2 search_quiet_trans [OF q1] show ?thesis by simp
  qed (simp add: quiet_search_def)
qed

lemma ordered_not_looped:
  assumes g: "consistent g"
  shows "ordered_by g ts \<Longrightarrow> t \<in> set ts \<Longrightarrow> t \<notin> down.looped g"
proof (induction ts arbitrary: t)
  case (Cons u ts)
  show ?case
  proof
    assume l: "t \<in> down.looped g"
    with Cons have "t = u" by auto
    from down.looped_pred [OF l] obtain r where r: "(r, t) \<in> edges g" "r \<in> down.looped g" by blast
    then have "r \<in> set (revs_of g t)" using consistentD(5) [OF g] edges_nodes by blast
    with Cons r \<open>t = u\<close> show False by auto
  qed
qed simp

lemma search_chains_ok:
  assumes g: "consistent g" and n: "set tasks \<subseteq> nodes g"
  shows "\<exists>c. search_chains g tasks = Inr c \<and> chains_ok g c \<and>
     quiet_search g no_chains c \<and> (ch_valid c = [] \<longrightarrow> set tasks \<subseteq> set (dkeys (ch_explored c)))"
proof -
  let ?f = "\<lambda>task c. if ch_halted c then Inr c else find_chains g task [] c"
  have "\<exists>c'. foldE ?f ts c = Inr c' \<and> chains_ok g c' \<and> quiet_search g no_chains c' \<and>
      (ch_valid c' = [] \<longrightarrow> set us \<union> set ts \<subseteq> set (dkeys (ch_explored c')))"
    if "set ts \<subseteq> nodes g" "chains_ok g c" "quiet_search g no_chains c"
      "ch_valid c = [] \<longrightarrow> set us \<subseteq> set (dkeys (ch_explored c))" for ts us c
    using that
  proof (induction ts arbitrary: c us)
    case (Cons t ts)
    have "\<exists>c1. ?f t c = Inr c1 \<and> chains_ok g c1 \<and> quiet_search g no_chains c1 \<and>
        (ch_valid c1 = [] \<longrightarrow> set (t # us) \<subseteq> set (dkeys (ch_explored c1)))"
    proof (cases "ch_halted c")
      case True
      with Cons.prems show ?thesis by (auto simp: quiet_search_def)
    next
      case False
      with find_chains_ok(1) [OF g, of t "[]" c] Cons.prems obtain c1 where
        c1: "find_chains g t [] c = Inr c1" "chains_ok g c1" by auto
      from find_chains_quiet(1) [OF c1(1) False] have q: "quiet_search g c c1"
        "ch_valid c1 = [] \<longrightarrow> t \<in> set (dkeys (ch_explored c1))" by simp_all
      moreover have "ch_valid c1 = [] \<longrightarrow> set us \<subseteq> set (dkeys (ch_explored c1))"
        using q Cons.prems(4) unfolding quiet_search_def chains_grow_def by blast
      ultimately show ?thesis using c1 False search_quiet_trans [OF Cons.prems(3) q(1)] by auto
    qed
    then obtain c1 where c1: "?f t c = Inr c1" "chains_ok g c1" "quiet_search g no_chains c1"
      "ch_valid c1 = [] \<longrightarrow> set (t # us) \<subseteq> set (dkeys (ch_explored c1))" by blast
    from Cons.IH [OF _ c1(2-4)] Cons.prems(1) c1(1) show ?case by simp
  qed simp
  from this [of tasks no_chains "[]"] n show ?thesis
    unfolding search_chains_def by (simp add: search_quiet_refl chains_ok_def no_chains_def)
qed

lemma search_chains_result:
  assumes "consistent g" and "set tasks \<subseteq> nodes g"
  shows "\<exists>c. search_chains g tasks = Inr c \<and> (\<forall>ch \<in> set (ch_valid c). is_loop g ch) \<and>
    distinct (ch_valid c) \<and> length (ch_valid c) \<le> 11 \<and>
    ((\<exists>t \<in> set tasks. t \<in> down.looped g) \<longrightarrow> ch_valid c \<noteq> [])"
proof -
  from search_chains_ok [OF assms] obtain c where c: "search_chains g tasks = Inr c" "chains_ok g c"
    "quiet_search g no_chains c" "ch_valid c = [] \<longrightarrow> set tasks \<subseteq> set (dkeys (ch_explored c))" by blast
  have "ordered_by g (rev (dkeys (ch_explored c)))" if "ch_valid c = []"
    using c(3) that by (simp add: quiet_search_def explored_order_def no_chains_def)
  then have "t \<notin> down.looped g" if "ch_valid c = []" "t \<in> set tasks" for t
    using ordered_not_looped [OF assms(1)] c(4) that by (metis set_rev subsetD)
  with c(1,2) show ?thesis unfolding chains_ok_def by (auto split: if_splits)
qed

text \<open>C14. The search for dependency loops always ends; every loop it reports is a loop of the graph
  of tasks, no loop is reported twice, at most eleven are, and at least one is when one of the tasks
  is on a cycle or a task on a cycle depends on it.\<close>

theorem circular_chains_sound:
  assumes "consistent g" and "set tasks \<subseteq> nodes g"
  shows "\<exists>c. search_chains g tasks = Inr c \<and> circular_depchains_handler g tasks = Inr (ch_msgs c) \<and>
    (\<forall>ch \<in> set (ch_valid c). is_loop g ch) \<and> distinct (ch_valid c) \<and> length (ch_valid c) \<le> 11 \<and>
    ((\<exists>t \<in> set tasks. t \<in> down.looped g) \<longrightarrow> ch_valid c \<noteq> [])"
  using search_chains_result [OF assms] by (auto simp: circular_depchains_handler_def)

definition two_tasks :: taskgraph where
  "two_tasks = [(''a'', new_entry\<lparr>re_depends := [''b''], re_revdeps := [''b'']\<rparr>),
     (''b'', new_entry\<lparr>re_depends := [''a''], re_revdeps := [''a'']\<rparr>)]"

lemma two_tasks_consistent: "consistent two_tasks" "nodes two_tasks = {''a'', ''b''}"
  by (auto simp: consistent_def nodes_def two_tasks_def dget_default_def new_entry_def)

lemma circular_chains_sound_witness:
  "\<exists>c. search_chains two_tasks [''a'', ''b''] = Inr c \<and> (\<forall>ch \<in> set (ch_valid c). is_loop two_tasks ch)"
  using circular_chains_sound [of two_tasks "[''a'', ''b'']"] two_tasks_consistent by auto

lemma set_weights_get: "dget (set_weights w g) t =
    map_option (\<lambda>e. e\<lparr>re_weight := dget_default w t 0\<rparr>) (dget g t)"
  by (induction g) (auto simp: set_weights_def)

lemma nodes_set_weights: "nodes (set_weights w g) = nodes g"
  by (auto simp: nodes_has dhas_iff set_weights_get)

lemma consistent_set_weights: "consistent g \<Longrightarrow> consistent (set_weights w g)"
proof -
  have "deps_of (set_weights w g) t = deps_of g t" "revs_of (set_weights w g) t = revs_of g t" for t
    by (auto simp: dget_default_def set_weights_get split: option.splits)
  moreover have "dkeys (set_weights w g) = dkeys g" by (auto simp: set_weights_def)
  ultimately show "consistent g \<Longrightarrow> consistent (set_weights w g)"
    by (simp add: consistent_def nodes_set_weights)
qed

lemma task_weights_result:
  assumes g: "consistent g"
  shows "\<exists>r v. calculate_task_weights g (final_tasks g) = Inr (r, set_weights v g) \<and>
    (case r of
       WeightsOf w \<Rightarrow> w = v \<and> acyclic (edges g) \<and>
         (\<forall>t \<in> nodes g. dget w t = Some (base_weight (set (final_tasks g)) t +
            (\<Sum>r \<in> set (revs_of g t). dget_default w r 0)))
     | Unbuildable tasks msgs \<Rightarrow> \<not> acyclic (edges g) \<and> set tasks = down.looped g)"
proof -
  from weights_loop_result [OF g] obtain s where
    s: "weights_loop g (final_tasks g) (weights_start g (final_tasks g)) = Inr s"
    "set (problem_tasks g s) = down.looped g"
    "\<And>t. t \<in> nodes g \<Longrightarrow> dget (ws_weight s) t = Some (base_weight (set (final_tasks g)) t +
       (\<Sum>r \<in> {r. (r, t) \<in> edges g \<and> r \<notin> down.looped g}. dget_default (ws_weight s) r 0))"
    by blast
  show ?thesis
  proof (cases "problem_tasks g s = []")
    case True
    then have e: "down.looped g = {}" using s(2) by simp
    then have "{r. (r, t) \<in> edges g \<and> r \<notin> down.looped g} = set (revs_of g t)" if "t \<in> nodes g" for t
      using consistentD(5) [OF g that] by simp
    with s True e down.looped_empty [of g] show ?thesis
      by (simp add: calculate_task_weights_def)
  next
    case False
    have sub: "set (problem_tasks g s) \<subseteq> nodes g" by (auto simp: problem_tasks_def nodes_def)
    have "\<exists>c. search_chains h (problem_tasks g s) = Inr c" if "consistent h" "nodes h = nodes g" for h
      using search_chains_ok [OF that(1)] sub that(2) by blast
    moreover have "consistent (set_weights w g)" "nodes (set_weights w g) = nodes g" for w
      by (rule consistent_set_weights [OF g], rule nodes_set_weights)
    ultimately obtain c where "search_chains (set_weights (ws_weight s) g) (problem_tasks g s) = Inr c" by blast
    moreover have "down.looped g \<noteq> {}" using False s(2) by (metis set_empty)
    moreover from calculation have "calculate_task_weights g (final_tasks g) =
        Inr (Unbuildable (problem_tasks g s) (ch_msgs c), set_weights (ws_weight s) g)"
      using s(1) False by (simp add: calculate_task_weights_def circular_depchains_handler_def Let_def)
    ultimately show ?thesis using s(2) down.looped_empty [of g]
      by (intro exI [of _ "Unbuildable (problem_tasks g s) (ch_msgs c)"] exI [of _ "ws_weight s"]) simp
  qed
qed

text \<open>C13. From the final tasks of a graph, the weights are computed exactly when the graph has no
  cycle. Then the weight of a task is 10 for a final task and 1 for another, plus the weights of
  all the tasks that depend on it; otherwise the tasks reported are those on a cycle and those
  such a task depends on.\<close>

theorem task_weights_correct:
  assumes g: "consistent g"
  shows "\<exists>r g'. calculate_task_weights g (final_tasks g) = Inr (r, g') \<and>
    (case r of
       WeightsOf w \<Rightarrow> acyclic (edges g) \<and>
         (\<forall>t \<in> nodes g. dget w t = Some (base_weight (set (final_tasks g)) t +
            (\<Sum>r \<in> set (revs_of g t). dget_default w r 0)))
     | Unbuildable tasks msgs \<Rightarrow> \<not> acyclic (edges g) \<and> set tasks = down.looped g)"
proof -
  from task_weights_result [OF g] obtain r v where
    "calculate_task_weights g (final_tasks g) = Inr (r, set_weights v g)"
    "case r of WeightsOf w \<Rightarrow> w = v \<and> acyclic (edges g) \<and>
         (\<forall>t \<in> nodes g. dget w t = Some (base_weight (set (final_tasks g)) t +
            (\<Sum>r \<in> set (revs_of g t). dget_default w r 0)))
     | Unbuildable tasks msgs \<Rightarrow> \<not> acyclic (edges g) \<and> set tasks = down.looped g" by blast
  then show ?thesis by (intro exI [of _ r] exI [of _ "set_weights v g"]) (cases r, simp_all)
qed

lemma task_weights_correct_witness:
  "\<exists>r g'. calculate_task_weights two_tasks (final_tasks two_tasks) = Inr (r, g') \<and>
    (case r of WeightsOf w \<Rightarrow> acyclic (edges two_tasks) | Unbuildable tasks msgs \<Rightarrow> set tasks = down.looped two_tasks)"
  using task_weights_correct [OF two_tasks_consistent(1)] by (auto split: weights_result.splits)

end
