(* ===== verification/PrepareDeps.thy ===== *)
theory PrepareDeps
  imports Weights TaskFailure
begin

text \<open>
  The first step of \<^verbatim>\<open>RunQueueData.prepare\<close> in \<^verbatim>\<open>bb/runqueue.py\<close>: the
  dependencies of every task, from the task data and the recipes, and the fixpoint of the recursive
  ones. \<open>caches\<close> is \<^verbatim>\<open>self.dataCaches\<close> and \<open>mc\<close> the name of a multiconfig.
\<close>

section \<open>Dependencies of one task\<close>

text \<open>
  \<open>prep\<close> holds \<^verbatim>\<open>runtaskentries\<close>, the task data, \<^verbatim>\<open>recursivetasks\<close>,
  \<^verbatim>\<open>recursiveitasks\<close> and \<^verbatim>\<open>recursivetasksselfref\<close>.
\<close>

record prep =
  pr_graph :: taskgraph
  pr_taskData :: "(string, taskdata) odict"
  pr_recursive :: "(string, string list) odict"
  pr_recursivei :: "(string, string list) odict"
  pr_selfref :: "string list"

type_synonym caches = "(string, cachedata) odict"

definition tid_of :: "string \<Rightarrow> string \<Rightarrow> string" where
  "tid_of fn taskname = fn @ [colon] @ taskname"

text \<open>The tasks of the first provider of each name that exist.\<close>

definition add_provider_tasks :: "taskdata \<Rightarrow> string list \<Rightarrow> string list \<Rightarrow> string list \<Rightarrow> string list" where
  "add_provider_tasks td providers tasknames depends =
     (case providers of
        [] \<Rightarrow> depends
      | depdata # _ \<Rightarrow>
          fold (\<lambda>taskname ds. let t = tid_of depdata taskname
                 in if dhas (tk_taskentries td) t then sadd t ds else ds) tasknames depends)"

definition add_build_dependencies :: "taskdata \<Rightarrow> string list \<Rightarrow> string list \<Rightarrow> string list \<Rightarrow> string list" where
  "add_build_dependencies td depids tasknames depends =
     fold (\<lambda>depname ds. if dhas (tk_build_targets td) depname
            then add_provider_tasks td (dget_default (tk_build_targets td) depname []) tasknames ds else ds)
       depids depends"

definition add_runtime_dependencies :: "taskdata \<Rightarrow> string list \<Rightarrow> string list \<Rightarrow> string list \<Rightarrow> string list" where
  "add_runtime_dependencies td depids tasknames depends =
     fold (\<lambda>depname ds. if dhas (tk_run_targets td) depname
            then add_provider_tasks td (dget_default (tk_run_targets td) depname []) tasknames ds else ds)
       depids depends"

definition lindex :: "'a list \<Rightarrow> nat \<Rightarrow> 'a result" where
  "lindex xs i = (if i < length xs then Inr (xs ! i) else Inl IndexError)"

text \<open>An entry of \<^verbatim>\<open>mcdepends\<close> is \<^verbatim>\<open>mc:from:to:pn:task\<close>.\<close>

definition add_mc_dependency :: "string \<Rightarrow> string \<Rightarrow> string \<Rightarrow> (string, taskdata) odict \<Rightarrow> (string, taskdata) odict result" where
  "add_mc_dependency mc tid dep taskData =
     (let mcdependency = split_on colon dep in
      bindE (lindex mcdependency 3) (\<lambda>pn.
      bindE (lindex mcdependency 1) (\<lambda>frommc.
      bindE (lindex mcdependency 2) (\<lambda>mcdep.
      bindE (lindex mcdependency 4) (\<lambda>deptask.
      case dget taskData mcdep of
        None \<Rightarrow> Inl (BBFatal dep)
      | Some td \<Rightarrow>
          if mc = frommc
          then bindE (dindex (tk_build_targets td) pn) (\<lambda>fns.
               bindE (lindex fns 0) (\<lambda>fn.
               let newdep = tid_of fn deptask
               in if \<not> dhas (tk_taskentries td) newdep then Inl (BBFatal newdep)
                  else bindE (dindex taskData mc) (\<lambda>mytd.
                       bindE (dindex (tk_taskentries mytd) tid) (\<lambda>te.
                       Inr (dset mc (mytd\<lparr>tk_taskentries :=
                              dset tid (te\<lparr>te_tdepends := te_tdepends te @ [newdep]\<rparr>) (tk_taskentries mytd)\<rparr>) taskData)))))
          else Inr taskData)))))"

definition add_mc_dependencies :: "string \<Rightarrow> string \<Rightarrow> (string, taskdata) odict \<Rightarrow> (string, taskdata) odict result" where
  "add_mc_dependencies mc tid taskData =
     bindE (dindex taskData mc) (\<lambda>td. foldE (add_mc_dependency mc tid) (tk_mcdepends td) taskData)"

text \<open>The identifiers of the task's own dependencies, split and built again.\<close>

definition add_tdepends :: "string list \<Rightarrow> string list \<Rightarrow> string list result" where
  "add_tdepends tdepends depends =
     foldE (\<lambda>t ds. bindE (split_tid_mcfn t) (\<lambda>(depmc, depfn, deptaskname, _).
              Inr (sadd (build_tid depmc depfn deptaskname) ds))) tdepends depends"

definition add_idepends :: "taskdata \<Rightarrow> (string \<times> string) list \<Rightarrow> string list \<Rightarrow> string list result" where
  "add_idepends td idepends depends =
     foldE (\<lambda>d ds. case dget (tk_build_targets td) (fst d) of
         Some (depdata # _) \<Rightarrow>
           if fst d \<in> set (tk_failed_deps td) then Inr ds
           else let t = tid_of depdata (snd d)
                in if dhas (tk_taskentries td) t then Inr (sadd t ds) else Inl (BBFatal t)
       | _ \<Rightarrow> Inr ds) idepends depends"

definition add_irdepends :: "taskdata \<Rightarrow> (string \<times> string) list \<Rightarrow> string list \<Rightarrow> string list result" where
  "add_irdepends td irdepends depends =
     foldE (\<lambda>d ds. case dget (tk_run_targets td) (fst d) of
         Some (depdata # _) \<Rightarrow>
           let t = tid_of depdata (snd d)
           in if dhas (tk_taskentries td) t then Inr (sadd t ds) else Inl (BBFatal t)
       | _ \<Rightarrow> Inr ds) irdepends depends"

definition add_deptask :: "taskdata \<Rightarrow> taskdeps \<Rightarrow> string \<Rightarrow> string \<Rightarrow> string list \<Rightarrow> string list result" where
  "add_deptask td task_deps taskname taskfn depends =
     (case task_flag task_deps ''deptask'' taskname of
        None \<Rightarrow> Inr depends
      | Some v \<Rightarrow> bindE (dindex (tk_depids td) taskfn) (\<lambda>ids. Inr (add_build_dependencies td ids (split_ws v) depends)))"

definition add_rdeptask :: "taskdata \<Rightarrow> taskdeps \<Rightarrow> string \<Rightarrow> string \<Rightarrow> string list \<Rightarrow> string list result" where
  "add_rdeptask td task_deps taskname taskfn depends =
     (case task_flag task_deps ''rdeptask'' taskname of
        None \<Rightarrow> Inr depends
      | Some v \<Rightarrow> bindE (dindex (tk_rdepids td) taskfn) (\<lambda>ids. Inr (add_runtime_dependencies td ids (split_ws v) depends)))"

text \<open>The first part of the recursive dependencies, which also records the task.\<close>

definition add_recrdeptask ::
  "taskdata \<Rightarrow> taskdeps \<Rightarrow> string \<Rightarrow> string \<times> string \<times> string \<times> string \<Rightarrow> string list \<times> prep \<Rightarrow> (string list \<times> prep) result" where
  "add_recrdeptask td task_deps tid = (\<lambda>(mc, fn, taskname, taskfn) (depends, p).
     case task_flag task_deps ''recrdeptask'' taskname of
       None \<Rightarrow> Inr (depends, p)
     | Some v \<Rightarrow>
         (let tasknames = split_ws v in
          bindE (dindex (tk_depids td) taskfn) (\<lambda>depids.
          bindE (dindex (tk_rdepids td) taskfn) (\<lambda>rdepids.
          Inr (add_runtime_dependencies td rdepids tasknames (add_build_dependencies td depids tasknames depends),
               p\<lparr>pr_recursive := dset tid tasknames (pr_recursive p),
                 pr_selfref := (if taskname \<in> set tasknames then sadd tid (pr_selfref p) else pr_selfref p),
                 pr_recursivei :=
                   (case task_flag task_deps ''recideptask'' taskname of
                      None \<Rightarrow> pr_recursivei p
                    | Some u \<Rightarrow> dset tid (map (build_tid mc fn) (split_ws u)) (pr_recursivei p))\<rparr>)))))"

definition task_depends ::
  "taskdata \<Rightarrow> taskdeps \<Rightarrow> taskentry \<Rightarrow> string \<Rightarrow> string \<times> string \<times> string \<times> string \<Rightarrow> prep \<Rightarrow> (string list \<times> prep) result" where
  "task_depends td task_deps te tid parts p =
     (let taskname = fst (snd (snd parts)); taskfn = snd (snd (snd parts)) in
      bindE (add_tdepends (te_tdepends te) []) (\<lambda>ds.
      bindE (add_deptask td task_deps taskname taskfn ds) (\<lambda>ds.
      bindE (add_rdeptask td task_deps taskname taskfn ds) (\<lambda>ds.
      bindE (add_idepends td (te_idepends te) ds) (\<lambda>ds.
      bindE (add_irdepends td (te_irdepends te) ds) (\<lambda>ds.
      bindE (add_recrdeptask td task_deps tid parts (ds, p)) (\<lambda>(ds, p).
      Inr (sdiscard tid ds, p))))))))"

definition set_depends :: "string \<Rightarrow> string list \<Rightarrow> taskgraph \<Rightarrow> taskgraph" where
  "set_depends tid ds g = dset tid ((dget_default g tid new_entry)\<lparr>re_depends := ds\<rparr>) g"

text \<open>The dependencies of a task whose file has not failed.\<close>

definition resolve_task :: "string \<Rightarrow> string \<times> string \<times> string \<times> string \<Rightarrow> taskdeps \<Rightarrow> prep \<Rightarrow> prep result" where
  "resolve_task tid parts task_deps p =
     bindE (if task_flag task_deps ''mcdepends'' (fst (snd (snd parts))) \<noteq> None
            then add_mc_dependencies (fst parts) tid (pr_taskData p) else Inr (pr_taskData p)) (\<lambda>taskData.
     bindE (dindex taskData (fst parts)) (\<lambda>td.
     bindE (dindex (tk_taskentries td) tid) (\<lambda>te.
     bindE (task_depends td task_deps te tid parts (p\<lparr>pr_taskData := taskData\<rparr>)) (\<lambda>r.
     Inr ((snd r)\<lparr>pr_graph := set_depends tid (fst r) (pr_graph (snd r))\<rparr>)))))"

text \<open>The body of the loop over the tasks of the task data.\<close>

definition prepare_task :: "caches \<Rightarrow> string \<Rightarrow> prep \<Rightarrow> prep result" where
  "prepare_task caches tid p =
     bindE (split_tid_mcfn tid) (\<lambda>(mc, fn, taskname, taskfn).
     bindE (dindex caches mc) (\<lambda>c.
     bindE (dindex (dc_task_deps c) taskfn) (\<lambda>task_deps.
     let p = p\<lparr>pr_graph := dset tid new_entry (pr_graph p)\<rparr> in
     bindE (dindex (pr_taskData p) mc) (\<lambda>td.
     if fn \<in> set (tk_failed_fns td) then Inr p
     else resolve_task tid (mc, fn, taskname, taskfn) task_deps p))))"

definition all_tids :: "(string, taskdata) odict \<Rightarrow> string list" where
  "all_tids taskData = concat (map (\<lambda>kv. dkeys (tk_taskentries (snd kv))) taskData)"

definition prepare_tasks :: "caches \<Rightarrow> (string, taskdata) odict \<Rightarrow> prep result" where
  "prepare_tasks caches taskData =
     foldE (prepare_task caches) (all_tids taskData)
       \<lparr>pr_graph = [], pr_taskData = taskData, pr_recursive = [], pr_recursivei = [], pr_selfref = []\<rparr>"

section \<open>Cumulative dependencies\<close>

text \<open>The temporary reverse dependencies, the dependencies left and the files behind each task.\<close>

record cumul =
  cu_revdeps :: "(string, string list) odict"
  cu_deps :: "(string, string list) odict"
  cu_cumulative :: "(string, string list) odict"

definition cumul_start :: "taskgraph \<Rightarrow> cumul result" where
  "cumul_start g =
     (let empty = map (\<lambda>kv. (fst kv, [])) g
      in bindE (foldE (\<lambda>kv revdeps. foldE (\<lambda>dep revdeps.
                   bindE (dindex revdeps dep) (\<lambda>rs. Inr (dset dep (sadd (fst kv) rs) revdeps)))
                 (re_depends (snd kv)) revdeps) g empty) (\<lambda>revdeps.
         Inr \<lparr>cu_revdeps = revdeps, cu_deps = map (\<lambda>kv. (fst kv, re_depends (snd kv))) g,
              cu_cumulative = empty\<rparr>))"

definition cumul_visit :: "string \<Rightarrow> string \<Rightarrow> cumul \<times> string list \<Rightarrow> (cumul \<times> string list) result" where
  "cumul_visit tid dep = (\<lambda>(c, nxt).
     bindE (dindex (cu_cumulative c) dep) (\<lambda>cd.
     bindE (dindex (cu_cumulative c) tid) (\<lambda>ct.
     let cd = supdate (sadd (fn_from_tid tid) cd) ct in
     bindE (dindex (cu_deps c) dep) (\<lambda>ds.
     let ds = sdiscard tid ds;
         c = c\<lparr>cu_cumulative := dset dep cd (cu_cumulative c), cu_deps := dset dep ds (cu_deps c)\<rparr>
     in Inr (c, if ds = [] then sadd dep nxt else nxt)))))"

definition cumul_point :: "string \<Rightarrow> cumul \<times> string list \<Rightarrow> (cumul \<times> string list) result" where
  "cumul_point tid st = bindE (dindex (cu_revdeps (fst st)) tid) (\<lambda>rs. foldE (cumul_visit tid) rs st)"

partial_function (option) cumul_loop :: "string list \<Rightarrow> cumul \<Rightarrow> cumul result option" where
  "cumul_loop endpoints c =
     (if endpoints = [] then Some (Inr c)
      else case foldE cumul_point endpoints (c, []) of
             Inl e \<Rightarrow> Some (Inl e)
           | Inr r \<Rightarrow> cumul_loop (snd r) (fst r))"

declare cumul_loop.simps [code]

definition cumulative_deps :: "taskgraph \<Rightarrow> (string, string list) odict result option" where
  "cumulative_deps g =
     (case cumul_start g of
        Inl e \<Rightarrow> Some (Inl e)
      | Inr c \<Rightarrow>
          map_option (\<lambda>r. bindE r (\<lambda>c. Inr (cu_cumulative c)))
            (cumul_loop (filter (\<lambda>t. dget_default (cu_deps c) t [] = []) (dkeys g)) c))"

section \<open>Recursive dependencies\<close>

text \<open>
  The dependencies that the recursive task's own files and its \<^verbatim>\<open>recideptask\<close> tasks lead to.
\<close>

definition total_deps :: "taskgraph \<Rightarrow> prep \<Rightarrow> string \<Rightarrow> string list \<Rightarrow> string list" where
  "total_deps g p tid depends =
     (case dget (pr_recursivei p) tid of
        None \<Rightarrow> depends
      | Some itasks \<Rightarrow>
          fold (\<lambda>dep ds. case dget g dep of None \<Rightarrow> ds | Some e \<Rightarrow> supdate ds (re_depends e)) itasks
            (supdate depends itasks))"

text \<open>A step of the first inner loop: the number of dependencies added and the new ones.\<close>

definition add_recursive :: "taskgraph \<Rightarrow> string \<Rightarrow> string \<Rightarrow> nat \<times> string list \<Rightarrow> nat \<times> string list" where
  "add_recursive g tid newtid = (\<lambda>(n, ds).
     if newtid \<noteq> tid \<and> dhas g newtid \<and> newtid \<notin> set ds then (Suc n, sadd newtid ds) else (n, ds))"

text \<open>A step of the second inner loop.\<close>

definition add_through :: "taskgraph \<Rightarrow> string list \<Rightarrow> string \<Rightarrow> nat \<times> string list \<Rightarrow> nat \<times> string list" where
  "add_through g tasknames newtid st =
     fold (\<lambda>taskname (n, ds).
         if endswith newtid (colon # taskname) \<and> dhas g newtid then (Suc n, sadd newtid ds) else (n, ds))
       tasknames st"

definition files_behind :: "(string, string list) odict \<Rightarrow> string list \<Rightarrow> string list" where
  "files_behind cumulativedeps totaldeps =
     fold (\<lambda>dep ds. case dget cumulativedeps dep of None \<Rightarrow> ds | Some fs \<Rightarrow> supdate ds fs) totaldeps []"

definition add_recursives :: "taskgraph \<Rightarrow> string \<Rightarrow> string list \<Rightarrow> string list \<Rightarrow> nat \<times> string list \<Rightarrow> nat \<times> string list" where
  "add_recursives g tid tasknames deps st =
     fold (\<lambda>t st. fold (\<lambda>taskname st. add_recursive g tid (tid_of t taskname) st) tasknames st) deps st"

definition collect_through :: "prep \<Rightarrow> taskgraph \<Rightarrow> string \<Rightarrow> string list \<Rightarrow> string list result" where
  "collect_through p g tid ds =
     foldE (\<lambda>dep new. bindE (dindex g dep) (\<lambda>d. Inr (supdate new (sdiff (if dep = tid then ds else re_depends d) ds))))
       (sinter ds (dkeys (pr_recursive p))) []"

definition recursive_task :: "(string, string list) odict \<Rightarrow> prep \<Rightarrow> string \<times> string list \<Rightarrow> nat \<times> taskgraph \<Rightarrow> (nat \<times> taskgraph) result" where
  "recursive_task cumulativedeps p kv = (\<lambda>(n, g).
     bindE (dindex g (fst kv)) (\<lambda>e.
     let totaldeps = total_deps g p (fst kv) (re_depends e);
         st = add_recursives g (fst kv) (snd kv) (files_behind cumulativedeps totaldeps) (n, re_depends e)
     in bindE (collect_through p g (fst kv) (snd st)) (\<lambda>through.
        let st = fold (add_through g (snd kv)) through st
        in Inr (fst st, set_depends (fst kv) (snd st) g))))"

definition recursive_round :: "(string, string list) odict \<Rightarrow> prep \<Rightarrow> taskgraph \<Rightarrow> (nat \<times> taskgraph) result" where
  "recursive_round cumulativedeps p g = foldE (recursive_task cumulativedeps p) (pr_recursive p) (0, g)"

section \<open>The fixpoint of the recursive dependencies\<close>

text \<open>Counting: a step that adds nothing to the counter changes nothing.\<close>

definition counts :: "nat \<times> 'a \<Rightarrow> nat \<times> 'a \<Rightarrow> bool" where
  "counts st st' \<longleftrightarrow> fst st \<le> fst st' \<and> (fst st' = fst st \<longrightarrow> snd st' = snd st)"

lemma counts_refl [simp]: "counts st st"
  by (simp add: counts_def)

lemma counts_trans: "counts a b \<Longrightarrow> counts b c \<Longrightarrow> counts a c"
  by (auto simp: counts_def)

lemma fold_counts:
  assumes "\<And>x st. x \<in> set xs \<Longrightarrow> counts st (f x st)"
  shows "counts st (fold f xs st)"
  using assms
proof (induction xs arbitrary: st)
  case (Cons x xs)
  have "counts (f x st) (fold f xs (f x st))" by (rule Cons.IH) (rule Cons.prems, simp)
  moreover have "counts st (f x st)" by (rule Cons.prems) simp
  ultimately show ?case using counts_trans by simp
qed simp

lemma fold_counts_fixed:
  assumes "\<And>x st. x \<in> set xs \<Longrightarrow> counts st (f x st)" and "fst (fold f xs st) = fst st" and "x \<in> set xs"
  shows "f x st = st"
  using assms
proof (induction xs arbitrary: st)
  case (Cons y xs)
  have a: "counts st (f y st)" by (rule Cons.prems(1)) simp
  have b: "counts (f y st) (fold f xs (f y st))"
    by (rule fold_counts) (rule Cons.prems(1), simp)
  from a b Cons.prems(2) have e: "f y st = st" by (auto simp: counts_def prod_eq_iff)
  show ?case
  proof (cases "x = y")
    case False
    with Cons.prems e Cons.IH [of st] show ?thesis by auto
  qed (use e in simp)
qed simp

text \<open>Growing: the dependencies are kept, and the counter moves only when a task of the graph is new.\<close>

definition grows :: "taskgraph \<Rightarrow> nat \<times> string list \<Rightarrow> nat \<times> string list \<Rightarrow> bool" where
  "grows g st st' \<longleftrightarrow> counts st st' \<and> set (snd st) \<subseteq> set (snd st') \<and>
     set (snd st') \<subseteq> set (snd st) \<union> nodes g \<and> (distinct (snd st) \<longrightarrow> distinct (snd st')) \<and>
     (fst st < fst st' \<longrightarrow> (\<exists>x \<in> nodes g. x \<notin> set (snd st) \<and> x \<in> set (snd st')))"

lemma grows_refl [simp]: "grows g st st"
  by (simp add: grows_def)

lemma grows_trans:
  assumes "grows g a b" and "grows g b c"
  shows "grows g a c"
proof -
  have "\<exists>x \<in> nodes g. x \<notin> set (snd a) \<and> x \<in> set (snd c)" if "fst a < fst c"
  proof (cases "fst a < fst b")
    case True
    with assms show ?thesis unfolding grows_def by blast
  next
    case False
    with assms(1) have "snd b = snd a" "fst b = fst a" by (auto simp: grows_def counts_def)
    with assms(2) that show ?thesis by (simp add: grows_def)
  qed
  with assms show ?thesis unfolding grows_def using counts_trans by blast
qed

lemma fold_grows:
  assumes "\<And>x st. x \<in> set xs \<Longrightarrow> grows g st (f x st)"
  shows "grows g st (fold f xs st)"
  using assms
proof (induction xs arbitrary: st)
  case (Cons x xs)
  have "grows g (f x st) (fold f xs (f x st))" by (rule Cons.IH) (rule Cons.prems, simp)
  moreover have "grows g st (f x st)" by (rule Cons.prems) simp
  ultimately show ?case using grows_trans by simp
qed simp

lemma add_recursive_grows: "grows g st (add_recursive g tid newtid st)"
  by (cases st) (auto simp: add_recursive_def grows_def counts_def nodes_has)

lemma add_through_cases:
  "add_through g tasknames x (n, ds) = (n, ds) \<or>
   (\<exists>m. add_through g tasknames x (n, ds) = (m, sadd x ds) \<and> n < m \<and> x \<in> nodes g)"
proof -
  let ?P = "\<lambda>st. st = (n, ds) \<or> (\<exists>m. st = (m, sadd x ds) \<and> n < m \<and> x \<in> nodes g)"
  have "?P (add_through g tasknames x (n, ds))"
    unfolding add_through_def
    by (rule fold_invariant_mem [where P = ?P]) (auto simp: nodes_has sadd_def split: prod.splits)
  then show ?thesis .
qed

lemma add_through_counts: "counts st (add_through g tasknames x st)"
  using add_through_cases [of g tasknames x "fst st" "snd st"] by (auto simp: counts_def)

lemma add_through_same:
  assumes "add_through g tasknames x (n, ds) = (n, ds)" and "taskname \<in> set tasknames"
  shows "\<not> (endswith x (colon # taskname) \<and> x \<in> nodes g)"
proof -
  let ?f = "\<lambda>taskname (n, ds). if endswith x (colon # taskname) \<and> dhas g x then (Suc n, sadd x ds) else (n, ds)"
  have "?f taskname (n, ds) = (n, ds)"
    by (rule fold_counts_fixed [of tasknames ?f])
      (use assms in \<open>auto simp: counts_def add_through_def split: prod.splits if_splits\<close>)
  then show ?thesis by (auto simp: nodes_has)
qed

lemma fold_through_grows:
  "distinct xs \<Longrightarrow> set xs \<inter> set ds = {} \<Longrightarrow> grows g (n, ds) (fold (add_through g tasknames) xs (n, ds))"
proof (induction xs arbitrary: n ds)
  case (Cons x xs)
  from add_through_cases [of g tasknames x n ds] show ?case
  proof (elim disjE exE conjE)
    assume "add_through g tasknames x (n, ds) = (n, ds)"
    with Cons show ?thesis by simp
  next
    fix m assume m: "add_through g tasknames x (n, ds) = (m, sadd x ds)" "n < m" "x \<in> nodes g"
    have "grows g (m, sadd x ds) (fold (add_through g tasknames) xs (m, sadd x ds))"
      using Cons by (intro Cons.IH) auto
    moreover have "grows g (n, ds) (m, sadd x ds)"
      using m Cons.prems by (auto simp: grows_def counts_def)
    ultimately show ?thesis using m(1) grows_trans by simp
  qed
qed simp

subsection \<open>Replacing the dependencies of a task\<close>

lemma set_depends_get: "dget_default (set_depends t ds g) u new_entry =
    (if u = t then (dget_default g t new_entry)\<lparr>re_depends := ds\<rparr> else dget_default g u new_entry)"
  by (simp add: set_depends_def dict_simps)

lemma deps_set_depends [simp]: "deps_of (set_depends t ds g) u = (if u = t then ds else deps_of g u)"
  by (simp add: set_depends_get)

lemma revs_set_depends [simp]: "revs_of (set_depends t ds g) u = revs_of g u"
  by (simp add: set_depends_get)

lemma nodes_set_depends [simp]: "t \<in> nodes g \<Longrightarrow> nodes (set_depends t ds g) = nodes g"
  using keys_dset [of t _ g] by (auto simp: nodes_def set_depends_def)

lemma dset_same: "dget d k = Some v \<Longrightarrow> dset k v d = d"
  by (induction d) auto

lemma set_depends_same: "t \<in> nodes g \<Longrightarrow> set_depends t (deps_of g t) g = g"
  unfolding set_depends_def by (rule dset_same) (auto simp: nodes_has dhas_iff)

text \<open>The number of pairs of tasks that are not yet dependencies.\<close>

definition missing_deps :: "taskgraph \<Rightarrow> nat" where
  "missing_deps g = (\<Sum>t \<in> nodes g. card (nodes g - set (deps_of g t)))"

lemma missing_deps_set_depends:
  assumes t: "t \<in> nodes g" and gr: "grows g (n, deps_of g t) (n', ds)"
  shows "missing_deps (set_depends t ds g) \<le> missing_deps g"
    and "n < n' \<Longrightarrow> missing_deps (set_depends t ds g) < missing_deps g"
proof -
  have fin: "finite (nodes g)" by (simp add: nodes_def)
  have le: "card (nodes g - set (deps_of (set_depends t ds g) u)) \<le> card (nodes g - set (deps_of g u))" for u
    using gr by (intro card_mono) (auto simp: grows_def nodes_def)
  then show "missing_deps (set_depends t ds g) \<le> missing_deps g"
    unfolding missing_deps_def using t by (simp only: nodes_set_depends) (rule sum_mono)
  assume "n < n'"
  with gr obtain x where "x \<in> nodes g" "x \<notin> set (deps_of g t)" "x \<in> set ds" "set (deps_of g t) \<subseteq> set ds"
    by (auto simp: grows_def)
  then have "card (nodes g - set (deps_of (set_depends t ds g) t)) < card (nodes g - set (deps_of g t))"
    using fin by (intro psubset_card_mono) auto
  with t le fin show "missing_deps (set_depends t ds g) < missing_deps g"
    unfolding missing_deps_def by (simp only: nodes_set_depends) (rule sum_strict_mono_ex1, auto)
qed

subsection \<open>One task and one round\<close>

definition through_deps :: "prep \<Rightarrow> taskgraph \<Rightarrow> string \<Rightarrow> string list \<Rightarrow> string list" where
  "through_deps p g tid ds =
     fold (\<lambda>dep new. supdate new (sdiff (if dep = tid then ds else deps_of g dep) ds))
       (sinter ds (dkeys (pr_recursive p))) []"

lemma foldE_fold: "(\<And>x s. x \<in> set xs \<Longrightarrow> f x s = Inr (h x s)) \<Longrightarrow> foldE f xs s = Inr (fold h xs s)"
  by (induction xs arbitrary: s) auto

lemma collect_through_eq:
  assumes "set (dkeys (pr_recursive p)) \<subseteq> nodes g"
  shows "collect_through p g tid ds = Inr (through_deps p g tid ds)"
  unfolding collect_through_def through_deps_def
  using assms by (intro foldE_fold) (auto simp: dindex_node subset_iff)

text \<open>The two passes over one recursive task.\<close>

definition first_pass :: "(string, string list) odict \<Rightarrow> prep \<Rightarrow> taskgraph \<Rightarrow> string \<times> string list \<Rightarrow> nat \<Rightarrow> nat \<times> string list" where
  "first_pass cd p g kv n =
     add_recursives g (fst kv) (snd kv) (files_behind cd (total_deps g p (fst kv) (deps_of g (fst kv)))) (n, deps_of g (fst kv))"

definition second_pass :: "prep \<Rightarrow> taskgraph \<Rightarrow> string \<times> string list \<Rightarrow> nat \<times> string list \<Rightarrow> nat \<times> string list" where
  "second_pass p g kv st = fold (add_through g (snd kv)) (through_deps p g (fst kv) (snd st)) st"

lemma recursive_task_eq:
  assumes t: "fst kv \<in> nodes g" and r: "set (dkeys (pr_recursive p)) \<subseteq> nodes g"
  shows "recursive_task cd p kv (n, g) =
     Inr (fst (second_pass p g kv (first_pass cd p g kv n)),
          set_depends (fst kv) (snd (second_pass p g kv (first_pass cd p g kv n))) g)"
  by (simp add: recursive_task_def dindex_node [OF t] collect_through_eq [OF r] Let_def first_pass_def second_pass_def)

lemma first_pass_grows: "grows g (n, deps_of g (fst kv)) (first_pass cd p g kv n)"
  unfolding first_pass_def add_recursives_def by (intro fold_grows add_recursive_grows)

lemma through_deps_set: "set (through_deps p g tid ds) =
    (\<Union>dep \<in> {dep \<in> set ds. dhas (pr_recursive p) dep}. set (if dep = tid then ds else deps_of g dep) - set ds)"
proof -
  have "set (fold (\<lambda>dep new. supdate new (sdiff (h dep) ds)) xs acc) = set acc \<union> (\<Union>dep \<in> set xs. set (h dep) - set ds)"
    for xs acc and h :: "string \<Rightarrow> string list"
    by (induction xs arbitrary: acc) auto
  then show ?thesis unfolding through_deps_def dhas_def by auto
qed

lemma through_deps_distinct: "distinct (through_deps p g tid ds)"
  unfolding through_deps_def by (rule fold_invariant_mem [where P = distinct]) simp_all

lemma second_pass_grows: "grows g st (second_pass p g kv st)"
proof (cases st)
  case (Pair n ds)
  have "grows g (n, ds) (fold (add_through g (snd kv)) (through_deps p g (fst kv) ds) (n, ds))"
    by (rule fold_through_grows [OF through_deps_distinct]) (auto simp: through_deps_set)
  then show ?thesis unfolding Pair second_pass_def by simp
qed

lemma recursive_task_grows:
  assumes t: "fst kv \<in> nodes g" and r: "set (dkeys (pr_recursive p)) \<subseteq> nodes g"
  shows "\<exists>n' ds. recursive_task cd p kv (n, g) = Inr (n', set_depends (fst kv) ds g) \<and>
    grows g (n, deps_of g (fst kv)) (n', ds)"
  unfolding recursive_task_eq [OF assms]
  by (rule exI, rule exI, rule conjI, rule refl)
    (simp add: grows_trans [OF first_pass_grows second_pass_grows])

text \<open>What holds of a recursive task when a pass over it adds nothing.\<close>

definition rec_closed :: "(string, string list) odict \<Rightarrow> prep \<Rightarrow> taskgraph \<Rightarrow> string \<times> string list \<Rightarrow> bool" where
  "rec_closed cd p g kv \<longleftrightarrow>
     (\<forall>dep \<in> set (total_deps g p (fst kv) (deps_of g (fst kv))). \<forall>f \<in> set (dget_default cd dep []).
        \<forall>taskname \<in> set (snd kv). tid_of f taskname \<in> nodes g \<longrightarrow>
          tid_of f taskname = fst kv \<or> tid_of f taskname \<in> set (deps_of g (fst kv))) \<and>
     (\<forall>dep \<in> set (deps_of g (fst kv)). dhas (pr_recursive p) dep \<longrightarrow>
        (\<forall>x \<in> set (deps_of g dep). \<forall>taskname \<in> set (snd kv).
           endswith x (colon # taskname) \<and> x \<in> nodes g \<longrightarrow> x \<in> set (deps_of g (fst kv))))"

lemma set_files_behind: "set (files_behind cd xs) = (\<Union>dep \<in> set xs. set (dget_default cd dep []))"
proof -
  have "set (fold (\<lambda>dep ds. case dget cd dep of None \<Rightarrow> ds | Some fs \<Rightarrow> supdate ds fs) xs acc) =
      set acc \<union> (\<Union>dep \<in> set xs. set (dget_default cd dep []))" for acc
    by (induction xs arbitrary: acc) (auto split: option.splits)
  then show ?thesis by (simp add: files_behind_def)
qed

lemma add_recursives_fixed:
  assumes "fst (add_recursives g tid tasknames files (n, ds)) = n" and "f \<in> set files"
    and "taskname \<in> set tasknames" and "tid_of f taskname \<in> nodes g"
  shows "tid_of f taskname = tid \<or> tid_of f taskname \<in> set ds"
proof -
  let ?h = "\<lambda>f taskname. add_recursive g tid (tid_of f taskname)"
  have c: "counts st (?h f taskname st)" for f taskname st
    using add_recursive_grows by (simp add: grows_def)
  have inner: "counts st (fold (?h f) tasknames st)" for f st by (rule fold_counts) (rule c)
  have "fold (?h f) tasknames (n, ds) = (n, ds)"
    by (rule fold_counts_fixed [of files "\<lambda>f. fold (?h f) tasknames", OF inner])
      (use assms in \<open>simp_all add: add_recursives_def\<close>)
  then have "?h f taskname (n, ds) = (n, ds)"
    by (intro fold_counts_fixed [of tasknames "?h f", OF c _ assms(3)]) simp
  with assms(4) show ?thesis by (auto simp: add_recursive_def nodes_has split: if_splits)
qed

lemma recursive_task_fixed:
  assumes t: "fst kv \<in> nodes g" and r: "set (dkeys (pr_recursive p)) \<subseteq> nodes g"
    and e: "recursive_task cd p kv (n, g) = Inr (n, g')"
  shows "g' = g \<and> rec_closed cd p g kv"
proof -
  let ?ds = "deps_of g (fst kv)"
  let ?st1 = "first_pass cd p g kv n"
  let ?st2 = "second_pass p g kv ?st1"
  have n2: "fst ?st2 = n" "g' = set_depends (fst kv) (snd ?st2) g"
    using e unfolding recursive_task_eq [OF t r] by simp_all
  have "counts (n, ?ds) ?st1" "counts ?st1 ?st2"
    using first_pass_grows second_pass_grows by (simp_all add: grows_def)
  with n2(1) have st: "?st1 = (n, ?ds)" "?st2 = (n, ?ds)" by (auto simp: counts_def prod_eq_iff)
  then have "g' = g" using n2 set_depends_same [OF t] by simp
  have one: "tid_of f taskname = fst kv \<or> tid_of f taskname \<in> set ?ds"
    if "f \<in> set (files_behind cd (total_deps g p (fst kv) ?ds))" "taskname \<in> set (snd kv)"
      "tid_of f taskname \<in> nodes g" for f taskname
  proof -
    have "fst (add_recursives g (fst kv) (snd kv) (files_behind cd (total_deps g p (fst kv) ?ds)) (n, ?ds)) = n"
      using st(1) by (simp add: first_pass_def)
    from add_recursives_fixed [OF this that] show ?thesis .
  qed
  have two: "x \<in> set ?ds" if "dep \<in> set ?ds" "dhas (pr_recursive p) dep" "x \<in> set (deps_of g dep)"
    "taskname \<in> set (snd kv)" "endswith x (colon # taskname)" "x \<in> nodes g" for dep x taskname
  proof (rule ccontr)
    assume new: "x \<notin> set ?ds"
    with that have "dep \<noteq> fst kv" by auto
    with that new have x: "x \<in> set (through_deps p g (fst kv) ?ds)"
      unfolding through_deps_set by (intro UN_I [of dep]) auto
    have "add_through g (snd kv) x (n, ?ds) = (n, ?ds)"
      by (rule fold_counts_fixed [OF add_through_counts _ x]) (use st in \<open>simp add: second_pass_def\<close>)
    from add_through_same [OF this that(4)] that(5,6) show False by simp
  qed
  have "rec_closed cd p g kv"
    unfolding rec_closed_def using one two by (auto simp: set_files_behind)
  with \<open>g' = g\<close> show ?thesis by simp
qed

subsection \<open>The loop\<close>

text \<open>How a step of the loop changes the dependencies of a task, and the graph.\<close>

definition deps_extend :: "bool \<Rightarrow> string set \<Rightarrow> string list \<Rightarrow> string list \<Rightarrow> bool" where
  "deps_extend rec V a b \<longleftrightarrow> set a \<subseteq> set b \<and> set b \<subseteq> set a \<union> V \<and> (distinct a \<longrightarrow> distinct b) \<and> (\<not> rec \<longrightarrow> b = a)"

definition extends :: "prep \<Rightarrow> nat \<times> taskgraph \<Rightarrow> nat \<times> taskgraph \<Rightarrow> bool" where
  "extends p st st' \<longleftrightarrow> fst st \<le> fst st' \<and> nodes (snd st') = nodes (snd st) \<and>
     (\<forall>u. deps_extend (dhas (pr_recursive p) u) (nodes (snd st)) (deps_of (snd st) u) (deps_of (snd st') u)) \<and>
     (\<forall>u. revs_of (snd st') u = revs_of (snd st) u) \<and>
     (distinct (dkeys (snd st)) \<longrightarrow> distinct (dkeys (snd st'))) \<and>
     missing_deps (snd st') \<le> missing_deps (snd st) \<and>
     (fst st < fst st' \<longrightarrow> missing_deps (snd st') < missing_deps (snd st))"

lemma deps_extend_trans: "deps_extend r V a b \<Longrightarrow> deps_extend r V b c \<Longrightarrow> deps_extend r V a c"
  by (auto simp: deps_extend_def)

lemma extends_refl [simp]: "extends p st st"
  by (simp add: extends_def deps_extend_def)

lemma extendsD:
  assumes "extends p st st'"
  shows "fst st \<le> fst st'" "nodes (snd st') = nodes (snd st)" "revs_of (snd st') u = revs_of (snd st) u"
    "deps_extend (dhas (pr_recursive p) u) (nodes (snd st)) (deps_of (snd st) u) (deps_of (snd st') u)"
    "distinct (dkeys (snd st)) \<Longrightarrow> distinct (dkeys (snd st'))" "missing_deps (snd st') \<le> missing_deps (snd st)"
    "fst st < fst st' \<Longrightarrow> missing_deps (snd st') < missing_deps (snd st)"
  using assms by (simp_all add: extends_def)

lemma extends_trans:
  assumes ab: "extends p a b" and bc: "extends p b c"
  shows "extends p a c"
  unfolding extends_def
proof (intro conjI allI impI)
  show "fst a \<le> fst c" using extendsD(1) [OF ab] extendsD(1) [OF bc] by (rule order_trans)
  show "nodes (snd c) = nodes (snd a)" using extendsD(2) [OF ab] extendsD(2) [OF bc] by simp
  show "revs_of (snd c) u = revs_of (snd a) u" for u using extendsD(3) [OF ab] extendsD(3) [OF bc] by simp
  show "deps_extend (dhas (pr_recursive p) u) (nodes (snd a)) (deps_of (snd a) u) (deps_of (snd c) u)" for u
    by (rule deps_extend_trans [OF extendsD(4) [OF ab] extendsD(4) [OF bc, unfolded extendsD(2) [OF ab]]])
  show "distinct (dkeys (snd c))" if "distinct (dkeys (snd a))"
    using extendsD(5) [OF bc extendsD(5) [OF ab that]] .
  show le: "missing_deps (snd c) \<le> missing_deps (snd a)"
    using extendsD(6) [OF ab] extendsD(6) [OF bc] by linarith
  assume "fst a < fst c"
  then have "fst a < fst b \<or> fst b < fst c" by linarith
  then show "missing_deps (snd c) < missing_deps (snd a)"
    using extendsD(6,7) [OF ab] extendsD(6,7) [OF bc] by linarith
qed

lemma extends_set_depends:
  assumes t: "t \<in> nodes g" "dhas (pr_recursive p) t" and gr: "grows g (n, deps_of g t) (n', ds)"
  shows "extends p (n, g) (n', set_depends t ds g)"
proof -
  have "deps_extend True (nodes g) (deps_of g t) ds"
    using gr by (auto simp: grows_def deps_extend_def)
  then have "deps_extend (dhas (pr_recursive p) u) (nodes g) (deps_of g u) (deps_of (set_depends t ds g) u)" for u
    using t(2) by (cases "u = t") (simp_all add: deps_extend_def)
  moreover have "distinct (dkeys g) \<longrightarrow> distinct (dkeys (set_depends t ds g))"
    unfolding set_depends_def by (intro impI distinct_dset)
  moreover have "n \<le> n'" using gr by (simp add: grows_def counts_def)
  ultimately show ?thesis
    unfolding extends_def fst_conv snd_conv nodes_set_depends [OF t(1)] revs_set_depends
    by (intro conjI allI impI missing_deps_set_depends [OF t(1) gr] refl) (erule (1) mp | assumption | simp)+
qed

lemma recursive_fold_extends:
  assumes "set (dkeys (pr_recursive p)) \<subseteq> nodes g" and "set kvs \<subseteq> set (pr_recursive p)"
  shows "\<exists>st. foldE (recursive_task cd p) kvs (n, g) = Inr st \<and> extends p (n, g) st"
  using assms
proof (induction kvs arbitrary: n g)
  case (Cons kv kvs)
  then have kv: "fst kv \<in> nodes g" "dhas (pr_recursive p) (fst kv)" by (auto simp: dhas_def)
  from recursive_task_grows [OF kv(1) Cons.prems(1)] obtain n' ds where
    1: "recursive_task cd p kv (n, g) = Inr (n', set_depends (fst kv) ds g)"
    "grows g (n, deps_of g (fst kv)) (n', ds)" by blast
  have "set (dkeys (pr_recursive p)) \<subseteq> nodes (set_depends (fst kv) ds g)"
    using Cons.prems(1) kv by simp
  from Cons.IH [OF this, of n'] Cons.prems(2) obtain st where
    2: "foldE (recursive_task cd p) kvs (n', set_depends (fst kv) ds g) = Inr st"
    "extends p (n', set_depends (fst kv) ds g) st" by (meson set_subset_Cons subset_trans)
  with 1(1) extends_trans [OF extends_set_depends [OF kv 1(2)] 2(2)] show ?case by simp
qed simp

lemma recursive_fold_fixed:
  assumes "set (dkeys (pr_recursive p)) \<subseteq> nodes g" and "set kvs \<subseteq> set (pr_recursive p)"
    and "foldE (recursive_task cd p) kvs (n, g) = Inr (n, g')"
  shows "g' = g \<and> (\<forall>kv \<in> set kvs. rec_closed cd p g kv)"
  using assms
proof (induction kvs)
  case (Cons kv kvs)
  then have kv: "fst kv \<in> nodes g" by auto
  from recursive_task_grows [OF kv Cons.prems(1)] obtain n1 ds where
    1: "recursive_task cd p kv (n, g) = Inr (n1, set_depends (fst kv) ds g)"
    "grows g (n, deps_of g (fst kv)) (n1, ds)" by blast
  have "set (dkeys (pr_recursive p)) \<subseteq> nodes (set_depends (fst kv) ds g)" using Cons.prems(1) kv by simp
  then obtain st where "foldE (recursive_task cd p) kvs (n1, set_depends (fst kv) ds g) = Inr st"
    "extends p (n1, set_depends (fst kv) ds g) st"
    using recursive_fold_extends [of p "set_depends (fst kv) ds g" kvs cd n1] Cons.prems(2)
    by (meson set_subset_Cons subset_trans)
  with Cons.prems(3) 1(1) have "n1 \<le> n" by (simp add: extends_def)
  with 1(2) have "n1 = n" by (simp add: grows_def counts_def)
  with recursive_task_fixed [OF kv Cons.prems(1)] 1(1)
  have "set_depends (fst kv) ds g = g \<and> rec_closed cd p g kv" by simp
  with Cons 1(1) \<open>n1 = n\<close> show ?case by simp
qed simp

lemma recursive_fold_nodes:
  "foldE (recursive_task cd p) kvs (n, g) = Inr st \<Longrightarrow> fst ` set kvs \<subseteq> nodes g"
proof (induction kvs arbitrary: n g)
  case (Cons kv kvs)
  then obtain n1 g1 where 1: "recursive_task cd p kv (n, g) = Inr (n1, g1)"
    "foldE (recursive_task cd p) kvs (n1, g1) = Inr st" by (auto simp: bindE_eq_Inr)
  from 1(1) obtain e where "dindex g (fst kv) = Inr e"
    unfolding recursive_task_def prod.case bindE_eq_Inr by blast
  then have kv: "fst kv \<in> nodes g" by (simp add: nodes_has dhas_iff dindex_eq_Inr)
  from 1(1) obtain ds where "g1 = set_depends (fst kv) ds g"
    unfolding recursive_task_def prod.case Let_def by (auto simp: bindE_eq_Inr)
  with Cons.IH [OF 1(2)] kv show ?case by simp
qed simp

function recursive_loop :: "(string, string list) odict \<Rightarrow> prep \<Rightarrow> taskgraph \<Rightarrow> taskgraph result" where
  "recursive_loop cd p g =
     bindE (recursive_round cd p g) (\<lambda>st. if fst st = 0 then Inr (snd st) else recursive_loop cd p (snd st))"
  by pat_completeness auto

termination
proof (relation "measure (\<lambda>(cd, p, g). missing_deps g)", goal_cases)
  case (2 cd p g st)
  then have f: "foldE (recursive_task cd p) (pr_recursive p) (0, g) = Inr st"
    by (simp add: recursive_round_def)
  from recursive_fold_nodes [OF f] have "set (dkeys (pr_recursive p)) \<subseteq> nodes g" by simp
  from recursive_fold_extends [OF this subset_refl, of cd 0] f have "extends p (0, g) st" by auto
  from extendsD(7) [OF this] 2 show ?case by simp
qed simp

declare recursive_loop.simps [simp del]

text \<open>The removal of the circular references between the recursive tasks that name themselves.\<close>

definition drop_selfrefs :: "prep \<Rightarrow> taskgraph \<Rightarrow> taskgraph result" where
  "drop_selfrefs p g =
     foldE (\<lambda>tid g. bindE (dindex g tid) (\<lambda>e. Inr (set_depends tid (sdiff (re_depends e) (pr_selfref p)) g)))
       (pr_selfref p) g"

text \<open>The dependencies of all tasks: None when the cumulative dependencies do not settle.\<close>

definition resolve_depends :: "caches \<Rightarrow> (string, taskdata) odict \<Rightarrow> prep result option" where
  "resolve_depends caches taskData =
     (case prepare_tasks caches taskData of
        Inl e \<Rightarrow> Some (Inl e)
      | Inr p \<Rightarrow>
          map_option (\<lambda>r. bindE r (\<lambda>cd.
              bindE (recursive_loop cd p (pr_graph p)) (\<lambda>g.
              bindE (drop_selfrefs p g) (\<lambda>g. Inr (p\<lparr>pr_graph := g\<rparr>)))))
            (cumulative_deps (pr_graph p)))"

lemma recursive_loop_fixpoint:
  "set (dkeys (pr_recursive p)) \<subseteq> nodes g \<Longrightarrow>
   \<exists>g'. recursive_loop cd p g = Inr g' \<and> (\<exists>n. extends p (0, g) (n, g')) \<and> (\<forall>kv \<in> set (pr_recursive p). rec_closed cd p g' kv)"
proof (induction cd p g rule: recursive_loop.induct)
  case (1 cd p g)
  obtain n g1 where st: "recursive_round cd p g = Inr (n, g1)" "extends p (0, g) (n, g1)"
    using recursive_fold_extends [OF 1(2) subset_refl, of cd 0] by (auto simp: recursive_round_def)
  show ?case
  proof (cases "n = 0")
    case True
    with recursive_fold_fixed [OF 1(2) subset_refl, of cd 0 g1] st(1)
    have "g1 = g \<and> (\<forall>kv \<in> set (pr_recursive p). rec_closed cd p g kv)" by (simp add: recursive_round_def)
    moreover have "recursive_loop cd p g = Inr g1" using True st(1) by (subst recursive_loop.simps) simp
    ultimately show ?thesis using st(2) by blast
  next
    case False
    have sub: "set (dkeys (pr_recursive p)) \<subseteq> nodes (snd (n, g1))"
      using 1(2) extendsD(2) [OF st(2)] by simp
    from "1.IH" [OF st(1) _ sub] False obtain g' m where
      g': "recursive_loop cd p g1 = Inr g'" "extends p (0, g1) (m, g')"
      "\<forall>kv \<in> set (pr_recursive p). rec_closed cd p g' kv" by auto
    have "extends p (n, g1) (n + m, g')" using g'(2) by (simp add: extends_def)
    with extends_trans [OF st(2)] have "extends p (0, g) (n + m, g')" .
    moreover have "recursive_loop cd p g = Inr g'" using False st(1) g'(1) by (subst recursive_loop.simps) simp
    ultimately show ?thesis using g'(3) by blast
  qed
qed

text \<open>C6. The loop over the recursive dependencies ends. It keeps the tasks and the dependencies there
  are, changes only recursive tasks, and is at a fixpoint: for every recursive task and every file
  behind one of its dependencies the named tasks of the file are dependencies, and so are the named
  tasks that one of its recursive dependencies depends on.\<close>

theorem recursive_dependencies_closed:
  assumes "set (dkeys (pr_recursive p)) \<subseteq> nodes g"
  shows "\<exists>g'. recursive_loop cd p g = Inr g' \<and> nodes g' = nodes g \<and>
    (\<forall>t. set (deps_of g t) \<subseteq> set (deps_of g' t) \<and> (\<not> dhas (pr_recursive p) t \<longrightarrow> deps_of g' t = deps_of g t)) \<and>
    (\<forall>kv \<in> set (pr_recursive p). rec_closed cd p g' kv)"
proof -
  from recursive_loop_fixpoint [OF assms] obtain g' n where
    1: "recursive_loop cd p g = Inr g'" "extends p (0, g) (n, g')" "\<forall>kv \<in> set (pr_recursive p). rec_closed cd p g' kv"
    by blast
  have "set (deps_of g t) \<subseteq> set (deps_of g' t) \<and> (\<not> dhas (pr_recursive p) t \<longrightarrow> deps_of g' t = deps_of g t)" for t
    using extendsD(4) [OF 1(2), of t] by (simp add: deps_extend_def)
  with 1(1,3) extendsD(2) [OF 1(2)] show ?thesis by (intro exI [of _ g']) simp
qed

definition rec_prep :: prep where
  "rec_prep = \<lparr>pr_graph = two_tasks, pr_taskData = [], pr_recursive = [(''a'', [''do_x''])], pr_recursivei = [],
     pr_selfref = []\<rparr>"

lemma recursive_dependencies_closed_witness:
  "\<exists>g'. recursive_loop [(''b'', [''f.bb''])] rec_prep two_tasks = Inr g' \<and> nodes g' = nodes two_tasks"
  using recursive_dependencies_closed [of rec_prep two_tasks "[(''b'', [''f.bb''])]"] two_tasks_consistent(2)
  by (auto simp: rec_prep_def)

section \<open>The cumulative dependencies are the transitive ones\<close>

abbreviation entry :: "(string, string list) odict \<Rightarrow> string \<Rightarrow> string list" where
  "entry d k \<equiv> dget_default d k []"

definition add_revdeps :: "string \<Rightarrow> string list \<Rightarrow> (string, string list) odict \<Rightarrow> (string, string list) odict result" where
  "add_revdeps tid = foldE (\<lambda>dep revdeps. bindE (dindex revdeps dep) (\<lambda>rs. Inr (dset dep (sadd tid rs) revdeps)))"

lemma add_revdeps_ok:
  "set deps \<subseteq> set (dkeys rv) \<Longrightarrow>
   \<exists>rv'. add_revdeps tid deps rv = Inr rv' \<and> set (dkeys rv') = set (dkeys rv) \<and>
     (\<forall>t. set (entry rv' t) = set (entry rv t) \<union> (if t \<in> set deps then {tid} else {})) \<and>
     (\<forall>t. distinct (entry rv t) \<longrightarrow> distinct (entry rv' t))"
proof (induction deps arbitrary: rv)
  case Nil
  then show ?case by (simp add: add_revdeps_def)
next
  case (Cons dep deps)
  define rv1 where "rv1 = dset dep (sadd tid (entry rv dep)) rv"
  have "dhas rv dep" using Cons.prems by (simp add: dhas_def)
  then obtain rs where "dget rv dep = Some rs" by (auto simp: dhas_iff)
  then have "dindex rv dep = Inr (entry rv dep)" by (simp add: dindex_def)
  then have step: "add_revdeps tid (dep # deps) rv = add_revdeps tid deps rv1"
    by (simp add: add_revdeps_def rv1_def)
  have keys: "set (dkeys rv1) = set (dkeys rv)"
    unfolding rv1_def keys_dset using Cons.prems by auto
  with Cons.prems obtain rv' where rv': "add_revdeps tid deps rv1 = Inr rv'" "set (dkeys rv') = set (dkeys rv1)"
    "\<forall>t. set (entry rv' t) = set (entry rv1 t) \<union> (if t \<in> set deps then {tid} else {})"
    "\<forall>t. distinct (entry rv1 t) \<longrightarrow> distinct (entry rv' t)"
    using Cons.IH [of rv1] by auto
  have "entry rv1 t = (if t = dep then sadd tid (entry rv dep) else entry rv t)" for t
    unfolding rv1_def by (rule dget_default_dset_if)
  moreover from this have "\<forall>t. distinct (entry rv t) \<longrightarrow> distinct (entry rv1 t)" by simp
  ultimately show ?case using step rv' keys by (intro exI [of _ rv']) (auto split: if_splits)
qed

lemma all_revdeps_ok:
  assumes "\<forall>kv \<in> set xs. set (re_depends (snd kv)) \<subseteq> set (dkeys rv)"
  shows "\<exists>rv'. foldE (\<lambda>kv. add_revdeps (fst kv) (re_depends (snd kv))) xs rv = Inr rv' \<and> set (dkeys rv') = set (dkeys rv) \<and>
     (\<forall>t. set (entry rv' t) = set (entry rv t) \<union> {r. \<exists>e. (r, e) \<in> set xs \<and> t \<in> set (re_depends e)}) \<and>
     (\<forall>t. distinct (entry rv t) \<longrightarrow> distinct (entry rv' t))"
  using assms
proof (induction xs arbitrary: rv)
  case Nil
  then show ?case by simp
next
  case (Cons kv xs)
  from add_revdeps_ok [of "re_depends (snd kv)" rv "fst kv"] Cons.prems obtain rv1 where
    1: "add_revdeps (fst kv) (re_depends (snd kv)) rv = Inr rv1" "set (dkeys rv1) = set (dkeys rv)"
    "\<forall>t. set (entry rv1 t) = set (entry rv t) \<union> (if t \<in> set (re_depends (snd kv)) then {fst kv} else {})"
    "\<forall>t. distinct (entry rv t) \<longrightarrow> distinct (entry rv1 t)" by auto
  from Cons.IH [of rv1] Cons.prems 1(2) obtain rv' where
    2: "foldE (\<lambda>kv. add_revdeps (fst kv) (re_depends (snd kv))) xs rv1 = Inr rv'" "set (dkeys rv') = set (dkeys rv1)"
    "\<forall>t. set (entry rv' t) = set (entry rv1 t) \<union> {r. \<exists>e. (r, e) \<in> set xs \<and> t \<in> set (re_depends e)}"
    "\<forall>t. distinct (entry rv1 t) \<longrightarrow> distinct (entry rv' t)" by auto
  have "{r. \<exists>e. (r, e) \<in> set (kv # xs) \<and> t \<in> set (re_depends e)} =
      {r. \<exists>e. (r, e) \<in> set xs \<and> t \<in> set (re_depends e)} \<union> (if t \<in> set (re_depends (snd kv)) then {fst kv} else {})" for t
    by (cases kv) auto
  then have "set (entry rv' t) = set (entry rv t) \<union> {r. \<exists>e. (r, e) \<in> set (kv # xs) \<and> t \<in> set (re_depends e)}" for t
    using 1(3) 2(3) by auto
  moreover have "foldE (\<lambda>kv. add_revdeps (fst kv) (re_depends (snd kv))) (kv # xs) rv = Inr rv'"
    using 1(1) 2(1) by simp
  moreover have "set (dkeys rv') = set (dkeys rv)" using 1(2) 2(2) by simp
  moreover have "\<forall>t. distinct (entry rv t) \<longrightarrow> distinct (entry rv' t)" using 1(4) 2(4) by blast
  ultimately show ?case by blast
qed

lemma graph_entry: "distinct (dkeys g) \<Longrightarrow> (r, e) \<in> set g \<longleftrightarrow> r \<in> nodes g \<and> e = dget_default g r new_entry"
proof -
  assume d: "distinct (dkeys g)"
  have "(r, e) \<in> set g \<longleftrightarrow> dget g r = Some e" using d by (metis map_of_SomeD map_of_is_SomeI)
  then show ?thesis by (auto simp: nodes_has dhas_iff)
qed

lemma dget_map_value: "dget (map (\<lambda>kv. (fst kv, h (snd kv))) g) t = map_option h (dget g t)"
  by (induction g) auto

lemma cumul_start_ok:
  assumes g: "deps_ok g"
  shows "\<exists>c. cumul_start g = Inr c \<and>
    (\<forall>t \<in> nodes g. dget (cu_revdeps c) t = Some (entry (cu_revdeps c) t) \<and>
       set (entry (cu_revdeps c) t) = {r. (r, t) \<in> edges g} \<and> distinct (entry (cu_revdeps c) t) \<and>
       dget (cu_deps c) t = Some (deps_of g t) \<and> dget (cu_cumulative c) t = Some [])"
proof -
  define empty where "empty = map (\<lambda>kv. (fst kv, [] :: string list)) g"
  note gr = graph_entry [OF deps_okD(1) [OF g]]
  have keys: "set (dkeys empty) = nodes g" by (auto simp: empty_def nodes_def)
  have e: "entry empty t = []" for t
    unfolding empty_def by (induction g) (auto simp: dget_default_def)
  have "\<forall>kv \<in> set g. set (re_depends (snd kv)) \<subseteq> set (dkeys empty)"
  proof
    fix kv assume "kv \<in> set g"
    then have "fst kv \<in> nodes g" "snd kv = dget_default g (fst kv) new_entry" using gr [of "fst kv" "snd kv"] by simp_all
    with deps_okD(3) [OF g, of "fst kv"] show "set (re_depends (snd kv)) \<subseteq> set (dkeys empty)"
      unfolding keys by simp
  qed
  from all_revdeps_ok [OF this, unfolded keys e] obtain rv where rv:
    "foldE (\<lambda>kv. add_revdeps (fst kv) (re_depends (snd kv))) g empty = Inr rv" "set (dkeys rv) = nodes g"
    "\<forall>t. set (entry rv t) = set [] \<union> {r. \<exists>e. (r, e) \<in> set g \<and> t \<in> set (re_depends e)}"
    "\<forall>t. distinct ([] :: string list) \<longrightarrow> distinct (entry rv t)"
    by blast
  have dist: "distinct (entry rv t)" for t using rv(4) by simp
  let ?c = "\<lparr>cu_revdeps = rv, cu_deps = map (\<lambda>kv. (fst kv, re_depends (snd kv))) g, cu_cumulative = empty\<rparr>"
  have start: "cumul_start g = Inr ?c"
    using rv(1) unfolding cumul_start_def add_revdeps_def empty_def [symmetric] Let_def by simp
  have "set (entry rv t) = {r. (r, t) \<in> edges g}" if "t \<in> nodes g" for t
    using that gr rv(3) by (auto simp: edges_def)
  moreover have "dget rv t = Some (entry rv t)" if "t \<in> nodes g" for t
    using that rv(2) by (auto simp: dget_default_def map_of_eq_None_iff split: option.splits)
  moreover have "dget (map (\<lambda>kv. (fst kv, re_depends (snd kv))) g) t = Some (deps_of g t)" if "t \<in> nodes g" for t
    using that dget_map_value [of re_depends g t] by (auto simp: nodes_has dhas_iff)
  moreover have "dget empty t = Some []" if "t \<in> nodes g" for t
    using that dget_map_value [of "\<lambda>_. []" g t] by (auto simp: nodes_has dhas_iff empty_def)
  ultimately have "\<forall>t \<in> nodes g. dget (cu_revdeps ?c) t = Some (entry (cu_revdeps ?c) t) \<and>
       set (entry (cu_revdeps ?c) t) = {r. (r, t) \<in> edges g} \<and> distinct (entry (cu_revdeps ?c) t) \<and>
       dget (cu_deps ?c) t = Some (deps_of g t) \<and> dget (cu_cumulative ?c) t = Some []"
    unfolding cumul.select_convs using dist by blast
  with start show ?thesis by blast
qed

text \<open>The wave of the cumulative dependencies runs from the tasks without dependencies to their dependees.\<close>

definition cumul_revs :: "taskgraph \<Rightarrow> string \<Rightarrow> string list" where
  "cumul_revs g t = (case cumul_start g of Inl e \<Rightarrow> [] | Inr c \<Rightarrow> entry (cu_revdeps c) t)"

definition cumul_inv :: "taskgraph \<Rightarrow> cumul \<Rightarrow> string set \<Rightarrow> (string \<times> string) set \<Rightarrow> bool" where
  "cumul_inv g c D X \<longleftrightarrow> (\<forall>t \<in> nodes g.
     dget (cu_revdeps c) t = Some (cumul_revs g t) \<and>
     (\<exists>ds. dget (cu_deps c) t = Some ds \<and> set ds = {r. (r, t) \<in> (edges g)\<inverse> - X}) \<and>
     (\<exists>cs. dget (cu_cumulative c) t = Some cs) \<and>
     set (entry (cu_cumulative c) t) =
       (\<Union>r \<in> {r. (r, t) \<in> X}. insert (fn_from_tid r) (set (entry (cu_cumulative c) r))))"

lemma cumul_visit_step:
  assumes wv: "up.wave g D X" and inv: "cumul_inv g c D X" and r: "r \<in> D"
    and e: "(r, t) \<in> (edges g)\<inverse> - X" and nx: "set nx \<subseteq> D"
  defines "X' \<equiv> insert (r, t) X"
  shows "\<exists>c'. cumul_visit r t (c, nx) = Inr (c', nx @ (if t \<in> up.entered g X' then [t] else [])) \<and>
    cumul_inv g c' (if t \<in> up.entered g X' then insert t D else D) X'"
proof -
  have rt: "r \<in> nodes g" "t \<in> nodes g" using e edges_nodes by auto
  have tD: "t \<notin> D" using up.wave_target [OF wv, of r t] e by simp
  with r have ne: "r \<noteq> t" by auto
  let ?cum = "entry (cu_cumulative c)"
  obtain ds where ds: "dget (cu_deps c) t = Some ds" "set ds = {r. (r, t) \<in> (edges g)\<inverse> - X}"
    using inv rt by (auto simp: cumul_inv_def)
  have cum: "dindex (cu_cumulative c) u = Inr (?cum u)" if "u \<in> nodes g" for u
    using inv that by (auto simp: cumul_inv_def dindex_def)
  define cd where "cd = supdate (sadd (fn_from_tid r) (?cum t)) (?cum r)"
  define c' where "c' = c\<lparr>cu_cumulative := dset t cd (cu_cumulative c), cu_deps := dset t (sdiscard r ds) (cu_deps c)\<rparr>"
  have ds': "set (sdiscard r ds) = {q. (q, t) \<in> (edges g)\<inverse> - X'}" using ds(2) by (auto simp: X'_def)
  have go: "t \<in> up.entered g X' \<longleftrightarrow> sdiscard r ds = []"
  proof -
    have "sdiscard r ds = [] \<longleftrightarrow> set (sdiscard r ds) = {}" by (simp only: set_empty)
    also have "\<dots> \<longleftrightarrow> t \<in> up.entered g X'" unfolding ds' using rt by (auto simp: up.entered_def)
    finally show ?thesis by simp
  qed
  have dsi: "dindex (cu_deps c) t = Inr ds" by (simp add: dindex_def ds(1))
  have "sadd t nx = nx @ [t]" using nx tD by (auto simp: sadd_def)
  then have run: "cumul_visit r t (c, nx) = Inr (c', nx @ (if t \<in> up.entered g X' then [t] else []))"
    using go by (simp add: cumul_visit_def cum rt dsi Let_def c'_def cd_def)
  have src: "q \<noteq> t" if "(q, u) \<in> X'" for q u
    using that up.wave_D(3) [OF wv] tD ne unfolding X'_def by auto
  have cum': "entry (cu_cumulative c') u = (if u = t then cd else ?cum u)" for u
    by (simp add: c'_def dict_simps)
  have "set (entry (cu_cumulative c') u) =
      (\<Union>q \<in> {q. (q, u) \<in> X'}. insert (fn_from_tid q) (set (entry (cu_cumulative c') q)))" if u: "u \<in> nodes g" for u
  proof -
    have old: "set (?cum u) = (\<Union>q \<in> {q. (q, u) \<in> X}. insert (fn_from_tid q) (set (?cum q)))"
      using inv u by (simp add: cumul_inv_def)
    have "(\<Union>q \<in> {q. (q, u) \<in> X'}. insert (fn_from_tid q) (set (entry (cu_cumulative c') q))) =
        (\<Union>q \<in> {q. (q, u) \<in> X'}. insert (fn_from_tid q) (set (?cum q)))"
      using src cum' by (intro SUP_cong) auto
    also have "\<dots> = set (entry (cu_cumulative c') u)"
      using old by (cases "u = t") (auto simp: cum' cd_def X'_def)
    finally show ?thesis by simp
  qed
  moreover have "\<exists>es. dget (cu_deps c') u = Some es \<and> set es = {q. (q, u) \<in> (edges g)\<inverse> - X'}" if u: "u \<in> nodes g" for u
  proof (cases "u = t")
    case True
    then show ?thesis using ds' by (simp add: c'_def dict_simps)
  next
    case False
    then have "{q. (q, u) \<in> (edges g)\<inverse> - X'} = {q. (q, u) \<in> (edges g)\<inverse> - X}" by (auto simp: X'_def)
    then show ?thesis using False inv u by (simp add: c'_def dict_simps cumul_inv_def)
  qed
  moreover have "dget (cu_revdeps c') u = Some (cumul_revs g u) \<and> (\<exists>cs. dget (cu_cumulative c') u = Some cs)"
    if "u \<in> nodes g" for u
    using inv that by (simp add: c'_def cumul_inv_def dict_simps)
  ultimately show ?thesis using run unfolding cumul_inv_def by blast
qed

lemma cumul_revs_ok:
  assumes "deps_ok g" and "t \<in> nodes g"
  shows "distinct (cumul_revs g t) \<and> set (cumul_revs g t) = {u. (t, u) \<in> (edges g)\<inverse>}"
proof -
  from cumul_start_ok [OF assms(1)] obtain c where "cumul_start g = Inr c"
    "\<forall>t \<in> nodes g. set (entry (cu_revdeps c) t) = {r. (r, t) \<in> edges g} \<and> distinct (entry (cu_revdeps c) t)"
    by blast
  with assms(2) show ?thesis by (simp add: cumul_revs_def)
qed

interpretation cumul: wave_run "nodes g" "(edges g)\<inverse>" "deps_ok g" "cumul_revs g" cumul_visit "cumul_inv g" for g
  using cumul_visit_step cumul_revs_ok by unfold_locales simp_all

lemma cumul_points_expand:
  assumes "deps_ok g"
  shows "\<forall>t \<in> nodes g. dget (cu_revdeps (fst st)) t = Some (cumul_revs g t) \<Longrightarrow> set pend \<subseteq> nodes g \<Longrightarrow>
    foldE cumul_point pend st = foldE (cumul.expand g) pend st"
proof (induction pend arbitrary: st)
  case (Cons tid pend)
  have eq: "cumul_point tid st = cumul.expand g tid st"
    using Cons.prems by (simp add: cumul_point_def cumul.expand_def dindex_def)
  have keep: "cu_revdeps (fst st') = cu_revdeps (fst st)" if "cumul.expand g tid st = Inr st'" for st'
    by (rule foldE_invariant [OF that [unfolded cumul.expand_def], where P = "\<lambda>x. cu_revdeps (fst x) = cu_revdeps (fst st)"])
      (auto simp: cumul_visit_def bindE_eq_Inr Let_def split: prod.splits)
  show ?case
  proof (cases "cumul.expand g tid st")
    case (Inl e)
    with eq show ?thesis by simp
  next
    case (Inr st')
    with eq keep Cons show ?thesis by simp
  qed
qed simp

lemma cumul_loop_frontier:
  assumes g: "deps_ok g"
  shows "cumul.frontier g c D pend \<Longrightarrow>
    \<exists>c' D'. cumul_loop pend c = Some (Inr c') \<and> cumul.frontier g c' D' []"
proof (induction "card (nodes g - D)" arbitrary: c D pend rule: less_induct)
  case less
  show ?case
  proof (cases "pend = []")
    case True
    with less.prems show ?thesis by (subst cumul_loop.simps) auto
  next
    case False
    have sub: "set pend \<subseteq> nodes g"
      using less.prems up.wave_D(1) unfolding cumul.frontier_def by blast
    have revs: "\<forall>t \<in> nodes g. dget (cu_revdeps (fst (c, []))) t = Some (cumul_revs g t)"
      using less.prems unfolding cumul.frontier_def cumul_inv_def by simp
    from less.prems have "cumul.frontier g c D (pend @ [])" by simp
    from cumul.round_frontier [OF g this] obtain c1 new where
      c1: "foldE cumul_point pend (c, []) = Inr (c1, new)" "cumul.frontier g c1 (D \<union> set new) new" "set new \<inter> D = {}"
      unfolding cumul_points_expand [OF g revs sub] by auto
    have step: "cumul_loop pend c = cumul_loop new c1"
      using False c1(1) by (subst cumul_loop.simps) simp
    show ?thesis
    proof (cases "new = []")
      case True
      with c1(2) step show ?thesis by (subst (asm) cumul_loop.simps) auto
    next
      case False
      from less.hyps [OF cumul.frontier_left [OF c1(2,3) False] c1(2)] step show ?thesis by simp
    qed
  qed
qed

lemma cumulative_deps_ok:
  assumes g: "deps_ok g"
  shows "\<exists>cd. cumulative_deps g = Some (Inr cd) \<and> (\<forall>t \<in> nodes g. t \<notin> up.looped g \<longrightarrow>
     set (entry cd t) = (\<Union>r \<in> set (deps_of g t). insert (fn_from_tid r) (set (entry cd r))))"
proof -
  from cumul_start_ok [OF g] obtain c where c: "cumul_start g = Inr c"
    "\<forall>t \<in> nodes g. dget (cu_revdeps c) t = Some (entry (cu_revdeps c) t) \<and>
       set (entry (cu_revdeps c) t) = {r. (r, t) \<in> edges g} \<and> distinct (entry (cu_revdeps c) t) \<and>
       dget (cu_deps c) t = Some (deps_of g t) \<and> dget (cu_cumulative c) t = Some []" by blast
  have init: "dget (cu_deps c) t = Some (deps_of g t)" "dget (cu_cumulative c) t = Some []" if "t \<in> nodes g" for t
    using c(2) that by blast+
  define ends where "ends = filter (\<lambda>t. dget_default (cu_deps c) t [] = []) (dkeys g)"
  have ends: "set ends = {t \<in> nodes g. \<forall>r. (r, t) \<notin> (edges g)\<inverse>}"
  proof (rule set_eqI)
    fix t
    have "entry (cu_deps c) t = [] \<longleftrightarrow> (\<forall>r. (r, t) \<notin> (edges g)\<inverse>)" if "t \<in> nodes g"
    proof -
      have "entry (cu_deps c) t = [] \<longleftrightarrow> set (deps_of g t) = {}" using init(1) [OF that] by simp
      also have "\<dots> \<longleftrightarrow> (\<forall>r. (r, t) \<notin> (edges g)\<inverse>)" unfolding deps_okD(4) [OF g that] by blast
      finally show ?thesis .
    qed
    moreover have "t \<in> set ends \<longleftrightarrow> t \<in> nodes g \<and> entry (cu_deps c) t = []"
      unfolding ends_def nodes_def set_filter mem_Collect_eq by (rule refl)
    ultimately show "t \<in> set ends \<longleftrightarrow> t \<in> {t \<in> nodes g. \<forall>r. (r, t) \<notin> (edges g)\<inverse>}" by blast
  qed
  have "\<exists>ds. dget (cu_deps c) t = Some ds \<and> set ds = {r. (r, t) \<in> (edges g)\<inverse> - {}}" if "t \<in> nodes g" for t
    using init(1) [OF that] deps_okD(4) [OF g that] by simp
  moreover have "dget (cu_revdeps c) t = Some (cumul_revs g t)" if "t \<in> nodes g" for t
  proof -
    have "cumul_revs g t = entry (cu_revdeps c) t" by (simp add: cumul_revs_def c(1))
    then show ?thesis using c(2) that by metis
  qed
  ultimately have inv: "cumul_inv g c (set ends) {}"
    unfolding cumul_inv_def using init(2) by (simp add: dget_default_def)
  have none: "{(r, t) \<in> (edges g)\<inverse>. r \<in> set ends - set ends} = {}" by auto
  have wv: "up.wave g (set ends) {}" using up.wave_start [of g] ends by simp
  have "distinct ends" using deps_okD(1) [OF g] by (simp add: ends_def)
  with inv wv have "cumul.frontier g c (set ends) ends" unfolding cumul.frontier_def none by simp
  from cumul_loop_frontier [OF g this] obtain c' D where
    c': "cumul_loop ends c = Some (Inr c')" "cumul.frontier g c' D []" by blast
  note D = cumul.frontier_end [OF c'(2)]
  have "cumulative_deps g = Some (Inr (cu_cumulative c'))"
    using c(1) c'(1) by (simp add: cumulative_deps_def ends_def)
  moreover have "set (entry (cu_cumulative c') t) =
      (\<Union>r \<in> set (deps_of g t). insert (fn_from_tid r) (set (entry (cu_cumulative c') r)))"
    if t: "t \<in> nodes g" "t \<notin> up.looped g" for t
  proof -
    have "t \<in> D" using t D(1) by simp
    have wD: "up.wave g D {(r, t) \<in> (edges g)\<inverse>. r \<in> D}" using c'(2) by (simp add: cumul.frontier_def)
    have "{r. (r, t) \<in> {(r, t) \<in> (edges g)\<inverse>. r \<in> D}} = set (deps_of g t)"
      unfolding deps_okD(4) [OF g t(1)] using up.wave_done [OF wD \<open>t \<in> D\<close>] by auto
    with D(2) t(1) show ?thesis unfolding cumul_inv_def by simp
  qed
  ultimately show ?thesis by blast
qed

lemma looped_up_acyclic: "acyclic (edges g) \<Longrightarrow> up.looped g = {}"
  using up.looped_empty [of g] acyclic_converse by blast

text \<open>C5. The cumulative dependencies of a graph without cycles are computed, and those of a task are the
  files of all the tasks it depends on, directly or not. With cycles the computation ends as well.\<close>

theorem cumulative_deps_transitive:
  assumes g: "deps_ok g"
  shows "\<exists>cd. cumulative_deps g = Some (Inr cd) \<and> (acyclic (edges g) \<longrightarrow>
     (\<forall>t \<in> nodes g. set (entry cd t) = fn_from_tid ` {r. (t, r) \<in> (edges g)\<^sup>+}))"
proof -
  from cumulative_deps_ok [OF g] obtain cd where cd: "cumulative_deps g = Some (Inr cd)"
    "\<forall>t \<in> nodes g. t \<notin> up.looped g \<longrightarrow>
     set (entry cd t) = (\<Union>r \<in> set (deps_of g t). insert (fn_from_tid r) (set (entry cd r)))" by blast
  have "set (entry cd t) = fn_from_tid ` {r. (t, r) \<in> (edges g)\<^sup>+}" if a: "acyclic (edges g)" and t: "t \<in> nodes g" for t
  proof -
    have "wf ((edges g)\<inverse>)"
      using a up.finite_E by (intro finite_acyclic_wf) (auto simp: acyclic_converse)
    then show ?thesis using t
    proof (induction t rule: wf_induct_rule)
      case (less t)
      have "set (entry cd t) = (\<Union>r \<in> set (deps_of g t). insert (fn_from_tid r) (set (entry cd r)))"
        using cd(2) less.prems looped_up_acyclic [OF a] by simp
      also have "\<dots> = (\<Union>r \<in> {r. (t, r) \<in> edges g}. insert (fn_from_tid r) (fn_from_tid ` {q. (r, q) \<in> (edges g)\<^sup>+}))"
        unfolding deps_okD(4) [OF g less.prems] using less.IH edges_nodes by (intro SUP_cong) auto
      also have "\<dots> = fn_from_tid ` {r. (t, r) \<in> (edges g)\<^sup>+}"
        by (auto simp: image_iff dest: tranclD intro: trancl_into_trancl2) (metis rtrancl_eq_or_trancl tranclD)
      finally show ?case .
    qed
  qed
  with cd(1) show ?thesis by blast
qed

definition chain_graph :: taskgraph where
  "chain_graph = [(''a.bb:do_a'', new_entry\<lparr>re_depends := [''b.bb:do_b'']\<rparr>), (''b.bb:do_b'', new_entry)]"

lemma chain_graph_ok: "deps_ok chain_graph" "edges chain_graph = {(''a.bb:do_a'', ''b.bb:do_b'')}"
  "nodes chain_graph = {''a.bb:do_a'', ''b.bb:do_b''}"
  by (auto simp: deps_ok_def edges_def nodes_def chain_graph_def dget_default_def new_entry_def)

lemma cumulative_deps_transitive_witness:
  "\<exists>cd. cumulative_deps chain_graph = Some (Inr cd) \<and> set (entry cd ''a.bb:do_a'') = {''b.bb''}"
proof -
  have "acyclic (edges chain_graph)" by (simp add: chain_graph_ok acyclic_insert wf_acyclic)
  with cumulative_deps_transitive [OF chain_graph_ok(1)] obtain cd where
    cd: "cumulative_deps chain_graph = Some (Inr cd)"
    "set (entry cd ''a.bb:do_a'') = fn_from_tid ` {r. (''a.bb:do_a'', r) \<in> (edges chain_graph)\<^sup>+}"
    by (auto simp: chain_graph_ok(3))
  have "{r. (''a.bb:do_a'', r) \<in> (edges chain_graph)\<^sup>+} = {''b.bb:do_b''}"
    by (auto simp: chain_graph_ok(2) dest: tranclD elim: rtranclE)
  moreover have "fn_from_tid ''b.bb:do_b'' = ''b.bb''" by code_simp
  ultimately show ?thesis using cd by simp
qed

end
