(* ===== verification/PrepareActive.thy ===== *)
theory PrepareActive
  imports PrepareDeps
begin

text \<open>
  The later steps of \<^verbatim>\<open>RunQueueData.prepare\<close> in \<^verbatim>\<open>bb/runqueue.py\<close>: marking
  the tasks the targets need, \<^verbatim>\<open>--runall\<close> and \<^verbatim>\<open>--runonly\<close>, pruning the
  others, the reverse dependencies and the tasks at the ends of the chains.
\<close>

section \<open>Marking\<close>

text \<open>
  \<open>mark_all g todo build\<close> makes the calls of \<^verbatim>\<open>mark_active\<close> for the tasks \<open>todo\<close>, in
  order; the calls a marked task makes for its dependencies come first. \<open>build\<close> holds the keys of
  \<^verbatim>\<open>runq_build\<close>.
\<close>

function (sequential) mark_all :: "taskgraph \<Rightarrow> string list \<Rightarrow> string list \<Rightarrow> string list result" where
  "mark_all g [] build = Inr build"
| "mark_all g (tid # todo) build =
     (if tid \<in> set build then mark_all g todo build
      else case dget g tid of
             None \<Rightarrow> Inl (KeyError tid)
           | Some e \<Rightarrow> mark_all g (re_depends e @ todo) (build @ [tid]))"
  by pat_completeness auto

termination
proof (relation "inv_image (less_than <*lex*> less_than) (\<lambda>(g, todo, build). (open_tasks g build, length todo))",
    goal_cases)
  case (3 g tid todo build e)
  then show ?case using open_tasks_less [of tid g build] by (auto simp: nodes_has dhas_iff)
qed auto

definition mark_active :: "taskgraph \<Rightarrow> string \<Rightarrow> string list \<Rightarrow> string list result" where
  "mark_active g tid build = mark_all g [tid] build"

text \<open>What the invalidation of a task tells the signature generator and the log.\<close>

datatype invalidation = NoSuchTask string | NostampNote string | Invalidated string string

definition invalidate_task ::
  "caches \<Rightarrow> (string, taskdata) odict \<Rightarrow> string \<Rightarrow> bool \<Rightarrow> invalidation list \<Rightarrow> invalidation list result" where
  "invalidate_task caches taskData tid error_nostamp log =
     bindE (split_tid_mcfn tid) (\<lambda>(mc, fn, taskname, taskfn).
     bindE (dindex caches mc) (\<lambda>c.
     bindE (dindex (dc_task_deps c) taskfn) (\<lambda>taskdep.
     bindE (dindex taskData mc) (\<lambda>td.
     let log = (if dhas (tk_taskentries td) (tid_of fn taskname) then log else log @ [NoSuchTask taskname])
     in if task_flag taskdep ''nostamp'' taskname \<noteq> None
        then if error_nostamp then Inl (BBFatal taskname) else Inr (log @ [NostampNote taskname])
        else Inr (log @ [Invalidated taskname taskfn])))))"

text \<open>The state of the marking: \<^verbatim>\<open>runq_build\<close>, \<^verbatim>\<open>target_tids\<close> and the log.\<close>

record marks =
  mk_build :: "string list"
  mk_targets :: "string list"
  mk_log :: "invalidation list"

definition mark_into :: "taskgraph \<Rightarrow> string \<Rightarrow> marks \<Rightarrow> marks result" where
  "mark_into g tid m = bindE (mark_active g tid (mk_build m)) (\<lambda>b. Inr (m\<lparr>mk_build := b\<rparr>))"

text \<open>One of the targets, a tuple of multiconfig, name, task and file.\<close>

definition mark_target ::
  "(string, taskdata) odict \<Rightarrow> taskgraph \<Rightarrow> string \<times> string \<times> string \<times> string \<Rightarrow> marks \<Rightarrow> marks result" where
  "mark_target taskData g = (\<lambda>(mc, target, task, fn) m.
     bindE (dindex taskData mc) (\<lambda>td.
     if \<not> dhas (tk_build_targets td) target \<or> dget_default (tk_build_targets td) target [] = [] then Inr m
     else if target \<in> set (tk_failed_deps td) then Inr m
     else let parents = endswith task ''-''; task = (if parents then butlast task else task) in
       if fn \<in> set (tk_failed_fns td) then Inr m
       else let tid = tid_of fn task; m = m\<lparr>mk_targets := mk_targets m @ [tid]\<rparr> in
         if \<not> dhas (tk_taskentries td) tid then Inl (BBFatal tid)
         else if parents then bindE (dindex g tid) (\<lambda>e. foldE (mark_into g) (re_depends e) m)
         else mark_into g tid m))"

definition mark_targets ::
  "(string, taskdata) odict \<Rightarrow> taskgraph \<Rightarrow> (string \<times> string \<times> string \<times> string) list \<Rightarrow> marks result" where
  "mark_targets taskData g targets =
     foldE (mark_target taskData g) targets \<lparr>mk_build = [], mk_targets = [], mk_log = []\<rparr>"

definition do_name :: "string \<Rightarrow> string" where
  "do_name task = (if startswith task ''do_'' then task else ''do_'' @ task)"

section \<open>runall and runonly\<close>

text \<open>\<open>invalidate\<close> does nothing unless the option \<^verbatim>\<open>force\<close> is set.\<close>

definition force_invalidate ::
  "caches \<Rightarrow> (string, taskdata) odict \<Rightarrow> bool \<Rightarrow> string \<Rightarrow> marks \<Rightarrow> marks result" where
  "force_invalidate caches taskData force tid m =
     (if force then bindE (invalidate_task caches taskData tid False (mk_log m)) (\<lambda>l. Inr (m\<lparr>mk_log := l\<rparr>))
      else Inr m)"

definition runall_task ::
  "caches \<Rightarrow> (string, taskdata) odict \<Rightarrow> bool \<Rightarrow> taskgraph \<Rightarrow> string list \<Rightarrow> string \<Rightarrow>
    string list \<times> marks \<Rightarrow> (string list \<times> marks) result" where
  "runall_task caches taskData force g reduced task = (\<lambda>(runall_tids, m).
     let runall_tids = fold (\<lambda>tid rs. let want = tid_of (fn_from_tid tid) (do_name task)
                               in if dhas g want then sadd want rs else rs) reduced runall_tids
     in bindE (foldE (\<lambda>tid m. bindE (mark_into g tid m) (\<lambda>m.
                 force_invalidate caches taskData force tid (m\<lparr>mk_targets := mk_targets m @ [tid]\<rparr>)))
               runall_tids m) (\<lambda>m. Inr (runall_tids, m)))"

definition runall_round ::
  "caches \<Rightarrow> (string, taskdata) odict \<Rightarrow> bool \<Rightarrow> taskgraph \<Rightarrow> string list \<Rightarrow> marks \<Rightarrow> (string list \<times> marks) result" where
  "runall_round caches taskData force g tasks m =
     (let reduced = filter (\<lambda>tid. tid \<in> set (mk_build m)) (dkeys g)
      in foldE (runall_task caches taskData force g reduced) tasks ([], m\<lparr>mk_build := []\<rparr>))"

partial_function (option) runall_loop ::
  "caches \<Rightarrow> (string, taskdata) odict \<Rightarrow> bool \<Rightarrow> taskgraph \<Rightarrow> string list \<Rightarrow> string list \<Rightarrow> marks \<Rightarrow> marks result option" where
  "runall_loop caches taskData force g tasks orig m =
     (case runall_round caches taskData force g tasks m of
        Inl e \<Rightarrow> Some (Inl e)
      | Inr r \<Rightarrow>
          if sdiff (fst r) orig = [] then Some (Inr (snd r))
          else runall_loop caches taskData force g tasks (fst r) (snd r))"

declare runall_loop.simps [code]

definition prune :: "string list \<Rightarrow> taskgraph \<Rightarrow> taskgraph" where
  "prune build g = filter (\<lambda>kv. fst kv \<in> set build) g"

definition runonly_task ::
  "caches \<Rightarrow> (string, taskdata) odict \<Rightarrow> bool \<Rightarrow> taskgraph \<Rightarrow> string \<Rightarrow> marks \<Rightarrow> marks result" where
  "runonly_task caches taskData force g task m =
     bindE (foldE (\<lambda>k ks. bindE (taskname_from_tid k) (\<lambda>t. Inr (if t = do_name task then ks @ [k] else ks)))
             (dkeys g) []) (\<lambda>runonly_tids.
     foldE (\<lambda>tid m. bindE (mark_into g tid m) (\<lambda>m. force_invalidate caches taskData force tid m)) runonly_tids m)"

text \<open>The options of the command line that the preparation reads.\<close>

record prepcfg =
  pc_runall :: "string list"
  pc_runonly :: "string list"
  pc_force :: bool
  pc_nosetscene :: bool
  pc_invalidate_stamp :: "string option"
  pc_multi_provider_allowed :: "string list"
  pc_warn_multi_bb :: bool

text \<open>Steps B and C: the active part of the graph.\<close>

definition apply_runall ::
  "prepcfg \<Rightarrow> caches \<Rightarrow> (string, taskdata) odict \<Rightarrow> taskgraph \<Rightarrow> marks \<Rightarrow> (taskgraph \<times> marks) result option" where
  "apply_runall cfg caches taskData g m =
     (if pc_runall cfg = [] then Some (Inr (prune (mk_build m) g, m))
      else map_option (\<lambda>r. bindE r (\<lambda>m.
             let g = prune (mk_build m) g in if g = [] then Inl (BBFatal ''runall'') else Inr (g, m)))
           (runall_loop caches taskData (pc_force cfg) g (pc_runall cfg) [] m))"

definition apply_runonly ::
  "prepcfg \<Rightarrow> caches \<Rightarrow> (string, taskdata) odict \<Rightarrow> taskgraph \<times> marks \<Rightarrow> (taskgraph \<times> marks) result" where
  "apply_runonly cfg caches taskData = (\<lambda>(g, m).
     if pc_runonly cfg = [] then Inr (g, m)
     else bindE (foldE (runonly_task caches taskData (pc_force cfg) g) (pc_runonly cfg) (m\<lparr>mk_build := []\<rparr>)) (\<lambda>m.
            let g = prune (mk_build m) g in if g = [] then Inl (BBFatal ''runonly'') else Inr (g, m)))"

section \<open>Reverse dependencies and endpoints\<close>

definition check_tasks_left :: "(string, taskdata) odict \<Rightarrow> taskgraph \<Rightarrow> unit result" where
  "check_tasks_left taskData g =
     (if g \<noteq> [] then Inr ()
      else bindE (dindex taskData []) (\<lambda>td. Inl (BBFatal (if tk_halt td then ''no active tasks'' else ''incomplete''))))"

definition add_revdep :: "string \<Rightarrow> string \<Rightarrow> taskgraph \<Rightarrow> taskgraph result" where
  "add_revdep tid dep g = bindE (dindex g dep) (\<lambda>e. Inr (dset dep (e\<lparr>re_revdeps := sadd tid (re_revdeps e)\<rparr>) g))"

definition set_revdeps :: "taskgraph \<Rightarrow> taskgraph result" where
  "set_revdeps g = foldE (\<lambda>kv. foldE (add_revdep (fst kv)) (re_depends (snd kv))) g g"

text \<open>The endpoints, and the check for loops of two tasks.\<close>

definition find_endpoints :: "taskgraph \<Rightarrow> string list result" where
  "find_endpoints g =
     foldE (\<lambda>kv endpoints.
         let e = snd kv; endpoints = (if re_revdeps e = [] then endpoints @ [fst kv] else endpoints)
         in if \<exists>dep \<in> set (re_revdeps e). dep \<in> set (re_depends e) then Inl (BBFatal (fst kv)) else Inr endpoints)
       g []"

text \<open>The graph with its weights; the fatal error of the weights carries no more than its kind.\<close>

definition weigh_graph :: "taskgraph \<Rightarrow> taskgraph result" where
  "weigh_graph g =
     bindE (set_revdeps g) (\<lambda>g.
     bindE (find_endpoints g) (\<lambda>endpoints.
     bindE (calculate_task_weights g endpoints) (\<lambda>r.
       case fst r of WeightsOf w \<Rightarrow> Inr (snd r) | Unbuildable ts msgs \<Rightarrow> Inl (BBFatal ''RunQueue''))))"

section \<open>Marking computes reachability\<close>

definition marked_closed :: "taskgraph \<Rightarrow> string list \<Rightarrow> bool" where
  "marked_closed g build \<longleftrightarrow> set build \<subseteq> nodes g \<and> distinct build \<and> (\<forall>x \<in> set build. set (deps_of g x) \<subseteq> set build)"

definition needed :: "taskgraph \<Rightarrow> string set \<Rightarrow> string set" where
  "needed g S = (edges g)\<^sup>* `` S"

lemma needed_simps: "needed g {} = {}" "needed g (A \<union> B) = needed g A \<union> needed g B" "S \<subseteq> needed g S"
  by (auto simp: needed_def)

lemma needed_step:
  assumes "deps_ok g" and "t \<in> nodes g"
  shows "needed g {t} = insert t (needed g (set (deps_of g t)))"
  unfolding needed_def deps_okD(4) [OF assms] by (auto intro: converse_rtrancl_into_rtrancl elim: converse_rtranclE)

lemma needed_closed: "(\<forall>x \<in> S. set (deps_of g x) \<subseteq> S) \<Longrightarrow> deps_ok g \<Longrightarrow> needed g S = S"
proof
  assume cl: "\<forall>x \<in> S. set (deps_of g x) \<subseteq> S" and g: "deps_ok g"
  have "y \<in> S" if "(x, y) \<in> (edges g)\<^sup>*" "x \<in> S" for x y
    using that by (induction rule: rtrancl_induct) (use cl in \<open>auto simp: edges_def\<close>)
  then show "needed g S \<subseteq> S" by (auto simp: needed_def)
qed (rule needed_simps)

lemma marked_needed: "deps_ok g \<Longrightarrow> marked_closed g b \<Longrightarrow> needed g (set b) = set b"
  by (rule needed_closed) (simp_all add: marked_closed_def)

lemma mark_all_ok:
  "deps_ok g \<Longrightarrow> set todo \<subseteq> nodes g \<Longrightarrow> set build \<subseteq> nodes g \<Longrightarrow> distinct build \<Longrightarrow>
   \<forall>x \<in> set build. set (deps_of g x) \<subseteq> set build \<union> set todo \<Longrightarrow>
   \<exists>b. mark_all g todo build = Inr b \<and> marked_closed g b \<and> set b = set build \<union> needed g (set todo)"
proof (induction g todo build rule: mark_all.induct)
  case (1 g build)
  then show ?case by (auto simp: marked_closed_def needed_simps)
next
  case (2 g tid todo build)
  show ?case
  proof (cases "tid \<in> set build")
    case True
    with 2 obtain b where b: "mark_all g todo build = Inr b" "marked_closed g b" "set b = set build \<union> needed g (set todo)"
      by auto
    have "needed g {tid} \<subseteq> needed g (set b)" using True b(3) by (auto simp: needed_def)
    then have "needed g {tid} \<subseteq> set b" using marked_needed [OF 2(3) b(2)] by simp
    moreover have "needed g (set (tid # todo)) = needed g {tid} \<union> needed g (set todo)"
      using needed_simps(2) [of g "{tid}" "set todo"] by simp
    ultimately show ?thesis using True b by auto
  next
    case False
    have t: "tid \<in> nodes g" using 2(4) by simp
    then obtain e where e: "dget g tid = Some e" by (auto simp: nodes_has dhas_iff)
    then have d: "re_depends e = deps_of g tid" by simp
    have "\<exists>b. mark_all g (re_depends e @ todo) (build @ [tid]) = Inr b \<and> marked_closed g b \<and>
        set b = set (build @ [tid]) \<union> needed g (set (re_depends e @ todo))"
      using 2(4-7) deps_okD(3) [OF 2(3) t] False d by (intro "2.IH"(2) [OF False e 2(3)]) auto
    then obtain b where b: "mark_all g (re_depends e @ todo) (build @ [tid]) = Inr b" "marked_closed g b"
      "set b = set (build @ [tid]) \<union> needed g (set (re_depends e @ todo))" by blast
    have "needed g (set (tid # todo)) = insert tid (needed g (set (deps_of g tid))) \<union> needed g (set todo)"
      using needed_simps(2) [of g "{tid}" "set todo"] needed_step [OF 2(3) t] by simp
    moreover have "needed g (set (re_depends e @ todo)) = needed g (set (deps_of g tid)) \<union> needed g (set todo)"
      using needed_simps(2) [of g "set (deps_of g tid)" "set todo"] d by simp
    ultimately have "set b = set build \<union> needed g (set (tid # todo))" using b(3) by auto
    with b(1,2) False e show ?thesis by simp
  qed
qed

lemma mark_into_ok:
  assumes g: "deps_ok g" and t: "tid \<in> nodes g" and m: "marked_closed g (mk_build m)"
  shows "\<exists>b. mark_into g tid m = Inr (m\<lparr>mk_build := b\<rparr>) \<and> marked_closed g b \<and> set b = set (mk_build m) \<union> needed g {tid}"
proof -
  have "set [tid] \<subseteq> nodes g" "set (mk_build m) \<subseteq> nodes g" "distinct (mk_build m)"
    "\<forall>x \<in> set (mk_build m). set (deps_of g x) \<subseteq> set (mk_build m) \<union> set [tid]"
    using t m by (auto simp: marked_closed_def)
  from mark_all_ok [OF g this] obtain b where b: "mark_all g [tid] (mk_build m) = Inr b" "marked_closed g b"
    "set b = set (mk_build m) \<union> needed g (set [tid])" by blast
  have "mark_into g tid m = Inr (m\<lparr>mk_build := b\<rparr>)" unfolding mark_into_def mark_active_def b(1) by simp
  with b(2,3) show ?thesis by (intro exI [of _ b]) simp
qed

lemma mark_into_Inr:
  assumes g: "deps_ok g" and m: "marked_closed g (mk_build m)" and r: "mark_into g tid m = Inr m'"
  shows "marked_closed g (mk_build m') \<and> set (mk_build m') = set (mk_build m) \<union> needed g {tid} \<and>
    mk_targets m' = mk_targets m \<and> tid \<in> nodes g"
proof -
  have "tid \<in> nodes g"
  proof (cases "tid \<in> set (mk_build m)")
    case False
    with r show ?thesis
      by (auto simp: mark_into_def mark_active_def bindE_eq_Inr nodes_has dhas_iff split: option.splits)
  qed (use m in \<open>auto simp: marked_closed_def\<close>)
  moreover from mark_into_ok [OF g this m] obtain b where b: "mark_into g tid m = Inr (m\<lparr>mk_build := b\<rparr>)"
    "marked_closed g b" "set b = set (mk_build m) \<union> needed g {tid}" by blast
  moreover have "m' = m\<lparr>mk_build := b\<rparr>" using r b(1) by simp
  ultimately show ?thesis by simp
qed

lemma mark_fold_Inr:
  assumes g: "deps_ok g"
  shows "marked_closed g (mk_build m) \<Longrightarrow> foldE (mark_into g) ts m = Inr m' \<Longrightarrow>
    marked_closed g (mk_build m') \<and> set (mk_build m') = set (mk_build m) \<union> needed g (set ts) \<and>
    mk_targets m' = mk_targets m"
proof (induction ts arbitrary: m)
  case Nil
  then show ?case by (simp add: needed_simps)
next
  case (Cons t ts)
  then obtain m1 where m1: "mark_into g t m = Inr m1" "foldE (mark_into g) ts m1 = Inr m'"
    by (auto simp: bindE_eq_Inr)
  from mark_into_Inr [OF g Cons.prems(1) m1(1)] Cons.IH [OF _ m1(2)]
  show ?case using needed_simps(2) [of g "{t}" "set ts"] by auto
qed

text \<open>What the targets mark is closed, and every marked task is needed by a target.\<close>

definition targets_ok :: "taskgraph \<Rightarrow> marks \<Rightarrow> bool" where
  "targets_ok g m \<longleftrightarrow> marked_closed g (mk_build m) \<and> set (mk_build m) \<subseteq> needed g (set (mk_targets m))"

lemma mark_target_ok:
  assumes g: "deps_ok g" and m: "targets_ok g m" and r: "mark_target taskData g x m = Inr m'"
  shows "targets_ok g m'"
proof -
  obtain mc target task fn where x: "x = (mc, target, task, fn)" by (cases x)
  show ?thesis
  proof (cases "m' = m")
    case False
    define tid where "tid = tid_of fn (if endswith task ''-'' then butlast task else task)"
    define m1 where "m1 = m\<lparr>mk_targets := mk_targets m @ [tid]\<rparr>"
    from r False have "(\<exists>e. dindex g tid = Inr e \<and> foldE (mark_into g) (re_depends e) m1 = Inr m') \<or>
        mark_into g tid m1 = Inr m'"
      unfolding x mark_target_def tid_def m1_def
      by (auto simp: bindE_eq_Inr Let_def split: if_splits)
    moreover have m1: "marked_closed g (mk_build m1)" using m by (simp add: m1_def targets_ok_def)
    ultimately have "marked_closed g (mk_build m') \<and> mk_targets m' = mk_targets m1 \<and>
        set (mk_build m') \<subseteq> set (mk_build m1) \<union> needed g {tid}"
    proof (elim disjE exE conjE)
      fix e assume e: "dindex g tid = Inr e" "foldE (mark_into g) (re_depends e) m1 = Inr m'"
      then have "tid \<in> nodes g" "re_depends e = deps_of g tid"
        by (auto simp: nodes_has dhas_iff dindex_eq_Inr)
      then have "needed g (set (re_depends e)) \<subseteq> needed g {tid}" using needed_step [OF g] by auto
      with mark_fold_Inr [OF g m1 e(2)] show ?thesis by auto
    next
      assume "mark_into g tid m1 = Inr m'"
      from mark_into_Inr [OF g m1 this] show ?thesis by simp
    qed
    moreover have "needed g (set (mk_targets m1)) = needed g (set (mk_targets m)) \<union> needed g {tid}"
      using needed_simps(2) [of g "set (mk_targets m)" "{tid}"] by (simp add: m1_def)
    moreover have "set (mk_build m1) \<subseteq> needed g (set (mk_targets m))"
      using m by (simp add: m1_def targets_ok_def)
    ultimately show ?thesis unfolding targets_ok_def by auto
  qed (use m in simp)
qed

section \<open>The runall loop\<close>

lemma force_invalidate_marks:
  "force_invalidate caches taskData force tid m = Inr m' \<Longrightarrow>
     mk_build m' = mk_build m \<and> mk_targets m' = mk_targets m"
  by (auto simp: force_invalidate_def bindE_eq_Inr split: if_splits)

text \<open>The tasks that \<^verbatim>\<open>--runall\<close> asks for in the files of the tasks \<open>B\<close>.\<close>

definition wanted :: "taskgraph \<Rightarrow> string list \<Rightarrow> string set \<Rightarrow> string set" where
  "wanted g tasks B = {w \<in> nodes g. \<exists>task \<in> set tasks. \<exists>tid \<in> B. w = tid_of (fn_from_tid tid) (do_name task)}"

lemma wanted_fold: "set (fold (\<lambda>tid rs. let want = tid_of (fn_from_tid tid) (do_name task)
      in if dhas g want then sadd want rs else rs) xs acc) = set acc \<union> wanted g [task] (set xs)"
  by (induction xs arbitrary: acc) (auto simp: wanted_def nodes_has Let_def)

lemma mark_invalidate_fold:
  assumes g: "deps_ok g"
  shows "marked_closed g (mk_build m) \<Longrightarrow>
    foldE (\<lambda>tid m. bindE (mark_into g tid m) (\<lambda>m.
      force_invalidate caches taskData force tid (h tid m))) ts m = Inr m' \<Longrightarrow>
    (\<And>tid m. mk_build (h tid m) = mk_build m) \<Longrightarrow>
    marked_closed g (mk_build m') \<and> set (mk_build m') = set (mk_build m) \<union> needed g (set ts)"
proof (induction ts arbitrary: m)
  case Nil
  then show ?case by (simp add: needed_simps)
next
  case (Cons t ts)
  then obtain m1 m2 where m1: "mark_into g t m = Inr m1"
    "force_invalidate caches taskData force t (h t m1) = Inr m2"
    "foldE (\<lambda>tid m. bindE (mark_into g tid m) (\<lambda>m. force_invalidate caches taskData force tid (h tid m))) ts m2 = Inr m'"
    by (auto simp: bindE_eq_Inr)
  have b: "mk_build m2 = mk_build m1" using force_invalidate_marks [OF m1(2)] Cons.prems(3) by simp
  note mi = mark_into_Inr [OF g Cons.prems(1) m1(1)]
  have "marked_closed g (mk_build m2)" using b mi by simp
  from Cons.IH [OF this m1(3) Cons.prems(3)]
  show ?case using needed_simps(2) [of g "{t}" "set ts"] b mi by auto
qed

lemma runall_task_ok:
  assumes g: "deps_ok g" and m: "marked_closed g (mk_build m)" "set (mk_build m) = needed g (set rs)"
    and r: "runall_task caches taskData force g reduced task (rs, m) = Inr (rs', m')"
  shows "marked_closed g (mk_build m') \<and> set (mk_build m') = needed g (set rs') \<and>
    set rs' = set rs \<union> wanted g [task] (set reduced)"
proof -
  let ?rs = "fold (\<lambda>tid rs. let want = tid_of (fn_from_tid tid) (do_name task)
      in if dhas g want then sadd want rs else rs) reduced rs"
  from r have rs': "rs' = ?rs" and f: "foldE (\<lambda>tid m. bindE (mark_into g tid m) (\<lambda>m.
      force_invalidate caches taskData force tid (m\<lparr>mk_targets := mk_targets m @ [tid]\<rparr>))) ?rs m = Inr m'"
    by (auto simp: runall_task_def bindE_eq_Inr Let_def)
  from mark_invalidate_fold [OF g m(1) f] have "marked_closed g (mk_build m')"
    "set (mk_build m') = set (mk_build m) \<union> needed g (set ?rs)" by simp_all
  moreover have "set ?rs = set rs \<union> wanted g [task] (set reduced)" by (rule wanted_fold)
  ultimately show ?thesis
    unfolding rs' using m(2) needed_simps(2) [of g "set rs" "wanted g [task] (set reduced)"] by auto
qed

lemma runall_tasks_ok:
  assumes g: "deps_ok g"
  shows "marked_closed g (mk_build m) \<Longrightarrow> set (mk_build m) = needed g (set rs) \<Longrightarrow>
    foldE (runall_task caches taskData force g reduced) tasks (rs, m) = Inr (rs', m') \<Longrightarrow>
    marked_closed g (mk_build m') \<and> set (mk_build m') = needed g (set rs') \<and>
    set rs' = set rs \<union> wanted g tasks (set reduced)"
proof (induction tasks arbitrary: rs m)
  case Nil
  then show ?case by (simp add: wanted_def)
next
  case (Cons task tasks)
  then obtain rs1 m1 where 1: "runall_task caches taskData force g reduced task (rs, m) = Inr (rs1, m1)"
    "foldE (runall_task caches taskData force g reduced) tasks (rs1, m1) = Inr (rs', m')"
    by (auto simp: bindE_eq_Inr)
  from runall_task_ok [OF g Cons.prems(1,2) 1(1)] have s: "marked_closed g (mk_build m1)"
    "set (mk_build m1) = needed g (set rs1)" "set rs1 = set rs \<union> wanted g [task] (set reduced)" by auto
  have "wanted g (task # tasks) B = wanted g [task] B \<union> wanted g tasks B" for B by (auto simp: wanted_def)
  with Cons.IH [OF s(1,2) 1(2)] s(3) show ?case by auto
qed

lemma runall_round_ok:
  assumes g: "deps_ok g" and r: "runall_round caches taskData force g tasks m = Inr (rs, m')"
  shows "marked_closed g (mk_build m') \<and> set (mk_build m') = needed g (set rs) \<and>
    set rs = wanted g tasks (set (mk_build m) \<inter> nodes g)"
proof -
  let ?red = "filter (\<lambda>tid. tid \<in> set (mk_build m)) (dkeys g)"
  have "set ?red = set (mk_build m) \<inter> nodes g" by (auto simp: nodes_def)
  moreover from r have "foldE (runall_task caches taskData force g ?red) tasks ([], m\<lparr>mk_build := []\<rparr>) = Inr (rs, m')"
    by (simp add: runall_round_def)
  moreover have "marked_closed g (mk_build (m\<lparr>mk_build := []\<rparr>))" by (simp add: marked_closed_def)
  moreover have "set (mk_build (m\<lparr>mk_build := []\<rparr>)) = needed g (set [])" by (simp add: needed_simps)
  ultimately have "marked_closed g (mk_build m') \<and>
      set (mk_build m') = needed g (set rs) \<and> set rs = set [] \<union> wanted g tasks (set ?red)"
    using runall_tasks_ok [OF g] by blast
  with \<open>set ?red = set (mk_build m) \<inter> nodes g\<close> show ?thesis by simp
qed

lemma fn_from_tid_of: "colon \<notin> set t \<Longrightarrow> fn_from_tid (tid_of f t) = f"
  unfolding tid_of_def using fn_from_tid_append [of t f] by simp

lemma do_name_colon: "colon \<notin> set t \<Longrightarrow> colon \<notin> set (do_name t)"
  by (simp add: do_name_def colon_def)

lemma wanted_self:
  assumes "\<forall>t \<in> set tasks. colon \<notin> set t"
  shows "wanted g tasks B \<subseteq> wanted g tasks (wanted g tasks B)"
  using assms do_name_colon by (fastforce simp: wanted_def fn_from_tid_of)

lemma wanted_mono: "A \<subseteq> B \<Longrightarrow> wanted g tasks A \<subseteq> wanted g tasks B"
  by (auto simp: wanted_def)

lemma runall_loop_result:
  assumes g: "deps_ok g" and t: "\<forall>t \<in> set tasks. colon \<notin> set t"
  shows "set orig \<subseteq> wanted g tasks (set (mk_build m) \<inter> nodes g) \<Longrightarrow>
    orig = [] \<or> set (mk_build m) = needed g (set orig) \<Longrightarrow>
    \<exists>r. runall_loop caches taskData force g tasks orig m = Some r \<and>
      (\<forall>m'. r = Inr m' \<longrightarrow> marked_closed g (mk_build m') \<and> wanted g tasks (set (mk_build m')) \<subseteq> set (mk_build m'))"
proof (induction "card (nodes g - set orig)" arbitrary: orig m rule: less_induct)
  case less
  show ?case
  proof (cases "runall_round caches taskData force g tasks m")
    case (Inl e)
    then show ?thesis by (subst runall_loop.simps) simp
  next
    case (Inr r)
    obtain rs m1 where r: "r = (rs, m1)" by (cases r)
    from runall_round_ok [OF g Inr [unfolded r]] have s: "marked_closed g (mk_build m1)"
      "set (mk_build m1) = needed g (set rs)" "set rs = wanted g tasks (set (mk_build m) \<inter> nodes g)" by auto
    show ?thesis
    proof (cases "sdiff rs orig = []")
      case True
      have "set rs - set orig = set (sdiff rs orig)" by simp
      also have "\<dots> = {}" unfolding True by simp
      finally have eq: "set rs = set orig" using less.prems(1) s(3) by blast
      have cl: "set (mk_build m1) \<inter> nodes g = set (mk_build m1)" using s(1) by (auto simp: marked_closed_def)
      have "wanted g tasks (set (mk_build m1)) \<subseteq> set (mk_build m1)"
      proof (cases "orig = []")
        case True
        with eq s(2) show ?thesis by (simp add: needed_simps wanted_def)
      next
        case False
        with less.prems(2) eq s(2) have "set (mk_build m1) = set (mk_build m)" by simp
        with s(3) cl have "wanted g tasks (set (mk_build m1)) = set rs" by simp
        then show ?thesis using s(2) needed_simps(3) by blast
      qed
      moreover have "runall_loop caches taskData force g tasks orig m = Some (Inr m1)"
        using Inr r True by (subst runall_loop.simps) simp
      ultimately show ?thesis using s(1) by simp
    next
      case False
      then have "hd (sdiff rs orig) \<in> set (sdiff rs orig)" by (rule hd_in_set)
      then have "hd (sdiff rs orig) \<in> set rs - set orig" by simp
      moreover have rsn: "set rs \<subseteq> nodes g" unfolding s(3) by (auto simp: wanted_def)
      ultimately have dec: "card (nodes g - set rs) < card (nodes g - set orig)"
        using less.prems(1) s(3) by (intro psubset_card_mono) (auto simp: nodes_def)
      have "set rs \<subseteq> set (mk_build m1) \<inter> nodes g" using s(2) rsn needed_simps(3) by blast
      from wanted_mono [OF this, of g tasks] have "set rs \<subseteq> wanted g tasks (set (mk_build m1) \<inter> nodes g)"
        using wanted_self [OF t, of g "set (mk_build m) \<inter> nodes g"] unfolding s(3) by (rule subset_trans [rotated])
      from less.hyps [OF dec this] s(2) obtain r' where r': "runall_loop caches taskData force g tasks rs m1 = Some r'"
        "\<forall>m'. r' = Inr m' \<longrightarrow> marked_closed g (mk_build m') \<and> wanted g tasks (set (mk_build m')) \<subseteq> set (mk_build m')"
        by blast
      moreover have "runall_loop caches taskData force g tasks orig m = runall_loop caches taskData force g tasks rs m1"
        using Inr r False by (subst runall_loop.simps) simp
      ultimately show ?thesis by simp
    qed
  qed
qed

text \<open>C11. The loop of \<^verbatim>\<open>--runall\<close> ends when no task name has a colon. Unless an invalidation
  raises, the marked tasks are closed under dependencies and contain, with every task, the named tasks of
  its file that exist.\<close>

theorem runall_loop_ends:
  assumes "deps_ok g" and "\<forall>task \<in> set tasks. colon \<notin> set task"
  shows "\<exists>r. runall_loop caches taskData force g tasks [] m = Some r \<and>
    (\<forall>m'. r = Inr m' \<longrightarrow> marked_closed g (mk_build m') \<and>
       wanted g tasks (set (mk_build m')) \<subseteq> set (mk_build m'))"
  using runall_loop_result [OF assms, of "[]" m] by simp

lemma runall_loop_ends_witness:
  "\<exists>r. runall_loop [] [] False chain_graph [''do_b''] []
     \<lparr>mk_build = [''a.bb:do_a'', ''b.bb:do_b''], mk_targets = [], mk_log = []\<rparr> = Some r"
  using runall_loop_ends [OF chain_graph_ok(1), of "[''do_b'']"] by (fastforce simp: colon_def)

section \<open>The pruned graph\<close>

lemma prune_get: "dget (prune b g) t = (if t \<in> set b then dget g t else None)"
  by (induction g) (auto simp: prune_def)

lemma nodes_prune: "set b \<subseteq> nodes g \<Longrightarrow> nodes (prune b g) = set b"
  by (auto simp: nodes_has dhas_iff prune_get split: if_splits)

lemma entry_prune: "t \<in> set b \<Longrightarrow> dget_default (prune b g) t new_entry = dget_default g t new_entry"
  by (simp add: dget_default_def prune_get)

lemma prune_ok:
  assumes g: "deps_ok g" and b: "marked_closed g b"
  shows "deps_ok (prune b g) \<and> nodes (prune b g) = set b"
proof -
  have n: "nodes (prune b g) = set b" using b by (intro nodes_prune) (simp add: marked_closed_def)
  have "distinct (dkeys (prune b g))"
    using deps_okD(1) [OF g] unfolding prune_def by (simp add: distinct_map_filter)
  moreover have "distinct (deps_of (prune b g) t)" "set (deps_of (prune b g) t) \<subseteq> set b" if "t \<in> set b" for t
    using that b deps_okD(2) [OF g, of t] unfolding entry_prune [OF that] by (auto simp: marked_closed_def)
  ultimately show ?thesis using n unfolding deps_ok_def by simp
qed

lemma edges_prune: "edges (prune b g) = {(r, t) \<in> edges g. r \<in> set b \<and> t \<in> set b}" if "set b \<subseteq> nodes g"
  using that nodes_prune [OF that] entry_prune [of _ b g] by (auto simp: edges_def)

text \<open>No reverse dependency is recorded yet.\<close>

definition no_revs :: "taskgraph \<Rightarrow> bool" where
  "no_revs g \<longleftrightarrow> (\<forall>t \<in> nodes g. revs_of g t = [])"

text \<open>A single step of the reverse dependencies.\<close>

lemma add_revdep_ok:
  assumes "dep \<in> nodes g"
  shows "\<exists>g'. add_revdep tid dep g = Inr g' \<and> nodes g' = nodes g \<and> dkeys g' = dkeys g \<and>
    (\<forall>t. deps_of g' t = deps_of g t) \<and> (\<forall>t. revs_of g' t = (if t = dep then sadd tid (revs_of g t) else revs_of g t))"
proof -
  define g' where "g' = dset dep ((dget_default g dep new_entry)\<lparr>re_revdeps := sadd tid (revs_of g dep)\<rparr>) g"
  have "add_revdep tid dep g = Inr g'" using assms by (simp add: add_revdep_def dindex_node g'_def)
  moreover have "dkeys g' = dkeys g" unfolding g'_def using assms by (intro dkeys_dset_present) (simp add: nodes_def)
  moreover from this have "nodes g' = nodes g" unfolding nodes_def by metis
  ultimately show ?thesis by (intro exI [of _ g']) (auto simp: g'_def dict_simps)
qed

lemma add_revdep_fold:
  "set deps \<subseteq> nodes g \<Longrightarrow>
   \<exists>g'. foldE (add_revdep tid) deps g = Inr g' \<and> nodes g' = nodes g \<and> dkeys g' = dkeys g \<and>
    (\<forall>t. deps_of g' t = deps_of g t) \<and>
    (\<forall>t. set (revs_of g' t) = set (revs_of g t) \<union> (if t \<in> set deps then {tid} else {})) \<and>
    (\<forall>t. distinct (revs_of g t) \<longrightarrow> distinct (revs_of g' t))"
proof (induction deps arbitrary: g)
  case Nil
  then show ?case by simp
next
  case (Cons dep deps)
  from Cons.prems add_revdep_ok [of dep g tid] obtain g1 where 1: "add_revdep tid dep g = Inr g1"
    "nodes g1 = nodes g" "dkeys g1 = dkeys g" "\<forall>t. deps_of g1 t = deps_of g t"
    "\<forall>t. revs_of g1 t = (if t = dep then sadd tid (revs_of g t) else revs_of g t)" by auto
  from Cons.IH [of g1] Cons.prems 1(2) obtain g' where 2: "foldE (add_revdep tid) deps g1 = Inr g'"
    "nodes g' = nodes g1" "dkeys g' = dkeys g1" "\<forall>t. deps_of g' t = deps_of g1 t"
    "\<forall>t. set (revs_of g' t) = set (revs_of g1 t) \<union> (if t \<in> set deps then {tid} else {})"
    "\<forall>t. distinct (revs_of g1 t) \<longrightarrow> distinct (revs_of g' t)" by auto
  have "distinct (revs_of g' t)" if "distinct (revs_of g t)" for t
    using that 1(5) 2(6) by (cases "t = dep") simp_all
  moreover have "\<forall>t. set (revs_of g' t) = set (revs_of g t) \<union> (if t \<in> set (dep # deps) then {tid} else {})"
    using 1(5) 2(5) by auto
  moreover have "foldE (add_revdep tid) (dep # deps) g = Inr g'" using 1(1) 2(1) by simp
  moreover have "nodes g' = nodes g" "dkeys g' = dkeys g" "\<forall>t. deps_of g' t = deps_of g t"
    using 1 2 by simp_all
  ultimately show ?case by blast
qed

lemma set_revdeps_fold:
  "\<forall>kv \<in> set xs. set (re_depends (snd kv)) \<subseteq> nodes g \<Longrightarrow>
   \<exists>g'. foldE (\<lambda>kv. foldE (add_revdep (fst kv)) (re_depends (snd kv))) xs g = Inr g' \<and> nodes g' = nodes g \<and>
    dkeys g' = dkeys g \<and> (\<forall>t. deps_of g' t = deps_of g t) \<and>
    (\<forall>t. set (revs_of g' t) = set (revs_of g t) \<union> {r. \<exists>e. (r, e) \<in> set xs \<and> t \<in> set (re_depends e)}) \<and>
    (\<forall>t. distinct (revs_of g t) \<longrightarrow> distinct (revs_of g' t))"
proof (induction xs arbitrary: g)
  case Nil
  then show ?case by simp
next
  case (Cons kv xs)
  from add_revdep_fold [of "re_depends (snd kv)" g "fst kv"] Cons.prems obtain g1 where
    1: "foldE (add_revdep (fst kv)) (re_depends (snd kv)) g = Inr g1" "nodes g1 = nodes g" "dkeys g1 = dkeys g"
    "\<forall>t. deps_of g1 t = deps_of g t"
    "\<forall>t. set (revs_of g1 t) = set (revs_of g t) \<union> (if t \<in> set (re_depends (snd kv)) then {fst kv} else {})"
    "\<forall>t. distinct (revs_of g t) \<longrightarrow> distinct (revs_of g1 t)" by auto
  from Cons.IH [of g1] Cons.prems 1(2) obtain g' where
    2: "foldE (\<lambda>kv. foldE (add_revdep (fst kv)) (re_depends (snd kv))) xs g1 = Inr g'" "nodes g' = nodes g1"
    "dkeys g' = dkeys g1" "\<forall>t. deps_of g' t = deps_of g1 t"
    "\<forall>t. set (revs_of g' t) = set (revs_of g1 t) \<union> {r. \<exists>e. (r, e) \<in> set xs \<and> t \<in> set (re_depends e)}"
    "\<forall>t. distinct (revs_of g1 t) \<longrightarrow> distinct (revs_of g' t)" by auto
  have "{r. \<exists>e. (r, e) \<in> set (kv # xs) \<and> t \<in> set (re_depends e)} =
      {r. \<exists>e. (r, e) \<in> set xs \<and> t \<in> set (re_depends e)} \<union> (if t \<in> set (re_depends (snd kv)) then {fst kv} else {})" for t
    by (cases kv) auto
  then have "\<forall>t. set (revs_of g' t) = set (revs_of g t) \<union> {r. \<exists>e. (r, e) \<in> set (kv # xs) \<and> t \<in> set (re_depends e)}"
    using 1(5) 2(5) by auto
  moreover have "foldE (\<lambda>kv. foldE (add_revdep (fst kv)) (re_depends (snd kv))) (kv # xs) g = Inr g'"
    using 1(1) 2(1) by simp
  moreover have "nodes g' = nodes g" "dkeys g' = dkeys g" "\<forall>t. deps_of g' t = deps_of g t"
    "\<forall>t. distinct (revs_of g t) \<longrightarrow> distinct (revs_of g' t)"
    using 1 2 by simp_all
  ultimately show ?case by blast
qed

lemma set_revdeps_ok:
  assumes g: "deps_ok g" and n: "no_revs g"
  shows "\<exists>g'. set_revdeps g = Inr g' \<and> consistent g' \<and> nodes g' = nodes g \<and> edges g' = edges g"
proof -
  note gr = graph_entry [OF deps_okD(1) [OF g]]
  have "set (re_depends (snd kv)) \<subseteq> nodes g" if "kv \<in> set g" for kv
    using that gr [of "fst kv" "snd kv"] deps_okD(3) [OF g, of "fst kv"] by simp
  with set_revdeps_fold [of g g] obtain g' where g': "set_revdeps g = Inr g'" "nodes g' = nodes g"
    "dkeys g' = dkeys g" "\<forall>t. deps_of g' t = deps_of g t"
    "\<forall>t. set (revs_of g' t) = set (revs_of g t) \<union> {r. \<exists>e. (r, e) \<in> set g \<and> t \<in> set (re_depends e)}"
    "\<forall>t. distinct (revs_of g t) \<longrightarrow> distinct (revs_of g' t)"
    unfolding set_revdeps_def by blast
  have "{r. \<exists>e. (r, e) \<in> set g \<and> t \<in> set (re_depends e)} = {r \<in> nodes g. t \<in> set (deps_of g r)}" for t
    using gr by auto
  moreover have "revs_of g t = []" if "t \<in> nodes g" for t using n that by (simp add: no_revs_def)
  ultimately have "set (revs_of g' t) = {r \<in> nodes g. t \<in> set (deps_of g r)}" "distinct (revs_of g' t)"
    if "t \<in> nodes g" for t using g'(5,6) that by simp_all
  moreover have "distinct (dkeys g')" unfolding g'(3) by (rule deps_okD(1) [OF g])
  ultimately have "consistent g'"
    unfolding consistent_def g'(2) using g'(4) deps_okD [OF g] by simp
  with g' show ?thesis by (intro exI [of _ g']) (simp add: edges_def)
qed

section \<open>Endpoints and weights\<close>

lemma find_endpoints_eq:
  "find_endpoints g =
     (case find (\<lambda>kv. \<exists>dep \<in> set (re_revdeps (snd kv)). dep \<in> set (re_depends (snd kv))) g of
        Some kv \<Rightarrow> Inl (BBFatal (fst kv))
      | None \<Rightarrow> Inr (map fst (filter (\<lambda>kv. re_revdeps (snd kv) = []) g)))"
proof -
  let ?f = "\<lambda>(kv :: string \<times> runtaskentry) endpoints.
         let e = snd kv; endpoints = (if re_revdeps e = [] then endpoints @ [fst kv] else endpoints)
         in if \<exists>dep \<in> set (re_revdeps e). dep \<in> set (re_depends e) then Inl (BBFatal (fst kv)) else Inr endpoints"
  have "foldE ?f xs acc =
     (case find (\<lambda>kv. \<exists>dep \<in> set (re_revdeps (snd kv)). dep \<in> set (re_depends (snd kv))) xs of
        Some kv \<Rightarrow> Inl (BBFatal (fst kv))
      | None \<Rightarrow> Inr (acc @ map fst (filter (\<lambda>kv. re_revdeps (snd kv) = []) xs)))" for xs acc
    by (induction xs arbitrary: acc) (auto simp: Let_def split: option.splits)
  from this [of g "[]"] show ?thesis by (simp add: find_endpoints_def split: option.splits)
qed

lemma final_tasks_entries:
  assumes "distinct (dkeys g)"
  shows "map fst (filter (\<lambda>kv. re_revdeps (snd kv) = []) g) = final_tasks g"
proof -
  have "filter (\<lambda>kv. re_revdeps (snd kv) = []) g = filter (\<lambda>kv. revs_of g (fst kv) = []) g"
    using graph_entry [OF assms] by (intro filter_cong) auto
  then show ?thesis unfolding final_tasks_def by (simp add: filter_map o_def)
qed

lemma two_loop_cyclic:
  assumes g: "consistent g" and f: "find (\<lambda>kv. \<exists>dep \<in> set (re_revdeps (snd kv)). dep \<in> set (re_depends (snd kv))) g = Some kv"
  shows "\<not> acyclic (edges g)"
proof -
  from f obtain dep where kv: "kv \<in> set g" "dep \<in> set (re_revdeps (snd kv))" "dep \<in> set (re_depends (snd kv))"
    by (auto simp: find_Some_iff)
  then have n: "fst kv \<in> nodes g" "snd kv = dget_default g (fst kv) new_entry"
    using graph_entry [OF consistentD(1) [OF g], of "fst kv" "snd kv"] by simp_all
  with kv consistentD(5,6) [OF g n(1)] have "(dep, fst kv) \<in> edges g" "(fst kv, dep) \<in> edges g" by auto
  then have "(dep, dep) \<in> (edges g)\<^sup>+" by (meson r_into_trancl trancl_into_trancl)
  then show ?thesis by (auto simp: acyclic_def)
qed

lemma weigh_graph_result:
  assumes g: "deps_ok g" and n: "no_revs g"
  shows "if acyclic (edges g)
    then \<exists>g'. weigh_graph g = Inr g' \<and> consistent g' \<and> nodes g' = nodes g \<and> edges g' = edges g \<and>
      (\<forall>t \<in> nodes g. re_weight (dget_default g' t new_entry) =
         base_weight (set (final_tasks g')) t + (\<Sum>r \<in> set (revs_of g' t). re_weight (dget_default g' r new_entry)))
    else \<exists>e. weigh_graph g = Inl e"
proof -
  from set_revdeps_ok [OF assms] obtain g1 where
    g1: "set_revdeps g = Inr g1" "consistent g1" "nodes g1 = nodes g" "edges g1 = edges g" by blast
  let ?two = "find (\<lambda>kv. \<exists>dep \<in> set (re_revdeps (snd kv)). dep \<in> set (re_depends (snd kv))) g1"
  show ?thesis
  proof (cases ?two)
    case (Some kv)
    then have "\<not> acyclic (edges g)" using two_loop_cyclic [OF g1(2)] g1(4) by simp
    moreover have "weigh_graph g = Inl (BBFatal (fst kv))"
      using g1(1) Some by (simp add: weigh_graph_def find_endpoints_eq)
    ultimately show ?thesis by simp
  next
    case None
    then have ends: "find_endpoints g1 = Inr (final_tasks g1)"
      by (simp add: find_endpoints_eq final_tasks_entries [OF consistentD(1) [OF g1(2)]])
    from task_weights_result [OF g1(2)] obtain r v where
      r: "calculate_task_weights g1 (final_tasks g1) = Inr (r, set_weights v g1)"
      "case r of WeightsOf w \<Rightarrow> w = v \<and> acyclic (edges g1) \<and>
         (\<forall>t \<in> nodes g1. dget w t = Some (base_weight (set (final_tasks g1)) t +
            (\<Sum>r \<in> set (revs_of g1 t). dget_default w r 0)))
       | Unbuildable tasks msgs \<Rightarrow> \<not> acyclic (edges g1) \<and> set tasks = down.looped g1" by blast
    show ?thesis
    proof (cases r)
      case (Unbuildable tasks msgs)
      with r g1 ends show ?thesis by (simp add: weigh_graph_def)
    next
      case (WeightsOf w)
      define g2 where "g2 = set_weights v g1"
      have run: "weigh_graph g = Inr g2" using WeightsOf r g1(1) ends by (simp add: weigh_graph_def g2_def)
      have ac: "acyclic (edges g)" and w: "dget v t = Some (base_weight (set (final_tasks g1)) t +
            (\<Sum>r \<in> set (revs_of g1 t). dget_default v r 0))" if "t \<in> nodes g1" for t
        using WeightsOf r(2) g1(4) that by auto
      have same: "deps_of g2 t = deps_of g1 t" "revs_of g2 t = revs_of g1 t" for t
        by (auto simp: g2_def dget_default_def set_weights_get split: option.splits)
      have c2: "consistent g2" "nodes g2 = nodes g1"
        unfolding g2_def by (rule consistent_set_weights [OF g1(2)], rule nodes_set_weights)
      have wt: "re_weight (dget_default g2 t new_entry) = dget_default v t 0" if t: "t \<in> nodes g1" for t
      proof -
        from t obtain e where "dget g1 t = Some e" by (auto simp: nodes_has dhas_iff)
        then have "dget g2 t = Some (e\<lparr>re_weight := dget_default v t 0\<rparr>)" by (simp add: g2_def set_weights_get)
        then show ?thesis by simp
      qed
      have "final_tasks g2 = final_tasks g1"
        using same(2) unfolding final_tasks_def by (simp add: g2_def set_weights_def o_def case_prod_unfold)
      moreover have "(\<Sum>r \<in> set (revs_of g1 t). dget_default v r 0) =
          (\<Sum>r \<in> set (revs_of g1 t). re_weight (dget_default g2 r new_entry))" if "t \<in> nodes g1" for t
      proof (rule sum.cong [OF refl])
        fix r assume "r \<in> set (revs_of g1 t)"
        then have "r \<in> nodes g1" using consistentD(5) [OF g1(2) that] edges_nodes by auto
        then show "dget_default v r 0 = re_weight (dget_default g2 r new_entry)" using wt by simp
      qed
      ultimately have "re_weight (dget_default g2 t new_entry) =
         base_weight (set (final_tasks g2)) t + (\<Sum>r \<in> set (revs_of g2 t). re_weight (dget_default g2 r new_entry))"
        if "t \<in> nodes g1" for t
        using w [OF that] wt that unfolding same by simp
      moreover have "edges g2 = edges g1" using same(1) c2(2) by (simp add: edges_def)
      moreover have "acyclic (edges g)" using WeightsOf r(2) g1(4) by simp
      ultimately show ?thesis using run c2 g1(3,4) by auto
    qed
  qed
qed

text \<open>C4. The reverse dependencies, endpoints and weights of a graph whose dependencies are tasks of it are
  computed exactly when it has no cycle. The tasks and dependencies stay, the reverse dependencies are the
  converse of the dependencies, and the weights obey their recurrence.\<close>

theorem weigh_graph_correct:
  assumes "deps_ok g" and "no_revs g"
  shows "if acyclic (edges g)
    then \<exists>g'. weigh_graph g = Inr g' \<and> consistent g' \<and> nodes g' = nodes g \<and> edges g' = edges g \<and>
      (\<forall>t \<in> nodes g. re_weight (dget_default g' t new_entry) =
         base_weight (set (final_tasks g')) t + (\<Sum>r \<in> set (revs_of g' t). re_weight (dget_default g' r new_entry)))
    else \<exists>e. weigh_graph g = Inl e"
  by (rule weigh_graph_result [OF assms])

lemma weigh_graph_correct_witness:
  "\<exists>g'. weigh_graph chain_graph = Inr g' \<and> consistent g' \<and> edges g' = {(''a.bb:do_a'', ''b.bb:do_b'')}"
proof -
  have "no_revs chain_graph" by (auto simp: no_revs_def nodes_def chain_graph_def dget_default_def new_entry_def)
  moreover have "acyclic (edges chain_graph)" by (simp add: chain_graph_ok acyclic_insert wf_acyclic)
  ultimately show ?thesis
    using weigh_graph_correct [OF chain_graph_ok(1)] chain_graph_ok(2) by auto
qed

lemma mark_targets_ok:
  assumes g: "deps_ok g" and r: "mark_targets taskData g targets = Inr m"
  shows "targets_ok g m"
proof (rule foldE_invariant [OF r [unfolded mark_targets_def], where P = "targets_ok g"])
  show "targets_ok g \<lparr>mk_build = [], mk_targets = [], mk_log = []\<rparr>"
    by (simp add: targets_ok_def marked_closed_def)
  show "targets_ok g m'" if "targets_ok g m" "mark_target taskData g x m = Inr m'" for x m m'
    by (rule mark_target_ok [OF g that])
qed

text \<open>C10. After the targets are marked, the active tasks are closed under dependencies, each is needed by
  one of the tasks of the targets, and pruning the others leaves a graph whose dependencies are tasks of it.\<close>

theorem active_tasks_needed:
  assumes "deps_ok g" and "mark_targets taskData g targets = Inr m"
  shows "deps_ok (prune (mk_build m) g) \<and> nodes (prune (mk_build m) g) = set (mk_build m) \<and>
    needed g (set (mk_build m)) = set (mk_build m) \<and> set (mk_build m) \<subseteq> needed g (set (mk_targets m))"
  using mark_targets_ok [OF assms] prune_ok [OF assms(1)] marked_needed [OF assms(1)]
  by (simp add: targets_ok_def)

definition one_target :: taskdata where
  "one_target = (taskdata_init False [] False init_cacheData)\<lparr>tk_build_targets := [(''a'', [''a.bb''])],
     tk_taskentries := [(''a.bb:do_a'', \<lparr>te_tdepends = [], te_idepends = [], te_irdepends = []\<rparr>)]\<rparr>"

lemma active_tasks_needed_witness:
  "\<exists>m. mark_targets [([], one_target)] chain_graph [([], ''a'', ''do_a'', ''a.bb'')] = Inr m \<and>
     needed chain_graph (set (mk_build m)) = set (mk_build m)"
proof -
  have "mark_targets [([], one_target)] chain_graph [([], ''a'', ''do_a'', ''a.bb'')] =
      Inr \<lparr>mk_build = [''a.bb:do_a'', ''b.bb:do_b''], mk_targets = [''a.bb:do_a''], mk_log = []\<rparr>"
    by code_simp
  from active_tasks_needed [OF chain_graph_ok(1) this] this show ?thesis by blast
qed

end
