(* ===== verification/PrepareCheck.thy ===== *)
theory PrepareCheck
  imports PrepareActive
begin

text \<open>
  The last steps of \<^verbatim>\<open>RunQueueData.prepare\<close> in \<^verbatim>\<open>bb/runqueue.py\<close>: the check
  for several providers of one name, the tasks with a setscene variant, invalidation, the table of virtual
  providers and the hashes; and the whole of \<^verbatim>\<open>prepare\<close>. The signature generator is the record
  \<open>siggen_ops\<close> of functions on a state of its own.
\<close>

section \<open>Several providers of one name\<close>

text \<open>
  What the message about a name with several providers holds: the files, and for each of them the
  dependees, provided names and runtime names that are not common to all.
\<close>

record multi_report =
  mr_prov :: string
  mr_files :: "string list"
  mr_deps :: "(string, string list) odict"
  mr_provides :: "(string \<times> string list) list"
  mr_rprovides :: "(string \<times> string list) list"
  mr_verbose :: bool

text \<open>The files of one multiconfig that the tasks of the graph belong to, by the names they provide.\<close>

definition note_provides ::
  "cachedata \<Rightarrow> string \<Rightarrow> string \<Rightarrow> (string, string list) odict \<times> string list \<Rightarrow>
    ((string, string list) odict \<times> string list) result" where
  "note_provides c mc tid = (\<lambda>(prov_list, seen_fn).
     bindE (split_tid_mcfn tid) (\<lambda>(tidmc, fn, taskname, taskfn).
     if taskfn \<in> set seen_fn \<or> mc \<noteq> tidmc then Inr (prov_list, seen_fn)
     else bindE (dindex (dc_fn_provides c) taskfn) (\<lambda>provs.
       Inr (fold (\<lambda>prov pl.
              case dget pl prov of
                None \<Rightarrow> dset prov [taskfn] pl
              | Some fs \<Rightarrow> if taskfn \<in> set fs then pl else dset prov (fs @ [taskfn]) pl) provs prov_list,
            seen_fn @ [taskfn]))))"

text \<open>
  What is common to several sets; an empty intersection starts again with the next set, as
  \<^verbatim>\<open>if not commondeps\<close> does.
\<close>

definition common_of :: "string list list \<Rightarrow> string list" where
  "common_of dss = fold (\<lambda>ds c. if c = [] then ds else sinter c ds) dss []"

definition dependees_of_file :: "taskgraph \<Rightarrow> string \<Rightarrow> string list" where
  "dependees_of_file g provfn =
     fold (\<lambda>kv deps. if fn_from_tid (fst kv) \<noteq> provfn then deps
             else fold (\<lambda>dep deps. if fn_from_tid dep = provfn then deps else sadd dep deps)
                    (re_revdeps (snd kv)) deps) g []"

definition keys_with :: "string \<Rightarrow> (string, string list) odict \<Rightarrow> string list" where
  "keys_with fn d = map fst (filter (\<lambda>kv. fn \<in> set (snd kv)) d)"

definition rprovides_of_file :: "cachedata \<Rightarrow> string \<Rightarrow> string list" where
  "rprovides_of_file c provfn =
     supdate (supdate (supdate [] (keys_with provfn (dc_rproviders c))) (keys_with provfn (dc_packages c)))
       (keys_with provfn (dc_packages_dynamic c))"

definition provides_of_file :: "cachedata \<Rightarrow> string \<Rightarrow> string list result" where
  "provides_of_file c provfn = bindE (dindex (dc_fn_provides c) provfn) (\<lambda>ps. Inr (supdate [] ps))"

text \<open>Two files of one PN that provide the same name end the build.\<close>

definition check_pns :: "cachedata \<Rightarrow> string list \<Rightarrow> unit result" where
  "check_pns c fns =
     bindE (foldE (\<lambda>fn seen_pn. bindE (dindex (dc_pkg_fn c) fn) (\<lambda>pn.
              if pn \<in> set seen_pn then Inl (BBFatal pn) else Inr (seen_pn @ [pn]))) fns []) (\<lambda>_. Inr ())"

definition report_provider :: "prepcfg \<Rightarrow> cachedata \<Rightarrow> taskgraph \<Rightarrow> string \<times> string list \<Rightarrow> multi_report result" where
  "report_provider cfg c g = (\<lambda>(prov, fns).
     bindE (check_pns c fns) (\<lambda>_.
     let deps = map (dependees_of_file g) fns; rprovs = map (rprovides_of_file c) fns in
     bindE (foldE (\<lambda>fn ps. bindE (provides_of_file c fn) (\<lambda>p. Inr (ps @ [p]))) fns []) (\<lambda>provs.
     Inr \<lparr>mr_prov = prov, mr_files = fns,
       mr_deps = map (\<lambda>fd. (fst fd, sdiff (snd fd) (common_of deps))) (zip fns deps),
       mr_provides = map (\<lambda>fd. (fst fd, sdiff (snd fd) (common_of provs))) (zip fns provs),
       mr_rprovides = map (\<lambda>fd. (fst fd, sdiff (snd fd) (common_of rprovs))) (zip fns rprovs),
       mr_verbose = pc_warn_multi_bb cfg\<rparr>)))"

definition multi_provider_check :: "prepcfg \<Rightarrow> taskgraph \<Rightarrow> string \<times> cachedata \<Rightarrow> multi_report list \<Rightarrow> multi_report list result" where
  "multi_provider_check cfg g kv reports =
     bindE (foldE (note_provides (snd kv) (fst kv)) (dkeys g) ([], [])) (\<lambda>st.
     foldE (\<lambda>pf reports.
        if length (snd pf) < 2 \<or> fst pf \<in> set (pc_multi_provider_allowed cfg) then Inr reports
        else bindE (report_provider cfg (snd kv) g pf) (\<lambda>r. Inr (reports @ [r]))) (fst st) reports)"

section \<open>Setscene tasks, invalidation and virtual providers\<close>

definition setscene_tids :: "prepcfg \<Rightarrow> (string, taskdata) odict \<Rightarrow> taskgraph \<Rightarrow> string list result" where
  "setscene_tids cfg taskData g =
     (if pc_nosetscene cfg then Inr []
      else foldE (\<lambda>tid ts. bindE (split_tid_mcfn tid) (\<lambda>(mc, fn, taskname, taskfn).
             bindE (dindex taskData mc) (\<lambda>td.
             Inr (if dhas (tk_taskentries td) (tid @ ''_setscene'') then sadd tid ts else ts)))) (dkeys g) [])"

definition invalidate_targets ::
  "prepcfg \<Rightarrow> caches \<Rightarrow> (string, taskdata) odict \<Rightarrow> string list \<Rightarrow> invalidation list \<Rightarrow> invalidation list result" where
  "invalidate_targets cfg caches taskData tids log =
     bindE (if pc_force cfg then foldE (\<lambda>tid. invalidate_task caches taskData tid False) tids log else Inr log) (\<lambda>log.
     case pc_invalidate_stamp cfg of
       None \<Rightarrow> Inr log
     | Some [] \<Rightarrow> Inr log
     | Some v \<Rightarrow>
         foldE (\<lambda>tid. foldE (\<lambda>st. invalidate_task caches taskData (tid_of (fn_from_tid tid) (do_name st)) True)
           (split_on (CHR '','') v)) tids log)"

text \<open>The table of virtual providers and their recipes, per multiconfig.\<close>

definition virtual_table :: "caches \<Rightarrow> string \<times> taskdata \<Rightarrow> (string \<times> (string, string) odict \<times> (string, string) odict) result" where
  "virtual_table caches kv =
     (let virtmap = get_providermap ''virtual/'' (snd kv)
      in bindE (foldE (\<lambda>vf virtpnmap. bindE (dindex caches (fst kv)) (\<lambda>c.
                  bindE (dindex (dc_pkg_fn c) (snd vf)) (\<lambda>pn. Inr (dset (fst vf) pn virtpnmap)))) virtmap [])
           (\<lambda>virtpnmap. Inr (fst kv, virtmap, virtpnmap)))"

section \<open>Hashes\<close>

record 's siggen_ops =
  sg_taskhash :: "'s \<Rightarrow> string \<Rightarrow> string list \<Rightarrow> string \<times> 's"
  sg_unihashes :: "'s \<Rightarrow> string list \<Rightarrow> (string \<Rightarrow> string) \<times> 's"

definition set_hash :: "string \<Rightarrow> string \<Rightarrow> taskgraph \<Rightarrow> taskgraph" where
  "set_hash tid h g = dset tid ((dget_default g tid new_entry)\<lparr>re_hash := Some h\<rparr>) g"

definition set_unihash :: "string \<Rightarrow> string \<Rightarrow> taskgraph \<Rightarrow> taskgraph" where
  "set_unihash tid h g = dset tid ((dget_default g tid new_entry)\<lparr>re_unihash := Some h\<rparr>) g"

text \<open>The tasks of a round: those whose dependencies are all dealt with.\<close>

definition ready_tasks :: "taskgraph \<Rightarrow> string list \<Rightarrow> string list \<Rightarrow> string list" where
  "ready_tasks g dealtwith todeal = filter (\<lambda>tid. set (deps_of g tid) \<subseteq> set dealtwith) todeal"

definition hash_task :: "'s siggen_ops \<Rightarrow> string \<Rightarrow> taskgraph \<times> 's \<Rightarrow> taskgraph \<times> 's" where
  "hash_task sg tid gs =
     (let r = sg_taskhash sg (snd gs) tid (deps_of (fst gs) tid) in (set_hash tid (fst r) (fst gs), snd r))"

definition hash_round :: "'s siggen_ops \<Rightarrow> string list \<Rightarrow> taskgraph \<times> 's \<Rightarrow> taskgraph \<times> 's" where
  "hash_round sg ready gs =
     (let gs = fold (hash_task sg) ready gs; u = sg_unihashes sg (snd gs) ready
      in (fold (\<lambda>tid g. set_unihash tid (fst u tid) g) ready (fst gs), snd u))"

partial_function (option) hash_loop ::
  "'s siggen_ops \<Rightarrow> string list \<Rightarrow> string list \<Rightarrow> taskgraph \<times> 's \<Rightarrow> (string list \<times> taskgraph \<times> 's) option" where
  "hash_loop sg dealtwith todeal gs =
     (if todeal = [] then Some (dealtwith, gs)
      else let ready = ready_tasks (fst gs) dealtwith todeal
           in hash_loop sg (dealtwith @ ready) (sdiff todeal ready) (hash_round sg ready gs))"

declare hash_loop.simps [code]

section \<open>The whole preparation\<close>

record 's prepared =
  pd_graph :: taskgraph
  pd_targets :: "string list"
  pd_setscene :: "string list"
  pd_log :: "invalidation list"
  pd_reports :: "multi_report list"
  pd_virtual :: "(string \<times> (string, string) odict \<times> (string, string) odict) list"
  pd_siggen :: 's

text \<open>Everything after the resolution of the dependencies and the marking, up to the hashes.\<close>

definition finish_prepare ::
  "prepcfg \<Rightarrow> 's siggen_ops \<Rightarrow> caches \<Rightarrow> (string, taskdata) odict \<Rightarrow> 's \<Rightarrow> taskgraph \<times> marks \<Rightarrow> 's prepared result option" where
  "finish_prepare cfg sg caches taskData s = (\<lambda>(g, m).
     case bindE (check_tasks_left taskData g) (\<lambda>_.
          bindE (weigh_graph g) (\<lambda>g.
          bindE (foldE (multi_provider_check cfg g) caches []) (\<lambda>reports.
          bindE (setscene_tids cfg taskData g) (\<lambda>setscene.
          bindE (invalidate_targets cfg caches taskData (mk_targets m) (mk_log m)) (\<lambda>log.
          bindE (foldE (\<lambda>kv vs. bindE (virtual_table caches kv) (\<lambda>v. Inr (vs @ [v]))) taskData []) (\<lambda>vs.
          Inr (g, reports, setscene, log, vs))))))) of
       Inl e \<Rightarrow> Some (Inl e)
     | Inr (g, reports, setscene, log, vs) \<Rightarrow>
         map_option (\<lambda>(dealt, g, s).
             Inr \<lparr>pd_graph = g, pd_targets = mk_targets m, pd_setscene = setscene, pd_log = log,
                  pd_reports = reports, pd_virtual = vs, pd_siggen = s\<rparr>)
           (hash_loop sg [] (dkeys g) (g, s)))"

text \<open>
  \<open>prepare\<close> is None when a loop does not end, and \<open>Inr None\<close> when there is no task at all. The task data
  used after the dependencies are resolved is the one with the multiconfig dependencies added.
\<close>

definition prepare ::
  "prepcfg \<Rightarrow> 's siggen_ops \<Rightarrow> caches \<Rightarrow> (string, taskdata) odict \<Rightarrow> (string \<times> string \<times> string \<times> string) list \<Rightarrow>
    's \<Rightarrow> 's prepared option result option" where
  "prepare cfg sg caches taskData targets s =
     (if \<forall>kv \<in> set taskData. tk_taskentries (snd kv) = [] then Some (Inr None)
      else Option.bind (resolve_depends caches taskData) (\<lambda>r.
        case r of
          Inl e \<Rightarrow> Some (Inl e)
        | Inr p \<Rightarrow>
            (case mark_targets (pr_taskData p) (pr_graph p) targets of
               Inl e \<Rightarrow> Some (Inl e)
             | Inr m \<Rightarrow>
                 Option.bind (apply_runall cfg caches (pr_taskData p) (pr_graph p) m) (\<lambda>r.
                 case bindE r (apply_runonly cfg caches (pr_taskData p)) of
                   Inl e \<Rightarrow> Some (Inl e)
                 | Inr gm \<Rightarrow> map_option (\<lambda>r. bindE r (\<lambda>x. Inr (Some x))) (finish_prepare cfg sg caches (pr_taskData p) s gm)))))"

section \<open>The order of the hashes\<close>

definition same_shape :: "taskgraph \<Rightarrow> taskgraph \<Rightarrow> bool" where
  "same_shape g g' \<longleftrightarrow> dkeys g' = dkeys g \<and> (\<forall>t. deps_of g' t = deps_of g t \<and> revs_of g' t = revs_of g t)"

lemma same_shape_refl [simp]: "same_shape g g"
  by (simp add: same_shape_def)

lemma same_shape_trans: "same_shape a b \<Longrightarrow> same_shape b c \<Longrightarrow> same_shape a c"
  by (simp add: same_shape_def)

lemma same_shapeD:
  assumes "same_shape g g'"
  shows "nodes g' = nodes g" "deps_of g' t = deps_of g t" "revs_of g' t = revs_of g t" "edges g' = edges g"
    "consistent g \<Longrightarrow> consistent g'" "deps_ok g \<Longrightarrow> deps_ok g'"
proof -
  show n: "nodes g' = nodes g" using assms unfolding same_shape_def nodes_def by metis
  show d: "deps_of g' t = deps_of g t" "revs_of g' t = revs_of g t" for t using assms by (simp_all add: same_shape_def)
  show "edges g' = edges g" by (simp add: edges_def n d)
  have k: "dkeys g' = dkeys g" using assms by (simp add: same_shape_def)
  show "consistent g \<Longrightarrow> consistent g'" unfolding consistent_def n d k .
  show "deps_ok g \<Longrightarrow> deps_ok g'" unfolding deps_ok_def n d k .
qed

definition hashed :: "taskgraph \<Rightarrow> string \<Rightarrow> bool" where
  "hashed g t \<longleftrightarrow> re_hash (dget_default g t new_entry) \<noteq> None \<and> re_unihash (dget_default g t new_entry) \<noteq> None"

lemma set_hash_shape:
  assumes "t \<in> nodes g"
  shows "same_shape g (set_hash t h g)" "same_shape g (set_unihash t h g)"
  using assms dkeys_dset_present [of t g] unfolding same_shape_def set_hash_def set_unihash_def nodes_def
  by (simp_all add: dget_default_dset_if)

lemma hash_fold_shape:
  "set ready \<subseteq> nodes (fst gs) \<Longrightarrow> same_shape (fst gs) (fst (fold (hash_task sg) ready gs)) \<and>
    (t \<in> set ready \<or> re_hash (dget_default (fst gs) t new_entry) \<noteq> None \<longrightarrow>
      re_hash (dget_default (fst (fold (hash_task sg) ready gs)) t new_entry) \<noteq> None) \<and>
    re_unihash (dget_default (fst (fold (hash_task sg) ready gs)) t new_entry) =
      re_unihash (dget_default (fst gs) t new_entry)"
proof (induction ready arbitrary: gs)
  case (Cons tid ready)
  define h where "h = fst (sg_taskhash sg (snd gs) tid (deps_of (fst gs) tid))"
  have f: "fst (hash_task sg tid gs) = set_hash tid h (fst gs)" by (simp add: hash_task_def Let_def h_def)
  have sh: "same_shape (fst gs) (fst (hash_task sg tid gs))"
    unfolding f using set_hash_shape(1) [of tid "fst gs"] Cons.prems by simp
  then have "set ready \<subseteq> nodes (fst (hash_task sg tid gs))" using Cons.prems same_shapeD(1) by auto
  note IH = Cons.IH [OF this]
  have "re_hash (dget_default (fst (hash_task sg tid gs)) t new_entry) =
      (if t = tid then Some h else re_hash (dget_default (fst gs) t new_entry))"
    "re_unihash (dget_default (fst (hash_task sg tid gs)) t new_entry) = re_unihash (dget_default (fst gs) t new_entry)"
    unfolding f by (simp_all add: set_hash_def dget_default_dset_if)
  with IH same_shape_trans [OF sh] show ?case by auto
qed simp

lemma unihash_fold_shape:
  "set ready \<subseteq> nodes g \<Longrightarrow> same_shape g (fold (\<lambda>tid g. set_unihash tid (u tid) g) ready g) \<and>
    (t \<in> set ready \<or> re_unihash (dget_default g t new_entry) \<noteq> None \<longrightarrow>
      re_unihash (dget_default (fold (\<lambda>tid g. set_unihash tid (u tid) g) ready g) t new_entry) \<noteq> None) \<and>
    re_hash (dget_default (fold (\<lambda>tid g. set_unihash tid (u tid) g) ready g) t new_entry) =
      re_hash (dget_default g t new_entry)"
proof (induction ready arbitrary: g)
  case (Cons tid ready)
  let ?g = "set_unihash tid (u tid) g"
  have sh: "same_shape g ?g" using set_hash_shape(2) [of tid g] Cons.prems by simp
  then have "set ready \<subseteq> nodes ?g" using Cons.prems same_shapeD(1) by auto
  note IH = Cons.IH [OF this]
  have "re_unihash (dget_default ?g t new_entry) =
      (if t = tid then Some (u tid) else re_unihash (dget_default g t new_entry))"
    "re_hash (dget_default ?g t new_entry) = re_hash (dget_default g t new_entry)"
    by (simp_all add: set_unihash_def dget_default_dset_if)
  with IH same_shape_trans [OF sh] show ?case by auto
qed simp

lemma hash_round_ok:
  assumes "set ready \<subseteq> nodes (fst gs)"
  shows "same_shape (fst gs) (fst (hash_round sg ready gs))"
    and "t \<in> set ready \<or> hashed (fst gs) t \<Longrightarrow> hashed (fst (hash_round sg ready gs)) t"
proof -
  define st where "st = fold (hash_task sg) ready gs"
  define u where "u = fst (sg_unihashes sg (snd st) ready)"
  have r: "fst (hash_round sg ready gs) = fold (\<lambda>tid g. set_unihash tid (u tid) g) ready (fst st)"
    by (simp add: hash_round_def Let_def st_def u_def)
  note h = hash_fold_shape [OF assms, of sg, folded st_def]
  have sh: "same_shape (fst gs) (fst st)" using h by blast
  have n: "set ready \<subseteq> nodes (fst st)" using assms same_shapeD(1) [OF sh] by simp
  note uh = unihash_fold_shape [OF n, of u, folded r]
  show "same_shape (fst gs) (fst (hash_round sg ready gs))" using same_shape_trans [OF sh] uh by blast
  show "t \<in> set ready \<or> hashed (fst gs) t \<Longrightarrow> hashed (fst (hash_round sg ready gs)) t"
    unfolding hashed_def using h [of t] uh [of t] by auto
qed

text \<open>A list in which every task comes after its dependencies.\<close>

definition deps_first :: "taskgraph \<Rightarrow> string list \<Rightarrow> bool" where
  "deps_first g xs \<longleftrightarrow> (\<forall>ys t zs. xs = ys @ t # zs \<longrightarrow> set (deps_of g t) \<subseteq> set ys)"

lemma deps_first_append:
  assumes x: "deps_first g xs" and r: "\<forall>t \<in> set rs. set (deps_of g t) \<subseteq> set xs"
  shows "deps_first g (xs @ rs)"
  unfolding deps_first_def
proof (intro allI impI)
  fix ys t zs assume e: "xs @ rs = ys @ t # zs"
  show "set (deps_of g t) \<subseteq> set ys"
  proof (cases "length ys < length xs")
    case True
    with e obtain vs where "xs = ys @ vs" "vs @ rs = t # zs" "vs \<noteq> []"
      by (auto simp: append_eq_append_conv2)
    then obtain us where "xs = ys @ t # us" by (cases vs) auto
    with x show ?thesis by (auto simp: deps_first_def)
  next
    case False
    with e obtain us where "ys = xs @ us" "rs = us @ t # zs"
      by (auto simp: append_eq_append_conv2 append_eq_Cons_conv)
    with r show ?thesis by auto
  qed
qed

lemma deps_first_acyclic:
  assumes x: "deps_first g xs" and n: "nodes g \<subseteq> set xs"
  shows "acyclic (edges g)"
proof -
  define f where "f t = length (takeWhile (\<lambda>u. u \<noteq> t) xs)" for t
  have "(edges g)\<inverse> \<subseteq> measure f"
  proof clarsimp
    fix r t assume e: "(r, t) \<in> edges g"
    then have "r \<in> set xs" using n edges_nodes by blast
    then obtain ys zs where xs: "xs = ys @ r # zs" "r \<notin> set ys" by (meson split_list_first)
    then have "t \<in> set ys" using x e by (fastforce simp: deps_first_def edges_def)
    then obtain us vs where ys: "ys = us @ t # vs" "t \<notin> set us" by (meson split_list_first)
    have "f r = length ys" using xs by (auto simp: f_def takeWhile_upto)
    moreover have "f t = length us" unfolding f_def xs(1) ys(1) using takeWhile_upto [OF ys(2)] by simp
    ultimately show "f t < f r" using ys(1) by simp
  qed
  then have "wf ((edges g)\<inverse>)" by (rule wf_subset [OF wf_measure])
  then show ?thesis using wf_acyclic acyclic_converse by blast
qed

text \<open>The state of the loop over the hashes.\<close>

definition hash_inv :: "taskgraph \<Rightarrow> string list \<Rightarrow> string list \<Rightarrow> taskgraph \<Rightarrow> bool" where
  "hash_inv g0 dealt todeal g \<longleftrightarrow> same_shape g0 g \<and> set dealt \<union> set todeal = nodes g0 \<and>
     deps_first g0 dealt \<and> (\<forall>t \<in> set dealt. hashed g t)"

lemma hash_inv_step:
  assumes "hash_inv g0 dealt todeal (fst gs)"
  defines "ready \<equiv> ready_tasks (fst gs) dealt todeal"
  shows "hash_inv g0 (dealt @ ready) (sdiff todeal ready) (fst (hash_round sg ready gs))"
proof -
  have sh: "same_shape g0 (fst gs)" and u: "set dealt \<union> set todeal = nodes g0" and d: "deps_first g0 dealt"
    and h: "\<forall>t \<in> set dealt. hashed (fst gs) t" using assms(1) by (simp_all add: hash_inv_def)
  have sub: "set ready \<subseteq> set todeal" by (auto simp: ready_def ready_tasks_def)
  then have n: "set ready \<subseteq> nodes (fst gs)" using u same_shapeD(1) [OF sh] by auto
  have "\<forall>t \<in> set ready. set (deps_of g0 t) \<subseteq> set dealt"
    using same_shapeD(2) [OF sh] by (simp add: ready_def ready_tasks_def)
  from deps_first_append [OF d this] have "deps_first g0 (dealt @ ready)" .
  moreover have "set (dealt @ ready) \<union> set (sdiff todeal ready) = nodes g0" using u sub by auto
  moreover have "\<forall>t \<in> set (dealt @ ready). hashed (fst (hash_round sg ready gs)) t"
    using hash_round_ok(2) [OF n, of _ sg] h by auto
  ultimately show ?thesis
    unfolding hash_inv_def using same_shape_trans [OF sh hash_round_ok(1) [OF n, of sg]] by simp
qed

lemma hash_loop_inv:
  assumes "hash_loop sg dealt todeal gs = Some r" and "hash_inv g0 dealt todeal (fst gs)"
  shows "hash_inv g0 (fst r) [] (fst (snd r))"
proof -
  have "hash_inv g0 dealt todeal (fst gs) \<longrightarrow> hash_inv g0 (fst r) [] (fst (snd r))"
  proof (rule hash_loop.raw_induct [OF _ assms(1), where P = "\<lambda>sg dealt todeal gs r.
      hash_inv g0 dealt todeal (fst gs) \<longrightarrow> hash_inv g0 (fst r) [] (fst (snd r))"], intro impI)
    fix loop :: "'a siggen_ops \<Rightarrow> string list \<Rightarrow> string list \<Rightarrow> taskgraph \<times> 'a \<Rightarrow> (string list \<times> taskgraph \<times> 'a) option"
      and sg dealt todeal gs r
    assume IH: "\<And>sg dealt todeal gs r. loop sg dealt todeal gs = Some r \<Longrightarrow>
        hash_inv g0 dealt todeal (fst gs) \<longrightarrow> hash_inv g0 (fst r) [] (fst (snd r))"
      and eq: "(if todeal = [] then Some (dealt, gs)
        else let ready = ready_tasks (fst gs) dealt todeal
             in loop sg (dealt @ ready) (sdiff todeal ready) (hash_round sg ready gs)) = Some r"
      and inv: "hash_inv g0 dealt todeal (fst gs)"
    show "hash_inv g0 (fst r) [] (fst (snd r))"
    proof (cases "todeal = []")
      case True
      with eq inv show ?thesis by auto
    next
      case False
      with eq have "loop sg (dealt @ ready_tasks (fst gs) dealt todeal) (sdiff todeal (ready_tasks (fst gs) dealt todeal))
          (hash_round sg (ready_tasks (fst gs) dealt todeal) gs) = Some r" by (simp add: Let_def)
      from IH [OF this] hash_inv_step [OF inv] show ?thesis by blast
    qed
  qed
  with assms(2) show ?thesis by simp
qed

lemma ready_exists:
  assumes g: "deps_ok g0" and a: "acyclic (edges g0)" and inv: "hash_inv g0 dealt todeal g"
    and ne: "set todeal - set dealt \<noteq> {}"
  shows "\<exists>t \<in> set todeal - set dealt. t \<in> set (ready_tasks g dealt todeal)"
proof -
  have "wf ((edges g0)\<inverse>)"
    using a up.finite_E by (intro finite_acyclic_wf) (auto simp: acyclic_converse)
  then obtain m where m: "m \<in> set todeal - set dealt" "\<And>y. (y, m) \<in> (edges g0)\<inverse> \<Longrightarrow> y \<notin> set todeal - set dealt"
    using ne wfE_min' by metis
  have sh: "same_shape g0 g" and u: "set dealt \<union> set todeal = nodes g0" using inv by (simp_all add: hash_inv_def)
  have "m \<in> nodes g0" using m(1) u by auto
  have "set (deps_of g0 m) \<subseteq> set dealt"
  proof
    fix y assume "y \<in> set (deps_of g0 m)"
    then have e: "(m, y) \<in> edges g0" using deps_okD(4) [OF g \<open>m \<in> nodes g0\<close>] by simp
    then have "y \<in> nodes g0" by (rule edges_nodes)
    with m(2) [of y] e u show "y \<in> set dealt" by auto
  qed
  with m(1) same_shapeD(2) [OF sh] show ?thesis by (auto simp: ready_tasks_def)
qed

lemma hash_loop_total:
  assumes g: "deps_ok g0" and a: "acyclic (edges g0)"
  shows "hash_inv g0 dealt todeal (fst gs) \<Longrightarrow> set dealt \<inter> set todeal = {} \<Longrightarrow> \<exists>r. hash_loop sg dealt todeal gs = Some r"
proof (induction "length todeal" arbitrary: dealt todeal gs rule: less_induct)
  case less
  show ?case
  proof (cases "todeal = []")
    case True
    then show ?thesis by (subst hash_loop.simps) simp
  next
    case False
    let ?ready = "ready_tasks (fst gs) dealt todeal"
    have "hd todeal \<in> set todeal" using False by simp
    with less.prems(2) have "set todeal - set dealt \<noteq> {}" by blast
    from ready_exists [OF g a less.prems(1) this] obtain t where t: "t \<in> set todeal" "t \<in> set ?ready" by auto
    then have "length (sdiff todeal ?ready) < length todeal"
      unfolding sdiff_def by (intro length_filter_less [of t]) auto
    moreover have "set (dealt @ ?ready) \<inter> set (sdiff todeal ?ready) = {}" using less.prems(2) by auto
    ultimately obtain r where "hash_loop sg (dealt @ ?ready) (sdiff todeal ?ready) (hash_round sg ?ready gs) = Some r"
      using less.hyps hash_inv_step [OF less.prems(1)] by blast
    with False have "hash_loop sg dealt todeal gs = Some r" by (subst hash_loop.simps) (simp add: Let_def)
    then show ?thesis by blast
  qed
qed

lemma hash_loop_result:
  assumes g: "deps_ok g"
  shows "(\<exists>r. hash_loop sg [] (dkeys g) (g, s) = Some r) \<longleftrightarrow> acyclic (edges g)"
    and "hash_loop sg [] (dkeys g) (g, s) = Some (dealt, g', s') \<Longrightarrow>
      same_shape g g' \<and> set dealt = nodes g \<and> deps_first g dealt \<and> (\<forall>t \<in> nodes g. hashed g' t)"
proof -
  have start: "hash_inv g [] (dkeys g) (fst (g, s))" by (simp add: hash_inv_def nodes_def deps_first_def)
  show fin: "hash_loop sg [] (dkeys g) (g, s) = Some (dealt, g', s') \<Longrightarrow>
      same_shape g g' \<and> set dealt = nodes g \<and> deps_first g dealt \<and> (\<forall>t \<in> nodes g. hashed g' t)" for dealt g' s'
    using hash_loop_inv [OF _ start] by (fastforce simp: hash_inv_def)
  show "(\<exists>r. hash_loop sg [] (dkeys g) (g, s) = Some r) \<longleftrightarrow> acyclic (edges g)"
  proof
    assume "\<exists>r. hash_loop sg [] (dkeys g) (g, s) = Some r"
    then obtain dealt g' s' where "hash_loop sg [] (dkeys g) (g, s) = Some (dealt, g', s')" by (auto simp: prod_eq_iff)
    from fin [OF this] show "acyclic (edges g)" using deps_first_acyclic [of g dealt] by simp
  next
    assume "acyclic (edges g)"
    from hash_loop_total [OF g this start] show "\<exists>r. hash_loop sg [] (dkeys g) (g, s) = Some r" by simp
  qed
qed

text \<open>C7. For a graph whose dependencies are tasks of it, the loop over the hashes ends exactly when the graph
  has no cycle. Then every task has a hash and a unihash, the graph is otherwise unchanged, and each task
  was dealt with after all its dependencies.\<close>

theorem hash_loop_order:
  assumes "deps_ok g"
  shows "((\<exists>r. hash_loop sg [] (dkeys g) (g, s) = Some r) \<longleftrightarrow> acyclic (edges g)) \<and>
    (\<forall>dealt g' s'. hash_loop sg [] (dkeys g) (g, s) = Some (dealt, g', s') \<longrightarrow>
      same_shape g g' \<and> set dealt = nodes g \<and> deps_first g dealt \<and> (\<forall>t \<in> nodes g. hashed g' t))"
  using hash_loop_result(1) [OF assms, of sg s] hash_loop_result(2) [OF assms, of sg s] by blast

definition plain_siggen :: "string list siggen_ops" where
  "plain_siggen = \<lparr>sg_taskhash = (\<lambda>s tid deps. (tid, s @ [tid])), sg_unihashes = (\<lambda>s ready. (\<lambda>t. t, s))\<rparr>"

lemma hash_loop_order_witness:
  "\<exists>dealt g' s'. hash_loop plain_siggen [] (dkeys chain_graph) (chain_graph, []) = Some (dealt, g', s') \<and>
     hashed g' ''a.bb:do_a''"
proof -
  have "acyclic (edges chain_graph)" by (simp add: chain_graph_ok acyclic_insert wf_acyclic)
  then obtain r where r: "hash_loop plain_siggen [] (dkeys chain_graph) (chain_graph, []) = Some r"
    using hash_loop_order [OF chain_graph_ok(1), of plain_siggen "[]"] by blast
  obtain dealt g' s' where "r = (dealt, g', s')" by (cases r) auto
  with r hash_loop_order [OF chain_graph_ok(1), of plain_siggen "[]"] chain_graph_ok(3) show ?thesis by blast
qed

section \<open>The resolved dependencies\<close>

definition prep_inv :: "prep \<Rightarrow> bool" where
  "prep_inv p \<longleftrightarrow> distinct (dkeys (pr_graph p)) \<and> (\<forall>t. distinct (deps_of (pr_graph p) t)) \<and>
     (\<forall>t. revs_of (pr_graph p) t = []) \<and> set (dkeys (pr_recursive p)) \<subseteq> nodes (pr_graph p)"

lemma distinct_provider_tasks: "distinct ds \<Longrightarrow> distinct (add_provider_tasks td ps ts ds)"
  unfolding add_provider_tasks_def
  by (cases ps) (simp_all, rule fold_invariant_mem [where P = distinct], auto simp: Let_def)

lemma distinct_build_dependencies: "distinct ds \<Longrightarrow> distinct (add_build_dependencies td ids ts ds)"
  unfolding add_build_dependencies_def
  by (rule fold_invariant_mem [where P = distinct]) (auto intro: distinct_provider_tasks)

lemma distinct_runtime_dependencies: "distinct ds \<Longrightarrow> distinct (add_runtime_dependencies td ids ts ds)"
  unfolding add_runtime_dependencies_def
  by (rule fold_invariant_mem [where P = distinct]) (auto intro: distinct_provider_tasks)

lemma distinct_tdepends: "add_tdepends ts ds = Inr es \<Longrightarrow> distinct ds \<Longrightarrow> distinct es"
  unfolding add_tdepends_def
  by (erule foldE_invariant [where P = distinct]) (auto simp: bindE_eq_Inr)

lemma distinct_idepends: "add_idepends td ids ds = Inr es \<Longrightarrow> distinct ds \<Longrightarrow> distinct es"
  unfolding add_idepends_def
  by (erule foldE_invariant [where P = distinct]) (auto simp: Let_def split: option.splits list.splits if_splits)

lemma distinct_irdepends: "add_irdepends td ids ds = Inr es \<Longrightarrow> distinct ds \<Longrightarrow> distinct es"
  unfolding add_irdepends_def
  by (erule foldE_invariant [where P = distinct]) (auto simp: Let_def split: option.splits list.splits if_splits)

lemma distinct_deptask: "add_deptask td d n f ds = Inr es \<Longrightarrow> distinct ds \<Longrightarrow> distinct es"
  unfolding add_deptask_def by (auto simp: bindE_eq_Inr distinct_build_dependencies split: option.splits)

lemma distinct_rdeptask: "add_rdeptask td d n f ds = Inr es \<Longrightarrow> distinct ds \<Longrightarrow> distinct es"
  unfolding add_rdeptask_def by (auto simp: bindE_eq_Inr distinct_runtime_dependencies split: option.splits)

lemma recrdeptask_inv:
  assumes "add_recrdeptask td d tid parts (ds, p) = Inr (es, p')" and "distinct ds"
  shows "distinct es \<and> pr_graph p' = pr_graph p \<and>
    set (dkeys (pr_recursive p')) \<subseteq> insert tid (set (dkeys (pr_recursive p)))"
proof -
  obtain mc fn taskname taskfn where parts: "parts = (mc, fn, taskname, taskfn)" by (cases parts)
  show ?thesis
  proof (cases "task_flag d ''recrdeptask'' taskname")
    case None
    with assms show ?thesis by (auto simp: add_recrdeptask_def parts)
  next
    case (Some v)
    with assms(1) obtain ids rids where "es = add_runtime_dependencies td rids (split_ws v) (add_build_dependencies td ids (split_ws v) ds)"
      "pr_graph p' = pr_graph p" "pr_recursive p' = dset tid (split_ws v) (pr_recursive p)"
      by (auto simp: add_recrdeptask_def parts bindE_eq_Inr Let_def)
    moreover from this have "set (dkeys (pr_recursive p')) = insert tid (set (dkeys (pr_recursive p)))"
      by (simp only: keys_dset)
    ultimately show ?thesis using assms(2) by (simp add: distinct_build_dependencies distinct_runtime_dependencies)
  qed
qed

lemma task_depends_inv:
  assumes "task_depends td d te tid parts p = Inr (ds, p')"
  shows "distinct ds \<and> pr_graph p' = pr_graph p \<and>
    set (dkeys (pr_recursive p')) \<subseteq> insert tid (set (dkeys (pr_recursive p)))"
proof -
  let ?n = "fst (snd (snd parts))" and ?f = "snd (snd (snd parts))"
  from assms obtain d1 d2 d3 d4 d5 d6 where
    1: "add_tdepends (te_tdepends te) [] = Inr d1" "add_deptask td d ?n ?f d1 = Inr d2"
    "add_rdeptask td d ?n ?f d2 = Inr d3" "add_idepends td (te_idepends te) d3 = Inr d4"
    "add_irdepends td (te_irdepends te) d4 = Inr d5" "add_recrdeptask td d tid parts (d5, p) = Inr (d6, p')"
    and ds: "ds = sdiscard tid d6"
    by (auto simp: task_depends_def bindE_eq_Inr Let_def)
  have "distinct d1" by (rule distinct_tdepends [OF 1(1)]) simp
  then have "distinct d2" by (rule distinct_deptask [OF 1(2)])
  then have "distinct d3" by (rule distinct_rdeptask [OF 1(3)])
  then have "distinct d4" by (rule distinct_idepends [OF 1(4)])
  then have "distinct d5" by (rule distinct_irdepends [OF 1(5)])
  from recrdeptask_inv [OF 1(6) this] ds show ?thesis by simp
qed

lemma prep_inv_reset:
  assumes "prep_inv p"
  shows "prep_inv (p\<lparr>pr_graph := dset tid new_entry (pr_graph p)\<rparr>)"
proof -
  have "set (dkeys (dset tid new_entry (pr_graph p))) = insert tid (set (dkeys (pr_graph p)))"
    by (rule keys_dset)
  then have "nodes (pr_graph p) \<subseteq> nodes (dset tid new_entry (pr_graph p))" unfolding nodes_def by blast
  then show ?thesis
    using assms unfolding prep_inv_def by (auto simp: dget_default_dset_if new_entry_def intro: distinct_dset)
qed

lemma resolve_task_inv:
  assumes i: "prep_inv p" and n: "tid \<in> nodes (pr_graph p)" and r: "resolve_task tid parts d p = Inr p'"
  shows "prep_inv p'"
proof -
  from r obtain taskData td te x where t: "task_depends td d te tid parts (p\<lparr>pr_taskData := taskData\<rparr>) = Inr x"
    and p': "p' = (snd x)\<lparr>pr_graph := set_depends tid (fst x) (pr_graph (snd x))\<rparr>"
    unfolding resolve_task_def bindE_eq_Inr by blast
  from task_depends_inv [of td d te tid parts "p\<lparr>pr_taskData := taskData\<rparr>" "fst x" "snd x"] t
  have f: "distinct (fst x)" "pr_graph (snd x) = pr_graph p"
    "set (dkeys (pr_recursive (snd x))) \<subseteq> insert tid (set (dkeys (pr_recursive p)))" by simp_all
  have "distinct (dkeys (set_depends tid (fst x) (pr_graph p)))"
    unfolding set_depends_def using i by (intro distinct_dset) (simp add: prep_inv_def)
  moreover have "set (dkeys (pr_recursive (snd x))) \<subseteq> nodes (pr_graph p)"
    using f(3) n i unfolding prep_inv_def by blast
  ultimately show ?thesis using i f(1,2) n unfolding prep_inv_def p' by simp
qed

lemma prepare_task_inv:
  assumes i: "prep_inv p" and r: "prepare_task caches tid p = Inr p'"
  shows "prep_inv p'"
proof -
  define p1 where "p1 = p\<lparr>pr_graph := dset tid new_entry (pr_graph p)\<rparr>"
  have i1: "prep_inv p1" unfolding p1_def by (rule prep_inv_reset [OF i])
  have n1: "tid \<in> nodes (pr_graph p1)" using keys_dset [of tid new_entry "pr_graph p"] by (simp add: p1_def nodes_def)
  from r have "p' = p1 \<or> (\<exists>parts d. resolve_task tid parts d p1 = Inr p')"
    unfolding prepare_task_def p1_def [symmetric] Let_def
    by (auto simp: bindE_eq_Inr split: if_splits)
  with resolve_task_inv [OF i1 n1] i1 show ?thesis by blast
qed

lemma prepare_tasks_inv:
  assumes "prepare_tasks caches taskData = Inr p"
  shows "prep_inv p"
proof (rule foldE_invariant [OF assms [unfolded prepare_tasks_def], where P = prep_inv])
  show "prep_inv \<lparr>pr_graph = [], pr_taskData = taskData, pr_recursive = [], pr_recursivei = [], pr_selfref = []\<rparr>"
    by (simp add: prep_inv_def dget_default_def new_entry_def)
qed (rule prepare_task_inv)

lemma add_revdeps_keys:
  "add_revdeps tid deps rv = Inr rv' \<Longrightarrow> set deps \<subseteq> set (dkeys rv) \<and> set (dkeys rv') = set (dkeys rv)"
proof (induction deps arbitrary: rv)
  case (Cons dep deps)
  then obtain rs where 1: "dindex rv dep = Inr rs" "add_revdeps tid deps (dset dep (sadd tid rs) rv) = Inr rv'"
    by (auto simp: add_revdeps_def bindE_eq_Inr)
  then have "dhas rv dep" by (simp add: dindex_eq_Inr dhas_iff)
  then have d: "dep \<in> set (dkeys rv)" by (simp add: dhas_def)
  have "set (dkeys (dset dep (sadd tid rs) rv)) = set (dkeys rv)" unfolding keys_dset using d by blast
  with Cons.IH [OF 1(2)] d show ?case by auto
qed (simp add: add_revdeps_def)

lemma cumul_start_deps:
  assumes r: "cumul_start g = Inr c" and d: "distinct (dkeys g)" and e: "\<And>t. distinct (deps_of g t)"
  shows "deps_ok g"
proof -
  have fold: "foldE (\<lambda>kv. add_revdeps (fst kv) (re_depends (snd kv))) xs rv = Inr rv' \<Longrightarrow>
      \<forall>kv \<in> set xs. set (re_depends (snd kv)) \<subseteq> set (dkeys rv)" for xs rv rv'
  proof (induction xs arbitrary: rv)
    case (Cons kv xs)
    then obtain rv1 where 1: "add_revdeps (fst kv) (re_depends (snd kv)) rv = Inr rv1"
      "foldE (\<lambda>kv. add_revdeps (fst kv) (re_depends (snd kv))) xs rv1 = Inr rv'" by (auto simp: bindE_eq_Inr)
    from Cons.IH [OF 1(2)] add_revdeps_keys [OF 1(1)] show ?case by simp
  qed simp
  from r obtain rv where "foldE (\<lambda>kv. add_revdeps (fst kv) (re_depends (snd kv))) g (map (\<lambda>kv. (fst kv, [])) g) = Inr rv"
    by (auto simp: cumul_start_def bindE_eq_Inr Let_def add_revdeps_def)
  from fold [OF this] have all: "\<forall>kv \<in> set g. set (re_depends (snd kv)) \<subseteq> set (dkeys (map (\<lambda>kv. (fst kv, [] :: string list)) g))" .
  have keys: "set (dkeys (map (\<lambda>kv. (fst kv, [] :: string list)) g)) = nodes g" by (auto simp: nodes_def)
  have "set (deps_of g t) \<subseteq> nodes g" if "t \<in> nodes g" for t
    using all graph_entry [OF d, of t "dget_default g t new_entry"] that unfolding keys by force
  with d e show ?thesis unfolding deps_ok_def by simp
qed

text \<open>The resolution of the dependencies always ends, and its graph is fit for the rest.\<close>

definition resolved :: "taskgraph \<Rightarrow> bool" where
  "resolved g \<longleftrightarrow> deps_ok g \<and> (\<forall>t. revs_of g t = [])"

lemma extends_resolved:
  assumes g: "resolved g" and e: "extends p (0, g) (n, g')"
  shows "resolved g'"
proof -
  have n: "nodes g' = nodes g" using extendsD(2) [OF e] by simp
  have "distinct (dkeys g')" using extendsD(5) [OF e] g deps_okD(1) by (simp add: resolved_def)
  moreover have "distinct (deps_of g' t) \<and> set (deps_of g' t) \<subseteq> nodes g" if "t \<in> nodes g" for t
    using extendsD(4) [OF e, of t] g that deps_okD(2,3) [of g t] by (auto simp: resolved_def deps_extend_def)
  moreover have "revs_of g' t = []" for t using extendsD(3) [OF e, of t] g by (simp add: resolved_def)
  ultimately show ?thesis by (simp add: resolved_def deps_ok_def n)
qed

lemma drop_selfrefs_resolved:
  assumes "resolved g" and r: "drop_selfrefs p g = Inr g'"
  shows "resolved g' \<and> nodes g' = nodes g"
proof (rule foldE_invariant [OF r [unfolded drop_selfrefs_def], where P = "\<lambda>h. resolved h \<and> nodes h = nodes g"])
  fix tid h h' assume h: "resolved h \<and> nodes h = nodes g"
    and s: "bindE (dindex h tid) (\<lambda>e. Inr (set_depends tid (sdiff (re_depends e) (pr_selfref p)) h)) = Inr h'"
  then have t: "tid \<in> nodes h" by (auto simp: bindE_eq_Inr nodes_has dhas_iff dindex_eq_Inr)
  with s have h': "h' = set_depends tid (sdiff (deps_of h tid) (pr_selfref p)) h" by (simp add: dindex_node)
  have "distinct (dkeys h')"
    unfolding h' set_depends_def using h deps_okD(1) [of h] by (intro distinct_dset) (simp add: resolved_def)
  moreover have "distinct (deps_of h' u) \<and> set (deps_of h' u) \<subseteq> nodes h" if "u \<in> nodes h" for u
    using h that t deps_okD(2,3) [of h u] by (auto simp: h' resolved_def)
  ultimately show "resolved h' \<and> nodes h' = nodes g"
    using h t by (simp add: resolved_def deps_ok_def h')
qed (use assms in simp)

lemma resolve_depends_total: "\<exists>r. resolve_depends caches taskData = Some r \<and> (\<forall>p. r = Inr p \<longrightarrow> resolved (pr_graph p))"
proof (cases "prepare_tasks caches taskData")
  case (Inl e)
  then show ?thesis by (simp add: resolve_depends_def)
next
  case (Inr p)
  from prepare_tasks_inv [OF Inr] have i: "prep_inv p" .
  let ?g = "pr_graph p"
  show ?thesis
  proof (cases "cumul_start ?g")
    case (Inl e)
    with Inr show ?thesis by (simp add: resolve_depends_def cumulative_deps_def)
  next
    case (Inr c)
    have g: "deps_ok ?g" by (rule cumul_start_deps [OF Inr]) (use i in \<open>simp_all add: prep_inv_def\<close>)
    then have res: "resolved ?g" using i by (simp add: resolved_def prep_inv_def)
    from cumulative_deps_ok [OF g] obtain cd where cd: "cumulative_deps ?g = Some (Inr cd)" by blast
    have "set (dkeys (pr_recursive p)) \<subseteq> nodes ?g" using i by (simp add: prep_inv_def)
    from recursive_loop_fixpoint [OF this, of cd] obtain g1 n where
      g1: "recursive_loop cd p ?g = Inr g1" "extends p (0, ?g) (n, g1)" by blast
    have eq: "resolve_depends caches taskData = Some (bindE (drop_selfrefs p g1) (\<lambda>g. Inr (p\<lparr>pr_graph := g\<rparr>)))"
      using \<open>prepare_tasks caches taskData = Inr p\<close> cd g1(1) by (simp add: resolve_depends_def)
    have "resolved (pr_graph q)" if "bindE (drop_selfrefs p g1) (\<lambda>g. Inr (p\<lparr>pr_graph := g\<rparr>)) = Inr q" for q
      using that drop_selfrefs_resolved [OF extends_resolved [OF res g1(2)], of p] by (auto simp: bindE_eq_Inr)
    with eq show ?thesis by blast
  qed
qed

section \<open>The preparation as a whole\<close>

lemma prune_resolved: "resolved g \<Longrightarrow> marked_closed g b \<Longrightarrow> resolved (prune b g)"
  using prune_ok [of g b] by (auto simp: resolved_def dget_default_def prune_get new_entry_def split: option.splits)

lemma apply_runall_ok:
  assumes g: "resolved g" and m: "marked_closed g (mk_build m)" and c: "\<forall>task \<in> set (pc_runall cfg). colon \<notin> set task"
  shows "\<exists>r. apply_runall cfg caches taskData g m = Some r \<and> (\<forall>g' m'. r = Inr (g', m') \<longrightarrow> resolved g')"
proof (cases "pc_runall cfg = []")
  case True
  with prune_resolved [OF g m] show ?thesis by (simp add: apply_runall_def)
next
  case False
  from g have "deps_ok g" by (simp add: resolved_def)
  from runall_loop_result [OF this c, of "[]" m caches taskData "pc_force cfg"] obtain r where
    r: "runall_loop caches taskData (pc_force cfg) g (pc_runall cfg) [] m = Some r"
    "\<forall>m'. r = Inr m' \<longrightarrow> marked_closed g (mk_build m')" by auto
  with False have "apply_runall cfg caches taskData g m = Some (bindE r (\<lambda>m.
      let g = prune (mk_build m) g in if g = [] then Inl (BBFatal ''runall'') else Inr (g, m)))"
    by (simp add: apply_runall_def)
  moreover have "resolved g'" if "bindE r (\<lambda>m. let g = prune (mk_build m) g
      in if g = [] then Inl (BBFatal ''runall'') else Inr (g, m)) = Inr (g', m')" for g' m'
    using that r(2) prune_resolved [OF g] by (auto simp: bindE_eq_Inr Let_def split: if_splits)
  ultimately show ?thesis by blast
qed

lemma runonly_fold_closed:
  assumes g: "deps_ok g"
  shows "marked_closed g (mk_build m) \<Longrightarrow> foldE (runonly_task caches taskData force g) ts m = Inr m' \<Longrightarrow>
    marked_closed g (mk_build m')"
proof (induction ts arbitrary: m)
  case (Cons t ts)
  then obtain m1 where m1: "runonly_task caches taskData force g t m = Inr m1"
    "foldE (runonly_task caches taskData force g) ts m1 = Inr m'"
    by (auto simp: bindE_eq_Inr)
  from m1(1) obtain ks where
    ks: "foldE (\<lambda>tid m. bindE (mark_into g tid m) (\<lambda>m. force_invalidate caches taskData force tid m)) ks m = Inr m1"
    unfolding runonly_task_def bindE_eq_Inr by blast
  have "marked_closed g (mk_build m1)"
    using mark_invalidate_fold [OF g Cons.prems(1), where h = "\<lambda>tid m. m", OF ks] by simp
  with Cons.IH m1(2) show ?case by blast
qed simp

lemma apply_runonly_ok:
  assumes g: "resolved g" and r: "apply_runonly cfg caches taskData (g, m) = Inr (g', m')"
  shows "resolved g'"
proof (cases "pc_runonly cfg = []")
  case True
  with assms show ?thesis by (simp add: apply_runonly_def)
next
  case False
  with r obtain m1 where m1: "foldE (runonly_task caches taskData (pc_force cfg) g) (pc_runonly cfg) (m\<lparr>mk_build := []\<rparr>) = Inr m1"
    "g' = prune (mk_build m1) g"
    by (auto simp: apply_runonly_def bindE_eq_Inr Let_def split: if_splits)
  have "marked_closed g (mk_build (m\<lparr>mk_build := []\<rparr>))" by (simp add: marked_closed_def)
  moreover have "deps_ok g" using g by (simp add: resolved_def)
  ultimately have "marked_closed g (mk_build m1)" using runonly_fold_closed m1(1) by blast
  with prune_resolved [OF g] m1(2) show ?thesis by simp
qed

lemma setscene_tids_nodes: "setscene_tids cfg taskData g = Inr ts \<Longrightarrow> set ts \<subseteq> nodes g"
proof -
  assume r: "setscene_tids cfg taskData g = Inr ts"
  show ?thesis
  proof (cases "pc_nosetscene cfg")
    case True
    with r show ?thesis by (simp add: setscene_tids_def)
  next
    case False
    with r have "foldE (\<lambda>tid ts. bindE (split_tid_mcfn tid) (\<lambda>(mc, fn, taskname, taskfn).
        bindE (dindex taskData mc) (\<lambda>td.
        Inr (if dhas (tk_taskentries td) (tid @ ''_setscene'') then sadd tid ts else ts)))) (dkeys g) [] = Inr ts"
      by (simp add: setscene_tids_def)
    then show ?thesis
    proof (rule foldE_invariant [where P = "\<lambda>ts. set ts \<subseteq> nodes g"])
      fix tid us us' assume "tid \<in> set (dkeys g)" and us: "set us \<subseteq> nodes g"
        and r: "bindE (split_tid_mcfn tid) (\<lambda>(mc, fn, taskname, taskfn). bindE (dindex taskData mc) (\<lambda>td.
          Inr (if dhas (tk_taskentries td) (tid @ ''_setscene'') then sadd tid us else us))) = Inr us'"
      then have "tid \<in> nodes g" by (simp only: nodes_def)
      with us have "set (sadd tid us) \<subseteq> nodes g" by simp
      moreover from r have "us' = sadd tid us \<or> us' = us" by (auto simp: bindE_eq_Inr split: if_splits)
      ultimately show "set us' \<subseteq> nodes g" using us by blast
    qed simp
  qed
qed

text \<open>What the preparation promises of its result.\<close>

definition well_prepared :: "'s prepared \<Rightarrow> bool" where
  "well_prepared pd \<longleftrightarrow> consistent (pd_graph pd) \<and> nodes (pd_graph pd) \<noteq> {} \<and> acyclic (edges (pd_graph pd)) \<and>
     (\<forall>t \<in> nodes (pd_graph pd). hashed (pd_graph pd) t) \<and> set (pd_setscene pd) \<subseteq> nodes (pd_graph pd)"

lemma finish_prepare_ok:
  assumes g: "resolved g"
  shows "\<exists>r. finish_prepare cfg sg caches taskData s (g, m) = Some r \<and> (\<forall>pd. r = Inr pd \<longrightarrow> well_prepared pd)"
proof -
  define checks where "checks = bindE (check_tasks_left taskData g) (\<lambda>_.
          bindE (weigh_graph g) (\<lambda>g.
          bindE (foldE (multi_provider_check cfg g) caches []) (\<lambda>reports.
          bindE (setscene_tids cfg taskData g) (\<lambda>setscene.
          bindE (invalidate_targets cfg caches taskData (mk_targets m) (mk_log m)) (\<lambda>log.
          bindE (foldE (\<lambda>kv vs. bindE (virtual_table caches kv) (\<lambda>v. Inr (vs @ [v]))) taskData []) (\<lambda>vs.
          Inr (g, reports, setscene, log, vs)))))))"
  have fp: "finish_prepare cfg sg caches taskData s (g, m) = (case checks of Inl e \<Rightarrow> Some (Inl e)
     | Inr (g, reports, setscene, log, vs) \<Rightarrow>
         map_option (\<lambda>(dealt, g, s).
             Inr \<lparr>pd_graph = g, pd_targets = mk_targets m, pd_setscene = setscene, pd_log = log,
                  pd_reports = reports, pd_virtual = vs, pd_siggen = s\<rparr>)
           (hash_loop sg [] (dkeys g) (g, s)))"
    by (simp add: finish_prepare_def checks_def)
  show ?thesis
  proof (cases checks)
    case (Inl e)
    then show ?thesis unfolding fp by simp
  next
    case (Inr y)
    obtain g1 reports setscene log vs where y: "y = (g1, reports, setscene, log, vs)" by (cases y) auto
    from Inr have ne: "check_tasks_left taskData g = Inr ()" and w: "weigh_graph g = Inr g1"
      and ss: "setscene_tids cfg taskData g1 = Inr setscene"
      unfolding checks_def y by (auto simp: bindE_eq_Inr)
    have "deps_ok g" "no_revs g" using g by (simp_all add: resolved_def no_revs_def)
    note wr = weigh_graph_result [OF this]
    from wr w have a: "acyclic (edges g)" by (cases "acyclic (edges g)") auto
    with wr w have g1: "consistent g1" "nodes g1 = nodes g" "edges g1 = edges g" by auto
    have d1: "deps_ok g1" by (rule consistent_deps_ok [OF g1(1)])
    from hash_loop_result(1) [OF d1, of sg s] a g1(3) obtain r where r: "hash_loop sg [] (dkeys g1) (g1, s) = Some r" by auto
    obtain dealt g2 s2 where rr: "r = (dealt, g2, s2)" by (cases r)
    from hash_loop_result(2) [OF d1 r [unfolded rr]] have h: "same_shape g1 g2" "\<forall>t \<in> nodes g1. hashed g2 t" by simp_all
    have "g \<noteq> []" using ne by (auto simp: check_tasks_left_def bindE_eq_Inr split: if_splits)
    then have "nodes g \<noteq> {}" by (simp add: nodes_def)
    then have "well_prepared \<lparr>pd_graph = g2, pd_targets = mk_targets m, pd_setscene = setscene, pd_log = log,
        pd_reports = reports, pd_virtual = vs, pd_siggen = s2\<rparr>"
      using same_shapeD(1,4,5) [OF h(1)] h(2) g1 a setscene_tids_nodes [OF ss] by (simp add: well_prepared_def)
    moreover have "finish_prepare cfg sg caches taskData s (g, m) = Some (Inr \<lparr>pd_graph = g2, pd_targets = mk_targets m,
        pd_setscene = setscene, pd_log = log, pd_reports = reports, pd_virtual = vs, pd_siggen = s2\<rparr>)"
      unfolding fp Inr y using r rr by simp
    ultimately show ?thesis by simp
  qed
qed

lemma prepare_result:
  assumes c: "\<forall>task \<in> set (pc_runall cfg). colon \<notin> set task"
  shows "\<exists>r. prepare cfg sg caches taskData targets s = Some r \<and> (\<forall>pd. r = Inr (Some pd) \<longrightarrow> well_prepared pd)"
proof (cases "\<forall>kv \<in> set taskData. tk_taskentries (snd kv) = []")
  case True
  then show ?thesis by (simp add: prepare_def)
next
  case False
  from resolve_depends_total [of caches taskData] obtain r where r: "resolve_depends caches taskData = Some r"
    "\<forall>p. r = Inr p \<longrightarrow> resolved (pr_graph p)" by blast
  show ?thesis
  proof (cases r)
    case (Inl e)
    with False r show ?thesis by (simp add: prepare_def)
  next
    case (Inr p)
    let ?g = "pr_graph p"
    have g: "resolved ?g" "deps_ok ?g" using r Inr by (simp_all add: resolved_def)
    show ?thesis
    proof (cases "mark_targets (pr_taskData p) ?g targets")
      case (Inl e)
      with False r \<open>r = Inr p\<close> show ?thesis by (simp add: prepare_def)
    next
      case m: (Inr m)
      have "marked_closed ?g (mk_build m)" using mark_targets_ok [OF g(2) m] by (simp add: targets_ok_def)
      from apply_runall_ok [OF g(1) this c, of caches "pr_taskData p"] obtain ra where
        ra: "apply_runall cfg caches (pr_taskData p) ?g m = Some ra" "\<forall>g' m'. ra = Inr (g', m') \<longrightarrow> resolved g'" by blast
      let ?ro = "bindE ra (apply_runonly cfg caches (pr_taskData p))"
      have eq: "prepare cfg sg caches taskData targets s = (case ?ro of Inl e \<Rightarrow> Some (Inl e)
          | Inr gm \<Rightarrow> map_option (\<lambda>r. bindE r (\<lambda>x. Inr (Some x))) (finish_prepare cfg sg caches (pr_taskData p) s gm))"
        unfolding prepare_def if_not_P [OF False] using r(1) Inr m ra(1) by simp
      show ?thesis
      proof (cases ?ro)
        case (Inl e)
        then show ?thesis unfolding eq by simp
      next
        case ro: (Inr gm)
        obtain g1 m1 where gm: "gm = (g1, m1)" by (cases gm)
        from ro obtain g0 m0 where "ra = Inr (g0, m0)" "apply_runonly cfg caches (pr_taskData p) (g0, m0) = Inr (g1, m1)"
          by (auto simp: bindE_eq_Inr gm)
        with ra(2) apply_runonly_ok have "resolved g1" by blast
        from finish_prepare_ok [OF this, of cfg sg caches "pr_taskData p" s m1] obtain f where
          f: "finish_prepare cfg sg caches (pr_taskData p) s (g1, m1) = Some f" "\<forall>pd. f = Inr pd \<longrightarrow> well_prepared pd" by blast
        then show ?thesis unfolding eq ro gm by (auto simp: bindE_eq_Inr)
      qed
    qed
  qed
qed

text \<open>C3. The whole preparation ends, with a result or an exception, when no task named by
  \<^verbatim>\<open>--runall\<close> has a colon. A graph it returns is not empty, has no cycle, its dependencies and
  reverse dependencies are converse to each other and stay in it, every task has its hashes, and the
  setscene tasks are tasks of it.\<close>

theorem prepare_correct:
  assumes "\<forall>task \<in> set (pc_runall cfg). colon \<notin> set task"
  shows "\<exists>r. prepare cfg sg caches taskData targets s = Some r \<and> (\<forall>pd. r = Inr (Some pd) \<longrightarrow> well_prepared pd)"
  by (rule prepare_result [OF assms])

section \<open>One version of a recipe per name\<close>

definition files_of_mc :: "taskgraph \<Rightarrow> string \<Rightarrow> string set" where
  "files_of_mc g mc = {f. \<exists>tid \<in> nodes g. \<exists>fn taskname. split_tid_mcfn tid = Inr (mc, fn, taskname, f)}"

definition noted :: "cachedata \<Rightarrow> (string, string list) odict \<Rightarrow> string \<Rightarrow> bool" where
  "noted c pl f \<longleftrightarrow> (\<exists>ps. dget (dc_fn_provides c) f = Some ps \<and> (\<forall>prov \<in> set ps. \<exists>fs. dget pl prov = Some fs \<and> f \<in> set fs))"

definition pl_grows :: "(string, string list) odict \<Rightarrow> (string, string list) odict \<Rightarrow> bool" where
  "pl_grows a b \<longleftrightarrow> (\<forall>prov fs. dget a prov = Some fs \<longrightarrow> (\<exists>gs. dget b prov = Some gs \<and> set fs \<subseteq> set gs))"

definition add_provides :: "string \<Rightarrow> string list \<Rightarrow> (string, string list) odict \<Rightarrow> (string, string list) odict" where
  "add_provides f = fold (\<lambda>prov pl. case dget pl prov of
       None \<Rightarrow> dset prov [f] pl
     | Some fs \<Rightarrow> if f \<in> set fs then pl else dset prov (fs @ [f]) pl)"

lemma pl_grows_trans: "pl_grows a b \<Longrightarrow> pl_grows b c \<Longrightarrow> pl_grows a c"
  unfolding pl_grows_def by (meson subset_trans)

lemma noted_grows: "noted c a f \<Longrightarrow> pl_grows a b \<Longrightarrow> noted c b f"
  unfolding noted_def pl_grows_def by (meson subsetD)

lemma add_provides_ok:
  "pl_grows pl (add_provides f ps pl) \<and> (\<forall>prov \<in> set ps. \<exists>fs. dget (add_provides f ps pl) prov = Some fs \<and> f \<in> set fs)"
proof (induction ps arbitrary: pl)
  case Nil
  then show ?case by (simp add: add_provides_def pl_grows_def)
next
  case (Cons prov ps)
  define pl1 where "pl1 = add_provides f [prov] pl"
  have e: "add_provides f (prov # ps) pl = add_provides f ps pl1" by (simp add: add_provides_def pl1_def)
  have g1: "pl_grows pl pl1"
    by (auto simp: pl1_def add_provides_def pl_grows_def dget_dset split: option.splits)
  have "\<exists>fs. dget pl1 prov = Some fs \<and> f \<in> set fs"
    by (auto simp: pl1_def add_provides_def dget_dset split: option.splits)
  with Cons.IH [of pl1] have "\<exists>fs. dget (add_provides f ps pl1) prov = Some fs \<and> f \<in> set fs"
    unfolding pl_grows_def by (meson subsetD)
  with Cons.IH [of pl1] pl_grows_trans [OF g1] show ?case unfolding e by auto
qed

lemma note_provides_step:
  assumes "note_provides c mc tid (pl, seen) = Inr (pl', seen')" and "\<forall>f \<in> set seen. noted c pl f"
  shows "(\<forall>f \<in> set seen'. noted c pl' f) \<and> set seen \<subseteq> set seen' \<and>
    (\<forall>fn taskname f. split_tid_mcfn tid = Inr (mc, fn, taskname, f) \<longrightarrow> f \<in> set seen')"
proof -
  from assms(1) obtain tidmc fn taskname f where sp: "split_tid_mcfn tid = Inr (tidmc, fn, taskname, f)"
    by (auto simp: note_provides_def bindE_eq_Inr)
  show ?thesis
  proof (cases "f \<in> set seen \<or> mc \<noteq> tidmc")
    case True
    with assms sp show ?thesis by (auto simp: note_provides_def)
  next
    case False
    with assms(1) sp obtain ps where ps: "dget (dc_fn_provides c) f = Some ps"
      "pl' = add_provides f ps pl" "seen' = seen @ [f]"
      by (auto simp: note_provides_def bindE_eq_Inr dindex_eq_Inr add_provides_def)
    have "noted c pl' f" unfolding noted_def using ps add_provides_ok [where f = f and ps = ps and pl = pl] by auto
    moreover have "noted c pl' h" if "h \<in> set seen" for h
      using noted_grows assms(2) that add_provides_ok [where f = f and ps = ps and pl = pl] ps(2) by blast
    ultimately show ?thesis using ps(3) sp by auto
  qed
qed

lemma note_provides_fold:
  "foldE (note_provides c mc) tids (pl, seen) = Inr (pl', seen') \<Longrightarrow> \<forall>f \<in> set seen. noted c pl f \<Longrightarrow>
    (\<forall>f \<in> set seen'. noted c pl' f) \<and> set seen \<subseteq> set seen' \<and>
    (\<forall>tid \<in> set tids. \<forall>fn taskname f. split_tid_mcfn tid = Inr (mc, fn, taskname, f) \<longrightarrow> f \<in> set seen')"
proof (induction tids arbitrary: pl seen)
  case (Cons tid tids)
  then obtain pl1 seen1 where 1: "note_provides c mc tid (pl, seen) = Inr (pl1, seen1)"
    "foldE (note_provides c mc) tids (pl1, seen1) = Inr (pl', seen')" by (auto simp: bindE_eq_Inr)
  note s = note_provides_step [OF 1(1) Cons.prems(2)]
  with Cons.IH [OF 1(2)] have IH: "(\<forall>f \<in> set seen'. noted c pl' f) \<and> set seen1 \<subseteq> set seen' \<and>
    (\<forall>tid \<in> set tids. \<forall>fn taskname f. split_tid_mcfn tid = Inr (mc, fn, taskname, f) \<longrightarrow> f \<in> set seen')" by blast
  have "f \<in> set seen'" if "split_tid_mcfn u = Inr (mc, fn, taskname, f)" "u \<in> set (tid # tids)" for u fn taskname f
    using that s IH by auto
  with s IH show ?case by blast
qed simp

definition distinct_vals :: "(string, string list) odict \<Rightarrow> bool" where
  "distinct_vals pl \<longleftrightarrow> (\<forall>prov fs. dget pl prov = Some fs \<longrightarrow> distinct fs)"

lemma distinct_vals_dset: "distinct_vals pl \<Longrightarrow> distinct v \<Longrightarrow> distinct_vals (dset k v pl)"
  unfolding distinct_vals_def dget_dset by (metis option.inject)

lemma distinct_vals_step:
  assumes "distinct_vals pl"
  shows "distinct_vals (case dget pl prov of None \<Rightarrow> dset prov [f] pl
        | Some fs \<Rightarrow> if f \<in> set fs then pl else dset prov (fs @ [f]) pl)"
proof (cases "dget pl prov")
  case None
  with distinct_vals_dset [OF assms] show ?thesis by simp
next
  case (Some fs)
  with assms have "distinct fs" unfolding distinct_vals_def by blast
  with Some assms distinct_vals_dset [OF assms] show ?thesis by simp
qed

lemma note_provides_distinct:
  assumes "foldE (note_provides c mc) tids ([], []) = Inr st" and "dget (fst st) prov = Some fs"
  shows "distinct fs"
proof -
  have ap: "distinct_vals (add_provides f ps pl)" if "distinct_vals pl" for f ps pl
    unfolding add_provides_def
    by (rule fold_invariant_mem [where P = distinct_vals]) (rule that, rule distinct_vals_step)
  have "distinct_vals (fst st)"
  proof (rule foldE_invariant [OF assms(1), where P = "\<lambda>st. distinct_vals (fst st)"])
    fix tid a b assume P: "distinct_vals (fst a)" and r: "note_provides c mc tid a = Inr b"
    from r have "fst b = fst a \<or> (\<exists>f ps. fst b = add_provides f ps (fst a))"
      unfolding note_provides_def add_provides_def [symmetric] by (cases a) (auto simp: bindE_eq_Inr split: if_splits, blast)
    with P ap show "distinct_vals (fst b)" by (elim disjE exE) simp_all
  qed (simp add: distinct_vals_def)
  with assms(2) show ?thesis unfolding distinct_vals_def by blast
qed

lemma check_pns_distinct:
  assumes "check_pns c fns = Inr ()"
  shows "distinct fns \<longrightarrow> distinct (map (dget (dc_pkg_fn c)) fns)"
proof -
  let ?f = "\<lambda>fn seen_pn. bindE (dindex (dc_pkg_fn c) fn) (\<lambda>pn.
      if pn \<in> set seen_pn then Inl (BBFatal pn) else Inr (seen_pn @ [pn]))"
  have "foldE ?f fns seen = Inr out \<Longrightarrow> out = seen @ map (\<lambda>f. the (dget (dc_pkg_fn c) f)) fns \<and>
      (distinct seen \<longrightarrow> distinct out) \<and> (\<forall>f \<in> set fns. dget (dc_pkg_fn c) f \<noteq> None)" for seen out
  proof (induction fns arbitrary: seen)
    case (Cons f fns)
    then obtain pn where pn: "dget (dc_pkg_fn c) f = Some pn" "pn \<notin> set seen" "foldE ?f fns (seen @ [pn]) = Inr out"
      by (auto simp: bindE_eq_Inr dindex_eq_Inr split: if_splits)
    note IH = Cons.IH [OF pn(3)]
    have "distinct out" if "distinct seen" using conjunct1 [OF conjunct2 [OF IH]] pn(2) that by (simp only: distinct_append) auto
    moreover have "out = seen @ map (\<lambda>f. the (dget (dc_pkg_fn c) f)) (f # fns)" using IH pn(1) by simp
    moreover have "\<forall>h \<in> set (f # fns). dget (dc_pkg_fn c) h \<noteq> None" using IH pn(1) by simp
    ultimately show ?case by blast
  qed simp
  moreover from assms obtain out where "foldE ?f fns [] = Inr out" by (auto simp: check_pns_def bindE_eq_Inr)
  ultimately have d: "distinct (map (\<lambda>f. the (dget (dc_pkg_fn c) f)) fns)"
    "\<forall>f \<in> set fns. dget (dc_pkg_fn c) f \<noteq> None" by force+
  then have "inj_on (\<lambda>f. the (dget (dc_pkg_fn c) f)) (set fns)" by (simp add: distinct_map)
  then have "inj_on (dget (dc_pkg_fn c)) (set fns)" by (auto simp: inj_on_def)
  then show ?thesis by (simp add: distinct_map)
qed

lemma multi_provider_reports:
  assumes "foldE (\<lambda>pf reports.
        if length (snd pf) < 2 \<or> fst pf \<in> set allowed then Inr reports
        else bindE (report_provider cfg c g pf) (\<lambda>r. Inr (reports @ [r]))) pls reports = Inr reports'"
    and "(prov, fns) \<in> set pls" and "length fns \<ge> 2" and "prov \<notin> set allowed"
  shows "set reports \<subseteq> set reports' \<and> (\<exists>r \<in> set reports'. report_provider cfg c g (prov, fns) = Inr r)"
proof -
  let ?f = "\<lambda>pf reports. if length (snd pf) < 2 \<or> fst pf \<in> set allowed then Inr reports
        else bindE (report_provider cfg c g pf) (\<lambda>r. Inr (reports @ [r]))"
  have mono: "set a \<subseteq> set b" if "foldE ?f qs a = Inr b" for qs a b
    using that by (induction qs arbitrary: a) (fastforce simp: bindE_eq_Inr split: if_splits)+
  from assms(1,2) have "\<exists>r \<in> set reports'. report_provider cfg c g (prov, fns) = Inr r"
  proof (induction pls arbitrary: reports)
    case (Cons pf pls)
    then obtain r1 where 1: "?f pf reports = Inr r1" "foldE ?f pls r1 = Inr reports'" by (auto simp: bindE_eq_Inr)
    show ?case
    proof (cases "pf = (prov, fns)")
      case True
      with 1(1) assms(3,4) obtain r where "report_provider cfg c g (prov, fns) = Inr r" "r1 = reports @ [r]"
        by (auto simp: bindE_eq_Inr)
      with mono [OF 1(2)] show ?thesis by auto
    next
      case False
      with Cons 1(2) show ?thesis by auto
    qed
  qed simp
  with mono [OF assms(1)] show ?thesis by blast
qed

lemma report_provider_fields:
  assumes "report_provider cfg c g (prov, fns) = Inr rep"
  shows "mr_prov rep = prov" "mr_files rep = fns" "check_pns c fns = Inr ()"
proof -
  from assms obtain u where "check_pns c fns = Inr u" "mr_prov rep = prov \<and> mr_files rep = fns"
    unfolding report_provider_def prod.case bindE_eq_Inr Let_def by fastforce
  then show "mr_prov rep = prov" "mr_files rep = fns" "check_pns c fns = Inr ()" by simp_all
qed

lemma multi_provider_result:
  assumes r: "multi_provider_check cfg g (mc, c) reports = Inr reports'"
    and f: "f1 \<in> files_of_mc g mc" "f2 \<in> files_of_mc g mc" "f1 \<noteq> f2"
    and p: "dget (dc_fn_provides c) f1 = Some ps1" "prov \<in> set ps1" "dget (dc_fn_provides c) f2 = Some ps2" "prov \<in> set ps2"
    and a: "prov \<notin> set (pc_multi_provider_allowed cfg)"
  shows "(\<exists>r \<in> set reports'. mr_prov r = prov \<and> f1 \<in> set (mr_files r) \<and> f2 \<in> set (mr_files r) \<and>
      dget (dc_pkg_fn c) f1 \<noteq> dget (dc_pkg_fn c) f2)"
proof -
  from r obtain pl seen where 1: "foldE (note_provides c mc) (dkeys g) ([], []) = Inr (pl, seen)"
    and 2: "foldE (\<lambda>pf reports.
        if length (snd pf) < 2 \<or> fst pf \<in> set (pc_multi_provider_allowed cfg) then Inr reports
        else bindE (report_provider cfg c g pf) (\<lambda>r. Inr (reports @ [r]))) pl reports = Inr reports'"
    unfolding multi_provider_check_def bindE_eq_Inr fst_conv snd_conv by auto
  from note_provides_fold [OF 1] have n: "noted c pl f" if "f \<in> files_of_mc g mc" for f
    using that by (fastforce simp: files_of_mc_def nodes_def)
  from n [OF f(1)] p(1,2) obtain fns where fns: "dget pl prov = Some fns" "f1 \<in> set fns" by (auto simp: noted_def)
  from n [OF f(2)] p(3,4) fns(1) have f2: "f2 \<in> set fns" by (auto simp: noted_def)
  have "card {f1, f2} \<le> card (set fns)" using fns(2) f2 by (intro card_mono) auto
  also have "\<dots> \<le> length fns" by (rule card_length)
  finally have len: "length fns \<ge> 2" using f(3) by simp
  have "\<exists>rep \<in> set reports'. report_provider cfg c g (prov, fns) = Inr rep"
    by (rule conjunct2 [OF multi_provider_reports [OF 2 map_of_SomeD [OF fns(1)] len a]])
  then obtain rep where rep: "rep \<in> set reports'" "report_provider cfg c g (prov, fns) = Inr rep" by blast
  note m = report_provider_fields [OF rep(2)]
  have "distinct fns" by (rule note_provides_distinct [OF 1, of prov]) (simp add: fns(1))
  then have ne: "dget (dc_pkg_fn c) f1 \<noteq> dget (dc_pkg_fn c) f2"
    using check_pns_distinct [OF m(3)] fns(2) f2 f(3) by (auto simp: distinct_map inj_on_def)
  show ?thesis
  proof (rule bexI [OF _ rep(1)])
    show "mr_prov rep = prov \<and> f1 \<in> set (mr_files rep) \<and> f2 \<in> set (mr_files rep) \<and>
      dget (dc_pkg_fn c) f1 \<noteq> dget (dc_pkg_fn c) f2"
      unfolding m(1,2) using fns(2) f2 ne by blast
  qed
qed

text \<open>C12. When the check for several providers passes, two files with active tasks of a multiconfig that
  both provide a name not allowed to have several providers are reported together under that name, and they
  do not belong to the same PN.\<close>

theorem multi_provider_reported:
  assumes "multi_provider_check cfg g (mc, c) reports = Inr reports'"
    and "f1 \<in> files_of_mc g mc" and "f2 \<in> files_of_mc g mc" and "f1 \<noteq> f2"
    and "dget (dc_fn_provides c) f1 = Some ps1" and "prov \<in> set ps1"
    and "dget (dc_fn_provides c) f2 = Some ps2" and "prov \<in> set ps2"
    and "prov \<notin> set (pc_multi_provider_allowed cfg)"
  shows "\<exists>r \<in> set reports'. mr_prov r = prov \<and> f1 \<in> set (mr_files r) \<and> f2 \<in> set (mr_files r) \<and>
      dget (dc_pkg_fn c) f1 \<noteq> dget (dc_pkg_fn c) f2"
  by (rule multi_provider_result [OF assms])

definition plain_cfg :: prepcfg where
  "plain_cfg = \<lparr>pc_runall = [], pc_runonly = [], pc_force = False, pc_nosetscene = False, pc_invalidate_stamp = None,
     pc_multi_provider_allowed = [], pc_warn_multi_bb = False\<rparr>"

definition two_provides :: cachedata where
  "two_provides = init_cacheData\<lparr>dc_fn_provides := [(''a.bb'', [''x'']), (''b.bb'', [''x''])],
     dc_pkg_fn := [(''a.bb'', ''a''), (''b.bb'', ''b'')]\<rparr>"

lemma multi_provider_reported_witness:
  "\<exists>rs. multi_provider_check plain_cfg chain_graph ([], two_provides) [] = Inr rs \<and>
     (\<exists>r \<in> set rs. mr_prov r = ''x'' \<and> ''a.bb'' \<in> set (mr_files r))"
proof -
  have run: "multi_provider_check plain_cfg chain_graph ([], two_provides) [] =
      Inr [\<lparr>mr_prov = ''x'', mr_files = [''a.bb'', ''b.bb''], mr_deps = [(''a.bb'', []), (''b.bb'', [])],
        mr_provides = [(''a.bb'', []), (''b.bb'', [])], mr_rprovides = [(''a.bb'', []), (''b.bb'', [])],
        mr_verbose = False\<rparr>]" by code_simp
  have s: "split_tid_mcfn ''a.bb:do_a'' = Inr ([], ''a.bb'', ''do_a'', ''a.bb'')"
    "split_tid_mcfn ''b.bb:do_b'' = Inr ([], ''b.bb'', ''do_b'', ''b.bb'')" by code_simp+
  then have "''a.bb'' \<in> files_of_mc chain_graph []" "''b.bb'' \<in> files_of_mc chain_graph []"
    unfolding files_of_mc_def chain_graph_ok(3) by auto
  from multi_provider_reported [OF run this, of "[''x'']" "''x''" "[''x'']"] run show ?thesis
    by (auto simp: two_provides_def plain_cfg_def)
qed

definition one_recipe :: cachedata where
  "one_recipe = two_provides\<lparr>dc_task_deps := [(''a.bb'', \<lparr>td_tasks = [''do_a''], td_parents = [], td_flags = []\<rparr>)]\<rparr>"

definition one_prepared :: "string list prepared" where
  "one_prepared = \<lparr>pd_graph = [(''a.bb:do_a'', \<lparr>re_depends = [], re_revdeps = [], re_hash = Some ''a.bb:do_a'',
       re_unihash = Some ''a.bb:do_a'', re_task = None, re_weight = 10\<rparr>)],
     pd_targets = [''a.bb:do_a''], pd_setscene = [], pd_log = [], pd_reports = [], pd_virtual = [([], [], [])],
     pd_siggen = [''a.bb:do_a'']\<rparr>"

lemma prepare_correct_witness: "well_prepared one_prepared"
proof -
  have "prepare plain_cfg plain_siggen [([], one_recipe)] [([], one_target)] [([], ''a'', ''do_a'', ''a.bb'')] [] =
      Some (Inr (Some one_prepared))"
    by code_simp
  with prepare_correct [of plain_cfg plain_siggen "[([], one_recipe)]" "[([], one_target)]" "[([], ''a'', ''do_a'', ''a.bb'')]" "[]"]
  show ?thesis by (auto simp: plain_cfg_def)
qed

end
