(* ===== verification/ExecState.thy ===== *)
theory ExecState
  imports PrepareCheck
begin

text \<open>
  The state of \<^verbatim>\<open>RunQueueExecute\<close> and of \<^verbatim>\<open>SQData\<close> in
  \<^verbatim>\<open>bb/runqueue.py\<close>, what they read of their surroundings, and the operations that look at stamps,
  hashes and the tasks that may run without setscene. Everything outside the process (stamp files, the signature
  generator, the measurement of pressure) is a world \<open>'w\<close> with the operations \<open>world_ops\<close>; the hooks
  \<^verbatim>\<open>BB_HASHCHECK_FUNCTION\<close> and \<^verbatim>\<open>BB_SETSCENE_DEPVALID\<close> are functions of
  the environment.
\<close>

section \<open>States\<close>

datatype rqstate = RqPrepare | RqSceneInit | RqRunning | RqFailed | RqCleanUp | RqComplete

text \<open>What is sent to a worker for a task, without the fields that come from the layer collections.\<close>

record runtask =
  rt_fn :: string
  rt_task :: string
  rt_taskname :: string
  rt_taskhash :: "string option"
  rt_unihash :: "string option"
  rt_quieterrors :: bool
  rt_dry_run :: bool
  rt_fakerootenv :: string
  rt_fakerootdirs :: string
  rt_fakerootnoenv :: string

text \<open>Why a task failed: its exit status, or that it was not allowed to run.\<close>

datatype exitcode = ExitStatus int | IgnoreTasks

text \<open>Events, and the messages to the workers, in the order in which they happen.\<close>

datatype rqevent =
    SceneStarted string
  | SceneCompleted string
  | SceneFailed string int
  | SceneComplete
  | TaskStarted string bool
  | TaskFailed string exitcode "string option"
  | TaskCompleted string
  | TaskSkipped string string
  | ExitWait int
  | SentTask bool string runtask
  | SentHashes
  | WorkerDied

record sqdata =
  sq_deps :: "(string, string list) odict"
  sq_revdeps :: "(string, string list) odict"
  sq_harddeps :: "(string, string list) odict"
  sq_harddeps_rev :: "(string, string list) odict"
  sq_stamps :: "(string, string) odict"
  sq_unskippable :: "string list"
  sq_outrightfail :: "string list"
  sq_covered_tasks :: "(string, string list) odict"
  sq_cantskip :: "string list"
  sq_multiconfigs :: "string list"
  sq_noexec :: "string list"
  sq_stamppresent :: "string list"
  sq_valid :: "string list"
  sq_hashes :: "(string, string) odict"

definition new_sqdata :: sqdata where
  "new_sqdata = \<lparr>sq_deps = [], sq_revdeps = [], sq_harddeps = [], sq_harddeps_rev = [], sq_stamps = [],
     sq_unskippable = [], sq_outrightfail = [], sq_covered_tasks = [], sq_cantskip = [], sq_multiconfigs = [],
     sq_noexec = [], sq_stamppresent = [], sq_valid = [], sq_hashes = []\<rparr>"

text \<open>
  The sets are lists without duplicates. \<open>x_cycle\<close> is the position of the generator over the setscene
  tasks, \<open>x_fakeworkers\<close> the multiconfigs with a worker under fakeroot, \<open>x_graph\<close> the entries of
  \<^verbatim>\<open>RunQueueData\<close>, whose hashes may still change.
\<close>

record 'w exec =
  x_state :: rqstate
  x_graph :: taskgraph
  x_sq_buildable :: "string list"
  x_sq_running :: "string list"
  x_sq_live :: "string list"
  x_updated :: "(string \<times> string) list"
  x_migrations :: "string list"
  x_buildable :: "string list"
  x_running :: "string list"
  x_complete :: "string list"
  x_tasksrun :: "string list"
  x_build_stamps :: "(string, string) odict"
  x_build_stamps2 :: "string list"
  x_failed :: "string list"
  x_deferred :: "(string, string) odict"
  x_needed_harddeps :: "string list"
  x_harddep_deferred :: "string list"
  x_stampcache :: "(string, bool) odict"
  x_holdoff :: "string list"
  x_holdoff_stale :: bool
  x_sqdone :: bool
  x_stats :: stats
  x_sq_covered :: "string list"
  x_sq_notcovered :: "string list"
  x_sq_notneeded :: "string list"
  x_tasks_covered :: "string list"
  x_tasks_notcovered :: "string list"
  x_scene_done :: "string list"
  x_sched :: scheduler
  x_sq :: sqdata
  x_cycle :: nat
  x_fakeworkers :: "string list"
  x_trace :: "rqevent list"
  x_world :: 'w

section \<open>The surroundings\<close>

text \<open>
  \<open>wo_stampfile w taskname taskfn extrainfo\<close> is \<^verbatim>\<open>siggen.stampfile_mcfn\<close>,
  \<open>wo_mtime\<close> the modification time of a file that exists, \<open>wo_spawn\<close> whether a worker under fakeroot
  can be started, \<open>wo_hashcheck\<close> the hook that tells which tasks can come from a shared state cache, given each
  task with its hash, hash function and unihash.
\<close>

record 'w world_ops =
  wo_stampfile :: "'w \<Rightarrow> string \<Rightarrow> string \<Rightarrow> bool \<Rightarrow> string"
  wo_mtime :: "'w \<Rightarrow> string \<Rightarrow> int option"
  wo_make_stamp :: "string \<Rightarrow> string \<Rightarrow> 'w \<Rightarrow> 'w"
  wo_pressure :: "'w \<Rightarrow> bool"
  wo_spawn :: "'w \<Rightarrow> string \<Rightarrow> bool"
  wo_hashcheck :: "('w \<Rightarrow> (string \<times> string option \<times> string \<times> string option) list \<Rightarrow> string list) option"
  wo_siggen :: "'w siggen_ops"
  wo_set_unihash :: "string \<Rightarrow> string \<Rightarrow> 'w \<Rightarrow> 'w"
  wo_report_unihash :: "string \<Rightarrow> string \<Rightarrow> string option \<Rightarrow> string \<Rightarrow> 'w \<Rightarrow> 'w"
  wo_save_unihashes :: "'w \<Rightarrow> 'w"

text \<open>The hook of \<^verbatim>\<open>check_dependencies\<close>: a task, its task data, the tasks not needed.\<close>

type_synonym depvalid = "string \<Rightarrow> (string \<times> string \<times> string \<times> string) list \<Rightarrow> string list \<Rightarrow> bool"

record 'w exec_env =
  ev_ops :: "'w world_ops"
  ev_caches :: caches
  ev_taskData :: "(string, taskdata) odict"
  ev_setscene :: "string list"
  ev_targets :: "string list"
  ev_ignore_tasks :: "string list option"
  ev_enforce :: bool
  ev_number_tasks :: int
  ev_scheduler :: string
  ev_number_threads :: "string \<Rightarrow> string option"
  ev_depvalid :: "depvalid option"
  ev_halt :: bool
  ev_force :: bool
  ev_dry_run :: bool
  ev_skipsetscene :: bool
  ev_setsceneonly :: bool
  ev_depth :: nat

text \<open>The parts of an identifier with the cache of its multiconfig, as most methods begin.\<close>

definition task_info :: "caches \<Rightarrow> string \<Rightarrow> (string \<times> string \<times> string \<times> string \<times> cachedata) result" where
  "task_info caches tid =
     bindE (split_tid_mcfn tid) (\<lambda>(mc, fn, taskname, taskfn).
     bindE (dindex caches mc) (\<lambda>c. Inr (mc, fn, taskname, taskfn, c)))"

text \<open>Whether a task flag lists the task: \<^verbatim>\<open>flag in taskdep and taskname in taskdep[flag]\<close>.\<close>

definition has_flag :: "cachedata \<Rightarrow> string \<Rightarrow> string \<Rightarrow> string \<Rightarrow> bool result" where
  "has_flag c taskfn flag taskname =
     bindE (dindex (dc_task_deps c) taskfn) (\<lambda>td. Inr (task_flag td flag taskname \<noteq> None))"

section \<open>Stamps\<close>

definition stamp_of :: "'w exec_env \<Rightarrow> 'w \<Rightarrow> string \<Rightarrow> string \<Rightarrow> string" where
  "stamp_of ev w taskname taskfn = wo_stampfile (ev_ops ev) w taskname taskfn True"

definition mtime :: "'w exec_env \<Rightarrow> 'w \<Rightarrow> string \<Rightarrow> int option" where
  "mtime ev w f = wo_mtime (ev_ops ev) w f"

text \<open>A missing time stamp and one that is 0 are both false.\<close>

definition truthy :: "int option \<Rightarrow> bool" where
  "truthy t \<longleftrightarrow> t \<noteq> None \<and> t \<noteq> Some 0"

definition later :: "int option \<Rightarrow> int option \<Rightarrow> bool" where
  "later s t = (case (s, t) of (Some a, Some b) \<Rightarrow> a > b | _ \<Rightarrow> False)"

text \<open>
  One dependency in the loop of \<^verbatim>\<open>check_stamp_task\<close>; \<open>check\<close> is the recursive call. A stamp of the
  setscene variant that is newer than the stamp of the task, or alone, is as good as a current one. Only
  dependencies in the same file are looked at.
\<close>

definition stamp_dep ::
  "(string \<Rightarrow> (string, bool) odict \<Rightarrow> (bool \<times> (string, bool) odict) result) \<Rightarrow> 'w exec_env \<Rightarrow> 'w \<Rightarrow> bool \<Rightarrow> string \<Rightarrow>
    int option \<Rightarrow> string \<Rightarrow> bool \<times> (string, bool) odict \<Rightarrow> (bool \<times> (string, bool) odict) result" where
  "stamp_dep check ev w recurse fn t1 dep = (\<lambda>(iscurrent, cache).
     if \<not> iscurrent then Inr (iscurrent, cache)
     else bindE (split_tid_mcfn dep) (\<lambda>(mc2, fn2, taskname2, taskfn2).
       let t2 = mtime ev w (stamp_of ev w taskname2 taskfn2);
           t3 = mtime ev w (stamp_of ev w (taskname2 @ ''_setscene'') taskfn2)
       in if truthy t3 \<and> \<not> truthy t2 then Inr (True, cache)
          else if truthy t3 \<and> later t3 t2 then Inr (True, cache)
          else if fn \<noteq> fn2 then Inr (True, cache)
          else if \<not> truthy t2 then Inr (False, cache)
          else if t1 = None then Inl TypeError
          else if later t2 t1 then Inr (False, cache)
          else if recurse
          then case dget cache dep of
                 Some b \<Rightarrow> Inr (b, cache)
               | None \<Rightarrow> bindE (check dep cache) (\<lambda>(b, cache). Inr (b, dset dep b cache))
          else Inr (True, cache)))"

text \<open>
  \<^verbatim>\<open>check_stamp_task\<close>. The first argument is the depth of recursion the interpreter still allows.
\<close>

fun check_stamp_task ::
  "nat \<Rightarrow> 'w exec_env \<Rightarrow> 'w \<Rightarrow> taskgraph \<Rightarrow> string \<Rightarrow> string option \<Rightarrow> bool \<Rightarrow> (string, bool) odict \<Rightarrow>
    (bool \<times> (string, bool) odict) result" where
  "check_stamp_task 0 ev w g tid name recurse cache = Inl RecursionError"
| "check_stamp_task (Suc n) ev w g tid name recurse cache =
     bindE (split_tid_mcfn tid) (\<lambda>(mc, fn, tn, taskfn).
     let taskname = (case name of None \<Rightarrow> tn | Some t \<Rightarrow> t); stampfile = stamp_of ev w taskname taskfn
     in if mtime ev w stampfile = None then Inr (False, cache)
        else bindE (dindex (ev_caches ev) mc) (\<lambda>c.
             bindE (has_flag c taskfn ''nostamp'' taskname) (\<lambda>nostamp.
             if nostamp then Inr (False, cache)
             else if endswith taskname ''_setscene'' then Inr (True, cache)
             else bindE (dindex g tid) (\<lambda>e.
                  bindE (foldE (stamp_dep (\<lambda>dep cache. check_stamp_task n ev w g dep None True cache)
                           ev w recurse fn (mtime ev w stampfile)) (re_depends e) (True, cache)) (\<lambda>(iscurrent, cache).
                  Inr (iscurrent, if recurse then dset tid iscurrent cache else cache))))))"

text \<open>The check with the cache of the execution, which is kept.\<close>

definition stamp_current :: "'w exec_env \<Rightarrow> string \<Rightarrow> string \<Rightarrow> bool \<Rightarrow> 'w exec \<Rightarrow> (bool \<times> 'w exec) result" where
  "stamp_current ev tid taskname recurse x =
     bindE (check_stamp_task (ev_depth ev) ev (x_world x) (x_graph x) tid (Some taskname) recurse (x_stampcache x))
       (\<lambda>(b, cache). Inr (b, x\<lparr>x_stampcache := cache\<rparr>))"

section \<open>Hashes\<close>

definition hash_item :: "'w exec_env \<Rightarrow> taskgraph \<Rightarrow> string \<Rightarrow> (string \<times> string option \<times> string \<times> string option) result" where
  "hash_item ev g tid =
     bindE (split_tid_mcfn tid) (\<lambda>(mc, fn, taskname, taskfn).
     bindE (dindex g tid) (\<lambda>e.
     bindE (dindex (ev_caches ev) mc) (\<lambda>c.
     bindE (dindex (dc_hashfn c) taskfn) (\<lambda>hashfn. Inr (tid, re_hash e, hashfn, re_unihash e)))))"

definition validate_hashes :: "'w exec_env \<Rightarrow> string list \<Rightarrow> 'w exec \<Rightarrow> string list result" where
  "validate_hashes ev tocheck x =
     (case wo_hashcheck (ev_ops ev) of
        None \<Rightarrow> Inr []
      | Some f \<Rightarrow>
          bindE (foldE (\<lambda>tid items. bindE (hash_item ev (x_graph x) tid) (\<lambda>i. Inr (items @ [i]))) tocheck [])
            (\<lambda>items. Inr (f (x_world x) items)))"

section \<open>Tasks that may run where setscene tasks are enforced\<close>

text \<open>
  \<^verbatim>\<open>fnmatch.fnmatch\<close> of the standard library. A bracket without an end stands for itself; \<open>class_body\<close> are
  the characters of the bracket and what follows it.
\<close>

definition class_body :: "string \<Rightarrow> (string \<times> string) option" where
  "class_body p =
     (let (neg, q) = (case p of c # q \<Rightarrow> if c = CHR ''!'' then ([c], q) else ([], p) | [] \<Rightarrow> ([], []));
          (fst_c, q) = (case q of c # r \<Rightarrow> if c = CHR '']'' then ([c], r) else ([], q) | [] \<Rightarrow> ([], []))
      in if CHR '']'' \<in> set q
         then Some (neg @ fst_c @ before_first (CHR '']'') q, after_first (CHR '']'') q)
         else None)"

fun in_class :: "char \<Rightarrow> string \<Rightarrow> bool" where
  "in_class x (a # m # b # cs) =
     (if m = CHR ''-'' then (of_char a \<le> (of_char x :: nat) \<and> of_char x \<le> (of_char b :: nat)) \<or> in_class x cs
      else x = a \<or> in_class x (m # b # cs))"
| "in_class x cs = (x \<in> set cs)"

definition class_match :: "char \<Rightarrow> string \<Rightarrow> bool" where
  "class_match x stuff =
     (case stuff of c # cs \<Rightarrow> if c = CHR ''!'' then \<not> in_class x cs else in_class x stuff | [] \<Rightarrow> False)"

lemma class_body_length: "class_body p = Some (stuff, r) \<Longrightarrow> length r < Suc (length p)"
proof -
  have "length (after_first (CHR '']'') s) < Suc (Suc (length s))" "length (after_first (CHR '']'') s) < Suc (Suc (Suc (length s)))"
    "length (after_first (CHR '']'') (a # s)) < Suc (Suc (length s))"
    "length (after_first (CHR '']'') (a # s)) < Suc (Suc (Suc (length s)))" for a s
    using length_after_first [of "CHR '']''" s] length_after_first [of "CHR '']''" "a # s"] by simp_all
  then show "class_body p = Some (stuff, r) \<Longrightarrow> length r < Suc (length p)"
    by (auto simp: class_body_def Let_def split: list.splits if_splits prod.splits)
qed

function (sequential) fnmatch :: "string \<Rightarrow> string \<Rightarrow> bool" where
  "fnmatch name [] = (name = [])"
| "fnmatch name (p # ps) =
     (if p = CHR ''*'' then (if fnmatch name ps then True else if name = [] then False else fnmatch (tl name) (p # ps))
      else if name = [] then False
      else if p = CHR ''?'' then fnmatch (tl name) ps
      else if p = CHR ''['' then
        (case class_body ps of
           None \<Rightarrow> (if hd name = p then fnmatch (tl name) ps else False)
         | Some (stuff, r) \<Rightarrow> (if class_match (hd name) stuff then fnmatch (tl name) r else False))
      else if hd name = p then fnmatch (tl name) ps else False)"
  by pat_completeness auto
termination
  by (relation "measure (\<lambda>(name, p). length name + length p)") (auto dest: class_body_length simp: neq_Nil_conv)

text \<open>
  The items of \<^verbatim>\<open>BB_SETSCENE_ENFORCE_IGNORE_TASKS\<close>; one that begins with \<open>%:\<close> stands for the task of
  every target. An item \<open>%:\<close> always has a second part.
\<close>

definition get_setscene_enforce_ignore_tasks ::
  "config \<Rightarrow> (string \<times> string \<times> string \<times> string) list \<Rightarrow> string list option" where
  "get_setscene_enforce_ignore_tasks getv targets =
     (if getv ''BB_SETSCENE_ENFORCE'' \<noteq> Some ''1'' then None
      else let ignore_tasks = split_ws (case getv ''BB_SETSCENE_ENFORCE_IGNORE_TASKS'' of None \<Rightarrow> [] | Some v \<Rightarrow> v)
           in Some (concat (map (\<lambda>item.
                if startswith item ''%:''
                then map (\<lambda>t. fst (snd t) @ [colon] @ split_on colon item ! 1) targets
                else [item]) ignore_tasks)))"

definition check_setscene_enforce_ignore_tasks :: "string \<Rightarrow> string \<Rightarrow> string list option \<Rightarrow> bool" where
  "check_setscene_enforce_ignore_tasks pn taskname ignore_tasks =
     (case ignore_tasks of
        None \<Rightarrow> True
      | Some items \<Rightarrow> \<exists>item \<in> set items. fnmatch (pn @ [colon] @ taskname) item)"

text \<open>Whether a task that is about to run must not; the message about it is left out.\<close>

definition check_setscene_ignore_tasks :: "'w exec_env \<Rightarrow> string \<Rightarrow> 'w exec \<Rightarrow> (bool \<times> 'w exec) result" where
  "check_setscene_ignore_tasks ev tid x =
     bindE (split_tid_mcfn tid) (\<lambda>(mc, fn, taskname, taskfn).
     if tid \<in> set (x_tasks_covered x) then Inr (False, x)
     else bindE (stamp_current ev tid taskname False x) (\<lambda>(current, x).
       if current then Inr (False, x)
       else bindE (dindex (ev_caches ev) mc) (\<lambda>c.
            bindE (has_flag c taskfn ''noexec'' taskname) (\<lambda>noexec.
            if noexec then Inr (False, x)
            else bindE (dindex (dc_pkg_fn c) taskfn) (\<lambda>pn.
                 Inr (\<not> check_setscene_enforce_ignore_tasks pn taskname (ev_ignore_tasks ev), x))))))"

text \<open>The hook of the metadata that tells whether the setscene task is needed at all.\<close>

definition check_dependencies :: "'w exec_env \<Rightarrow> string \<Rightarrow> string list \<Rightarrow> 'w exec \<Rightarrow> bool result" where
  "check_dependencies ev task taskdeps x =
     (case ev_depvalid ev of
        None \<Rightarrow> Inr False
      | Some f \<Rightarrow>
          bindE (foldE (\<lambda>dep data.
             bindE (split_tid_mcfn dep) (\<lambda>(mc, fn, taskname, taskfn).
             bindE (dindex (ev_caches ev) mc) (\<lambda>c.
             bindE (dindex (dc_pkg_fn c) taskfn) (\<lambda>pn. Inr (data @ [(dep, pn, taskname, fn)])))))
             (sadd task taskdeps) []) (\<lambda>data. Inr (f task data (x_sq_notneeded x))))"

section \<open>Starting tasks\<close>

definition setbuildable :: "string \<Rightarrow> 'w exec \<Rightarrow> 'w exec" where
  "setbuildable task x = x\<lparr>x_buildable := sadd task (x_buildable x), x_sched := newbuildable task (x_sched x)\<rparr>"

definition can_start_task :: "'w exec_env \<Rightarrow> 'w exec \<Rightarrow> bool" where
  "can_start_task ev x \<longleftrightarrow> st_active (x_stats x) + int (length (x_sq_live x)) < ev_number_tasks ev"

definition emit :: "rqevent \<Rightarrow> 'w exec \<Rightarrow> 'w exec" where
  "emit e x = x\<lparr>x_trace := x_trace x @ [e]\<rparr>"

end
