(* ===== verification/SceneQueue.thy ===== *)
theory SceneQueue
  imports ExecState
begin

text \<open>
  The queue of setscene tasks of \<^verbatim>\<open>bb/runqueue.py\<close>: \<^verbatim>\<open>scenequeue_updatecounters\<close> and
  the methods \<^verbatim>\<open>sq_task_*\<close> around it, \<^verbatim>\<open>check_setscene_stamps\<close>,
  \<^verbatim>\<open>update_scenequeue_data\<close> and \<^verbatim>\<open>update_holdofftasks\<close>.
\<close>

section \<open>Tasks done by the setscene queue\<close>

text \<open>
  One task of the wave that marks as done the tasks below it that no undone task needs any more:
  \<open>done\<close> and the tasks of the next round.
\<close>

definition done_dep :: "taskgraph \<Rightarrow> string list \<Rightarrow> string list \<Rightarrow> string \<Rightarrow> string list \<Rightarrow> string list result" where
  "done_dep g setscene dn dep new =
     (if dep \<in> set setscene \<or> dep \<in> set dn then Inr new
      else bindE (dindex g dep) (\<lambda>e. Inr (if set (re_revdeps e) \<subseteq> set dn then sadd dep new else new)))"

definition done_task :: "taskgraph \<Rightarrow> string list \<Rightarrow> string \<Rightarrow> string list \<times> string list \<Rightarrow> (string list \<times> string list) result" where
  "done_task g setscene t = (\<lambda>(dn, new).
     bindE (dindex g t) (\<lambda>e.
     bindE (foldE (done_dep g setscene (sadd t dn)) (re_depends e) new) (\<lambda>new. Inr (sadd t dn, new))))"

definition done_round :: "taskgraph \<Rightarrow> string list \<Rightarrow> string list \<Rightarrow> string list \<Rightarrow> (string list \<times> string list) result" where
  "done_round g setscene front dn = foldE (done_task g setscene) (sort front) (dn, [])"

lemma done_dep_new:
  assumes "done_dep g setscene dn dep new = Inr new'"
  shows "set new' \<subseteq> insert dep (set new)" and "x \<in> set new' \<Longrightarrow> x \<notin> set new \<Longrightarrow> x \<notin> set dn"
  using assms by (auto simp: done_dep_def bindE_eq_Inr split: if_splits)

lemma done_deps_new:
  "foldE (done_dep g setscene dn) deps new = Inr new' \<Longrightarrow> x \<in> set new' \<Longrightarrow> x \<notin> set new \<Longrightarrow> x \<notin> set dn"
proof (induction deps arbitrary: new)
  case (Cons dep deps)
  then obtain v where v: "done_dep g setscene dn dep new = Inr v" "foldE (done_dep g setscene dn) deps v = Inr new'"
    by (auto simp: bindE_eq_Inr)
  show ?case
  proof (cases "x \<in> set v")
    case True
    with done_dep_new(2) [OF v(1)] Cons.prems(3) show ?thesis by simp
  next
    case False
    with Cons.IH [OF v(2)] Cons.prems(2) show ?thesis by simp
  qed
qed simp

lemma done_task_result:
  assumes "done_task g setscene t (dn, new) = Inr (dn', new')"
  shows "dn' = sadd t dn" and "t \<in> nodes g" and "x \<in> set new' \<Longrightarrow> x \<notin> set new \<Longrightarrow> x \<notin> insert t (set dn)"
  using assms done_deps_new [of g setscene "sadd t dn" _ new new' x]
  by (auto simp: done_task_def bindE_eq_Inr dindex_eq_Inr nodes_has dhas_iff)

lemma done_fold_result:
  "foldE (done_task g setscene) ts (dn, new) = Inr (dn', new') \<Longrightarrow>
    set dn' = set dn \<union> set ts \<and> set ts \<subseteq> nodes g \<and>
    (\<forall>x \<in> set new'. x \<in> set new \<or> x \<notin> set dn)"
proof (induction ts arbitrary: dn new)
  case (Cons t ts)
  then obtain dn1 new1 where s: "done_task g setscene t (dn, new) = Inr (dn1, new1)"
    "foldE (done_task g setscene) ts (dn1, new1) = Inr (dn', new')" by (auto simp: bindE_eq_Inr)
  note r = done_task_result [OF s(1)]
  note i = Cons.IH [OF s(2)]
  have "x \<in> set new \<or> x \<notin> set dn" if "x \<in> set new'" for x
  proof (cases "x \<in> set new1")
    case True
    then show ?thesis using r(3) [of x] by auto
  next
    case False
    then have "x \<notin> set dn1" using i that by blast
    with r(1) show ?thesis by simp
  qed
  then show ?case using i r(1,2) by auto
qed simp

text \<open>
  The waves over the graph that follow a frontier and a set of finished tasks: a round whose frontier is finished
  leads out of the finished tasks, any other round finishes a new one.
\<close>

definition front_measure :: "taskgraph \<times> string list \<times> string list \<Rightarrow> nat \<times> nat" where
  "front_measure = (\<lambda>(g, front, dn).
     (card (nodes g - set dn), if front = [] then 0 else if set front \<subseteq> set dn then 2 else 1))"

lemma front_less:
  assumes f: "front \<noteq> []" "set front \<subseteq> nodes g" and d: "set dn' = set dn \<union> set front"
    and n: "\<And>x. x \<in> set new \<Longrightarrow> x \<notin> set dn"
  shows "(front_measure (g, new, dn'), front_measure (g, front, dn)) \<in> less_than <*lex*> less_than"
proof (cases "set front \<subseteq> set dn")
  case True
  then have "set dn' = set dn" using d by auto
  moreover have "\<not> set new \<subseteq> set dn'" if "new \<noteq> []"
    using that n \<open>set dn' = set dn\<close> by (cases new) auto
  ultimately show ?thesis using True f by (auto simp: front_measure_def)
next
  case False
  have "finite (nodes g - set dn)" by (simp add: nodes_def)
  moreover have "nodes g - set dn' \<subset> nodes g - set dn" using False d f(2) by auto
  ultimately have "card (nodes g - set dn') < card (nodes g - set dn)" by (rule psubset_card_mono)
  then show ?thesis by (simp add: front_measure_def)
qed

lemma done_round_less:
  assumes r: "done_round g setscene front dn = Inr (dn', new)" and f: "front \<noteq> []"
  shows "(front_measure (g, new, dn'), front_measure (g, front, dn)) \<in> less_than <*lex*> less_than"
  using done_fold_result [OF r [unfolded done_round_def]] by (intro front_less [OF f]) auto

function mark_done :: "taskgraph \<Rightarrow> string list \<Rightarrow> string list \<Rightarrow> string list \<Rightarrow> string list result" where
  "mark_done g setscene front dn =
     (if front = [] then Inr dn
      else case done_round g setscene front dn of
             Inl e \<Rightarrow> Inl e
           | Inr r \<Rightarrow> mark_done g setscene (snd r) (fst r))"
  by pat_completeness auto
termination
proof (relation "inv_image (less_than <*lex*> less_than) (\<lambda>(g, setscene, front, dn). front_measure (g, front, dn))", goal_cases)
  case 1
  show ?case by auto
next
  case (2 g setscene front dn r)
  then show ?case using done_round_less [of g setscene front dn "fst r" "snd r"] by simp
qed

declare mark_done.simps [simp del]

section \<open>Counters of the queue\<close>

definition check_setscene_stamps :: "'w exec_env \<Rightarrow> string \<Rightarrow> 'w exec \<Rightarrow> (bool \<times> bool \<times> 'w exec) result" where
  "check_setscene_stamps ev tid x =
     bindE (task_info (ev_caches ev) tid) (\<lambda>(mc, fn, taskname, taskfn, c).
     bindE (has_flag c taskfn ''noexec'' taskname) (\<lambda>noexec.
     if noexec
     then Inr (True, False, x\<lparr>x_world := wo_make_stamp (ev_ops ev) (taskname @ ''_setscene'') taskfn (x_world x)\<rparr>)
     else bindE (stamp_current ev tid (taskname @ ''_setscene'') False x) (\<lambda>(current, x).
          if current then Inr (False, True, x)
          else bindE (stamp_current ev tid taskname True x) (\<lambda>(current, x).
               Inr (False, current, x)))))"

text \<open>The setscene tasks all of whose dependencies in the queue are covered or not become buildable.\<close>

definition enable_deps :: "string \<Rightarrow> 'w exec \<Rightarrow> 'w exec result" where
  "enable_deps task x =
     bindE (dindex (sq_deps (x_sq x)) task) (\<lambda>deps.
     foldE (\<lambda>dep x. bindE (dindex (sq_revdeps (x_sq x)) dep) (\<lambda>revs.
         Inr (if set revs \<subseteq> set (x_sq_covered x) \<union> set (x_sq_notcovered x)
              then x\<lparr>x_sq_buildable := sadd dep (x_sq_buildable x)\<rparr> else x))) (sort deps) x)"

definition release_harddeps :: "string \<Rightarrow> 'w exec \<Rightarrow> 'w exec result" where
  "release_harddeps task x =
     (if dhas (sq_harddeps (x_sq x)) task
      then foldE (\<lambda>dep x. bindE (dindex (sq_harddeps_rev (x_sq x)) dep) (\<lambda>revs.
             Inr (if set revs \<subseteq> set (x_sq_covered x) \<union> set (x_sq_notcovered x)
                  then x\<lparr>x_harddep_deferred := sdiscard dep (x_harddep_deferred x)\<rparr> else x)))
             (x_harddep_deferred x) x
      else Inr x)"

definition update_covered :: "'w exec \<Rightarrow> 'w exec" where
  "update_covered x =
     x\<lparr>x_stats := updateCovered (int (length (x_sq_covered x))) (int (length (x_sq_notcovered x))) (x_stats x)\<rparr>"

text \<open>What follows the treatment of the hard dependencies.\<close>

definition count_task :: "'w exec_env \<Rightarrow> string \<Rightarrow> 'w exec \<Rightarrow> 'w exec result" where
  "count_task ev task x =
     bindE (enable_deps task x) (\<lambda>x.
     bindE (mark_done (x_graph x) (ev_setscene ev) [task] (x_scene_done x)) (\<lambda>dn.
     bindE (release_harddeps task (x\<lparr>x_scene_done := dn\<rparr>)) (\<lambda>x.
     Inr ((update_covered x)\<lparr>x_holdoff_stale := True\<rparr>))))"

definition sq_fail_marks :: "string \<Rightarrow> 'w exec \<Rightarrow> 'w exec" where
  "sq_fail_marks task x =
     x\<lparr>x_sq_running := sadd task (x_sq_running x), x_sq_buildable := sadd task (x_sq_buildable x),
       x_sq_notcovered := sadd task (x_sq_notcovered x)\<rparr>"

text \<open>A hard dependent of a failed task fails with it unless it was dealt with or needs no setscene.\<close>

definition fail_dependent ::
  "(string \<Rightarrow> 'w exec \<Rightarrow> 'w exec result) \<Rightarrow> 'w exec_env \<Rightarrow> string \<Rightarrow> 'w exec \<Rightarrow> 'w exec result" where
  "fail_dependent failoutright ev dep x =
     (if dep \<in> set (x_sq_covered x) \<or> dep \<in> set (x_sq_notcovered x) then Inr x
      else bindE (check_setscene_stamps ev dep x) (\<lambda>(noexec, stamppresent, x).
           if noexec \<or> stamppresent then Inr x else failoutright dep x))"

text \<open>
  \<^verbatim>\<open>scenequeue_updatecounters\<close> and \<^verbatim>\<open>sq_task_failoutright\<close> call each other. The number is
  the depth of recursion the interpreter still allows.
\<close>

fun updatecounters_at :: "nat \<Rightarrow> 'w exec_env \<Rightarrow> string \<Rightarrow> bool \<Rightarrow> 'w exec \<Rightarrow> 'w exec result" where
  "updatecounters_at 0 ev task fail x = Inl RecursionError"
| "updatecounters_at (Suc n) ev task fail x =
     bindE (case dget (sq_harddeps (x_sq x)) task of
              None \<Rightarrow> Inr x
            | Some deps \<Rightarrow>
                if fail then foldE (fail_dependent (\<lambda>dep x. updatecounters_at n ev dep True (sq_fail_marks dep x)) ev)
                               (sort deps) x
                else Inr x) (count_task ev task)"

definition scenequeue_updatecounters :: "'w exec_env \<Rightarrow> string \<Rightarrow> bool \<Rightarrow> 'w exec \<Rightarrow> 'w exec result" where
  "scenequeue_updatecounters ev task fail x = updatecounters_at (ev_depth ev) ev task fail x"

section \<open>The end of a setscene task\<close>

definition sq_task_completeoutright :: "'w exec_env \<Rightarrow> string \<Rightarrow> 'w exec \<Rightarrow> 'w exec result" where
  "sq_task_completeoutright ev task x =
     scenequeue_updatecounters ev task False (x\<lparr>x_sq_covered := sadd task (x_sq_covered x)\<rparr>)"

definition sq_task_failoutright :: "'w exec_env \<Rightarrow> string \<Rightarrow> 'w exec \<Rightarrow> 'w exec result" where
  "sq_task_failoutright ev task x = scenequeue_updatecounters ev task True (sq_fail_marks task x)"

definition sq_task_skip :: "'w exec_env \<Rightarrow> string \<Rightarrow> 'w exec \<Rightarrow> 'w exec result" where
  "sq_task_skip ev task x =
     sq_task_completeoutright ev task
       (x\<lparr>x_sq_running := sadd task (x_sq_running x), x_sq_buildable := sadd task (x_sq_buildable x)\<rparr>)"

definition sq_task_complete :: "'w exec_env \<Rightarrow> string \<Rightarrow> 'w exec \<Rightarrow> 'w exec result" where
  "sq_task_complete ev task x = sq_task_completeoutright ev task (emit (SceneCompleted task) x)"

text \<open>\<^verbatim>\<open>task.split('_setscene')[0]\<close>: the text before the first occurrence.\<close>

fun before_str :: "string \<Rightarrow> string \<Rightarrow> string" where
  "before_str p [] = []"
| "before_str p (c # cs) = (if startswith (c # cs) p then [] else c # before_str p cs)"

definition sq_check_taskfail :: "'w exec_env \<Rightarrow> string \<Rightarrow> 'w exec \<Rightarrow> 'w exec result" where
  "sq_check_taskfail ev task x =
     (if ev_ignore_tasks ev = None then Inr x
      else bindE (task_info (ev_caches ev) (before_str ''_setscene'' task)) (\<lambda>(mc, fn, taskname, taskfn, c).
           bindE (dindex (dc_pkg_fn c) taskfn) (\<lambda>pn.
           Inr (if check_setscene_enforce_ignore_tasks pn taskname (ev_ignore_tasks ev) then x
                else x\<lparr>x_state := RqCleanUp\<rparr>))))"

definition sq_task_fail :: "'w exec_env \<Rightarrow> string \<Rightarrow> int \<Rightarrow> 'w exec \<Rightarrow> 'w exec result" where
  "sq_task_fail ev task status x =
     (let x = emit (SceneFailed task status) x
      in bindE (scenequeue_updatecounters ev task True (x\<lparr>x_sq_notcovered := sadd task (x_sq_notcovered x)\<rparr>))
           (sq_check_taskfail ev task))"

section \<open>What can come from the shared state\<close>

text \<open>The check of the stamps of one task: skipped, or to be checked against the cache of results.\<close>

definition update_stamps ::
  "'w exec_env \<Rightarrow> string \<Rightarrow> string list \<times> 'w exec \<Rightarrow> (string list \<times> 'w exec) result" where
  "update_stamps ev tid = (\<lambda>(tocheck, x).
     let sq = x_sq x;
         x = x\<lparr>x_sq := sq\<lparr>sq_stamppresent := sdiscard tid (sq_stamppresent sq), sq_valid := sdiscard tid (sq_valid sq),
                 sq_outrightfail := sdiscard tid (sq_outrightfail sq)\<rparr>\<rparr>
     in bindE (check_setscene_stamps ev tid x) (\<lambda>(noexec, stamppresent, x).
        if noexec
        then bindE (sq_task_skip ev tid (x\<lparr>x_sq := (x_sq x)\<lparr>sq_noexec := sadd tid (sq_noexec (x_sq x))\<rparr>\<rparr>))
               (\<lambda>x. Inr (tocheck, x))
        else if stamppresent
        then bindE (sq_task_skip ev tid
                      (x\<lparr>x_sq := (x_sq x)\<lparr>sq_stamppresent := sadd tid (sq_stamppresent (x_sq x))\<rparr>\<rparr>))
               (\<lambda>x. Inr (tocheck, x))
        else Inr (sadd tid tocheck, x)))"

definition outright_fails :: "string \<Rightarrow> 'w exec \<Rightarrow> 'w exec" where
  "outright_fails tid x =
     (if tid \<in> set (sq_stamppresent (x_sq x)) \<or> tid \<in> set (sq_valid (x_sq x)) \<or> tid \<in> set (sq_noexec (x_sq x)) \<or>
         tid \<in> set (x_sq_covered x) \<or> tid \<in> set (x_sq_notcovered x) \<or> dhas (x_deferred x) tid then x
      else x\<lparr>x_sq := (x_sq x)\<lparr>sq_outrightfail := sadd tid (sq_outrightfail (x_sq x))\<rparr>\<rparr>)"

definition update_scenequeue_data :: "'w exec_env \<Rightarrow> string list \<Rightarrow> 'w exec \<Rightarrow> 'w exec result" where
  "update_scenequeue_data ev tids x =
     bindE (foldE (update_stamps ev) (sort tids) ([], x)) (\<lambda>(tocheck, x).
     bindE (validate_hashes ev tocheck x) (\<lambda>valid.
     Inr (fold outright_fails tids
            (x\<lparr>x_sq := (x_sq x)\<lparr>sq_valid := supdate (sq_valid (x_sq x)) valid\<rparr>\<rparr>))))"

section \<open>Tasks to hold off\<close>

definition cover_all :: "sqdata \<Rightarrow> string list \<Rightarrow> string list \<Rightarrow> string list result" where
  "cover_all sq tids s = foldE (\<lambda>tid s. bindE (dindex (sq_covered_tasks sq) tid) (\<lambda>ts. Inr (supdate s ts))) tids s"

definition notcovered_tasks :: "'w exec_env \<Rightarrow> 'w exec \<Rightarrow> string list result" where
  "notcovered_tasks ev x =
     bindE (cover_all (x_sq x) (x_sq_notcovered x) (supdate (x_sq_notcovered x) (sq_cantskip (x_sq x)))) (\<lambda>s.
     Inr (sinter (supdate s (sdiff (sq_unskippable (x_sq x)) (ev_setscene ev))) (x_scene_done x)))"

definition covered_tasks :: "string list \<Rightarrow> 'w exec \<Rightarrow> string list result" where
  "covered_tasks notcovered x =
     bindE (cover_all (x_sq x) (x_sq_covered x) (x_sq_covered x)) (\<lambda>s.
     Inr (sinter (sdiff s notcovered) (x_scene_done x)))"

text \<open>A task without dependencies, or with complete ones, may run.\<close>

definition make_buildable :: "string \<Rightarrow> 'w exec \<Rightarrow> 'w exec result" where
  "make_buildable tid x =
     bindE (dindex (x_graph x) tid) (\<lambda>e.
     Inr (if set (re_depends e) \<subseteq> set (x_complete x) then setbuildable tid x else x))"

definition holdoff_tasks :: "'w exec_env \<Rightarrow> 'w exec \<Rightarrow> string list result" where
  "holdoff_tasks ev x =
     (let tids = sdiff (sdiff (ev_setscene ev) (x_sq_covered x)) (x_sq_notcovered x)
      in foldE (\<lambda>tid h. bindE (dindex (sq_covered_tasks (x_sq x)) tid) (\<lambda>ts.
           Inr (supdate h (sdiff ts (x_complete x))))) tids tids)"

definition update_holdofftasks :: "'w exec_env \<Rightarrow> 'w exec \<Rightarrow> 'w exec result" where
  "update_holdofftasks ev x =
     (if \<not> x_holdoff_stale x then Inr x
      else bindE (notcovered_tasks ev x) (\<lambda>notcovered.
           bindE (covered_tasks notcovered x) (\<lambda>covered.
           bindE (foldE make_buildable (supdate notcovered covered) x) (\<lambda>x.
           bindE (holdoff_tasks ev (x\<lparr>x_tasks_covered := covered, x_tasks_notcovered := notcovered\<rparr>)) (\<lambda>holdoff.
           Inr (x\<lparr>x_tasks_covered := covered, x_tasks_notcovered := notcovered, x_holdoff := holdoff,
                  x_holdoff_stale := False\<rparr>))))))"

end
