(* ===== verification/SceneBuild.thy ===== *)
theory SceneBuild
  imports SceneQueue
begin

text \<open>
  \<^verbatim>\<open>build_scenequeue_data\<close> of \<^verbatim>\<open>bb/runqueue.py\<close>: the graph of all tasks is collapsed to
  one of the setscene tasks only.
\<close>

section \<open>The collapse to setscene tasks\<close>

text \<open>
  \<open>cl_revdeps\<close> are the reverse dependencies still to be followed, \<open>cl_squash\<close> the setscene tasks that
  reach a task, \<open>cl_collated\<close> the tasks each setscene task covers.
\<close>

record collapse =
  cl_revdeps :: "(string, string list) odict"
  cl_squash :: "(string, string list) odict"
  cl_collated :: "(string, string list) odict"

definition cantskip :: "'w exec_env \<Rightarrow> taskgraph \<Rightarrow> string list" where
  "cantskip ev g = sinter (sdiff (ev_targets ev) (ev_setscene ev)) (dkeys g)"

definition start_collapse :: "taskgraph \<Rightarrow> collapse" where
  "start_collapse g =
     \<lparr>cl_revdeps = map (\<lambda>kv. (fst kv, re_revdeps (snd kv))) g, cl_squash = map (\<lambda>kv. (fst kv, [])) g, cl_collated = []\<rparr>"

definition start_endpoints :: "string list \<Rightarrow> taskgraph \<Rightarrow> (string, string list) odict" where
  "start_endpoints setscene g =
     map (\<lambda>kv. (fst kv, [])) (filter (\<lambda>kv. re_revdeps (snd kv) = [] \<and> fst kv \<notin> set setscene) g)"

definition drop_revdep :: "string \<Rightarrow> string \<Rightarrow> collapse \<Rightarrow> collapse result" where
  "drop_revdep tid dep cl =
     bindE (dindex (cl_revdeps cl) dep) (\<lambda>rs. Inr (cl\<lparr>cl_revdeps := dset dep (sdiscard tid rs) (cl_revdeps cl)\<rparr>))"

text \<open>The dependencies of a setscene task are where the chains below it begin.\<close>

definition scene_endpoints ::
  "taskgraph \<Rightarrow> string \<Rightarrow> (string, string list) odict \<times> collapse \<Rightarrow> ((string, string list) odict \<times> collapse) result" where
  "scene_endpoints g tid = (\<lambda>(endpoints, cl).
     bindE (dindex g tid) (\<lambda>e.
     foldE (\<lambda>dep (endpoints, cl). bindE (drop_revdep tid dep cl) (\<lambda>cl.
              Inr (dset dep (sadd tid (dget_default endpoints dep [])) endpoints, cl)))
       (re_depends e) (endpoints, cl\<lparr>cl_collated := dset tid [] (cl_collated cl)\<rparr>)))"

text \<open>One endpoint: \<open>task\<close> are the setscene tasks it is reached from; the new endpoints get the same set.\<close>

definition pass_down ::
  "string list \<Rightarrow> string \<Rightarrow> string list \<Rightarrow> string list \<Rightarrow> string \<Rightarrow>
    (string, string list) odict \<times> collapse \<Rightarrow> ((string, string list) odict \<times> collapse) result" where
  "pass_down setscene point task tasks dep = (\<lambda>(newendpoints, cl).
     bindE (drop_revdep point dep cl) (\<lambda>cl.
     bindE (if tasks = [] then Inr (cl_squash cl)
            else bindE (dindex (cl_squash cl) dep) (\<lambda>ts. Inr (dset dep (supdate ts tasks) (cl_squash cl)))) (\<lambda>squash.
     bindE (dindex (cl_revdeps cl) dep) (\<lambda>rs.
     Inr (if rs = [] \<and> dep \<notin> set setscene then dset dep task newendpoints else newendpoints,
          cl\<lparr>cl_squash := squash\<rparr>)))))"

definition process_point ::
  "string list \<Rightarrow> taskgraph \<Rightarrow> string \<times> string list \<Rightarrow>
    (string, string list) odict \<times> collapse \<Rightarrow> ((string, string list) odict \<times> collapse) result" where
  "process_point setscene g pt = (\<lambda>(newendpoints, cl).
     let point = fst pt; task = snd pt in
     bindE (dindex (cl_squash cl) point) (\<lambda>ts.
     let tasks = supdate task ts in
     if point \<in> set setscene then Inr (newendpoints, cl\<lparr>cl_squash := dset point tasks (cl_squash cl)\<rparr>)
     else bindE (foldE (\<lambda>t cd. bindE (dindex cd t) (\<lambda>ps. Inr (dset t (sadd point ps) cd))) tasks (cl_collated cl)) (\<lambda>cd.
          bindE (dindex g point) (\<lambda>e.
          foldE (pass_down setscene point task tasks) (re_depends e)
            (newendpoints, cl\<lparr>cl_collated := cd, cl_squash := dset point [] (cl_squash cl)\<rparr>)))))"

text \<open>The rounds over the endpoints; the number is the depth of recursion that is left.\<close>

fun process_endpoints :: "nat \<Rightarrow> string list \<Rightarrow> taskgraph \<Rightarrow> (string, string list) odict \<Rightarrow> collapse \<Rightarrow> collapse result" where
  "process_endpoints 0 setscene g endpoints cl = Inl RecursionError"
| "process_endpoints (Suc n) setscene g endpoints cl =
     bindE (foldE (process_point setscene g) endpoints ([], cl)) (\<lambda>(newendpoints, cl).
     if newendpoints = [] then Inr cl else process_endpoints n setscene g newendpoints cl)"

definition collapse_graph :: "nat \<Rightarrow> string list \<Rightarrow> taskgraph \<Rightarrow> collapse result" where
  "collapse_graph depth setscene g =
     bindE (foldE (scene_endpoints g) setscene (start_endpoints setscene g, start_collapse g)) (\<lambda>(endpoints, cl).
     process_endpoints depth setscene g endpoints cl)"

section \<open>Unskippable tasks\<close>

text \<open>
  Tasks the build asks for directly, down to and including setscene tasks. A task without dependencies is made
  buildable on the way.
\<close>

definition unskip_task :: "string list \<Rightarrow> string \<Rightarrow> string list \<times> 'w exec \<Rightarrow> (string list \<times> 'w exec) result" where
  "unskip_task setscene tid = (\<lambda>(unskippable, x).
     if tid \<in> set setscene then Inr (unskippable, x)
     else bindE (dindex (x_graph x) tid) (\<lambda>e.
          Inr (supdate unskippable (re_depends e), if re_depends e = [] then setbuildable tid x else x)))"

definition unskip_round :: "string list \<Rightarrow> string list \<Rightarrow> 'w exec \<Rightarrow> (string list \<times> 'w exec) result" where
  "unskip_round setscene unskippable x = foldE (unskip_task setscene) (rev (sort unskippable)) (unskippable, x)"

text \<open>All dependencies that occur in the graph bound the growth.\<close>

definition all_depends :: "taskgraph \<Rightarrow> string set" where
  "all_depends g = (\<Union>kv \<in> set g. set (re_depends (snd kv)))"

lemma unskip_task_graph:
  assumes "unskip_task setscene tid (us, x) = Inr (us', x')"
  shows "x_graph x' = x_graph x" and "set us \<subseteq> set us'" and "set us' \<subseteq> set us \<union> all_depends (x_graph x)"
  using assms
  by (auto simp: unskip_task_def bindE_eq_Inr dindex_eq_Inr setbuildable_def all_depends_def split: if_splits
      dest!: map_of_SomeD)

lemma unskip_fold_graph:
  "foldE (unskip_task setscene) tids (us, x) = Inr (us', x') \<Longrightarrow>
    x_graph x' = x_graph x \<and> set us \<subseteq> set us' \<and> set us' \<subseteq> set us \<union> all_depends (x_graph x)"
proof (induction tids arbitrary: us x)
  case (Cons tid tids)
  then obtain us1 x1 where s: "unskip_task setscene tid (us, x) = Inr (us1, x1)"
    "foldE (unskip_task setscene) tids (us1, x1) = Inr (us', x')" by (auto simp: bindE_eq_Inr)
  from Cons.IH [OF s(2)] unskip_task_graph [OF s(1)] show ?case by auto
qed simp

function unskip_loop :: "string list \<Rightarrow> string list \<Rightarrow> 'w exec \<Rightarrow> (string list \<times> 'w exec) result" where
  "unskip_loop setscene unskippable x =
     (case unskip_round setscene unskippable x of
        Inl e \<Rightarrow> Inl e
      | Inr r \<Rightarrow> if set (fst r) = set unskippable then Inr r else unskip_loop setscene (fst r) (snd r))"
  by pat_completeness auto
termination
proof (relation "measure (\<lambda>(setscene, us, x). card (all_depends (x_graph x) - set us))", goal_cases)
  case 1
  show ?case by auto
next
  case (2 setscene us x r)
  from 2(1) have r: "x_graph (snd r) = x_graph x" "set us \<subseteq> set (fst r)" "set (fst r) \<subseteq> set us \<union> all_depends (x_graph x)"
    unfolding unskip_round_def using unskip_fold_graph [of setscene "rev (sort us)" us x "fst r" "snd r"] by simp_all
  then have "all_depends (x_graph x) - set (fst r) \<subset> all_depends (x_graph x) - set us" using 2(2) by auto
  then have "card (all_depends (x_graph x) - set (fst r)) < card (all_depends (x_graph x) - set us)"
    by (rule psubset_card_mono [rotated]) (simp add: all_depends_def)
  then show ?case using r(1) by (simp add: split_beta)
qed

declare unskip_loop.simps [simp del]

text \<open>
  The loop starts with the tasks no other task depends on and the targets that cannot be skipped.
\<close>

definition unskippable_start :: "string list \<Rightarrow> taskgraph \<Rightarrow> string list" where
  "unskippable_start cant g = supdate (map fst (filter (\<lambda>kv. re_revdeps (snd kv) = []) g)) cant"

section \<open>Dependencies between setscene tasks\<close>

text \<open>Only setscene tasks are left, or the collapse went wrong.\<close>

definition only_scene :: "string list \<Rightarrow> (string, string list) odict \<Rightarrow> string list \<Rightarrow> (string, string list) odict result" where
  "only_scene setscene squash tids =
     foldE (\<lambda>tid sq. if tid \<in> set setscene then Inr sq
        else bindE (dindex sq tid) (\<lambda>ts. if ts \<noteq> [] then Inl (BBFatal ''scenequeue'') else Inr (ddel tid sq))) tids squash"

text \<open>Adds an explicit dependency of one setscene task on another.\<close>

definition add_harddep ::
  "'w exec_env \<Rightarrow> taskgraph \<Rightarrow> taskdata \<Rightarrow> string \<Rightarrow> string \<times> string \<Rightarrow> sqdata \<Rightarrow> sqdata result" where
  "add_harddep ev g td tid = (\<lambda>(depname, idependtask) sq.
     case dget (tk_build_targets td) depname of
       None \<Rightarrow> Inr sq
     | Some [] \<Rightarrow> Inl IndexError
     | Some (depfn # fns) \<Rightarrow>
         let deptid = depfn @ [colon] @ replace_str ''_setscene'' [] idependtask
         in if \<not> dhas g deptid then Inl (BBFatal deptid)
            else Inr (sq\<lparr>sq_harddeps := dset deptid (sadd tid (dget_default (sq_harddeps sq) deptid [])) (sq_harddeps sq),
                        sq_harddeps_rev := dset tid (sadd deptid (dget_default (sq_harddeps_rev sq) tid []))
                                                (sq_harddeps_rev sq)\<rparr>))"

definition scene_harddeps :: "'w exec_env \<Rightarrow> 'w \<Rightarrow> taskgraph \<Rightarrow> string \<Rightarrow> sqdata \<Rightarrow> sqdata result" where
  "scene_harddeps ev w g tid sq =
     bindE (split_tid_mcfn tid) (\<lambda>(mc, fn, taskname, taskfn).
     bindE (dindex (ev_taskData ev) mc) (\<lambda>td.
     bindE (dindex (tk_taskentries td) (tid @ ''_setscene'')) (\<lambda>te.
     foldE (add_harddep ev g td tid) (te_idepends te)
       (sq\<lparr>sq_stamps := dset tid (wo_stampfile (ev_ops ev) w taskname taskfn False) (sq_stamps sq),
           sq_harddeps_rev := dset tid [] (sq_harddeps_rev sq)\<rparr>))))"

text \<open>The reverse of the collapsed reverse dependencies.\<close>

definition reverse_deps :: "(string, string list) odict \<Rightarrow> (string, string list) odict result" where
  "reverse_deps revdeps =
     foldE (\<lambda>kv d. foldE (\<lambda>dep d. bindE (dindex d dep) (\<lambda>ts. Inr (dset dep (sadd (fst kv) ts) d))) (snd kv) d)
       revdeps (map (\<lambda>kv. (fst kv, [])) revdeps)"

section \<open>Tasks that wait for an equal one\<close>

definition pending_hash :: "'w exec_env \<Rightarrow> taskgraph \<Rightarrow> string \<Rightarrow> string result" where
  "pending_hash ev g tid =
     pending_hash_index tid (ev_caches ev) (\<lambda>tid. bindE (get_task_unihash g tid) (\<lambda>u.
       case u of None \<Rightarrow> Inl TypeError | Some h \<Rightarrow> Inr h))"

text \<open>
  A task whose index is taken waits for the task that has it; the tasks of the multiconfigs one after another.
\<close>

definition defer_task ::
  "'w exec_env \<Rightarrow> taskgraph \<Rightarrow> string \<Rightarrow> string \<Rightarrow> (string, string) odict \<times> (string, string) odict \<Rightarrow>
    ((string, string) odict \<times> (string, string) odict) result" where
  "defer_task ev g mc tid = (\<lambda>(hashes, deferred).
     if mc_from_tid tid \<noteq> mc then Inr (hashes, deferred)
     else bindE (pending_hash ev g tid) (\<lambda>h.
          Inr (case dget hashes h of
                 None \<Rightarrow> (dset h tid hashes, deferred)
               | Some t \<Rightarrow> (hashes, dset tid t deferred))))"

definition defer_tasks ::
  "'w exec_env \<Rightarrow> taskgraph \<Rightarrow> string list \<Rightarrow> string list \<Rightarrow> ((string, string) odict \<times> (string, string) odict) result" where
  "defer_tasks ev g mcs tids =
     foldE (\<lambda>mc. foldE (defer_task ev g mc) (sort tids)) (sort mcs) ([], [])"

section \<open>The whole\<close>

definition build_scenequeue_data :: "'w exec_env \<Rightarrow> 'w exec \<Rightarrow> 'w exec result" where
  "build_scenequeue_data ev x =
     (let g = x_graph x; setscene = ev_setscene ev; cant = cantskip ev g in
      bindE (collapse_graph (ev_depth ev) setscene g) (\<lambda>cl.
      bindE (unskip_loop setscene (unskippable_start cant g) x) (\<lambda>(unskippable, x).
      let x = x\<lparr>x_scene_done := supdate (x_scene_done x) (sdiff unskippable setscene)\<rparr> in
      bindE (only_scene setscene (cl_squash cl) (dkeys g)) (\<lambda>revdeps.
      bindE (foldE (scene_harddeps ev (x_world x) g) setscene
               (new_sqdata\<lparr>sq_cantskip := cant, sq_unskippable := unskippable, sq_revdeps := revdeps,
                          sq_covered_tasks := cl_collated cl\<rparr>)) (\<lambda>sq.
      bindE (reverse_deps revdeps) (\<lambda>deps.
      let mcs = supdate [] (map mc_from_tid (dkeys revdeps)) in
      bindE (defer_tasks ev g mcs (dkeys revdeps)) (\<lambda>(hashes, deferred).
      Inr (x\<lparr>x_sq := sq\<lparr>sq_deps := deps, sq_multiconfigs := mcs, sq_hashes := hashes\<rparr>,
             x_sq_buildable := supdate (x_sq_buildable x) (map fst (filter (\<lambda>kv. snd kv = []) revdeps)),
             x_deferred := deferred\<rparr>))))))))"

end
