(* ===== verification/Completion.thy ===== *)
theory Completion
  imports SceneBuild
begin

text \<open>
  How a task ends in \<^verbatim>\<open>RunQueueExecute\<close> of \<^verbatim>\<open>bb/runqueue.py\<close>: completed, failed,
  skipped; what a worker reports; and the end of the execution.
\<close>

section \<open>Completed tasks\<close>

text \<open>A task that needed the completed one and has no incomplete dependency left becomes buildable.\<close>

definition wake_revdep :: "string \<Rightarrow> 'w exec \<Rightarrow> 'w exec result" where
  "wake_revdep revdep x =
     (if revdep \<in> set (x_running x) \<or> revdep \<in> set (x_buildable x) then Inr x
      else bindE (dindex (x_graph x) revdep) (\<lambda>e.
           Inr (if set (re_depends e) \<subseteq> set (x_complete x) then setbuildable revdep x else x)))"

text \<open>
  The first setscene task deferred until this one may run now; the others wait for it in turn. The first component is
  the task found.
\<close>

definition release_deferred ::
  "'w exec_env \<Rightarrow> string \<Rightarrow> string \<Rightarrow> string option \<times> 'w exec \<Rightarrow> (string option \<times> 'w exec) result" where
  "release_deferred ev task t = (\<lambda>(found, x).
     bindE (dindex (x_deferred x) t) (\<lambda>d.
     if d \<noteq> task then Inr (found, x)
     else case found of
            None \<Rightarrow> bindE (update_scenequeue_data ev [t] (x\<lparr>x_deferred := ddel t (x_deferred x)\<rparr>)) (\<lambda>x. Inr (Some t, x))
          | Some f \<Rightarrow> Inr (found, x\<lparr>x_deferred := dset t f (x_deferred x)\<rparr>)))"

definition task_completeoutright :: "'w exec_env \<Rightarrow> string \<Rightarrow> 'w exec \<Rightarrow> 'w exec result" where
  "task_completeoutright ev task x =
     bindE (dindex (x_graph x) task) (\<lambda>e.
     bindE (foldE wake_revdep (re_revdeps e) (x\<lparr>x_complete := sadd task (x_complete x)\<rparr>)) (\<lambda>x.
     bindE (foldE (release_deferred ev task) (sort (dkeys (x_deferred x))) (None, x)) (\<lambda>(found, x). Inr x)))"

definition task_complete :: "'w exec_env \<Rightarrow> string \<Rightarrow> 'w exec \<Rightarrow> 'w exec result" where
  "task_complete ev task x =
     bindE (task_completeoutright ev task (emit (TaskCompleted task) (x\<lparr>x_stats := taskCompleted (x_stats x)\<rparr>))) (\<lambda>x.
     Inr (x\<lparr>x_tasksrun := sadd task (x_tasksrun x)\<rparr>))"

definition task_skip :: "'w exec_env \<Rightarrow> string \<Rightarrow> string \<Rightarrow> 'w exec \<Rightarrow> 'w exec result" where
  "task_skip ev task reason x =
     bindE (task_completeoutright ev task
              (emit (TaskSkipped task reason) (setbuildable task (x\<lparr>x_running := sadd task (x_running x)\<rparr>)))) (\<lambda>x.
     Inr (x\<lparr>x_stats := taskCompleted (taskSkipped (x_stats x))\<rparr>))"

section \<open>Failed tasks\<close>

text \<open>
  The end of the log of fakeroot, read backwards up to the last start of its server, is shown when one of its lines
  tells of an error.
\<close>

definition bad_line :: "string \<Rightarrow> bool" where
  "bad_line line \<longleftrightarrow> (\<exists>err \<in> set [''mismatch'', ''error'', ''fatal'']. contains_str err (map lower_char line))"

fun scan_log :: "string list \<Rightarrow> bool \<Rightarrow> string list \<Rightarrow> bool \<times> string list" where
  "scan_log [] failed log = (failed, log)"
| "scan_log (line # lines) failed log =
     (if contains_str ''doing new pid setup and server start'' line then (failed \<or> bad_line line, log)
      else scan_log lines (failed \<or> bad_line line) (log @ [line]))"

definition fakeroot_log :: "string list option \<Rightarrow> string option" where
  "fakeroot_log fakerootlog =
     (case fakerootlog of
        None \<Rightarrow> None
      | Some lines \<Rightarrow>
          let (failed, log) = scan_log (rev lines) False []; text = (if failed then concat log else [])
          in if text = [] then None else Some text)"

text \<open>The argument \<open>fakerootlog\<close> holds the lines of the log file, when there is one.\<close>

definition task_fail :: "'w exec_env \<Rightarrow> string \<Rightarrow> exitcode \<Rightarrow> string list option \<Rightarrow> 'w exec \<Rightarrow> 'w exec" where
  "task_fail ev task exitcode fakerootlog x =
     (let x = emit (TaskFailed task exitcode (fakeroot_log fakerootlog))
                (x\<lparr>x_stats := taskFailed (x_stats x), x_failed := x_failed x @ [task]\<rparr>)
      in if ev_halt ev then x\<lparr>x_state := RqCleanUp\<rparr> else x)"

section \<open>What the workers report\<close>

text \<open>
  The exit of a task with its status and the lines of the log of fakeroot, a new unihash, and the end of the worker
  itself, which is an error that ends the run at once.
\<close>

datatype wevent = WExit string int "string list option" | WUnihash string string | WDied

definition drop_build_stamp :: "string \<Rightarrow> 'w exec \<Rightarrow> 'w exec result" where
  "drop_build_stamp task x =
     (case dget (x_build_stamps x) task of
        None \<Rightarrow> Inr x
      | Some stamp \<Rightarrow>
          if stamp \<in> set (x_build_stamps2 x)
          then Inr (x\<lparr>x_build_stamps2 := remove1 stamp (x_build_stamps2 x),
                      x_build_stamps := ddel task (x_build_stamps x)\<rparr>)
          else Inl ValueError)"

definition runqueue_process_waitpid ::
  "'w exec_env \<Rightarrow> string \<Rightarrow> int \<Rightarrow> string list option \<Rightarrow> 'w exec \<Rightarrow> 'w exec result" where
  "runqueue_process_waitpid ev task status fakerootlog x =
     bindE (drop_build_stamp task x) (\<lambda>x.
     if task \<in> set (x_sq_live x)
     then bindE (if status \<noteq> 0 then sq_task_fail ev task status x else sq_task_complete ev task x) (\<lambda>x.
          let x = x\<lparr>x_sq_live := sdiscard task (x_sq_live x)\<rparr>
          in Inr (x\<lparr>x_stats := updateActiveSetscene (int (length (x_sq_live x))) (x_stats x)\<rparr>))
     else if status \<noteq> 0 then Inr (task_fail ev task (ExitStatus status) fakerootlog x)
     else task_complete ev task x)"

definition finish_now :: "'w exec \<Rightarrow> 'w exec" where
  "finish_now x = x\<lparr>x_state := if x_failed x \<noteq> [] then RqFailed else RqComplete\<rparr>"

fun worker_event :: "'w exec_env \<Rightarrow> wevent \<Rightarrow> 'w exec \<Rightarrow> 'w exec result" where
  "worker_event ev (WExit task status fakerootlog) x = runqueue_process_waitpid ev task status fakerootlog x"
| "worker_event ev (WUnihash tid unihash) x = Inr (x\<lparr>x_updated := x_updated x @ [(tid, unihash)]\<rparr>)"
| "worker_event ev WDied x = Inr (finish_now (emit WorkerDied x))"

definition read_workers :: "'w exec_env \<Rightarrow> wevent list \<Rightarrow> 'w exec \<Rightarrow> 'w exec result" where
  "read_workers ev events x = foldE (worker_event ev) events x"

section \<open>The end\<close>

text \<open>The value a step returns: true, or the descriptors to wait for.\<close>

datatype retval = RTrue | RFds

definition finish :: "'w exec_env \<Rightarrow> wevent list \<Rightarrow> 'w exec \<Rightarrow> (retval \<times> 'w exec) result" where
  "finish ev events x =
     (let x = x\<lparr>x_state := RqCleanUp\<rparr>; active = st_active (x_stats x) + int (length (x_sq_live x))
      in if active > 0
         then bindE (read_workers ev events (emit (ExitWait active) x)) (\<lambda>x. Inr (RFds, x))
         else Inr (RTrue, x\<lparr>x_state := if x_failed x \<noteq> [] then RqFailed else RqComplete\<rparr>))"

text \<open>The checks when the setscene queue is done: whether an error was found.\<close>

definition scene_tid_error :: "string \<Rightarrow> 'w exec \<Rightarrow> bool" where
  "scene_tid_error tid x \<longleftrightarrow>
     (tid \<notin> set (x_sq_covered x) \<and> tid \<notin> set (x_sq_notcovered x)) \<or> tid \<notin> set (x_sq_buildable x) \<or>
     tid \<notin> set (x_sq_running x)"

definition scene_task_error :: "string \<times> runtaskentry \<Rightarrow> 'w exec \<Rightarrow> bool" where
  "scene_task_error kv x \<longleftrightarrow>
     (fst kv \<notin> set (x_tasks_covered x) \<and> fst kv \<notin> set (x_tasks_notcovered x)) \<or> fst kv \<notin> set (x_scene_done x) \<or>
     (re_depends (snd kv) = [] \<and> fst kv \<notin> set (x_buildable x))"

definition summarise_scenequeue_errors :: "'w exec_env \<Rightarrow> 'w exec \<Rightarrow> bool \<times> 'w exec" where
  "summarise_scenequeue_errors ev x =
     (x_deferred x \<noteq> [] \<or> x_updated x \<noteq> [] \<or> x_holdoff x \<noteq> [] \<or>
        (\<exists>tid \<in> set (ev_setscene ev). scene_tid_error tid x) \<or> (\<exists>kv \<in> set (x_graph x). scene_task_error kv x),
      if x_sqdone x then x else emit SceneComplete x)"

end
