(* ===== verification/Migrations.thy ===== *)
theory Migrations
  imports Completion
begin

text \<open>
  \<^verbatim>\<open>process_possible_migrations\<close> of \<^verbatim>\<open>bb/runqueue.py\<close>: new unihashes reported by the
  workers change the hashes of the tasks above them, and setscene tasks whose hash changed are put back into the queue.
\<close>

section \<open>New unihashes\<close>

text \<open>Sets the unihash of a task in the graph and in the signature generator.\<close>

definition assign_unihash :: "'w exec_env \<Rightarrow> string \<Rightarrow> string \<Rightarrow> 'w exec \<Rightarrow> 'w exec result" where
  "assign_unihash ev unihash tid x =
     bindE (dindex (x_graph x) tid) (\<lambda>e.
     Inr (x\<lparr>x_graph := set_unihash tid unihash (x_graph x),
            x_world := wo_set_unihash (ev_ops ev) tid unihash (x_world x)\<rparr>))"

text \<open>
  One report. It stays in the queue while the task runs; the tasks deferred until it get the same unihash.
\<close>

definition take_update :: "'w exec_env \<Rightarrow> string \<times> string \<Rightarrow> string list \<times> 'w exec \<Rightarrow> (string list \<times> 'w exec) result" where
  "take_update ev = (\<lambda>(tid, unihash) (toprocess, x).
     if tid \<in> set (x_running x) \<and> tid \<notin> set (x_complete x) then Inr (toprocess, x)
     else let x = x\<lparr>x_updated := remove1 (tid, unihash) (x_updated x)\<rparr> in
          bindE (dindex (x_graph x) tid) (\<lambda>e.
          if re_unihash e = Some unihash then Inr (toprocess, x)
          else let torehash = tid # map fst (filter (\<lambda>kv. snd kv = tid) (x_deferred x)) in
               bindE (foldE (assign_unihash ev unihash) torehash x) (\<lambda>x.
               Inr (supdate toprocess torehash, x\<lparr>x_world := wo_save_unihashes (ev_ops ev) (x_world x)\<rparr>))))"

section \<open>Hashes that depend on them\<close>

definition revdeps_of_all :: "taskgraph \<Rightarrow> string list \<Rightarrow> string list result" where
  "revdeps_of_all g tids = foldE (\<lambda>t s. bindE (dindex g t) (\<lambda>e. Inr (supdate s (re_revdeps e)))) tids []"

lemma revdeps_of_all_nodes:
  "foldE (\<lambda>t s. bindE (dindex g t) (\<lambda>e. Inr (supdate s (re_revdeps e)))) tids s = Inr s' \<Longrightarrow> set tids \<subseteq> nodes g"
  by (induction tids arbitrary: s) (auto simp: bindE_eq_Inr dindex_eq_Inr nodes_has dhas_iff)

text \<open>All tasks that depend on the given ones, in several steps.\<close>

function revdep_closure :: "taskgraph \<Rightarrow> string list \<Rightarrow> string list \<Rightarrow> string list result" where
  "revdep_closure g front all =
     (if front = [] then Inr all
      else case revdeps_of_all g front of
             Inl e \<Rightarrow> Inl e
           | Inr revs \<Rightarrow> revdep_closure g (sdiff revs (supdate all front)) (supdate all front))"
  by pat_completeness auto
termination
proof (relation "inv_image (less_than <*lex*> less_than) front_measure", goal_cases)
  case 1
  show ?case by auto
next
  case (2 g front all revs)
  from revdeps_of_all_nodes [OF 2(2) [unfolded revdeps_of_all_def]] have "set front \<subseteq> nodes g" .
  from front_less [OF 2(1) this, of "supdate all front" all "sdiff revs (supdate all front)"] show ?case by simp
qed

declare revdep_closure.simps [simp del]

text \<open>
  The tasks of a round whose dependencies were all handled get new hashes. The condition first looks at the dependencies
  of \<open>lastp\<close>, the last task another loop went over, and only then at those of the task itself.
\<close>

definition rehash_ready ::
  "'w exec_env \<Rightarrow> string list \<Rightarrow> string list \<Rightarrow> string \<Rightarrow> (string \<times> string) list \<times> 'w exec \<Rightarrow>
    ((string \<times> string) list \<times> 'w exec) result" where
  "rehash_ready ev lastdeps left tid = (\<lambda>(ready, x).
     bindE (dindex (x_graph x) tid) (\<lambda>e.
     if lastdeps \<noteq> [] \<and> set (re_depends e) \<inter> set left \<noteq> {} then Inr (ready, x)
     else let r = sg_taskhash (wo_siggen (ev_ops ev)) (x_world x) tid (re_depends e)
          in Inr (ready @ [(tid, fst r)], x\<lparr>x_world := snd r\<rparr>)))"

text \<open>
  A task that came from the shared state, or is coming, keeps its hash; the difference is reported.
\<close>

definition rehash_task ::
  "'w exec_env \<Rightarrow> (string \<Rightarrow> string) \<Rightarrow> string \<times> string \<Rightarrow> string list \<times> string list \<times> string list \<times> 'w exec \<Rightarrow>
    (string list \<times> string list \<times> string list \<times> 'w exec) result" where
  "rehash_task ev unihashes = (\<lambda>(tid, newhash) (nxt, left, changed, x).
     bindE (dindex (x_graph x) tid) (\<lambda>e.
     let newuni = unihashes tid;
         (changed, x) =
           (if re_unihash e = Some newuni then (changed, x)
            else if tid \<in> set (x_sq_covered x) \<or> tid \<in> set (x_sq_live x)
            then (changed, x\<lparr>x_world := wo_report_unihash (ev_ops ev) tid newhash (re_unihash e) newuni (x_world x)\<rparr>)
            else (sadd tid changed, x\<lparr>x_graph := set_unihash tid newuni (set_hash tid newhash (x_graph x))\<rparr>))
     in if tid \<notin> set left then Inl (KeyError tid)
        else Inr (sinter (supdate nxt (re_revdeps e)) (sdiscard tid left), sdiscard tid left, changed, x)))"

definition rehash_round ::
  "'w exec_env \<Rightarrow> string list \<Rightarrow> string list \<Rightarrow> string list \<Rightarrow> string list \<Rightarrow> 'w exec \<Rightarrow>
    (string list \<times> string list \<times> string list \<times> 'w exec) result" where
  "rehash_round ev lastdeps current left changed x =
     bindE (foldE (rehash_ready ev lastdeps left) current ([], x)) (\<lambda>(ready, x).
     let u = sg_unihashes (wo_siggen (ev_ops ev)) (x_world x) (map fst ready)
     in foldE (rehash_task ev (fst u)) ready ([], left, changed, x\<lparr>x_world := snd u\<rparr>))"

lemma length_sdiscard: "x \<in> set xs \<Longrightarrow> length (sdiscard x xs) < length xs"
  unfolding sdiscard_def by (rule length_filter_less [where x = x]) simp_all

lemma rehash_fold_length:
  "foldE (rehash_task ev u) ready (nxt, left, changed, x) = Inr (nxt', left', changed', x') \<Longrightarrow>
    length left' + length ready \<le> length left \<and> (ready = [] \<longrightarrow> nxt' = nxt)"
proof (induction ready arbitrary: nxt left changed x)
  case (Cons r ready)
  obtain tid h where r: "r = (tid, h)" by (cases r)
  from Cons.prems obtain n l c y where s: "rehash_task ev u r (nxt, left, changed, x) = Inr (n, l, c, y)"
    "foldE (rehash_task ev u) ready (n, l, c, y) = Inr (nxt', left', changed', x')" by (auto simp: bindE_eq_Inr)
  from s(1) have "tid \<in> set left" "l = sdiscard tid left"
    by (auto simp: r rehash_task_def bindE_eq_Inr Let_def split: if_splits)
  then have "length l < length left" by (simp add: length_sdiscard)
  with Cons.IH [OF s(2)] show ?case by auto
qed simp

text \<open>Every round handles a task or is the last one.\<close>

function rehash_loop ::
  "'w exec_env \<Rightarrow> string list \<Rightarrow> string list \<Rightarrow> string list \<Rightarrow> string list \<Rightarrow> 'w exec \<Rightarrow> (string list \<times> 'w exec) result" where
  "rehash_loop ev lastdeps current left changed x =
     (if current = [] then Inr (changed, x)
      else case rehash_round ev lastdeps current left changed x of
             Inl e \<Rightarrow> Inl e
           | Inr r \<Rightarrow> rehash_loop ev lastdeps (fst r) (fst (snd r)) (fst (snd (snd r))) (snd (snd (snd r))))"
  by pat_completeness auto
termination
proof (relation "inv_image (less_than <*lex*> less_than) (\<lambda>(ev, lastdeps, current, left, changed, x).
    (length left, length current))", goal_cases)
  case 1
  show ?case by auto
next
  case (2 ev lastdeps current left changed x r)
  obtain n l c y where r: "r = (n, l, c, y)" by (cases r) auto
  from 2(2) obtain ready z u where "foldE (rehash_task ev u) ready ([], left, changed, z) = Inr (n, l, c, y)"
    by (auto simp: rehash_round_def bindE_eq_Inr r Let_def)
  from rehash_fold_length [OF this] 2(1) have "length l < length left \<or> length l \<le> length left \<and> n = []"
    by (cases ready) auto
  with 2(1) show ?case by (auto simp: r)
qed

declare rehash_loop.simps [simp del]

text \<open>The first tasks to be handled have no dependency among the changed ones.\<close>

definition rehash :: "'w exec_env \<Rightarrow> string list \<Rightarrow> 'w exec \<Rightarrow> (string list \<times> 'w exec) result" where
  "rehash ev toprocess x =
     bindE (revdeps_of_all (x_graph x) toprocess) (\<lambda>front.
     bindE (revdep_closure (x_graph x) front []) (\<lambda>all.
     bindE (foldE (\<lambda>p first. bindE (dindex (x_graph x) p) (\<lambda>e.
               Inr (if set (re_depends e) \<inter> set all = {} then first @ [p] else first))) all []) (\<lambda>first.
     rehash_loop ev (if all = [] then [] else deps_of (x_graph x) (last all)) first all [] x)))"

section \<open>Setscene tasks that go back into the queue\<close>

text \<open>
  The covered tasks of a migrated task are not done any more; a task that was skipped and would have to run now ends the
  build. The flag tells whether the loop was left.
\<close>

definition reopen_task :: "string \<Rightarrow> string \<Rightarrow> bool \<times> 'w exec \<Rightarrow> bool \<times> 'w exec" where
  "reopen_task tid dep = (\<lambda>(stop, x).
     if stop then (stop, x)
     else if dep \<in> set (x_complete x) \<and> dep \<notin> set (x_tasksrun x)
     then (True, x\<lparr>x_failed := x_failed x @ [tid], x_state := RqCleanUp\<rparr>)
     else (False, if dep \<notin> set (x_complete x) \<and> dep \<in> set (x_scene_done x) \<and> dep \<notin> set (sq_unskippable (x_sq x))
                  then x\<lparr>x_scene_done := sdiscard dep (x_scene_done x)\<rparr> else x))"

definition forget_task :: "'w exec_env \<Rightarrow> string \<Rightarrow> 'w exec \<Rightarrow> 'w exec result" where
  "forget_task ev tid x =
     bindE (split_tid_mcfn tid) (\<lambda>(mc, fn, taskname, taskfn).
     Inr (x\<lparr>x_sq_buildable := sdiscard tid (x_sq_buildable x), x_sq_running := sdiscard tid (x_sq_running x),
            x_sq_notcovered := sdiscard tid (x_sq_notcovered x), x_sq_covered := sdiscard tid (x_sq_covered x),
            x_sq_notneeded := sdiscard tid (x_sq_notneeded x),
            x_sq := (x_sq x)\<lparr>sq_outrightfail := sdiscard tid (sq_outrightfail (x_sq x)),
                     sq_stamps := dset tid (wo_stampfile (ev_ops ev) (x_world x) taskname taskfn False)
                                       (sq_stamps (x_sq x))\<rparr>,
            x_stampcache := ddel tid (x_stampcache x), x_build_stamps := ddel tid (x_build_stamps x)\<rparr>))"

record 'w migration =
  mi_stop :: bool
  mi_changed :: bool
  mi_tasks :: "string list"
  mi_exec :: "'w exec"

definition migrate_task :: "'w exec_env \<Rightarrow> string \<Rightarrow> 'w migration \<Rightarrow> 'w migration result" where
  "migrate_task ev tid m =
     (let x = mi_exec m; drop = x\<lparr>x_migrations := sdiscard tid (x_migrations x)\<rparr> in
      if mi_stop m then Inr m
      else if tid \<in> set (x_running x) \<or> tid \<in> set (x_sq_live x) then Inr (m\<lparr>mi_exec := drop\<rparr>)
      else bindE (dindex (sq_covered_tasks (x_sq x)) tid) (\<lambda>covers.
           if \<exists>dep \<in> set covers. dep \<in> set (x_running x) \<and> dep \<notin> set (x_complete x) then Inr m
           else let (stop, x) = fold (reopen_task tid) covers
                                  (False, drop\<lparr>x_scene_done := sdiscard tid (x_scene_done drop)\<rparr>)
                in if stop then Inr (m\<lparr>mi_stop := True, mi_changed := True, mi_exec := x\<rparr>)
                   else bindE (forget_task ev tid x) (\<lambda>x.
                        Inr (m\<lparr>mi_changed := True, mi_tasks := mi_tasks m @ [tid], mi_exec := x\<rparr>))))"

text \<open>Whether the task has an unavailable hard dependency, and whether its hash was valid before.\<close>

definition requeue_task ::
  "string \<Rightarrow> (string \<times> bool \<times> bool) list \<times> 'w exec \<Rightarrow> ((string \<times> bool \<times> bool) list \<times> 'w exec) result" where
  "requeue_task tid = (\<lambda>(tasks, x).
     bindE (dindex (sq_harddeps_rev (x_sq x)) tid) (\<lambda>hard.
     let harddepfail = (\<exists>t \<in> set hard. t \<in> set (x_sq_notcovered x)) in
     bindE (dindex (sq_revdeps (x_sq x)) tid) (\<lambda>revs.
     let x = (if (\<not> harddepfail \<and> set revs \<subseteq> set (x_sq_covered x) \<union> set (x_sq_notcovered x)) \<or> revs = []
              then x\<lparr>x_sq_buildable := sadd tid (x_sq_buildable x)\<rparr> else x)
     in Inr (tasks @ [(tid, harddepfail, tid \<in> set (sq_valid (x_sq x)))], x))))"

definition defer_again :: "'w exec_env \<Rightarrow> string \<Rightarrow> string \<Rightarrow> 'w exec \<Rightarrow> 'w exec result" where
  "defer_again ev mc tid x =
     (if mc_from_tid tid \<noteq> mc then Inr x
      else bindE (pending_hash ev (x_graph x) tid) (\<lambda>h.
           Inr (case dget (sq_hashes (x_sq x)) h of
                  None \<Rightarrow> x
                | Some t \<Rightarrow> if tid \<noteq> t then x\<lparr>x_deferred := dset tid t (x_deferred x)\<rparr> else x)))"

definition requeue :: "'w exec_env \<Rightarrow> (string \<times> bool \<times> bool) list \<Rightarrow> 'w exec \<Rightarrow> 'w exec result" where
  "requeue ev tasks x =
     (if tasks = [] then Inr x
      else bindE (foldE (\<lambda>mc. foldE (defer_again ev mc) (sort (map fst tasks)))
                    (sort (sq_multiconfigs (x_sq x))) (x\<lparr>x_sqdone := False\<rparr>))
             (update_scenequeue_data ev (map fst tasks)))"

definition migrate :: "'w exec_env \<Rightarrow> bool \<Rightarrow> 'w exec \<Rightarrow> 'w exec result" where
  "migrate ev changed x =
     bindE (foldE (migrate_task ev) (x_migrations x)
              \<lparr>mi_stop = False, mi_changed = changed, mi_tasks = [], mi_exec = x\<rparr>) (\<lambda>m.
     if mi_stop m then Inr (mi_exec m)
     else bindE (foldE requeue_task (mi_tasks m) ([], mi_exec m)) (\<lambda>(tasks, x).
          bindE (requeue ev tasks x) (\<lambda>x.
          bindE (foldE (\<lambda>(tid, harddepfail, _) x. if harddepfail then sq_task_failoutright ev tid x else Inr x)
                   tasks x) (\<lambda>x.
          Inr (if mi_changed m
               then (update_covered x)\<lparr>x_needed_harddeps := [], x_harddep_deferred := [], x_holdoff_stale := True\<rparr>
               else x)))))"

definition process_possible_migrations :: "'w exec_env \<Rightarrow> 'w exec \<Rightarrow> 'w exec result" where
  "process_possible_migrations ev x =
     bindE (foldE (take_update ev) (x_updated x) ([], x)) (\<lambda>(toprocess, x).
     bindE (rehash ev toprocess x) (\<lambda>(changed, x).
     let x = (if changed = [] then x else emit SentHashes x)
     in migrate ev (changed \<noteq> [])
          (x\<lparr>x_migrations := supdate (x_migrations x) (sinter changed (ev_setscene ev))\<rparr>)))"

end
