(* ===== verification/Execute.thy ===== *)
theory Execute
  imports Migrations
begin

text \<open>
  \<^verbatim>\<open>RunQueueExecute.execute\<close> of \<^verbatim>\<open>bb/runqueue.py\<close>, the start of the execution and the
  steps of the state machine around it in \<^verbatim>\<open>RunQueue._execute_runqueue\<close>.
\<close>

section \<open>Control flow\<close>

text \<open>A piece of \<^verbatim>\<open>execute\<close> that may return from the method.\<close>

datatype 'x flow = Stop retval 'x | Go 'x

definition bindF :: "'x flow result \<Rightarrow> ('x \<Rightarrow> 'x flow result) \<Rightarrow> 'x flow result" where
  "bindF m f = bindE m (\<lambda>r. case r of Stop v x \<Rightarrow> Inr (Stop v x) | Go x \<Rightarrow> f x)"

text \<open>The result of the search for a setscene task: the method returns, a task is found, none is.\<close>

datatype 'x found = FReturn 'x | FTask string 'x | FNone 'x

section \<open>The next setscene task\<close>

definition next_setscene :: "'w exec_env \<Rightarrow> 'w exec \<Rightarrow> string \<times> 'w exec" where
  "next_setscene ev x =
     (ev_setscene ev ! (x_cycle x mod length (ev_setscene ev)), x\<lparr>x_cycle := Suc (x_cycle x)\<rparr>)"

text \<open>Whether a task is worth a look: buildable, not running, its stamp not in use, not waiting for another one.\<close>

definition scene_candidate :: "string \<Rightarrow> 'w exec \<Rightarrow> bool result" where
  "scene_candidate t x =
     (if t \<notin> set (x_sq_buildable x) \<or> t \<in> set (x_sq_running x) then Inr False
      else bindE (dindex (sq_stamps (x_sq x)) t) (\<lambda>stamp.
           Inr (stamp \<notin> snd ` set (x_build_stamps x) \<and> t \<notin> set (x_harddep_deferred x) \<and>
                (case dget (x_deferred x) t of None \<Rightarrow> True | Some d \<Rightarrow> d \<in> set (x_complete x)))))"

text \<open>Everything that needs the task is covered and the hook says that it is not needed.\<close>

definition scene_unneeded :: "'w exec_env \<Rightarrow> string \<Rightarrow> 'w exec \<Rightarrow> bool result" where
  "scene_unneeded ev t x =
     (if t \<in> set (sq_unskippable (x_sq x)) then Inr False
      else bindE (dindex (sq_revdeps (x_sq x)) t) (\<lambda>revs.
           if revs \<noteq> [] \<and> t \<notin> set (x_needed_harddeps x) \<and> set revs \<subseteq> set (x_sq_covered x)
           then bindE (check_dependencies ev t revs x) (\<lambda>b. Inr (b \<and> t \<notin> set (ev_targets ev)))
           else Inr False))"

definition drop_deferred :: "string \<Rightarrow> 'w exec \<Rightarrow> 'w exec" where
  "drop_deferred t x = x\<lparr>x_deferred := ddel t (x_deferred x)\<rparr>"

text \<open>Hard dependencies that are not dealt with: enabled first, and the task waits for them.\<close>

definition open_harddeps :: "string \<Rightarrow> 'w exec \<Rightarrow> string list" where
  "open_harddeps t x =
     (case dget (sq_harddeps_rev (x_sq x)) t of
        None \<Rightarrow> []
      | Some deps \<Rightarrow> if set deps \<subseteq> set (x_sq_covered x) \<union> set (x_sq_notcovered x) then [] else deps)"

definition enable_harddeps :: "string list \<Rightarrow> string \<Rightarrow> 'w exec \<Rightarrow> 'w exec found" where
  "enable_harddeps deps t x =
     (let new = sdiff deps (x_needed_harddeps x);
          x = x\<lparr>x_sq_buildable := supdate (x_sq_buildable x) new, x_needed_harddeps := supdate (x_needed_harddeps x) new,
                x_harddep_deferred := sadd t (x_harddep_deferred x)\<rparr>
      in if new \<noteq> [] then FReturn x else FNone x)"

text \<open>A task that was deferred needs a valid hash by now.\<close>

definition scene_ready :: "'w exec_env \<Rightarrow> string \<Rightarrow> 'w exec \<Rightarrow> 'w exec found result" where
  "scene_ready ev t x =
     bindE (dindex (sq_covered_tasks (x_sq x)) t) (\<lambda>_.
     bindE (if dhas (x_deferred x) t
            then bindE (validate_hashes ev [t] (drop_deferred t x)) (\<lambda>valid. Inr (valid \<noteq> []))
            else Inr True) (\<lambda>valid.
     let x = drop_deferred t x
     in if \<not> valid \<or> t \<in> set (sq_outrightfail (x_sq x))
        then bindE (sq_task_failoutright ev t x) (\<lambda>x. Inr (FReturn x))
        else Inr (FTask t x)))"

definition scene_try :: "'w exec_env \<Rightarrow> string \<Rightarrow> 'w exec \<Rightarrow> 'w exec found result" where
  "scene_try ev t x =
     bindE (scene_candidate t x) (\<lambda>candidate.
     if \<not> candidate then Inr (FNone x)
     else bindE (scene_unneeded ev t x) (\<lambda>unneeded.
          if unneeded
          then bindE (sq_task_skip ev t x) (\<lambda>x.
               Inr (FReturn (drop_deferred t (x\<lparr>x_sq_notneeded := sadd t (x_sq_notneeded x)\<rparr>))))
          else if open_harddeps t x \<noteq> [] then Inr (enable_harddeps (open_harddeps t x) t x)
          else scene_ready ev t x))"

text \<open>At most one look at every setscene task, from where the last search ended.\<close>

fun scene_search :: "'w exec_env \<Rightarrow> nat \<Rightarrow> 'w exec \<Rightarrow> 'w exec found result" where
  "scene_search ev 0 x = Inr (FNone x)"
| "scene_search ev (Suc k) x =
     bindE (scene_try ev (fst (next_setscene ev x)) (snd (next_setscene ev x))) (\<lambda>r.
     case r of FNone x \<Rightarrow> scene_search ev k x | FReturn x \<Rightarrow> Inr (FReturn x) | FTask t x \<Rightarrow> Inr (FTask t x))"

section \<open>Starting a task\<close>

text \<open>What the worker is told of the task.\<close>

definition make_runtask :: "'w exec_env \<Rightarrow> string \<Rightarrow> string \<Rightarrow> bool \<Rightarrow> bool \<Rightarrow> 'w exec \<Rightarrow> runtask result" where
  "make_runtask ev task taskname quieterrors dry_run x =
     bindE (task_info (ev_caches ev) task) (\<lambda>(mc, fn, _, taskfn, c).
     bindE (get_task_hash (x_graph x) task) (\<lambda>h.
     bindE (get_task_unihash (x_graph x) task) (\<lambda>u.
     bindE (dindex (dc_fakerootenv c) taskfn) (\<lambda>env.
     bindE (dindex (dc_fakerootdirs c) taskfn) (\<lambda>dirs.
     bindE (dindex (dc_fakerootnoenv c) taskfn) (\<lambda>noenv.
     Inr \<lparr>rt_fn = taskfn, rt_task = task, rt_taskname = taskname, rt_taskhash = h, rt_unihash = u,
          rt_quieterrors = quieterrors, rt_dry_run = dry_run, rt_fakerootenv = env, rt_fakerootdirs = dirs,
          rt_fakerootnoenv = noenv\<rparr>))))))"

text \<open>
  Sends a task to the worker, under fakeroot where its flag says so. \<open>None\<close> is a worker that could not be
  started.
\<close>

definition send_task :: "'w exec_env \<Rightarrow> string \<Rightarrow> bool \<Rightarrow> runtask \<Rightarrow> 'w exec \<Rightarrow> 'w exec option" where
  "send_task ev mc fakeroot msg x =
     (if \<not> fakeroot then Some (emit (SentTask False mc msg) x)
      else if mc \<in> set (x_fakeworkers x) then Some (emit (SentTask True mc msg) x)
      else if wo_spawn (ev_ops ev) (x_world x) mc
      then Some (emit (SentTask True mc msg) (x\<lparr>x_fakeworkers := sadd mc (x_fakeworkers x)\<rparr>))
      else None)"

definition note_stamp :: "'w exec_env \<Rightarrow> string \<Rightarrow> string \<Rightarrow> string \<Rightarrow> 'w exec \<Rightarrow> 'w exec" where
  "note_stamp ev task taskname taskfn x =
     (let stamp = wo_stampfile (ev_ops ev) (x_world x) taskname taskfn False
      in x\<lparr>x_build_stamps := dset task stamp (x_build_stamps x), x_build_stamps2 := x_build_stamps2 x @ [stamp]\<rparr>)"

definition scene_send :: "'w exec_env \<Rightarrow> string \<Rightarrow> 'w exec \<Rightarrow> 'w exec flow result" where
  "scene_send ev task x =
     bindE (task_info (ev_caches ev) task) (\<lambda>(mc, fn, taskname, taskfn, c).
     let taskname = taskname @ ''_setscene''; x = emit (SceneStarted task) x in
     bindE (has_flag c taskfn ''fakeroot'' taskname) (\<lambda>fakeroot.
     bindE (make_runtask ev task taskname True False x) (\<lambda>msg.
     case send_task ev mc (fakeroot \<and> \<not> ev_dry_run ev) msg x of
       None \<Rightarrow> Inl OSError
     | Some x \<Rightarrow>
         let x = note_stamp ev task taskname taskfn x;
             x = x\<lparr>x_sq_running := sadd task (x_sq_running x), x_sq_live := sadd task (x_sq_live x)\<rparr>;
             x = x\<lparr>x_stats := updateActiveSetscene (int (length (x_sq_live x))) (x_stats x)\<rparr>
         in Inr (if can_start_task ev x then Stop RTrue x else Go x))))"

definition scene_start :: "'w exec_env \<Rightarrow> string \<Rightarrow> 'w exec \<Rightarrow> 'w exec flow result" where
  "scene_start ev task x =
     bindE (taskname_from_tid task) (\<lambda>name.
     bindE (stamp_current ev task name True x) (\<lambda>(current, x).
     if current \<or> (ev_force ev \<and> task \<in> set (ev_targets ev))
     then bindE (sq_task_failoutright ev task x) (\<lambda>x. Inr (Stop RTrue x))
     else bindE (split_tid_mcfn task) (\<lambda>(mc, fn, taskname, taskfn).
          bindE (stamp_current ev task (taskname @ ''_setscene'') False x) (\<lambda>(current, x).
          if current then bindE (sq_task_skip ev task x) (\<lambda>x. Inr (Stop RTrue x))
          else if ev_skipsetscene ev then bindE (sq_task_failoutright ev task x) (\<lambda>x. Inr (Stop RTrue x))
          else scene_send ev task x))))"

definition scene_part :: "'w exec_env \<Rightarrow> 'w exec \<Rightarrow> 'w exec flow result" where
  "scene_part ev x =
     (if x_sqdone x \<or> \<not> can_start_task ev x then Inr (Go x)
      else bindE (scene_search ev (length (ev_setscene ev)) x) (\<lambda>r.
           case r of FReturn x \<Rightarrow> Inr (Stop RTrue x) | FNone x \<Rightarrow> Inr (Go x) | FTask t x \<Rightarrow> scene_start ev t x))"

text \<open>The end of the setscene tasks, once nothing is left to wait for.\<close>

definition scene_finished :: "'w exec_env \<Rightarrow> 'w exec \<Rightarrow> 'w exec flow" where
  "scene_finished ev x =
     (if x_sq_live x \<noteq> [] \<or> x_sqdone x \<or> x_deferred x \<noteq> [] \<or> x_updated x \<noteq> [] \<or> x_holdoff x \<noteq> [] then Go x
      else let (err, x) = summarise_scenequeue_errors ev x
           in if err then Stop RTrue (x\<lparr>x_state := RqFailed\<rparr>)
              else if ev_setsceneonly ev then Stop RTrue (x\<lparr>x_state := RqComplete\<rparr>)
              else if st_total (x_stats x) = 0 then Stop RTrue (x\<lparr>x_sqdone := True, x_state := RqComplete\<rparr>)
              else Go (x\<lparr>x_sqdone := True\<rparr>))"

section \<open>The next task\<close>

definition view :: "'w exec_env \<Rightarrow> 'w exec \<Rightarrow> rqview" where
  "view ev x =
     \<lparr>rv_runtasks = dkeys (x_graph x), rv_running = x_running x, rv_complete = x_complete x, rv_holdoff = x_holdoff x,
      rv_covered = x_tasks_covered x, rv_notcovered = x_tasks_notcovered x,
      rv_build_stamps = map snd (x_build_stamps x), rv_active = st_active (x_stats x),
      rv_number_threads = ev_number_threads ev, rv_pressure = wo_pressure (ev_ops ev) (x_world x),
      rv_can_start = can_start_task ev x\<rparr>"

definition choose_task :: "'w exec_env \<Rightarrow> 'w exec \<Rightarrow> (string option \<times> 'w exec) result" where
  "choose_task ev x =
     (if ev_setsceneonly ev then Inr (None, x)
      else let r = next_task (view ev x) (x_sched x)
           in bindE (fst r) (\<lambda>task. Inr (task, x\<lparr>x_sched := snd r\<rparr>)))"

text \<open>A task that has nothing to execute is complete at once.\<close>

definition run_noexec :: "'w exec_env \<Rightarrow> string \<Rightarrow> string \<Rightarrow> string \<Rightarrow> 'w exec \<Rightarrow> 'w exec flow result" where
  "run_noexec ev task taskname taskfn x =
     (let x = emit (TaskStarted task True) x;
          x = x\<lparr>x_running := sadd task (x_running x), x_stats := taskActive (x_stats x)\<rparr>;
          x = (if ev_dry_run ev \<or> ev_enforce ev then x
               else x\<lparr>x_world := wo_make_stamp (ev_ops ev) taskname taskfn (x_world x)\<rparr>)
      in bindE (task_complete ev task x) (\<lambda>x. Inr (Stop RTrue x)))"

definition run_task :: "'w exec_env \<Rightarrow> string \<Rightarrow> 'w exec \<Rightarrow> 'w exec flow result" where
  "run_task ev task x =
     bindE (task_info (ev_caches ev) task) (\<lambda>(mc, fn, taskname, taskfn, c).
     let x = emit (TaskStarted task False) x in
     bindE (has_flag c taskfn ''fakeroot'' taskname) (\<lambda>fakeroot.
     bindE (make_runtask ev task taskname False (ev_enforce ev) x) (\<lambda>msg.
     case send_task ev mc (fakeroot \<and> \<not> (ev_dry_run ev \<or> ev_enforce ev)) msg x of
       None \<Rightarrow> Inr (Stop RTrue (x\<lparr>x_state := RqFailed, x_stats := taskFailed (x_stats x)\<rparr>))
     | Some x \<Rightarrow>
         let x = note_stamp ev task taskname taskfn x;
             x = x\<lparr>x_running := sadd task (x_running x), x_stats := taskActive (x_stats x)\<rparr>
         in Inr (if can_start_task ev x then Stop RTrue x else Go x))))"

definition start_task :: "'w exec_env \<Rightarrow> string \<Rightarrow> 'w exec \<Rightarrow> 'w exec flow result" where
  "start_task ev task x =
     bindE (split_tid_mcfn task) (\<lambda>(mc, fn, taskname, taskfn).
     bindE (if ev_ignore_tasks ev = None then Inr (False, x) else check_setscene_ignore_tasks ev task x) (\<lambda>(refused, x).
     if refused then Inr (Stop RTrue (task_fail ev task IgnoreTasks None x))
     else if task \<in> set (x_tasks_covered x)
     then bindE (task_skip ev task ''covered'' x) (\<lambda>x. Inr (Stop RTrue x))
     else bindE (stamp_current ev task taskname False x) (\<lambda>(current, x).
          if current
          then bindE (task_skip ev task ''existing'' x) (\<lambda>x.
               Inr (Stop RTrue (x\<lparr>x_tasksrun := sadd task (x_tasksrun x)\<rparr>)))
          else bindE (dindex (ev_caches ev) mc) (\<lambda>c.
               bindE (has_flag c taskfn ''noexec'' taskname) (\<lambda>noexec.
               if noexec then run_noexec ev task taskname taskfn x else run_task ev task x)))))"

definition task_part :: "'w exec_env \<Rightarrow> 'w exec \<Rightarrow> 'w exec flow result" where
  "task_part ev x =
     bindE (choose_task ev x) (\<lambda>(task, x). case task of None \<Rightarrow> Inr (Go x) | Some t \<Rightarrow> start_task ev t x)"

section \<open>One call of execute\<close>

text \<open>
  The last part: wait for the workers, break a deadlock of deferred tasks, or end with the checks of all tasks.
\<close>

definition task_error :: "'w exec \<Rightarrow> string \<Rightarrow> bool" where
  "task_error x task \<longleftrightarrow> task \<notin> set (x_buildable x) \<or> task \<notin> set (x_running x) \<or> task \<notin> set (x_complete x)"

definition last_part :: "'w exec_env \<Rightarrow> wevent list \<Rightarrow> 'w exec \<Rightarrow> (retval \<times> 'w exec) result" where
  "last_part ev events x =
     (if st_active (x_stats x) > 0 \<or> x_sq_live x \<noteq> [] then bindE (read_workers ev events x) (\<lambda>x. Inr (RFds, x))
      else case x_deferred x of
             _ # ds \<Rightarrow> Inr (RTrue, x\<lparr>x_deferred := ds\<rparr>)
           | [] \<Rightarrow>
               if x_failed x \<noteq> [] then Inr (RTrue, x\<lparr>x_state := RqFailed\<rparr>)
               else let (err, x) = summarise_scenequeue_errors ev x
                    in Inr (RTrue, x\<lparr>x_state := if err \<or> (\<exists>t \<in> set (dkeys (x_graph x)). task_error x t)
                                               then RqFailed else RqComplete\<rparr>))"

text \<open>\<open>events\<close> is what the workers have sent at the first reading, \<open>events'\<close> at the last one.\<close>

definition execute :: "'w exec_env \<Rightarrow> wevent list \<Rightarrow> wevent list \<Rightarrow> 'w exec \<Rightarrow> (retval \<times> 'w exec) result" where
  "execute ev events events' x =
     bindE (read_workers ev events x) (\<lambda>x.
     bindE (if x_updated x \<noteq> [] \<or> x_migrations x \<noteq> [] then process_possible_migrations ev x else Inr x) (\<lambda>x.
     bindE (bindF (scene_part ev x) (\<lambda>x.
            bindE (update_holdofftasks ev x) (\<lambda>x.
            bindF (Inr (scene_finished ev x)) (task_part ev)))) (\<lambda>r.
     case r of Stop v x \<Rightarrow> Inr (v, x) | Go x \<Rightarrow> last_part ev events' x)))"

section \<open>The start\<close>

text \<open>The scheduler named by \<^verbatim>\<open>BB_SCHEDULER\<close>, among those of the module.\<close>

definition new_scheduler :: "'w exec_env \<Rightarrow> 'w \<Rightarrow> taskgraph \<Rightarrow> scheduler result" where
  "new_scheduler ev w g =
     (let tids = dkeys g; weight = (\<lambda>t. re_weight (dget_default g t new_entry));
          stamp = (\<lambda>tid. bindE (split_tid_mcfn tid) (\<lambda>(mc, fn, taskname, taskfn).
             Inr (wo_stampfile (ev_ops ev) w taskname taskfn False)))
      in bindE (if ev_scheduler ev = ''basic'' then Inr (basic_prio_map tids)
                else if ev_scheduler ev = ''speed'' then Inr (map PTask (speed_prio_map weight tids))
                else if ev_scheduler ev = ''completion''
                then bindE (completion_prio_map weight tids) (\<lambda>m. Inr (map PTask m))
                else Inl (BBFatal (ev_scheduler ev))) (\<lambda>m.
         bindE (foldE (\<lambda>tid d. bindE (stamp tid) (\<lambda>s. Inr (dset tid s d))) tids []) (\<lambda>stamps.
         Inr (scheduler_init m (\<lambda>tid. dget_default stamps tid []) tids []))))"

definition new_exec :: "'w exec_env \<Rightarrow> taskgraph \<Rightarrow> 'w \<Rightarrow> scheduler \<Rightarrow> 'w exec" where
  "new_exec ev g w sched =
     \<lparr>x_state = RqSceneInit, x_graph = g, x_sq_buildable = [], x_sq_running = [], x_sq_live = [], x_updated = [],
      x_migrations = [], x_buildable = [], x_running = [], x_complete = [], x_tasksrun = [], x_build_stamps = [],
      x_build_stamps2 = [], x_failed = [], x_deferred = [], x_needed_harddeps = [], x_harddep_deferred = [],
      x_stampcache = [], x_holdoff = [], x_holdoff_stale = True, x_sqdone = False,
      x_stats = stats_init (int (length g)) (int (length (ev_setscene ev))), x_sq_covered = [], x_sq_notcovered = [],
      x_sq_notneeded = [], x_tasks_covered = [], x_tasks_notcovered = [], x_scene_done = [], x_sched = sched,
      x_sq = new_sqdata, x_cycle = 0, x_fakeworkers = [], x_trace = [], x_world = w\<rparr>"

text \<open>\<^verbatim>\<open>RunQueueExecute.__init__\<close>, without the limits on the pressure.\<close>

definition exec_init :: "'w exec_env \<Rightarrow> taskgraph \<Rightarrow> 'w \<Rightarrow> 'w exec result" where
  "exec_init ev g w =
     (if ev_number_tasks ev \<le> 0 then Inl (BBFatal ''BB_NUMBER_THREADS'')
      else bindE (new_scheduler ev w g) (\<lambda>sched.
           bindE (build_scenequeue_data ev (new_exec ev g w sched)) (\<lambda>x.
           update_scenequeue_data ev (dkeys (sq_revdeps (x_sq x))) x)))"

text \<open>The end of the state \<^verbatim>\<open>runQueueSceneInit\<close>.\<close>

definition start_running :: "'w exec_env \<Rightarrow> 'w exec \<Rightarrow> 'w exec" where
  "start_running ev x =
     (let x = (if ev_setscene ev \<noteq> [] then x
               else (fold (\<lambda>kv x. let x = (if re_depends (snd kv) = [] then setbuildable (fst kv) x else x)
                              in x\<lparr>x_tasks_notcovered := sadd (fst kv) (x_tasks_notcovered x)\<rparr>) (x_graph x) x)
                    \<lparr>x_sqdone := True\<rparr>)
      in x\<lparr>x_state := RqRunning\<rparr>)"

section \<open>The state machine\<close>

text \<open>What a call of \<^verbatim>\<open>_execute_runqueue\<close> gives: call again, done, or the failed tasks.\<close>

datatype outcome = Again retval | Done | Failure "string list"

definition runqueue_step ::
  "'w exec_env \<Rightarrow> wevent list \<Rightarrow> wevent list \<Rightarrow> wevent list \<Rightarrow> 'w exec \<Rightarrow> (outcome \<times> 'w exec) result" where
  "runqueue_step ev events events' events'' x =
     bindE (if x_state x = RqRunning then execute ev events events' x else Inr (RTrue, x)) (\<lambda>(v, x).
     bindE (if x_state x = RqCleanUp then finish ev events'' x else Inr (v, x)) (\<lambda>(v, x).
     Inr (if x_state x = RqFailed then Failure (x_failed x) else if x_state x = RqComplete then Done else Again v, x)))"

end
