(* ===== verification/ExecSafety.thy ===== *)
theory ExecSafety
  imports Execute
begin

text \<open>
  What holds of every execution of a run queue, whatever the workers report: the steps of the setscene queue and of the
  migrations are \<open>quiet\<close> for the ordinary tasks, and every operation keeps the invariant \<open>good\<close>.
\<close>

section \<open>Traces\<close>

text \<open>The task an event begins, and the one it ends; a skipped task begins and ends at once.\<close>

fun begins :: "rqevent \<Rightarrow> string option" where
  "begins (TaskStarted t b) = Some t"
| "begins (TaskSkipped t r) = Some t"
| "begins e = None"

fun ends :: "rqevent \<Rightarrow> string option" where
  "ends (TaskCompleted t) = Some t"
| "ends (TaskSkipped t r) = Some t"
| "ends e = None"

definition begun :: "rqevent list \<Rightarrow> string list" where
  "begun tr = List.map_filter begins tr"

definition ended :: "rqevent list \<Rightarrow> string set" where
  "ended tr = {t. \<exists>e \<in> set tr. ends e = Some t}"

text \<open>Every task begins after all its dependencies have ended.\<close>

definition in_order :: "taskgraph \<Rightarrow> rqevent list \<Rightarrow> bool" where
  "in_order g tr \<longleftrightarrow>
     (\<forall>pre e post t. tr = pre @ e # post \<longrightarrow> begins e = Some t \<longrightarrow> set (deps_of g t) \<subseteq> ended pre)"

lemma begun_simps [simp]:
  "begun [] = []" "begun (tr @ tr') = begun tr @ begun tr'"
  "begun [e] = (case begins e of None \<Rightarrow> [] | Some t \<Rightarrow> [t])"
  by (simp_all add: begun_def map_filter_def split: option.split)

lemma ended_simps [simp]:
  "ended [] = {}" "ended (tr @ tr') = ended tr \<union> ended tr'"
  "ended [e] = (case ends e of None \<Rightarrow> {} | Some t \<Rightarrow> {t})"
  by (auto simp: ended_def split: option.split)

lemma in_order_Nil [simp]: "in_order g []"
  by (simp add: in_order_def)

lemma in_order_snoc:
  "in_order g (tr @ [e]) \<longleftrightarrow> in_order g tr \<and> (\<forall>t. begins e = Some t \<longrightarrow> set (deps_of g t) \<subseteq> ended tr)"
proof
  assume "in_order g (tr @ [e])"
  then show "in_order g tr \<and> (\<forall>t. begins e = Some t \<longrightarrow> set (deps_of g t) \<subseteq> ended tr)"
    unfolding in_order_def by (metis append_Cons append_assoc append_Nil2)
next
  assume a: "in_order g tr \<and> (\<forall>t. begins e = Some t \<longrightarrow> set (deps_of g t) \<subseteq> ended tr)"
  show "in_order g (tr @ [e])"
    unfolding in_order_def
  proof (intro allI impI)
    fix pre f post t assume s: "tr @ [e] = pre @ f # post" "begins f = Some t"
    show "set (deps_of g t) \<subseteq> ended pre"
    proof (cases post rule: rev_cases)
      case Nil
      with s a show ?thesis by simp
    next
      case (snoc ps p)
      with s(1) have "tr = pre @ f # ps" by simp
      with s(2) a show ?thesis by (auto simp: in_order_def)
    qed
  qed
qed

text \<open>Events that begin or end nothing.\<close>

definition silent :: "rqevent list \<Rightarrow> bool" where
  "silent tr \<longleftrightarrow> (\<forall>e \<in> set tr. begins e = None \<and> ends e = None)"

lemma silent_simps [simp]:
  "silent []" "silent (tr @ tr') \<longleftrightarrow> silent tr \<and> silent tr'"
  "silent [e] \<longleftrightarrow> begins e = None \<and> ends e = None"
  by (auto simp: silent_def)

lemma silent_begun: "silent tr \<Longrightarrow> begun tr = []"
  by (induction tr) (auto simp: begun_def silent_def)

lemma silent_ended: "silent tr \<Longrightarrow> ended tr = {}"
  by (auto simp: ended_def silent_def)

lemma in_order_silent: "silent es \<Longrightarrow> in_order g tr \<Longrightarrow> in_order g (tr @ es)"
proof (induction es rule: rev_induct)
  case (snoc e es)
  then show ?case using in_order_snoc [of g "tr @ es" e] by simp
qed simp

section \<open>Tasks under way\<close>

text \<open>
  The tasks that have started and have neither completed nor failed. A trace is honest when only such tasks complete or fail.
\<close>

fun finishes :: "rqevent \<Rightarrow> string option" where
  "finishes (TaskCompleted t) = Some t"
| "finishes (TaskFailed t code log) = Some t"
| "finishes e = None"

fun way_step :: "rqevent \<Rightarrow> string list \<Rightarrow> string list" where
  "way_step (TaskStarted t b) ts = t # ts"
| "way_step (TaskCompleted t) ts = remove1 t ts"
| "way_step (TaskFailed t code log) ts = remove1 t ts"
| "way_step e ts = ts"

definition under_way :: "rqevent list \<Rightarrow> string list" where
  "under_way tr = fold way_step tr []"

fun honest_from :: "string list \<Rightarrow> rqevent list \<Rightarrow> bool" where
  "honest_from ts [] = True"
| "honest_from ts (e # es) = ((case finishes e of None \<Rightarrow> True | Some t \<Rightarrow> t \<in> set ts) \<and> honest_from (way_step e ts) es)"

definition honest :: "rqevent list \<Rightarrow> bool" where
  "honest tr = honest_from [] tr"

lemma under_way_snoc: "under_way (tr @ [e]) = way_step e (under_way tr)"
  by (simp add: under_way_def)

lemma honest_snoc: "honest (tr @ [e]) \<longleftrightarrow> honest tr \<and> (\<forall>t. finishes e = Some t \<longrightarrow> t \<in> set (under_way tr))"
proof -
  have "honest_from ts (tr @ [e]) \<longleftrightarrow> honest_from ts tr \<and> (\<forall>t. finishes e = Some t \<longrightarrow> t \<in> set (fold way_step tr ts))" for ts
    by (induction tr arbitrary: ts) (auto split: option.split)
  then show ?thesis by (simp add: honest_def under_way_def)
qed

text \<open>The counter of the active tasks counts at least those under way.\<close>

definition accounted :: "rqevent list \<Rightarrow> int \<Rightarrow> bool" where
  "accounted tr active \<longleftrightarrow> (honest tr \<longrightarrow> int (length (under_way tr)) \<le> active)"

lemma accounted_simps [simp]:
  "0 \<le> active \<Longrightarrow> accounted [] active"
  "accounted tr active \<Longrightarrow> accounted (tr @ [TaskStarted t b]) (active + 1)"
  "accounted tr active \<Longrightarrow> accounted (tr @ [TaskSkipped t r]) active"
  by (simp_all add: accounted_def under_way_snoc honest_snoc) (simp add: under_way_def)

lemma accounted_end:
  assumes "accounted tr active" and "finishes e = Some t"
  shows "accounted (tr @ [e]) (active - 1)"
  unfolding accounted_def
proof
  assume "honest (tr @ [e])"
  then have h: "honest tr" "t \<in> set (under_way tr)" using assms(2) by (simp_all add: honest_snoc)
  have "under_way (tr @ [e]) = remove1 t (under_way tr)" using assms(2) by (cases e) (simp_all add: under_way_snoc)
  moreover have "length (under_way tr) = Suc (length (remove1 t (under_way tr)))"
    using h(2) length_pos_if_in_set [OF h(2)] by (simp add: length_remove1)
  ultimately show "int (length (under_way (tr @ [e]))) \<le> active - 1" using assms(1) h(1) by (simp add: accounted_def)
qed

lemma accounted_silent: "silent es \<Longrightarrow> accounted tr active \<Longrightarrow> accounted (tr @ es) active"
proof (induction es rule: rev_induct)
  case (snoc e es)
  then have a: "accounted (tr @ es) active" and e: "begins e = None" by simp_all
  have "length (way_step e (under_way (tr @ es))) \<le> length (under_way (tr @ es))" using e by (cases e) (simp_all add: length_remove1)
  then have l: "length (under_way ((tr @ es) @ [e])) \<le> length (under_way (tr @ es))" unfolding under_way_snoc .
  have "accounted ((tr @ es) @ [e]) active"
    unfolding accounted_def
  proof
    assume "honest ((tr @ es) @ [e])"
    then have "honest (tr @ es)" unfolding honest_snoc by blast
    with a l show "int (length (under_way ((tr @ es) @ [e]))) \<le> active" unfolding accounted_def by linarith
  qed
  then show ?case by simp
qed simp

section \<open>Quiet steps\<close>

text \<open>
  The fields of the ordinary tasks stay; hashes in the graph may change, silent events may be added, and a failure may be
  noted, in which case the queue is cleaned up.
\<close>

definition quiet_step :: "'w exec_env \<Rightarrow> 'w exec \<Rightarrow> 'w exec \<Rightarrow> bool" where
  "quiet_step ev x y \<longleftrightarrow>
     x_running y = x_running x \<and> x_complete y = x_complete x \<and> x_buildable y = x_buildable x \<and>
     x_sched y = x_sched x \<and> x_sq_live y = x_sq_live x \<and> st_active (x_stats y) = st_active (x_stats x) \<and>
     st_total (x_stats y) = st_total (x_stats x) \<and> same_shape (x_graph x) (x_graph y) \<and>
     (\<exists>es. x_trace y = x_trace x @ es \<and> silent es) \<and> set (x_failed x) \<subseteq> set (x_failed y) \<and>
     (x_state y = x_state x \<or> x_state y = RqCleanUp \<and> (ev_ignore_tasks ev = None \<longrightarrow> x_failed y \<noteq> []))"

lemma quiet_refl [simp]: "quiet_step ev x x"
  by (simp add: quiet_step_def)

lemma quiet_trans [trans]:
  assumes "quiet_step ev x y" and "quiet_step ev y z"
  shows "quiet_step ev x z"
proof -
  from assms obtain es es' where t: "x_trace y = x_trace x @ es" "silent es" "x_trace z = x_trace y @ es'" "silent es'"
    by (auto simp: quiet_step_def)
  then have "x_trace z = x_trace x @ (es @ es') \<and> silent (es @ es')" by simp
  then have tr: "\<exists>es. x_trace z = x_trace x @ es \<and> silent es" by blast
  have "x_failed z \<noteq> []" if "x_failed y \<noteq> []" using that assms(2) unfolding quiet_step_def by auto
  then have "x_state z = x_state x \<or> x_state z = RqCleanUp \<and> (ev_ignore_tasks ev = None \<longrightarrow> x_failed z \<noteq> [])"
    using assms unfolding quiet_step_def by auto
  moreover have "same_shape (x_graph x) (x_graph z)" using assms unfolding quiet_step_def by (meson same_shape_trans)
  moreover have "set (x_failed x) \<subseteq> set (x_failed z)" using assms unfolding quiet_step_def by blast
  ultimately show ?thesis using assms tr unfolding quiet_step_def by simp
qed

lemma foldE_quiet:
  assumes "foldE f xs s = Inr t" and "\<And>a s t. a \<in> set xs \<Longrightarrow> f a s = Inr t \<Longrightarrow> quiet_step ev (h s) (h t)"
  shows "quiet_step ev (h s) (h t)"
  using assms
proof (induction xs arbitrary: s)
  case (Cons a xs)
  then obtain u where u: "f a s = Inr u" "foldE f xs u = Inr t" by (auto simp: bindE_eq_Inr)
  have "quiet_step ev (h s) (h u)" by (rule Cons.prems(2) [OF _ u(1)]) simp
  moreover have "quiet_step ev (h u) (h t)" by (rule Cons.IH [OF u(2)]) (rule Cons.prems(2), simp_all)
  ultimately show ?case by (rule quiet_trans)
qed simp

lemmas foldE_quiet_id = foldE_quiet [where h = "\<lambda>x. x"]
lemmas foldE_quiet_snd = foldE_quiet [where h = snd]

text \<open>Updates of the fields of the setscene queue are quiet.\<close>

lemma quiet_updates [simp]:
  "quiet_step ev x (x\<lparr>x_sq_buildable := a\<rparr>)" "quiet_step ev x (x\<lparr>x_sq_running := a\<rparr>)"
  "quiet_step ev x (x\<lparr>x_sq_covered := a\<rparr>)" "quiet_step ev x (x\<lparr>x_sq_notcovered := a\<rparr>)"
  "quiet_step ev x (x\<lparr>x_sq_notneeded := a\<rparr>)" "quiet_step ev x (x\<lparr>x_harddep_deferred := a\<rparr>)"
  "quiet_step ev x (x\<lparr>x_needed_harddeps := a\<rparr>)" "quiet_step ev x (x\<lparr>x_scene_done := a\<rparr>)"
  "quiet_step ev x (x\<lparr>x_sq := b\<rparr>)" "quiet_step ev x (x\<lparr>x_stampcache := c\<rparr>)" "quiet_step ev x (x\<lparr>x_world := w\<rparr>)"
  "quiet_step ev x (x\<lparr>x_deferred := d\<rparr>)" "quiet_step ev x (x\<lparr>x_holdoff_stale := e\<rparr>)"
  "quiet_step ev x (x\<lparr>x_build_stamps := d\<rparr>)" "quiet_step ev x (x\<lparr>x_build_stamps2 := a\<rparr>)"
  "quiet_step ev x (x\<lparr>x_updated := f\<rparr>)" "quiet_step ev x (x\<lparr>x_migrations := a\<rparr>)"
  "quiet_step ev x (x\<lparr>x_cycle := n\<rparr>)" "quiet_step ev x (x\<lparr>x_sqdone := e\<rparr>)" "quiet_step ev x (x\<lparr>x_tasksrun := a\<rparr>)"
  "quiet_step ev x (x\<lparr>x_fakeworkers := a\<rparr>)" "quiet_step ev x (update_covered x)"
  "quiet_step ev x (drop_deferred t x)"
  by (simp_all add: quiet_step_def update_covered_def updateCovered_def drop_deferred_def)

lemma quiet_marks [simp]: "quiet_step ev x (sq_fail_marks t x)"
  by (simp add: quiet_step_def sq_fail_marks_def)

lemma quiet_emit: "begins e = None \<Longrightarrow> ends e = None \<Longrightarrow> quiet_step ev x (emit e x)"
  by (simp add: quiet_step_def emit_def)

text \<open>An update after a quiet step; an induction over a nest of updates uses it from outside in.\<close>

lemma stamp_current_quiet: "stamp_current ev t n r x = Inr (b, y) \<Longrightarrow> quiet_step ev x y"
  by (auto simp: stamp_current_def bindE_eq_Inr)

lemma check_setscene_stamps_quiet: "check_setscene_stamps ev t x = Inr (a, b, y) \<Longrightarrow> quiet_step ev x y"
  unfolding check_setscene_stamps_def
  by (auto simp: bindE_eq_Inr split: if_splits dest!: stamp_current_quiet intro: quiet_trans)

lemma enable_deps_quiet: "enable_deps t x = Inr y \<Longrightarrow> quiet_step ev x y"
  unfolding enable_deps_def bindE_eq_Inr by (elim exE conjE, erule foldE_quiet_id) (auto simp: bindE_eq_Inr)

lemma release_harddeps_quiet:
  assumes "release_harddeps t x = Inr y"
  shows "quiet_step ev x y"
proof (cases "dhas (sq_harddeps (x_sq x)) t")
  case True
  then show ?thesis using assms unfolding release_harddeps_def if_P [OF True]
    by (elim foldE_quiet_id) (auto simp: bindE_eq_Inr)
next
  case False
  with assms show ?thesis by (simp add: release_harddeps_def)
qed

lemma count_task_quiet:
  assumes "count_task ev t x = Inr y"
  shows "quiet_step ev x y"
proof -
  from assms obtain x1 dn x2 where s: "enable_deps t x = Inr x1" "release_harddeps t (x1\<lparr>x_scene_done := dn\<rparr>) = Inr x2"
    "y = (update_covered x2)\<lparr>x_holdoff_stale := True\<rparr>"
    by (auto simp: count_task_def bindE_eq_Inr)
  have "quiet_step ev x x1" using s(1) by (rule enable_deps_quiet)
  also have "quiet_step ev x1 (x1\<lparr>x_scene_done := dn\<rparr>)" by simp
  also have "quiet_step ev \<dots> x2" using s(2) by (rule release_harddeps_quiet)
  also have "quiet_step ev x2 (update_covered x2)" by simp
  also have "quiet_step ev \<dots> y" unfolding s(3) by simp
  finally show ?thesis .
qed

lemma fail_dependent_quiet:
  assumes "fail_dependent f ev dep x = Inr y" and "\<And>t x y. f t x = Inr y \<Longrightarrow> quiet_step ev x y"
  shows "quiet_step ev x y"
  using assms(1) unfolding fail_dependent_def
  by (auto simp: bindE_eq_Inr split: if_splits
      intro: check_setscene_stamps_quiet quiet_trans [OF check_setscene_stamps_quiet assms(2)])

lemma updatecounters_at_quiet: "updatecounters_at n ev t fail x = Inr y \<Longrightarrow> quiet_step ev x y"
proof (induction n arbitrary: t fail x y)
  case (Suc n)
  let ?f = "\<lambda>dep x. updatecounters_at n ev dep True (sq_fail_marks dep x)"
  have f: "quiet_step ev x y" if "?f t x = Inr y" for t x y
    using Suc.IH [OF that] by (rule quiet_trans [rotated]) simp
  from Suc.prems obtain z where z: "count_task ev t z = Inr y"
    "(case dget (sq_harddeps (x_sq x)) t of None \<Rightarrow> Inr x
      | Some deps \<Rightarrow> if fail then foldE (fail_dependent ?f ev) (sort deps) x else Inr x) = Inr z"
    by (auto simp: bindE_eq_Inr)
  have "quiet_step ev x z"
    using z(2) by (auto split: option.splits if_splits elim!: foldE_quiet_id intro: fail_dependent_quiet f)
  with count_task_quiet [OF z(1)] show ?case by (rule quiet_trans [rotated])
qed simp

lemma updatecounters_quiet: "scenequeue_updatecounters ev t fail x = Inr y \<Longrightarrow> quiet_step ev x y"
  unfolding scenequeue_updatecounters_def by (rule updatecounters_at_quiet)

lemma sq_task_completeoutright_quiet: "sq_task_completeoutright ev t x = Inr y \<Longrightarrow> quiet_step ev x y"
  unfolding sq_task_completeoutright_def by (rule quiet_trans [OF quiet_updates(3) updatecounters_quiet])

lemma sq_task_failoutright_quiet: "sq_task_failoutright ev t x = Inr y \<Longrightarrow> quiet_step ev x y"
  unfolding sq_task_failoutright_def by (rule quiet_trans [OF quiet_marks updatecounters_quiet])

lemma sq_task_skip_quiet: "sq_task_skip ev t x = Inr y \<Longrightarrow> quiet_step ev x y"
  unfolding sq_task_skip_def
  by (rule quiet_trans [OF quiet_trans [OF quiet_updates(2) quiet_updates(1)] sq_task_completeoutright_quiet])

lemma sq_task_complete_quiet: "sq_task_complete ev t x = Inr y \<Longrightarrow> quiet_step ev x y"
  unfolding sq_task_complete_def by (rule quiet_trans [OF quiet_emit sq_task_completeoutright_quiet]) simp_all

lemma sq_check_taskfail_quiet: "sq_check_taskfail ev t x = Inr y \<Longrightarrow> quiet_step ev x y"
  unfolding sq_check_taskfail_def by (auto simp: bindE_eq_Inr quiet_step_def split: if_splits)

lemma sq_task_fail_quiet:
  assumes "sq_task_fail ev t status x = Inr y"
  shows "quiet_step ev x y"
proof -
  let ?x = "emit (SceneFailed t status) x"
  from assms obtain z where z: "scenequeue_updatecounters ev t True (?x\<lparr>x_sq_notcovered := sadd t (x_sq_notcovered ?x)\<rparr>) = Inr z"
    "sq_check_taskfail ev t z = Inr y" by (auto simp: sq_task_fail_def Let_def bindE_eq_Inr)
  have "quiet_step ev x ?x" by (simp add: quiet_emit)
  also have "quiet_step ev ?x (?x\<lparr>x_sq_notcovered := sadd t (x_sq_notcovered ?x)\<rparr>)" by simp
  also have "quiet_step ev \<dots> z" using z(1) by (rule updatecounters_quiet)
  also have "quiet_step ev z y" using z(2) by (rule sq_check_taskfail_quiet)
  finally show ?thesis .
qed

lemma update_stamps_quiet:
  assumes "update_stamps ev t (ts, x) = Inr (ts', y)"
  shows "quiet_step ev x y"
proof -
  define x1 where "x1 = x\<lparr>x_sq := (x_sq x)\<lparr>sq_stamppresent := sdiscard t (sq_stamppresent (x_sq x)),
      sq_valid := sdiscard t (sq_valid (x_sq x)), sq_outrightfail := sdiscard t (sq_outrightfail (x_sq x))\<rparr>\<rparr>"
  from assms obtain a b x2 where s: "check_setscene_stamps ev t x1 = Inr (a, b, x2)"
    "y = x2 \<or> (\<exists>sq. sq_task_skip ev t (x2\<lparr>x_sq := sq\<rparr>) = Inr y)"
    by (auto simp: update_stamps_def Let_def bindE_eq_Inr x1_def split: if_splits)
  have 1: "quiet_step ev x x1" by (simp add: x1_def)
  have 2: "quiet_step ev x1 x2" using s(1) by (rule check_setscene_stamps_quiet)
  have 3: "quiet_step ev x2 y"
    using s(2) by (auto intro: quiet_trans [OF quiet_updates(9) sq_task_skip_quiet])
  from quiet_trans [OF quiet_trans [OF 1 2] 3] show ?thesis .
qed

lemma outright_fails_quiet: "quiet_step ev x (outright_fails t x)"
  by (simp add: outright_fails_def)

lemma update_scenequeue_data_quiet:
  assumes "update_scenequeue_data ev tids x = Inr y"
  shows "quiet_step ev x y"
proof -
  from assms obtain ts z sq where s: "foldE (update_stamps ev) (sort tids) ([], x) = Inr (ts, z)"
    "y = fold outright_fails tids (z\<lparr>x_sq := sq\<rparr>)"
    by (auto simp: update_scenequeue_data_def bindE_eq_Inr)
  have step: "quiet_step ev (snd p) (snd q)" if "update_stamps ev t p = Inr q" for t p q
    using that update_stamps_quiet [of ev t "fst p" "snd p" "fst q" "snd q"] by simp
  have "quiet_step ev x z" using foldE_quiet_snd [OF s(1) step] by simp
  also have "quiet_step ev z (z\<lparr>x_sq := sq\<rparr>)" by (rule quiet_updates)
  also have "quiet_step ev (z\<lparr>x_sq := sq\<rparr>) y"
    unfolding s(2)
    by (rule fold_invariant_mem [where P = "quiet_step ev (z\<lparr>x_sq := sq\<rparr>)"])
      (simp, rule quiet_trans [OF _ outright_fails_quiet])
  finally show ?thesis .
qed

section \<open>The invariant\<close>

text \<open>
  Of the tasks: those that may run have only complete dependencies, a complete task has ended, and every task begins at
  most once, after its dependencies have ended. Of the counters: no more tasks are active than allowed, and those under way
  are counted. The queue is only
  cleaned up after a failure.
\<close>

definition good :: "'w exec_env \<Rightarrow> taskgraph \<Rightarrow> 'w exec \<Rightarrow> bool" where
  "good ev g x \<longleftrightarrow>
     same_shape g (x_graph x) \<and>
     (\<forall>t \<in> set (x_buildable x) \<union> set (sc_buildable (x_sched x)). set (deps_of g t) \<subseteq> set (x_complete x)) \<and>
     set (x_complete x) \<subseteq> ended (x_trace x) \<and> in_order g (x_trace x) \<and>
     set (begun (x_trace x)) \<subseteq> set (x_running x) \<and> distinct (begun (x_trace x)) \<and>
     st_active (x_stats x) + int (length (x_sq_live x)) \<le> ev_number_tasks ev \<and>
     accounted (x_trace x) (st_active (x_stats x)) \<and> st_total (x_stats x) = int (length g) \<and>
     (x_state x = RqCleanUp \<and> ev_ignore_tasks ev = None \<longrightarrow> x_failed x \<noteq> []) \<and>
     (x_state x = RqComplete \<longrightarrow> WorkerDied \<in> set (x_trace x))"

lemma goodD:
  assumes "good ev g x"
  shows "same_shape g (x_graph x)" "t \<in> set (x_buildable x) \<Longrightarrow> set (deps_of g t) \<subseteq> set (x_complete x)"
    "t \<in> set (sc_buildable (x_sched x)) \<Longrightarrow> set (deps_of g t) \<subseteq> set (x_complete x)"
    "set (x_complete x) \<subseteq> ended (x_trace x)" "in_order g (x_trace x)" "set (begun (x_trace x)) \<subseteq> set (x_running x)"
    "distinct (begun (x_trace x))" "st_active (x_stats x) + int (length (x_sq_live x)) \<le> ev_number_tasks ev"
    "st_total (x_stats x) = int (length g)" "deps_of (x_graph x) t = deps_of g t"
  using assms same_shapeD(2) [of g "x_graph x" t] by (auto simp: good_def)

lemma good_quiet:
  assumes g: "good ev g x" and q: "quiet_step ev x y"
  shows "good ev g y"
proof -
  from q obtain es where es: "x_trace y = x_trace x @ es" "silent es" by (auto simp: quiet_step_def)
  have f: "x_running y = x_running x" "x_complete y = x_complete x" "x_buildable y = x_buildable x"
    "x_sched y = x_sched x" "x_sq_live y = x_sq_live x" "st_active (x_stats y) = st_active (x_stats x)"
    "st_total (x_stats y) = st_total (x_stats x)" using q by (simp_all add: quiet_step_def)
  have "same_shape g (x_graph y)" using g q unfolding good_def quiet_step_def by (meson same_shape_trans)
  moreover have "x_state y = RqCleanUp \<and> ev_ignore_tasks ev = None \<longrightarrow> x_failed y \<noteq> []"
    "x_state y = RqComplete \<longrightarrow> WorkerDied \<in> set (x_trace y)"
    using g q unfolding good_def quiet_step_def by auto
  ultimately show ?thesis
    using g in_order_silent [OF es(2)] accounted_silent [OF es(2)] unfolding good_def f es(1)
    by (simp add: silent_begun [OF es(2)] silent_ended [OF es(2)])
qed

lemma good_setbuildable:
  assumes "good ev g x" and "set (deps_of g t) \<subseteq> set (x_complete x)"
  shows "good ev g (setbuildable t x)"
  using assms unfolding good_def setbuildable_def newbuildable_def by auto

lemma good_state: "good ev g x \<Longrightarrow> st \<notin> {RqCleanUp, RqComplete} \<Longrightarrow> good ev g (x\<lparr>x_state := st\<rparr>)"
  by (simp add: good_def)

text \<open>A loop keeps the invariant when every step does.\<close>

lemma foldE_good:
  assumes "foldE f xs s = Inr t" and "good ev g (h s)"
    and "\<And>a s t. a \<in> set xs \<Longrightarrow> good ev g (h s) \<Longrightarrow> f a s = Inr t \<Longrightarrow> good ev g (h t)"
  shows "good ev g (h t)"
  using assms(1,2) by (rule foldE_invariant [where P = "\<lambda>s. good ev g (h s)"]) (rule assms(3))

lemmas foldE_good_id = foldE_good [where h = "\<lambda>x. x"]
lemmas foldE_good_snd = foldE_good [where h = snd]

subsection \<open>Completed tasks\<close>

lemma dindex_deps: "dindex g t = Inr e \<Longrightarrow> re_depends e = deps_of g t"
  by (simp add: dindex_eq_Inr)

lemma wake_revdep_good: "good ev g x \<Longrightarrow> wake_revdep t x = Inr y \<Longrightarrow> good ev g y"
  by (auto simp: wake_revdep_def bindE_eq_Inr dest!: dindex_deps split: if_splits intro: good_setbuildable simp: goodD(10))

lemma release_deferred_quiet:
  assumes "release_deferred ev task t (found, x) = Inr (found', y)"
  shows "quiet_step ev x y"
  using assms
  by (auto simp: release_deferred_def bindE_eq_Inr split: if_splits option.splits
      intro: quiet_trans [OF quiet_updates(12) update_scenequeue_data_quiet])

lemma task_completeoutright_good:
  assumes g: "good ev g x" and t: "task \<in> ended (x_trace x)" and r: "task_completeoutright ev task x = Inr y"
  shows "good ev g y"
proof -
  let ?x = "x\<lparr>x_complete := sadd task (x_complete x)\<rparr>"
  from r obtain e :: runtaskentry and z found where s: "foldE wake_revdep (re_revdeps e) ?x = Inr z"
    "foldE (release_deferred ev task) (sort (dkeys (x_deferred z))) (None, z) = Inr (found, y)"
    by (auto simp: task_completeoutright_def bindE_eq_Inr)
  have "good ev g ?x" using g t unfolding good_def by auto
  then have z: "good ev g z" by (rule foldE_good_id [OF s(1)]) (rule wake_revdep_good)
  have step: "quiet_step ev (snd p) (snd q)" if "release_deferred ev task t p = Inr q" for t p q
    using that release_deferred_quiet [of ev task t "fst p" "snd p" "fst q" "snd q"] by simp
  have "quiet_step ev z y" using foldE_quiet_snd [OF s(2) step] by simp
  with z show ?thesis by (rule good_quiet)
qed

lemma task_complete_good:
  assumes g: "good ev g x" and r: "task_complete ev task x = Inr y"
  shows "good ev g y"
proof -
  let ?x = "emit (TaskCompleted task) (x\<lparr>x_stats := taskCompleted (x_stats x)\<rparr>)"
  from r obtain z where s: "task_completeoutright ev task ?x = Inr z" "y = z\<lparr>x_tasksrun := sadd task (x_tasksrun z)\<rparr>"
    by (auto simp: task_complete_def bindE_eq_Inr)
  have "good ev g ?x" using g unfolding good_def
    by (simp add: emit_def taskCompleted_def in_order_snoc subset_insertI2 accounted_end)
  moreover have "task \<in> ended (x_trace ?x)" by (simp add: emit_def)
  ultimately have "good ev g z" using s(1) by (rule task_completeoutright_good)
  then show ?thesis unfolding s(2) by (rule good_quiet) (rule quiet_updates)
qed

text \<open>A skipped task begins and ends; all its dependencies are complete and it has not run.\<close>

lemma task_skip_good:
  assumes g: "good ev g x" and d: "set (deps_of g task) \<subseteq> set (x_complete x)" and n: "task \<notin> set (x_running x)"
    and r: "task_skip ev task reason x = Inr y"
  shows "good ev g y"
proof -
  let ?z = "setbuildable task (x\<lparr>x_running := sadd task (x_running x)\<rparr>)"
  let ?x = "emit (TaskSkipped task reason) ?z"
  from r obtain z where s: "task_completeoutright ev task ?x = Inr z" "y = z\<lparr>x_stats := taskCompleted (taskSkipped (x_stats z))\<rparr>"
    by (auto simp: task_skip_def bindE_eq_Inr)
  have "set (deps_of g task) \<subseteq> ended (x_trace x)" using d goodD(4) [OF g] by blast
  moreover have "task \<notin> set (begun (x_trace x))" using n goodD(6) [OF g] by blast
  ultimately have "good ev g ?x"
    using g d unfolding good_def by (auto simp: emit_def setbuildable_def newbuildable_def in_order_snoc)
  moreover have "task \<in> ended (x_trace ?x)" by (simp add: emit_def)
  ultimately have "good ev g z" using s(1) by (rule task_completeoutright_good)
  then show ?thesis unfolding s(2) good_def by (simp add: taskCompleted_def taskSkipped_def)
qed

lemma task_fail_good:
  "good ev g x \<Longrightarrow> good ev g (task_fail ev task code log x)"
  unfolding good_def by (simp add: task_fail_def Let_def emit_def taskFailed_def in_order_snoc accounted_end)

subsection \<open>Reports of the workers\<close>

lemma drop_build_stamp_quiet: "drop_build_stamp t x = Inr y \<Longrightarrow> quiet_step ev x y"
  by (auto simp: drop_build_stamp_def quiet_step_def split: option.splits if_splits)

lemma waitpid_good:
  assumes g: "good ev g x" and r: "runqueue_process_waitpid ev task status log x = Inr y"
  shows "good ev g y"
proof -
  from r obtain x1 where d: "drop_build_stamp task x = Inr x1" and
    r1: "(if task \<in> set (x_sq_live x1)
      then bindE (if status \<noteq> 0 then sq_task_fail ev task status x1 else sq_task_complete ev task x1) (\<lambda>x.
           let x = x\<lparr>x_sq_live := sdiscard task (x_sq_live x)\<rparr>
           in Inr (x\<lparr>x_stats := updateActiveSetscene (int (length (x_sq_live x))) (x_stats x)\<rparr>))
      else if status \<noteq> 0 then Inr (task_fail ev task (ExitStatus status) log x1)
      else task_complete ev task x1) = Inr y"
    by (auto simp: runqueue_process_waitpid_def bindE_eq_Inr)
  have g1: "good ev g x1" using g drop_build_stamp_quiet [OF d] by (rule good_quiet)
  show ?thesis
  proof (cases "task \<in> set (x_sq_live x1)")
    case True
    with r1 obtain z where z: "(if status \<noteq> 0 then sq_task_fail ev task status x1 else sq_task_complete ev task x1) = Inr z"
      "y = z\<lparr>x_sq_live := sdiscard task (x_sq_live z),
             x_stats := updateActiveSetscene (int (length (sdiscard task (x_sq_live z)))) (x_stats z)\<rparr>"
      by (auto simp: bindE_eq_Inr Let_def)
    have "quiet_step ev x1 z" using z(1) by (auto split: if_splits intro: sq_task_fail_quiet sq_task_complete_quiet)
    with g1 have gz: "good ev g z" by (rule good_quiet)
    have "length (sdiscard task (x_sq_live z)) \<le> length (x_sq_live z)" by (simp add: sdiscard_def)
    with gz show ?thesis unfolding z(2) good_def by (simp add: updateActiveSetscene_def)
  next
    case False
    with r1 g1 show ?thesis by (auto split: if_splits intro: task_fail_good task_complete_good)
  qed
qed

lemma worker_event_good:
  assumes "good ev g x" and "worker_event ev e x = Inr y"
  shows "good ev g y"
  using assms
proof (cases e)
  case (WExit task status log)
  with assms show ?thesis by (auto intro: waitpid_good)
next
  case (WUnihash tid unihash)
  with assms show ?thesis by (auto intro: good_quiet)
next
  case WDied
  have "quiet_step ev x (emit WorkerDied x)" by (rule quiet_emit) simp_all
  with assms have "good ev g (emit WorkerDied x)" using good_quiet by blast
  moreover have "WorkerDied \<in> set (x_trace (emit WorkerDied x))" by (simp add: emit_def)
  moreover have "y = finish_now (emit WorkerDied x)" using WDied assms by simp
  ultimately show ?thesis unfolding finish_now_def good_def by simp
qed

lemma read_workers_good: "good ev g x \<Longrightarrow> read_workers ev es x = Inr y \<Longrightarrow> good ev g y"
  unfolding read_workers_def by (rule foldE_good_id) (auto intro: worker_event_good)

subsection \<open>Migrations\<close>

lemma dindex_nodes: "dindex g t = Inr e \<Longrightarrow> t \<in> nodes g"
  by (simp add: dindex_eq_Inr nodes_has dhas_iff)

lemma assign_unihash_quiet: "assign_unihash ev u t x = Inr y \<Longrightarrow> quiet_step ev x y"
  by (auto simp: assign_unihash_def bindE_eq_Inr quiet_step_def dest!: dindex_nodes intro: set_hash_shape)

lemma take_update_quiet:
  assumes "take_update ev (t, u) (ts, x) = Inr (ts', y)"
  shows "quiet_step ev x y"
proof (cases "y = x")
  case False
  let ?x = "x\<lparr>x_updated := remove1 (t, u) (x_updated x)\<rparr>"
  have x: "quiet_step ev x ?x" by (rule quiet_updates)
  define l where "l = t # map fst (filter (\<lambda>kv. snd kv = t) (x_deferred x))"
  have keep: "x_deferred ?x = x_deferred x" "x_graph ?x = x_graph x" by simp_all
  have "take_update ev (t, u) (ts, x) =
      (if t \<in> set (x_running x) \<and> t \<notin> set (x_complete x) then Inr (ts, x)
       else bindE (dindex (x_graph x) t) (\<lambda>e. if re_unihash e = Some u then Inr (ts, ?x)
         else bindE (foldE (assign_unihash ev u) l ?x) (\<lambda>z.
           Inr (supdate ts l, z\<lparr>x_world := wo_save_unihashes (ev_ops ev) (x_world z)\<rparr>))))"
    unfolding take_update_def l_def Let_def prod.case keep by (rule refl)
  with assms False consider "y = ?x" | z where "foldE (assign_unihash ev u) l ?x = Inr z"
      "y = z\<lparr>x_world := wo_save_unihashes (ev_ops ev) (x_world z)\<rparr>"
    by (auto simp: bindE_eq_Inr split: if_splits)
  then show ?thesis
  proof cases
    case 1
    with x show ?thesis by simp
  next
    case (2 z)
    have "quiet_step ev ?x z" by (rule foldE_quiet_id [OF 2(1) assign_unihash_quiet])
    also have "quiet_step ev z y" unfolding 2(2) by (rule quiet_updates)
    finally show ?thesis using x by (rule quiet_trans [rotated])
  qed
qed simp

lemma rehash_ready_quiet: "rehash_ready ev l left t (r, x) = Inr (r', y) \<Longrightarrow> quiet_step ev x y"
  by (auto simp: rehash_ready_def bindE_eq_Inr Let_def split: if_splits)

lemma rehash_task_quiet:
  assumes "rehash_task ev u (t, h) (nxt, left, changed, x) = Inr (nxt', left', changed', y)"
  shows "quiet_step ev x y"
proof -
  from assms obtain e :: runtaskentry where t: "dindex (x_graph x) t = Inr e" and
    y: "y = x \<or> (\<exists>w. y = x\<lparr>x_world := w\<rparr>) \<or> y = x\<lparr>x_graph := set_unihash t (u t) (set_hash t h (x_graph x))\<rparr>"
    by (auto simp: rehash_task_def bindE_eq_Inr Let_def split: if_splits)
  have h: "same_shape (x_graph x) (set_hash t h (x_graph x))" by (rule set_hash_shape(1) [OF dindex_nodes [OF t]])
  have "t \<in> nodes (set_hash t h (x_graph x))" using same_shapeD(1) [OF h] dindex_nodes [OF t] by simp
  from same_shape_trans [OF h set_hash_shape(2) [OF this]]
  have "quiet_step ev x (x\<lparr>x_graph := set_unihash t (u t) (set_hash t h (x_graph x))\<rparr>)" by (simp add: quiet_step_def)
  with y show ?thesis by (elim disjE exE) simp_all
qed

lemma rehash_round_quiet:
  assumes "rehash_round ev l cur left changed x = Inr (a, b, c, y)"
  shows "quiet_step ev x y"
proof -
  from assms obtain ready z u w where s: "foldE (rehash_ready ev l left) cur ([], x) = Inr (ready, z)"
    "foldE (rehash_task ev u) ready ([], left, changed, z\<lparr>x_world := w\<rparr>) = Inr (a, b, c, y)"
    by (auto simp: rehash_round_def bindE_eq_Inr Let_def)
  have 1: "quiet_step ev (snd p) (snd q)" if "rehash_ready ev l left t p = Inr q" for t p q
    using that rehash_ready_quiet [of ev l left t "fst p" "snd p" "fst q" "snd q"] by simp
  have 2: "quiet_step ev (snd (snd (snd p))) (snd (snd (snd q)))" if "rehash_task ev u r p = Inr q" for r p q
    using that by (cases r; cases p; cases q) (auto intro: rehash_task_quiet)
  have "quiet_step ev x z" using foldE_quiet_snd [OF s(1) 1] by simp
  also have "quiet_step ev z (z\<lparr>x_world := w\<rparr>)" by (rule quiet_updates)
  also have "quiet_step ev (z\<lparr>x_world := w\<rparr>) y" using foldE_quiet [where h = "\<lambda>p. snd (snd (snd p))", OF s(2) 2] by simp
  finally show ?thesis .
qed

lemma rehash_loop_quiet: "rehash_loop ev l cur left changed x = Inr (c, y) \<Longrightarrow> quiet_step ev x y"
proof (induction ev l cur left changed x rule: rehash_loop.induct)
  case (1 ev l cur left changed x)
  show ?case
  proof (cases "cur = []")
    case True
    with 1(2) show ?thesis by (simp add: rehash_loop.simps)
  next
    case False
    with 1(2) obtain r where r: "rehash_round ev l cur left changed x = Inr r"
      "rehash_loop ev l (fst r) (fst (snd r)) (fst (snd (snd r))) (snd (snd (snd r))) = Inr (c, y)"
      by (subst (asm) rehash_loop.simps) (auto split: sum.splits)
    have "quiet_step ev x (snd (snd (snd r)))" using r(1) by (cases r) (auto intro: rehash_round_quiet)
    with 1(1) [OF False r(1,2)] show ?thesis by (rule quiet_trans [rotated])
  qed
qed

lemma rehash_quiet: "rehash ev ts x = Inr (c, y) \<Longrightarrow> quiet_step ev x y"
  by (auto simp: rehash_def bindE_eq_Inr intro: rehash_loop_quiet)

lemma reopen_task_quiet: "quiet_step ev (snd p) (snd (reopen_task t dep p))"
  by (auto simp: reopen_task_def quiet_step_def split: prod.split)

lemma forget_task_quiet: "forget_task ev t x = Inr y \<Longrightarrow> quiet_step ev x y"
  by (auto simp: forget_task_def bindE_eq_Inr quiet_step_def)

lemma migrate_task_quiet:
  assumes "migrate_task ev t m = Inr m'"
  shows "quiet_step ev (mi_exec m) (mi_exec m')"
proof -
  define x where "x = mi_exec m"
  define d where "d = x\<lparr>x_migrations := sdiscard t (x_migrations x)\<rparr>"
  have f: "quiet_step ev x (snd (fold (reopen_task t) ts (False, d\<lparr>x_scene_done := sdiscard t (x_scene_done d)\<rparr>)))" for ts
    by (rule fold_invariant_mem [where P = "\<lambda>p. quiet_step ev x (snd p)"])
      (simp add: d_def quiet_step_def, rule quiet_trans [OF _ reopen_task_quiet])
  have "mi_exec m' = x \<or> mi_exec m' = d \<or> (\<exists>ts stop y. fold (reopen_task t) ts
      (False, d\<lparr>x_scene_done := sdiscard t (x_scene_done d)\<rparr>) = (stop, y) \<and>
      (mi_exec m' = y \<or> forget_task ev t y = Inr (mi_exec m')))"
    using assms unfolding migrate_task_def Let_def x_def [symmetric] d_def [symmetric]
    by (fastforce simp: bindE_eq_Inr x_def split: if_splits prod.splits)
  moreover have "quiet_step ev x d" by (simp add: d_def)
  ultimately show ?thesis unfolding x_def [symmetric] using f forget_task_quiet quiet_trans by (metis quiet_refl snd_conv)
qed

lemma requeue_task_quiet: "requeue_task t (ts, x) = Inr (ts', y) \<Longrightarrow> quiet_step ev x y"
  by (auto simp: requeue_task_def bindE_eq_Inr Let_def split: if_splits)

lemma defer_again_quiet: "defer_again ev mc t x = Inr y \<Longrightarrow> quiet_step ev x y"
  by (auto simp: defer_again_def bindE_eq_Inr split: if_splits option.splits)

lemma requeue_quiet:
  assumes "requeue ev ts x = Inr y"
  shows "quiet_step ev x y"
proof (cases "ts = []")
  case False
  with assms obtain z where s: "foldE (\<lambda>mc. foldE (defer_again ev mc) (sort (map fst ts))) (sort (sq_multiconfigs (x_sq x)))
      (x\<lparr>x_sqdone := False\<rparr>) = Inr z" "update_scenequeue_data ev (map fst ts) z = Inr y"
    by (auto simp: requeue_def bindE_eq_Inr)
  have step: "quiet_step ev s t" if "foldE (defer_again ev mc) l s = Inr t" for mc l s t
    using that by (rule foldE_quiet_id) (rule defer_again_quiet)
  have "quiet_step ev x (x\<lparr>x_sqdone := False\<rparr>)" by simp
  also have "quiet_step ev (x\<lparr>x_sqdone := False\<rparr>) z" by (rule foldE_quiet_id [OF s(1) step])
  also have "quiet_step ev z y" using s(2) by (rule update_scenequeue_data_quiet)
  finally show ?thesis .
qed (use assms in \<open>simp add: requeue_def\<close>)

lemma migrate_quiet:
  assumes "migrate ev changed x = Inr y"
  shows "quiet_step ev x y"
proof -
  from assms obtain m where m: "foldE (migrate_task ev) (x_migrations x)
      \<lparr>mi_stop = False, mi_changed = changed, mi_tasks = [], mi_exec = x\<rparr> = Inr m" and
    r: "(if mi_stop m then Inr (mi_exec m)
     else bindE (foldE requeue_task (mi_tasks m) ([], mi_exec m)) (\<lambda>(tasks, x).
          bindE (requeue ev tasks x) (\<lambda>x.
          bindE (foldE (\<lambda>(tid, harddepfail, _) x. if harddepfail then sq_task_failoutright ev tid x else Inr x)
                   tasks x) (\<lambda>x.
          Inr (if mi_changed m
               then (update_covered x)\<lparr>x_needed_harddeps := [], x_harddep_deferred := [], x_holdoff_stale := True\<rparr>
               else x))))) = Inr y"
    unfolding migrate_def bindE_eq_Inr by auto
  have 1: "quiet_step ev x (mi_exec m)"
    using foldE_quiet [where h = mi_exec, OF m migrate_task_quiet] by simp
  show ?thesis
  proof (cases "mi_stop m")
    case True
    with r 1 show ?thesis by simp
  next
    case False
    with r obtain tasks x1 x2 x3 where s: "foldE requeue_task (mi_tasks m) ([], mi_exec m) = Inr (tasks, x1)"
      "requeue ev tasks x1 = Inr x2"
      "foldE (\<lambda>(tid, harddepfail, _) x. if harddepfail then sq_task_failoutright ev tid x else Inr x) tasks x2 = Inr x3"
      "y = x3 \<or> y = (update_covered x3)\<lparr>x_needed_harddeps := [], x_harddep_deferred := [], x_holdoff_stale := True\<rparr>"
      by (auto simp: bindE_eq_Inr split: if_splits)
    have step: "quiet_step ev (snd p) (snd q)" if "requeue_task t p = Inr q" for t p q
      using that requeue_task_quiet [of t "fst p" "snd p" "fst q" "snd q"] by simp
    have "quiet_step ev (mi_exec m) x1" using foldE_quiet_snd [OF s(1) step] by simp
    also have "quiet_step ev x1 x2" using s(2) by (rule requeue_quiet)
    also have "quiet_step ev x2 x3"
      by (rule foldE_quiet_id [OF s(3)]) (auto split: if_splits intro: sq_task_failoutright_quiet)
    also have "quiet_step ev x3 y"
      using s(4) by (auto simp: quiet_step_def update_covered_def updateCovered_def)
    finally have "quiet_step ev (mi_exec m) y" .
    with 1 show ?thesis by (rule quiet_trans)
  qed
qed

lemma process_possible_migrations_quiet:
  assumes "process_possible_migrations ev x = Inr y"
  shows "quiet_step ev x y"
proof -
  from assms obtain ts x1 changed x2 a where s: "foldE (take_update ev) (x_updated x) ([], x) = Inr (ts, x1)"
    "rehash ev ts x1 = Inr (changed, x2)"
    "migrate ev (changed \<noteq> []) ((if changed = [] then x2 else emit SentHashes x2)\<lparr>x_migrations := a\<rparr>) = Inr y"
    unfolding process_possible_migrations_def by (auto simp: bindE_eq_Inr Let_def split: if_splits)
  have step: "quiet_step ev (snd p) (snd q)" if "take_update ev u p = Inr q" for u p q
    using that by (cases u; cases p; cases q) (auto intro: take_update_quiet)
  have "quiet_step ev x x1" using foldE_quiet_snd [OF s(1) step] by simp
  also have "quiet_step ev x1 x2" using s(2) by (rule rehash_quiet)
  also have "quiet_step ev x2 (if changed = [] then x2 else emit SentHashes x2)" by (simp add: quiet_emit)
  also have "quiet_step ev \<dots> ((if changed = [] then x2 else emit SentHashes x2)\<lparr>x_migrations := a\<rparr>)"
    by (rule quiet_updates)
  also have "quiet_step ev \<dots> y" using s(3) by (rule migrate_quiet)
  finally show ?thesis .
qed

end
