(* ===== verification/ExecRun.thy ===== *)
theory ExecRun
  imports ExecSafety
begin

text \<open>
  Calls of \<^verbatim>\<open>execute\<close> and the runs of the queue made of them: every task begins at most once and
  after its dependencies, no more tasks are under way than allowed, and a run that ends well has completed every task.
\<close>

section \<open>One call of execute\<close>

lemma quiet_more [simp]:
  "quiet_step ev x (x\<lparr>x_tasks_covered := a, x_tasks_notcovered := b, x_holdoff := c, x_holdoff_stale := d\<rparr>)"
  by (simp add: quiet_step_def)

lemma make_buildable_good: "good ev g x \<Longrightarrow> make_buildable t x = Inr y \<Longrightarrow> good ev g y"
  by (auto simp: make_buildable_def bindE_eq_Inr dest!: dindex_deps split: if_splits intro: good_setbuildable simp: goodD(10))

lemma update_holdofftasks_good:
  assumes g: "good ev g x" and r: "update_holdofftasks ev x = Inr y"
  shows "good ev g y"
proof (cases "x_holdoff_stale x")
  case True
  with r obtain n c z h where s: "foldE make_buildable (supdate n c) x = Inr z"
    "y = z\<lparr>x_tasks_covered := c, x_tasks_notcovered := n, x_holdoff := h, x_holdoff_stale := False\<rparr>"
    by (auto simp: update_holdofftasks_def bindE_eq_Inr)
  have "good ev g z" by (rule foldE_good_id [OF s(1) g]) (rule make_buildable_good)
  then show ?thesis unfolding s(2) by (rule good_quiet) (rule quiet_more)
qed (use g r in \<open>simp add: update_holdofftasks_def\<close>)

lemma holdoff_state:
  assumes "update_holdofftasks ev x = Inr y"
  shows "x_running y = x_running x \<and> x_sq_live y = x_sq_live x \<and> st_active (x_stats y) = st_active (x_stats x)"
proof (cases "x_holdoff_stale x")
  case True
  with assms obtain n c z h where s: "foldE make_buildable (supdate n c) x = Inr z"
    "y = z\<lparr>x_tasks_covered := c, x_tasks_notcovered := n, x_holdoff := h, x_holdoff_stale := False\<rparr>"
    by (auto simp: update_holdofftasks_def bindE_eq_Inr)
  have "x_running z = x_running x \<and> x_sq_live z = x_sq_live x \<and> st_active (x_stats z) = st_active (x_stats x)"
    by (rule foldE_invariant [OF s(1)]) (auto simp: make_buildable_def bindE_eq_Inr setbuildable_def)
  then show ?thesis unfolding s(2) by simp
qed (use assms in \<open>simp add: update_holdofftasks_def\<close>)

subsection \<open>Setscene tasks\<close>

fun found_exec :: "'w exec found \<Rightarrow> 'w exec" where
  "found_exec (FReturn x) = x"
| "found_exec (FTask t x) = x"
| "found_exec (FNone x) = x"

fun flow_exec :: "'w exec flow \<Rightarrow> 'w exec" where
  "flow_exec (Stop v x) = x"
| "flow_exec (Go x) = x"

lemma scene_ready_quiet:
  assumes "scene_ready ev t x = Inr r"
  shows "quiet_step ev x (found_exec r)"
proof -
  have d: "quiet_step ev x (drop_deferred t x)" by simp
  from assms consider y where "sq_task_failoutright ev t (drop_deferred t x) = Inr y" "r = FReturn y"
    | "r = FTask t (drop_deferred t x)"
    unfolding scene_ready_def by (auto simp: bindE_eq_Inr Let_def split: if_splits)
  then show ?thesis
  proof cases
    case (1 y)
    from quiet_trans [OF d sq_task_failoutright_quiet [OF 1(1)]] 1(2) show ?thesis by simp
  qed (use d in simp)
qed

lemma enable_harddeps_quiet: "quiet_step ev x (found_exec (enable_harddeps deps t x))"
  by (simp add: enable_harddeps_def Let_def quiet_step_def)

lemma scene_try_quiet:
  assumes "scene_try ev t x = Inr r"
  shows "quiet_step ev x (found_exec r)"
proof -
  from assms consider "r = FNone x"
    | y where "sq_task_skip ev t x = Inr y" "r = FReturn (drop_deferred t (y\<lparr>x_sq_notneeded := sadd t (x_sq_notneeded y)\<rparr>))"
    | "r = enable_harddeps (open_harddeps t x) t x" | "scene_ready ev t x = Inr r"
    unfolding scene_try_def by (auto simp: bindE_eq_Inr split: if_splits)
  then show ?thesis
  proof cases
    case (2 y)
    have "quiet_step ev x y" using 2(1) by (rule sq_task_skip_quiet)
    also have "quiet_step ev y (y\<lparr>x_sq_notneeded := sadd t (x_sq_notneeded y)\<rparr>)" by (rule quiet_updates)
    also have "quiet_step ev \<dots> (drop_deferred t \<dots>)" by (rule quiet_updates)
    finally show ?thesis unfolding 2(2) by simp
  next
    case 3
    then show ?thesis using enable_harddeps_quiet by simp
  next
    case 4
    then show ?thesis by (rule scene_ready_quiet)
  qed simp
qed

lemma scene_search_quiet: "scene_search ev k x = Inr r \<Longrightarrow> quiet_step ev x (found_exec r)"
proof (induction k arbitrary: x)
  case (Suc k)
  let ?x = "snd (next_setscene ev x)"
  from Suc.prems obtain q where q: "scene_try ev (fst (next_setscene ev x)) ?x = Inr q"
    "(case q of FNone x \<Rightarrow> scene_search ev k x | FReturn x \<Rightarrow> Inr (FReturn x) | FTask t x \<Rightarrow> Inr (FTask t x)) = Inr r"
    by (auto simp: bindE_eq_Inr)
  have "quiet_step ev x ?x" by (simp add: next_setscene_def)
  then have 1: "quiet_step ev x (found_exec q)" using scene_try_quiet [OF q(1)] by (rule quiet_trans)
  show ?case
  proof (cases q)
    case (FNone y)
    with q(2) have "quiet_step ev y (found_exec r)" by (intro Suc.IH) simp
    with 1 FNone show ?thesis by (auto intro: quiet_trans)
  qed (use 1 q(2) in auto)
qed auto

lemma can_start_quiet: "quiet_step ev x y \<Longrightarrow> can_start_task ev y = can_start_task ev x"
  by (simp add: quiet_step_def can_start_task_def)

lemma send_task_quiet: "send_task ev mc f msg x = Some y \<Longrightarrow> quiet_step ev x y"
  by (auto simp: send_task_def quiet_step_def emit_def split: if_splits)

lemma note_stamp_quiet [simp]: "quiet_step ev x (note_stamp ev t a b x)"
  by (simp add: note_stamp_def Let_def quiet_step_def)

lemma scene_send_good:
  assumes g: "good ev g x" and c: "can_start_task ev x" and r: "scene_send ev t x = Inr r"
  shows "good ev g (flow_exec r)"
proof -
  let ?x = "emit (SceneStarted t) x"
  from r obtain mc f msg y n fn where s: "send_task ev mc f msg ?x = Some y" "flow_exec r =
      (let x = note_stamp ev t n fn y; x = x\<lparr>x_sq_running := sadd t (x_sq_running x), x_sq_live := sadd t (x_sq_live x)\<rparr>
       in x\<lparr>x_stats := updateActiveSetscene (int (length (x_sq_live x))) (x_stats x)\<rparr>)"
    unfolding scene_send_def by (auto simp: bindE_eq_Inr Let_def split: option.splits if_splits)
  have "quiet_step ev x ?x" by (simp add: quiet_emit)
  also have "quiet_step ev ?x y" using s(1) by (rule send_task_quiet)
  also have "quiet_step ev y (note_stamp ev t n fn y)" by simp
  finally have q: "quiet_step ev x (note_stamp ev t n fn y)" .
  define z where "z = note_stamp ev t n fn y"
  have gz: "good ev g z" unfolding z_def using g q by (rule good_quiet)
  have cz: "can_start_task ev z" unfolding z_def using can_start_quiet [OF q] c by simp
  have "length (sadd t (x_sq_live z)) \<le> Suc (length (x_sq_live z))" by (simp add: sadd_def)
  with cz have "st_active (x_stats z) + int (length (sadd t (x_sq_live z))) \<le> ev_number_tasks ev"
    by (simp add: can_start_task_def)
  with gz show ?thesis unfolding s(2) Let_def z_def [symmetric] good_def by (simp add: updateActiveSetscene_def)
qed

lemma scene_start_good:
  assumes g: "good ev g x" and c: "can_start_task ev x" and r: "scene_start ev t x = Inr r"
  shows "good ev g (flow_exec r)"
proof -
  from r obtain n b x1 where s1: "stamp_current ev t n True x = Inr (b, x1)" and
    r1: "(if b \<or> (ev_force ev \<and> t \<in> set (ev_targets ev))
     then bindE (sq_task_failoutright ev t x1) (\<lambda>x. Inr (Stop RTrue x))
     else bindE (split_tid_mcfn t) (\<lambda>(mc, fn, taskname, taskfn).
          bindE (stamp_current ev t (taskname @ ''_setscene'') False x1) (\<lambda>(current, x).
          if current then bindE (sq_task_skip ev t x) (\<lambda>x. Inr (Stop RTrue x))
          else if ev_skipsetscene ev then bindE (sq_task_failoutright ev t x) (\<lambda>x. Inr (Stop RTrue x))
          else scene_send ev t x))) = Inr r"
    unfolding scene_start_def by (auto simp: bindE_eq_Inr)
  have q1: "quiet_step ev x x1" using s1 by (rule stamp_current_quiet)
  have g1: "good ev g x1" using g q1 by (rule good_quiet)
  show ?thesis
  proof (cases "b \<or> (ev_force ev \<and> t \<in> set (ev_targets ev))")
    case True
    with r1 obtain y where "sq_task_failoutright ev t x1 = Inr y" "r = Stop RTrue y" by (auto simp: bindE_eq_Inr)
    with g1 show ?thesis by (auto intro: good_quiet sq_task_failoutright_quiet)
  next
    case False
    with r1 obtain m b2 x2 where s2: "stamp_current ev t m False x1 = Inr (b2, x2)" and
      r2: "(if b2 then bindE (sq_task_skip ev t x2) (\<lambda>x. Inr (Stop RTrue x))
          else if ev_skipsetscene ev then bindE (sq_task_failoutright ev t x2) (\<lambda>x. Inr (Stop RTrue x))
          else scene_send ev t x2) = Inr r"
      by (auto simp: bindE_eq_Inr)
    have q2: "quiet_step ev x1 x2" using s2 by (rule stamp_current_quiet)
    have g2: "good ev g x2" using g1 q2 by (rule good_quiet)
    have c2: "can_start_task ev x2" using c can_start_quiet [OF q1] can_start_quiet [OF q2] by simp
    show ?thesis
    proof (cases "b2 \<or> ev_skipsetscene ev")
      case True
      with r2 obtain y where "sq_task_skip ev t x2 = Inr y \<or> sq_task_failoutright ev t x2 = Inr y" "r = Stop RTrue y"
        by (auto simp: bindE_eq_Inr split: if_splits)
      with g2 show ?thesis by (auto intro: good_quiet sq_task_failoutright_quiet sq_task_skip_quiet)
    next
      case False
      with r2 have "scene_send ev t x2 = Inr r" by simp
      with g2 c2 show ?thesis by (rule scene_send_good)
    qed
  qed
qed

lemma scene_part_good:
  assumes g: "good ev g x" and r: "scene_part ev x = Inr r"
  shows "good ev g (flow_exec r)"
proof (cases "x_sqdone x \<or> \<not> can_start_task ev x")
  case True
  with g r show ?thesis by (auto simp: scene_part_def)
next
  case False
  with r obtain f where f: "scene_search ev (length (ev_setscene ev)) x = Inr f"
    "(case f of FReturn x \<Rightarrow> Inr (Stop RTrue x) | FNone x \<Rightarrow> Inr (Go x) | FTask t x \<Rightarrow> scene_start ev t x) = Inr r"
    by (auto simp: scene_part_def bindE_eq_Inr)
  have q: "quiet_step ev x (found_exec f)" using f(1) by (rule scene_search_quiet)
  have gf: "good ev g (found_exec f)" using g q by (rule good_quiet)
  show ?thesis
  proof (cases f)
    case (FTask t y)
    then have "can_start_task ev y" using can_start_quiet [OF q] False by simp
    with f(2) FTask gf show ?thesis by (auto intro: scene_start_good)
  qed (use f(2) gf in auto)
qed

subsection \<open>Ordinary tasks\<close>

text \<open>The scheduler gives a buildable task that does not run.\<close>

lemma pick_best_mem:
  "pick_best sc v skip tids best = Inr b \<Longrightarrow> b = best \<or> (\<exists>t p. b = Some (t, p) \<and> t \<in> set tids)"
proof (induction sc v skip tids best rule: pick_best.induct)
  case (2 sc v skip tid tids best)
  from 2(5) obtain p where p: "dindex (sc_rev_prio_map sc) tid = Inr p" by (auto simp: bindE_eq_Inr)
  let ?better = "case best of None \<Rightarrow> True | Some (_, bestprio) \<Rightarrow> bestprio > p"
  show ?case
  proof (cases "?better")
    case False
    with 2(5) p have "pick_best sc v skip tids best = Inr b" by (simp split: option.splits prod.splits)
    from 2(4) [OF p False this] show ?thesis by auto
  next
    case True
    with 2(5) p obtain k full where k: "taskname_from_tid tid = Inr k" "limit_reached (sc_skip_maxthread sc) skip k = Inr full"
      "(if full then pick_best sc v skip tids best
        else bindE (dindex (sc_stamps sc) tid) (\<lambda>stamp.
               if stamp \<in> set (rv_build_stamps v) then pick_best sc v skip tids best
               else pick_best sc v skip tids (Some (tid, p)))) = Inr b" by (auto simp: bindE_eq_Inr)
    show ?thesis
    proof (cases full)
      case full: True
      with k(3) have "pick_best sc v skip tids best = Inr b" by simp
      from 2(1) [OF p True k(1,2) full this] show ?thesis by auto
    next
      case full: False
      with k(3) obtain st where st: "dindex (sc_stamps sc) tid = Inr st"
        "(if st \<in> set (rv_build_stamps v) then pick_best sc v skip tids best
          else pick_best sc v skip tids (Some (tid, p))) = Inr b" by (auto simp: bindE_eq_Inr)
      show ?thesis
      proof (cases "st \<in> set (rv_build_stamps v)")
        case m: True
        with st(2) have "pick_best sc v skip tids best = Inr b" by simp
        from 2(2) [OF p True k(1,2) full st(1) m this] show ?thesis by auto
      next
        case m: False
        with st(2) have "pick_best sc v skip tids (Some (tid, p)) = Inr b" by simp
        from 2(3) [OF p True k(1,2) full st(1) m this] show ?thesis by auto
      qed
    qed
  qed
qed simp

lemma choose_best_mem:
  assumes "choose_best sc v skip tids = (r, sc')"
  shows "sc_buildable sc' = sc_buildable sc" and "r = Inr (Some t) \<Longrightarrow> t \<in> set tids"
proof -
  define m where "m = (if sc_rev_prio_map sc = [] then make_rev_prio_map (rv_runtasks v) (sc_prio_map sc)
            else Inr (sc_rev_prio_map sc))"
  from assms have *: "r = (case m of Inl e \<Rightarrow> Inl e | Inr k \<Rightarrow>
      bindE (pick_best (sc\<lparr>sc_rev_prio_map := k\<rparr>) v skip tids None) (\<lambda>best. Inr (map_option fst best)))"
    "sc_buildable sc' = sc_buildable sc"
    unfolding choose_best_def Let_def m_def [symmetric] by (auto split: sum.splits)
  show "sc_buildable sc' = sc_buildable sc" by (rule *)
  show "t \<in> set tids" if "r = Inr (Some t)"
    using that *(1) by (auto simp: bindE_eq_Inr split: sum.splits dest!: pick_best_mem)
qed

lemma next_buildable_mem:
  assumes "next_buildable_task v sc = (r, sc')"
  shows "set (sc_buildable sc') \<subseteq> set (sc_buildable sc)"
    and "r = Inr (Some t) \<Longrightarrow> t \<in> set (sc_buildable sc) \<and> t \<notin> set (rv_running v)"
proof -
  define s0 where "s0 = sc\<lparr>sc_buildable := sdiff (sc_buildable sc) (rv_running v)\<rparr>"
  define bl where "bl = sinter (sdiff (sc_buildable s0) (rv_holdoff v)) (rv_covered v @ rv_notcovered v)"
  have bl: "t \<in> set bl \<Longrightarrow> t \<in> set (sc_buildable sc) \<and> t \<notin> set (rv_running v)" for t by (auto simp: bl_def s0_def)
  have b0: "set (sc_buildable s0) \<subseteq> set (sc_buildable sc)" by (auto simp: s0_def)
  from assms consider (stop) e where "r \<noteq> Inr (Some t)" "sc_buildable sc' = sc_buildable s0"
    | (one) tid where "bl = [tid]" "r = Inr (Some tid)" "sc_buildable sc' = sc_buildable s0"
    | (choose) m skip xs where "choose_best (s0\<lparr>sc_skip_maxthread := m\<rparr>) v skip xs = (r, sc')" "set xs \<subseteq> set bl"
    unfolding next_buildable_task_def Let_def s0_def [symmetric] bl_def [symmetric]
    by (auto split: if_splits sum.splits prod.splits list.splits bool.splits)
  then show "set (sc_buildable sc') \<subseteq> set (sc_buildable sc)"
  proof cases
    case choose
    from choose_best_mem(1) [OF choose(1)] b0 show ?thesis by simp
  qed (use b0 in auto)
  from assms consider (stop) e where "r \<noteq> Inr (Some t)"
    | (one) tid where "bl = [tid]" "r = Inr (Some tid)"
    | (choose) m skip xs where "choose_best (s0\<lparr>sc_skip_maxthread := m\<rparr>) v skip xs = (r, sc')" "set xs \<subseteq> set bl"
    unfolding next_buildable_task_def Let_def s0_def [symmetric] bl_def [symmetric]
    by (auto split: if_splits sum.splits prod.splits list.splits bool.splits)
  then show "t \<in> set (sc_buildable sc) \<and> t \<notin> set (rv_running v)" if "r = Inr (Some t)"
  proof cases
    case choose
    from choose_best_mem(2) [OF choose(1) that] choose(2) bl show ?thesis by blast
  qed (use bl that in auto)
qed

lemma choose_task_good:
  assumes g: "good ev g x" and r: "choose_task ev x = Inr (task, y)"
  shows "good ev g y" and "task = Some t \<Longrightarrow> set (deps_of g t) \<subseteq> set (x_complete y)"
    and "task = Some t \<Longrightarrow> t \<notin> set (x_running y)" and "task = Some t \<Longrightarrow> can_start_task ev y"
proof -
  have "good ev g y \<and> (task = Some t \<longrightarrow> set (deps_of g t) \<subseteq> set (x_complete y) \<and> t \<notin> set (x_running y) \<and> can_start_task ev y)"
  proof (cases "ev_setsceneonly ev \<or> \<not> can_start_task ev x")
    case True
    with r have "y = x \<or> y = x\<lparr>x_sched := x_sched x\<rparr>" "task = None"
      by (auto simp: choose_task_def next_task_def view_def Let_def split: if_splits)
    with g show ?thesis by auto
  next
    case False
    obtain q sc where n: "next_buildable_task (view ev x) (x_sched x) = (q, sc)" by (cases "next_buildable_task (view ev x) (x_sched x)")
    with False r have q: "q = Inr task" "y = x\<lparr>x_sched := sc\<rparr>"
      by (auto simp: choose_task_def next_task_def view_def Let_def bindE_eq_Inr)
    have sub: "set (sc_buildable sc) \<subseteq> set (sc_buildable (x_sched x))" by (rule next_buildable_mem(1) [OF n])
    have "good ev g y" using g sub unfolding q(2) good_def by auto
    moreover have "set (deps_of g t) \<subseteq> set (x_complete y) \<and> t \<notin> set (x_running y) \<and> can_start_task ev y" if "task = Some t"
      using next_buildable_mem(2) [OF n, of t] that goodD(3) [OF g, of t] False
      by (simp add: q view_def can_start_task_def)
    ultimately show ?thesis by blast
  qed
  then show "good ev g y" "task = Some t \<Longrightarrow> set (deps_of g t) \<subseteq> set (x_complete y)"
    "task = Some t \<Longrightarrow> t \<notin> set (x_running y)" "task = Some t \<Longrightarrow> can_start_task ev y" by blast+
qed

text \<open>
  What holds when the queue has failed or is complete: the parts of the invariant about what has happened. A complete
  queue has completed every task, unless only setscene tasks were asked for or the tasks allowed to run are restricted.
\<close>

definition safe :: "'w exec_env \<Rightarrow> taskgraph \<Rightarrow> 'w exec \<Rightarrow> bool" where
  "safe ev g x \<longleftrightarrow>
     in_order g (x_trace x) \<and> distinct (begun (x_trace x)) \<and> set (x_complete x) \<subseteq> ended (x_trace x) \<and>
     (honest (x_trace x) \<longrightarrow> int (length (under_way (x_trace x)) + length (x_sq_live x)) \<le> ev_number_tasks ev)"

definition all_complete :: "'w exec_env \<Rightarrow> taskgraph \<Rightarrow> 'w exec \<Rightarrow> bool" where
  "all_complete ev g x \<longleftrightarrow>
     ev_setsceneonly ev \<or> ev_ignore_tasks ev \<noteq> None \<or> WorkerDied \<in> set (x_trace x) \<or> nodes g \<subseteq> set (x_complete x)"

definition settled :: "'w exec_env \<Rightarrow> taskgraph \<Rightarrow> 'w exec \<Rightarrow> bool" where
  "settled ev g x \<longleftrightarrow>
     good ev g x \<or> x_state x = RqFailed \<and> safe ev g x \<or> x_state x = RqComplete \<and> safe ev g x \<and> all_complete ev g x"

lemma good_safe: "good ev g x \<Longrightarrow> safe ev g x"
  by (auto simp: good_def safe_def accounted_def)

lemma good_settled: "good ev g x \<Longrightarrow> settled ev g x"
  by (simp add: settled_def)

lemma settled_safe: "settled ev g x \<Longrightarrow> safe ev g x"
  by (auto simp: settled_def good_safe)

lemma settled_complete: "settled ev g x \<Longrightarrow> x_state x = RqComplete \<Longrightarrow> all_complete ev g x"
  by (auto simp: settled_def good_def all_complete_def)

lemma begin_good:
  assumes g: "good ev g x" and d: "set (deps_of g t) \<subseteq> set (x_complete x)" and n: "t \<notin> set (x_running x)"
    and c: "can_start_task ev x"
  shows "good ev g ((emit (TaskStarted t b) x)\<lparr>x_running := sadd t (x_running x), x_stats := taskActive (x_stats x)\<rparr>)"
proof -
  have "set (deps_of g t) \<subseteq> ended (x_trace x)" using d goodD(4) [OF g] by blast
  moreover have "t \<notin> set (begun (x_trace x))" using n goodD(6) [OF g] by blast
  ultimately show ?thesis
    using g c unfolding good_def
    by (simp add: emit_def in_order_snoc taskActive_def can_start_task_def subset_insertI2)
qed

lemma run_noexec_good:
  assumes g: "good ev g x" and d: "set (deps_of g t) \<subseteq> set (x_complete x)" and n: "t \<notin> set (x_running x)"
    and c: "can_start_task ev x" and r: "run_noexec ev t name fn x = Inr r"
  shows "good ev g (flow_exec r)"
proof -
  let ?x = "(emit (TaskStarted t True) x)\<lparr>x_running := sadd t (x_running x), x_stats := taskActive (x_stats x)\<rparr>"
  have e: "x_running (emit e x) = x_running x" "x_stats (emit e x) = x_stats x" for e by (simp_all add: emit_def)
  define z where "z = (if ev_dry_run ev \<or> ev_enforce ev then ?x
      else ?x\<lparr>x_world := wo_make_stamp (ev_ops ev) name fn (x_world ?x)\<rparr>)"
  have "run_noexec ev t name fn x = bindE (task_complete ev t z) (\<lambda>x. Inr (Stop RTrue x))"
    unfolding run_noexec_def z_def Let_def e by (rule refl)
  with r obtain y where y: "task_complete ev t z = Inr y" "r = Stop RTrue y" by (auto simp: bindE_eq_Inr)
  have "good ev g ?x" using g d n c by (rule begin_good)
  then have "good ev g z" by (rule good_quiet) (simp add: z_def)
  then show ?thesis using y by (auto intro: task_complete_good)
qed

lemma run_task_settled:
  assumes g: "good ev g x" and d: "set (deps_of g t) \<subseteq> set (x_complete x)" and n: "t \<notin> set (x_running x)"
    and c: "can_start_task ev x" and r: "run_task ev t x = Inr r"
  shows "good ev g (flow_exec r) \<or> (\<exists>y. r = Stop RTrue y \<and> x_state y = RqFailed \<and> safe ev g y)"
proof -
  let ?x = "emit (TaskStarted t False) x"
  from r consider (failed) "r = Stop RTrue (?x\<lparr>x_state := RqFailed, x_stats := taskFailed (x_stats ?x)\<rparr>)"
    | (sent) mc f msg name fn y where "send_task ev mc f msg ?x = Some y"
      "flow_exec r = (let x = note_stamp ev t name fn y in x\<lparr>x_running := sadd t (x_running x), x_stats := taskActive (x_stats x)\<rparr>)"
    unfolding run_task_def by (auto simp: bindE_eq_Inr Let_def split: option.splits if_splits)
  then show ?thesis
  proof cases
    case failed
    have "set (deps_of g t) \<subseteq> ended (x_trace x)" using d goodD(4) [OF g] by blast
    moreover have "t \<notin> set (begun (x_trace x))" using n goodD(6) [OF g] by blast
    ultimately have "safe ev g (?x\<lparr>x_state := RqFailed, x_stats := taskFailed (x_stats ?x)\<rparr>)"
      using g c unfolding good_def safe_def
      by (auto simp: emit_def in_order_snoc can_start_task_def accounted_def honest_snoc under_way_snoc)
    then show ?thesis unfolding failed by simp
  next
    case (sent mc f msg name fn y)
    define z where "z = note_stamp ev t name fn y"
    let ?b = "\<lambda>x. x\<lparr>x_running := sadd t (x_running x), x_stats := taskActive (x_stats x)\<rparr>"
    have q: "quiet_step ev ?x z" unfolding z_def using send_task_quiet [OF sent(1)] note_stamp_quiet by (rule quiet_trans)
    have "quiet_step ev (?b ?x) (?b z)"
      using q unfolding quiet_step_def by (simp add: taskActive_def)
    moreover have "good ev g (?b ?x)" using begin_good [OF g d n c, of False] by (simp add: emit_def)
    ultimately have "good ev g (?b z)" by (rule good_quiet [rotated])
    then show ?thesis using sent(2) by (simp add: Let_def z_def)
  qed
qed

lemma check_setscene_ignore_quiet:
  assumes "check_setscene_ignore_tasks ev t x = Inr (b, y)"
  shows "quiet_step ev x y"
proof -
  from assms consider "y = x" | n c where "stamp_current ev t n False x = Inr (c, y)"
    unfolding check_setscene_ignore_tasks_def by (auto simp: bindE_eq_Inr split: if_splits)
  then show ?thesis by cases (auto intro: stamp_current_quiet)
qed

text \<open>A piece of \<^verbatim>\<open>execute\<close> that goes on keeps the invariant.\<close>

fun flow_ok :: "'w exec_env \<Rightarrow> taskgraph \<Rightarrow> 'w exec flow \<Rightarrow> bool" where
  "flow_ok ev g (Stop v x) = settled ev g x"
| "flow_ok ev g (Go x) = good ev g x"

lemma flow_ok_good: "good ev g (flow_exec r) \<Longrightarrow> flow_ok ev g r"
  by (cases r) (auto intro: good_settled)

lemma bindF_eq:
  "bindF m f = Inr r \<longleftrightarrow> (\<exists>v x. m = Inr (Stop v x) \<and> r = Stop v x) \<or> (\<exists>x. m = Inr (Go x) \<and> f x = Inr r)"
proof (cases m)
  case (Inr q)
  then show ?thesis by (cases q) (auto simp: bindF_def)
qed (simp add: bindF_def)

lemma start_task_ok:
  assumes g: "good ev g x" and d: "set (deps_of g t) \<subseteq> set (x_complete x)" and n: "t \<notin> set (x_running x)"
    and c: "can_start_task ev x" and r: "start_task ev t x = Inr r"
  shows "flow_ok ev g r"
proof -
  from r obtain mc fn name taskfn where i: "split_tid_mcfn t = Inr (mc, fn, name, taskfn)"
    by (auto simp: start_task_def bindE_eq_Inr)
  from r obtain refused x1 where s1: "(if ev_ignore_tasks ev = None then Inr (False, x)
      else check_setscene_ignore_tasks ev t x) = Inr (refused, x1)" and
    r1: "(if refused then Inr (Stop RTrue (task_fail ev t IgnoreTasks None x1))
      else if t \<in> set (x_tasks_covered x1)
      then bindE (task_skip ev t ''covered'' x1) (\<lambda>x. Inr (Stop RTrue x))
      else bindE (stamp_current ev t name False x1) (\<lambda>(current, x).
          if current
          then bindE (task_skip ev t ''existing'' x) (\<lambda>x.
               Inr (Stop RTrue (x\<lparr>x_tasksrun := sadd t (x_tasksrun x)\<rparr>)))
          else bindE (dindex (ev_caches ev) mc) (\<lambda>c.
               bindE (has_flag c taskfn ''noexec'' name) (\<lambda>noexec.
               if noexec then run_noexec ev t name taskfn x else run_task ev t x)))) = Inr r"
    unfolding start_task_def i bindE_simps prod.case by (auto simp: bindE_eq_Inr [of "if ev_ignore_tasks ev = None then _ else _"])
  have q1: "quiet_step ev x x1"
    using s1 by (auto split: if_splits intro: check_setscene_ignore_quiet)
  have g1: "good ev g x1" using g q1 by (rule good_quiet)
  have d1: "set (deps_of g t) \<subseteq> set (x_complete x1)" "t \<notin> set (x_running x1)" "can_start_task ev x1"
    using d n c q1 can_start_quiet [OF q1] by (simp_all add: quiet_step_def)
  show ?thesis
  proof (cases "refused \<or> t \<in> set (x_tasks_covered x1)")
    case True
    with r1 obtain y where "y = task_fail ev t IgnoreTasks None x1 \<or> task_skip ev t ''covered'' x1 = Inr y" "r = Stop RTrue y"
      by (auto simp: bindE_eq_Inr split: if_splits)
    with g1 d1 show ?thesis by (auto intro!: good_settled intro: task_fail_good task_skip_good)
  next
    case False
    with r1 obtain current x2 where s2: "stamp_current ev t name False x1 = Inr (current, x2)" and
      r2: "(if current then bindE (task_skip ev t ''existing'' x2) (\<lambda>x.
               Inr (Stop RTrue (x\<lparr>x_tasksrun := sadd t (x_tasksrun x)\<rparr>)))
          else bindE (dindex (ev_caches ev) mc) (\<lambda>c.
               bindE (has_flag c taskfn ''noexec'' name) (\<lambda>noexec.
               if noexec then run_noexec ev t name taskfn x2 else run_task ev t x2))) = Inr r"
      by (auto simp: bindE_eq_Inr)
    have q2: "quiet_step ev x1 x2" using s2 by (rule stamp_current_quiet)
    have g2: "good ev g x2" using g1 q2 by (rule good_quiet)
    have d2: "set (deps_of g t) \<subseteq> set (x_complete x2)" "t \<notin> set (x_running x2)" "can_start_task ev x2"
      using d1 q2 can_start_quiet [OF q2] by (simp_all add: quiet_step_def)
    show ?thesis
    proof (cases current)
      case True
      with r2 obtain y where y: "task_skip ev t ''existing'' x2 = Inr y" "r = Stop RTrue (y\<lparr>x_tasksrun := sadd t (x_tasksrun y)\<rparr>)"
        by (auto simp: bindE_eq_Inr)
      have "good ev g y" using g2 d2(1,2) y(1) by (rule task_skip_good)
      from good_settled [OF good_quiet [OF this quiet_updates(20)]] show ?thesis unfolding y(2) by simp
    next
      case False
      with r2 have "run_noexec ev t name taskfn x2 = Inr r \<or> run_task ev t x2 = Inr r"
        by (auto simp: bindE_eq_Inr split: if_splits)
      then show ?thesis
      proof
        assume "run_noexec ev t name taskfn x2 = Inr r"
        then show ?thesis by (rule flow_ok_good [OF run_noexec_good [OF g2 d2]])
      next
        assume "run_task ev t x2 = Inr r"
        from run_task_settled [OF g2 d2 this] show ?thesis by (auto intro: flow_ok_good simp: settled_def)
      qed
    qed
  qed
qed

lemma task_part_ok:
  assumes g: "good ev g x" and r: "task_part ev x = Inr r"
  shows "flow_ok ev g r"
proof -
  from r obtain task y where s: "choose_task ev x = Inr (task, y)"
    "(case task of None \<Rightarrow> Inr (Go y) | Some t \<Rightarrow> start_task ev t y) = Inr r"
    by (auto simp: task_part_def bindE_eq_Inr)
  note c = choose_task_good [OF g s(1)]
  show ?thesis
  proof (cases task)
    case None
    with s(2) c(1) show ?thesis by auto
  next
    case (Some t)
    with s(2) have "start_task ev t y = Inr r" by simp
    then show ?thesis by (rule start_task_ok [OF c(1) c(2-4) [OF Some]])
  qed
qed

subsection \<open>The whole call\<close>

lemma summarise_quiet: "quiet_step ev x (snd (summarise_scenequeue_errors ev x))"
  by (simp add: summarise_scenequeue_errors_def quiet_emit)

lemma complete_settled:
  assumes "good ev g x" and "ev_setsceneonly ev \<or> nodes g \<subseteq> set (x_complete x)"
  shows "settled ev g (x\<lparr>x_state := RqComplete\<rparr>)" "settled ev g (x\<lparr>x_sqdone := b, x_state := RqComplete\<rparr>)"
  using assms good_safe [OF assms(1)] by (auto simp: settled_def good_def safe_def all_complete_def)

lemma scene_finished_ok:
  assumes g: "good ev g x"
  shows "flow_ok ev g (scene_finished ev x)"
proof -
  obtain err y where s: "summarise_scenequeue_errors ev x = (err, y)" by (cases "summarise_scenequeue_errors ev x")
  have gy: "good ev g y" using g summarise_quiet [of ev x] s by (auto intro: good_quiet)
  have "g = []" if "st_total (x_stats y) = 0" using goodD(9) [OF gy] that by simp
  then have e: "nodes g \<subseteq> set (x_complete y)" if "st_total (x_stats y) = 0" using that by (simp add: nodes_def)
  show ?thesis
    using g gy e unfolding scene_finished_def s
    by (auto intro: good_settled good_state complete_settled good_quiet)
qed

lemma last_part_settled:
  assumes g: "good ev g x" and r: "last_part ev es x = Inr (v, y)"
  shows "settled ev g y"
proof (cases "st_active (x_stats x) > 0 \<or> x_sq_live x \<noteq> []")
  case True
  with r have "read_workers ev es x = Inr y" by (auto simp: last_part_def bindE_eq_Inr)
  with g show ?thesis by (blast intro: good_settled read_workers_good)
next
  case idle: False
  show ?thesis
  proof (cases "x_deferred x = [] \<and> x_failed x = []")
    case False
    with idle r have "(\<exists>d. y = x\<lparr>x_deferred := d\<rparr>) \<or> y = x\<lparr>x_state := RqFailed\<rparr>"
      by (auto simp: last_part_def split: list.splits)
    then show ?thesis
    proof (elim disjE exE)
      fix d assume "y = x\<lparr>x_deferred := d\<rparr>"
      with good_settled [OF good_quiet [OF g quiet_updates(12)]] show ?thesis by simp
    next
      assume "y = x\<lparr>x_state := RqFailed\<rparr>"
      with good_settled [OF good_state [OF g]] show ?thesis by simp
    qed
  next
    case True
    obtain err z where s: "summarise_scenequeue_errors ev x = (err, z)" by (cases "summarise_scenequeue_errors ev x")
    have gz: "good ev g z" using g summarise_quiet [of ev x] s by (auto intro: good_quiet)
    from True idle r have y: "y = z\<lparr>x_state := if err \<or> (\<exists>t \<in> set (dkeys (x_graph z)). task_error z t)
        then RqFailed else RqComplete\<rparr>" by (simp add: last_part_def s)
    have "nodes g = nodes (x_graph z)" using same_shapeD(1) [OF goodD(1) [OF gz]] by simp
    then have "nodes g \<subseteq> set (x_complete z)" if "\<not> (\<exists>t \<in> set (dkeys (x_graph z)). task_error z t)"
      using that by (auto simp: nodes_def task_error_def)
    with gz show ?thesis unfolding y by (auto intro: good_settled good_state complete_settled)
  qed
qed

lemma execute_settled:
  assumes g: "good ev g x" and r: "execute ev es es' x = Inr (v, y)"
  shows "settled ev g y"
proof -
  from r obtain x1 x2 f where s: "read_workers ev es x = Inr x1"
    "(if x_updated x1 \<noteq> [] \<or> x_migrations x1 \<noteq> [] then process_possible_migrations ev x1 else Inr x1) = Inr x2"
    "bindF (scene_part ev x2) (\<lambda>x. bindE (update_holdofftasks ev x) (\<lambda>x. bindF (Inr (scene_finished ev x)) (task_part ev))) = Inr f"
    "(case f of Stop v x \<Rightarrow> Inr (v, x) | Go x \<Rightarrow> last_part ev es' x) = Inr (v, y)"
    unfolding execute_def bindE_eq_Inr by blast
  have g1: "good ev g x1" using g s(1) by (rule read_workers_good)
  have "quiet_step ev x1 x2" using s(2) by (auto split: if_splits intro: process_possible_migrations_quiet)
  with g1 have g2: "good ev g x2" by (rule good_quiet)
  have "flow_ok ev g f"
  proof -
    from s(3) consider v z where "scene_part ev x2 = Inr (Stop v z)" "f = Stop v z"
      | z z' where "scene_part ev x2 = Inr (Go z)" "update_holdofftasks ev z = Inr z'"
        "bindF (Inr (scene_finished ev z')) (task_part ev) = Inr f"
      by (auto simp: bindF_eq bindE_eq_Inr)
    then show ?thesis
    proof cases
      case 1
      from flow_ok_good [OF scene_part_good [OF g2 1(1)]] 1(2) show ?thesis by simp
    next
      case (2 z z')
      from scene_part_good [OF g2 2(1)] have "good ev g z" by simp
      then have gz: "good ev g z'" using 2(2) by (rule update_holdofftasks_good)
      note fin = scene_finished_ok [OF gz]
      from 2(3) consider "scene_finished ev z' = f" | w where "scene_finished ev z' = Go w" "task_part ev w = Inr f"
        by (auto simp: bindF_eq)
      then show ?thesis
      proof cases
        case 1
        with fin show ?thesis by simp
      next
        case (2 w)
        with fin have "good ev g w" by simp
        then show ?thesis using 2(2) by (rule task_part_ok)
      qed
    qed
  qed
  then show ?thesis using s(4) last_part_settled by (cases f) auto
qed

lemma finish_settled:
  assumes g: "good ev g x" and st: "x_state x = RqCleanUp" and r: "finish ev es x = Inr (v, y)"
  shows "settled ev g y"
proof (cases "st_active (x_stats x) + int (length (x_sq_live x)) > 0")
  case True
  have same: "x\<lparr>x_state := RqCleanUp\<rparr> = x" using st by simp
  define e where "e = ExitWait (st_active (x_stats x) + int (length (x_sq_live x)))"
  from True r have rd: "read_workers ev es (emit e x) = Inr y"
    unfolding finish_def Let_def same e_def by (auto simp: bindE_eq_Inr)
  have "quiet_step ev x (emit e x)" by (rule quiet_emit) (simp_all add: e_def)
  with g have "good ev g (emit e x)" by (rule good_quiet)
  from good_settled [OF read_workers_good [OF this rd]] show ?thesis .
next
  case False
  with r have y: "y = x\<lparr>x_state := if x_failed x \<noteq> [] then RqFailed else RqComplete\<rparr>"
    by (auto simp: finish_def Let_def)
  show ?thesis
  proof (cases "x_failed x = []")
    case True
    with g st have "ev_ignore_tasks ev \<noteq> None" by (simp add: good_def)
    with good_safe [OF g] True show ?thesis unfolding y by (simp add: settled_def safe_def all_complete_def)
  qed (use g in \<open>auto simp: y intro: good_settled good_state\<close>)
qed

lemma runqueue_step_settled:
  assumes g: "good ev g x" and st: "x_state x \<notin> {RqFailed, RqComplete}"
    and r: "runqueue_step ev es es' es'' x = Inr (out, y)"
  shows "settled ev g y" and "out = Again v \<Longrightarrow> good ev g y \<and> x_state y \<notin> {RqFailed, RqComplete}"
    and "out = Done \<Longrightarrow> x_state y = RqComplete"
proof -
  from r obtain v1 x1 v2 where s: "(if x_state x = RqRunning then execute ev es es' x else Inr (RTrue, x)) = Inr (v1, x1)"
    "(if x_state x1 = RqCleanUp then finish ev es'' x1 else Inr (v1, x1)) = Inr (v2, y)"
    "out = (if x_state y = RqFailed then Failure (x_failed y) else if x_state y = RqComplete then Done else Again v2)"
    by (auto simp: runqueue_step_def bindE_eq_Inr)
  have s1: "settled ev g x1" using s(1) g by (auto split: if_splits intro: execute_settled good_settled)
  show sy: "settled ev g y"
  proof (cases "x_state x1 = RqCleanUp")
    case True
    with s1 have "good ev g x1" by (simp add: settled_def)
    with True s(2) show ?thesis by (auto intro: finish_settled)
  qed (use s1 s(2) in auto)
  show "out = Again v \<Longrightarrow> good ev g y \<and> x_state y \<notin> {RqFailed, RqComplete}"
    using sy s(3) by (auto simp: settled_def split: if_splits)
  show "out = Done \<Longrightarrow> x_state y = RqComplete" using s(3) by (auto split: if_splits)
qed

section \<open>The start\<close>

lemma unskip_task_good:
  assumes g: "good ev g x" and r: "unskip_task scene t (us, x) = Inr (us', y)"
  shows "good ev g y"
proof -
  from r obtain e :: runtaskentry where "y = x \<or> dindex (x_graph x) t = Inr e \<and> re_depends e = [] \<and> y = setbuildable t x"
    by (auto simp: unskip_task_def bindE_eq_Inr split: if_splits)
  then show ?thesis
  proof (elim disjE conjE)
    assume e: "dindex (x_graph x) t = Inr e" "re_depends e = []" and y: "y = setbuildable t x"
    from dindex_deps [OF e(1)] e(2) goodD(10) [OF g] have "deps_of g t = []" by simp
    with g show ?thesis unfolding y by (intro good_setbuildable) simp_all
  qed (use g in simp)
qed

lemma unskip_round_good:
  assumes g: "good ev g x" and r: "unskip_round scene us x = Inr (us', y)"
  shows "good ev g y"
proof -
  have step: "good ev g (snd q)" if "good ev g (snd p)" "unskip_task scene t p = Inr q" for t p q
    using that unskip_task_good [of ev g "snd p" scene t "fst p" "fst q" "snd q"] by simp
  have "good ev g (snd (us', y))"
    by (rule foldE_good_snd [OF r [unfolded unskip_round_def]]) (use g step in auto)
  then show ?thesis by simp
qed

lemma unskip_loop_good: "good ev g x \<Longrightarrow> unskip_loop scene us x = Inr (us', y) \<Longrightarrow> good ev g y"
proof (induction scene us x rule: unskip_loop.induct)
  case (1 scene us x)
  from 1(3) obtain r where r: "unskip_round scene us x = Inr r"
    "(if set (fst r) = set us then Inr r else unskip_loop scene (fst r) (snd r)) = Inr (us', y)"
    by (subst (asm) unskip_loop.simps) (auto split: sum.splits)
  have g: "good ev g (snd r)" using unskip_round_good [OF 1(2), of scene us "fst r" "snd r"] r(1) by simp
  show ?case
  proof (cases "set (fst r) = set us")
    case True
    with r(2) g show ?thesis by auto
  next
    case False
    from 1(1) [OF r(1) False g] r(2) False show ?thesis by simp
  qed
qed

lemma build_scenequeue_data_good:
  assumes g: "good ev g x" and r: "build_scenequeue_data ev x = Inr y"
  shows "good ev g y"
proof -
  from r obtain us z dn sq b d where s: "unskip_loop (ev_setscene ev) (unskippable_start (cantskip ev (x_graph x)) (x_graph x)) x = Inr (us, z)"
    "y = z\<lparr>x_scene_done := dn, x_sq := sq, x_sq_buildable := b, x_deferred := d\<rparr>"
    by (auto simp: build_scenequeue_data_def Let_def bindE_eq_Inr)
  have "good ev g z" using g s(1) by (rule unskip_loop_good)
  then show ?thesis unfolding s(2) by (rule good_quiet) (simp add: quiet_step_def)
qed

lemma new_exec_good:
  assumes "0 < ev_number_tasks ev" and "new_scheduler ev w g = Inr sched"
  shows "good ev g (new_exec ev g w sched)"
proof -
  have "sc_buildable sched = []"
    using assms(2) by (auto simp: new_scheduler_def Let_def bindE_eq_Inr scheduler_init_def)
  with assms(1) show ?thesis by (simp add: good_def new_exec_def stats_init_def)
qed

lemma exec_init_good:
  assumes "exec_init ev g w = Inr x"
  shows "good ev g x"
proof -
  from assms obtain sched y where s: "0 < ev_number_tasks ev" "new_scheduler ev w g = Inr sched"
    "build_scenequeue_data ev (new_exec ev g w sched) = Inr y" "update_scenequeue_data ev (dkeys (sq_revdeps (x_sq y))) y = Inr x"
    by (auto simp: exec_init_def bindE_eq_Inr split: if_splits)
  have "good ev g y" using new_exec_good [OF s(1,2)] s(3) by (rule build_scenequeue_data_good)
  then show ?thesis using s(4) by (blast intro: good_quiet update_scenequeue_data_quiet)
qed

lemma quiet_notcovered [simp]: "quiet_step ev x (x\<lparr>x_tasks_notcovered := a\<rparr>)"
  by (simp add: quiet_step_def)

lemma start_running_good:
  assumes g: "good ev g x" and d: "distinct (dkeys g)"
  shows "good ev g (start_running ev x)"
proof -
  let ?f = "\<lambda>kv x. let x = (if re_depends (snd kv) = [] then setbuildable (fst kv) x else x)
                 in x\<lparr>x_tasks_notcovered := sadd (fst kv) (x_tasks_notcovered x)\<rparr>"
  have k: "dkeys (x_graph x) = dkeys g" using goodD(1) [OF g] by (simp add: same_shape_def)
  have step: "good ev g (?f kv y)" if "kv \<in> set (x_graph x)" "good ev g y" for kv and y :: "'a exec"
  proof -
    obtain t e where kv: "kv = (t, e)" by (cases kv)
    have "dget (x_graph x) t = Some e" using that(1) d k by (simp add: kv)
    then have "deps_of g t = re_depends e" using goodD(10) [OF g, of t] by simp
    then have "good ev g (if re_depends e = [] then setbuildable t y else y)"
      using that(2) by (auto intro: good_setbuildable)
    then show ?thesis unfolding kv Let_def fst_conv snd_conv by (rule good_quiet) (rule quiet_notcovered)
  qed
  have "good ev g (fold ?f (x_graph x) x)"
    by (rule fold_invariant_mem [where P = "good ev g", OF g step])
  then have "good ev g (if ev_setscene ev \<noteq> [] then x else (fold ?f (x_graph x) x)\<lparr>x_sqdone := True\<rparr>)"
    using g by (auto intro: good_quiet [OF _ quiet_updates(19)])
  from good_state [OF this] show ?thesis by (simp add: start_running_def Let_def)
qed

lemma start_running_state [simp]: "x_state (start_running ev x) = RqRunning"
  by (simp add: start_running_def Let_def)

section \<open>Runs\<close>

text \<open>A transition system with an invariant.\<close>

locale invariant_machine =
  fixes start :: "'s \<Rightarrow> bool" and step :: "'s \<Rightarrow> 's \<Rightarrow> bool" and inv :: "'s \<Rightarrow> bool"
  assumes inv_start: "start s \<Longrightarrow> inv s" and inv_step: "inv s \<Longrightarrow> step s t \<Longrightarrow> inv t"
begin

lemma inv_steps: "step\<^sup>*\<^sup>* s t \<Longrightarrow> inv s \<Longrightarrow> inv t"
  by (induction rule: rtranclp_induct) (auto intro: inv_step)

lemma inv_reached: "start s \<Longrightarrow> step\<^sup>*\<^sup>* s t \<Longrightarrow> inv t"
  using inv_steps inv_start by blast

end

text \<open>
  A run starts with an initialised queue and goes on while the calls ask for another one. Between two calls the world
  may change in any way: the workers write stamps.
\<close>

inductive run_start :: "'w exec_env \<Rightarrow> taskgraph \<Rightarrow> 'w \<Rightarrow> 'w exec \<Rightarrow> bool" for ev g w where
  "exec_init ev g w = Inr x \<Longrightarrow> run_start ev g w (start_running ev x)"

inductive run_step :: "'w exec_env \<Rightarrow> 'w exec \<Rightarrow> 'w exec \<Rightarrow> bool" for ev where
  "runqueue_step ev es es' es'' x = Inr (Again v, y) \<Longrightarrow> run_step ev x (y\<lparr>x_world := w\<rparr>)"

inductive_cases run_startE: "run_start ev g w x"
inductive_cases run_stepE: "run_step ev x y"

definition run_ok :: "'w exec_env \<Rightarrow> taskgraph \<Rightarrow> 'w exec \<Rightarrow> bool" where
  "run_ok ev g x \<longleftrightarrow> good ev g x \<and> x_state x \<notin> {RqFailed, RqComplete}"

lemma run_start_ok: "run_start ev g w x \<Longrightarrow> distinct (dkeys g) \<Longrightarrow> run_ok ev g x"
  by (auto elim!: run_startE simp: run_ok_def start_running_good exec_init_good)

lemma run_step_ok:
  assumes "run_ok ev g x" and "run_step ev x y"
  shows "run_ok ev g y"
proof -
  from assms(2) obtain es es' es'' v z w where s: "runqueue_step ev es es' es'' x = Inr (Again v, z)" "y = z\<lparr>x_world := w\<rparr>"
    by (auto elim: run_stepE)
  have "good ev g z \<and> x_state z \<notin> {RqFailed, RqComplete}"
    using runqueue_step_settled(2) [OF _ _ s(1)] assms(1) by (auto simp: run_ok_def)
  then show ?thesis unfolding s(2) run_ok_def by (auto intro: good_quiet)
qed

interpretation queue_run: invariant_machine "\<lambda>x. run_start ev g w x \<and> distinct (dkeys g)" "run_step ev" "run_ok ev g"
  for ev g w
  by unfold_locales (auto intro: run_start_ok run_step_ok)

lemma run_settled:
  assumes "run_start ev g w s" and "distinct (dkeys g)" and "(run_step ev)\<^sup>*\<^sup>* s x"
    and "runqueue_step ev es es' es'' x = Inr (out, y)"
  shows "settled ev g y" and "out = Done \<Longrightarrow> x_state y = RqComplete"
proof -
  have ok: "good ev g x" "x_state x \<notin> {RqFailed, RqComplete}"
    using queue_run.inv_reached [of ev g w s x] assms(1-3) by (simp_all add: run_ok_def)
  show "settled ev g y" "out = Done \<Longrightarrow> x_state y = RqComplete"
    using runqueue_step_settled [OF ok assms(4)] by blast+
qed

text \<open>C1. Whatever the workers report and however the world changes, after every call of the run queue: each task
  began at most once, and only after all the tasks it depends on had ended (completed, or skipped because they are covered
  or their stamp is current). As long as only tasks that are under way end (no worker reports a task twice or one that was
  not started, and no task is refused because of BB_SETSCENE_ENFORCE), no more tasks are under way, that is started but
  neither completed nor failed, together with the setscene tasks that run, than BB_NUMBER_THREADS.\<close>

theorem tasks_run_in_order:
  assumes "run_start ev g w s" and "distinct (dkeys g)" and "(run_step ev)\<^sup>*\<^sup>* s x"
    and "runqueue_step ev es es' es'' x = Inr (out, y)"
  shows "in_order g (x_trace y) \<and> distinct (begun (x_trace y)) \<and>
    (honest (x_trace y) \<longrightarrow> int (length (under_way (x_trace y)) + length (x_sq_live y)) \<le> ev_number_tasks ev)"
  using settled_safe [OF run_settled(1) [OF assms]] by (simp add: safe_def)

text \<open>C2. A run that is done has completed every task of the graph, unless only the setscene tasks were asked for,
  the tasks allowed to run are restricted or a worker died.\<close>

theorem run_done_complete:
  assumes "run_start ev g w s" and "distinct (dkeys g)" and "(run_step ev)\<^sup>*\<^sup>* s x"
    and "runqueue_step ev es es' es'' x = Inr (Done, y)"
    and "\<not> ev_setsceneonly ev" and "ev_ignore_tasks ev = None" and "WorkerDied \<notin> set (x_trace y)"
  shows "nodes g \<subseteq> set (x_complete y) \<and> nodes g \<subseteq> ended (x_trace y)"
proof -
  note s = run_settled [OF assms(1-4)]
  have "nodes g \<subseteq> set (x_complete y)"
    using settled_complete [OF s(1) s(2) [OF refl]] assms(5-7) by (simp add: all_complete_def)
  moreover have "set (x_complete y) \<subseteq> ended (x_trace y)"
    using settled_safe [OF s(1)] by (simp add: safe_def)
  ultimately show ?thesis by blast
qed

subsection \<open>An example\<close>

text \<open>Two tasks, of which the first depends on the second, and one worker.\<close>

definition demo_graph :: taskgraph where
  "demo_graph =
     [(''a.bb:do_a'', \<lparr>re_depends = [''b.bb:do_b''], re_revdeps = [], re_hash = Some ''ha'', re_unihash = Some ''ha'',
                      re_task = None, re_weight = 10\<rparr>),
      (''b.bb:do_b'', \<lparr>re_depends = [], re_revdeps = [''a.bb:do_a''], re_hash = Some ''hb'', re_unihash = Some ''hb'',
                      re_task = None, re_weight = 20\<rparr>)]"

definition demo_cache :: cachedata where
  "demo_cache = init_cacheData\<lparr>
     dc_task_deps := [(''a.bb'', \<lparr>td_tasks = [], td_parents = [], td_flags = []\<rparr>),
                      (''b.bb'', \<lparr>td_tasks = [], td_parents = [], td_flags = []\<rparr>)],
     dc_pkg_fn := [(''a.bb'', ''a''), (''b.bb'', ''b'')], dc_hashfn := [(''a.bb'', ''a''), (''b.bb'', ''b'')],
     dc_fakerootenv := [(''a.bb'', []), (''b.bb'', [])], dc_fakerootdirs := [(''a.bb'', []), (''b.bb'', [])],
     dc_fakerootnoenv := [(''a.bb'', []), (''b.bb'', [])]\<rparr>"

text \<open>A world without stamps.\<close>

definition demo_ops :: "unit world_ops" where
  "demo_ops = \<lparr>wo_stampfile = (\<lambda>w taskname taskfn extra. taskfn @ taskname), wo_mtime = (\<lambda>w f. None),
     wo_make_stamp = (\<lambda>taskname taskfn w. w), wo_pressure = (\<lambda>w. False), wo_spawn = (\<lambda>w mc. True), wo_hashcheck = None,
     wo_siggen = \<lparr>sg_taskhash = (\<lambda>w tid deps. (tid, w)), sg_unihashes = (\<lambda>w tids. (\<lambda>t. t, w))\<rparr>,
     wo_set_unihash = (\<lambda>tid u w. w), wo_report_unihash = (\<lambda>tid h u n w. w), wo_save_unihashes = (\<lambda>w. w)\<rparr>"

definition demo_env :: "unit exec_env" where
  "demo_env = \<lparr>ev_ops = demo_ops, ev_caches = [([], demo_cache)], ev_taskData = [], ev_setscene = [],
     ev_targets = [''a.bb:do_a''], ev_ignore_tasks = None, ev_enforce = False, ev_number_tasks = 1,
     ev_scheduler = ''speed'', ev_number_threads = (\<lambda>t. None), ev_depvalid = None, ev_halt = True, ev_force = False,
     ev_dry_run = False, ev_skipsetscene = False, ev_setsceneonly = False, ev_depth = 10\<rparr>"

text \<open>A call in which the workers report the given exits at the last reading.\<close>

definition demo_call :: "wevent list \<Rightarrow> unit exec \<Rightarrow> (outcome \<times> unit exec) result" where
  "demo_call es x = runqueue_step demo_env [] es [] x"

definition demo_run :: "(outcome \<times> unit exec) result" where
  "demo_run =
     bindE (exec_init demo_env demo_graph ()) (\<lambda>x.
     bindE (demo_call [WExit ''b.bb:do_b'' 0 None] (start_running demo_env x)) (\<lambda>(out, x).
     bindE (demo_call [WExit ''a.bb:do_a'' 0 None] x) (\<lambda>(out', x).
     bindE (demo_call [] x) (\<lambda>(out'', x).
     if out = Again RFds \<and> out' = Again RFds then Inr (out'', x) else Inl OutOfModel))))"

lemma demo_run_result:
  "case demo_run of
     Inr (out, x) \<Rightarrow> out = Done \<and> begun (x_trace x) = [''b.bb:do_b'', ''a.bb:do_a''] \<and>
       list_all (\<lambda>e. e \<noteq> WorkerDied) (x_trace x)
   | Inl e \<Rightarrow> False"
  by code_simp

lemma unit_world [simp]: "x\<lparr>x_world := ()\<rparr> = x"
  by (cases x) simp

lemma demo_runs:
  "\<exists>s x y. run_start demo_env demo_graph () s \<and> (run_step demo_env)\<^sup>*\<^sup>* s x \<and>
     runqueue_step demo_env [] [] [] x = Inr (Done, y) \<and> begun (x_trace y) = [''b.bb:do_b'', ''a.bb:do_a''] \<and>
     WorkerDied \<notin> set (x_trace y)"
proof -
  from demo_run_result obtain y where y: "demo_run = Inr (Done, y)" "begun (x_trace y) = [''b.bb:do_b'', ''a.bb:do_a'']"
    "WorkerDied \<notin> set (x_trace y)"
    by (auto simp: list_all_iff split: sum.splits)
  then obtain x0 x1 x2 where s: "exec_init demo_env demo_graph () = Inr x0"
    "demo_call [WExit ''b.bb:do_b'' 0 None] (start_running demo_env x0) = Inr (Again RFds, x1)"
    "demo_call [WExit ''a.bb:do_a'' 0 None] x1 = Inr (Again RFds, x2)" "demo_call [] x2 = Inr (Done, y)"
    by (auto simp: demo_run_def bindE_eq_Inr split: if_splits)
  have 1: "run_start demo_env demo_graph () (start_running demo_env x0)" using s(1) by (rule run_start.intros)
  have 2: "run_step demo_env (start_running demo_env x0) x1" "run_step demo_env x1 x2"
    using run_step.intros [OF s(2) [unfolded demo_call_def], of "x_world x1"]
      run_step.intros [OF s(3) [unfolded demo_call_def], of "x_world x2"] by simp_all
  then have "(run_step demo_env)\<^sup>*\<^sup>* (start_running demo_env x0) x2" by (meson r_into_rtranclp rtranclp_trans)
  with 1 s(4) y(2,3) show ?thesis unfolding demo_call_def by blast
qed

lemma demo_graph_distinct: "distinct (dkeys demo_graph)"
  by (simp add: demo_graph_def)

text \<open>The first call starts a task and waits for its worker.\<close>

lemma demo_waits:
  "\<exists>s y. run_start demo_env demo_graph () s \<and> runqueue_step demo_env [] [] [] s = Inr (Again RFds, y) \<and>
     honest (x_trace y) \<and> under_way (x_trace y) = [''b.bb:do_b'']"
proof -
  have "case bindE (exec_init demo_env demo_graph ()) (\<lambda>x. demo_call [] (start_running demo_env x)) of
      Inr (out, y) \<Rightarrow> out = Again RFds \<and> honest (x_trace y) \<and> under_way (x_trace y) = [''b.bb:do_b'']
    | Inl e \<Rightarrow> False" by code_simp
  then obtain x0 y where r: "exec_init demo_env demo_graph () = Inr x0"
    "demo_call [] (start_running demo_env x0) = Inr (Again RFds, y)" "honest (x_trace y)" "under_way (x_trace y) = [''b.bb:do_b'']"
    by (auto simp: bindE_eq_Inr split: sum.splits)
  have "run_start demo_env demo_graph () (start_running demo_env x0)" using r(1) by (rule run_start.intros)
  with r(2-4) show ?thesis unfolding demo_call_def by blast
qed

lemma tasks_run_in_order_witness:
  "\<exists>y z. begun (x_trace (y :: unit exec)) = [''b.bb:do_b'', ''a.bb:do_a''] \<and> in_order demo_graph (x_trace y) \<and>
     under_way (x_trace (z :: unit exec)) = [''b.bb:do_b''] \<and> int (length (under_way (x_trace z)) + length (x_sq_live z)) \<le> 1"
proof -
  from demo_runs obtain s x y where r: "run_start demo_env demo_graph () s" "(run_step demo_env)\<^sup>*\<^sup>* s x"
    "runqueue_step demo_env [] [] [] x = Inr (Done, y)" "begun (x_trace y) = [''b.bb:do_b'', ''a.bb:do_a'']" by blast
  from demo_waits obtain s' z where q: "run_start demo_env demo_graph () s'"
    "runqueue_step demo_env [] [] [] s' = Inr (Again RFds, z)" "honest (x_trace z)" "under_way (x_trace z) = [''b.bb:do_b'']" by blast
  have "ev_number_tasks demo_env = 1" by (simp add: demo_env_def)
  with tasks_run_in_order [OF r(1) demo_graph_distinct r(2,3)] r(4)
    tasks_run_in_order [OF q(1) demo_graph_distinct rtranclp.rtrancl_refl q(2)] q(3,4)
  show ?thesis by metis
qed

lemma run_done_complete_witness:
  "\<exists>y. {''a.bb:do_a'', ''b.bb:do_b''} \<subseteq> set (x_complete (y :: unit exec))"
proof -
  from demo_runs obtain s x y where r: "run_start demo_env demo_graph () s" "(run_step demo_env)\<^sup>*\<^sup>* s x"
    "runqueue_step demo_env [] [] [] x = Inr (Done, y)" "WorkerDied \<notin> set (x_trace y)" by blast
  from run_done_complete [OF r(1) demo_graph_distinct r(2,3) _ _ r(4)]
  show ?thesis by (auto simp: demo_env_def demo_graph_def nodes_def)
qed


section \<open>Refused tasks\<close>

text \<open>A task that BB_SETSCENE_ENFORCE refuses fails without having started, and is counted down all the same: the counter of
  the active tasks is then too low, and more tasks can be started than BB_NUMBER_THREADS.\<close>

theorem refused_task_counts_down:
  assumes "ev_ignore_tasks ev = Some ignored" and "check_setscene_ignore_tasks ev t x = Inr (True, z)"
    and "start_task ev t x = Inr r"
  shows "\<exists>y. r = Stop RTrue y \<and> st_active (x_stats y) = st_active (x_stats x) - 1 \<and> begun (x_trace y) = begun (x_trace x)"
proof -
  have r: "r = Stop RTrue (task_fail ev t IgnoreTasks None z)"
    using assms by (auto simp: start_task_def bindE_eq_Inr)
  have q: "quiet_step ev x z" using assms(2) by (rule check_setscene_ignore_quiet)
  then obtain es where "x_trace z = x_trace x @ es" "silent es" by (auto simp: quiet_step_def)
  then have "begun (x_trace z) = begun (x_trace x)" by (simp add: silent_begun)
  moreover have "st_active (x_stats z) = st_active (x_stats x)" using q by (simp add: quiet_step_def)
  ultimately show ?thesis unfolding r by (simp add: task_fail_def Let_def emit_def taskFailed_def)
qed

end
