(* ===== verification/Expansion.thy ===== *)
theory Expansion
  imports Strings
begin

text \<open>
  The text side of \<^verbatim>\<open>bb/data_smart.py\<close>: the values a variable can hold and the regular expressions that find
  references, Python code, operations and overrides in names and values.
\<close>

section \<open>Values\<close>

text \<open>
  The Python values the store is used with: nothing, a flag, a number, text, a list of names, the list of operations that
  the flags \<open>:append\<close>, \<open>:prepend\<close> and \<open>:remove\<close> hold, each with its override, the list of classes to
  inherit later, each with the place that asks for it, and the tasks of a recipe (their names, their parents, and what
  their flags say).
\<close>

datatype pyval =
    PNone
  | PBool bool
  | PInt int
  | PStr string
  | PList "string list"
  | POps "(pyval \<times> string option) list"
  | PInherits "(string \<times> string \<times> int) list"
  | PTasks "string list" "(string \<times> string list) list" "(string \<times> (string \<times> pyval) list) list"

fun truth :: "pyval \<Rightarrow> bool" where
  "truth PNone = False"
| "truth (PBool b) = b"
| "truth (PInt i) = (i \<noteq> 0)"
| "truth (PStr s) = (s \<noteq> [])"
| "truth (PList xs) = (xs \<noteq> [])"
| "truth (POps ops) = (ops \<noteq> [])"
| "truth (PInherits xs) = (xs \<noteq> [])"
| "truth (PTasks ts ps fs) = True"

text \<open>The operator \<open>+\<close>; a flag counts as a number.\<close>

definition num_of :: "pyval \<Rightarrow> int option" where
  "num_of v = (case v of PBool b \<Rightarrow> Some (if b then 1 else 0) | PInt i \<Rightarrow> Some i | _ \<Rightarrow> None)"

fun py_add :: "pyval \<Rightarrow> pyval \<Rightarrow> pyval result" where
  "py_add (PStr a) (PStr b) = Inr (PStr (a @ b))"
| "py_add (PList a) (PList b) = Inr (PList (a @ b))"
| "py_add (POps a) (POps b) = Inr (POps (a @ b))"
| "py_add (PInherits a) (PInherits b) = Inr (PInherits (a @ b))"
| "py_add a b = (case (num_of a, num_of b) of (Some i, Some j) \<Rightarrow> Inr (PInt (i + j)) | _ \<Rightarrow> Inl TypeError)"

section \<open>References\<close>

text \<open>\<^verbatim>\<open>__expand_var_regexp__\<close>: a dollar sign and a name in braces.\<close>

definition ref_char :: "char \<Rightarrow> bool" where
  "ref_char c \<longleftrightarrow> is_letter c \<or> is_digit c \<or> c \<in> set ''-_+./~:''"

definition ref_at :: "string \<Rightarrow> (string \<times> string) option" where
  "ref_at s =
     (let key = takeWhile ref_char (drop 2 s); r = dropWhile ref_char (drop 2 s)
      in if startswith s ''${'' \<and> key \<noteq> [] \<and> r \<noteq> [] \<and> hd r = CHR ''}'' then Some (key, tl r) else None)"

text \<open>The first match from the left: what is before it, what is matched, what follows.\<close>

fun find_first :: "(string \<Rightarrow> (string \<times> string) option) \<Rightarrow> string \<Rightarrow> (string \<times> string \<times> string) option" where
  "find_first m [] = None"
| "find_first m (c # s) =
     (case m (c # s) of
        Some (k, r) \<Rightarrow> Some ([], k, r)
      | None \<Rightarrow> (case find_first m s of None \<Rightarrow> None | Some (p, k, r) \<Rightarrow> Some (c # p, k, r)))"

datatype piece = Lit string | Ref string

definition shortens :: "(string \<Rightarrow> (string \<times> string) option) \<Rightarrow> bool" where
  "shortens m \<longleftrightarrow> (\<forall>s k r. m s = Some (k, r) \<longrightarrow> length r < length s)"

lemma find_first_length: "shortens m \<Longrightarrow> find_first m s = Some (p, k, r) \<Longrightarrow> length r < length s"
proof (induction s arbitrary: p)
  case (Cons c s)
  show ?case
  proof (cases "m (c # s)")
    case None
    with Cons.prems(2) obtain q where "find_first m s = Some (q, k, r)" by (auto split: option.splits)
    with Cons.IH [OF Cons.prems(1)] show ?thesis by fastforce
  next
    case (Some kr)
    obtain k' r' where kr: "kr = (k', r')" by (cases kr)
    with Some Cons.prems(1) have "length r' < length (c # s)" unfolding shortens_def by blast
    with Some kr Cons.prems(2) show ?thesis by simp
  qed
qed simp

text \<open>
  A text cut at the matches of an expression, from left to right and without overlap. A match of the expressions here is
  never empty, so the rest is always shorter.
\<close>

function cut_pieces :: "(string \<Rightarrow> (string \<times> string) option) \<Rightarrow> string \<Rightarrow> piece list" where
  "cut_pieces m s =
     (case find_first m s of
        None \<Rightarrow> [Lit s]
      | Some (p, k, r) \<Rightarrow> if length r < length s then Lit p # Ref k # cut_pieces m r else [Lit s])"
  by pat_completeness auto
termination
  by (relation "measure (\<lambda>(m, s). length s)") simp_all

declare cut_pieces.simps [simp del]

lemma cut_pieces_step:
  "shortens m \<Longrightarrow> cut_pieces m s =
     (case find_first m s of None \<Rightarrow> [Lit s] | Some (p, k, r) \<Rightarrow> Lit p # Ref k # cut_pieces m r)"
  by (subst cut_pieces.simps) (auto split: option.splits dest: find_first_length)

lemma shortens_ref_at: "shortens ref_at"
proof -
  have "length (tl (dropWhile ref_char (drop 2 s))) < length s" if "dropWhile ref_char (drop 2 s) \<noteq> []" for s :: string
    using that length_dropWhile_le [of ref_char "drop 2 s"] by (cases "dropWhile ref_char (drop 2 s)") auto
  then show ?thesis by (auto simp: shortens_def ref_at_def Let_def split: if_splits)
qed

definition ref_pieces :: "string \<Rightarrow> piece list" where
  "ref_pieces s = cut_pieces ref_at s"

lemma cut_pieces_refs: "Ref k \<in> set (cut_pieces m s) \<Longrightarrow> \<exists>u r. m u = Some (k, r)"
proof (induction m s rule: cut_pieces.induct)
  case (1 m s)
  have first: "find_first m t = Some (p, k', r) \<Longrightarrow> \<exists>u. m u = Some (k', r)" for t p k' r
    by (induction t arbitrary: p) (auto split: option.splits)
  from 1(2) obtain p k' r where f: "find_first m s = Some (p, k', r)" "length r < length s"
    "k = k' \<or> Ref k \<in> set (cut_pieces m r)"
    by (subst (asm) cut_pieces.simps) (auto split: option.splits if_splits)
  from f(3) show ?case
  proof
    assume "k = k'"
    with first [OF f(1)] show ?thesis by blast
  next
    assume "Ref k \<in> set (cut_pieces m r)"
    from 1(1) [OF f(1) refl refl f(2) this] show ?thesis .
  qed
qed

lemma ref_pieces_chars: "Ref k \<in> set (ref_pieces s) \<Longrightarrow> c \<in> set k \<Longrightarrow> ref_char c"
  unfolding ref_pieces_def
  by (auto dest!: cut_pieces_refs set_takeWhileD simp: ref_at_def Let_def split: if_splits)

section \<open>Python code\<close>

text \<open>
  \<^verbatim>\<open>__expand_python_regexp__\<close>, \<open>\${@(?:{.*?}|.)+?}\<close>: a group of braces is tried before a single
  character, the shortest match is tried first, and a line end is never matched. \<open>brace_ends s\<close> are the texts that can follow a group whose
  opening brace stood before \<open>s\<close>; \<open>code_end\<close> gives the text that follows the whole match, when at least one
  group or character is still to come.
\<close>

fun brace_ends :: "string \<Rightarrow> string list" where
  "brace_ends [] = []"
| "brace_ends (c # s) =
     (if c = newline then [] else if c = CHR ''}'' then s # brace_ends s else brace_ends s)"

fun first_some :: "('a \<Rightarrow> 'b option) \<Rightarrow> 'a list \<Rightarrow> 'b option" where
  "first_some f [] = None"
| "first_some f (x # xs) = (case f x of None \<Rightarrow> first_some f xs | Some y \<Rightarrow> Some y)"

lemma first_some_cong [fundef_cong]:
  "xs = ys \<Longrightarrow> (\<And>x. x \<in> set ys \<Longrightarrow> f x = g x) \<Longrightarrow> first_some f xs = first_some g ys"
  by (induction ys arbitrary: xs) (auto split: option.splits)

lemma brace_ends_length: "t \<in> set (brace_ends s) \<Longrightarrow> length t < length s"
  by (induction s) (auto split: if_splits)

function code_end :: "bool \<Rightarrow> string \<Rightarrow> string option" where
  "code_end more s =
     (case s of
        [] \<Rightarrow> None
      | c # s' \<Rightarrow>
          if \<not> more \<and> c = CHR ''}'' then Some s'
          else case (if c = CHR ''{'' then first_some (code_end False) (brace_ends s') else None) of
                 Some r \<Rightarrow> Some r
               | None \<Rightarrow> if c = newline then None else code_end False s')"
  by pat_completeness auto
termination
  by (relation "measure (\<lambda>(more, s). length s)") (auto dest: brace_ends_length)

declare code_end.simps [simp del]

lemma first_some_mem: "first_some f xs = Some y \<Longrightarrow> \<exists>x \<in> set xs. f x = Some y"
  by (induction xs) (auto split: option.splits)

lemma code_end_length: "code_end more s = Some r \<Longrightarrow> length r < length s"
proof (induction more s rule: code_end.induct)
  case (1 more s)
  show ?case
  proof (cases s)
    case Nil
    with 1(3) show ?thesis by (simp add: code_end.simps)
  next
    case (Cons c s')
    let ?f = "if c = CHR ''{'' then first_some (code_end False) (brace_ends s') else None"
    consider "\<not> more \<and> c = CHR ''}''" "r = s'" | "\<not> (\<not> more \<and> c = CHR ''}'')" "?f = Some r"
      | "\<not> (\<not> more \<and> c = CHR ''}'')" "?f = None" "c \<noteq> newline" "code_end False s' = Some r"
      using 1(3) unfolding Cons code_end.simps [of more "c # s'"] list.case
      by (auto split: if_splits option.splits)
    then show ?thesis
    proof cases
      case 1
      with Cons show ?thesis by simp
    next
      case 2
      then have c: "c = CHR ''{''" and "first_some (code_end False) (brace_ends s') = Some r" by (auto split: if_splits)
      then obtain t where t: "t \<in> set (brace_ends s')" "code_end False t = Some r" by (auto dest: first_some_mem)
      from "1.IH"(1) [OF Cons 2(1) c t] have "length r < length t" .
      with brace_ends_length [OF t(1)] Cons show ?thesis by simp
    next
      case 3
      from "1.IH"(2) [OF Cons 3(1,2,3,4)] Cons show ?thesis by simp
    qed
  qed
qed

definition code_at :: "string \<Rightarrow> (string \<times> string) option" where
  "code_at s =
     (if startswith s ''${@''
      then case code_end True (drop 3 s) of
             None \<Rightarrow> None
           | Some r \<Rightarrow> Some (take (length s - length r - 4) (drop 3 s), r)
      else None)"

lemma shortens_code_at: "shortens code_at"
  by (auto simp: shortens_def code_at_def dest!: code_end_length split: if_splits option.splits)

definition code_pieces :: "string \<Rightarrow> piece list" where
  "code_pieces s = cut_pieces code_at s"

definition has_ref :: "string \<Rightarrow> bool" where
  "has_ref s \<longleftrightarrow> find_first ref_at s \<noteq> None"

section \<open>Operations in names\<close>

text \<open>
  \<^verbatim>\<open>__setvar_regexp__\<close>: the shortest base, an operation, and an override without capital letters. The
  dollar sign of the expression also matches before a line end that closes the text.
\<close>

definition setvar_keywords :: "string list" where
  "setvar_keywords = ['':append'', '':prepend'', '':remove'']"

definition override_part :: "string \<Rightarrow> string option option" where
  "override_part r =
     (if r = [] \<or> r = [newline] then Some None
      else if hd r = colon \<and> (\<forall>c \<in> set (tl r). \<not> is_upper c) then Some (Some (tl r))
      else None)"

definition op_at :: "string \<Rightarrow> (string \<times> string option) option" where
  "op_at s =
     first_some (\<lambda>kw. if startswith s kw then map_option (\<lambda>add. (kw, add)) (override_part (drop (length kw) s)) else None)
       setvar_keywords"

fun split_op :: "string \<Rightarrow> string \<Rightarrow> (string \<times> string \<times> string option) option" where
  "split_op base s =
     (case op_at s of
        Some (kw, add) \<Rightarrow> Some (base, kw, add)
      | None \<Rightarrow> (case s of [] \<Rightarrow> None | c # cs \<Rightarrow> if c = newline then None else split_op (base @ [c]) cs))"

text \<open>\<^verbatim>\<open>__setvar_regexp__.match(var)\<close>: base, operation and override.\<close>

definition setvar_match :: "string \<Rightarrow> (string \<times> string \<times> string option) option" where
  "setvar_match var = split_op [] var"

text \<open>\<^verbatim>\<open>__override_regexp__.match(s)\<close> only looks at the beginning.\<close>

definition override_match :: "string \<Rightarrow> bool" where
  "override_match s \<longleftrightarrow> s \<noteq> [] \<and> (is_lower (hd s) \<or> is_digit (hd s))"

text \<open>\<^verbatim>\<open>__whitespace_split__.split(s)\<close>: the words and the blanks between them, in turn.\<close>

fun ws_tokens :: "string \<Rightarrow> string \<Rightarrow> string list" where
  "ws_tokens w [] = [w]"
| "ws_tokens w (c # cs) = (if is_space c then w # [c] # ws_tokens [] cs else ws_tokens (w @ [c]) cs)"

lemma concat_ws_tokens: "concat (ws_tokens w s) = w @ s"
  by (induction w s rule: ws_tokens.induct) simp_all

end
