(* ===== verification/DataSmart.thy ===== *)
theory DataSmart
  imports Expansion
begin

text \<open>
  \<^verbatim>\<open>DataSmart\<close> of \<^verbatim>\<open>bb/data_smart.py\<close>, the store of all variables of a build: layered
  dictionaries of flags, overrides, operations that wait to be applied, and values expanded on demand with a cache.
  The history of variables is not kept (its tracking is off unless a user asks for it).
\<close>

section \<open>The store\<close>

text \<open>\<^verbatim>\<open>VariableParse\<close>, the record of one expansion. Removed words are only known when there were any.\<close>

record varparse =
  vp_value :: pyval
  vp_unexpanded :: pyval
  vp_references :: "string list"
  vp_execs :: "string list"
  vp_contains :: "(string, string list) odict"
  vp_removes :: "pyval list option"

type_synonym vardata = "(string, pyval) odict"
type_synonym layers = "(string, vardata) odict list"
type_synonym overridedata = "(string, (string \<times> string) list) odict"

text \<open>
  The dictionaries from a copy down to what it was copied from are \<open>d_layers\<close>; the first one is written to.
  \<open>d_messages\<close> are the renamed variables that were reported.
\<close>

record datasmart =
  d_layers :: layers
  d_cache :: "(string, varparse) odict"
  d_overridedata :: overridedata
  d_overrides :: "string list option"
  d_overridesset :: "string list"
  d_overridevars :: "string list"
  d_inoverride :: bool
  d_renames :: "(string, pyval) odict"
  d_messages :: "string list"

text \<open>
  Every store begins with a table of renamed variables, each with its new name or a text that says what became of it;
  flags of \<^verbatim>\<open>BB_RENAMED_VARIABLES\<close> add to it.
\<close>

definition bitbake_renamed_vars :: "(string, pyval) odict" where
  "bitbake_renamed_vars =
     [(''BB_ENV_WHITELIST'', PStr ''BB_ENV_PASSTHROUGH''),
      (''BB_ENV_EXTRAWHITE'', PStr ''BB_ENV_PASSTHROUGH_ADDITIONS''),
      (''BB_HASHBASE_WHITELIST'', PStr ''BB_BASEHASH_IGNORE_VARS''),
      (''BB_HASHCONFIG_WHITELIST'', PStr ''BB_HASHCONFIG_IGNORE_VARS''),
      (''BB_HASHTASK_WHITELIST'', PStr ''BB_TASKHASH_IGNORE_TASKS''),
      (''BB_SETSCENE_ENFORCE_WHITELIST'', PStr ''BB_SETSCENE_ENFORCE_IGNORE_TASKS''),
      (''MULTI_PROVIDER_WHITELIST'', PStr ''BB_MULTI_PROVIDER_ALLOWED''),
      (''BB_STAMP_WHITELIST'', PStr ''is a deprecated variable and support has been removed''),
      (''BB_STAMP_POLICY'', PStr ''is a deprecated variable and support has been removed'')]"

text \<open>
  Python code in values is evaluated outside the model: \<open>de_compile\<close> is the error its compilation gives,
  \<open>de_parse\<close> what \<^verbatim>\<open>bb.codeparser\<close> finds in it (references, calls, tests for contained words),
  \<open>de_eval\<close> its value as text over the flags of all variables, the override data and the overrides. Such code is taken to only read the
  store. \<open>de_depth\<close> is the recursion the interpreter allows, \<open>de_rounds\<close> a bound on the rounds of a loop that
  the code does not bound.
\<close>

record denv =
  de_compile :: "string \<Rightarrow> pyexc option"
  de_parse :: "string \<Rightarrow> (string list \<times> string list \<times> (string, string list) odict) result"
  de_eval :: "string \<Rightarrow> (string \<Rightarrow> vardata) \<Rightarrow> overridedata \<Rightarrow> string list option \<Rightarrow> string result"
  de_depth :: nat
  de_rounds :: nat

text \<open>The arguments of \<^verbatim>\<open>getVarFlag\<close>: variable, flag, expand, noweakdefault, parsing, retparser.\<close>

type_synonym getter =
  "string \<Rightarrow> string \<Rightarrow> bool \<Rightarrow> bool \<Rightarrow> bool \<Rightarrow> bool \<Rightarrow> (datasmart, pyval \<times> varparse option) sx"

fun find_layers :: "layers \<Rightarrow> string \<Rightarrow> vardata option" where
  "find_layers [] var = None"
| "find_layers (l # ls) var = (case dget l var of Some f \<Rightarrow> Some f | None \<Rightarrow> find_layers ls var)"

definition findVar :: "string \<Rightarrow> datasmart \<Rightarrow> vardata option" where
  "findVar var d = find_layers (d_layers d) var"

text \<open>A variable that is not there has no flags.\<close>

definition flags_of :: "string \<Rightarrow> datasmart \<Rightarrow> vardata" where
  "flags_of var d = (case findVar var d of None \<Rightarrow> [] | Some f \<Rightarrow> f)"

definition getX :: "('s \<Rightarrow> 'a) \<Rightarrow> ('s, 'a) sx" where
  "getX f s = (Inr (f s), s)"

definition setX :: "('s \<Rightarrow> 's) \<Rightarrow> ('s, unit) sx" where
  "setX f s = (Inr (), f s)"

section \<open>Expansion\<close>

text \<open>Substitutes the pieces of a text in turn; \<open>None\<close> stops the substitution.\<close>

fun sub_pieces ::
  "(string \<Rightarrow> varparse \<Rightarrow> (datasmart, varparse \<times> string option) sx) \<Rightarrow> piece list \<Rightarrow> varparse \<Rightarrow>
    (datasmart, varparse \<times> string option) sx" where
  "sub_pieces f [] vp = retX (vp, Some [])"
| "sub_pieces f (Lit s # ps) vp =
     bindX (sub_pieces f ps vp) (\<lambda>r. retX (fst r, map_option (\<lambda>t. s @ t) (snd r)))"
| "sub_pieces f (Ref k # ps) vp =
     bindX (f k vp) (\<lambda>r. case snd r of
         None \<Rightarrow> retX (fst r, None)
       | Some s \<Rightarrow> bindX (sub_pieces f ps (fst r)) (\<lambda>q. retX (fst q, map_option (\<lambda>t. s @ t) (snd q))))"

text \<open>\<^verbatim>\<open>VariableParse.var_sub\<close>: a reference to an unset variable stays as it is.\<close>

definition var_sub :: "getter \<Rightarrow> string option \<Rightarrow> string \<Rightarrow> varparse \<Rightarrow> (datasmart, varparse \<times> string option) sx" where
  "var_sub get varname key vp =
     (if varname = Some key then raiseX (PyError key)
      else bindX (get key ''_content'' True False False False) (\<lambda>v.
           let vp = vp\<lparr>vp_references := sadd key (vp_references vp)\<rparr>
           in case fst v of
                PNone \<Rightarrow> retX (vp, Some (''${'' @ key @ ''}''))
              | PStr s \<Rightarrow> retX (vp, Some s)
              | _ \<Rightarrow> raiseX TypeError))"

definition merge_contains :: "(string, string list) odict \<Rightarrow> (string, string list) odict \<Rightarrow> (string, string list) odict" where
  "merge_contains new old = fold (\<lambda>kv c. dset (fst kv) (supdate (dget_default c (fst kv) []) (snd kv)) c) new old"

text \<open>\<open>None\<close> stands for a string literal without an end, which leaves the whole text as it is.\<close>

definition syntax_stop :: "pyexc \<Rightarrow> varparse \<Rightarrow> (datasmart, varparse \<times> string option) sx" where
  "syntax_stop e vp = (if e = SyntaxError True then retX (vp, None) else raiseX e)"

text \<open>The flag \<^verbatim>\<open>vardeps\<close> of a variable is only asked for to decide about messages.\<close>

definition ask_vardeps :: "getter \<Rightarrow> string option \<Rightarrow> (datasmart, unit) sx" where
  "ask_vardeps get varname =
     (case varname of
        None \<Rightarrow> retX ()
      | Some v \<Rightarrow> if v = [] then retX () else bindX (get v ''vardeps'' True False False False) (\<lambda>_. retX ()))"

text \<open>\<^verbatim>\<open>VariableParse.python_sub\<close>: code with references in it waits for them.\<close>

definition python_sub ::
  "denv \<Rightarrow> getter \<Rightarrow> string option \<Rightarrow> string \<Rightarrow> varparse \<Rightarrow> (datasmart, varparse \<times> string option) sx" where
  "python_sub env get varname code vp =
     (if has_ref code then retX (vp, Some (''${@'' @ code @ ''}''))
      else case de_compile env code of
             Some e \<Rightarrow> syntax_stop e vp
           | None \<Rightarrow>
               bindX (liftX (de_parse env code)) (\<lambda>(refs, execs, contains).
               bindX (ask_vardeps get varname) (\<lambda>_.
               let vp = vp\<lparr>vp_references := supdate (vp_references vp) refs, vp_execs := supdate (vp_execs vp) execs,
                           vp_contains := merge_contains contains (vp_contains vp)\<rparr>
               in bindX (getX (\<lambda>d. de_eval env code (\<lambda>v. flags_of v d) (d_overridedata d) (d_overrides d))) (\<lambda>r.
                  case r of Inl e \<Rightarrow> syntax_stop e vp | Inr s \<Rightarrow> retX (vp, Some s)))))"

text \<open>What \<^verbatim>\<open>expandWithRefs\<close> makes of an exception: it names the variable and the text it was working on.\<close>

definition wrap_error :: "string option \<Rightarrow> string \<Rightarrow> pyexc \<Rightarrow> pyexc" where
  "wrap_error varname s e =
     (case e of
        ExpansionError v ex c chain \<Rightarrow>
          ExpansionError v ex c (case varname of None \<Rightarrow> chain | Some n \<Rightarrow> if n = [] then chain else chain @ [n])
      | SkipRecipe \<Rightarrow> e
      | BBFatal _ \<Rightarrow> e
      | OutOfModel \<Rightarrow> e
      | _ \<Rightarrow> ExpansionError varname s e [case varname of Some n \<Rightarrow> if n = [] then s else n | None \<Rightarrow> s])"

definition wrapX :: "string option \<Rightarrow> string \<Rightarrow> (datasmart, 'a) sx \<Rightarrow> (datasmart, 'a) sx" where
  "wrapX varname s m d = (case m d of (Inl e, d') \<Rightarrow> (Inl (wrap_error varname s e), d') | (Inr x, d') \<Rightarrow> (Inr x, d'))"

text \<open>One round: first the references, then the code.\<close>

definition expand_round ::
  "denv \<Rightarrow> getter \<Rightarrow> string option \<Rightarrow> string \<Rightarrow> varparse \<Rightarrow> (datasmart, varparse \<times> string) sx" where
  "expand_round env get varname s vp =
     bindX (wrapX varname s (sub_pieces (var_sub get varname) (ref_pieces s) vp)) (\<lambda>r.
     let s1 = (case snd r of None \<Rightarrow> s | Some t \<Rightarrow> t) in
     bindX (wrapX varname s1 (sub_pieces (python_sub env get varname) (code_pieces s1) (fst r))) (\<lambda>q.
     retX (fst q, case snd q of None \<Rightarrow> s1 | Some t \<Rightarrow> t)))"

fun expand_loop ::
  "nat \<Rightarrow> denv \<Rightarrow> getter \<Rightarrow> string option \<Rightarrow> string \<Rightarrow> varparse \<Rightarrow> (datasmart, varparse \<times> string) sx" where
  "expand_loop 0 env get varname s vp = raiseX OutOfModel"
| "expand_loop (Suc n) env get varname s vp =
     (if \<not> contains_str ''${'' s then retX (vp, s)
      else bindX (expand_round env get varname s vp) (\<lambda>r.
           if snd r = s then retX r else expand_loop n env get varname (snd r) (fst r)))"

definition new_parse :: "pyval \<Rightarrow> pyval \<Rightarrow> varparse" where
  "new_parse unexpanded val =
     \<lparr>vp_value = val, vp_unexpanded = unexpanded, vp_references = [], vp_execs = [], vp_contains = [], vp_removes = None\<rparr>"

definition expandWithRefs :: "denv \<Rightarrow> getter \<Rightarrow> pyval \<Rightarrow> string option \<Rightarrow> (datasmart, varparse) sx" where
  "expandWithRefs env get v varname =
     (case v of
        PStr s \<Rightarrow> bindX (expand_loop (de_rounds env) env get varname s (new_parse v PNone)) (\<lambda>r.
                  retX ((fst r)\<lparr>vp_value := PStr (snd r)\<rparr>))
      | _ \<Rightarrow> retX (new_parse v v))"

definition expand :: "denv \<Rightarrow> getter \<Rightarrow> pyval \<Rightarrow> string option \<Rightarrow> (datasmart, pyval) sx" where
  "expand env get v varname = bindX (expandWithRefs env get v varname) (\<lambda>vp. retX (vp_value vp))"

section \<open>Overrides\<close>

text \<open>The value of \<^verbatim>\<open>OVERRIDES\<close>, cut at the colons.\<close>

definition read_overrides :: "getter \<Rightarrow> (datasmart, string list) sx" where
  "read_overrides get =
     bindX (get ''OVERRIDES'' ''_content'' True False False False) (\<lambda>v.
     if \<not> truth (fst v) then retX (split_on colon [])
     else case fst v of PStr s \<Rightarrow> retX (split_on colon s) | _ \<Rightarrow> raiseX AttributeError)"

text \<open>
  \<^verbatim>\<open>need_overrides\<close>: the overrides are read without overrides and then with those found, until nothing
  changes, five times at most.
\<close>

fun override_rounds :: "nat \<Rightarrow> getter \<Rightarrow> (datasmart, unit) sx" where
  "override_rounds 0 get = raiseX (BBFatal ''OVERRIDES'')"
| "override_rounds (Suc n) get =
     bindX (setX (\<lambda>d. d\<lparr>d_inoverride := True, d_overrides := Some [], d_overridesset := []\<rparr>)) (\<lambda>_.
     bindX (read_overrides get) (\<lambda>os.
     bindX (setX (\<lambda>d. d\<lparr>d_overrides := Some os, d_overridesset := os, d_inoverride := False, d_cache := []\<rparr>)) (\<lambda>_.
     bindX (read_overrides get) (\<lambda>os'.
     if os' = os then retX ()
     else bindX (setX (\<lambda>d. d\<lparr>d_overrides := Some os', d_overridesset := os'\<rparr>)) (\<lambda>_. override_rounds n get)))))"

definition need_overrides :: "getter \<Rightarrow> (datasmart, unit) sx" where
  "need_overrides get d =
     (if d_overrides d \<noteq> None \<or> d_inoverride d then (Inr (), d) else override_rounds 5 get d)"

text \<open>An override applies when it is set, or all the parts it is made of are.\<close>

definition override_applies :: "string list \<Rightarrow> string \<Rightarrow> bool" where
  "override_applies os o' \<longleftrightarrow> o' \<in> set os \<or> (colon \<in> set o' \<and> set (split_on colon o') \<subseteq> set os)"

definition active_overrides :: "string list \<Rightarrow> (string \<times> string) list \<Rightarrow> (string, string) odict" where
  "active_overrides os od = fold (\<lambda>ro a. if override_applies os (snd ro) then dset (snd ro) (fst ro) a else a) od []"

text \<open>
  One active override against one set override: a last part is stripped, an override that is all used up is the
  choice so far. The flag tells whether something was stripped.
\<close>

type_synonym choice = "(string, string) odict \<times> string option \<times> bool"

definition resolve_key :: "string \<Rightarrow> string \<Rightarrow> choice \<Rightarrow> choice" where
  "resolve_key o' a = (\<lambda>(active, m, md).
     case dget active a of
       None \<Rightarrow> (active, m, md)
     | Some t \<Rightarrow>
         if endswith a (colon # o') then (dset (replace_str (colon # o') [] a) t (ddel a active), m, True)
         else if a = o' then (ddel a active, Some t, md)
         else (active, m, md))"

definition resolve_pass :: "string list \<Rightarrow> (string, string) odict \<Rightarrow> string option \<Rightarrow> choice" where
  "resolve_pass os active m =
     fold (\<lambda>o' st. fold (resolve_key o') (dkeys (fst st)) st) os (active, m, False)"

text \<open>Every stripping makes the names shorter, so the loop ends.\<close>

definition names_length :: "(string, string) odict \<Rightarrow> nat" where
  "names_length d = sum_list (map length (dkeys d))"

lemma length_replace_from: "length (replace_from n p [] s) \<le> length s"
  by (induction n p "[] :: string" s rule: replace_from.induct) auto

lemma replace_from_shorter: "contains_str p s \<Longrightarrow> p \<noteq> [] \<Longrightarrow> length (replace_from 0 p [] s) < length s"
proof (induction s)
  case (Cons c s)
  show ?case
  proof (cases "startswith (c # s) p")
    case True
    then show ?thesis using length_replace_from [of "length p - 1" p s] by (simp add: less_Suc_eq_le)
  next
    case False
    with Cons show ?thesis by simp
  qed
qed simp

lemma endswith_contains: "endswith s p \<Longrightarrow> contains_str p s"
proof (induction s)
  case Nil
  then show ?case by (simp add: endswith_iff)
next
  case (Cons c s)
  from Cons.prems obtain t where t: "c # s = t @ p" by (auto simp: endswith_iff)
  show ?case
  proof (cases t)
    case Nil
    with t have "startswith (c # s) p" by (simp add: startswith_iff)
    then show ?thesis by simp
  next
    case (Cons c' t')
    with t have "endswith s p" by (auto simp: endswith_iff)
    with Cons.IH show ?thesis by simp
  qed
qed

lemma names_length_ddel: "dget d a = Some t \<Longrightarrow> names_length (ddel a d) + length a \<le> names_length d"
proof (induction d)
  case (Cons kv d)
  have "names_length (ddel a d) \<le> names_length d"
    unfolding names_length_def AList.delete_eq by (induction d) auto
  with Cons show ?case by (cases kv) (auto simp: names_length_def split: if_splits)
qed simp

lemma names_length_dset: "names_length (dset k v d) \<le> names_length d + length k"
  by (induction d) (auto simp: names_length_def)

lemma resolve_key_shrinks:
  assumes "resolve_key o' a (active, m, md) = (active', m', md')"
  shows "names_length active' \<le> names_length active \<and> (md' \<longrightarrow> md \<or> names_length active' < names_length active)"
proof (cases "dget active a")
  case None
  with assms show ?thesis by (simp add: resolve_key_def)
next
  case (Some t)
  let ?k = "replace_str (colon # o') [] a"
  note del = names_length_ddel [OF Some]
  show ?thesis
  proof (cases "endswith a (colon # o')")
    case True
    then have "length ?k < length a"
      unfolding replace_str_def by (intro replace_from_shorter endswith_contains) simp_all
    with names_length_dset [of ?k t "ddel a active"] del True assms Some show ?thesis
      by (auto simp: resolve_key_def)
  next
    case False
    with assms Some del show ?thesis by (auto simp: resolve_key_def split: if_splits)
  qed
qed

lemma resolve_fold_shrinks:
  "fold (resolve_key o') ks (active, m, md) = (active', m', md') \<Longrightarrow>
    names_length active' \<le> names_length active \<and> (md' \<longrightarrow> md \<or> names_length active' < names_length active)"
proof (induction ks arbitrary: active m md)
  case (Cons k ks)
  obtain a1 m1 md1 where s: "resolve_key o' k (active, m, md) = (a1, m1, md1)" by (cases "resolve_key o' k (active, m, md)") auto
  with Cons.prems have "fold (resolve_key o') ks (a1, m1, md1) = (active', m', md')" by simp
  from Cons.IH [OF this] resolve_key_shrinks [OF s] show ?case by auto
qed simp

lemma resolve_pass_shrinks:
  assumes "resolve_pass os active m = (active', m', True)"
  shows "names_length active' < names_length active"
proof -
  have "names_length active' \<le> names_length active \<and> (md' \<longrightarrow> md \<or> names_length active' < names_length active)"
    if "fold (\<lambda>o' st. fold (resolve_key o') (dkeys (fst st)) st) os (active, m, md) = (active', m', md')" for md md' m active active' m'
    using that
  proof (induction os arbitrary: active m md)
    case (Cons o' os)
    obtain a1 m1 md1 where s: "fold (resolve_key o') (dkeys active) (active, m, md) = (a1, m1, md1)"
      by (cases "fold (resolve_key o') (dkeys active) (active, m, md)") auto
    with Cons.prems have "fold (\<lambda>o' st. fold (resolve_key o') (dkeys (fst st)) st) os (a1, m1, md1) = (active', m', md')"
      by simp
    from Cons.IH [OF this] resolve_fold_shrinks [OF s] show ?case by auto
  qed simp
  from this [OF assms [unfolded resolve_pass_def]] show ?thesis by simp
qed

function resolve_overrides :: "string list \<Rightarrow> (string, string) odict \<Rightarrow> string option \<Rightarrow> string option" where
  "resolve_overrides os active m =
     (let st = resolve_pass os active m
      in if snd (snd st) then resolve_overrides os (fst st) (fst (snd st)) else fst (snd st))"
  by pat_completeness auto
termination
proof (relation "measure (\<lambda>(os, active, m). names_length active)", goal_cases)
  case 1
  show ?case by simp
next
  case (2 os active m st)
  obtain a' m' md' where st: "resolve_pass os active m = (a', m', md')" by (cases "resolve_pass os active m") auto
  with 2 show ?case using resolve_pass_shrinks [of os active m a' m'] by simp
qed

declare resolve_overrides.simps [simp del]

text \<open>The variable that stands in for another one with overrides, with its unexpanded value and expansion.\<close>

definition override_value ::
  "getter \<Rightarrow> (string \<times> string) list \<Rightarrow> (datasmart, (string \<times> pyval \<times> varparse option) option) sx" where
  "override_value get od =
     bindX (need_overrides get) (\<lambda>_.
     bindX (getX (\<lambda>d. (d_overrides d, d_overridesset d))) (\<lambda>(os, osset).
     case os of
       None \<Rightarrow> raiseX TypeError
     | Some os \<Rightarrow>
         (case resolve_overrides os (active_overrides osset od) None of
            None \<Rightarrow> retX None
          | Some m \<Rightarrow> if m = [] then retX None
                      else bindX (get m ''_content'' False False False True) (\<lambda>v. retX (Some (m, v))))))"

section \<open>Reading a flag\<close>

definition op_applies :: "string list option \<Rightarrow> string option \<Rightarrow> bool result" where
  "op_applies os o' =
     (case o' of
        None \<Rightarrow> Inr True
      | Some s \<Rightarrow> if s = [] then Inr True
                  else case os of None \<Rightarrow> Inl TypeError | Some os \<Rightarrow> Inr (set (split_on colon s) \<subseteq> set os))"

text \<open>The operations a flag holds, with the overrides that are set by then.\<close>

definition pending_ops ::
  "getter \<Rightarrow> string \<Rightarrow> vardata \<Rightarrow> (datasmart, (pyval \<times> string option) list \<times> string list option) sx" where
  "pending_ops get keyword local =
     (case dget local keyword of
        None \<Rightarrow> retX ([], None)
      | Some v \<Rightarrow>
          bindX (need_overrides get) (\<lambda>_.
          case v of POps ops \<Rightarrow> getX (\<lambda>d. (ops, d_overrides d)) | _ \<Rightarrow> raiseX TypeError))"

definition apply_ops ::
  "(pyval \<Rightarrow> pyval \<Rightarrow> pyval result) \<Rightarrow> (pyval \<times> string option) list \<times> string list option \<Rightarrow> pyval \<Rightarrow> pyval result" where
  "apply_ops f ops v =
     foldE (\<lambda>ro v. bindE (op_applies (snd ops) (snd ro)) (\<lambda>b.
        if b then f (if v = PNone then PStr [] else v) (fst ro) else Inr v)) (fst ops) v"

definition collect_removes ::
  "(pyval \<times> string option) list \<times> string list option \<Rightarrow> pyval list \<Rightarrow> pyval list result" where
  "collect_removes ops removes =
     foldE (\<lambda>ro rs. bindE (op_applies (snd ops) (snd ro)) (\<lambda>b. Inr (if b then sadd (fst ro) rs else rs))) (fst ops) removes"

definition local_value :: "vardata \<Rightarrow> string \<Rightarrow> bool \<Rightarrow> pyval" where
  "local_value local flag noweakdefault =
     (case dget local flag of
        Some v \<Rightarrow> v
      | None \<Rightarrow> if flag = ''_content'' \<and> \<not> noweakdefault then dget_default local ''_defaultval'' PNone else PNone)"

text \<open>The words each removal expands to.\<close>

fun expand_removes :: "denv \<Rightarrow> getter \<Rightarrow> pyval list \<Rightarrow> (datasmart, (pyval \<times> string list) list) sx" where
  "expand_removes env get [] = retX []"
| "expand_removes env get (r # rs) =
     bindX (expand env get r None) (\<lambda>v.
     case v of
       PStr s \<Rightarrow> bindX (expand_removes env get rs) (\<lambda>ws. retX ((r, split_ws s) # ws))
     | _ \<Rightarrow> raiseX AttributeError)"

text \<open>Drops the words from an expanded value; the blanks between them stay.\<close>

definition drop_words :: "(pyval \<times> string list) list \<Rightarrow> string \<Rightarrow> string \<times> pyval list" where
  "drop_words removes s =
     (concat (filter (\<lambda>v. \<forall>r \<in> set removes. v \<notin> set (snd r)) (ws_tokens [] s)),
      map fst (filter (\<lambda>r. \<exists>v \<in> set (ws_tokens [] s). v \<in> set (snd r)) removes))"

definition remove_words :: "denv \<Rightarrow> getter \<Rightarrow> pyval list \<Rightarrow> varparse \<Rightarrow> (datasmart, varparse) sx" where
  "remove_words env get removes vp =
     bindX (expand_removes env get removes) (\<lambda>ws.
     case vp_value vp of
       PStr s \<Rightarrow> retX (vp\<lparr>vp_value := PStr (fst (drop_words ws s)), vp_removes := Some (snd (drop_words ws s))\<rparr>)
     | _ \<Rightarrow> raiseX TypeError)"

definition cachename :: "string \<Rightarrow> string \<Rightarrow> string" where
  "cachename var flag = (if flag = ''_content'' then var else var @ ''['' @ flag @ '']'')"

text \<open>
  The set of removals of the variable that stands in is not copied: what is added to it is seen by the expansion of that
  variable in the cache.
\<close>

type_synonym stand_in = "(string \<times> pyval \<times> varparse option) option"

definition known_removes :: "stand_in \<Rightarrow> pyval list" where
  "known_removes sub = (case sub of Some (m, v, Some p) \<Rightarrow> (case vp_removes p of Some rs \<Rightarrow> rs | None \<Rightarrow> []) | _ \<Rightarrow> [])"

definition share_removes :: "stand_in \<Rightarrow> pyval list \<Rightarrow> datasmart \<Rightarrow> datasmart" where
  "share_removes sub removes d =
     (case sub of
        Some (m, v, Some p) \<Rightarrow>
          (case dget (d_cache d) m of
             Some q \<Rightarrow>
               if vp_removes p = None then d else d\<lparr>d_cache := dset m (q\<lparr>vp_removes := Some removes\<rparr>) (d_cache d)\<rparr>
           | None \<Rightarrow> d)
      | _ \<Rightarrow> d)"

definition store_parse :: "string \<Rightarrow> varparse option \<Rightarrow> datasmart \<Rightarrow> datasmart" where
  "store_parse name p d = (case p of None \<Rightarrow> d | Some vp \<Rightarrow> d\<lparr>d_cache := dset name vp (d_cache d)\<rparr>)"

text \<open>
  The value before expansion: what stands in first, then its own value or its default, with what is appended and
  prepended.
\<close>

definition raw_value ::
  "getter \<Rightarrow> string \<Rightarrow> bool \<Rightarrow> bool \<Rightarrow> vardata \<Rightarrow> stand_in \<Rightarrow> (datasmart, pyval) sx" where
  "raw_value get flag noweakdefault parsing local sub =
     (let value = (case sub of Some (m, v, p) \<Rightarrow> if v \<noteq> PNone then v else local_value local flag noweakdefault
                   | None \<Rightarrow> local_value local flag noweakdefault)
      in if flag \<noteq> ''_content'' \<or> parsing then retX value
         else bindX (pending_ops get '':append'' local) (\<lambda>ops.
              bindX (liftX (apply_ops py_add ops value)) (\<lambda>value.
              bindX (pending_ops get '':prepend'' local) (\<lambda>ops.
              liftX (apply_ops (\<lambda>v r. py_add r v) ops value)))))"

text \<open>The removals, collected and applied to an expanded value.\<close>

definition removed_value ::
  "denv \<Rightarrow> getter \<Rightarrow> vardata \<Rightarrow> stand_in \<Rightarrow> varparse option \<Rightarrow> (datasmart, varparse option) sx" where
  "removed_value env get local sub parser =
     bindX (pending_ops get '':remove'' local) (\<lambda>ops.
     bindX (liftX (collect_removes ops (known_removes sub))) (\<lambda>removes.
     bindX (setX (if removes = known_removes sub then (\<lambda>d. d) else share_removes sub removes)) (\<lambda>_.
     case parser of
       Some vp \<Rightarrow> if removes = [] then retX parser else bindX (remove_words env get removes vp) (\<lambda>vp. retX (Some vp))
     | None \<Rightarrow> retX None)))"

text \<open>
  \<^verbatim>\<open>getVarFlag\<close> for a lookup that is not in the cache: the value without expansion, and its expansion when it
  is asked for.
\<close>

definition compute_parse ::
  "denv \<Rightarrow> getter \<Rightarrow> string \<Rightarrow> string \<Rightarrow> bool \<Rightarrow> bool \<Rightarrow> bool \<Rightarrow> bool \<Rightarrow> (datasmart, pyval \<times> varparse option) sx" where
  "compute_parse env get var flag ex noweakdefault parsing retparser =
     bindX (getX (\<lambda>d. (flags_of var d, if flag = ''_content'' \<and> \<not> parsing then dget (d_overridedata d) var else None)))
       (\<lambda>(local, od).
     bindX (case od of None \<Rightarrow> retX None | Some od \<Rightarrow> override_value get od) (\<lambda>sub.
     bindX (raw_value get flag noweakdefault parsing local sub) (\<lambda>value.
     bindX (if ex \<or> retparser
            then bindX (expandWithRefs env get value (Some (cachename var flag))) (\<lambda>vp. retX (Some vp))
            else retX None) (\<lambda>parser.
     let found = (case parser of Some vp \<Rightarrow> if ex then vp_value vp else value | None \<Rightarrow> value) in
     bindX (if truth found \<and> flag = ''_content'' \<and> \<not> parsing then removed_value env get local sub parser else retX parser)
       (\<lambda>parser. retX (value, parser))))))"

definition compute_flag :: "denv \<Rightarrow> getter \<Rightarrow> getter" where
  "compute_flag env get var flag ex noweakdefault parsing retparser =
     bindX (compute_parse env get var flag ex noweakdefault parsing retparser) (\<lambda>(value, parser).
     bindX (setX (store_parse (cachename var flag) parser)) (\<lambda>_.
     retX (case parser of Some vp \<Rightarrow> if ex then vp_value vp else value | None \<Rightarrow> value,
           if retparser then parser else None)))"

definition getVarFlag_with :: "denv \<Rightarrow> getter \<Rightarrow> getter" where
  "getVarFlag_with env get var flag ex noweakdefault parsing retparser =
     (if flag = [] then retX (PNone, None)
      else bindX (getX (\<lambda>d. dget (d_cache d) (cachename var flag))) (\<lambda>hit.
           case hit of
             Some vp \<Rightarrow>
               if ex then retX (vp_value vp, None)
               else if retparser then retX (vp_unexpanded vp, Some vp)
               else compute_flag env get var flag ex noweakdefault parsing retparser
           | None \<Rightarrow> compute_flag env get var flag ex noweakdefault parsing retparser))"

text \<open>A value can need other values; the number is the depth of recursion the interpreter still allows.\<close>

fun getVarFlag_at :: "nat \<Rightarrow> denv \<Rightarrow> getter" where
  "getVarFlag_at 0 env = (\<lambda>var flag ex noweakdefault parsing retparser. raiseX RecursionError)"
| "getVarFlag_at (Suc n) env = getVarFlag_with env (getVarFlag_at n env)"

definition getter_of :: "denv \<Rightarrow> getter" where
  "getter_of env = getVarFlag_at (de_depth env) env"

definition getVarFlag :: "denv \<Rightarrow> string \<Rightarrow> string \<Rightarrow> bool \<Rightarrow> bool \<Rightarrow> bool \<Rightarrow> (datasmart, pyval) sx" where
  "getVarFlag env var flag ex noweakdefault parsing =
     bindX (getter_of env var flag ex noweakdefault parsing False) (\<lambda>v. retX (fst v))"

definition getVar :: "denv \<Rightarrow> string \<Rightarrow> bool \<Rightarrow> (datasmart, pyval) sx" where
  "getVar env var ex = getVarFlag env var ''_content'' ex False False"

end
