(* ===== verification/DataOps.thy ===== *)
theory DataOps
  imports DataSmart
begin

text \<open>
  The operations of \<^verbatim>\<open>DataSmart\<close> that change the store: variables, flags, operations in names, copies.
\<close>

section \<open>Layers\<close>

text \<open>The first layer is the dictionary of the store itself.\<close>

definition front :: "datasmart \<Rightarrow> (string, vardata) odict" where
  "front d = (case d_layers d of [] \<Rightarrow> [] | l # _ \<Rightarrow> l)"

definition set_front :: "(string, vardata) odict \<Rightarrow> datasmart \<Rightarrow> datasmart" where
  "set_front l d = d\<lparr>d_layers := l # tl (d_layers d)\<rparr>"

definition put_var :: "string \<Rightarrow> vardata \<Rightarrow> datasmart \<Rightarrow> datasmart" where
  "put_var var f d = set_front (dset var f (front d)) d"

definition drop_cache :: "datasmart \<Rightarrow> datasmart" where
  "drop_cache d = d\<lparr>d_cache := []\<rparr>"

text \<open>\<^verbatim>\<open>initVar\<close> and \<^verbatim>\<open>_makeShadowCopy\<close>.\<close>

definition initVar :: "string \<Rightarrow> datasmart \<Rightarrow> datasmart" where
  "initVar var d = (let d = drop_cache d in if dhas (front d) var then d else put_var var [] d)"

definition makeShadowCopy :: "string \<Rightarrow> datasmart \<Rightarrow> datasmart" where
  "makeShadowCopy var d =
     (if dhas (front d) var then d
      else case findVar var d of
             Some f \<Rightarrow> if f = [] then initVar var d else put_var var f d
           | None \<Rightarrow> initVar var d)"

text \<open>The flags of a variable in the first layer, where a shadow copy put them.\<close>

definition own_flags :: "string \<Rightarrow> datasmart \<Rightarrow> vardata" where
  "own_flags var d = dget_default (front d) var []"

definition put_flag :: "string \<Rightarrow> string \<Rightarrow> pyval \<Rightarrow> datasmart \<Rightarrow> datasmart" where
  "put_flag var flag v d = put_var var (dset flag v (own_flags var d)) d"

section \<open>Data about overrides\<close>

text \<open>
  The overrides a name ends with, with the shorter name each leaves: all suffixes, from the shortest on, as long as
  they look like an override. A name without a colon is its own override, and leaves itself without its last
  character.
\<close>

function suffix_overrides :: "string \<Rightarrow> string \<Rightarrow> string \<Rightarrow> (string \<times> string) list" where
  "suffix_overrides var override shortvar =
     (if \<not> override_match override then []
      else (shortvar, override) #
        (if colon \<notin> set shortvar \<or> before_last colon shortvar = [] then []
         else suffix_overrides var (drop (Suc (length (before_last colon shortvar))) var) (before_last colon shortvar)))"
  by pat_completeness auto
termination
proof (relation "measure (\<lambda>(var, override, shortvar). length shortvar)", goal_cases)
  case 1
  show ?case by simp
next
  case (2 var override shortvar)
  from before_after_last [of colon shortvar] 2(2) have "length (before_last colon shortvar) < length shortvar"
    by (metis add_Suc_right length_Cons length_append less_add_Suc1)
  then show ?case by simp
qed

declare suffix_overrides.simps [simp del]

definition name_overrides :: "string \<Rightarrow> (string \<times> string) list" where
  "name_overrides var =
     (if colon \<in> set var then suffix_overrides var (after_last colon var) (before_last colon var)
      else suffix_overrides var var (butlast var))"

definition note_override :: "string \<Rightarrow> string \<times> string \<Rightarrow> overridedata \<Rightarrow> overridedata" where
  "note_override var so od =
     (let old = dget_default od (fst so) []
      in dset (fst so) (if (var, snd so) \<in> set old then old else old @ [(var, snd so)]) od)"

text \<open>\<^verbatim>\<open>_setvar_update_overrides\<close>.\<close>

definition setvar_update_overrides :: "string \<Rightarrow> datasmart \<Rightarrow> datasmart" where
  "setvar_update_overrides var d =
     d\<lparr>d_overridedata := fold (note_override var) (name_overrides var) (d_overridedata d)\<rparr>"

text \<open>
  \<^verbatim>\<open>_setvar_update_overridevars\<close>: the variables that the overrides depend on. The number bounds the rounds.
\<close>

definition parse_names :: "varparse \<Rightarrow> string list" where
  "parse_names vp = supdate (vp_references vp) (dkeys (vp_contains vp))"

fun referenced_by :: "denv \<Rightarrow> string list \<Rightarrow> (datasmart, string list) sx" where
  "referenced_by env [] = retX []"
| "referenced_by env (i # is) =
     bindX (getVar env i True) (\<lambda>v.
     bindX (expandWithRefs env (getter_of env) v (Some i)) (\<lambda>vp.
     bindX (referenced_by env is) (\<lambda>names. retX (supdate (parse_names vp) names))))"

fun overridevar_rounds :: "nat \<Rightarrow> denv \<Rightarrow> string list \<Rightarrow> (datasmart, unit) sx" where
  "overridevar_rounds 0 env new = raiseX OutOfModel"
| "overridevar_rounds (Suc n) env new =
     bindX (getX d_overridevars) (\<lambda>known.
     if set new \<subseteq> set known then retX ()
     else bindX (setX (\<lambda>d. d\<lparr>d_overridevars := supdate (d_overridevars d) new\<rparr>)) (\<lambda>_.
          bindX (referenced_by env new) (\<lambda>nextnew. overridevar_rounds n env nextnew)))"

definition setvar_update_overridevars :: "denv \<Rightarrow> string \<Rightarrow> pyval \<Rightarrow> (datasmart, unit) sx" where
  "setvar_update_overridevars env var v =
     bindX (expandWithRefs env (getter_of env) v (Some var)) (\<lambda>vp.
     bindX (overridevar_rounds (de_rounds env) env (parse_names vp)) (\<lambda>_.
     setX (\<lambda>d. d\<lparr>d_overrides := None, d_cache := []\<rparr>)))"

section \<open>Deleting a variable\<close>

definition forget_override :: "string \<Rightarrow> string \<times> string \<Rightarrow> overridedata \<Rightarrow> overridedata" where
  "forget_override var so od =
     (case dget od (fst so) of None \<Rightarrow> od | Some l \<Rightarrow> dset (fst so) (remove1 (var, snd so) l) od)"

definition delVar :: "string \<Rightarrow> datasmart \<Rightarrow> datasmart" where
  "delVar var d =
     (let d = put_var var [] (drop_cache d); od = ddel var (d_overridedata d)
      in d\<lparr>d_overridedata := if colon \<in> set var then fold (forget_override var) (name_overrides var) od else od\<rparr>)"

section \<open>Setting a variable\<close>

definition shortname :: "string \<Rightarrow> string" where
  "shortname var = before_first colon var"

text \<open>The overrides of the variable that apply are deleted, and all are forgotten.\<close>

definition clear_pending :: "denv \<Rightarrow> string \<Rightarrow> (datasmart, unit) sx" where
  "clear_pending env var =
     bindX (setX (\<lambda>d. put_var var (fold ddel setvar_keywords (own_flags var d)) d)) (\<lambda>_.
     bindX (getX (\<lambda>d. dget (d_overridedata d) var)) (\<lambda>od.
     case od of
       None \<Rightarrow> retX ()
     | Some od \<Rightarrow>
         bindX (need_overrides (getter_of env)) (\<lambda>_.
         setX (\<lambda>d.
           let active = map fst (filter (\<lambda>ro. override_applies (d_overridesset d) (snd ro)) od);
               d = fold delVar active d
           in d\<lparr>d_overridedata := ddel var (d_overridedata d)\<rparr>))))"

text \<open>The assignment of a name without an operation.\<close>

definition set_plain :: "denv \<Rightarrow> string \<Rightarrow> pyval \<Rightarrow> bool \<Rightarrow> (datasmart, unit) sx" where
  "set_plain env var v parsing =
     bindX (setX (makeShadowCopy var)) (\<lambda>_.
     bindX (if parsing then retX () else clear_pending env var) (\<lambda>_.
     bindX (setX (\<lambda>d. put_flag var ''_content'' v (if colon \<in> set var then setvar_update_overrides var d else d))) (\<lambda>_.
     bindX (getX (\<lambda>d. var \<in> set (d_overridevars d))) (\<lambda>b.
     if b then setvar_update_overridevars env var v else retX ()))))"

text \<open>
  A renamed variable is reported, with the text or list it has in the table, and the parsing marked as failed, by an
  assignment to another variable. When that one is renamed too the reports do not end.
\<close>

fun info_text :: "pyval \<Rightarrow> bool" where
  "info_text PNone = False"
| "info_text (PBool b) = False"
| "info_text (PInt i) = False"
| "info_text v = True"

definition failed_var :: string where
  "failed_var = ''_FAILPARSINGERRORHANDLED''"

definition print_rename_error :: "string \<Rightarrow> (datasmart, unit) sx" where
  "print_rename_error var =
     bindX (getX (\<lambda>d. dget_default (d_renames d) var PNone)) (\<lambda>info.
     if info_text info then setX (\<lambda>d. d\<lparr>d_messages := d_messages d @ [var]\<rparr>) else raiseX TypeError)"

definition report_renamed :: "denv \<Rightarrow> string \<Rightarrow> (datasmart, unit) sx" where
  "report_renamed env var =
     bindX (print_rename_error var) (\<lambda>_.
     bindX (getX (\<lambda>d. dhas (d_renames d) failed_var)) (\<lambda>b.
     if b then bindX (print_rename_error failed_var) (\<lambda>_. raiseX RecursionError)
     else bindX (setX drop_cache) (\<lambda>_. set_plain env failed_var (PBool True) False)))"

text \<open>\<^verbatim>\<open>setVarFlag\<close>; exported variables are also listed.\<close>

definition add_export :: "string \<Rightarrow> datasmart \<Rightarrow> datasmart" where
  "add_export var d =
     (let d = makeShadowCopy ''__exportlist'' d;
          old = (case dget (own_flags ''__exportlist'' d) ''_content'' of Some (PList xs) \<Rightarrow> xs | _ \<Rightarrow> [])
      in put_flag ''__exportlist'' ''_content'' (PList (sadd var old)) d)"

text \<open>What follows the assignment of a flag: default values count for overrides.\<close>

definition flag_effects :: "denv \<Rightarrow> string \<Rightarrow> string \<Rightarrow> pyval \<Rightarrow> (datasmart, unit) sx" where
  "flag_effects env var flag v =
     bindX (setX (\<lambda>d. if flag = ''_defaultval'' \<and> colon \<in> set var then setvar_update_overrides var d else d)) (\<lambda>_.
     bindX (getX (\<lambda>d. flag = ''_defaultval'' \<and> var \<in> set (d_overridevars d))) (\<lambda>b.
     bindX (if b then setvar_update_overridevars env var v else retX ()) (\<lambda>_.
     setX (\<lambda>d. if flag = ''unexport'' \<or> flag = ''export'' then add_export var d else d))))"

definition note_renamed :: "string \<Rightarrow> string \<Rightarrow> pyval \<Rightarrow> datasmart \<Rightarrow> datasmart" where
  "note_renamed var flag v d = (if var = ''BB_RENAMED_VARIABLES'' then d\<lparr>d_renames := dset flag v (d_renames d)\<rparr> else d)"

definition setVarFlag :: "denv \<Rightarrow> string \<Rightarrow> string \<Rightarrow> pyval \<Rightarrow> (datasmart, unit) sx" where
  "setVarFlag env var flag v =
     bindX (setX drop_cache) (\<lambda>_.
     bindX (setX (note_renamed var flag v)) (\<lambda>_.
     bindX (getX (\<lambda>d. dhas (d_renames d) var)) (\<lambda>renamed.
     bindX (if renamed then report_renamed env var else retX ()) (\<lambda>_.
     bindX (setX (\<lambda>d. put_flag var flag v (makeShadowCopy var d))) (\<lambda>_. flag_effects env var flag v)))))"

text \<open>A name with an operation adds to the operations that wait for the base.\<close>

definition set_operation :: "denv \<Rightarrow> string \<Rightarrow> string \<Rightarrow> string \<Rightarrow> string option \<Rightarrow> pyval \<Rightarrow> (datasmart, unit) sx" where
  "set_operation env var base keyword add v =
     bindX (getVarFlag env base keyword False False False) (\<lambda>old.
     bindX (if \<not> truth old then retX [] else case old of POps ops \<Rightarrow> retX ops | _ \<Rightarrow> raiseX AttributeError) (\<lambda>ops.
     bindX (setVarFlag env base keyword (POps (ops @ [(v, add)]))) (\<lambda>_.
     bindX (setX (setvar_update_overrides base)) (\<lambda>_.
     bindX (getX (\<lambda>d. base \<in> set (d_overridevars d))) (\<lambda>b.
     if b then setvar_update_overridevars env var v else retX ())))))"

definition old_syntax :: "string \<Rightarrow> bool" where
  "old_syntax var \<longleftrightarrow>
     \<not> startswith var ''__anon_'' \<and>
     (contains_str ''_append'' var \<or> contains_str ''_prepend'' var \<or> contains_str ''_remove'' var)"

definition setVar_parsing :: "denv \<Rightarrow> string \<Rightarrow> pyval \<Rightarrow> bool \<Rightarrow> (datasmart, unit) sx" where
  "setVar_parsing env var v parsing =
     (if old_syntax var then raiseX (BBFatal var)
      else bindX (getX (\<lambda>d. dhas (d_renames d) (shortname var))) (\<lambda>renamed.
           bindX (if renamed then report_renamed env (shortname var) else retX ()) (\<lambda>_.
           bindX (setX drop_cache) (\<lambda>_.
           case setvar_match var of
             Some (base, keyword, add) \<Rightarrow> set_operation env var base keyword add v
           | None \<Rightarrow> set_plain env var v parsing))))"

definition setVar :: "denv \<Rightarrow> string \<Rightarrow> pyval \<Rightarrow> (datasmart, unit) sx" where
  "setVar env var v = setVar_parsing env var v False"

definition appendVar :: "denv \<Rightarrow> string \<Rightarrow> pyval \<Rightarrow> (datasmart, unit) sx" where
  "appendVar env var v = setVar_parsing env (var @ '':append'') v True"

definition prependVar :: "denv \<Rightarrow> string \<Rightarrow> pyval \<Rightarrow> (datasmart, unit) sx" where
  "prependVar env var v = setVar_parsing env (var @ '':prepend'') v True"

section \<open>Flags\<close>

definition delVarFlag :: "string \<Rightarrow> string \<Rightarrow> datasmart \<Rightarrow> datasmart" where
  "delVarFlag var flag d =
     (let d = drop_cache d in
      case findVar var d of
        None \<Rightarrow> d
      | Some f \<Rightarrow> if f = [] then d
                  else let d = makeShadowCopy var d in put_var var (ddel flag (own_flags var d)) d)"

text \<open>The flag as it is, as text, or nothing.\<close>

definition flag_text :: "denv \<Rightarrow> string \<Rightarrow> string \<Rightarrow> (datasmart, pyval) sx" where
  "flag_text env var flag =
     bindX (getVarFlag env var flag False False False) (\<lambda>v. retX (if truth v then v else PStr []))"

definition appendVarFlag :: "denv \<Rightarrow> string \<Rightarrow> string \<Rightarrow> pyval \<Rightarrow> (datasmart, unit) sx" where
  "appendVarFlag env var flag v =
     bindX (flag_text env var flag) (\<lambda>old. bindX (liftX (py_add old v)) (\<lambda>new. setVarFlag env var flag new))"

definition prependVarFlag :: "denv \<Rightarrow> string \<Rightarrow> string \<Rightarrow> pyval \<Rightarrow> (datasmart, unit) sx" where
  "prependVarFlag env var flag v =
     bindX (flag_text env var flag) (\<lambda>old. bindX (liftX (py_add v old)) (\<lambda>new. setVarFlag env var flag new))"

definition setVarFlags :: "string \<Rightarrow> vardata \<Rightarrow> datasmart \<Rightarrow> datasmart" where
  "setVarFlags var flags d =
     (let d = makeShadowCopy var (drop_cache d)
      in put_var var (fold (\<lambda>fv f. if fst fv = ''_content'' then f else dset (fst fv) (snd fv) f) flags (own_flags var d)) d)"

definition internal_flag :: "string \<Rightarrow> bool" where
  "internal_flag flag \<longleftrightarrow> startswith flag ''_'' \<or> startswith flag '':''"

text \<open>All flags but the internal ones; those named are expanded.\<close>

definition getVarFlags :: "denv \<Rightarrow> string \<Rightarrow> string list \<Rightarrow> bool \<Rightarrow> (datasmart, vardata option) sx" where
  "getVarFlags env var ex internalflags =
     bindX (getX (flags_of var)) (\<lambda>local.
     let chosen = filter (\<lambda>fv. internalflags \<or> \<not> internal_flag (fst fv)) local in
     bindX (fold (\<lambda>fv m. bindX m (\<lambda>flags.
              if fst fv \<in> set ex
              then bindX (expand env (getter_of env) (snd fv) (Some (var @ ''['' @ fst fv @ '']''))) (\<lambda>v. retX (dset (fst fv) v flags))
              else retX (dset (fst fv) (snd fv) flags))) chosen (retX [])) (\<lambda>flags.
     retX (if flags = [] then None else Some flags)))"

text \<open>A variable without content loses its entry in the first layer.\<close>

definition delVarFlags :: "string \<Rightarrow> datasmart \<Rightarrow> datasmart" where
  "delVarFlags var d =
     (let d = makeShadowCopy var (drop_cache d)
      in case dget (own_flags var d) ''_content'' of
           Some v \<Rightarrow> put_var var [(''_content'', v)] d
         | None \<Rightarrow> set_front (ddel var (front d)) d)"

section \<open>Copies and renaming\<close>

text \<open>
  \<^verbatim>\<open>createCopy\<close>: the copy begins with an empty layer above those of the original. The original is not to be
  changed while the copy is in use.
\<close>

definition createCopy :: "datasmart \<Rightarrow> datasmart" where
  "createCopy d =
     d\<lparr>d_layers := [] # d_layers d, d_cache := [], d_overrides := None, d_overridesset := [], d_inoverride := False\<rparr>"

definition new_store :: datasmart where
  "new_store =
     \<lparr>d_layers = [[]], d_cache = [], d_overridedata = [], d_overrides = None, d_overridesset = [],
      d_overridevars = [''OVERRIDES'', ''FILE''], d_inoverride = False, d_renames = bitbake_renamed_vars, d_messages = []\<rparr>"

text \<open>The operations of the old name are added to those of the new one.\<close>

definition move_operations :: "denv \<Rightarrow> string \<Rightarrow> string \<times> pyval \<Rightarrow> (datasmart, unit) sx" where
  "move_operations env newkey = (\<lambda>(flag, src).
     if flag \<notin> set setvar_keywords then retX ()
     else bindX (getVarFlag env newkey flag False False False) (\<lambda>old.
          case (if truth old then old else POps [], src) of
            (POps ops, POps new) \<Rightarrow> setVarFlag env newkey flag (POps (ops @ new))
          | _ \<Rightarrow> raiseX AttributeError))"

text \<open>\<^verbatim>\<open>renameVar\<close>, with all variables that override it; the number is the depth of recursion that is left.\<close>

fun renameVar_at :: "nat \<Rightarrow> denv \<Rightarrow> string \<Rightarrow> string \<Rightarrow> (datasmart, unit) sx" where
  "renameVar_at 0 env key newkey = raiseX RecursionError"
| "renameVar_at (Suc n) env key newkey =
     (if key = newkey then retX ()
      else bindX (getVarFlag env key ''_content'' False False True) (\<lambda>val.
           bindX (if val = PNone then retX () else setVar_parsing env newkey val True) (\<lambda>_.
           bindX (getVarFlags env key [] True) (\<lambda>srcflags.
           bindX (forX (move_operations env newkey) (case srcflags of None \<Rightarrow> [] | Some f \<Rightarrow> f)) (\<lambda>_.
           bindX (getX (\<lambda>d. dget (d_overridedata d) key)) (\<lambda>od.
           bindX (case od of
                    None \<Rightarrow> retX ()
                  | Some od \<Rightarrow>
                      bindX (setX (\<lambda>d. d\<lparr>d_overridedata := dset newkey [] (d_overridedata d)\<rparr>)) (\<lambda>_.
                      forX (\<lambda>vo. bindX (setX (\<lambda>d. d\<lparr>d_overridedata :=
                                 dset newkey (dget_default (d_overridedata d) newkey [] @ [(replace_str key newkey (fst vo), snd vo)])
                                   (d_overridedata d)\<rparr>)) (\<lambda>_.
                               renameVar_at n env (fst vo) (replace_str key newkey (fst vo)))) od)) (\<lambda>_.
           bindX (setX (\<lambda>d. if colon \<in> set newkey \<and> val = PNone then setvar_update_overrides newkey d else d)) (\<lambda>_.
           setX (delVar key)))))))))"

definition renameVar :: "denv \<Rightarrow> string \<Rightarrow> string \<Rightarrow> (datasmart, unit) sx" where
  "renameVar env = renameVar_at (de_depth env) env"

section \<open>The names of a store\<close>

text \<open>
  \<^verbatim>\<open>__iter__\<close>: the names with flags, layer by layer, and the names an active override gives a value. A name whose
  flags are empty was deleted, and hides what the layers below have.
\<close>

fun keylist :: "string list \<Rightarrow> string list \<Rightarrow> layers \<Rightarrow> string list" where
  "keylist overrides deleted [] = []"
| "keylist overrides deleted (l # ls) =
     (let seen = filter (\<lambda>kv. fst kv \<notin> set overrides \<and> fst kv \<notin> set deleted) l;
          gone = map fst (filter (\<lambda>kv. snd kv = []) seen)
      in supdate (map fst (filter (\<lambda>kv. snd kv \<noteq> []) seen)) (keylist overrides (deleted @ gone) ls))"

definition override_names :: "string list \<Rightarrow> overridedata \<Rightarrow> string list" where
  "override_names os od = map fst (filter (\<lambda>vl. \<exists>ro \<in> set (snd vl). override_applies os (snd ro)) od)"

definition store_names :: "denv \<Rightarrow> (datasmart, string list) sx" where
  "store_names env =
     bindX (need_overrides (getter_of env)) (\<lambda>_.
     getX (\<lambda>d. let os = override_names (d_overridesset d) (d_overridedata d)
               in keylist os [] (d_layers d) @ os))"

end
