(* ===== verification/DataSim.thy ===== *)
theory DataSim
  imports DataOps
begin

text \<open>
  When two ways to read a store agree: a relation between the states of two computations that holds at the start
  holds at the end, and the results are the same. The interface of what the computations read is a locale; it is
  proved here once that one lookup of \<^verbatim>\<open>getVarFlag\<close> agrees when the lookups it makes do.
\<close>

section \<open>Computations that agree\<close>

text \<open>With \<open>lax\<close>, nothing is claimed when the second computation raises an exception.\<close>

definition tracks ::
  "(datasmart \<Rightarrow> datasmart \<Rightarrow> bool) \<Rightarrow> bool \<Rightarrow> (datasmart, 'a) sx \<Rightarrow> (datasmart, 'a) sx \<Rightarrow> bool" where
  "tracks R lax m m' \<longleftrightarrow>
     (\<forall>d e r e'. R d e \<longrightarrow> m' e = (r, e') \<longrightarrow> (lax \<and> (\<exists>x. r = Inl x)) \<or> (\<exists>d'. m d = (r, d') \<and> R d' e'))"

named_theorems tracks_rules \<open>composition rules for computations that agree\<close>

lemma tracksI:
  assumes "\<And>d e r e'. R d e \<Longrightarrow> m' e = (r, e') \<Longrightarrow> \<not> (lax \<and> (\<exists>x. r = Inl x)) \<Longrightarrow> \<exists>d'. m d = (r, d') \<and> R d' e'"
  shows "tracks R lax m m'"
  unfolding tracks_def using assms by blast

lemma tracksD:
  assumes "tracks R lax m m'" and "R d e" and "m' e = (r, e')" and "\<not> (lax \<and> (\<exists>x. r = Inl x))"
  shows "\<exists>d'. m d = (r, d') \<and> R d' e'"
  using assms unfolding tracks_def by blast

lemma tracks_ret [tracks_rules]: "tracks R lax (retX x) (retX x)"
  by (rule tracksI) auto

lemma tracks_raise [tracks_rules]: "tracks R lax (raiseX x) (raiseX x)"
  by (rule tracksI) auto

lemma tracks_lift [tracks_rules]: "tracks R lax (liftX r) (liftX r)"
  by (rule tracksI) auto

lemma tracks_bind [tracks_rules]:
  assumes m: "tracks R lax m m'" and f: "\<And>x. tracks R lax (f x) (f' x)"
  shows "tracks R lax (bindX m f) (bindX m' f')"
proof (rule tracksI)
  fix d e r e'
  assume R: "R d e" and r: "bindX m' f' e = (r, e')" and n: "\<not> (lax \<and> (\<exists>x. r = Inl x))"
  obtain q u where q: "m' e = (q, u)" by (cases "m' e")
  show "\<exists>d'. bindX m f d = (r, d') \<and> R d' e'"
  proof (cases q)
    case (Inl x)
    with r q have "r = Inl x" "e' = u" by (simp_all add: bindX_def)
    with tracksD [OF m R q] Inl n show ?thesis by (auto simp: bindX_def)
  next
    case (Inr x)
    with r q have fr: "f' x u = (r, e')" by (simp add: bindX_def)
    from tracksD [OF m R q] Inr obtain d1 where d1: "m d = (Inr x, d1)" "R d1 u" by auto
    from tracksD [OF f d1(2) fr n] d1(1) show ?thesis by (auto simp: bindX_def)
  qed
qed

lemma tracks_get: "(\<And>d e. R d e \<Longrightarrow> f d = f' e) \<Longrightarrow> tracks R lax (getX f) (getX f')"
  by (rule tracksI) (auto simp: getX_def)

lemma tracks_get_bind:
  assumes f: "\<And>d e. R d e \<Longrightarrow> f d = f' e \<and> P (f d)" and k: "\<And>x. P x \<Longrightarrow> tracks R lax (k x) (k' x)"
  shows "tracks R lax (bindX (getX f) k) (bindX (getX f') k')"
proof (rule tracksI)
  fix d e r e'
  assume R: "R d e" and r: "bindX (getX f') k' e = (r, e')" and n: "\<not> (lax \<and> (\<exists>x. r = Inl x))"
  have "f' e = f d" "P (f d)" using f [OF R] by (simp, blast)
  with r have "k' (f d) e = (r, e')" by (simp add: bindX_def getX_def)
  from tracksD [OF k [OF \<open>P (f d)\<close>] R this n] show "\<exists>d'. bindX (getX f) k d = (r, d') \<and> R d' e'"
    by (simp add: bindX_def getX_def)
qed

lemma tracks_set: "(\<And>d e. R d e \<Longrightarrow> R (f d) (f' e)) \<Longrightarrow> tracks R lax (setX f) (setX f')"
  by (rule tracksI) (auto simp: setX_def)

lemma tracks_wrap [tracks_rules]:
  assumes "tracks R lax m m'"
  shows "tracks R lax (wrapX v s m) (wrapX v s m')"
proof (rule tracksI)
  fix d e r e'
  assume R: "R d e" and r: "wrapX v s m' e = (r, e')" and n: "\<not> (lax \<and> (\<exists>x. r = Inl x))"
  obtain q u where q: "m' e = (q, u)" by (cases "m' e")
  show "\<exists>d'. wrapX v s m d = (r, d') \<and> R d' e'"
  proof (cases q)
    case (Inl x)
    with r q have e: "r = Inl (wrap_error v s x)" "e' = u" by (simp_all add: wrapX_def)
    with n have "\<not> lax" by blast
    with tracksD [OF assms R q] Inl e show ?thesis by (auto simp: wrapX_def)
  next
    case (Inr x)
    with r q have e: "r = Inr x" "e' = u" by (simp_all add: wrapX_def)
    from tracksD [OF assms R q] Inr obtain d1 where "m d = (Inr x, d1)" "R d1 u" by auto
    then show ?thesis by (simp add: wrapX_def e)
  qed
qed

lemma tracks_for: "(\<And>x. x \<in> set xs \<Longrightarrow> tracks R lax (f x) (f' x)) \<Longrightarrow> tracks R lax (forX f xs) (forX f' xs)"
proof (induction xs)
  case Nil
  have "forX h [] = retX ()" for h :: "'a \<Rightarrow> (datasmart, unit) sx" by (rule ext) (simp add: retX_def)
  then show ?case by (simp add: tracks_ret)
next
  case (Cons x xs)
  have "forX h (x # xs) = bindX (h x) (\<lambda>_. forX h xs)" for h :: "'a \<Rightarrow> (datasmart, unit) sx" by (rule ext) simp
  with Cons show ?case by (simp add: tracks_bind)
qed

section \<open>The lookups a lookup makes\<close>

text \<open>
  \<open>plain\<close> are the names that are looked up. The lookup of dependencies is made for its effects only.
\<close>

definition calls_agree ::
  "(string \<Rightarrow> bool) \<Rightarrow> (datasmart \<Rightarrow> datasmart \<Rightarrow> bool) \<Rightarrow> bool \<Rightarrow> getter \<Rightarrow> getter \<Rightarrow> bool" where
  "calls_agree plain R lax g g' \<longleftrightarrow>
     (\<forall>key. plain key \<longrightarrow> tracks R lax (g key ''_content'' True False False False) (g' key ''_content'' True False False False)) \<and>
     (\<forall>key. plain key \<longrightarrow> tracks R lax (g key ''_content'' False False False True) (g' key ''_content'' False False False True)) \<and>
     (\<forall>v. tracks R lax (bindX (g v ''vardeps'' True False False False) (\<lambda>_. retX ()))
                       (bindX (g' v ''vardeps'' True False False False) (\<lambda>_. retX ())))"

lemma calls_agreeD:
  assumes "calls_agree plain R lax g g'"
  shows "plain key \<Longrightarrow> tracks R lax (g key ''_content'' True False False False) (g' key ''_content'' True False False False)"
    and "plain key \<Longrightarrow> tracks R lax (g key ''_content'' False False False True) (g' key ''_content'' False False False True)"
    and "tracks R lax (bindX (g v ''vardeps'' True False False False) (\<lambda>_. retX ()))
                      (bindX (g' v ''vardeps'' True False False False) (\<lambda>_. retX ()))"
  using assms unfolding calls_agree_def by blast+

text \<open>Updates of the overrides in step.\<close>

definition override_update :: "(datasmart \<Rightarrow> datasmart \<Rightarrow> bool) \<Rightarrow> bool" where
  "override_update R \<longleftrightarrow>
     (\<forall>d e os s b. R d e \<longrightarrow> R (d\<lparr>d_inoverride := b, d_overrides := os, d_overridesset := s\<rparr>)
                              (e\<lparr>d_inoverride := b, d_overrides := os, d_overridesset := s\<rparr>) \<and>
                            R (d\<lparr>d_overrides := os, d_overridesset := s, d_inoverride := b, d_cache := []\<rparr>)
                              (e\<lparr>d_overrides := os, d_overridesset := s, d_inoverride := b, d_cache := []\<rparr>) \<and>
                            R (d\<lparr>d_overrides := os, d_overridesset := s\<rparr>) (e\<lparr>d_overrides := os, d_overridesset := s\<rparr>))"

lemma need_overrides_agree:
  assumes u: "override_update R" and o: "\<And>d e. R d e \<Longrightarrow> d_overrides d = d_overrides e \<and> d_inoverride d = d_inoverride e"
    and c: "calls_agree plain R lax g g'" and p: "plain ''OVERRIDES''"
  shows "tracks R lax (need_overrides g) (need_overrides g')"
proof -
  have r: "tracks R lax (read_overrides g) (read_overrides g')"
    unfolding read_overrides_def
    by (intro tracks_rules calls_agreeD [OF c] p) (auto intro!: tracks_rules split: pyval.split)
  have rounds: "tracks R lax (override_rounds n g) (override_rounds n g')" for n
  proof (induction n)
    case (Suc n)
    then show ?case using u
      by (auto intro!: tracks_rules r tracks_set simp: override_update_def)
  qed (simp add: tracks_raise)
  show ?thesis
  proof (rule tracksI)
    fix d e q e'
    assume R: "R d e" and q: "need_overrides g' e = (q, e')" and n: "\<not> (lax \<and> (\<exists>x. q = Inl x))"
    show "\<exists>d'. need_overrides g d = (q, d') \<and> R d' e'"
    proof (cases "d_overrides d \<noteq> None \<or> d_inoverride d")
      case True
      with R o [OF R] q show ?thesis by (auto simp: need_overrides_def)
    next
      case False
      with o [OF R] q have "override_rounds 5 g' e = (q, e')" by (auto simp: need_overrides_def)
      from tracksD [OF rounds R this n] False show ?thesis by (auto simp: need_overrides_def)
    qed
  qed
qed

section \<open>What an override chooses\<close>

text \<open>It is one of its candidates.\<close>

lemma snd_ddel: "snd ` set (ddel a d) \<subseteq> snd ` set d"
  by (auto simp: AList.delete_eq)

lemma snd_dset: "snd ` set (dset k t d) \<subseteq> insert t (snd ` set d)"
  by (induction d) auto

lemma resolve_key_mem:
  assumes "resolve_key o' k (a, m, md) = (a', m', md')"
  shows "snd ` set a' \<subseteq> snd ` set a \<and> (m' = Some t \<longrightarrow> t \<in> snd ` set a \<or> m = Some t)"
proof (cases "dget a k")
  case None
  with assms show ?thesis by (auto simp: resolve_key_def)
next
  case (Some u)
  then have "u \<in> snd ` set a" by (force dest!: map_of_SomeD)
  with snd_ddel [of k a] snd_dset [of "replace_str (colon # o') [] k" u "ddel k a"]
  have sub: "snd ` set (dset (replace_str (colon # o') [] k) u (ddel k a)) \<subseteq> snd ` set a" by blast
  consider "a' = dset (replace_str (colon # o') [] k) u (ddel k a)" "m' = m" | "a' = ddel k a" "m' = Some u" | "a' = a" "m' = m"
    using assms Some by (auto simp: resolve_key_def split: if_splits)
  then show ?thesis
  proof cases
    case 1
    with sub show ?thesis by simp
  next
    case 2
    with snd_ddel [of k a] \<open>u \<in> snd ` set a\<close> show ?thesis by (simp, blast)
  qed simp
qed

lemma resolve_fold_mem:
  "fold (resolve_key o') ks (a, m, md) = (a', m', md') \<Longrightarrow>
    snd ` set a' \<subseteq> snd ` set a \<and> (m' = Some t \<longrightarrow> t \<in> snd ` set a \<or> m = Some t)"
proof (induction ks arbitrary: a m md)
  case (Cons k ks)
  obtain a1 m1 md1 where s: "resolve_key o' k (a, m, md) = (a1, m1, md1)" by (cases "resolve_key o' k (a, m, md)") auto
  with Cons.prems have f: "fold (resolve_key o') ks (a1, m1, md1) = (a', m', md')" by simp
  from resolve_key_mem [OF s, of t] Cons.IH [OF f] show ?case by blast
qed simp

lemma resolve_pass_mem:
  "fold (\<lambda>o' st. fold (resolve_key o') (dkeys (fst st)) st) os (a, m, md) = (a', m', md') \<Longrightarrow>
    snd ` set a' \<subseteq> snd ` set a \<and> (m' = Some t \<longrightarrow> t \<in> snd ` set a \<or> m = Some t)"
proof (induction os arbitrary: a m md)
  case (Cons o' os)
  obtain a1 m1 md1 where s: "fold (resolve_key o') (dkeys a) (a, m, md) = (a1, m1, md1)"
    by (cases "fold (resolve_key o') (dkeys a) (a, m, md)") auto
  with Cons.prems have f: "fold (\<lambda>o' st. fold (resolve_key o') (dkeys (fst st)) st) os (a1, m1, md1) = (a', m', md')" by simp
  from resolve_fold_mem [OF s, of t] Cons.IH [OF f] show ?case by blast
qed simp

lemma resolve_mem:
  "resolve_overrides os active m = Some t \<Longrightarrow> t \<in> snd ` set active \<or> m = Some t"
proof (induction os active m rule: resolve_overrides.induct)
  case (1 os active m)
  obtain a' m' md' where st: "resolve_pass os active m = (a', m', md')" by (cases "resolve_pass os active m") auto
  note p = resolve_pass_mem [OF st [unfolded resolve_pass_def], of t]
  show ?case
  proof (cases md')
    case True
    with 1(2) st have "resolve_overrides os a' m' = Some t" by (subst (asm) resolve_overrides.simps) simp
    with 1(1) [OF refl] st True have "t \<in> snd ` set a' \<or> m' = Some t" by simp
    with p show ?thesis by blast
  next
    case False
    with 1(2) st p show ?thesis by (subst (asm) resolve_overrides.simps) simp
  qed
qed

lemma active_mem: "t \<in> snd ` set (active_overrides os od) \<Longrightarrow> \<exists>ro \<in> set od. t = fst ro"
proof -
  have "snd ` set (fold (\<lambda>ro a. if override_applies os (snd ro) then dset (snd ro) (fst ro) a else a) od a)
      \<subseteq> snd ` set a \<union> fst ` set od" for a
  proof (induction od arbitrary: a)
    case (Cons ro od)
    have "snd ` set (if override_applies os (snd ro) then dset (snd ro) (fst ro) a else a) \<subseteq> insert (fst ro) (snd ` set a)"
      using snd_dset [of "snd ro" "fst ro" a] by auto
    with Cons.IH [of "if override_applies os (snd ro) then dset (snd ro) (fst ro) a else a"]
    show ?case unfolding fold_Cons comp_def list.set image_insert by blast
  qed simp
  from this [of "[]"] show "t \<in> snd ` set (active_overrides os od) \<Longrightarrow> \<exists>ro \<in> set od. t = fst ro"
    unfolding active_overrides_def by auto
qed

section \<open>The interface of a view\<close>

definition shareable :: "(datasmart \<Rightarrow> datasmart \<Rightarrow> bool) \<Rightarrow> bool" where
  "shareable R \<longleftrightarrow> (\<forall>sub rs d e. R d e \<longrightarrow> R (share_removes sub rs d) (share_removes sub rs e))"

locale store_view =
  fixes R :: "datasmart \<Rightarrow> datasmart \<Rightarrow> bool"
    and lax :: bool
    and plain :: "string \<Rightarrow> bool"
  assumes same_flags: "R d e \<Longrightarrow> flags_of v d = flags_of v e"
    and same_overridedata: "R d e \<Longrightarrow> d_overridedata d = d_overridedata e"
    and same_overrides: "R d e \<Longrightarrow> d_overrides d = d_overrides e \<and> d_overridesset d = d_overridesset e"
    and need_agree: "calls_agree plain R lax g g' \<Longrightarrow> tracks R lax (need_overrides g) (need_overrides g')"
    and share_agree: "R d e \<Longrightarrow> dget (flags_of v d) '':remove'' \<noteq> None \<Longrightarrow> shareable R"
    and plain_ref: "\<forall>c \<in> set key. ref_char c \<Longrightarrow> plain key"
    and plain_stand_in: "R d e \<Longrightarrow> dget (d_overridedata d) v = Some od \<Longrightarrow> mo \<in> set od \<Longrightarrow> plain (fst mo)"
begin

lemma agree_vars:
  assumes "calls_agree plain R lax g g'" and "plain key"
  shows "tracks R lax (var_sub g varname key vp) (var_sub g' varname key vp)"
  unfolding var_sub_def
  by (auto intro!: tracks_rules calls_agreeD [OF assms(1)] assms(2) simp: Let_def split: pyval.split)

lemma agree_vardeps:
  assumes "calls_agree plain R lax g g'"
  shows "tracks R lax (ask_vardeps g varname) (ask_vardeps g' varname)"
  unfolding ask_vardeps_def by (auto intro!: tracks_ret calls_agreeD(3) [OF assms] split: option.split)

lemma agree_eval:
  "tracks R lax (getX (\<lambda>d. f (\<lambda>v. flags_of v d) (d_overridedata d) (d_overrides d)))
     (getX (\<lambda>d. f (\<lambda>v. flags_of v d) (d_overridedata d) (d_overrides d)))"
  by (rule tracks_get) (simp add: same_flags same_overridedata same_overrides)

lemma agree_stop: "tracks R lax (syntax_stop e vp) (syntax_stop e vp)"
  by (simp add: syntax_stop_def tracks_ret tracks_raise)

lemma agree_code:
  assumes "calls_agree plain R lax g g'"
  shows "tracks R lax (python_sub env g varname code vp) (python_sub env g' varname code vp)"
  unfolding python_sub_def Let_def
  by (auto intro!: tracks_rules agree_vardeps [OF assms] agree_eval agree_stop split: option.split sum.split)

lemma agree_pieces:
  assumes "\<And>k vp. Ref k \<in> set ps \<Longrightarrow> tracks R lax (f k vp) (f' k vp)"
  shows "tracks R lax (sub_pieces f ps vp) (sub_pieces f' ps vp)"
  using assms
proof (induction ps arbitrary: vp)
  case (Cons p ps)
  have ps: "tracks R lax (sub_pieces f ps vp) (sub_pieces f' ps vp)" for vp by (rule Cons.IH) (simp add: Cons.prems)
  show ?case
  proof (cases p)
    case (Lit s)
    then show ?thesis by (auto intro!: tracks_rules ps)
  next
    case (Ref k)
    then have "tracks R lax (f k vp) (f' k vp)" by (simp add: Cons.prems)
    then show ?thesis unfolding Ref sub_pieces.simps by (auto intro!: tracks_rules ps split: option.split)
  qed
qed (simp add: tracks_ret)

lemma agree_round:
  assumes c: "calls_agree plain R lax g g'"
  shows "tracks R lax (expand_round env g varname s vp) (expand_round env g' varname s vp)"
proof -
  have vars: "tracks R lax (sub_pieces (var_sub g varname) (ref_pieces s) vp) (sub_pieces (var_sub g' varname) (ref_pieces s) vp)"
    for s vp
    by (rule agree_pieces, rule agree_vars [OF c], rule plain_ref) (auto dest: ref_pieces_chars)
  have code: "tracks R lax (sub_pieces (python_sub env g varname) ps vp) (sub_pieces (python_sub env g' varname) ps vp)"
    for ps vp
    by (rule agree_pieces) (rule agree_code [OF c])
  show ?thesis unfolding expand_round_def Let_def by (intro tracks_rules vars code)
qed

lemma agree_loop:
  "calls_agree plain R lax g g' \<Longrightarrow> tracks R lax (expand_loop n env g varname s vp) (expand_loop n env g' varname s vp)"
proof (induction n arbitrary: s vp)
  case (Suc n)
  then show ?case by (auto intro!: tracks_rules agree_round)
qed (simp add: tracks_raise)

lemma agree_expand:
  assumes "calls_agree plain R lax g g'"
  shows "tracks R lax (expandWithRefs env g v varname) (expandWithRefs env g' v varname)"
    and "tracks R lax (expand env g v varname) (expand env g' v varname)"
proof -
  show r: "tracks R lax (expandWithRefs env g v varname) (expandWithRefs env g' v varname)"
    unfolding expandWithRefs_def by (auto intro!: tracks_rules agree_loop [OF assms] split: pyval.split)
  show "tracks R lax (expand env g v varname) (expand env g' v varname)"
    unfolding expand_def by (intro tracks_rules r)
qed

lemma agree_stand_in:
  assumes c: "calls_agree plain R lax g g'" and p: "\<And>mo. mo \<in> set od \<Longrightarrow> plain (fst mo)"
  shows "tracks R lax (override_value g od) (override_value g' od)"
proof -
  have m: "plain m" if "resolve_overrides os (active_overrides osset od) None = Some m" for os osset m
  proof -
    from resolve_mem [OF that] have "m \<in> snd ` set (active_overrides osset od)" by simp
    from active_mem [OF this] show ?thesis using p by auto
  qed
  have os: "tracks R lax (getX (\<lambda>d. (d_overrides d, d_overridesset d))) (getX (\<lambda>d. (d_overrides d, d_overridesset d)))"
    by (rule tracks_get) (simp add: same_overrides)
  have chosen: "tracks R lax (case resolve_overrides os (active_overrides osset od) None of None \<Rightarrow> retX None
        | Some m \<Rightarrow> if m = [] then retX None else bindX (h m ''_content'' False False False True) (\<lambda>v. retX (Some (m, v))))
      (case resolve_overrides os (active_overrides osset od) None of None \<Rightarrow> retX None
        | Some m \<Rightarrow> if m = [] then retX None else bindX (h' m ''_content'' False False False True) (\<lambda>v. retX (Some (m, v))))"
    if h: "h = g" "h' = g'" for os osset h h'
  proof (cases "resolve_overrides os (active_overrides osset od) None")
    case (Some n)
    show ?thesis unfolding Some option.case h by (simp add: tracks_ret tracks_bind calls_agreeD(2) [OF c m [OF Some]])
  qed (simp add: tracks_ret)
  have "tracks R lax (case os of None \<Rightarrow> raiseX TypeError | Some os \<Rightarrow> f os) (case os of None \<Rightarrow> raiseX TypeError | Some os \<Rightarrow> f' os)"
    if "\<And>os. tracks R lax (f os) (f' os)" for os :: "string list option" and f f' :: "string list \<Rightarrow> (datasmart, stand_in) sx"
    using that by (cases os) (simp_all add: tracks_raise)
  then show ?thesis unfolding override_value_def prod.case_eq_if
    by (intro tracks_bind need_agree [OF c] os) (simp add: chosen)
qed

lemma agree_pending:
  assumes c: "calls_agree plain R lax g g'"
  shows "tracks R lax (pending_ops g keyword local) (pending_ops g' keyword local)"
proof -
  have os: "tracks R lax (getX (\<lambda>d. (ops, d_overrides d))) (getX (\<lambda>d. (ops, d_overrides d)))"
    for ops :: "(pyval \<times> string option) list"
    by (rule tracks_get) (simp add: same_overrides)
  show ?thesis unfolding pending_ops_def
    by (auto intro!: tracks_rules need_agree [OF c] os split: option.split pyval.split)
qed

lemma agree_raw:
  assumes c: "calls_agree plain R lax g g'"
  shows "tracks R lax (raw_value g flag nw ps local sub) (raw_value g' flag nw ps local sub)"
  unfolding raw_value_def Let_def by (auto intro!: tracks_rules agree_pending [OF c])

lemma agree_removes:
  assumes c: "calls_agree plain R lax g g'"
  shows "tracks R lax (remove_words env g removes vp) (remove_words env g' removes vp)"
proof -
  have "tracks R lax (expand_removes env g rs) (expand_removes env g' rs)" for rs
    by (induction rs) (auto intro!: tracks_rules agree_expand [OF c] split: pyval.split)
  then show ?thesis unfolding remove_words_def by (auto intro!: tracks_rules split: pyval.split)
qed

lemma agree_removed:
  assumes c: "calls_agree plain R lax g g'" and s: "dget local '':remove'' = None \<or> shareable R"
  shows "tracks R lax (removed_value env g local sub parser) (removed_value env g' local sub parser)"
proof (cases "dget local '':remove''")
  case None
  then have ops: "pending_ops h '':remove'' local = retX ([], None)" for h by (simp add: pending_ops_def)
  have rs: "liftX (collect_removes ([], None) (known_removes sub)) = retX (known_removes sub)"
    by (rule ext) (simp add: collect_removes_def liftX_def retX_def)
  have sx: "bindX (retX x) f = f x" for x :: 'b and f :: "'b \<Rightarrow> (datasmart, 'c) sx"
    by (rule ext) (simp add: bindX_def retX_def)
  have id: "bindX (setX (\<lambda>d. d)) f = f ()" for f :: "unit \<Rightarrow> (datasmart, 'c) sx"
    by (rule ext) (simp add: bindX_def setX_def)
  show ?thesis unfolding removed_value_def ops sx rs by (auto intro!: tracks_rules agree_removes [OF c] simp: id split: option.split)
next
  case (Some a)
  with s have "shareable R" by simp
  then have share: "tracks R lax (setX (if b then (\<lambda>d. d) else share_removes sub rs)) (setX (if b then (\<lambda>d. d) else share_removes sub rs))"
    for b rs
    by (intro tracks_set) (simp add: shareable_def)
  show ?thesis unfolding removed_value_def
    by (auto intro!: tracks_rules agree_pending [OF c] share agree_removes [OF c] split: option.split)
qed

text \<open>The lookup itself, up to the cache.\<close>

lemma agree_parse:
  assumes c: "calls_agree plain R lax g g'"
  shows "tracks R lax (compute_parse env g var flag ex nw ps rp) (compute_parse env g' var flag ex nw ps rp)"
  unfolding compute_parse_def
proof (rule tracks_get_bind [where P = "\<lambda>(local, od). (dget local '':remove'' = None \<or> shareable R) \<and>
    (\<forall>od'. od = Some od' \<longrightarrow> (\<forall>mo \<in> set od'. plain (fst mo)))"], goal_cases)
  case (1 d e)
  have "dget (flags_of var d) '':remove'' = None \<or> shareable R" using share_agree [OF 1, of var] by blast
  then show ?case
    using same_flags [OF 1, of var] same_overridedata [OF 1] plain_stand_in [OF 1] by (auto split: if_splits)
next
  case (2 x)
  obtain local od where x: "x = (local, od)" by (cases x)
  with 2 have s: "dget local '':remove'' = None \<or> shareable R" and p: "\<And>od' mo. od = Some od' \<Longrightarrow> mo \<in> set od' \<Longrightarrow> plain (fst mo)"
    by auto
  have sub: "tracks R lax (case od of None \<Rightarrow> retX None | Some od \<Rightarrow> override_value g od)
      (case od of None \<Rightarrow> retX None | Some od \<Rightarrow> override_value g' od)"
    by (auto intro!: tracks_ret agree_stand_in [OF c] p split: option.split)
  show ?case unfolding x prod.case Let_def
    by (auto intro!: tracks_rules sub agree_raw [OF c] agree_expand [OF c] agree_removed [OF c s])
qed

end

text \<open>When the caches are the same too, so are all lookups.\<close>

locale full_view = store_view R lax "\<lambda>_. True" for R lax +
  assumes same_cache: "R d e \<Longrightarrow> d_cache d = d_cache e"
    and cache_step: "R d e \<Longrightarrow> R (d\<lparr>d_cache := c\<rparr>) (e\<lparr>d_cache := c\<rparr>)"
begin

lemma agree_lookup:
  "tracks R lax (getVarFlag_at n env var flag ex nw ps rp) (getVarFlag_at n env var flag ex nw ps rp)"
proof (induction n arbitrary: var flag ex nw ps rp)
  case (Suc n)
  then have c: "calls_agree (\<lambda>_. True) R lax (getVarFlag_at n env) (getVarFlag_at n env)"
    by (simp add: calls_agree_def tracks_bind tracks_ret)
  have hit: "tracks R lax (getX (\<lambda>d. dget (d_cache d) k)) (getX (\<lambda>d. dget (d_cache d) k))" for k
    by (rule tracks_get) (simp add: same_cache)
  have store: "tracks R lax (setX (store_parse k p)) (setX (store_parse k p))" for k p
    by (rule tracks_set) (auto simp: store_parse_def same_cache split: option.split intro: cache_step)
  have miss: "tracks R lax (compute_flag env (getVarFlag_at n env) var flag ex nw ps rp)
      (compute_flag env (getVarFlag_at n env) var flag ex nw ps rp)" for ex rp
    unfolding compute_flag_def by (auto intro!: tracks_rules agree_parse [OF c] store)
  show ?case unfolding getVarFlag_at.simps getVarFlag_with_def
    by (auto intro!: tracks_rules hit miss split: option.split)
qed (simp add: tracks_raise)

lemma agree_calls: "calls_agree (\<lambda>_. True) R lax (getter_of env) (getter_of env)"
  by (simp add: calls_agree_def getter_of_def tracks_bind tracks_ret agree_lookup)

lemma agree_get:
  "tracks R lax (getVarFlag env var flag ex nw ps) (getVarFlag env var flag ex nw ps)"
  "tracks R lax (getVar env var ex) (getVar env var ex)"
  unfolding getVar_def getVarFlag_def getter_of_def by (intro tracks_rules agree_lookup)+

end

section \<open>A small store\<close>

text \<open>For examples: a copy with two variables, an override, an operation that waits, and a flag without a value.\<close>

definition sample_env :: denv where
  "sample_env =
     \<lparr>de_compile = (\<lambda>_. None), de_parse = (\<lambda>_. Inr ([], [], [])), de_eval = (\<lambda>c _ _ _. Inr c), de_depth = 10, de_rounds = 10\<rparr>"

definition sample_store :: datasmart where
  "sample_store =
     \<lparr>d_layers = [[(''B'', [(''_content'', PStr ''y''), ('':append'', POps [(PStr '' z'', None)])])],
                  [(''A'', [(''_content'', PStr ''x ${B}'')]), (''A:o'', [(''_content'', PStr ''${B} ${C}'')]),
                   (''D'', [(''doc'', PStr ''d'')])]],
      d_cache = [], d_overridedata = [(''A'', [(''A:o'', ''o'')])], d_overrides = Some [''p'', ''o''],
      d_overridesset = [''p'', ''o''], d_overridevars = [''OVERRIDES'', ''FILE''], d_inoverride = False, d_renames = bitbake_renamed_vars,
      d_messages = []\<rparr>"

end
