(* ===== verification/DataCache.thy ===== *)
theory DataCache
  imports DataSim
begin

text \<open>
  The cache of expanded values against lookups that begin with an empty cache every time.
\<close>

section \<open>Lookups without a cache\<close>

definition nocacheX :: "(datasmart, 'a) sx \<Rightarrow> (datasmart, 'a) sx" where
  "nocacheX m d = (fst (m (drop_cache d)), d)"

fun nocache_at :: "nat \<Rightarrow> denv \<Rightarrow> getter" where
  "nocache_at 0 env = (\<lambda>var flag ex nw ps rp. raiseX RecursionError)"
| "nocache_at (Suc n) env = (\<lambda>var flag ex nw ps rp.
     if flag = [] then retX (PNone, None) else nocacheX (compute_flag env (nocache_at n env) var flag ex nw ps rp))"

definition nocache_getVar :: "denv \<Rightarrow> string \<Rightarrow> datasmart \<Rightarrow> pyval result" where
  "nocache_getVar env var d = bindE (fst (nocache_at (de_depth env) env var ''_content'' True False False False d)) (\<lambda>v. Inr (fst v))"

lemma drop_cache_drop [simp]: "drop_cache (drop_cache d) = drop_cache d"
  by (simp add: drop_cache_def)

lemma nocache_state: "nocache_at n env var flag ex nw ps rp d = (r, d') \<Longrightarrow> d' = d"
  by (cases n) (auto simp: nocacheX_def split: if_splits)

lemma nocache_cong:
  "drop_cache d = drop_cache e \<Longrightarrow> fst (nocache_at n env var flag ex nw ps rp d) = fst (nocache_at n env var flag ex nw ps rp e)"
  by (cases n) (simp_all add: nocacheX_def raiseX_def retX_def)

section \<open>More depth gives the same value\<close>

interpretation plain_equal: store_view "(=)" lax "\<lambda>_. True" for lax
proof
  fix g g' assume c: "calls_agree (\<lambda>_. True) (=) lax g g'"
  show "tracks (=) lax (need_overrides g) (need_overrides g')"
    by (rule need_overrides_agree [OF _ _ c]) (simp_all add: override_update_def)
qed (simp_all add: shareable_def)

lemma nocache_deeper:
  "tracks (=) True (nocache_at (Suc n) env var flag ex nw ps rp) (nocache_at n env var flag ex nw ps rp)"
proof (induction n arbitrary: var flag ex nw ps rp)
  case 0
  show ?case by (rule tracksI) auto
next
  case (Suc n)
  then have c: "calls_agree (\<lambda>_. True) (=) True (nocache_at (Suc n) env) (nocache_at n env)"
    by (simp add: calls_agree_def tracks_bind tracks_ret del: nocache_at.simps)
  have f: "tracks (=) True (compute_flag env (nocache_at (Suc n) env) var flag ex nw ps rp) (compute_flag env (nocache_at n env) var flag ex nw ps rp)"
    unfolding compute_flag_def
    by (auto intro!: tracks_rules plain_equal.agree_parse [OF c] tracks_set simp del: nocache_at.simps)
  have "tracks (=) True (nocacheX (compute_flag env (nocache_at (Suc n) env) var flag ex nw ps rp))
      (nocacheX (compute_flag env (nocache_at n env) var flag ex nw ps rp))"
  proof (rule tracksI)
    fix d e r e'
    assume "d = e" and r: "nocacheX (compute_flag env (nocache_at n env) var flag ex nw ps rp) e = (r, e')"
      and n: "\<not> (True \<and> (\<exists>x. r = Inl x))"
    obtain u where u: "compute_flag env (nocache_at n env) var flag ex nw ps rp (drop_cache e) = (r, u)"
      using r by (cases "compute_flag env (nocache_at n env) var flag ex nw ps rp (drop_cache e)") (simp add: nocacheX_def)
    from tracksD [OF f refl u n] r \<open>d = e\<close>
    show "\<exists>d'. nocacheX (compute_flag env (nocache_at (Suc n) env) var flag ex nw ps rp) d = (r, d') \<and> d' = e'"
      by (auto simp: nocacheX_def)
  qed
  then show ?case unfolding nocache_at.simps(2) [of "Suc n"] nocache_at.simps(2) [of n env] by (simp add: tracks_ret)
qed

lemma nocache_mono:
  assumes "n \<le> m" and "fst (nocache_at n env var flag ex nw ps rp d) = Inr x"
  shows "fst (nocache_at m env var flag ex nw ps rp d) = Inr x"
  using assms
proof (induction m)
  case (Suc m)
  show ?case
  proof (cases "n = Suc m")
    case False
    with Suc have "fst (nocache_at m env var flag ex nw ps rp d) = Inr x" by simp
    then obtain e where "nocache_at m env var flag ex nw ps rp d = (Inr x, e)" by (cases "nocache_at m env var flag ex nw ps rp d") simp
    from tracksD [OF nocache_deeper refl this] show ?thesis by auto
  qed (use Suc in simp)
qed simp

lemma nocache_unique:
  assumes "fst (nocache_at n env var flag ex nw ps rp d) = Inr x" and "fst (nocache_at m env var flag ex nw ps rp d) = Inr y"
  shows "x = y"
  using nocache_mono [OF max.cobounded1 [of n m] assms(1)] nocache_mono [OF max.cobounded2 [of m n] assms(2)] by simp

section \<open>What an expansion keeps\<close>

text \<open>The unexpanded value, and that nothing was removed.\<close>

definition same_source :: "varparse \<Rightarrow> varparse \<Rightarrow> bool" where
  "same_source vp vp' \<longleftrightarrow> vp_unexpanded vp' = vp_unexpanded vp \<and> vp_removes vp' = vp_removes vp"

lemma same_source_refl: "same_source vp vp"
  by (simp add: same_source_def)

lemma same_source_trans: "same_source a b \<Longrightarrow> same_source b c \<Longrightarrow> same_source a c"
  by (simp add: same_source_def)

text \<open>Every result of a computation that starts in a store with the property, which it keeps.\<close>

definition yields :: "(datasmart \<Rightarrow> bool) \<Rightarrow> ('a \<Rightarrow> bool) \<Rightarrow> (datasmart, 'a) sx \<Rightarrow> bool" where
  "yields I P m \<longleftrightarrow> (\<forall>d r d'. I d \<longrightarrow> m d = (Inr r, d') \<longrightarrow> P r \<and> I d')"

definition any_store :: "datasmart \<Rightarrow> bool" where
  "any_store d \<longleftrightarrow> True"

lemma yieldsD: "yields I P m \<Longrightarrow> I d \<Longrightarrow> m d = (Inr r, d') \<Longrightarrow> P r"
  unfolding yields_def by blast

lemma yields_any: "yields any_store (\<lambda>_. True) m"
  by (simp add: yields_def any_store_def)

lemma yields_ret: "P x \<Longrightarrow> yields I P (retX x)"
  by (simp add: yields_def)

lemma yields_raise: "yields I P (raiseX x)"
  by (simp add: yields_def)

lemma yields_get: "yields I (\<lambda>_. True) (getX f)"
  by (simp add: yields_def getX_def)

lemma yields_bind: "yields I Q m \<Longrightarrow> (\<And>x. Q x \<Longrightarrow> yields I P (f x)) \<Longrightarrow> yields I P (bindX m f)"
  unfolding yields_def bindX_Inr by blast

lemma yields_mono: "yields I Q m \<Longrightarrow> (\<And>x. Q x \<Longrightarrow> P x) \<Longrightarrow> yields I P m"
  unfolding yields_def by blast

lemma yields_wrap: "yields I P m \<Longrightarrow> yields I P (wrapX v s m)"
  unfolding yields_def wrapX_def by (auto split: prod.splits sum.splits)

lemma yields_cong:
  assumes "yields I Q m" and "I d" and "\<And>x. Q x \<Longrightarrow> f x = f' x"
  shows "bindX m f d = bindX m f' d"
proof -
  obtain r u where r: "m d = (r, u)" by (cases "m d")
  show "bindX m f d = bindX m f' d"
  proof (cases r)
    case (Inr x)
    with r assms have "f x = f' x" by (auto dest: yieldsD)
    with r Inr show ?thesis by (simp add: bindX_def)
  qed (simp add: bindX_def r)
qed

lemma var_sub_source: "yields any_store (\<lambda>r. same_source vp (fst r)) (var_sub get varname key vp)"
proof (cases "varname = Some key")
  case True
  then show ?thesis by (simp add: var_sub_def yields_raise)
next
  case False
  show ?thesis unfolding var_sub_def if_not_P [OF False] Let_def
    by (rule yields_bind [OF yields_any])
      (auto intro: yields_ret yields_raise simp: same_source_def split: pyval.split)
qed

lemma syntax_stop_yields: "yields any_store (\<lambda>r. fst r = vp) (syntax_stop e vp)"
  by (simp add: syntax_stop_def yields_ret yields_raise)

lemma python_sub_source: "yields any_store (\<lambda>r. same_source vp (fst r)) (python_sub env get varname code vp)"
proof -
  have stop: "yields any_store (\<lambda>r. same_source vp (fst r)) (syntax_stop e vp')" if "same_source vp vp'" for e vp'
    by (rule yields_mono [OF syntax_stop_yields]) (use that in simp)
  have ev: "yields any_store (\<lambda>r. same_source vp (fst r)) (case r of Inl e \<Rightarrow> syntax_stop e vp' | Inr s \<Rightarrow> retX (vp', Some s))"
    if "same_source vp vp'" for r vp'
    using that by (cases r) (simp_all add: stop yields_ret)
  show ?thesis
  proof (cases "has_ref code")
    case True
    then show ?thesis by (simp add: python_sub_def yields_ret same_source_refl)
  next
    case False
    show ?thesis
    proof (cases "de_compile env code")
      case (Some e)
      with False show ?thesis by (simp add: python_sub_def stop same_source_refl)
    next
      case None
      show ?thesis unfolding python_sub_def if_not_P [OF False] None option.case Let_def prod.case_eq_if
        by (intro yields_bind [OF yields_any] ev) (simp add: same_source_def)
    qed
  qed
qed

lemma sub_pieces_source:
  assumes f: "\<And>k vp. yields any_store (\<lambda>r. same_source vp (fst r)) (f k vp)"
  shows "yields any_store (\<lambda>r. same_source vp (fst r)) (sub_pieces f ps vp)"
proof (induction ps arbitrary: vp)
  case Nil
  show ?case by (simp add: yields_ret same_source_refl)
next
  case (Cons p ps)
  show ?case
  proof (cases p)
    case (Lit s)
    show ?thesis unfolding Lit sub_pieces.simps by (rule yields_bind [OF Cons.IH]) (simp add: yields_ret)
  next
    case (Ref k)
    have step: "yields any_store (\<lambda>r. same_source vp (fst r)) (case o' of None \<Rightarrow> retX (vp', None)
        | Some s \<Rightarrow> bindX (sub_pieces f ps vp') (\<lambda>q. retX (fst q, map_option (\<lambda>t. s @ t) (snd q))))"
      if "same_source vp vp'" for o' :: "string option" and vp'
    proof (cases o')
      case None
      with that show ?thesis by (simp add: yields_ret)
    next
      case (Some s)
      show ?thesis unfolding Some option.case
        by (rule yields_bind [OF Cons.IH]) (use that in \<open>auto intro!: yields_ret intro: same_source_trans\<close>)
    qed
    show ?thesis unfolding Ref sub_pieces.simps by (rule yields_bind [OF f]) (rule step)
  qed
qed

lemma expand_loop_source: "yields any_store (\<lambda>r. same_source vp (fst r)) (expand_loop n env get varname s vp)"
proof (induction n arbitrary: s vp)
  case 0
  show ?case by (simp add: yields_raise)
next
  case (Suc n)
  have round: "yields any_store (\<lambda>r. same_source vp (fst r)) (expand_round env get varname s vp)"
    unfolding expand_round_def Let_def
    by (rule yields_bind [OF yields_wrap [OF sub_pieces_source [OF var_sub_source]]],
        rule yields_bind [OF yields_wrap [OF sub_pieces_source [OF python_sub_source]]])
      (auto intro!: yields_ret intro: same_source_trans)
  have next_round: "yields any_store (\<lambda>r. same_source vp (fst r)) (expand_loop n env get varname t vp')" if "same_source vp vp'" for t vp'
    by (rule yields_mono [OF Suc.IH]) (rule same_source_trans [OF that])
  show ?case
  proof (cases "contains_str ''${'' s")
    case True
    then show ?thesis unfolding expand_loop.simps by (auto intro!: yields_bind [OF round] yields_ret next_round)
  next
    case False
    then show ?thesis by (simp add: yields_ret same_source_refl)
  qed
qed

definition fresh_parse :: "pyval \<Rightarrow> varparse \<Rightarrow> bool" where
  "fresh_parse v vp \<longleftrightarrow> vp_unexpanded vp = v \<and> vp_removes vp = None"

lemma expand_fresh: "yields any_store (fresh_parse v) (expandWithRefs env get v varname)"
proof (cases v)
  case (PStr s)
  show ?thesis unfolding PStr expandWithRefs_def pyval.case
    by (rule yields_bind [OF expand_loop_source])
      (auto intro: yields_ret simp: fresh_parse_def same_source_def new_parse_def)
qed (simp_all add: expandWithRefs_def yields_ret fresh_parse_def new_parse_def)

section \<open>Stores with a cache\<close>

text \<open>
  The overrides are known, nothing is removed from a value, and the override data names no flag. Such a store does not
  change when it is read, but for its cache.
\<close>

definition plain_name :: "string \<Rightarrow> bool" where
  "plain_name v \<longleftrightarrow> CHR ''['' \<notin> set v"

definition calm :: "datasmart \<Rightarrow> bool" where
  "calm d \<longleftrightarrow> d_overrides d \<noteq> None \<and>
     (\<forall>l \<in> set (d_layers d). \<forall>vf \<in> set l. dget (snd vf) '':remove'' = None) \<and>
     (\<forall>vo \<in> set (d_overridedata d). \<forall>mo \<in> set (snd vo). plain_name (fst mo))"

lemma find_layers_in: "find_layers ls v = Some f \<Longrightarrow> \<exists>l \<in> set ls. (v, f) \<in> set l"
  by (induction ls) (auto split: option.splits dest: map_of_SomeD)

lemma calm_flags: "calm d \<Longrightarrow> dget (flags_of v d) '':remove'' = None"
  unfolding calm_def flags_of_def findVar_def by (fastforce split: option.split dest!: find_layers_in)

lemma calm_stand_in: "calm d \<Longrightarrow> dget (d_overridedata d) v = Some od \<Longrightarrow> mo \<in> set od \<Longrightarrow> plain_name (fst mo)"
  unfolding calm_def by (force dest!: map_of_SomeD)

lemma calm_overrides: "calm d \<Longrightarrow> need_overrides g d = (Inr (), d)"
  by (simp add: calm_def need_overrides_def)

lemma cachename_plain: "plain_name (cachename v f) \<Longrightarrow> f = ''_content''"
  by (auto simp: cachename_def plain_name_def split: if_splits)

lemma drop_cache_sel [simp]:
  "d_layers (drop_cache d) = d_layers d" "d_overridedata (drop_cache d) = d_overridedata d"
  "d_overrides (drop_cache d) = d_overrides d" "d_overridesset (drop_cache d) = d_overridesset d"
  "flags_of v (drop_cache d) = flags_of v d"
  by (simp_all add: drop_cache_def flags_of_def findVar_def)

lemma drop_cache_store [simp]: "drop_cache (store_parse v p d) = drop_cache d"
  by (cases p) (simp_all add: store_parse_def drop_cache_def)

lemma ref_char_plain: "\<forall>c \<in> set key. ref_char c \<Longrightarrow> plain_name key"
proof -
  have "\<not> ref_char (CHR ''['')" by code_simp
  then show "\<forall>c \<in> set key. ref_char c \<Longrightarrow> plain_name key" by (auto simp: plain_name_def)
qed

text \<open>Every entry is what the lookup without a cache finds.\<close>

definition coherent :: "denv \<Rightarrow> datasmart \<Rightarrow> bool" where
  "coherent env d \<longleftrightarrow> (\<forall>v vp. plain_name v \<longrightarrow> dget (d_cache d) v = Some vp \<longrightarrow>
     (\<exists>n. fst (nocache_at n env v ''_content'' False False False True d) = Inr (vp_unexpanded vp, Some vp)))"

definition cache_view :: "denv \<Rightarrow> datasmart \<Rightarrow> datasmart \<Rightarrow> datasmart \<Rightarrow> bool" where
  "cache_view env b d e \<longleftrightarrow> calm b \<and> drop_cache d = b \<and> drop_cache e = b \<and> coherent env d"

lemma cache_view_sel:
  assumes "cache_view env b d e"
  shows "calm d" "d_overridedata d = d_overridedata e" "d_overrides d = d_overrides e" "d_overridesset d = d_overridesset e"
    "flags_of v d = flags_of v e" "drop_cache e = drop_cache d"
proof -
  have b: "calm b" "drop_cache d = b" "drop_cache e = b" using assms by (simp_all add: cache_view_def)
  then show "drop_cache e = drop_cache d" by simp
  show "calm d" using b by (auto simp: calm_def)
  have "f (drop_cache d) = f (drop_cache e)" for f :: "datasmart \<Rightarrow> 'b" using b by simp
  note * = this
  show "d_overridedata d = d_overridedata e" using * [of d_overridedata] by simp
  show "d_overrides d = d_overrides e" using * [of d_overrides] by simp
  show "d_overridesset d = d_overridesset e" using * [of d_overridesset] by simp
  show "flags_of v d = flags_of v e" using * [of "flags_of v"] by simp
qed

interpretation cached: store_view "cache_view env b" True plain_name for env b
proof
  fix d e v od mo assume R: "cache_view env b d e" and od: "dget (d_overridedata d) v = Some od" "mo \<in> set od"
  then show "plain_name (fst mo)" by (rule calm_stand_in [OF cache_view_sel(1)])
next
  fix d e v assume R: "cache_view env b d e" and rm: "dget (flags_of v d) '':remove'' \<noteq> None"
  then show "shareable (cache_view env b)" using calm_flags [OF cache_view_sel(1) [OF R], of v] by simp
next
  fix g g' assume "calls_agree plain_name (cache_view env b) True g g'"
  show "tracks (cache_view env b) True (need_overrides g) (need_overrides g')"
  proof (rule tracksI)
    fix d e r e' assume R: "cache_view env b d e" and r: "need_overrides g' e = (r, e')"
    have "d_overrides d \<noteq> None" "d_overrides e \<noteq> None"
      using cache_view_sel(1,3) [OF R] by (simp_all add: calm_def)
    with r R show "\<exists>d'. need_overrides g d = (r, d') \<and> cache_view env b d' e'" by (auto simp: need_overrides_def)
  qed
qed (auto simp: ref_char_plain dest: cache_view_sel)

section \<open>One lookup of a value\<close>

text \<open>On such a store every lookup of the value of a variable computes the same expansion.\<close>

definition no_removes :: "pyval \<times> varparse option \<Rightarrow> bool" where
  "no_removes r \<longleftrightarrow> (\<forall>vp. snd r = Some vp \<longrightarrow> vp_removes vp = None)"

definition parse_core :: "denv \<Rightarrow> getter \<Rightarrow> string \<Rightarrow> (datasmart, pyval \<times> varparse option) sx" where
  "parse_core env get var =
     bindX (getX (\<lambda>d. (flags_of var d, dget (d_overridedata d) var))) (\<lambda>(local, od).
     bindX (case od of None \<Rightarrow> retX None | Some od \<Rightarrow> override_value get od) (\<lambda>sub.
     bindX (raw_value get ''_content'' False False local sub) (\<lambda>value.
     bindX (expandWithRefs env get value (Some var)) (\<lambda>vp. retX (value, Some vp)))))"

lemma bindX_ret: "bindX (retX x) f = f x"
  by (rule ext) (simp add: bindX_def retX_def)

lemma bindX_assoc: "bindX (bindX m f) g = bindX m (\<lambda>x. bindX (f x) g)"
proof (rule ext)
  fix d
  obtain r u where r: "m d = (r, u)" by (cases "m d")
  then show "bindX (bindX m f) g d = bindX m (\<lambda>x. bindX (f x) g) d" by (cases r) (simp_all add: bindX_def)
qed

lemma removed_value_calm:
  assumes "dget local '':remove'' = None" and "known_removes sub = []"
  shows "removed_value env get local sub parser = retX parser"
proof -
  have ops: "pending_ops get '':remove'' local = retX ([], None)" using assms(1) by (simp add: pending_ops_def)
  have rs: "liftX (collect_removes ([], None) []) = retX []"
    by (rule ext) (simp add: collect_removes_def liftX_def retX_def)
  have id: "setX (\<lambda>d. d) = retX ()" by (rule ext) (simp add: setX_def retX_def)
  show ?thesis unfolding removed_value_def ops assms(2) rs bindX_ret by (simp add: id bindX_ret split: option.split)
qed

lemma calm_yields: "yields calm (\<lambda>_. True) (need_overrides g)"
  unfolding yields_def using calm_overrides by simp

definition removes_free :: "getter \<Rightarrow> bool" where
  "removes_free get \<longleftrightarrow> (\<forall>m. yields calm no_removes (get m ''_content'' False False False True))"

lemma removes_freeD: "removes_free get \<Longrightarrow> yields calm no_removes (get m ''_content'' False False False True)"
  unfolding removes_free_def by blast

lemma stand_in_removes:
  assumes "removes_free get"
  shows "yields calm (\<lambda>sub. known_removes sub = []) (case od of None \<Rightarrow> retX None | Some od \<Rightarrow> override_value get od)"
proof (cases od)
  case None
  then show ?thesis by (simp add: yields_ret known_removes_def)
next
  case (Some o')
  have chosen: "yields calm (\<lambda>sub. known_removes sub = []) (case r of None \<Rightarrow> retX None
      | Some m \<Rightarrow> if m = [] then retX None else bindX (get m ''_content'' False False False True) (\<lambda>v. retX (Some (m, v))))"
    for r
  proof (cases r)
    case (Some m)
    have "yields calm (\<lambda>sub. known_removes sub = []) (bindX (get m ''_content'' False False False True) (\<lambda>v. retX (Some (m, v))))"
      by (rule yields_bind [OF removes_freeD [OF assms]]) (auto intro!: yields_ret simp: known_removes_def no_removes_def split: option.split)
    then show ?thesis unfolding Some by (simp add: yields_ret known_removes_def)
  qed (simp add: yields_ret known_removes_def)
  have "yields calm (\<lambda>sub. known_removes sub = []) (case x of (os, osset) \<Rightarrow> case os of None \<Rightarrow> raiseX TypeError
      | Some os \<Rightarrow> (case resolve_overrides os (active_overrides osset o') None of None \<Rightarrow> retX None
          | Some m \<Rightarrow> if m = [] then retX None
              else bindX (get m ''_content'' False False False True) (\<lambda>v. retX (Some (m, v)))))" for x
    by (cases x; cases "fst x") (simp_all add: yields_raise chosen)
  note chosen' = this
  show ?thesis unfolding Some option.case override_value_def
    by (rule yields_bind [OF calm_yields]) (rule yields_bind [OF yields_get], rule chosen')
qed

lemma compute_parse_calm:
  assumes c: "calm d" and g: "removes_free get" and e: "ex \<or> rp"
  shows "compute_parse env get var ''_content'' ex False False rp d = parse_core env get var d"
proof -
  let ?local = "flags_of var d" and ?od = "dget (d_overridedata d) var"
  let ?rest = "\<lambda>sub. bindX (raw_value get ''_content'' False False ?local sub) (\<lambda>value.
     bindX (bindX (expandWithRefs env get value (Some (cachename var ''_content''))) (\<lambda>vp. retX (Some vp))) (\<lambda>parser.
     let found = (case parser of Some vp \<Rightarrow> if ex then vp_value vp else value | None \<Rightarrow> value) in
     bindX (if truth found \<and> True then removed_value env get ?local sub parser else retX parser)
       (\<lambda>parser. retX (value, parser))))"
  let ?core = "\<lambda>sub. bindX (raw_value get ''_content'' False False ?local sub) (\<lambda>value.
     bindX (expandWithRefs env get value (Some var)) (\<lambda>vp. retX (value, Some vp)))"
  have same: "?rest sub = ?core sub" if s: "known_removes sub = []" for sub
  proof -
    have n: "cachename var ''_content'' = var" by (simp add: cachename_def)
    have rm: "(if b then removed_value env get ?local sub parser else retX parser) = retX parser" for b parser
      using removed_value_calm [OF calm_flags [OF c] s] by simp
    show ?thesis unfolding n rm bindX_assoc bindX_ret Let_def by simp
  qed
  have "compute_parse env get var ''_content'' ex False False rp d
      = bindX (case ?od of None \<Rightarrow> retX None | Some od \<Rightarrow> override_value get od) ?rest d"
    using e unfolding compute_parse_def bindX_def [of "getX _"] getX_def by simp
  also have "\<dots> = bindX (case ?od of None \<Rightarrow> retX None | Some od \<Rightarrow> override_value get od) ?core d"
    by (rule yields_cong [OF stand_in_removes [OF g] c]) (rule same)
  also have "\<dots> = parse_core env get var d" unfolding parse_core_def bindX_def [of "getX _"] getX_def by simp
  finally show ?thesis .
qed

lemma core_yields:
  "yields any_store (\<lambda>r. \<exists>vp. snd r = Some vp \<and> vp_unexpanded vp = fst r \<and> vp_removes vp = None) (parse_core env get var)"
  unfolding parse_core_def prod.case_eq_if
  by (rule yields_bind [OF yields_any], rule yields_bind [OF yields_any], rule yields_bind [OF yields_any],
      rule yields_bind [OF expand_fresh]) (auto intro!: yields_ret simp: fresh_parse_def)

text \<open>The lookups of this section are those below; only their results matter.\<close>

lemma compute_flag_calm:
  assumes c: "calm d" and g: "removes_free get" and e: "ex \<or> rp"
    and r: "parse_core env get var d = (Inr (u, Some vp), d1)"
  shows "compute_flag env get var ''_content'' ex False False rp d
      = (Inr (if ex then vp_value vp else u, if rp then Some vp else None), store_parse var (Some vp) d1)"
  using r unfolding compute_flag_def bindX_def [of "compute_parse _ _ _ _ _ _ _ _"] compute_parse_calm [OF c g e]
  by (simp add: bindX_def setX_def retX_def cachename_def)

lemma compute_flag_calmD:
  assumes c: "calm d" and g: "removes_free get" and e: "ex \<or> rp"
    and r: "compute_flag env get var ''_content'' ex False False rp d = (Inr x, d')"
  obtains vp d1 where "parse_core env get var d = (Inr (vp_unexpanded vp, Some vp), d1)" and "vp_removes vp = None"
    and "x = (if ex then vp_value vp else vp_unexpanded vp, if rp then Some vp else None)" and "d' = store_parse var (Some vp) d1"
proof -
  obtain q d1 where q: "parse_core env get var d = (q, d1)" by (cases "parse_core env get var d")
  show ?thesis
  proof (cases q)
    case (Inl y)
    with q r show ?thesis
      unfolding compute_flag_def bindX_def [of "compute_parse _ _ _ _ _ _ _ _"] compute_parse_calm [OF c g e] by simp
  next
    case (Inr p)
    from yieldsD [OF core_yields _ q [unfolded Inr]] obtain vp where vp: "p = (vp_unexpanded vp, Some vp)" "vp_removes vp = None"
      by (cases p) (auto simp: any_store_def)
    from compute_flag_calm [OF c g e q [unfolded Inr vp(1)]] r q vp Inr that show ?thesis by simp
  qed
qed

lemma nocache_removes_free: "removes_free (nocache_at n env)"
proof (induction n)
  case 0
  show ?case by (simp add: removes_free_def yields_raise)
next
  case (Suc n)
  have "no_removes x \<and> calm d'"
    if c: "calm d" and r: "nocache_at (Suc n) env m ''_content'' False False False True d = (Inr x, d')" for m d x d'
  proof -
    obtain u where u: "compute_flag env (nocache_at n env) m ''_content'' False False False True (drop_cache d) = (Inr x, u)"
      using r by (cases "compute_flag env (nocache_at n env) m ''_content'' False False False True (drop_cache d)")
        (simp add: nocacheX_def)
    have c': "calm (drop_cache d)" using c by (simp add: calm_def)
    from compute_flag_calmD [OF c' Suc _ u] obtain vp where "vp_removes vp = None" "x = (vp_unexpanded vp, Some vp)"
      by auto
    with nocache_state [OF r] c show ?thesis by (simp add: no_removes_def)
  qed
  then show ?case unfolding removes_free_def yields_def by blast
qed

section \<open>The cache answers what a lookup without it does\<close>

text \<open>A lookup without a cache is a calculation on the store without its cache.\<close>

lemma nocache_core:
  assumes c: "calm d" and e: "ex \<or> rp" and r: "fst (nocache_at n env var ''_content'' ex False False rp d) = Inr x"
  obtains k vp where "n = Suc k" and "fst (parse_core env (nocache_at k env) var (drop_cache d)) = Inr (vp_unexpanded vp, Some vp)"
    and "x = (if ex then vp_value vp else vp_unexpanded vp, if rp then Some vp else None)"
proof (cases n)
  case 0
  with r show ?thesis by (simp add: raiseX_def)
next
  case (Suc k)
  have c': "calm (drop_cache d)" using c by (simp add: calm_def)
  obtain u where u: "compute_flag env (nocache_at k env) var ''_content'' ex False False rp (drop_cache d) = (Inr x, u)"
    using r Suc by (cases "compute_flag env (nocache_at k env) var ''_content'' ex False False rp (drop_cache d)")
      (simp add: nocacheX_def)
  obtain vp d1 where "parse_core env (nocache_at k env) var (drop_cache d) = (Inr (vp_unexpanded vp, Some vp), d1)"
      and "x = (if ex then vp_value vp else vp_unexpanded vp, if rp then Some vp else None)"
    by (rule compute_flag_calmD [OF c' nocache_removes_free e u])
  with that [OF Suc] show ?thesis by simp
qed

lemma core_nocache:
  assumes c: "calm d" and e: "ex \<or> rp" and r: "fst (parse_core env (nocache_at k env) var (drop_cache d)) = Inr (vp_unexpanded vp, Some vp)"
  shows "fst (nocache_at (Suc k) env var ''_content'' ex False False rp d)
      = Inr (if ex then vp_value vp else vp_unexpanded vp, if rp then Some vp else None)"
proof -
  have c': "calm (drop_cache d)" using c by (simp add: calm_def)
  obtain d1 where "parse_core env (nocache_at k env) var (drop_cache d) = (Inr (vp_unexpanded vp, Some vp), d1)"
    using r by (cases "parse_core env (nocache_at k env) var (drop_cache d)") simp
  from compute_flag_calm [OF c' nocache_removes_free e this] show ?thesis by (simp add: nocacheX_def)
qed

text \<open>What is in the cache is the answer.\<close>

lemma coherent_hit:
  assumes R: "cache_view env b d e" and p: "plain_name var" and h: "dget (d_cache d) var = Some vp" and x: "ex \<or> rp"
    and r: "nocache_at n env var ''_content'' ex False False rp e = (Inr x, e')"
  shows "x = (if ex then vp_value vp else vp_unexpanded vp, if rp then Some vp else None)"
proof -
  have c: "calm d" and de: "drop_cache e = drop_cache d" using cache_view_sel [OF R] by simp_all
  from R p h obtain m where m: "fst (nocache_at m env var ''_content'' False False False True d) = Inr (vp_unexpanded vp, Some vp)"
    unfolding cache_view_def coherent_def by blast
  from nocache_core [OF c _ m] obtain k where k: "m = Suc k"
    "fst (parse_core env (nocache_at k env) var (drop_cache d)) = Inr (vp_unexpanded vp, Some vp)" by auto
  have "fst (nocache_at n env var ''_content'' ex False False rp d) = Inr x"
    using r nocache_cong [OF de, of n env var "''_content''" ex False False rp] by simp
  from nocache_unique [OF this core_nocache [OF c x k(2)]] show ?thesis .
qed

text \<open>What is added to the cache keeps it so.\<close>

lemma coherent_store:
  assumes R: "cache_view env b d e" and n: "plain_name v \<longrightarrow> fst (nocache_at n env v ''_content'' False False False True d) = Inr (vp_unexpanded vp, Some vp)"
  shows "cache_view env b (store_parse v (Some vp) d) e"
proof -
  have b: "calm b" "drop_cache d = b" "drop_cache e = b" "coherent env d" using R by (simp_all add: cache_view_def)
  have same: "fst (nocache_at n env w ''_content'' False False False True (store_parse v (Some vp) d))
      = fst (nocache_at n env w ''_content'' False False False True d)" for n w
    by (rule nocache_cong) simp
  have "coherent env (store_parse v (Some vp) d)"
    unfolding coherent_def same
  proof (intro allI impI)
    fix w q assume w: "plain_name w" "dget (d_cache (store_parse v (Some vp) d)) w = Some q"
    show "\<exists>n. fst (nocache_at n env w ''_content'' False False False True d) = Inr (vp_unexpanded q, Some q)"
    proof (cases "w = v")
      case True
      with w(2) have "q = vp" by (simp add: store_parse_def dget_dset)
      with w True n show ?thesis by blast
    next
      case False
      with w b(4) show ?thesis by (simp add: store_parse_def coherent_def dget_dset)
    qed
  qed
  with b show ?thesis by (simp add: cache_view_def)
qed

lemma cached_miss:
  assumes c: "calls_agree plain_name (cache_view env b) True (getVarFlag_at n env) (nocache_at n env)"
    and R: "cache_view env b d e" and x: "ex \<or> rp"
    and r: "nocache_at (Suc n) env var ''_content'' ex False False rp e = (Inr q, e')"
  shows "\<exists>d'. compute_flag env (getVarFlag_at n env) var ''_content'' ex False False rp d = (Inr q, d') \<and> cache_view env b d' e"
proof -
  have cd: "calm d" and de: "drop_cache e = drop_cache d" using cache_view_sel [OF R] by simp_all
  have ce: "calm (drop_cache e)" using cd de by (simp add: calm_def)
  have b: "drop_cache e = b" using R by (simp add: cache_view_def)
  obtain u where u: "compute_flag env (nocache_at n env) var ''_content'' ex False False rp (drop_cache e) = (Inr q, u)"
    using r by (cases "compute_flag env (nocache_at n env) var ''_content'' ex False False rp (drop_cache e)")
      (simp add: nocacheX_def)
  obtain vp e1 where vp: "parse_core env (nocache_at n env) var (drop_cache e) = (Inr (vp_unexpanded vp, Some vp), e1)"
    and q: "q = (if ex then vp_value vp else vp_unexpanded vp, if rp then Some vp else None)"
    by (rule compute_flag_calmD [OF ce nocache_removes_free x u])
  have R': "cache_view env b d (drop_cache e)" using R by (auto simp: cache_view_def)
  have "compute_parse env (nocache_at n env) var ''_content'' ex False False rp (drop_cache e) = (Inr (vp_unexpanded vp, Some vp), e1)"
    using compute_parse_calm [OF ce nocache_removes_free x] vp by simp
  from tracksD [OF cached.agree_parse [OF c] R' this] obtain d1
    where d1: "compute_parse env (getVarFlag_at n env) var ''_content'' ex False False rp d = (Inr (vp_unexpanded vp, Some vp), d1)"
      "cache_view env b d1 e1" by auto
  then have flag: "compute_flag env (getVarFlag_at n env) var ''_content'' ex False False rp d = (Inr q, store_parse var (Some vp) d1)"
    unfolding compute_flag_def bindX_def [of "compute_parse _ _ _ _ _ _ _ _"] q
    by (simp add: bindX_def setX_def retX_def cachename_def)
  have R1: "cache_view env b d1 e" using d1(2) R by (simp add: cache_view_def)
  have "fst (nocache_at (Suc n) env var ''_content'' False False False True d1) = Inr (vp_unexpanded vp, Some vp)"
  proof -
    have e1: "drop_cache d1 = drop_cache e" using R1 by (simp add: cache_view_def)
    have c1: "calm d1" using cache_view_sel(1) [OF R1] .
    have "fst (parse_core env (nocache_at n env) var (drop_cache d1)) = Inr (vp_unexpanded vp, Some vp)" using vp e1 by simp
    from core_nocache [OF c1 _ this, of False True] show ?thesis by simp
  qed
  with coherent_store [OF R1, of var "Suc n" vp] flag show ?thesis by blast
qed

text \<open>The flag with dependencies has an entry of its own.\<close>

lemma vardeps_not_plain: "\<not> plain_name (cachename v ''vardeps'')"
  by (simp add: cachename_def plain_name_def)

lemma cached_vardeps:
  assumes c: "calls_agree plain_name (cache_view env b) True (getVarFlag_at n env) (nocache_at n env)"
    and R: "cache_view env b d e"
    and r: "nocache_at (Suc n) env v ''vardeps'' True False False False e = (Inr q, e')"
  shows "\<exists>x d'. compute_flag env (getVarFlag_at n env) v ''vardeps'' True False False False d = (Inr x, d') \<and> cache_view env b d' e"
proof -
  have R': "cache_view env b d (drop_cache e)" using R by (auto simp: cache_view_def)
  obtain p e1 where p: "compute_parse env (nocache_at n env) v ''vardeps'' True False False False (drop_cache e) = (Inr p, e1)"
  proof (cases "compute_parse env (nocache_at n env) v ''vardeps'' True False False False (drop_cache e)")
    case (Pair t u)
    with r that show ?thesis by (cases t) (auto simp: nocacheX_def compute_flag_def bindX_def)
  qed
  from tracksD [OF cached.agree_parse [OF c] R' p] obtain d1
    where d1: "compute_parse env (getVarFlag_at n env) v ''vardeps'' True False False False d = (Inr p, d1)"
      "cache_view env b d1 e1" by auto
  have R1: "cache_view env b d1 e" using d1(2) R by (simp add: cache_view_def)
  obtain u parser where vp: "p = (u, parser)" by (cases p)
  have "cache_view env b (store_parse (cachename v ''vardeps'') parser d1) e"
  proof (cases parser)
    case None
    with R1 show ?thesis by (simp add: store_parse_def)
  next
    case (Some vp)
    with coherent_store [OF R1, of "cachename v ''vardeps''"] vardeps_not_plain show ?thesis by simp
  qed
  then show ?thesis unfolding compute_flag_def bindX_def [of "compute_parse _ _ _ _ _ _ _ _"] d1(1)
    by (simp add: vp bindX_def setX_def retX_def)
qed

lemma cached_agrees: "calls_agree plain_name (cache_view env b) True (getVarFlag_at n env) (nocache_at n env)"
proof (induction n)
  case 0
  show ?case unfolding calls_agree_def by (auto intro!: tracks_rules)
next
  case (Suc n)
  have content: "tracks (cache_view env b) True (getVarFlag_at (Suc n) env var ''_content'' ex False False rp)
      (nocache_at (Suc n) env var ''_content'' ex False False rp)"
    if p: "plain_name var" and x: "(ex \<and> \<not> rp) \<or> (\<not> ex \<and> rp)" for var ex rp
  proof (rule tracksI)
    fix d e r e'
    assume R: "cache_view env b d e" and r: "nocache_at (Suc n) env var ''_content'' ex False False rp e = (r, e')"
      and nl: "\<not> (True \<and> (\<exists>x. r = Inl x))"
    then obtain q where q: "r = Inr q" by (cases r) auto
    have e': "e' = e" using nocache_state [OF r] .
    have x': "ex \<or> rp" using x by blast
    have n: "cachename var ''_content'' = var" by (simp add: cachename_def)
    show "\<exists>d'. getVarFlag_at (Suc n) env var ''_content'' ex False False rp d = (r, d') \<and> cache_view env b d' e'"
    proof (cases "dget (d_cache d) var")
      case (Some vp)
      have "q = (if ex then vp_value vp else vp_unexpanded vp, if rp then Some vp else None)"
        by (rule coherent_hit [OF R p Some x' r [unfolded q]])
      then have "getVarFlag_at (Suc n) env var ''_content'' ex False False rp d = (r, d)"
        using Some x q n by (auto simp: getVarFlag_with_def bindX_def getX_def retX_def)
      with R e' show ?thesis by blast
    next
      case None
      then have "getVarFlag_at (Suc n) env var ''_content'' ex False False rp d
          = compute_flag env (getVarFlag_at n env) var ''_content'' ex False False rp d"
        using n by (simp add: getVarFlag_with_def bindX_def getX_def)
      with cached_miss [OF Suc R x' r [unfolded q]] q e' show ?thesis by simp
    qed
  qed
  have deps: "tracks (cache_view env b) True (bindX (getVarFlag_at (Suc n) env v ''vardeps'' True False False False) (\<lambda>_. retX ()))
      (bindX (nocache_at (Suc n) env v ''vardeps'' True False False False) (\<lambda>_. retX ()))" for v
  proof (rule tracksI)
    fix d e r e'
    assume R: "cache_view env b d e" and nl: "\<not> (True \<and> (\<exists>x. r = Inl x))"
      and r: "bindX (nocache_at (Suc n) env v ''vardeps'' True False False False) (\<lambda>_. retX ()) e = (r, e')"
    obtain q where q: "nocache_at (Suc n) env v ''vardeps'' True False False False e = (Inr q, e)" and r': "r = Inr ()" and e': "e' = e"
      using r nl nocache_state [of "Suc n" env v "''vardeps''" True False False False e]
      by (cases "nocache_at (Suc n) env v ''vardeps'' True False False False e"; cases r)
        (auto simp: bindX_def retX_def split: sum.splits)
    show "\<exists>d'. bindX (getVarFlag_at (Suc n) env v ''vardeps'' True False False False) (\<lambda>_. retX ()) d = (r, d') \<and> cache_view env b d' e'"
    proof (cases "dget (d_cache d) (cachename v ''vardeps'')")
      case (Some vp)
      then have "bindX (getVarFlag_at (Suc n) env v ''vardeps'' True False False False) (\<lambda>_. retX ()) d = (Inr (), d)"
        by (simp add: getVarFlag_with_def bindX_def getX_def retX_def)
      with R r' e' show ?thesis by auto
    next
      case None
      then have miss: "getVarFlag_at (Suc n) env v ''vardeps'' True False False False d
          = compute_flag env (getVarFlag_at n env) v ''vardeps'' True False False False d"
        by (simp add: getVarFlag_with_def bindX_def getX_def)
      from cached_vardeps [OF Suc R q] obtain x d' where
        "compute_flag env (getVarFlag_at n env) v ''vardeps'' True False False False d = (Inr x, d')" "cache_view env b d' e" by auto
      with miss r' e' show ?thesis by (simp add: bindX_def retX_def)
    qed
  qed
  show ?case unfolding calls_agree_def using content deps by (auto simp del: getVarFlag_at.simps nocache_at.simps)
qed

section \<open>Reading many variables\<close>

fun read_vars :: "denv \<Rightarrow> string list \<Rightarrow> (datasmart, pyval list) sx" where
  "read_vars env [] = retX []"
| "read_vars env (v # vs) = bindX (getVar env v True) (\<lambda>x. bindX (read_vars env vs) (\<lambda>xs. retX (x # xs)))"

lemma read_cached:
  assumes "cache_view env b d e" and "\<forall>v \<in> set vs. plain_name v \<and> nocache_getVar env v e = Inr (f v)"
  shows "\<exists>d'. read_vars env vs d = (Inr (map f vs), d') \<and> cache_view env b d' e"
  using assms
proof (induction vs arbitrary: d)
  case Nil
  then show ?case by (simp add: retX_def)
next
  case (Cons v vs)
  obtain x u where x: "nocache_at (de_depth env) env v ''_content'' True False False False e = (Inr x, u)" and fx: "fst x = f v"
    using Cons.prems(2) by (cases "nocache_at (de_depth env) env v ''_content'' True False False False e"; cases "fst (nocache_at (de_depth env) env v ''_content'' True False False False e)")
      (auto simp: nocache_getVar_def)
  have u: "u = e" using nocache_state [OF x] .
  have p: "plain_name v" using Cons.prems(2) by simp
  from tracksD [OF calls_agreeD(1) [OF cached_agrees p] Cons.prems(1) x] obtain d1
    where d1: "getVarFlag_at (de_depth env) env v ''_content'' True False False False d = (Inr x, d1)" "cache_view env b d1 e"
    using u by auto
  then have "getVar env v True d = (Inr (f v), d1)"
    using fx by (simp add: getVar_def getVarFlag_def getter_of_def bindX_def retX_def)
  moreover from Cons.IH [OF d1(2)] Cons.prems(2) obtain d' where "read_vars env vs d1 = (Inr (map f vs), d')" "cache_view env b d' e" by auto
  ultimately show ?case by (simp add: bindX_def retX_def)
qed

text \<open>C18. The cache is transparent: on a store whose overrides are known, that removes no words and has nothing cached,
  the values read one after the other, in any order and any number of times, are those that each lookup alone
  would compute without the cache.\<close>

theorem cache_is_transparent:
  assumes "calm d" and "d_cache d = []" and "\<forall>v \<in> set vs. plain_name v \<and> nocache_getVar env v d = Inr (f v)"
  shows "fst (read_vars env vs d) = Inr (map f vs)"
proof -
  have "cache_view env (drop_cache d) d d"
    using assms(1,2) by (simp add: cache_view_def coherent_def calm_def)
  from read_cached [OF this assms(3)] show ?thesis by auto
qed

lemma cache_is_transparent_witness:
  "fst (read_vars sample_env [''A'', ''B'', ''A'', ''A:o''] sample_store)
    = Inr [PStr ''y z ${C}'', PStr ''y z'', PStr ''y z ${C}'', PStr ''y z ${C}'']"
proof -
  let ?f = "\<lambda>v. if v = ''B'' then PStr ''y z'' else PStr ''y z ${C}''"
  have "fst (read_vars sample_env [''A'', ''B'', ''A'', ''A:o''] sample_store) = Inr (map ?f [''A'', ''B'', ''A'', ''A:o''])"
    by (rule cache_is_transparent) code_simp+
  also have "map ?f [''A'', ''B'', ''A'', ''A:o''] = [PStr ''y z ${C}'', PStr ''y z'', PStr ''y z ${C}'', PStr ''y z ${C}'']"
    by code_simp
  finally show ?thesis .
qed

end
