(* ===== verification/DataLayers.thy ===== *)
theory DataLayers
  imports DataSim
begin

text \<open>
  A copy of a store begins with an empty dictionary above those of the original. Whoever uses it must not notice:
  every operation but \<^verbatim>\<open>delVarFlags\<close> gives the same answers as on a store with all variables in one dictionary.
  First, what reading changes: the cache and the overrides, but no variable.
\<close>

section \<open>Reading changes no variable\<close>

definition unchanged :: "layers \<times> overridedata \<times> (string, pyval) odict \<times> string list \<Rightarrow> datasmart \<Rightarrow> datasmart \<Rightarrow> bool" where
  "unchanged x d e \<longleftrightarrow> d = e \<and> (d_layers d, d_overridedata d, d_renames d, d_messages d) = x"

interpretation reading: full_view "unchanged x" False for x
proof
  fix g g' assume c: "calls_agree (\<lambda>_. True) (unchanged x) False g g'"
  show "tracks (unchanged x) False (need_overrides g) (need_overrides g')"
    by (rule need_overrides_agree [OF _ _ c]) (simp_all add: override_update_def unchanged_def)
qed (auto simp: unchanged_def shareable_def share_removes_def split: option.split)

text \<open>A computation that only reads.\<close>

definition reads :: "(datasmart, 'a) sx \<Rightarrow> bool" where
  "reads m \<longleftrightarrow> (\<forall>x. tracks (unchanged x) False m m)"

lemma readsD:
  assumes "reads m" and "m d = (r, d')"
  shows "d_layers d' = d_layers d" and "d_overridedata d' = d_overridedata d" and "d_renames d' = d_renames d"
    and "d_messages d' = d_messages d"
proof -
  have "unchanged (d_layers d, d_overridedata d, d_renames d, d_messages d) d d" by (simp add: unchanged_def)
  from tracksD [OF assms(1) [unfolded reads_def, rule_format] this assms(2)]
  have "unchanged (d_layers d, d_overridedata d, d_renames d, d_messages d) d' d'" using assms(2) by (auto simp: unchanged_def)
  then show "d_layers d' = d_layers d" "d_overridedata d' = d_overridedata d" "d_renames d' = d_renames d" "d_messages d' = d_messages d"
    by (simp_all add: unchanged_def)
qed

lemma reads_get: "reads (getVarFlag env var flag ex nw ps)" "reads (getVar env var ex)"
  by (simp_all add: reads_def reading.agree_get)

lemma reads_need: "reads (need_overrides (getter_of env))"
  by (simp add: reads_def reading.need_agree [OF reading.agree_calls])

lemma reads_overridevars: "reads (setvar_update_overridevars env v val)"
proof -
  have ref: "tracks (unchanged x) False (referenced_by env vs) (referenced_by env vs)" for x vs
    by (induction vs) (auto intro!: tracks_rules reading.agree_get reading.agree_expand(1) [OF reading.agree_calls])
  have rounds: "tracks (unchanged x) False (overridevar_rounds n env new) (overridevar_rounds n env new)" for x n new
  proof (induction n arbitrary: new)
    case (Suc n)
    have known: "tracks (unchanged x) False (getX d_overridevars) (getX d_overridevars)"
      by (rule tracks_get) (simp add: unchanged_def)
    have add: "tracks (unchanged x) False (setX (\<lambda>d. d\<lparr>d_overridevars := supdate (d_overridevars d) new\<rparr>))
        (setX (\<lambda>d. d\<lparr>d_overridevars := supdate (d_overridevars d) new\<rparr>))"
      by (rule tracks_set) (simp add: unchanged_def)
    show ?case by (auto intro!: tracks_rules ref known add Suc)
  qed (simp add: tracks_raise)
  show ?thesis unfolding reads_def setvar_update_overridevars_def
    by (auto intro!: tracks_rules reading.agree_expand(1) [OF reading.agree_calls] rounds tracks_set simp: unchanged_def)
qed

lemma flags_of_layers: "d_layers d = d_layers e \<Longrightarrow> flags_of v d = flags_of v e"
  by (simp add: flags_of_def findVar_def)

section \<open>Stores with the same variables\<close>

text \<open>\<open>S\<close> are variables that have an entry of their own in both stores.\<close>

definition same_store :: "string set \<Rightarrow> datasmart \<Rightarrow> datasmart \<Rightarrow> bool" where
  "same_store S d e \<longleftrightarrow>
     (\<forall>v. flags_of v d = flags_of v e) \<and> (\<forall>v \<in> S. dhas (front d) v \<and> dhas (front e) v) \<and>
     e = e\<lparr>d_cache := d_cache d, d_overridedata := d_overridedata d, d_overrides := d_overrides d,
       d_overridesset := d_overridesset d, d_overridevars := d_overridevars d, d_inoverride := d_inoverride d,
       d_renames := d_renames d, d_messages := d_messages d\<rparr>"

lemma same_storeD:
  assumes "same_store S d e"
  shows "flags_of v d = flags_of v e" and "d_cache d = d_cache e" and "d_overridedata d = d_overridedata e"
    and "d_overrides d = d_overrides e" and "d_overridesset d = d_overridesset e" and "d_overridevars d = d_overridevars e"
    and "d_inoverride d = d_inoverride e" and "d_renames d = d_renames e" and "d_messages d = d_messages e"
    and "v \<in> S \<Longrightarrow> dhas (front d) v" and "v \<in> S \<Longrightarrow> dhas (front e) v"
proof -
  obtain l where e: "e = \<lparr>d_layers = l, d_cache = d_cache d, d_overridedata = d_overridedata d, d_overrides = d_overrides d,
       d_overridesset = d_overridesset d, d_overridevars = d_overridevars d, d_inoverride = d_inoverride d,
       d_renames = d_renames d, d_messages = d_messages d\<rparr>"
    using assms unfolding same_store_def by (cases e) simp
  show "d_cache d = d_cache e" "d_overridedata d = d_overridedata e"
    "d_overrides d = d_overrides e" "d_overridesset d = d_overridesset e" "d_overridevars d = d_overridevars e"
    "d_inoverride d = d_inoverride e" "d_renames d = d_renames e" "d_messages d = d_messages e"
    using assms e by (simp_all add: same_store_def)
  show "flags_of v d = flags_of v e" "v \<in> S \<Longrightarrow> dhas (front d) v" "v \<in> S \<Longrightarrow> dhas (front e) v"
    using assms by (simp_all add: same_store_def)
qed

lemma same_storeI:
  assumes "\<And>v. flags_of v d = flags_of v e" and "d_cache d = d_cache e" and "d_overridedata d = d_overridedata e"
    and "d_overrides d = d_overrides e" and "d_overridesset d = d_overridesset e" and "d_overridevars d = d_overridevars e"
    and "d_inoverride d = d_inoverride e" and "d_renames d = d_renames e" and "d_messages d = d_messages e"
    and "\<And>v. v \<in> S \<Longrightarrow> dhas (front d) v \<and> dhas (front e) v"
  shows "same_store S d e"
  using assms by (cases e) (simp add: same_store_def)

lemma same_store_sub: "same_store S d e \<Longrightarrow> T \<subseteq> S \<Longrightarrow> same_store T d e"
  by (auto simp: same_store_def)

lemma flags_of_fields [simp]:
  "flags_of v (d\<lparr>d_cache := c\<rparr>) = flags_of v d"
  "flags_of v (d\<lparr>d_overridedata := od\<rparr>) = flags_of v d"
  "flags_of v (d\<lparr>d_overrides := os\<rparr>) = flags_of v d"
  "flags_of v (d\<lparr>d_overridesset := s\<rparr>) = flags_of v d"
  "flags_of v (d\<lparr>d_overridevars := vs\<rparr>) = flags_of v d"
  "flags_of v (d\<lparr>d_inoverride := b\<rparr>) = flags_of v d"
  "flags_of v (d\<lparr>d_messages := m\<rparr>) = flags_of v d"
  "flags_of v (d\<lparr>d_renames := rs\<rparr>) = flags_of v d"
  "front (d\<lparr>d_cache := c\<rparr>) = front d"
  "front (d\<lparr>d_overridedata := od\<rparr>) = front d"
  "front (d\<lparr>d_overrides := os\<rparr>) = front d"
  "front (d\<lparr>d_overridesset := s\<rparr>) = front d"
  "front (d\<lparr>d_overridevars := vs\<rparr>) = front d"
  "front (d\<lparr>d_inoverride := b\<rparr>) = front d"
  "front (d\<lparr>d_messages := m\<rparr>) = front d"
  "front (d\<lparr>d_renames := rs\<rparr>) = front d"
  by (simp_all add: flags_of_def findVar_def front_def)

text \<open>Updates of the fields other than the layers, in step.\<close>

lemma same_store_fields:
  assumes "same_store S d e"
  shows "same_store S (d\<lparr>d_cache := c\<rparr>) (e\<lparr>d_cache := c\<rparr>)"
    and "same_store S (d\<lparr>d_overridedata := od\<rparr>) (e\<lparr>d_overridedata := od\<rparr>)"
    and "same_store S (d\<lparr>d_overrides := os\<rparr>) (e\<lparr>d_overrides := os\<rparr>)"
    and "same_store S (d\<lparr>d_overridesset := s\<rparr>) (e\<lparr>d_overridesset := s\<rparr>)"
    and "same_store S (d\<lparr>d_overridevars := vs\<rparr>) (e\<lparr>d_overridevars := vs\<rparr>)"
    and "same_store S (d\<lparr>d_inoverride := b\<rparr>) (e\<lparr>d_inoverride := b\<rparr>)"
    and "same_store S (d\<lparr>d_messages := m\<rparr>) (e\<lparr>d_messages := m\<rparr>)"
    and "same_store S (d\<lparr>d_renames := rs\<rparr>) (e\<lparr>d_renames := rs\<rparr>)"
  using same_storeD [OF assms] by (auto intro!: same_storeI)

lemma same_store_update: "override_update (same_store S)"
  unfolding override_update_def by (auto intro!: same_store_fields)

lemma same_store_share: "shareable (same_store S)"
  unfolding shareable_def
proof (intro allI impI)
  fix sub rs d e
  assume s: "same_store S d e"
  from same_storeD(2) [OF s] show "same_store S (share_removes sub rs d) (share_removes sub rs e)"
    by (auto simp: share_removes_def s split: option.split intro: same_store_fields(1) [OF s])
qed

interpretation layered: full_view "same_store S" False for S
proof
  fix g g' assume c: "calls_agree (\<lambda>_. True) (same_store S) False g g'"
  show "tracks (same_store S) False (need_overrides g) (need_overrides g')"
    by (rule need_overrides_agree [OF same_store_update _ c]) (simp_all add: same_storeD(4,7))
qed (simp_all add: same_storeD same_store_share same_store_fields(1))

section \<open>Writing\<close>

lemma put_var_fields [simp]:
  "d_cache (put_var v f d) = d_cache d" "d_overridedata (put_var v f d) = d_overridedata d"
  "d_overrides (put_var v f d) = d_overrides d" "d_overridesset (put_var v f d) = d_overridesset d"
  "d_overridevars (put_var v f d) = d_overridevars d" "d_inoverride (put_var v f d) = d_inoverride d"
  "d_renames (put_var v f d) = d_renames d" "d_messages (put_var v f d) = d_messages d"
  by (simp_all add: put_var_def set_front_def)

lemma front_put [simp]: "front (put_var v f d) = dset v f (front d)"
  by (simp add: put_var_def set_front_def front_def)

lemma flags_put [simp]: "flags_of w (put_var v f d) = (if w = v then f else flags_of w d)"
  by (cases "d_layers d") (auto simp: flags_of_def findVar_def put_var_def set_front_def front_def dget_dset split: option.split)

lemma drop_cache_fields [simp]:
  "flags_of v (drop_cache d) = flags_of v d" "front (drop_cache d) = front d"
  by (simp_all add: drop_cache_def)

lemma own_flags_front: "dhas (front d) v \<Longrightarrow> own_flags v d = flags_of v d"
  by (cases "d_layers d") (auto simp: own_flags_def flags_of_def findVar_def front_def dhas_iff dget_default_def split: option.split)

lemma flags_absent: "\<not> dhas (front d) v \<Longrightarrow> findVar v d = Some [] \<or> findVar v d = None \<Longrightarrow> flags_of v d = []"
  by (auto simp: flags_of_def)

lemma flags_shadow [simp]: "flags_of w (makeShadowCopy v d) = flags_of w d"
  by (auto simp: makeShadowCopy_def initVar_def Let_def flags_of_def [of v d] split: option.split)

lemma front_shadow: "dhas (front (makeShadowCopy v d)) w \<longleftrightarrow> w = v \<or> dhas (front d) w"
  by (auto simp: makeShadowCopy_def initVar_def Let_def dhas_iff dget_dset split: option.splits)

lemma shadow_fields [simp]:
  "d_overridedata (makeShadowCopy v d) = d_overridedata d"
  "d_overrides (makeShadowCopy v d) = d_overrides d" "d_overridesset (makeShadowCopy v d) = d_overridesset d"
  "d_overridevars (makeShadowCopy v d) = d_overridevars d" "d_inoverride (makeShadowCopy v d) = d_inoverride d"
  "d_renames (makeShadowCopy v d) = d_renames d" "d_messages (makeShadowCopy v d) = d_messages d"
  by (auto simp: makeShadowCopy_def initVar_def drop_cache_def Let_def split: option.split)

lemma shadow_cache [simp]: "d_cache d = [] \<Longrightarrow> d_cache (makeShadowCopy v d) = []"
  by (auto simp: makeShadowCopy_def initVar_def drop_cache_def Let_def split: option.split)

lemma same_store_put:
  "same_store S d e \<Longrightarrow> same_store (insert v S) (put_var v f d) (put_var v f e)"
  using same_storeD [of S d e] by (auto intro!: same_storeI simp: dhas_iff dget_dset)

lemma same_store_drop: "same_store S d e \<Longrightarrow> same_store S (drop_cache d) (drop_cache e)"
  unfolding drop_cache_def by (rule same_store_fields)

lemma same_store_shadow:
  "same_store S d e \<Longrightarrow> d_cache d = [] \<Longrightarrow> same_store (insert v S) (makeShadowCopy v d) (makeShadowCopy v e)"
  using same_storeD [of S d e] by (auto intro!: same_storeI simp: front_shadow)

lemma same_store_fresh:
  "same_store S d e \<Longrightarrow> same_store (insert v S) (makeShadowCopy v (drop_cache d)) (makeShadowCopy v (drop_cache e))"
  by (intro same_store_shadow same_store_drop) (simp_all add: drop_cache_def)

lemma same_store_own: "same_store S d e \<Longrightarrow> v \<in> S \<Longrightarrow> own_flags v d = flags_of v d \<and> own_flags v e = flags_of v d"
  using same_storeD [of S d e] by (simp add: own_flags_front)

lemma same_store_flag:
  "same_store S d e \<Longrightarrow> v \<in> S \<Longrightarrow> same_store S (put_flag v flag x d) (put_flag v flag x e)"
  unfolding put_flag_def using same_store_put [of S d e v "dset flag x (flags_of v d)"] same_store_own [of S d e v]
  by (simp add: insert_absorb)

lemma same_store_note:
  "same_store S d e \<Longrightarrow> same_store S (setvar_update_overrides v d) (setvar_update_overrides v e)"
  unfolding setvar_update_overrides_def using same_storeD(3) [of S d e] by (auto intro: same_store_fields)

lemma same_store_delVar: "same_store S d e \<Longrightarrow> same_store S (delVar v d) (delVar v e)"
proof -
  assume s: "same_store S d e"
  have t: "same_store S (put_var v [] (drop_cache d)) (put_var v [] (drop_cache e))"
    by (rule same_store_sub [OF same_store_put [OF same_store_drop [OF s]]]) blast
  have "d_overridedata e = d_overridedata d" using same_storeD(3) [OF s] by simp
  then show ?thesis unfolding delVar_def Let_def by (simp add: drop_cache_def same_store_fields(2) [OF t [unfolded drop_cache_def]])
qed

lemma same_store_fold_del: "same_store S d e \<Longrightarrow> same_store S (fold delVar vs d) (fold delVar vs e)"
  by (induction vs arbitrary: d e) (simp_all add: same_store_delVar)

text \<open>An update at the front of a computation that gives a variable an entry of its own.\<close>

lemma tracks_enter:
  assumes f: "\<And>d e. R d e \<Longrightarrow> R' (f d) (f' e)" and k: "tracks R' lax k k'" and w: "\<And>d e. R' d e \<Longrightarrow> R d e"
  shows "tracks R lax (bindX (setX f) (\<lambda>_. k)) (bindX (setX f') (\<lambda>_. k'))"
proof (rule tracksI)
  fix d e r e'
  assume "R d e" and r: "bindX (setX f') (\<lambda>_. k') e = (r, e')" and n: "\<not> (lax \<and> (\<exists>x. r = Inl x))"
  from r have "k' (f' e) = (r, e')" by (simp add: bindX_def setX_def)
  from tracksD [OF k f [OF \<open>R d e\<close>] this n] w show "\<exists>d'. bindX (setX f) (\<lambda>_. k) d = (r, d') \<and> R d' e'"
    by (auto simp: bindX_def setX_def)
qed

lemma setX_comp: "bindX (setX f) (\<lambda>_. bindX (setX g) k) = bindX (setX (\<lambda>d. g (f d))) k"
  by (rule ext) (simp add: bindX_def setX_def)

lemma tracks_weaken: "tracks R lax m m' \<Longrightarrow> R = R' \<Longrightarrow> tracks R' lax m m'"
  by simp

lemma layered_field:
  "tracks (same_store S) lax (getX (\<lambda>d. f (d_overridedata d) (d_overrides d) (d_overridesset d) (d_overridevars d)))
     (getX (\<lambda>d. f (d_overridedata d) (d_overrides d) (d_overridesset d) (d_overridevars d)))"
  by (rule tracks_get) (simp add: same_storeD(3-6))

lemma layered_referenced:
  "tracks (same_store S) False (referenced_by env vs) (referenced_by env vs)"
  by (induction vs) (auto intro!: tracks_rules layered.agree_get layered.agree_expand(1) [OF layered.agree_calls])

lemma layered_rounds: "tracks (same_store S) False (overridevar_rounds n env new) (overridevar_rounds n env new)"
proof (induction n arbitrary: new)
  case (Suc n)
  have "tracks (same_store S) False (getX d_overridevars) (getX d_overridevars)"
    by (rule tracks_get) (simp add: same_storeD(6))
  moreover have "tracks (same_store S) False (setX (\<lambda>d. d\<lparr>d_overridevars := supdate (d_overridevars d) new\<rparr>))
      (setX (\<lambda>d. d\<lparr>d_overridevars := supdate (d_overridevars d) new\<rparr>))"
    by (rule tracks_set) (simp add: same_storeD(6) same_store_fields(5))
  ultimately show ?case by (auto intro!: tracks_rules layered_referenced Suc)
qed (simp add: tracks_raise)

lemma layered_overridevars:
  "tracks (same_store S) False (setvar_update_overridevars env v x) (setvar_update_overridevars env v x)"
  unfolding setvar_update_overridevars_def
  by (intro tracks_rules layered.agree_expand(1) [OF layered.agree_calls] layered_rounds tracks_set)
    (auto intro!: same_store_fields)

lemma layered_ask: "tracks (same_store S) False (getX (\<lambda>d. v \<in> set (d_overridevars d))) (getX (\<lambda>d. v \<in> set (d_overridevars d)))"
  by (rule tracks_get) (simp add: same_storeD(6))

lemma layered_need: "tracks (same_store S) False (need_overrides (getter_of env)) (need_overrides (getter_of env))"
  by (rule layered.need_agree [OF layered.agree_calls])

lemma layered_clear:
  assumes "v \<in> S"
  shows "tracks (same_store S) False (clear_pending env v) (clear_pending env v)"
proof -
  have "tracks (same_store S) False (setX (\<lambda>d. put_var v (fold ddel setvar_keywords (own_flags v d)) d))
      (setX (\<lambda>d. put_var v (fold ddel setvar_keywords (own_flags v d)) d))"
  proof (rule tracks_set)
    fix d e assume s: "same_store S d e"
    from same_store_put [OF s, of v] same_store_own [OF s assms] assms
    show "same_store S (put_var v (fold ddel setvar_keywords (own_flags v d)) d) (put_var v (fold ddel setvar_keywords (own_flags v e)) e)"
      by (simp add: insert_absorb)
  qed
  moreover have "tracks (same_store S) False (getX (\<lambda>d. dget (d_overridedata d) v)) (getX (\<lambda>d. dget (d_overridedata d) v))"
    by (rule tracks_get) (simp add: same_storeD(3))
  moreover have "same_store S ((fold delVar vs d)\<lparr>d_overridedata := ddel v (d_overridedata (fold delVar vs d))\<rparr>)
      ((fold delVar vs e)\<lparr>d_overridedata := ddel v (d_overridedata (fold delVar vs e))\<rparr>)" if "same_store S d e" for d e vs
    using same_store_fold_del [OF that, of vs] same_storeD(3) [OF same_store_fold_del [OF that, of vs]]
    by (simp add: same_store_fields)
  ultimately show ?thesis unfolding clear_pending_def Let_def
    by (auto intro!: tracks_rules layered_need tracks_set split: option.split simp: same_storeD(5))
qed

lemma layered_plain:
  "tracks (same_store S) False (bindX (setX drop_cache) (\<lambda>_. set_plain env v x ps)) (bindX (setX drop_cache) (\<lambda>_. set_plain env v x ps))"
proof -
  have content: "tracks (same_store (insert v S)) False
      (setX (\<lambda>d. put_flag v ''_content'' x (if colon \<in> set v then setvar_update_overrides v d else d)))
      (setX (\<lambda>d. put_flag v ''_content'' x (if colon \<in> set v then setvar_update_overrides v d else d)))"
    by (rule tracks_set) (auto intro!: same_store_flag same_store_note)
  show ?thesis unfolding set_plain_def setX_comp
    by (rule tracks_enter [where R' = "same_store (insert v S)"])
      (auto intro!: tracks_rules layered_clear content layered_ask layered_overridevars same_store_fresh
        elim: same_store_sub)
qed

section \<open>Reports of renamed variables\<close>

text \<open>The list of reports only grows.\<close>

definition grows :: "(datasmart, 'a) sx \<Rightarrow> bool" where
  "grows m \<longleftrightarrow> (\<forall>d. \<exists>ms. d_messages (snd (m d)) = d_messages d @ ms)"

named_theorems grows_rules \<open>composition rules for computations that keep the reports made before\<close>

lemma grows_simple [grows_rules]: "grows (retX x)" "grows (raiseX e)" "grows (liftX r)" "grows (getX f)"
  by (simp_all add: grows_def retX_def raiseX_def liftX_def getX_def)

lemma grows_set: "(\<And>d. d_messages (f d) = d_messages d) \<Longrightarrow> grows (setX f)"
  by (simp add: grows_def setX_def)

lemma grows_bind [grows_rules]:
  assumes "grows m" and "\<And>x. grows (k x)"
  shows "grows (bindX m k)"
  unfolding grows_def
proof
  fix d
  obtain ms where ms: "d_messages (snd (m d)) = d_messages d @ ms" using assms(1) by (auto simp: grows_def)
  show "\<exists>ms. d_messages (snd (bindX m k d)) = d_messages d @ ms"
  proof (cases "m d")
    case (Pair r t)
    then show ?thesis using ms
    proof (cases r)
      case (Inr x)
      obtain ns where "d_messages (snd (k x t)) = d_messages t @ ns" using assms(2) by (metis grows_def)
      with Pair Inr ms show ?thesis by (simp add: bindX_def)
    qed (simp add: bindX_def)
  qed
qed

lemma grows_for [grows_rules]: "(\<And>x. grows (f x)) \<Longrightarrow> grows (forX f xs)"
proof (induction xs)
  case Nil
  then show ?case by (simp add: grows_def)
next
  case (Cons x xs)
  from grows_bind [of "f x" "\<lambda>_. forX f xs"] Cons show ?case by (simp add: grows_def)
qed

lemma grows_fold: "(\<And>x y. grows (f x y)) \<Longrightarrow> grows m \<Longrightarrow> grows (fold (\<lambda>x m. bindX m (f x)) xs m)"
  by (induction xs arbitrary: m) (simp_all add: grows_bind)

lemma grows_reads: "reads m \<Longrightarrow> grows m"
  by (metis append_Nil2 grows_def prod.collapse readsD(4))

lemmas grows_reading [grows_rules] = reads_get [THEN grows_reads] reads_need [THEN grows_reads] reads_overridevars [THEN grows_reads]

text \<open>
  A computation that gives the same answers on both stores, and leaves them with the same variables, as long as it reports
  no renamed variable.
\<close>

definition mirrors :: "string set \<Rightarrow> (datasmart, 'a) sx \<Rightarrow> bool" where
  "mirrors S m \<longleftrightarrow> grows m \<and>
     (\<forall>d e. same_store S d e \<longrightarrow> d_messages (snd (m e)) = d_messages e \<longrightarrow>
        fst (m d) = fst (m e) \<and> same_store S (snd (m d)) (snd (m e)))"

named_theorems mirrors_rules \<open>composition rules for computations that mirror\<close>

lemma mirrors_grows: "mirrors S m \<Longrightarrow> grows m"
  by (simp add: mirrors_def)

lemma mirrorsD:
  assumes "mirrors S m" and "same_store S d e" and "d_messages (snd (m e)) = d_messages e"
  shows "fst (m d) = fst (m e)" and "same_store S (snd (m d)) (snd (m e))"
  using assms by (auto simp: mirrors_def)

lemma mirrors_tracks: "tracks (same_store S) False m m \<Longrightarrow> grows m \<Longrightarrow> mirrors S m"
  unfolding mirrors_def using tracksD [of "same_store S" False m m] by (metis prod.collapse fst_conv snd_conv)

lemma mirrors_bind [mirrors_rules]:
  assumes m: "mirrors S m" and k: "\<And>x. mirrors S (k x)"
  shows "mirrors S (bindX m k)"
  unfolding mirrors_def
proof (intro conjI allI impI)
  show g: "grows (bindX m k)" by (intro grows_rules mirrors_grows [OF m] mirrors_grows [OF k])
  fix d e assume s: "same_store S d e" and n: "d_messages (snd (bindX m k e)) = d_messages e"
  obtain r t where e: "m e = (r, t)" by (cases "m e")
  obtain ms where ms: "d_messages t = d_messages e @ ms" using mirrors_grows [OF m] e by (metis grows_def snd_conv)
  have t: "d_messages t = d_messages e \<and> (\<forall>x. r = Inr x \<longrightarrow> d_messages (snd (k x t)) = d_messages t)"
  proof (cases r)
    case (Inl x)
    then show ?thesis using n e by (simp add: bindX_def)
  next
    case (Inr x)
    obtain ns where ns: "d_messages (snd (k x t)) = d_messages t @ ns" using mirrors_grows [OF k] by (metis grows_def)
    then show ?thesis using n e ms Inr by (simp add: bindX_def)
  qed
  from mirrorsD [OF m s] e t obtain u where d: "m d = (r, u)" and u: "same_store S u t" by (metis fst_conv snd_conv prod.collapse)
  have "fst (bindX m k d) = fst (bindX m k e) \<and> same_store S (snd (bindX m k d)) (snd (bindX m k e))"
  proof (cases r)
    case (Inl x)
    then show ?thesis using d e u by (simp add: bindX_def)
  next
    case (Inr x)
    then show ?thesis using d e mirrorsD [OF k [of x] u] t by (simp add: bindX_def)
  qed
  then show "fst (bindX m k d) = fst (bindX m k e)" "same_store S (snd (bindX m k d)) (snd (bindX m k e))" by blast+
qed

lemma mirrors_simple [mirrors_rules]: "mirrors S (retX x)" "mirrors S (raiseX e)" "mirrors S (liftX r)"
  by (intro mirrors_tracks tracks_rules grows_rules)+

lemma mirrors_get: "(\<And>d e. same_store S d e \<Longrightarrow> f d = f e) \<Longrightarrow> mirrors S (getX f)"
  by (intro mirrors_tracks tracks_get grows_rules)

lemma mirrors_set:
  "(\<And>d e. same_store S d e \<Longrightarrow> same_store S (f d) (f e)) \<Longrightarrow> (\<And>d. d_messages (f d) = d_messages d) \<Longrightarrow> mirrors S (setX f)"
  by (intro mirrors_tracks tracks_set grows_set)

lemma mirrors_for [mirrors_rules]: "(\<And>x. mirrors S (f x)) \<Longrightarrow> mirrors S (forX f xs)"
proof (induction xs)
  case Nil
  then show ?case by (simp add: mirrors_def grows_def)
next
  case (Cons x xs)
  from mirrors_bind [of S "f x" "\<lambda>_. forX f xs"] Cons show ?case by (simp add: mirrors_def grows_def)
qed

text \<open>After a report there is nothing left to show.\<close>

lemma messages_simps [simp]:
  "d_messages (drop_cache d) = d_messages d" "d_messages (put_flag v f x d) = d_messages d"
  "d_messages (setvar_update_overrides v d) = d_messages d" "d_messages (note_renamed v f x d) = d_messages d"
  by (simp_all add: drop_cache_def put_flag_def setvar_update_overrides_def note_renamed_def)

lemma delVar_messages [simp]: "d_messages (delVar v d) = d_messages d"
  by (simp add: delVar_def Let_def)

lemma delVars_messages [simp]: "d_messages (fold delVar vs d) = d_messages d"
  by (induction vs arbitrary: d) simp_all

lemma add_export_messages [simp]: "d_messages (add_export v d) = d_messages d"
  by (simp add: add_export_def Let_def)

lemma grows_clear [grows_rules]: "grows (clear_pending env v)"
  unfolding clear_pending_def Let_def by (auto intro!: grows_rules grows_set split: option.split)

lemma grows_plain [grows_rules]: "grows (set_plain env v x ps)"
  unfolding set_plain_def by (auto intro!: grows_rules grows_set)

lemma grows_print [grows_rules]: "grows (print_rename_error v)"
  by (simp add: grows_def print_rename_error_def bindX_def getX_def setX_def raiseX_def)

lemma grows_report [grows_rules]: "grows (report_renamed env v)"
  unfolding report_renamed_def by (auto intro!: grows_rules grows_set)

lemma grows_effects [grows_rules]: "grows (flag_effects env var flag v)"
  unfolding flag_effects_def by (auto intro!: grows_rules grows_set)

lemma grows_setVarFlag [grows_rules]: "grows (setVarFlag env var flag v)"
  unfolding setVarFlag_def by (auto intro!: grows_rules grows_set)

lemma mirrors_print:
  assumes k: "grows k"
  shows "mirrors S (bindX (print_rename_error v) (\<lambda>_. k))"
  unfolding mirrors_def
proof (intro conjI allI impI)
  show "grows (bindX (print_rename_error v) (\<lambda>_. k))" by (intro grows_rules k)
  fix d e assume s: "same_store S d e"
    and n: "d_messages (snd (bindX (print_rename_error v) (\<lambda>_. k) e)) = d_messages e"
  let ?t = "e\<lparr>d_messages := d_messages e @ [v]\<rparr>"
  obtain ms where "d_messages (snd (k ?t)) = d_messages ?t @ ms" using k unfolding grows_def by blast
  then have "d_messages (snd (k ?t)) \<noteq> d_messages e" by simp
  then have "\<not> info_text (dget_default (d_renames e) v PNone)"
    using n by (auto simp: bindX_def print_rename_error_def getX_def setX_def)
  then show "fst (bindX (print_rename_error v) (\<lambda>_. k) d) = fst (bindX (print_rename_error v) (\<lambda>_. k) e)"
    "same_store S (snd (bindX (print_rename_error v) (\<lambda>_. k) d)) (snd (bindX (print_rename_error v) (\<lambda>_. k) e))"
    using s same_storeD(8) [OF s] by (simp_all add: bindX_def print_rename_error_def getX_def raiseX_def)
qed

lemma bind_assoc: "bindX (bindX m f) g = bindX m (\<lambda>x. bindX (f x) g)"
  by (rule ext) (simp add: bindX_def split: prod.split sum.split)

lemma mirrors_report: "grows k \<Longrightarrow> mirrors S (bindX (report_renamed env v) (\<lambda>_. k))"
  unfolding report_renamed_def bind_assoc by (rule mirrors_print) (auto intro!: grows_rules grows_set)

lemma mirrors_renamed:
  assumes "mirrors S k"
  shows "mirrors S (bindX (getX (\<lambda>d. dhas (d_renames d) v)) (\<lambda>b. bindX (if b then report_renamed env v else retX ()) (\<lambda>_. k)))"
proof (rule mirrors_bind [OF mirrors_get])
  fix b
  show "mirrors S (bindX (if b then report_renamed env v else retX ()) (\<lambda>_. k))"
    using mirrors_report [OF mirrors_grows [OF assms]] assms by (cases b) (auto intro!: mirrors_rules)
qed (simp add: same_storeD(8))

text \<open>The flag of a variable that is not renamed is set at once.\<close>

lemma set_flag_at_once:
  assumes "\<not> dhas (d_renames (note_renamed var flag v d)) var"
  shows "setVarFlag env var flag v d =
     bindX (setX (\<lambda>d. put_flag var flag v (makeShadowCopy var (note_renamed var flag v (drop_cache d))))) (\<lambda>_. flag_effects env var flag v) d"
proof -
  have "\<not> dhas (d_renames (note_renamed var flag v (drop_cache d))) var"
    using assms by (simp add: note_renamed_def drop_cache_def split: if_splits)
  then show ?thesis by (simp add: setVarFlag_def setX_def getX_def bindX_def retX_def)
qed

lemma set_flag_steps:
  assumes "var \<noteq> ''BB_RENAMED_VARIABLES''" and "\<not> dhas (d_renames d) var"
  shows "setVarFlag env var flag v d =
     bindX (setX (\<lambda>d. put_flag var flag v (makeShadowCopy var (drop_cache d)))) (\<lambda>_. flag_effects env var flag v) d"
  using set_flag_at_once [of var flag v d env] assms by (simp add: note_renamed_def)

lemma put_flag_cache [simp]: "d_cache (put_flag v flag x d) = d_cache d"
  by (simp add: put_flag_def)

text \<open>An exported variable is listed while the cache is empty.\<close>

lemma same_store_export:
  assumes "same_store S d e" and "d_cache d = []"
  shows "same_store S (add_export v d) (add_export v e)"
proof -
  let ?x = "''__exportlist''"
  have s: "same_store (insert ?x S) (makeShadowCopy ?x d) (makeShadowCopy ?x e)" by (rule same_store_shadow [OF assms])
  have "same_store (insert ?x S) (add_export v d) (add_export v e)" unfolding add_export_def Let_def
    using same_store_own [OF s] by (simp add: same_store_flag [OF s])
  then show ?thesis by (rule same_store_sub) blast
qed

lemma same_store_renamed: "same_store S d e \<Longrightarrow> same_store S (note_renamed v flag x d) (note_renamed v flag x e)"
  unfolding note_renamed_def using same_storeD(8) [of S d e] by (auto intro: same_store_fields)

lemma layered_flag_steps:
  fixes env var flag v S
  defines "f \<equiv> \<lambda>d. put_flag var flag v (makeShadowCopy var (note_renamed var flag v (drop_cache d)))"
  shows "tracks (same_store S) False (bindX (setX f) (\<lambda>_. flag_effects env var flag v)) (bindX (setX f) (\<lambda>_. flag_effects env var flag v))"
proof -
  have f: "same_store (insert var S) (f d) (f e)" if s: "same_store S d e" for d e
    unfolding f_def
    by (intro same_store_flag same_store_shadow same_store_renamed same_store_drop s)
      (simp_all add: note_renamed_def drop_cache_def)
  have c: "d_cache (f d) = []" for d
    by (simp add: f_def note_renamed_def drop_cache_def)
  show ?thesis
  proof (cases "flag = ''unexport'' \<or> flag = ''export''")
    case True
    then have e: "flag_effects env var flag v = setX (add_export var)"
      by (intro ext) (auto simp: flag_effects_def bindX_def setX_def getX_def retX_def)
    have "same_store S (add_export var (f d)) (add_export var (f e))" if "same_store S d e" for d e
      by (rule same_store_sub [OF same_store_export [OF f [OF that] c]]) blast
    then show ?thesis unfolding e setX_comp [of f "add_export var" retX, simplified] 
      by (intro tracksI) (auto simp: bindX_def setX_def)
  next
    case False
    have "tracks (same_store (insert var S)) False (flag_effects env var flag v) (flag_effects env var flag v)"
      unfolding flag_effects_def using False
      by (auto intro!: tracks_rules layered_overridevars tracks_set tracks_get same_store_note simp: same_storeD(6))
    then show ?thesis
      by (rule tracks_enter [where R' = "same_store (insert var S)", rotated]) (auto intro: f elim: same_store_sub)
  qed
qed

lemma layered_setVarFlag [mirrors_rules]: "mirrors S (setVarFlag env var flag v)"
  unfolding mirrors_def
proof (intro conjI allI impI)
  show "grows (setVarFlag env var flag v)" by (rule grows_rules)
  fix d e assume s: "same_store S d e" and n: "d_messages (snd (setVarFlag env var flag v e)) = d_messages e"
  let ?k = "bindX (setX (\<lambda>d. put_flag var flag v (makeShadowCopy var d))) (\<lambda>_. flag_effects env var flag v)"
  let ?t = "\<lambda>d. note_renamed var flag v (drop_cache d)"
  let ?m = "setVarFlag env var flag v"
  have t: "same_store S (?t d) (?t e)" by (intro same_store_renamed same_store_drop s)
  have r: "d_renames (?t u) = d_renames (note_renamed var flag v u)" for u by (simp add: note_renamed_def drop_cache_def)
  have "fst (?m d) = fst (?m e) \<and> same_store S (snd (?m d)) (snd (?m e))"
  proof (cases "dhas (d_renames (?t e)) var")
    case True
    have k: "mirrors S (bindX (report_renamed env var) (\<lambda>_. ?k))"
      by (rule mirrors_report) (intro grows_rules grows_set, simp)
    have e: "?m e = bindX (report_renamed env var) (\<lambda>_. ?k) (?t e)" and d: "?m d = bindX (report_renamed env var) (\<lambda>_. ?k) (?t d)"
      using True same_storeD(8) [OF t] by (simp_all add: setVarFlag_def setX_def getX_def bindX_def)
    from mirrorsD [OF k t] n show ?thesis unfolding d e by simp
  next
    case False
    then have "\<not> dhas (d_renames (note_renamed var flag v e)) var" "\<not> dhas (d_renames (note_renamed var flag v d)) var"
      using same_storeD(8) [OF t] by (simp_all add: r)
    from this [THEN set_flag_at_once] tracksD [OF layered_flag_steps s] show ?thesis by (metis fst_conv snd_conv prod.collapse)
  qed
  then show "fst (?m d) = fst (?m e)" "same_store S (snd (?m d)) (snd (?m e))" by blast+
qed

text \<open>What only reads, or adds to the overrides.\<close>

lemma mirrors_get_flag [mirrors_rules]: "mirrors S (getVarFlag env var flag ex nw ps)" "mirrors S (getVar env var ex)"
  by (intro mirrors_tracks layered.agree_get grows_rules)+

lemma mirrors_overridevars [mirrors_rules]: "mirrors S (setvar_update_overridevars env var v)"
  by (intro mirrors_tracks layered_overridevars grows_rules)

lemma mirrors_note: "mirrors S (setX (\<lambda>d. if b then setvar_update_overrides v d else d))" "mirrors S (setX (setvar_update_overrides v))"
  by (intro mirrors_set; simp add: same_store_note)+

lemma mirrors_operation [mirrors_rules]: "mirrors S (set_operation env var base kw add v)"
  unfolding set_operation_def
  by (auto intro!: mirrors_rules mirrors_note mirrors_get simp: same_storeD(6) split: pyval.split)

lemma layered_setVar [mirrors_rules]: "mirrors S (setVar_parsing env var v ps)"
proof -
  have "mirrors S (bindX (setX drop_cache) (\<lambda>_. case setvar_match var of Some (base, kw, add) \<Rightarrow> set_operation env var base kw add v
         | None \<Rightarrow> set_plain env var v ps))"
  proof (cases "setvar_match var")
    case None
    then show ?thesis by (simp add: mirrors_tracks [OF layered_plain] grows_rules grows_set)
  next
    case (Some x)
    then show ?thesis by (cases x) (auto intro!: mirrors_rules mirrors_set same_store_drop)
  qed
  from mirrors_renamed [OF this, of "shortname var" env] show ?thesis by (simp add: setVar_parsing_def mirrors_rules)
qed

lemma layered_delVarFlag:
  assumes s: "same_store S d e"
  shows "same_store S (delVarFlag var flag d) (delVarFlag var flag e)"
proof -
  note f = same_storeD(1) [OF same_store_drop [OF s], of var]
  have empty: "(case findVar var u of None \<Rightarrow> u | Some f \<Rightarrow> if f = [] then u else k) = (if flags_of var u = [] then u else k)"
    for u k
    by (simp add: flags_of_def split: option.split)
  have "same_store (insert var S) (put_var var (ddel flag (flags_of var d)) (makeShadowCopy var (drop_cache d)))
      (put_var var (ddel flag (flags_of var d)) (makeShadowCopy var (drop_cache e)))"
    using same_store_put [OF same_store_fresh [OF s, of var], of var] by simp
  with same_store_own [OF same_store_fresh [OF s, of var], of var] f same_store_drop [OF s] show ?thesis
    unfolding delVarFlag_def Let_def empty by (auto elim: same_store_sub)
qed

lemma layered_setVarFlags:
  assumes s: "same_store S d e"
  shows "same_store S (setVarFlags var flags d) (setVarFlags var flags e)"
  using same_store_put [OF same_store_fresh [OF s, of var], of var]
    same_store_own [OF same_store_fresh [OF s, of var], of var] same_storeD(1) [OF s]
  by (simp add: setVarFlags_def Let_def) (rule same_store_sub [where S = "insert var S"], auto)

lemma layered_flag_text [mirrors_rules]: "mirrors S (flag_text env var flag)"
  unfolding flag_text_def by (intro mirrors_rules)

lemma layered_changeFlag [mirrors_rules]:
  "mirrors S (appendVarFlag env var flag v)" "mirrors S (prependVarFlag env var flag v)"
  unfolding appendVarFlag_def prependVarFlag_def by (intro mirrors_rules)+

lemma layered_getVarFlags [mirrors_rules]: "mirrors S (getVarFlags env var ex internal)"
proof -
  have fold: "mirrors S (fold (\<lambda>fv m. bindX m (f fv)) fvs m)"
    if "\<And>fv x. mirrors S (f fv x)" "mirrors S m"
    for f :: "string \<times> pyval \<Rightarrow> vardata \<Rightarrow> (datasmart, vardata) sx" and fvs m
    using that by (induction fvs arbitrary: m) (simp_all add: mirrors_bind)
  have expand: "mirrors S (expand env (getter_of env) v name)" for v name
    by (intro mirrors_tracks layered.agree_expand(2) [OF layered.agree_calls] grows_reads)
      (simp add: reads_def reading.agree_expand(2) [OF reading.agree_calls])
  show ?thesis unfolding getVarFlags_def Let_def
    by (auto intro!: mirrors_rules mirrors_get fold expand simp: same_storeD(1))
qed

lemma layered_move [mirrors_rules]: "mirrors S (move_operations env newkey fs)"
  unfolding move_operations_def by (auto intro!: mirrors_rules split: pyval.split prod.split)

lemma layered_rename: "mirrors S (renameVar_at n env key newkey)"
proof (induction n arbitrary: key newkey)
  case (Suc n)
  have set_od: "mirrors S (setX (\<lambda>d. d\<lparr>d_overridedata := f (d_overridedata d)\<rparr>))" for f
    by (rule mirrors_set) (simp_all add: same_storeD(3) same_store_fields(2))
  have del: "mirrors S (setX (delVar key))" by (rule mirrors_set) (simp_all add: same_store_delVar)
  show ?case
    by (auto intro!: mirrors_rules mirrors_get mirrors_note set_od del Suc simp: same_storeD(3) split: option.split)
qed (simp add: mirrors_rules)

section \<open>Sequences of operations\<close>

datatype store_op =
    GetVar string bool | SetVar string pyval | AppendVar string pyval | PrependVar string pyval | DelVar string
  | RenameVar string string
  | GetFlag string string bool | SetFlag string string pyval | AppendFlag string string pyval
  | PrependFlag string string pyval | DelFlag string string | GetFlags string "string list" bool | SetFlags string vardata

datatype answer = Finished | Value pyval | Flags "vardata option"

text \<open>One operation, and a sequence of them, each with its answer or exception.\<close>

fun run_op :: "denv \<Rightarrow> store_op \<Rightarrow> (datasmart, answer) sx" where
  "run_op env (GetVar v ex) = bindX (getVar env v ex) (\<lambda>x. retX (Value x))"
| "run_op env (SetVar v x) = bindX (setVar env v x) (\<lambda>_. retX Finished)"
| "run_op env (AppendVar v x) = bindX (appendVar env v x) (\<lambda>_. retX Finished)"
| "run_op env (PrependVar v x) = bindX (prependVar env v x) (\<lambda>_. retX Finished)"
| "run_op env (DelVar v) = bindX (setX (delVar v)) (\<lambda>_. retX Finished)"
| "run_op env (RenameVar k k') = bindX (renameVar env k k') (\<lambda>_. retX Finished)"
| "run_op env (GetFlag v f ex) = bindX (getVarFlag env v f ex False False) (\<lambda>x. retX (Value x))"
| "run_op env (SetFlag v f x) = bindX (setVarFlag env v f x) (\<lambda>_. retX Finished)"
| "run_op env (AppendFlag v f x) = bindX (appendVarFlag env v f x) (\<lambda>_. retX Finished)"
| "run_op env (PrependFlag v f x) = bindX (prependVarFlag env v f x) (\<lambda>_. retX Finished)"
| "run_op env (DelFlag v f) = bindX (setX (delVarFlag v f)) (\<lambda>_. retX Finished)"
| "run_op env (GetFlags v fs internal) = bindX (getVarFlags env v fs internal) (\<lambda>x. retX (Flags x))"
| "run_op env (SetFlags v fs) = bindX (setX (setVarFlags v fs)) (\<lambda>_. retX Finished)"

fun run_ops :: "denv \<Rightarrow> store_op list \<Rightarrow> datasmart \<Rightarrow> answer result list" where
  "run_ops env [] d = []"
| "run_ops env (op # ops) d = (let r = run_op env op d in fst r # run_ops env ops (snd r))"

definition store_after :: "denv \<Rightarrow> store_op list \<Rightarrow> datasmart \<Rightarrow> datasmart" where
  "store_after env ops d = fold (\<lambda>op d. snd (run_op env op d)) ops d"

lemma delVarFlag_messages [simp]: "d_messages (delVarFlag v f d) = d_messages d"
  by (auto simp: delVarFlag_def Let_def split: option.split)

lemma setVarFlags_messages [simp]: "d_messages (setVarFlags v fs d) = d_messages d"
  by (simp add: setVarFlags_def Let_def)

lemma layered_op: "mirrors S (run_op env op)"
  by (cases op)
    (auto simp: setVar_def appendVar_def prependVar_def renameVar_def
      intro!: mirrors_rules layered_rename mirrors_set same_store_delVar layered_delVarFlag layered_setVarFlags)

lemma store_after_grows: "\<exists>ms. d_messages (store_after env ops d) = d_messages d @ ms"
proof (induction ops arbitrary: d)
  case (Cons op ops)
  obtain ms where "d_messages (snd (run_op env op d)) = d_messages d @ ms"
    using mirrors_grows [OF layered_op, of env op] by (metis grows_def)
  with Cons [of "snd (run_op env op d)"] show ?case by (auto simp: store_after_def)
qed (simp add: store_after_def)

lemma layered_ops:
  "same_store S d e \<Longrightarrow> d_messages (store_after env ops e) = d_messages e \<Longrightarrow> run_ops env ops d = run_ops env ops e"
proof (induction ops arbitrary: d e)
  case (Cons op ops)
  let ?t = "snd (run_op env op e)"
  obtain ms where "d_messages ?t = d_messages e @ ms"
    using mirrors_grows [OF layered_op, of env op] by (metis grows_def)
  moreover obtain ns where "d_messages (store_after env ops ?t) = d_messages ?t @ ns" using store_after_grows by blast
  ultimately have m: "d_messages ?t = d_messages e" "d_messages (store_after env ops ?t) = d_messages ?t"
    using Cons.prems(2) by (simp_all add: store_after_def)
  note step = mirrorsD [OF layered_op Cons.prems(1) m(1)]
  from Cons.IH [OF step(2) m(2)] step(1) show ?case by (simp add: Let_def)
qed simp

section \<open>One dictionary\<close>

fun merge_layers :: "layers \<Rightarrow> (string, vardata) odict" where
  "merge_layers [] = []"
| "merge_layers (l # ls) = AList.merge (merge_layers ls) l"

definition flatten :: "datasmart \<Rightarrow> datasmart" where
  "flatten d = d\<lparr>d_layers := [merge_layers (d_layers d)]\<rparr>"

lemma merge_layers_find: "dget (merge_layers ls) v = find_layers ls v"
  by (induction ls) (auto simp: merge_conv' map_add_def split: option.split)

lemma flatten_same: "same_store {} (flatten d) d"
  by (rule same_storeI) (simp_all add: flatten_def flags_of_def findVar_def merge_layers_find split: option.split)

text \<open>C17. A store and all it was copied from behave as one store with a single dictionary: every sequence of
  assignments, changes, deletions and renamings of variables, of changes and deletions of flags one at a time, of
  \<^verbatim>\<open>setVarFlags\<close>, and of lookups of variables and flags, also when some of them raise exceptions, gives the same
  answers as on the flattened store, as long as no renamed variable is reported (which marks the parsing as failed).
  \<^verbatim>\<open>delVarFlags\<close> is not among the operations: it tells a copy from a flat store, as \<open>delVarFlags_on_copy\<close> shows.\<close>

theorem copies_are_flat:
  assumes "d_messages (store_after env ops d) = d_messages d"
  shows "run_ops env ops d = run_ops env ops (flatten d)"
  by (rule layered_ops [OF flatten_same assms, symmetric])

lemma copies_are_flat_witness:
  "run_ops sample_env [GetVar ''A'' True, SetVar ''C'' (PStr ''c''), GetVar ''A'' True, DelVar ''A:o'', GetVar ''A:o'' True] sample_store
    = [Inr (Value (PStr ''y z ${C}'')), Inr Finished, Inr (Value (PStr ''y z c'')), Inr Finished, Inr (Value PNone)] \<and>
   run_ops sample_env [GetVar ''A'' True, SetVar ''C'' (PStr ''c''), GetVar ''A'' True, DelVar ''A:o'', GetVar ''A:o'' True] sample_store
    = run_ops sample_env [GetVar ''A'' True, SetVar ''C'' (PStr ''c''), GetVar ''A'' True, DelVar ''A:o'', GetVar ''A:o'' True]
        (flatten sample_store)"
  by (intro conjI copies_are_flat) code_simp+

end
