(* ===== verification/DataLaws.thy ===== *)
theory DataLaws
  imports DataLayers
begin

text \<open>What a caller of the store relies on: an assignment is what is read next, operations and overrides have their effect.\<close>

section \<open>An assignment\<close>

lemma before_last_shorter:
  assumes "colon \<in> set s"
  shows "length (before_last colon s) < length s"
  using before_after_last [OF assms] by (metis add_Suc_right length_Cons length_append less_add_Suc1)

lemma suffix_overrides_shorter: "so \<in> set (suffix_overrides var ov short) \<Longrightarrow> length (fst so) \<le> length short"
proof (induction var ov short rule: suffix_overrides.induct)
  case (1 var ov short)
  show ?case
  proof (cases "override_match ov \<and> so \<noteq> (short, ov)")
    case True
    from 1(2) have "so \<in> set (if \<not> override_match ov then [] else (short, ov) #
        (if colon \<notin> set short \<or> before_last colon short = [] then []
         else suffix_overrides var (drop (Suc (length (before_last colon short))) var) (before_last colon short)))"
      by (subst (asm) suffix_overrides.simps)
    with True have more: "\<not> (colon \<notin> set short \<or> before_last colon short = [])"
      and so: "so \<in> set (suffix_overrides var (drop (Suc (length (before_last colon short))) var) (before_last colon short))"
      by (auto split: if_splits)
    from 1(1) [OF _ more so] True before_last_shorter [of short] more show ?thesis by simp
  next
    case False
    with 1(2) show ?thesis by (subst (asm) suffix_overrides.simps) (auto split: if_splits)
  qed
qed

lemma name_overrides_shorter: "var \<noteq> [] \<Longrightarrow> so \<in> set (name_overrides var) \<Longrightarrow> length (fst so) < length var"
  using suffix_overrides_shorter [of so var] before_last_shorter [of var]
  by (auto simp: name_overrides_def split: if_splits) (metis Suc_pred' diff_Suc_1 le_imp_less_Suc length_butlast length_greater_0_conv order.strict_trans1)+

lemma own_flags_delVar: "own_flags v (delVar w d) = (if v = w then [] else own_flags v d)"
  by (simp add: delVar_def Let_def own_flags_def dget_default_dset_if drop_cache_def put_var_def set_front_def front_def)

lemma own_flags_fold: "own_flags v (fold delVar ws d) = (if v \<in> set ws then [] else own_flags v d)"
  by (induction ws arbitrary: d) (auto simp: own_flags_delVar)

lemma dget_fold_ddel: "dget (fold ddel ks f) k = (if k \<in> set ks then None else dget f k)" for f :: vardata
  by (induction ks arbitrary: f) (auto simp: delete_conv')

text \<open>What an assignment leaves of the variable.\<close>

definition only_content :: "string \<Rightarrow> datasmart \<Rightarrow> bool" where
  "only_content var d \<longleftrightarrow> (\<forall>k \<in> set setvar_keywords. dget (own_flags var d) k = None) \<and> dget (d_overridedata d) var = None"

lemma clear_pending_result:
  assumes "clear_pending env var d = (Inr (), d')"
  shows "only_content var d'"
proof -
  let ?d1 = "put_var var (fold ddel setvar_keywords (own_flags var d)) d"
  have own: "\<forall>k \<in> set setvar_keywords. dget (own_flags var ?d1) k = None"
    by (simp add: own_flags_def dget_fold_ddel)
  show ?thesis
  proof (cases "dget (d_overridedata ?d1) var")
    case None
    with assms have "d' = ?d1" by (simp add: clear_pending_def bindX_def setX_def getX_def retX_def)
    with own None show ?thesis by (simp add: only_content_def)
  next
    case (Some od)
    obtain r d2 where n: "need_overrides (getter_of env) ?d1 = (r, d2)" by (cases "need_overrides (getter_of env) ?d1")
    let ?ws = "map fst (filter (\<lambda>ro. override_applies (d_overridesset d2) (snd ro)) od)"
    have r: "r = Inr ()" and d': "d' = (fold delVar ?ws d2)\<lparr>d_overridedata := ddel var (d_overridedata (fold delVar ?ws d2))\<rparr>"
      using assms Some n
      by (cases r, auto simp: clear_pending_def bindX_def setX_def getX_def retX_def Let_def)+
    have "own_flags var d2 = own_flags var ?d1"
      using readsD(1) [OF reads_need n] by (simp add: own_flags_def front_def)
    moreover have "own_flags var d' = own_flags var (fold delVar ?ws d2)" by (simp add: d' own_flags_def front_def)
    ultimately show ?thesis using own by (simp add: only_content_def d' own_flags_fold delete_conv' Let_def)
  qed
qed

lemma delVar_renames: "d_renames (fold delVar ws d) = d_renames d"
  by (induction ws arbitrary: d) (simp_all add: delVar_def Let_def drop_cache_def)

lemma clear_pending_renames: "clear_pending env var d = (Inr (), d') \<Longrightarrow> d_renames d' = d_renames d"
  by (auto simp: clear_pending_def bindX_Inr setX_def getX_def retX_def Let_def delVar_renames readsD(3) [OF reads_need]
      split: option.splits)

lemma dget_note_other:
  "fst so \<noteq> v \<Longrightarrow> dget (note_override var so od) v = dget od v"
  by (simp add: note_override_def Let_def dget_dset)

lemma note_keeps_own:
  assumes "var \<noteq> []"
  shows "dget (d_overridedata (setvar_update_overrides var d)) var = dget (d_overridedata d) var"
proof -
  have "dget (fold (note_override var) sos od) var = dget od var" if "\<forall>so \<in> set sos. fst so \<noteq> var" for sos od
    using that by (induction sos arbitrary: od) (simp_all add: dget_note_other)
  moreover have "\<forall>so \<in> set (name_overrides var). fst so \<noteq> var" using name_overrides_shorter [OF assms] by fastforce
  ultimately show ?thesis by (simp add: setvar_update_overrides_def)
qed

lemma setvar_update_overrides_layers [simp]: "d_layers (setvar_update_overrides v d) = d_layers d"
  by (simp add: setvar_update_overrides_def)

lemma put_flag_flags: "flags_of var (put_flag var flag x d) = dset flag x (own_flags var d)"
  by (simp add: put_flag_def)

lemma set_plain_result:
  assumes "set_plain env var v False d = (Inr (), d')" and "var \<noteq> []"
  shows "\<exists>f. flags_of var d' = dset ''_content'' v f \<and> (\<forall>k \<in> set setvar_keywords. dget f k = None) \<and>
    dget (d_overridedata d') var = None \<and> d_renames d' = d_renames d"
proof -
  let ?c = "\<lambda>d. put_flag var ''_content'' v (if colon \<in> set var then setvar_update_overrides var d else d)"
  obtain d1 where c: "clear_pending env var (makeShadowCopy var d) = (Inr (), d1)"
    and r: "(if var \<in> set (d_overridevars (?c d1)) then setvar_update_overridevars env var v else retX ()) (?c d1) = (Inr (), d')"
    using assms(1) by (auto simp: set_plain_def bindX_Inr setX_def getX_def)
  have reads: "reads (if b then setvar_update_overridevars env var v else retX ())" for b
    by (simp add: reads_overridevars) (simp add: reads_def tracks_ret)
  note keep = readsD [OF reads r]
  have own: "own_flags var (if colon \<in> set var then setvar_update_overrides var d1 else d1) = own_flags var d1"
    by (simp add: own_flags_def front_def)
  have "flags_of var d' = dset ''_content'' v (own_flags var d1)"
    using flags_of_layers [OF keep(1), of var] own by (simp add: put_flag_flags)
  moreover have "dget (d_overridedata d') var = dget (d_overridedata d1) var"
    using keep(2) note_keeps_own [OF assms(2), of d1] by (simp add: put_flag_def)
  moreover have "d_renames d' = d_renames d"
    using keep(3) clear_pending_renames [OF c] by (simp add: put_flag_def setvar_update_overrides_def)
  ultimately show ?thesis using clear_pending_result [OF c] by (auto simp: only_content_def)
qed

text \<open>A value that nothing waits for and no override replaces is read as it is.\<close>

lemma read_content:
  assumes f: "flags_of var d = dset ''_content'' v f" and k: "\<forall>k \<in> set setvar_keywords. dget f k = None"
    and od: "dget (d_overridedata d) var = None" and e: "0 < de_depth env"
  shows "fst (getVar env var False d) = Inr v"
proof -
  obtain n where n: "de_depth env = Suc n" using e by (cases "de_depth env") auto
  have kw: "dget (dset ''_content'' v f) k = None" if "k \<in> {'':append'', '':prepend'', '':remove''}" for k
    using that k by (auto simp: dget_dset setvar_keywords_def)
  have ops: "pending_ops g k (dset ''_content'' v f) = retX ([], None)" if "k \<in> {'':append'', '':prepend'', '':remove''}" for g k
    by (simp add: pending_ops_def kw [OF that])
  have none: "apply_ops h ([], None) x = Inr x" for h x by (simp add: apply_ops_def)
  have raw: "raw_value g ''_content'' False False (dset ''_content'' v f) None = retX v" for g
    by (rule ext) (simp add: raw_value_def local_value_def ops none bindX_def retX_def liftX_def dget_dset)
  have rm: "removed_value env g (dset ''_content'' v f) None None = retX None" for g
    by (rule ext) (simp add: removed_value_def ops collect_removes_def known_removes_def bindX_def retX_def liftX_def setX_def)
  have "compute_parse env g var ''_content'' False False False False d = (Inr (v, None), d)" for g
    using f od by (simp add: compute_parse_def bindX_def getX_def retX_def raw rm)
  then show ?thesis
    by (simp add: getVar_def getVarFlag_def getter_of_def n getVarFlag_with_def compute_flag_def bindX_def getX_def setX_def retX_def
      store_parse_def split: option.split)
qed

lemma set_then_read:
  assumes set: "setVar env var v d = (Inr (), d')" and m: "setvar_match var = None" "var \<noteq> []" and e: "0 < de_depth env"
  shows "fst (getVar env var False d') = Inr v"
proof -
  obtain d1 where "set_plain env var v False d1 = (Inr (), d')"
    using set m(1) by (auto simp: setVar_def setVar_parsing_def bindX_Inr split: if_splits)
  from set_plain_result [OF this m(2)] obtain f where "flags_of var d' = dset ''_content'' v f"
    "\<forall>k \<in> set setvar_keywords. dget f k = None" "dget (d_overridedata d') var = None" by blast
  from read_content [OF this e] show ?thesis .
qed

text \<open>An assignment is what is read next: after \<^verbatim>\<open>setVar\<close> of a name without an operation, the unexpanded
  value is the one that was assigned, whatever the variable had before: other values, operations waiting for it,
  overrides of it, or a value in a store that this one is a copy of.\<close>

theorem set_then_get:
  assumes "setVar env var v d = (Inr (), d')" and "setvar_match var = None" and "var \<noteq> []" and "0 < de_depth env"
  shows "fst (getVar env var False d') = Inr v"
  by (rule set_then_read [OF assms])

lemma set_then_get_witness:
  "fst (getVar sample_env ''B'' False (snd (setVar sample_env ''B'' (PStr ''new'') sample_store))) = Inr (PStr ''new'')"
proof (rule set_then_get)
  have "fst (setVar sample_env ''B'' (PStr ''new'') sample_store) = Inr ()" by code_simp
  then show "setVar sample_env ''B'' (PStr ''new'') sample_store = (Inr (), snd (setVar sample_env ''B'' (PStr ''new'') sample_store))"
    by (simp add: prod_eq_iff)
qed code_simp+

section \<open>What waits for a variable\<close>

text \<open>Once the overrides are known, reading does not forget them.\<close>

definition settled :: "datasmart \<Rightarrow> datasmart \<Rightarrow> bool" where
  "settled d e \<longleftrightarrow> d = e \<and> d_overrides d \<noteq> None"

interpretation settled: full_view settled False
proof
  fix g g' assume "calls_agree (\<lambda>_. True) settled False g g'"
  show "tracks settled False (need_overrides g) (need_overrides g')"
    by (rule tracksI) (auto simp: settled_def need_overrides_def)
qed (auto simp: settled_def shareable_def share_removes_def split: option.split)

lemma need_settles:
  assumes "need_overrides (getVarFlag_at n env) d = (Inr (), d')"
  shows "d_overrides d' \<noteq> None \<or> d_inoverride d'"
proof (cases "d_overrides d \<noteq> None \<or> d_inoverride d")
  case True
  with assms show ?thesis by (auto simp: need_overrides_def)
next
  case False
  let ?g = "getVarFlag_at n env"
  have read: "d_overrides e' \<noteq> None" if "read_overrides ?g e = (Inr r, e')" "d_overrides e \<noteq> None" for e e' r
  proof -
    have "tracks settled False (read_overrides ?g) (read_overrides ?g)"
      unfolding read_overrides_def by (auto intro!: tracks_rules settled.agree_lookup split: pyval.split)
    from tracksD [OF this _ that(1), of e] that show ?thesis by (auto simp: settled_def)
  qed
  have "d_overrides e' \<noteq> None" if "override_rounds k ?g e = (Inr (), e')" for k e e'
    using that
  proof (induction k arbitrary: e)
    case 0
    then show ?case by (simp add: raiseX_def)
  next
    case (Suc k)
    from Suc.prems obtain os e1 e2 os' where "read_overrides ?g e1 = (Inr os', e2)" "d_overrides e1 = Some os"
      and r: "(if os' = os then retX () else bindX (setX (\<lambda>d. d\<lparr>d_overrides := Some os', d_overridesset := os'\<rparr>))
          (\<lambda>_. override_rounds k ?g)) e2 = (Inr (), e')"
      by (auto simp: bindX_Inr setX_def)
    with read have s: "d_overrides e2 \<noteq> None" by simp
    show ?case
    proof (cases "os' = os")
      case True
      with r s show ?thesis by (simp add: retX_def)
    next
      case False
      with r have "override_rounds k ?g (e2\<lparr>d_overrides := Some os', d_overridesset := os'\<rparr>) = (Inr (), e')"
        by (simp add: bindX_def setX_def)
      then show ?thesis by (rule Suc.IH)
    qed
  qed
  with assms False show ?thesis by (simp add: need_overrides_def)
qed

definition op_list :: "string list \<Rightarrow> pyval option" where
  "op_list as = (if as = [] then None else Some (POps (map (\<lambda>a. (PStr a, None)) as)))"

lemma pending_result:
  assumes f: "dget f k = op_list as" and n: "fst (need_overrides (getVarFlag_at n env) d) = Inr ()"
  shows "\<exists>os d'. pending_ops (getVarFlag_at n env) k f d = (Inr (map (\<lambda>a. (PStr a, None)) as, os), d') \<and>
      fst (need_overrides (getVarFlag_at n env) d') = Inr ()"
proof (cases "as = []")
  case True
  with f n show ?thesis by (simp add: pending_ops_def op_list_def retX_def)
next
  case False
  obtain d' where d': "need_overrides (getVarFlag_at n env) d = (Inr (), d')" using n by (cases "need_overrides (getVarFlag_at n env) d") simp
  from need_settles [OF d'] have "need_overrides (getVarFlag_at n env) d' = (Inr (), d')" by (auto simp: need_overrides_def)
  with False f d' show ?thesis by (simp add: pending_ops_def op_list_def bindX_def getX_def)
qed

lemma append_all: "apply_ops py_add (map (\<lambda>a. (PStr a, None)) as, os) (PStr s) = Inr (PStr (s @ concat as))"
  by (induction as arbitrary: s) (simp_all add: apply_ops_def op_applies_def)

lemma prepend_all: "apply_ops (\<lambda>v r. py_add r v) (map (\<lambda>a. (PStr a, None)) as, os) (PStr s) = Inr (PStr (concat (rev as) @ s))"
  by (induction as arbitrary: s) (simp_all add: apply_ops_def op_applies_def)

section \<open>Appending and prepending\<close>

text \<open>A name without a colon, with the operations that wait for it.\<close>

lemma first_some_None: "\<forall>x \<in> set xs. f x = None \<Longrightarrow> first_some f xs = None"
  by (induction xs) simp_all

lemma op_at_plain: "c \<noteq> colon \<Longrightarrow> op_at (c # t) = None"
  unfolding op_at_def by (rule first_some_None) (auto simp: setvar_keywords_def startswith_iff colon_def)

lemma op_at_none: "op_at [] = None"
  unfolding op_at_def by (rule first_some_None) (auto simp: setvar_keywords_def startswith_iff)

lemma split_op_plain:
  assumes "\<forall>c \<in> set v. c \<noteq> colon \<and> c \<noteq> newline" and "kw \<in> set setvar_keywords"
  shows "split_op b (v @ kw) = Some (b @ v, kw, None)"
  using assms(1)
proof (induction v arbitrary: b)
  case Nil
  have "op_at '':append'' = Some ('':append'', None)" "op_at '':prepend'' = Some ('':prepend'', None)"
    "op_at '':remove'' = Some ('':remove'', None)" by code_simp+
  then have "op_at kw = Some (kw, None)" using assms(2) by (auto simp: setvar_keywords_def)
  then show ?case by (subst split_op.simps) (simp only: append_Nil append_Nil2 option.case prod.case)
next
  case (Cons c v)
  have op: "op_at (c # v @ kw) = None" using Cons.prems by (simp add: op_at_plain)
  have "split_op b ((c # v) @ kw) = split_op (b @ [c]) (v @ kw)"
    using Cons.prems by (subst split_op.simps) (simp only: op option.case append_Cons list.case, simp)
  with Cons.IH [of "b @ [c]"] Cons.prems show ?case by simp
qed

definition simple_name :: "string \<Rightarrow> bool" where
  "simple_name v \<longleftrightarrow> v \<noteq> [] \<and> (\<forall>c \<in> set v. c \<noteq> colon \<and> c \<noteq> newline)"

lemma setvar_match_simple:
  assumes "simple_name v"
  shows "kw \<in> set setvar_keywords \<Longrightarrow> setvar_match (v @ kw) = Some (v, kw, None)" and "setvar_match v = None"
proof -
  show "kw \<in> set setvar_keywords \<Longrightarrow> setvar_match (v @ kw) = Some (v, kw, None)"
    using split_op_plain [of v kw "[]"] assms by (simp add: setvar_match_def simple_name_def)
  have "split_op b v = None" if "\<forall>c \<in> set v. c \<noteq> colon \<and> c \<noteq> newline" for b v
    using that
  proof (induction v arbitrary: b)
    case Nil
    show ?case by (subst split_op.simps) (simp add: op_at_none)
  next
    case (Cons c v)
    have op: "op_at (c # v) = None" using Cons.prems by (simp add: op_at_plain)
    have "split_op b (c # v) = split_op (b @ [c]) v"
      using Cons.prems by (subst split_op.simps) (simp only: op option.case list.case, simp)
    with Cons show ?case by simp
  qed
  then show "setvar_match v = None" using assms by (simp add: setvar_match_def simple_name_def)
qed

definition waiting :: "string \<Rightarrow> string \<Rightarrow> string list \<Rightarrow> string list \<Rightarrow> datasmart \<Rightarrow> bool" where
  "waiting var s as ps d \<longleftrightarrow>
     dget (flags_of var d) ''_content'' = Some (PStr s) \<and> dget (flags_of var d) '':append'' = op_list as \<and>
     dget (flags_of var d) '':prepend'' = op_list ps \<and> dget (flags_of var d) '':remove'' = None \<and>
     dget (d_overridedata d) var = None \<and> \<not> dhas (d_renames d) var"

lemma read_waiting:
  assumes w: "waiting var s as ps d" and e: "de_depth env = Suc n" and need: "fst (need_overrides (getVarFlag_at n env) d) = Inr ()"
  shows "fst (getVar env var False d) = Inr (PStr (concat (rev ps) @ s @ concat as))"
proof -
  let ?g = "getVarFlag_at n env" and ?f = "flags_of var d"
  from w have f: "dget ?f '':append'' = op_list as" "dget ?f '':prepend'' = op_list ps" "dget ?f '':remove'' = None"
    and l: "local_value ?f ''_content'' False = PStr s" and od: "dget (d_overridedata d) var = None"
    by (simp_all add: waiting_def local_value_def)
  from pending_result [OF f(1) need] obtain os1 d1 where p1: "pending_ops ?g '':append'' ?f d = (Inr (map (\<lambda>a. (PStr a, None)) as, os1), d1)"
    and n1: "fst (need_overrides ?g d1) = Inr ()" by blast
  from pending_result [OF f(2) n1] obtain os2 d2 where p2: "pending_ops ?g '':prepend'' ?f d1 = (Inr (map (\<lambda>a. (PStr a, None)) ps, os2), d2)"
    by blast
  have raw: "raw_value ?g ''_content'' False False ?f None d = (Inr (PStr (concat (rev ps) @ s @ concat as)), d2)"
    by (simp add: raw_value_def bindX_def p1 p2 l append_all prepend_all liftX_def)
  have rm: "removed_value env ?g ?f None None = retX None"
    by (rule ext) (simp add: removed_value_def pending_ops_def f(3) collect_removes_def known_removes_def bindX_def retX_def liftX_def setX_def)
  have "compute_parse env ?g var ''_content'' False False False False d = (Inr (PStr (concat (rev ps) @ s @ concat as), None), d2)"
    using od by (simp add: compute_parse_def bindX_def getX_def retX_def raw rm)
  then show ?thesis
    by (simp add: getVar_def getVarFlag_def getter_of_def e getVarFlag_with_def compute_flag_def bindX_def getX_def setX_def retX_def
      store_parse_def split: option.split)
qed

text \<open>A flag other than the value is read as it is.\<close>

lemma read_flag:
  assumes "flag \<noteq> ''_content''" and "flag \<noteq> []" and "de_depth env = Suc n"
  shows "getVarFlag env var flag False False False d = (Inr (case dget (flags_of var d) flag of Some v \<Rightarrow> v | None \<Rightarrow> PNone), d)"
  using assms
  by (auto simp: getVarFlag_def getter_of_def getVarFlag_with_def compute_flag_def compute_parse_def raw_value_def local_value_def bindX_def
    getX_def setX_def retX_def store_parse_def split: option.split)

lemma note_renamed_fields [simp]:
  "flags_of w (note_renamed v f x d) = flags_of w d" "front (note_renamed v f x d) = front d"
  "d_overridedata (note_renamed v f x d) = d_overridedata d"
  by (simp_all add: note_renamed_def)

lemma note_renamed_other: "w \<noteq> f \<Longrightarrow> dhas (d_renames (note_renamed v f x d)) w = dhas (d_renames d) w"
  by (simp add: note_renamed_def dhas_iff dget_dset)

lemma set_operation_result:
  assumes r: "set_operation env var base kw None (PStr a) d = (Inr (), d')" and kw: "kw \<in> {'':append'', '':prepend''}"
    and old: "dget (flags_of base d) kw = op_list as" and rn: "\<not> dhas (d_renames d) base" and e: "de_depth env = Suc n" and b: "base \<noteq> []" "base \<noteq> kw"
  shows "flags_of base d' = dset kw (POps (map (\<lambda>a. (PStr a, None)) (as @ [a]))) (flags_of base d)"
    and "dget (d_overridedata d') base = dget (d_overridedata d) base" and "\<not> dhas (d_renames d') base"
proof -
  let ?new = "POps (map (\<lambda>a. (PStr a, None)) (as @ [a]))"
  let ?d0 = "note_renamed base kw ?new (drop_cache d)"
  let ?d1 = "put_flag base kw ?new (makeShadowCopy base ?d0)"
  have nr: "\<not> dhas (d_renames ?d0) base" "\<not> dhas (d_renames (note_renamed base kw ?new d)) base"
    using rn note_renamed_other [OF b(2)] by (simp_all add: drop_cache_def)
  have get: "getVarFlag env base kw False False False d = (Inr (case op_list as of Some v \<Rightarrow> v | None \<Rightarrow> PNone), d)"
    using read_flag [of kw env n base d] kw e old by auto
  have set: "setVarFlag env base kw ?new d = (Inr (), ?d1)"
    using set_flag_at_once [OF nr(2), of env] kw by (auto simp: flag_effects_def bindX_def setX_def getX_def retX_def)
  let ?k = "\<lambda>b. if b then setvar_update_overridevars env var (PStr a) else retX ()"
  have "?k (base \<in> set (d_overridevars (setvar_update_overrides base ?d1))) (setvar_update_overrides base ?d1) = (Inr (), d')"
    using r get set by (auto simp: set_operation_def bindX_def setX_def getX_def retX_def op_list_def split: if_splits)
  moreover have "reads (?k b)" for b by (simp add: reads_overridevars) (simp add: reads_def tracks_ret)
  ultimately have keep: "d_layers d' = d_layers ?d1" "d_overridedata d' = d_overridedata (setvar_update_overrides base ?d1)" "d_renames d' = d_renames ?d1"
    using readsD by (fastforce simp: setvar_update_overrides_def)+
  have own: "own_flags base (makeShadowCopy base ?d0) = flags_of base d"
    using own_flags_front [of "makeShadowCopy base ?d0" base] by (simp add: front_shadow)
  show "flags_of base d' = dset kw ?new (flags_of base d)"
    using flags_of_layers [OF keep(1), of base] unfolding put_flag_flags own .
  show "dget (d_overridedata d') base = dget (d_overridedata d) base"
    using keep(2) note_keeps_own [OF b(1), of ?d1] by (simp add: put_flag_def drop_cache_def)
  show "\<not> dhas (d_renames d') base" using keep(3) nr(1) by (simp add: put_flag_def)
qed

definition change_var :: "denv \<Rightarrow> string \<Rightarrow> bool \<times> string \<Rightarrow> (datasmart, unit) sx" where
  "change_var env var c = (if fst c then appendVar env var (PStr (snd c)) else prependVar env var (PStr (snd c)))"

definition appended :: "(bool \<times> string) list \<Rightarrow> string list" where
  "appended cs = map snd (filter fst cs)"

definition prepended :: "(bool \<times> string) list \<Rightarrow> string list" where
  "prepended cs = map snd (filter (\<lambda>c. \<not> fst c) cs)"

lemma change_steps:
  assumes c: "setVar_parsing env (var @ kw) v ps d = (Inr (), d')" and m: "setvar_match (var @ kw) = Some (var, kw, None)"
    and rn: "\<not> dhas (d_renames d) (shortname (var @ kw))"
  shows "set_operation env (var @ kw) var kw None v (drop_cache d) = (Inr (), d')"
  using c rn unfolding setVar_parsing_def m
  by (auto simp: bindX_def getX_def setX_def retX_def raiseX_def split: if_splits)

text \<open>A simple name is its own short name, and that of its operations.\<close>

lemma shortname_simple:
  assumes "simple_name var"
  shows "shortname var = var" and "shortname (var @ '':append'') = var" and "shortname (var @ '':prepend'') = var"
    and "var \<noteq> '':append''" and "var \<noteq> '':prepend''"
proof -
  have c: "colon \<notin> set var" using assms by (auto simp: simple_name_def)
  have k: "'':append'' = colon # ''append''" "'':prepend'' = colon # ''prepend''" by (simp_all add: colon_def)
  show "shortname var = var" using c unfolding shortname_def before_first_def by (induction var) auto
  show "shortname (var @ '':append'') = var" "shortname (var @ '':prepend'') = var"
    unfolding shortname_def k by (rule first_split_unique(1) [OF c])+
  show "var \<noteq> '':append''" "var \<noteq> '':prepend''" using c unfolding k by auto
qed

lemma waiting_change:
  assumes w: "waiting var s as ps d" and c: "change_var env var c d = (Inr (), d')" and e: "de_depth env = Suc n" and v: "simple_name var"
  shows "waiting var s (as @ appended [c]) (ps @ prepended [c]) d'"
proof -
  have rn: "\<not> dhas (d_renames d) var" "\<not> dhas (d_renames (drop_cache d)) var" using w by (simp_all add: waiting_def drop_cache_def)
  have b: "var \<noteq> []" using v by (simp add: simple_name_def)
  note short = shortname_simple [OF v]
  have od: "dget (d_overridedata (drop_cache d)) var = None" using w by (simp add: waiting_def drop_cache_def)
  show ?thesis
  proof (cases "fst c")
    case True
    have m: "setvar_match (var @ '':append'') = Some (var, '':append'', None)"
      by (rule setvar_match_simple(1) [OF v]) (simp add: setvar_keywords_def)
    from c True have "setVar_parsing env (var @ '':append'') (PStr (snd c)) True d = (Inr (), d')"
      by (simp add: change_var_def appendVar_def)
    from change_steps [OF this m] rn(1) short(2)
    have s: "set_operation env (var @ '':append'') var '':append'' None (PStr (snd c)) (drop_cache d) = (Inr (), d')" by simp
    have old: "dget (flags_of var (drop_cache d)) '':append'' = op_list as" using w by (simp add: waiting_def)
    from set_operation_result [OF s _ old rn(2) e b short(4)] w od True show ?thesis
      by (simp add: waiting_def appended_def prepended_def dget_dset op_list_def)
  next
    case False
    have m: "setvar_match (var @ '':prepend'') = Some (var, '':prepend'', None)"
      by (rule setvar_match_simple(1) [OF v]) (simp add: setvar_keywords_def)
    from c False have "setVar_parsing env (var @ '':prepend'') (PStr (snd c)) True d = (Inr (), d')"
      by (simp add: change_var_def prependVar_def)
    from change_steps [OF this m] rn(1) short(3)
    have s: "set_operation env (var @ '':prepend'') var '':prepend'' None (PStr (snd c)) (drop_cache d) = (Inr (), d')" by simp
    have old: "dget (flags_of var (drop_cache d)) '':prepend'' = op_list ps" using w by (simp add: waiting_def)
    from set_operation_result [OF s _ old rn(2) e b short(5)] w od False show ?thesis
      by (simp add: waiting_def appended_def prepended_def dget_dset op_list_def)
  qed
qed

lemma waiting_changes:
  "waiting var s as ps d \<Longrightarrow> forX (change_var env var) cs d = (Inr (), d') \<Longrightarrow> de_depth env = Suc n \<Longrightarrow> simple_name var \<Longrightarrow>
    waiting var s (as @ appended cs) (ps @ prepended cs) d'"
proof (induction cs arbitrary: as ps d)
  case Nil
  then show ?case by (simp add: appended_def prepended_def retX_def)
next
  case (Cons c cs)
  from Cons.prems(2) obtain d1 where c: "change_var env var c d = (Inr (), d1)" and r: "forX (change_var env var) cs d1 = (Inr (), d')"
    by (auto simp: bindX_Inr)
  from Cons.IH [OF waiting_change [OF Cons.prems(1) c Cons.prems(3,4)] r Cons.prems(3,4)] show ?case
    by (cases "fst c") (simp_all add: appended_def prepended_def)
qed

lemma waiting_set:
  assumes set: "setVar env var (PStr s) d = (Inr (), d')" and v: "simple_name var" and rn: "\<not> dhas (d_renames d) var"
  shows "waiting var s [] [] d'"
proof -
  have m: "setvar_match var = None" and n: "var \<noteq> []" using setvar_match_simple(2) [OF v] v by (simp_all add: simple_name_def)
  from set rn have "set_plain env var (PStr s) False (drop_cache d) = (Inr (), d')"
    unfolding setVar_def setVar_parsing_def m shortname_simple(1) [OF v]
    by (auto simp: bindX_def getX_def setX_def retX_def raiseX_def split: if_splits)
  from set_plain_result [OF this n] rn show ?thesis
    by (auto simp: waiting_def op_list_def dget_dset setvar_keywords_def drop_cache_def)
qed

text \<open>C19. Values that are appended and prepended gather around the value: after an assignment and any sequence of
  \<^verbatim>\<open>appendVar\<close> and \<^verbatim>\<open>prependVar\<close>, the variable reads as what was prepended, the latest first, the value,
  and what was appended, in order. (The overrides can be read; the variable, whose name has no overrides or operations,
  is not among those renamed.)\<close>

theorem changes_gather:
  assumes "setVar env var (PStr s) d = (Inr (), d1)" and "forX (change_var env var) cs d1 = (Inr (), d2)"
    and "simple_name var" and "\<not> dhas (d_renames d) var" and "de_depth env = Suc n"
    and "fst (need_overrides (getVarFlag_at n env) d2) = Inr ()"
  shows "fst (getVar env var False d2) = Inr (PStr (concat (rev (prepended cs)) @ s @ concat (appended cs)))"
proof -
  have "waiting var s (appended cs) (prepended cs) d2"
    using waiting_changes [OF waiting_set [OF assms(1,3,4)] assms(2,5,3)] by simp
  from read_waiting [OF this assms(5,6)] show ?thesis .
qed

lemma changes_gather_witness:
  "fst (getVar sample_env ''B'' False
      (snd (forX (change_var sample_env ''B'') [(True, '' c''), (False, ''a ''), (True, '' d''), (False, ''0 '')]
        (snd (setVar sample_env ''B'' (PStr ''b'') sample_store))))) = Inr (PStr ''0 a b c d'')"
proof -
  let ?cs = "[(True, '' c''), (False, ''a ''), (True, '' d''), (False, ''0 '')]"
  let ?d1 = "snd (setVar sample_env ''B'' (PStr ''b'') sample_store)"
  let ?d2 = "snd (forX (change_var sample_env ''B'') ?cs ?d1)"
  have "fst (setVar sample_env ''B'' (PStr ''b'') sample_store) = Inr ()" by code_simp
  then have one: "setVar sample_env ''B'' (PStr ''b'') sample_store = (Inr (), ?d1)" by (simp add: prod_eq_iff)
  have "fst (forX (change_var sample_env ''B'') ?cs ?d1) = Inr ()" by code_simp
  then have two: "forX (change_var sample_env ''B'') ?cs ?d1 = (Inr (), ?d2)" by (simp only: prod_eq_iff fst_conv snd_conv)
  have "fst (getVar sample_env ''B'' False ?d2) = Inr (PStr (concat (rev (prepended ?cs)) @ ''b'' @ concat (appended ?cs)))"
  proof (rule changes_gather [OF one two])
    show "simple_name ''B''" "\<not> dhas (d_renames sample_store) ''B''" "fst (need_overrides (getVarFlag_at 9 sample_env) ?d2) = Inr ()"
      by code_simp+
    show "de_depth sample_env = Suc 9" by (simp add: sample_env_def)
  qed
  also have "concat (rev (prepended ?cs)) @ ''b'' @ concat (appended ?cs) = ''0 a b c d''" by code_simp
  finally show ?thesis .
qed

section \<open>Which override applies\<close>

text \<open>Overrides without colons need one pass.\<close>

lemma endswith_colon: "colon \<notin> set a \<Longrightarrow> \<not> endswith a (colon # o')"
  by (auto simp: endswith_iff)

lemma resolve_simple_keys:
  "\<forall>a \<in> set ks. colon \<notin> set a \<Longrightarrow>
    fold (resolve_key o') ks (active, m, md) =
      (if o' \<in> set ks then case dget active o' of Some t \<Rightarrow> (ddel o' active, Some t, md) | None \<Rightarrow> (active, m, md)
       else (active, m, md))"
proof (induction ks arbitrary: active m)
  case (Cons a ks)
  show ?case
  proof (cases "a = o'")
    case True
    have "resolve_key o' a (active, m, md) = (case dget active o' of Some t \<Rightarrow> (ddel o' active, Some t, md) | None \<Rightarrow> (active, m, md))"
      using Cons.prems True endswith_colon [of a o'] by (simp add: resolve_key_def split: option.split)
    then show ?thesis using Cons True by (auto simp: delete_conv' split: option.split)
  next
    case False
    have "resolve_key o' a (active, m, md) = (active, m, md)"
      using Cons.prems False endswith_colon [of a o'] by (simp add: resolve_key_def split: option.split)
    then show ?thesis using Cons False by simp
  qed
qed simp

text \<open>An override that is set more than once counts where it stands first, for it is deleted when it is found.\<close>

definition firsts :: "string list \<Rightarrow> string list" where
  "firsts os = rev (remdups (rev os))"

lemma firsts_snoc: "firsts (os @ [x]) = (if x \<in> set os then firsts os else firsts os @ [x])"
  by (simp add: firsts_def)

lemma firsts_set [simp]: "set (firsts os) = set os"
  by (simp add: firsts_def)

lemma firsts_append: "firsts (xs @ ys) = firsts xs @ filter (\<lambda>y. y \<notin> set xs) (firsts ys)"
  by (induction ys rule: rev_induct) (auto simp: firsts_snoc simp flip: append_assoc, simp add: firsts_def)

definition last_active :: "string list \<Rightarrow> (string, string) odict \<Rightarrow> string option \<Rightarrow> string option" where
  "last_active os active m =
     (let found = filter (dhas active) (firsts os) in if found = [] then m else dget active (last found))"

lemma resolve_simple_pass:
  assumes "\<forall>a \<in> set (dkeys active). colon \<notin> set a"
  shows "fold (\<lambda>o' st. fold (resolve_key o') (dkeys (fst st)) st) os (active, m, md)
      = (fold (\<lambda>o' a. if dhas a o' then ddel o' a else a) os active, last_active os active m, md)"
proof (induction os rule: rev_induct)
  case Nil
  then show ?case by (simp add: last_active_def firsts_def)
next
  case (snoc o' os)
  let ?del = "fold (\<lambda>o' a. if dhas a o' then ddel o' a else a)"
  have del: "dget (?del xs a) k = (if k \<in> set xs then None else dget a k)" for xs k and a :: "(string, string) odict"
    by (induction xs arbitrary: a) (auto simp: dhas_iff delete_conv')
  have keys: "set (dkeys (?del xs a)) \<subseteq> set (dkeys a)" for xs and a :: "(string, string) odict"
  proof
    fix k assume "k \<in> set (dkeys (?del xs a))"
    then have "dget (?del xs a) k \<noteq> None" by (simp add: map_of_eq_None_iff)
    then show "k \<in> set (dkeys a)" by (force simp: del dest: map_of_SomeD split: if_splits)
  qed
  have "fold (resolve_key o') (dkeys (?del os active)) (?del os active, last_active os active m, md)
      = (?del [o'] (?del os active), last_active (os @ [o']) active m, md)"
  proof -
    have free: "\<forall>a \<in> set (dkeys (?del os active)). colon \<notin> set a" using keys assms by blast
    have o': "dget (?del os active) o' = (if o' \<in> set os then None else dget active o')" by (simp add: del)
    show ?thesis
    proof (cases "dget (?del os active) o'")
      case None
      then show ?thesis using resolve_simple_keys [OF free, of o' "?del os active"] o'
        by (auto simp: dhas_iff last_active_def firsts_snoc split: if_splits)
    next
      case (Some t)
      with o' have "(o', t) \<in> set (?del os active)" by (intro map_of_SomeD) simp
      then have "o' \<in> set (dkeys (?del os active))" by force
      with Some o' show ?thesis using resolve_simple_keys [OF free, of o' "?del os active"]
        by (auto simp: dhas_iff last_active_def firsts_snoc split: if_splits)
    qed
  qed
  note step = this
  have IH: "fold (\<lambda>o' st. fold (resolve_key o') (dkeys (fst st)) st) os (active, m, md) = (?del os active, last_active os active m, md)"
    by (rule snoc.IH)
  show ?case unfolding fold_append comp_def IH unfolding fold_simps fst_conv
    using step unfolding fold_simps .
qed

lemma resolve_simple:
  assumes "\<forall>a \<in> set (dkeys active). colon \<notin> set a"
  shows "resolve_overrides os active m = last_active os active m"
  by (subst resolve_overrides.simps) (simp add: resolve_pass_def resolve_simple_pass [OF assms])

lemma active_simple:
  assumes "\<forall>ro \<in> set od. colon \<notin> set (snd ro)" and "distinct (map snd od)"
  shows "(m, o') \<in> set od \<Longrightarrow> o' \<in> set os \<Longrightarrow> dget (active_overrides os od) o' = Some m"
    and "dget (active_overrides os od) o' = Some m \<Longrightarrow> (m, o') \<in> set od \<and> o' \<in> set os"
proof -
  let ?f = "\<lambda>ro a. if override_applies os (snd ro) then dset (snd ro) (fst ro) a else a"
  have other: "dget (fold ?f od a) k = dget a k" if "k \<notin> snd ` set od" for od a k
    using that by (induction od arbitrary: a) (auto simp: dget_dset)
  have here: "dget (fold ?f od a) o' = Some m" if "(m, o') \<in> set od" "o' \<in> set os" "distinct (map snd od)" for od a
    using that
  proof (induction od arbitrary: a)
    case (Cons ro od)
    show ?case
    proof (cases "ro = (m, o')")
      case True
      with Cons.prems have "o' \<notin> snd ` set od" by auto
      moreover have "override_applies os o'" using Cons.prems(2) by (simp add: override_applies_def)
      ultimately show ?thesis using True by (simp add: other dget_dset)
    next
      case False
      with Cons show ?thesis by auto
    qed
  qed simp
  then show "(m, o') \<in> set od \<Longrightarrow> o' \<in> set os \<Longrightarrow> dget (active_overrides os od) o' = Some m"
    using assms(2) by (simp add: active_overrides_def)
  assume a: "dget (active_overrides os od) o' = Some m"
  have "dget (fold ?f od a) o' = Some m \<longrightarrow> dget a o' = Some m \<or> ((m, o') \<in> set od \<and> override_applies os o')" for od a
  proof (induction od arbitrary: a)
    case (Cons ro od)
    then show ?case by (cases ro) (fastforce simp: dget_dset split: if_splits)
  qed simp
  from this [of od "[]"] a have "(m, o') \<in> set od \<and> override_applies os o'" by (simp add: active_overrides_def)
  with assms(1) show "(m, o') \<in> set od \<and> o' \<in> set os" by (auto simp: override_applies_def)
qed

lemma last_override:
  assumes "\<forall>ro \<in> set od. colon \<notin> set (snd ro)" and "distinct (map snd od)" and "o' \<notin> set xs"
    and "(m, o') \<in> set od" and "\<forall>y \<in> set ys. y \<in> snd ` set od \<longrightarrow> y \<in> set (xs @ [o'])"
  shows "resolve_overrides (xs @ o' # ys) (active_overrides (xs @ o' # ys) od) None = Some m"
proof -
  let ?os = "xs @ o' # ys"
  let ?a = "active_overrides ?os od"
  have o': "dget ?a o' = Some m" by (rule active_simple(1) [OF assms(1,2,4)]) simp
  have "colon \<notin> set a" if "a \<in> set (dkeys ?a)" for a
  proof -
    from that obtain t where "dget ?a a = Some t" by (metis map_of_eq_None_iff not_None_eq image_set)
    from active_simple(2) [OF assms(1,2) this] assms(1) show ?thesis by fastforce
  qed
  then have r: "resolve_overrides ?os ?a None = last_active ?os ?a None"
    by (intro resolve_simple) blast
  have "\<not> (y \<notin> set (xs @ [o']) \<and> dhas ?a y)" if "y \<in> set ys" for y
    using that assms(5) active_simple(2) [OF assms(1,2), of ?os y] by (force simp: dhas_iff)
  then have "filter (dhas ?a) (filter (\<lambda>y. y \<notin> set (xs @ [o'])) (firsts ys)) = []" by (auto simp: filter_empty_conv)
  then have "filter (dhas ?a) (firsts ?os) = filter (dhas ?a) (firsts xs) @ [o']"
    using o' assms(3) firsts_append [of "xs @ [o']" ys] by (simp add: dhas_iff firsts_snoc)
  then show ?thesis using o' by (simp add: r last_active_def)
qed

text \<open>C20. The last override wins: of the overrides of a variable (single ones, without colons, each with one value)
  the one that is set last in \<^verbatim>\<open>OVERRIDES\<close> decides which variable is read instead. An override that
  \<^verbatim>\<open>OVERRIDES\<close> repeats counts where it stands first: with \<^verbatim>\<open>a:b:a\<close> it is \<^verbatim>\<open>b\<close> that wins.\<close>

theorem last_override_wins:
  assumes "d_overrides d = Some (xs @ o' # ys)" and "d_overridesset d = xs @ o' # ys" and "o' \<notin> set xs"
    and "(m, o') \<in> set od" and "m \<noteq> []" and "\<forall>y \<in> set ys. y \<in> snd ` set od \<longrightarrow> y \<in> set (xs @ [o'])"
    and "\<forall>ro \<in> set od. colon \<notin> set (snd ro)" and "distinct (map snd od)"
  shows "override_value get od d = bindX (get m ''_content'' False False False True) (\<lambda>v. retX (Some (m, v))) d"
  using assms(1,2,5) last_override [OF assms(7,8,3,4,6)]
  by (simp add: override_value_def need_overrides_def bindX_def [of "need_overrides get"] bindX_def [of "getX _"] getX_def)

lemma last_override_wins_witness:
  "override_value (getVarFlag_at 9 sample_env) [(''A:o'', ''o''), (''A:q'', ''q''), (''A:p'', ''p'')] sample_store
    = bindX (getVarFlag_at 9 sample_env ''A:o'' ''_content'' False False False True) (\<lambda>v. retX (Some (''A:o'', v))) sample_store"
  by (rule last_override_wins [of _ "[''p'']" "''o''" "[]"]) code_simp+

section \<open>Where copies show\<close>

text \<open>\<^verbatim>\<open>delVarFlags\<close> deletes the entry of the variable in the first dictionary. When the variable has no value of
  its own, the flags of the store that was copied reappear.\<close>

theorem delVarFlags_on_copy:
  assumes "flags_of var d \<noteq> []" and "dget (flags_of var d) ''_content'' = None"
  shows "flags_of var (delVarFlags var (createCopy d)) = flags_of var d \<and> flags_of var (delVarFlags var (flatten d)) = []"
proof -
  obtain f where f: "findVar var d = Some f" "flags_of var d = f" "f \<noteq> []"
    using assms(1) by (auto simp: flags_of_def split: option.splits)
  let ?c = "drop_cache (createCopy d)"
  have "findVar var ?c = Some f" "front ?c = []" using f(1) by (simp_all add: findVar_def createCopy_def drop_cache_def front_def)
  then have c: "makeShadowCopy var ?c = put_var var f ?c" using f(3) by (simp add: makeShadowCopy_def dhas_def)
  have "dget (own_flags var (put_var var f ?c)) ''_content'' = None" using assms(2) f by (simp add: own_flags_def)
  then have "delVarFlags var (createCopy d) = set_front (ddel var (front (put_var var f ?c))) (put_var var f ?c)"
    by (simp add: delVarFlags_def c)
  then have one: "flags_of var (delVarFlags var (createCopy d)) = flags_of var d"
    by (simp add: set_front_def put_var_def flags_of_def findVar_def createCopy_def drop_cache_def front_def delete_conv')
  let ?m = "drop_cache (flatten d)"
  have m: "dget (front ?m) var = Some f" using f(1)
    by (simp add: flatten_def drop_cache_def front_def merge_layers_find findVar_def)
  then have "makeShadowCopy var ?m = ?m" by (simp add: makeShadowCopy_def dhas_iff)
  moreover have "dget (own_flags var ?m) ''_content'' = None" using m assms(2) f by (simp add: own_flags_def dget_default_def)
  ultimately have "delVarFlags var (flatten d) = set_front (ddel var (front ?m)) ?m" by (simp add: delVarFlags_def)
  then have "flags_of var (delVarFlags var (flatten d)) = []"
    by (simp add: set_front_def flags_of_def findVar_def flatten_def drop_cache_def front_def delete_conv')
  with one show ?thesis by simp
qed

lemma delVarFlags_on_copy_witness:
  "flags_of ''D'' (delVarFlags ''D'' (createCopy sample_store)) = [(''doc'', PStr ''d'')] \<and>
   flags_of ''D'' (delVarFlags ''D'' (flatten sample_store)) = []"
proof -
  have "flags_of ''D'' sample_store = [(''doc'', PStr ''d'')]" by code_simp
  then show ?thesis using delVarFlags_on_copy [of "''D''" sample_store] by simp
qed

section \<open>Where the overrides are stale\<close>

text \<open>The overrides are only read again when a variable is set that \<^verbatim>\<open>OVERRIDES\<close> refers to, or that
  one refers to in its unexpanded value one level below: a change two levels below leaves them stale. \<^verbatim>\<open>V\<close> is still
  replaced by \<^verbatim>\<open>V:x\<close> while \<^verbatim>\<open>OVERRIDES\<close> reads as \<^verbatim>\<open>y\<close>.\<close>

theorem stale_overrides:
  "drop 8 (run_ops sample_env
     [SetVar ''B'' (PStr ''x''), SetVar ''A'' (PStr ''${B}''), SetVar ''OVERRIDES'' (PStr ''${A}''),
      SetVar ''V'' (PStr ''u''), SetVar ''V:x'' (PStr ''vx''), SetVar ''V:y'' (PStr ''vy''), GetVar ''V'' True,
      SetVar ''B'' (PStr ''y''), GetVar ''OVERRIDES'' True, GetVar ''V'' True] new_store)
   = [Inr (Value (PStr ''y'')), Inr (Value (PStr ''vx''))]"
  by code_simp


section \<open>Where an override is repeated\<close>

text \<open>A repeated override counts where it stands first, although its last place should give it precedence over what stands
  between.\<close>

theorem repeated_override:
  "drop 4 (run_ops sample_env
     [SetVar ''OVERRIDES'' (PStr ''a:b:a''), SetVar ''V'' (PStr ''u''), SetVar ''V:a'' (PStr ''va''), SetVar ''V:b'' (PStr ''vb''),
      GetVar ''V'' True, SetVar ''OVERRIDES'' (PStr ''b:a''), GetVar ''V'' True] new_store)
   = [Inr (Value (PStr ''vb'')), Inr Finished, Inr (Value (PStr ''va''))]"
  by code_simp

end
