(* ===== verification/ConfLine.thy ===== *)
theory ConfLine
  imports Expansion
begin

text \<open>
  The lines of configuration files: the regular expressions of \<^verbatim>\<open>parse_py/ConfHandler.py\<close>. A line has no line ends,
  and the searches below try the alternatives in the order of the regular expressions.
\<close>

section \<open>Assignments\<close>

datatype assign_op = OpSet | OpImmediate | OpDefault | OpQues | OpAppend | OpPrepend | OpPredot | OpPostdot

fun op_text :: "assign_op \<Rightarrow> string" where
  "op_text OpSet = ''=''"
| "op_text OpImmediate = '':=''"
| "op_text OpDefault = ''??=''"
| "op_text OpQues = ''?=''"
| "op_text OpAppend = ''+=''"
| "op_text OpPrepend = ''=+''"
| "op_text OpPredot = ''=.''"
| "op_text OpPostdot = ''.=''"

text \<open>The order of the alternatives.\<close>

definition assign_ops :: "assign_op list" where
  "assign_ops = [OpImmediate, OpDefault, OpQues, OpAppend, OpPrepend, OpPredot, OpPostdot, OpSet]"

text \<open>What a line assigns; \<open>cl_export\<close> is the word before the variable.\<close>

record config_line =
  cl_export :: bool
  cl_var :: string
  cl_flag :: "string option"
  cl_op :: assign_op
  cl_value :: string

definition name_char :: "char \<Rightarrow> bool" where
  "name_char c \<longleftrightarrow> is_letter c \<or> is_digit c \<or> c \<in> set ''-_+.${}/~''"

definition var_char :: "char \<Rightarrow> bool" where
  "var_char c \<longleftrightarrow> name_char c \<or> c = CHR '':''"

definition flag_first :: "char \<Rightarrow> bool" where
  "flag_first c \<longleftrightarrow> is_letter c \<or> is_digit c \<or> c \<in> set ''-_+.''"

definition flag_char :: "char \<Rightarrow> bool" where
  "flag_char c \<longleftrightarrow> flag_first c \<or> c = CHR ''@''"

definition is_quote :: "char \<Rightarrow> bool" where
  "is_quote c \<longleftrightarrow> c = CHR 0x27 \<or> c = CHR 0x22"

text \<open>
  The value stands between two equal quotes, the second at the end of the line. The two expressions that look ahead refuse a
  text with three quotes of the kind that encloses it.
\<close>

definition value_match :: "string \<Rightarrow> string option" where
  "value_match s =
     (case s of
        [] \<Rightarrow> None
      | q # r \<Rightarrow>
          if is_quote q \<and> r \<noteq> [] \<and> last r = q \<and> newline \<notin> set r \<and> length (filter (\<lambda>c. c = q) s) \<noteq> 3
          then Some (butlast r) else None)"

definition op_match :: "string \<Rightarrow> (assign_op \<times> string) option" where
  "op_match s =
     (let t = dropWhile is_space s
      in first_some (\<lambda>a. if startswith t (op_text a)
                         then map_option (Pair a) (value_match (dropWhile is_space (drop (length (op_text a)) t)))
                         else None) assign_ops)"

text \<open>A flag in brackets, then the operator.\<close>

definition tail_match :: "string \<Rightarrow> (string option \<times> assign_op \<times> string) option" where
  "tail_match s =
     (case s of
        [] \<Rightarrow> None
      | c # r \<Rightarrow>
          if c = CHR ''[''
          then (let f = takeWhile flag_char r; t = dropWhile flag_char r
                in if f \<noteq> [] \<and> flag_first (hd f) \<and> t \<noteq> [] \<and> hd t = CHR '']''
                   then map_option (Pair (Some f)) (op_match (tl t)) else None)
          else map_option (Pair None) (op_match s))"

text \<open>The shortest name after which the line matches; \<open>v\<close> is what was tried so far.\<close>

fun var_match :: "string \<Rightarrow> string \<Rightarrow> (string \<times> string option \<times> assign_op \<times> string) option" where
  "var_match v [] = None"
| "var_match v (c # cs) =
     (case if v = [] then None else tail_match (c # cs) of
        Some x \<Rightarrow> Some (v, x)
      | None \<Rightarrow> if var_char c then var_match (v @ [c]) cs else None)"

definition skip_word :: "string \<Rightarrow> string \<Rightarrow> string option" where
  "skip_word w s =
     (let r = drop (length w) s
      in if startswith s w \<and> r \<noteq> [] \<and> is_space (hd r) then Some (dropWhile is_space r) else None)"

text \<open>\<^verbatim>\<open>__config_regexp__\<close>.\<close>

definition config_match :: "string \<Rightarrow> config_line option" where
  "config_match s =
     (let line = \<lambda>e (v, f, a, x). \<lparr>cl_export = e, cl_var = v, cl_flag = f, cl_op = a, cl_value = x\<rparr>
      in case Option.bind (skip_word ''export'' s) (var_match []) of
           Some m \<Rightarrow> Some (line True m)
         | None \<Rightarrow> map_option (line False) (var_match [] s))"

section \<open>Other lines\<close>

text \<open>
  A word, blanks, and the rest of the line, of at least one character: when only blanks follow, the last of them is the
  rest.
\<close>

definition rest_after :: "string \<Rightarrow> string \<Rightarrow> string option" where
  "rest_after w s =
     (let r = drop (length w) s; t = dropWhile is_space r; n = length (takeWhile is_space r)
      in if \<not> startswith s w \<or> n = 0 then None
         else if t \<noteq> [] then Some t
         else if n = 1 then None else Some [last r])"

definition all_name_chars :: "string \<Rightarrow> bool" where
  "all_name_chars s \<longleftrightarrow> s \<noteq> [] \<and> (\<forall>c \<in> set s. name_char c)"

text \<open>\<^verbatim>\<open>__export_regexp__\<close> and \<^verbatim>\<open>__unset_regexp__\<close>: a name and nothing else.\<close>

definition name_after :: "string \<Rightarrow> string \<Rightarrow> string option" where
  "name_after w s = (case skip_word w s of Some t \<Rightarrow> if all_name_chars t then Some t else None | None \<Rightarrow> None)"

text \<open>\<^verbatim>\<open>__unset_flag_regexp__\<close>: a flag of two characters or more.\<close>

definition unset_flag_match :: "string \<Rightarrow> (string \<times> string) option" where
  "unset_flag_match s =
     (case skip_word ''unset'' s of
        None \<Rightarrow> None
      | Some t \<Rightarrow>
          (let v = takeWhile name_char t; r = dropWhile name_char t; f = butlast (tl r)
           in if v \<noteq> [] \<and> length r > 3 \<and> hd r = CHR ''['' \<and> last r = CHR '']'' \<and> flag_first (hd f) \<and> (\<forall>c \<in> set f. flag_char c)
              then Some (v, f) else None))"

text \<open>\<^verbatim>\<open>__addpylib_regexp__\<close>: cut at the last blank that something follows.\<close>

fun cut_last_space :: "string \<Rightarrow> (string \<times> string) option" where
  "cut_last_space [] = None"
| "cut_last_space (c # cs) =
     (case cut_last_space cs of
        Some (a, b) \<Rightarrow> Some (c # a, b)
      | None \<Rightarrow> if cs \<noteq> [] \<and> is_space (hd cs) \<and> tl cs \<noteq> [] then Some ([c], tl cs) else None)"

definition addpylib_match :: "string \<Rightarrow> (string \<times> string) option" where
  "addpylib_match s =
     (let r = drop 8 s; n = length (takeWhile is_space r)
      in if startswith s ''addpylib'' then first_some (\<lambda>i. cut_last_space (drop i r)) (rev [1..<Suc n]) else None)"

section \<open>Printing an assignment\<close>

definition print_config :: "char \<Rightarrow> config_line \<Rightarrow> string" where
  "print_config q c =
     (if cl_export c then ''export '' else []) @ cl_var c @
     (case cl_flag c of None \<Rightarrow> [] | Some f \<Rightarrow> ''['' @ f @ '']'') @ '' '' @ op_text (cl_op c) @ '' '' @ q # cl_value c @ [q]"

definition good_config :: "char \<Rightarrow> config_line \<Rightarrow> bool" where
  "good_config q c \<longleftrightarrow>
     cl_var c \<noteq> [] \<and> (\<forall>x \<in> set (cl_var c). var_char x) \<and>
     (case cl_flag c of None \<Rightarrow> True | Some f \<Rightarrow> f \<noteq> [] \<and> flag_first (hd f) \<and> (\<forall>x \<in> set f. flag_char x)) \<and>
     is_quote q \<and> q \<notin> set (cl_value c) \<and> newline \<notin> set (cl_value c) \<and>
     (cl_export c \<or> cl_var c \<noteq> ''export'' \<or> cl_flag c \<noteq> None \<or> cl_op c \<in> {OpSet, OpDefault, OpQues, OpPrepend, OpPredot})"

section \<open>Reading what was printed\<close>

text \<open>A lemma for each part of a line.\<close>

lemma first_some_append: "first_some f (xs @ ys) = (case first_some f xs of Some y \<Rightarrow> Some y | None \<Rightarrow> first_some f ys)"
  by (induction xs) (auto split: option.split)

lemma not_space_chars:
  "is_quote c \<Longrightarrow> \<not> is_space c" "var_char c \<Longrightarrow> \<not> is_space c"
proof -
  have "\<not> is_space (CHR 0x27)" "\<not> is_space (CHR 0x22)" by code_simp+
  then show "is_quote c \<Longrightarrow> \<not> is_space c" by (auto simp: is_quote_def)
  have letters: "is_letter c \<or> is_digit c \<Longrightarrow> \<not> is_space c"
    by (auto simp: is_letter_def is_lower_def is_upper_def is_digit_def is_space_def Let_def)
  have "\<forall>c \<in> set ''-_+.${}/~:''. \<not> is_space c" by code_simp
  with letters show "var_char c \<Longrightarrow> \<not> is_space c" by (auto simp: var_char_def name_char_def)
qed

lemma var_char_facts:
  "var_char c \<Longrightarrow> c \<noteq> CHR ''[''" "var_char c \<Longrightarrow> c \<noteq> CHR ''=''" "var_char c \<Longrightarrow> c \<noteq> CHR ''?''" "var_char c \<Longrightarrow> c \<noteq> CHR '' ''"
proof -
  have "\<not> var_char (CHR ''['')" "\<not> var_char (CHR ''='')" "\<not> var_char (CHR ''?'')" "\<not> var_char (CHR '' '')" by code_simp+
  then show "var_char c \<Longrightarrow> c \<noteq> CHR ''[''" "var_char c \<Longrightarrow> c \<noteq> CHR ''=''" "var_char c \<Longrightarrow> c \<noteq> CHR ''?''" "var_char c \<Longrightarrow> c \<noteq> CHR '' ''"
    by auto
qed

lemma value_print:
  assumes "is_quote q" and "q \<notin> set v" and "newline \<notin> set v"
  shows "value_match (q # v @ [q]) = Some v"
proof -
  have "filter (\<lambda>c. c = q) v = []" using assms(2) by (auto simp: filter_empty_conv)
  moreover have "q \<noteq> newline" using assms(1) by (auto simp: is_quote_def)
  ultimately show ?thesis using assms by (simp add: value_match_def)
qed

lemma op_print:
  assumes "is_quote q" and "q \<notin> set v" and "newline \<notin> set v"
  shows "op_match ('' '' @ op_text a @ '' '' @ q # v @ [q]) = Some (a, v)"
proof -
  have sp: "is_space (CHR '' '')" "\<not> is_space (CHR '':'')" "\<not> is_space (CHR ''?'')" "\<not> is_space (CHR ''+'')" "\<not> is_space (CHR ''.'')"
    "\<not> is_space (CHR ''='')" by code_simp+
  note q = not_space_chars(1) [OF assms(1)] value_print [OF assms]
  show ?thesis by (cases a) (simp_all add: op_match_def assign_ops_def startswith_def sp q)
qed

lemma flag_print:
  assumes "f \<noteq> []" and "flag_first (hd f)" and "\<forall>x \<in> set f. flag_char x"
  shows "tail_match (''['' @ f @ '']'' @ t) = map_option (Pair (Some f)) (op_match t)"
proof -
  have b: "\<not> flag_char (CHR '']'')" by code_simp
  have "takeWhile flag_char (f @ '']'' @ t) = f" "dropWhile flag_char (f @ '']'' @ t) = '']'' @ t"
    using assms(3) b by (simp_all add: takeWhile_append2 dropWhile_append2)
  with assms b show ?thesis by (simp add: tail_match_def Let_def)
qed

text \<open>No operator begins inside a name.\<close>

lemma inside_name:
  assumes "\<forall>x \<in> set p. var_char x" and "p \<noteq> []" and "t \<noteq> []" and "hd t \<noteq> CHR ''=''"
  shows "tail_match (p @ t) = None"
proof -
  obtain c p' where p: "p = c # p'" using assms(2) by (cases p) auto
  have c: "var_char c" using assms(1) p by simp
  have two: "p' @ t \<noteq> []" "hd (p' @ t) \<noteq> CHR ''=''" using assms(1,3,4) p var_char_facts(2) by (cases p'; force)+
  then obtain x r where x: "p' @ t = x # r" "x \<noteq> CHR ''=''" by (cases "p' @ t") auto
  have "first_some (\<lambda>a. if startswith (c # x # r) (op_text a)
      then map_option (Pair a) (value_match (dropWhile is_space (drop (length (op_text a)) (c # x # r)))) else None) assign_ops = None"
    using var_char_facts [OF c] x(2) by (auto simp: assign_ops_def startswith_def)
  then show ?thesis using var_char_facts(1) [OF c] not_space_chars(2) [OF c] x(1) by (simp add: p tail_match_def op_match_def Let_def)
qed

lemma name_print:
  assumes "\<forall>x \<in> set p. var_char x" and "v @ p \<noteq> []" and "t \<noteq> []" and "hd t \<noteq> CHR ''=''" and "tail_match t = Some x"
  shows "var_match v (p @ t) = Some (v @ p, x)"
  using assms(1,2)
proof (induction p arbitrary: v)
  case Nil
  with assms(3,5) show ?case by (cases t) auto
next
  case (Cons c p)
  have "tail_match ((c # p) @ t) = None" by (rule inside_name [OF Cons.prems(1) _ assms(3,4)]) simp
  with Cons show ?case by simp
qed

definition print_tail :: "char \<Rightarrow> config_line \<Rightarrow> string" where
  "print_tail q c =
     (case cl_flag c of None \<Rightarrow> [] | Some f \<Rightarrow> ''['' @ f @ '']'') @ '' '' @ op_text (cl_op c) @ '' '' @ q # cl_value c @ [q]"

lemma tail_print:
  assumes "good_config q c"
  shows "tail_match (print_tail q c) = Some (cl_flag c, cl_op c, cl_value c)" and "print_tail q c \<noteq> []"
    and "hd (print_tail q c) \<in> {CHR '' '', CHR ''[''}"
proof -
  from assms have v: "is_quote q" "q \<notin> set (cl_value c)" "newline \<notin> set (cl_value c)" by (simp_all add: good_config_def)
  show "tail_match (print_tail q c) = Some (cl_flag c, cl_op c, cl_value c)"
  proof (cases "cl_flag c")
    case None
    then show ?thesis using op_print [OF v, of "cl_op c"] by (simp add: print_tail_def tail_match_def)
  next
    case (Some f)
    with assms have "f \<noteq> []" "flag_first (hd f)" "\<forall>x \<in> set f. flag_char x" by (simp_all add: good_config_def)
    from flag_print [OF this, of "'' '' @ op_text (cl_op c) @ '' '' @ q # cl_value c @ [q]"] op_print [OF v, of "cl_op c"] Some
    show ?thesis by (simp add: print_tail_def)
  qed
  show "print_tail q c \<noteq> []" "hd (print_tail q c) \<in> {CHR '' '', CHR ''[''}"
    by (auto simp: print_tail_def split: option.split)
qed

lemma name_tail_print:
  assumes "good_config q c"
  shows "var_match [] (cl_var c @ print_tail q c) = Some (cl_var c, cl_flag c, cl_op c, cl_value c)"
proof -
  have "hd (print_tail q c) \<noteq> CHR ''=''" using tail_print(3) [OF assms] by auto
  from name_print [OF _ _ tail_print(2) [OF assms] this tail_print(1) [OF assms], of "cl_var c" "[]"] assms
  show ?thesis by (simp add: good_config_def)
qed

text \<open>A line that does not begin with the word for exports is not taken for one.\<close>

lemma no_export_print:
  assumes g: "good_config q c" and e: "\<not> cl_export c"
  shows "Option.bind (skip_word ''export'' (cl_var c @ print_tail q c)) (var_match []) = None"
proof (cases "skip_word ''export'' (cl_var c @ print_tail q c)")
  case (Some t)
  let ?v = "cl_var c" and ?t = "print_tail q c"
  have chars: "\<forall>x \<in> set ?v. \<not> is_space x" using g not_space_chars(2) by (auto simp: good_config_def)
  define r where "r = drop (length ''export'') (?v @ ?t)"
  have s: "startswith (?v @ ?t) ''export''" and rs: "r \<noteq> []" "is_space (hd r)" "t = dropWhile is_space r"
    using Some unfolding skip_word_def Let_def r_def by (simp_all only: split: if_splits) simp_all
  have "?v @ ?t = ''export'' @ r"
    using s unfolding r_def startswith_def by (metis append_take_drop_id)
  note r = this rs
  have "length ?v = 6"
  proof (rule ccontr)
    assume "length ?v \<noteq> 6"
    then consider "length ?v < 6" | "6 < length ?v" by linarith
    then show False
    proof cases
      case 1
      have "(?v @ ?t) ! length ?v = hd ?t" using tail_print(2) [OF g] by (simp add: hd_conv_nth nth_append)
      moreover have "(''export'' @ r) ! length ?v \<in> set ''export''"
      proof -
        have "(w @ r) ! length ?v \<in> set w" if "length ?v < length w" for w :: string
          using that by (simp add: nth_append)
        from this [of "''export''"] 1 show ?thesis by simp
      qed
      ultimately show False using r(1) tail_print(3) [OF g] by auto
    next
      case 2
      have "(''export'' @ r) ! 6 = hd r" using r(2) by (simp add: nth_append hd_conv_nth)
      moreover have "(?v @ ?t) ! 6 \<in> set ?v" using 2 by (simp add: nth_append)
      ultimately show False using r(1,3) chars by force
    qed
  qed
  then have v: "?v = ''export''" and t: "?t = r" using r(1) append_eq_append_conv [of ?v "''export''" ?t r] by simp_all
  have sp: "\<not> is_space (CHR ''['')" "is_space (CHR '' '')" by code_simp+
  have f: "cl_flag c = None" using r(3) t sp by (auto simp: print_tail_def split: option.splits)
  with g e v have a: "cl_op c \<in> {OpSet, OpDefault, OpQues, OpPrepend, OpPredot}" by (simp add: good_config_def)
  have no: "\<not> is_space (CHR ''='')" "\<not> is_space (CHR ''?'')" "\<not> var_char (CHR ''='')" "\<not> var_char (CHR ''?'')" by code_simp+
  have "var_match [] t = None"
    using a f t r(4) no sp by (auto simp: print_tail_def)
  with Some show ?thesis by simp
qed simp

lemma print_config_tail: "print_config q c = (if cl_export c then ''export '' else []) @ cl_var c @ print_tail q c"
  by (simp add: print_config_def print_tail_def)

lemma config_round_trip:
  assumes g: "good_config q c"
  shows "config_match (print_config q c) = Some c"
proof (cases "cl_export c")
  case True
  have sp: "is_space (CHR '' '')" by code_simp
  have v: "cl_var c \<noteq> []" "\<not> is_space (hd (cl_var c))" using g not_space_chars(2) by (auto simp: good_config_def)
  then have "dropWhile is_space (cl_var c @ print_tail q c) = cl_var c @ print_tail q c" by (cases "cl_var c") simp_all
  then have "skip_word ''export'' (print_config q c) = Some (cl_var c @ print_tail q c)"
    using True sp by (simp add: print_config_tail skip_word_def startswith_def)
  then show ?thesis using name_tail_print [OF g] True by (cases c) (simp add: config_match_def)
next
  case False
  then show ?thesis using name_tail_print [OF g] no_export_print [OF g]
    by (cases c) (simp add: config_match_def print_config_tail)
qed

text \<open>C23. An assignment that is printed is read again: with a name, a flag and a value made of the characters they may
  have, any operator and either quote, the line is an assignment with these parts. (A variable called
  \<^verbatim>\<open>export\<close> is excepted, where \<^verbatim>\<open>:=\<close>, \<^verbatim>\<open>+=\<close> and \<^verbatim>\<open>.=\<close> begin with a
  character of a name.)\<close>

theorem config_print_match:
  assumes "good_config q c"
  shows "config_match (print_config q c) = Some c"
  by (rule config_round_trip [OF assms])

lemma config_print_match_witness:
  "config_match (print_config (CHR 0x22)
      \<lparr>cl_export = True, cl_var = ''A:b'', cl_flag = Some ''c.d'', cl_op = OpDefault, cl_value = ''x = ${Y}''\<rparr>)
    = Some \<lparr>cl_export = True, cl_var = ''A:b'', cl_flag = Some ''c.d'', cl_op = OpDefault, cl_value = ''x = ${Y}''\<rparr>"
  by (rule config_print_match) code_simp

end
