(* ===== verification/Statements.thy ===== *)
theory Statements
  imports ConfLine DataLaws
begin

text \<open>
  The statements of \<^verbatim>\<open>bb/parse/ast.py\<close> that work on the store alone, with \<^verbatim>\<open>addtask\<close>, \<^verbatim>\<open>deltask\<close> and
  \<^verbatim>\<open>add_tasks\<close> of \<^verbatim>\<open>bb/build.py\<close>. Statements that read other files are evaluated in a later theory.
\<close>

section \<open>Values as text\<close>

fun show_nat :: "nat \<Rightarrow> string" where
  "show_nat n = (if n < 10 then [char_of (48 + n)] else show_nat (n div 10) @ [char_of (48 + n mod 10)])"

declare show_nat.simps [simp del]

definition show_int :: "int \<Rightarrow> string" where
  "show_int i = (if i < 0 then CHR ''-'' # show_nat (nat (- i)) else show_nat (nat i))"

text \<open>The operator \<^verbatim>\<open>%s\<close>. The text of lists is not modelled.\<close>

definition py_str :: "pyval \<Rightarrow> string result" where
  "py_str v =
     (case v of
        PStr s \<Rightarrow> Inr s
      | PInt i \<Rightarrow> Inr (show_int i)
      | PBool b \<Rightarrow> Inr (if b then ''True'' else ''False'')
      | PNone \<Rightarrow> Inr ''None''
      | _ \<Rightarrow> Inl OutOfModel)"

text \<open>A value or, when it is not true, what is written after \<^verbatim>\<open>or\<close>.\<close>

definition or_else :: "pyval \<Rightarrow> pyval \<Rightarrow> pyval" where
  "or_else v w = (if truth v then v else w)"

definition names_of :: "pyval \<Rightarrow> string list result" where
  "names_of v = (case or_else v (PList []) of PList xs \<Rightarrow> Inr xs | _ \<Rightarrow> Inl OutOfModel)"

definition inherits_of :: "pyval \<Rightarrow> (string \<times> string \<times> int) list result" where
  "inherits_of v = (case or_else v (PInherits []) of PInherits xs \<Rightarrow> Inr xs | _ \<Rightarrow> Inl OutOfModel)"

section \<open>Statements\<close>

text \<open>
  One constructor per class; a line number and a file name are kept where the code uses them for more than messages. The
  arguments are those of the constructor of the class.
\<close>

datatype node =
    IncludeNode string nat string bool
  | ExportNode string
  | UnsetNode string
  | UnsetFlagNode string string
  | DataNode config_line
  | MethodNode string nat string "string list" bool bool
  | PythonMethodNode string nat string string "string list"
  | ExportFuncsNode "string list" string
  | AddTaskNode string "string option" "string option"
  | DelTaskNode string
  | BBHandlerNode "string list"
  | PyLibNode string string
  | InheritNode string nat string
  | InheritDeferredNode string nat string

text \<open>Reading as \<^verbatim>\<open>getVar(v, False)\<close> and \<^verbatim>\<open>getVarFlag(v, f, False)\<close>.\<close>

definition raw_var :: "denv \<Rightarrow> string \<Rightarrow> (datasmart, pyval) sx" where
  "raw_var env v = getVar env v False"

definition raw_flag :: "denv \<Rightarrow> string \<Rightarrow> string \<Rightarrow> (datasmart, pyval) sx" where
  "raw_flag env v f = getVarFlag env v f False False False"

definition raw_names :: "denv \<Rightarrow> string \<Rightarrow> (datasmart, string list) sx" where
  "raw_names env v = bindX (raw_var env v) (\<lambda>x. liftX (names_of x))"

subsection \<open>Assignments\<close>

text \<open>\<^verbatim>\<open>DataNode.getFunc\<close>: the value as it was assigned, without defaults.\<close>

definition getFunc :: "denv \<Rightarrow> config_line \<Rightarrow> (datasmart, pyval) sx" where
  "getFunc env c =
     (case cl_flag c of
        Some f \<Rightarrow> getVarFlag env (cl_var c) f False True False
      | None \<Rightarrow> getVarFlag env (cl_var c) ''_content'' False True True)"

text \<open>The old value, or an empty text, in a text.\<close>

definition old_text :: "denv \<Rightarrow> config_line \<Rightarrow> (datasmart, string) sx" where
  "old_text env c = bindX (getFunc env c) (\<lambda>v. liftX (py_str (or_else v (PStr []))))"

text \<open>An immediate expansion uses a copy of the store, which is dropped.\<close>

definition expand_copy :: "denv \<Rightarrow> string \<Rightarrow> string \<Rightarrow> (datasmart, pyval) sx" where
  "expand_copy env v name d = (fst (expand env (getter_of env) (PStr v) (Some name) (createCopy d)), d)"

definition node_value :: "denv \<Rightarrow> config_line \<Rightarrow> (datasmart, pyval) sx" where
  "node_value env c =
     (let v = cl_value c in
      case cl_op c of
        OpQues \<Rightarrow> bindX (getFunc env c) (\<lambda>old. retX (if old = PNone then PStr v else old))
      | OpImmediate \<Rightarrow> expand_copy env v (cl_var c @ ''[:=]'')
      | OpAppend \<Rightarrow> bindX (old_text env c) (\<lambda>old. retX (PStr (old @ '' '' @ v)))
      | OpPrepend \<Rightarrow> bindX (old_text env c) (\<lambda>old. retX (PStr (v @ '' '' @ old)))
      | OpPostdot \<Rightarrow> bindX (old_text env c) (\<lambda>old. retX (PStr (old @ v)))
      | OpPredot \<Rightarrow> bindX (old_text env c) (\<lambda>old. retX (PStr (v @ old)))
      | _ \<Rightarrow> retX (PStr v))"

definition node_flag :: "config_line \<Rightarrow> string option" where
  "node_flag c =
     (case cl_flag c of
        Some f \<Rightarrow> Some f
      | None \<Rightarrow> if cl_op c = OpDefault then Some ''_defaultval'' else None)"

definition eval_data :: "denv \<Rightarrow> config_line \<Rightarrow> (datasmart, unit) sx" where
  "eval_data env c =
     bindX (if cl_export c then setVarFlag env (cl_var c) ''export'' (PInt 1) else retX ()) (\<lambda>_.
     bindX (node_value env c) (\<lambda>v.
     case node_flag c of
       Some f \<Rightarrow> setVarFlag env (cl_var c) f v
     | None \<Rightarrow> setVar_parsing env (cl_var c) v True))"

subsection \<open>Functions\<close>

text \<open>
  \<^verbatim>\<open>tr_tbl\<close>. The definition of a function in Python is run when it is read; \<open>method\<close> is the exception this
  raises, if any, for a name and a text.
\<close>

definition anon_char :: "char \<Rightarrow> char" where
  "anon_char c = (if c \<in> set ''/.+-@%&~'' then CHR ''_'' else c)"

definition set_place :: "denv \<Rightarrow> string \<Rightarrow> string \<Rightarrow> int \<Rightarrow> (datasmart, unit) sx" where
  "set_place env f file line =
     bindX (setVarFlag env f ''filename'' (PStr file)) (\<lambda>_. setVarFlag env f ''lineno'' (PStr (show_int line)))"

text \<open>The flags of an older function of that name are dropped.\<close>

definition drop_method_flags :: "denv \<Rightarrow> string \<Rightarrow> (datasmart, unit) sx" where
  "drop_method_flags env f =
     bindX (raw_var env f) (\<lambda>old.
     if truth old then setX (\<lambda>d. delVarFlag f ''fakeroot'' (delVarFlag f ''python'' d)) else retX ())"

definition eval_method ::
  "denv \<Rightarrow> (string \<Rightarrow> string \<Rightarrow> pyexc option) \<Rightarrow> string \<Rightarrow> nat \<Rightarrow> string \<Rightarrow> string list \<Rightarrow> bool \<Rightarrow> bool \<Rightarrow> (datasmart, unit) sx" where
  "eval_method env method file line func body python fakeroot =
     (let anon = (func = ''__anonymous'');
          name = (if anon then ''__anon_'' @ show_nat line @ ''_'' @ map anon_char file else func);
          code = join [newline] body;
          text = (if anon then ''def '' @ name @ ''(d):'' @ [newline] @ code else code) in
      bindX (if \<not> anon then retX ()
             else case method name text of
                    Some e \<Rightarrow> raiseX e
                  | None \<Rightarrow> bindX (raw_names env ''__BBANONFUNCS'') (\<lambda>fs.
                            setVar env ''__BBANONFUNCS'' (PList (fs @ [name])))) (\<lambda>_.
      bindX (drop_method_flags env name) (\<lambda>_.
      bindX (if python \<or> anon then setVarFlag env name ''python'' (PStr ''1'') else retX ()) (\<lambda>_.
      bindX (if fakeroot then setVarFlag env name ''fakeroot'' (PStr ''1'') else retX ()) (\<lambda>_.
      bindX (setVarFlag env name ''func'' (PInt 1)) (\<lambda>_.
      bindX (setVar_parsing env name (PStr text) True) (\<lambda>_.
      set_place env name file (int line - int (length body)))))))))"

definition eval_python_method ::
  "denv \<Rightarrow> (string \<Rightarrow> string \<Rightarrow> pyexc option) \<Rightarrow> string \<Rightarrow> nat \<Rightarrow> string \<Rightarrow> string \<Rightarrow> string list \<Rightarrow> (datasmart, unit) sx" where
  "eval_python_method env method file line func modulename body =
     (let text = join [newline] body in
      case method modulename text of
        Some e \<Rightarrow> raiseX e
      | None \<Rightarrow>
          bindX (setVarFlag env func ''func'' (PInt 1)) (\<lambda>_.
          bindX (setVarFlag env func ''python'' (PInt 1)) (\<lambda>_.
          bindX (setVar_parsing env func (PStr text) True) (\<lambda>_.
          set_place env func file (int line - int (length body) - 1)))))"

text \<open>\<^verbatim>\<open>EXPORT_FUNCTIONS\<close>: a function without a text of its own calls that of the class.\<close>

definition sentinel :: string where
  "sentinel = ''    # Export function set'' @ [newline]"

definition copy_flag :: "denv \<Rightarrow> string \<Rightarrow> string \<Rightarrow> string \<Rightarrow> (datasmart, unit) sx" where
  "copy_flag env source dest flag =
     bindX (raw_flag env source flag) (\<lambda>v. if truth v then setVarFlag env dest flag v else retX ())"

definition own_text :: "pyval \<Rightarrow> bool result" where
  "own_text v = (if \<not> truth v then Inr False
     else case v of PStr s \<Rightarrow> Inr (\<not> contains_str sentinel s) | PList xs \<Rightarrow> Inr (sentinel \<notin> set xs)
                  | PInt i \<Rightarrow> Inl TypeError | PBool b \<Rightarrow> Inl TypeError | _ \<Rightarrow> Inl OutOfModel)"

definition export_func :: "denv \<Rightarrow> string \<Rightarrow> string \<Rightarrow> (datasmart, unit) sx" where
  "export_func env classname func =
     (let called = classname @ ''_'' @ func in
      bindX (raw_var env func) (\<lambda>base.
      bindX (liftX (own_text base)) (\<lambda>own.
      if own then retX () else
      bindX (raw_var env func) (\<lambda>v.
      bindX (if truth v then bindX (setVarFlag env func ''python'' PNone) (\<lambda>_. setVarFlag env func ''func'' PNone)
             else retX ()) (\<lambda>_.
      bindX (forX (copy_flag env called func) [''func'', ''python'']) (\<lambda>_.
      bindX (forX (copy_flag env func called) [''dirs'', ''cleandirs'', ''fakeroot'']) (\<lambda>_.
      bindX (setVarFlag env func ''filename'' (PStr ''autogenerated'')) (\<lambda>_.
      bindX (setVarFlag env func ''lineno'' (PInt 1)) (\<lambda>_.
      bindX (raw_flag env called ''python'') (\<lambda>py.
      if truth py
      then setVar_parsing env func
             (PStr (sentinel @ ''    bb.build.exec_func('' @ [CHR 0x27] @ called @ [CHR 0x27] @ '', d)'' @ [newline])) True
      else if CHR ''-'' \<in> set classname then raiseX (BBFatal classname)
      else setVar_parsing env func (PStr (sentinel @ ''    '' @ called @ [newline])) True))))))))))"

subsection \<open>Tasks\<close>

definition do_name :: "string \<Rightarrow> string" where
  "do_name task = (if take 3 task = ''do_'' then task else ''do_'' @ task)"

definition flag_names :: "denv \<Rightarrow> string \<Rightarrow> string \<Rightarrow> (datasmart, string list) sx" where
  "flag_names env v f = bindX (raw_flag env v f) (\<lambda>x. liftX (names_of x))"

text \<open>A task that has to run before another is put at the front of the dependencies of that one.\<close>

definition add_before :: "denv \<Rightarrow> string \<Rightarrow> string \<Rightarrow> (datasmart, unit) sx" where
  "add_before env task entry =
     bindX (flag_names env entry ''deps'') (\<lambda>deps.
     if task \<in> set deps then retX () else setVarFlag env entry ''deps'' (PList (task # deps)))"

definition addtask :: "denv \<Rightarrow> string \<Rightarrow> string option \<Rightarrow> string option \<Rightarrow> (datasmart, unit) sx" where
  "addtask env name before after =
     (let task = do_name name in
      bindX (setVarFlag env task ''task'' (PInt 1)) (\<lambda>_.
      bindX (raw_names env ''__BBTASKS'') (\<lambda>tasks.
      bindX (setVar env ''__BBTASKS'' (PList (sadd task tasks))) (\<lambda>_.
      bindX (flag_names env task ''deps'') (\<lambda>deps.
      bindX (setVarFlag env task ''deps'' (PList (case after of None \<Rightarrow> deps | Some s \<Rightarrow> supdate deps (split_ws s)))) (\<lambda>_.
      case before of None \<Rightarrow> retX () | Some s \<Rightarrow> forX (add_before env task) (split_ws s)))))))"

definition drop_dep :: "denv \<Rightarrow> string \<Rightarrow> string \<Rightarrow> (datasmart, unit) sx" where
  "drop_dep env task other =
     bindX (flag_names env other ''deps'') (\<lambda>deps.
     if task \<in> set deps then setVarFlag env other ''deps'' (PList (remove1 task deps)) else retX ())"

definition deltask :: "denv \<Rightarrow> string \<Rightarrow> (datasmart, unit) sx" where
  "deltask env name =
     (let task = do_name name in
      bindX (raw_names env ''__BBTASKS'') (\<lambda>tasks.
      bindX (if task \<in> set tasks
             then bindX (setX (delVarFlag task ''task'')) (\<lambda>_. setVar env ''__BBTASKS'' (PList (remove1 task tasks)))
             else retX ()) (\<lambda>_.
      bindX (setX (delVarFlag task ''deps'')) (\<lambda>_.
      bindX (raw_names env ''__BBTASKS'') (\<lambda>tasks. forX (drop_dep env task) tasks)))))"

definition eval_deltask :: "denv \<Rightarrow> string \<Rightarrow> (datasmart, unit) sx" where
  "eval_deltask env names =
     bindX (expand env (getter_of env) (PStr names) None) (\<lambda>v.
     case v of PStr s \<Rightarrow> forX (deltask env) (split_ws s) | _ \<Rightarrow> raiseX AttributeError)"

text \<open>
  \<^verbatim>\<open>add_tasks\<close> of \<^verbatim>\<open>bb/build.py\<close>: what the run queue is told about the tasks of a recipe. A table per flag,
  which is also there when no task has the flag.
\<close>

definition task_flags :: "string list" where
  "task_flags = [''mcdepends'', ''depends'', ''rdepends'', ''deptask'', ''rdeptask'', ''recrdeptask'', ''recideptask'', ''nostamp'',
     ''fakeroot'', ''noexec'', ''umask'']"

type_synonym flag_table = "(string \<times> (string \<times> pyval) list) list"

definition get_task_flag :: "denv \<Rightarrow> string \<Rightarrow> vardata \<Rightarrow> string \<Rightarrow> flag_table \<Rightarrow> (datasmart, flag_table) sx" where
  "get_task_flag env task flags name t =
     (let t = (if dhas t name then t else dset name [] t) in
      case dget flags name of
        None \<Rightarrow> retX t
      | Some v \<Rightarrow> bindX (expand env (getter_of env) v None) (\<lambda>x. retX (dset name (dset task x (dget_default t name [])) t)))"

fun expand_names :: "denv \<Rightarrow> string list \<Rightarrow> (datasmart, string list) sx" where
  "expand_names env [] = retX []"
| "expand_names env (n # ns) =
     bindX (expand env (getter_of env) (PStr n) None) (\<lambda>v.
     bindX (liftX (case v of PStr s \<Rightarrow> Inr s | _ \<Rightarrow> Inl OutOfModel)) (\<lambda>s.
     bindX (expand_names env ns) (\<lambda>ss. retX (s # ss))))"

fun fold_flags :: "(string \<Rightarrow> flag_table \<Rightarrow> (datasmart, flag_table) sx) \<Rightarrow> string list \<Rightarrow> flag_table \<Rightarrow> (datasmart, flag_table) sx" where
  "fold_flags f [] t = retX t"
| "fold_flags f (n # ns) t = bindX (f n t) (fold_flags f ns)"

type_synonym task_deps = "string list \<times> (string \<times> string list) list \<times> flag_table"

definition add_one_task :: "denv \<Rightarrow> string \<Rightarrow> task_deps \<Rightarrow> (datasmart, task_deps) sx" where
  "add_one_task env name td =
     bindX (expand_names env [name]) (\<lambda>names.
     let task = hd names; (tasks, parents, table) = td in
     bindX (setVarFlag env task ''task'' (PInt 1)) (\<lambda>_.
     bindX (getVarFlags env task [] False) (\<lambda>flags.
     case flags of
       None \<Rightarrow> raiseX TypeError
     | Some flags \<Rightarrow>
         bindX (fold_flags (get_task_flag env task flags) task_flags table) (\<lambda>table.
         bindX (case dget flags ''deps'' of
                  None \<Rightarrow> retX []
                | Some v \<Rightarrow> bindX (liftX (case v of PList xs \<Rightarrow> Inr xs | _ \<Rightarrow> Inl OutOfModel)) (expand_names env)) (\<lambda>deps.
         retX (sadd task tasks, dset task deps parents, table))))))"

fun add_each_task :: "denv \<Rightarrow> string list \<Rightarrow> task_deps \<Rightarrow> (datasmart, task_deps) sx" where
  "add_each_task env [] td = retX td"
| "add_each_task env (n # ns) td = bindX (add_one_task env n td) (add_each_task env ns)"

definition add_tasks_of :: "denv \<Rightarrow> string list \<Rightarrow> (datasmart, unit) sx" where
  "add_tasks_of env tasklist =
     bindX (raw_var env ''_task_deps'') (\<lambda>old.
     bindX (liftX (if \<not> truth old then Inr ([], [], []) else case old of PTasks a b c \<Rightarrow> Inr (a, b, c) | _ \<Rightarrow> Inl OutOfModel)) (\<lambda>td.
     bindX (add_each_task env tasklist td) (\<lambda>(a, b, c). setVar env ''_task_deps'' (PTasks a b c))))"

subsection \<open>Handlers and deferred classes\<close>

definition eval_handlers :: "denv \<Rightarrow> string list \<Rightarrow> (datasmart, unit) sx" where
  "eval_handlers env hs =
     bindX (raw_names env ''__BBHANDLERS'') (\<lambda>old.
     bindX (forX (\<lambda>h. setVarFlag env h ''handler'' (PInt 1)) hs) (\<lambda>_.
     setVar env ''__BBHANDLERS'' (PList (old @ hs))))"

definition raw_inherits :: "denv \<Rightarrow> (datasmart, (string \<times> string \<times> int) list) sx" where
  "raw_inherits env = bindX (raw_var env ''__BBDEFINHERITS'') (\<lambda>x. liftX (inherits_of x))"

definition defer_inherit :: "denv \<Rightarrow> string \<times> string \<times> int \<Rightarrow> (datasmart, unit) sx" where
  "defer_inherit env x =
     bindX (raw_inherits env) (\<lambda>old. setVar env ''__BBDEFINHERITS'' (PInherits (old @ [x])))"

end
