(* ===== verification/Assignments.thy ===== *)
theory Assignments
  imports Statements
begin

text \<open>What a file of assignments does: the store against a table of texts.\<close>

section \<open>Texts\<close>

text \<open>A cell is a variable with a flag; the value of the variable is the flag \<^verbatim>\<open>_content\<close>.\<close>

type_synonym texts = "string \<times> string \<Rightarrow> string option"

definition cell_of :: "config_line \<Rightarrow> string \<times> string" where
  "cell_of c = (cl_var c, case node_flag c of Some f \<Rightarrow> f | None \<Rightarrow> ''_content'')"

definition text_of :: "pyval option \<Rightarrow> string option" where
  "text_of v = (case v of Some (PStr s) \<Rightarrow> Some s | _ \<Rightarrow> None)"

definition store_texts :: "datasmart \<Rightarrow> texts" where
  "store_texts d cell = text_of (dget (flags_of (fst cell) d) (snd cell))"

text \<open>The meaning of a line.\<close>

definition assigned :: "assign_op \<Rightarrow> string \<Rightarrow> string option \<Rightarrow> string" where
  "assigned a v old =
     (let s = (case old of None \<Rightarrow> [] | Some s \<Rightarrow> s) in
      case a of
        OpQues \<Rightarrow> (case old of None \<Rightarrow> v | Some s \<Rightarrow> s)
      | OpAppend \<Rightarrow> s @ '' '' @ v
      | OpPrepend \<Rightarrow> v @ '' '' @ s
      | OpPostdot \<Rightarrow> s @ v
      | OpPredot \<Rightarrow> v @ s
      | _ \<Rightarrow> v)"

definition assign_line :: "config_line \<Rightarrow> texts \<Rightarrow> texts" where
  "assign_line c m = m(cell_of c := Some (assigned (cl_op c) (cl_value c) (m (cell_of c))))"

text \<open>
  The lines considered: a name without overrides or operations, a flag that has no further meaning, and no references
  in a value that is expanded at once.
\<close>

definition plain_line :: "config_line \<Rightarrow> bool" where
  "plain_line c \<longleftrightarrow>
     simple_name (cl_var c) \<and> cl_var c \<noteq> ''BB_RENAMED_VARIABLES'' \<and> \<not> cl_export c \<and>
     (case cl_flag c of None \<Rightarrow> True | Some f \<Rightarrow> f \<notin> {[], ''_content'', ''export'', ''unexport''}) \<and>
     (cl_op c = OpImmediate \<longrightarrow> \<not> contains_str ''${'' (cl_value c))"

text \<open>All cells hold texts.\<close>

definition maybe_text :: "pyval option \<Rightarrow> bool" where
  "maybe_text v \<longleftrightarrow> (case v of None \<Rightarrow> True | Some (PStr s) \<Rightarrow> True | _ \<Rightarrow> False)"

definition texts_only :: "config_line list \<Rightarrow> datasmart \<Rightarrow> bool" where
  "texts_only cs d \<longleftrightarrow> (\<forall>c \<in> set cs. maybe_text (dget (flags_of (cl_var c) d) (snd (cell_of c))))"

lemma maybe_textD: "maybe_text v \<Longrightarrow> v = None \<or> (\<exists>s. v = Some (PStr s))"
  by (auto simp: maybe_text_def split: option.splits pyval.splits)

lemma maybe_text_str [simp]: "maybe_text (Some (PStr s))"
  by (simp add: maybe_text_def)

section \<open>One line\<close>

lemma read_own:
  assumes "de_depth env = Suc n"
  shows "getVarFlag env var ''_content'' False True True d = (Inr (case dget (flags_of var d) ''_content'' of Some v \<Rightarrow> v | None \<Rightarrow> PNone), d)"
  using assms
  by (auto simp: getVarFlag_def getter_of_def getVarFlag_with_def compute_flag_def compute_parse_def raw_value_def local_value_def bindX_def
    getX_def setX_def retX_def store_parse_def split: option.split)

lemma read_cell:
  assumes "de_depth env = Suc n" and "flag \<noteq> ''_content''" and "flag \<noteq> []"
  shows "getVarFlag env var flag False True False d = (Inr (case dget (flags_of var d) flag of Some v \<Rightarrow> v | None \<Rightarrow> PNone), d)"
  using assms
  by (auto simp: getVarFlag_def getter_of_def getVarFlag_with_def compute_flag_def compute_parse_def raw_value_def local_value_def bindX_def
    getX_def setX_def retX_def store_parse_def split: option.split)

lemma getFunc_cell:
  assumes e: "de_depth env = Suc n" and p: "plain_line c" and a: "cl_flag c = None \<longrightarrow> cl_op c \<noteq> OpDefault"
  shows "getFunc env c d = (Inr (case dget (flags_of (cl_var c) d) (snd (cell_of c)) of Some v \<Rightarrow> v | None \<Rightarrow> PNone), d)"
proof (cases "cl_flag c")
  case None
  with a read_own [OF e, of "cl_var c" d] show ?thesis by (simp add: getFunc_def cell_of_def node_flag_def)
next
  case (Some f)
  with p have "f \<noteq> ''_content''" "f \<noteq> []" by (auto simp: plain_line_def)
  from read_cell [OF e this, of "cl_var c" d] Some show ?thesis by (simp add: getFunc_def cell_of_def node_flag_def)
qed

lemma expand_plain:
  assumes "\<not> contains_str ''${'' v" and "de_rounds env = Suc k"
  shows "expand_copy env v name d = (Inr (PStr v), d)"
  using assms by (simp add: expand_copy_def expand_def expandWithRefs_def bindX_def retX_def)

lemma node_value_text:
  assumes e: "de_depth env = Suc n" "de_rounds env = Suc k" and p: "plain_line c" and t: "texts_only [c] d"
  shows "node_value env c d = (Inr (PStr (assigned (cl_op c) (cl_value c) (store_texts d (cell_of c)))), d)"
proof -
  let ?x = "dget (flags_of (cl_var c) d) (snd (cell_of c))"
  have fst: "fst (cell_of c) = cl_var c" by (simp add: cell_of_def)
  have x: "?x = None \<or> (\<exists>s. ?x = Some (PStr s))" using t by (intro maybe_textD) (simp add: texts_only_def)
  have get: "getFunc env c d = (Inr (case ?x of Some v \<Rightarrow> v | None \<Rightarrow> PNone), d)" if "cl_op c \<noteq> OpDefault"
    by (rule getFunc_cell [OF e(1) p]) (use that in simp)
  have old: "old_text env c d = (Inr (case text_of ?x of None \<Rightarrow> [] | Some s \<Rightarrow> s), d)" if "cl_op c \<noteq> OpDefault"
    using x by (auto simp: old_text_def get [OF that] bindX_def or_else_def py_str_def liftX_def text_of_def)
  have imm: "expand_copy env (cl_value c) (cl_var c @ ''[:='' @ '']'') d = (Inr (PStr (cl_value c)), d)" if "cl_op c = OpImmediate"
    using expand_plain [OF _ e(2)] p that by (simp add: plain_line_def)
  show ?thesis
  proof (cases "cl_op c")
    case OpQues
    then show ?thesis using get x by (auto simp: node_value_def bindX_def assigned_def store_texts_def fst text_of_def retX_def)
  next
    case OpImmediate
    then show ?thesis using imm by (simp add: node_value_def assigned_def)
  qed (use old in \<open>simp_all add: node_value_def bindX_def assigned_def store_texts_def fst retX_def\<close>)
qed

text \<open>Only the cell of the line changes.\<close>

lemma plain_put:
  "flags_of w (put_flag var flag v (makeShadowCopy var d)) = (if w = var then dset flag v (flags_of var d) else flags_of w d)"
proof -
  have "own_flags var (makeShadowCopy var d) = flags_of var d"
    using own_flags_front [of "makeShadowCopy var d" var] by (simp add: front_shadow)
  then show ?thesis by (simp add: put_flag_def)
qed

lemma set_plain_parsing:
  assumes "set_plain env var v True d = (Inr (), d')" and "colon \<notin> set var"
  shows "flags_of w d' = (if w = var then dset ''_content'' v (flags_of var d) else flags_of w d)" and "d_renames d' = d_renames d"
proof -
  let ?d1 = "put_flag var ''_content'' v (makeShadowCopy var d)"
  have r: "(if var \<in> set (d_overridevars ?d1) then setvar_update_overridevars env var v else retX ()) ?d1 = (Inr (), d')"
    using assms by (auto simp: set_plain_def bindX_Inr setX_def getX_def)
  have reads: "reads (if b then setvar_update_overridevars env var v else retX ())" for b
    by (simp add: reads_overridevars) (simp add: reads_def tracks_ret)
  note keep = readsD [OF reads r]
  show "flags_of w d' = (if w = var then dset ''_content'' v (flags_of var d) else flags_of w d)"
    using flags_of_layers [OF keep(1), of w] by (simp add: plain_put)
  show "d_renames d' = d_renames d" using keep(3) by (simp add: put_flag_def)
qed

lemma set_flag_result:
  assumes r: "setVarFlag env var flag v d = (Inr (), d')"
    and n: "colon \<notin> set var" "var \<noteq> ''BB_RENAMED_VARIABLES''" "\<not> dhas (d_renames d) var"
    and f: "flag \<notin> {''export'', ''unexport''}"
  shows "flags_of w d' = (if w = var then dset flag v (flags_of var d) else flags_of w d)" and "d_renames d' = d_renames d"
proof -
  let ?d1 = "put_flag var flag v (makeShadowCopy var (drop_cache d))"
  have "flag_effects env var flag v ?d1 = (Inr (), d')"
    using r set_flag_steps [OF n(2,3), of env flag v] by (simp add: bindX_def setX_def)
  then have k: "(if flag = ''_defaultval'' \<and> var \<in> set (d_overridevars ?d1) then setvar_update_overridevars env var v else retX ()) ?d1
      = (Inr (), d')"
    using n f by (auto simp: flag_effects_def bindX_Inr setX_def getX_def)
  have reads: "reads (if b then setvar_update_overridevars env var v else retX ())" for b
    by (simp add: reads_overridevars) (simp add: reads_def tracks_ret)
  note keep = readsD [OF reads k]
  show "flags_of w d' = (if w = var then dset flag v (flags_of var d) else flags_of w d)"
    using flags_of_layers [OF keep(1), of w] by (simp add: plain_put)
  show "d_renames d' = d_renames d" using keep(3) by (simp add: put_flag_def drop_cache_def)
qed

lemma eval_line:
  assumes r: "eval_data env c d = (Inr (), d')" and e: "de_depth env = Suc n" "de_rounds env = Suc k"
    and p: "plain_line c" and t: "texts_only [c] d" and rn: "\<not> dhas (d_renames d) (cl_var c)"
  shows "flags_of w d' = (if w = cl_var c then dset (snd (cell_of c))
      (PStr (assigned (cl_op c) (cl_value c) (store_texts d (cell_of c)))) (flags_of (cl_var c) d) else flags_of w d)"
    and "d_renames d' = d_renames d"
proof -
  let ?v = "PStr (assigned (cl_op c) (cl_value c) (store_texts d (cell_of c)))"
  have p': "\<not> cl_export c" "simple_name (cl_var c)" "cl_var c \<noteq> ''BB_RENAMED_VARIABLES''" using p by (simp_all add: plain_line_def)
  then have n: "colon \<notin> set (cl_var c)" "setvar_match (cl_var c) = None"
    using setvar_match_simple(2) by (auto simp: simple_name_def)
  have s: "(case node_flag c of Some f \<Rightarrow> setVarFlag env (cl_var c) f ?v | None \<Rightarrow> setVar_parsing env (cl_var c) ?v True) d = (Inr (), d')"
    using r p'(1) node_value_text [OF e p t] by (simp add: eval_data_def bindX_def retX_def)
  have "(\<forall>w. flags_of w d' = (if w = cl_var c then dset (snd (cell_of c)) ?v (flags_of (cl_var c) d) else flags_of w d)) \<and> d_renames d' = d_renames d"
  proof (cases "node_flag c")
    case None
    with s have "setVar_parsing env (cl_var c) ?v True d = (Inr (), d')" by simp
    then have "set_plain env (cl_var c) ?v True (drop_cache d) = (Inr (), d')"
      unfolding setVar_parsing_def n(2) shortname_simple(1) [OF p'(2)] using rn
      by (auto simp: bindX_def getX_def setX_def retX_def raiseX_def split: if_splits)
    from set_plain_parsing [OF this n(1)] None show ?thesis by (simp add: cell_of_def drop_cache_def)
  next
    case (Some f)
    then have f: "f \<notin> {''export'', ''unexport''}" using p by (auto simp: plain_line_def node_flag_def split: option.splits if_splits)
    from s Some have "setVarFlag env (cl_var c) f ?v d = (Inr (), d')" by simp
    from set_flag_result [OF this n(1) p'(3) rn f] Some show ?thesis by (simp add: cell_of_def)
  qed
  then show "flags_of w d' = (if w = cl_var c then dset (snd (cell_of c)) ?v (flags_of (cl_var c) d) else flags_of w d)" "d_renames d' = d_renames d"
    by blast+
qed

section \<open>A file\<close>

lemma line_texts:
  assumes "eval_data env c d = (Inr (), d')" and "de_depth env = Suc n" and "de_rounds env = Suc k"
    and "plain_line c" and "texts_only (c # cs) d" and "\<not> dhas (d_renames d) (cl_var c)"
  shows "store_texts d' = assign_line c (store_texts d)" and "texts_only cs d'" and "d_renames d' = d_renames d"
proof -
  have t: "texts_only [c] d" using assms(5) by (simp add: texts_only_def)
  note step = eval_line [OF assms(1-4) t assms(6)]
  have cell: "cell_of c = (cl_var c, snd (cell_of c))" by (simp add: cell_of_def)
  show "store_texts d' = assign_line c (store_texts d)"
  proof (rule ext)
    fix x :: "string \<times> string"
    show "store_texts d' x = assign_line c (store_texts d) x"
      by (cases x; cases "cell_of c") (use cell step(1) in \<open>auto simp: assign_line_def store_texts_def dget_dset text_of_def\<close>)
  qed
  show "texts_only cs d'" using assms(5) by (auto simp: texts_only_def step(1) dget_dset split: if_splits)
  show "d_renames d' = d_renames d" by (rule step(2))
qed

lemma file_texts:
  "forX (eval_data env) cs d = (Inr (), d') \<Longrightarrow> de_depth env = Suc n \<Longrightarrow> de_rounds env = Suc k \<Longrightarrow>
    \<forall>c \<in> set cs. plain_line c \<Longrightarrow> texts_only cs d \<Longrightarrow> \<forall>c \<in> set cs. \<not> dhas (d_renames d) (cl_var c) \<Longrightarrow>
    store_texts d' = fold assign_line cs (store_texts d)"
proof (induction cs arbitrary: d)
  case (Cons c cs)
  from Cons.prems(1) obtain d1 where c: "eval_data env c d = (Inr (), d1)" and r: "forX (eval_data env) cs d1 = (Inr (), d')"
    by (auto simp: bindX_Inr)
  have p: "plain_line c" "\<not> dhas (d_renames d) (cl_var c)" using Cons.prems(4,6) by simp_all
  note step = line_texts [OF c Cons.prems(2,3) p(1) Cons.prems(5) p(2)]
  from Cons.IH [OF r Cons.prems(2,3) _ step(2)] Cons.prems(4,6) step(1,3) show ?case by simp
qed simp

text \<open>A line raises no exception and no report when the overrides do not depend on its variable, and its name is neither
  of the old syntax nor renamed.\<close>

definition quiet_line :: "datasmart \<Rightarrow> config_line \<Rightarrow> bool" where
  "quiet_line d c \<longleftrightarrow> cl_var c \<notin> set (d_overridevars d) \<and> \<not> old_syntax (cl_var c) \<and> \<not> dhas (d_renames d) (cl_var c)"

lemma line_ends:
  assumes e: "de_depth env = Suc n" "de_rounds env = Suc k"
    and p: "plain_line c" and t: "texts_only [c] d" and q: "quiet_line d c"
  shows "\<exists>d'. eval_data env c d = (Inr (), d') \<and> d_overridevars d' = d_overridevars d \<and> d_renames d' = d_renames d"
proof -
  let ?v = "PStr (assigned (cl_op c) (cl_value c) (store_texts d (cell_of c)))"
  have p': "\<not> cl_export c" "simple_name (cl_var c)" "cl_var c \<noteq> ''BB_RENAMED_VARIABLES''" using p by (simp_all add: plain_line_def)
  have rn: "\<not> dhas (d_renames d) (cl_var c)" using q by (simp add: quiet_line_def)
  from p' have n: "colon \<notin> set (cl_var c)" "setvar_match (cl_var c) = None"
    using setvar_match_simple(2) by (auto simp: simple_name_def)
  have s: "eval_data env c d = (case node_flag c of Some f \<Rightarrow> setVarFlag env (cl_var c) f ?v | None \<Rightarrow> setVar_parsing env (cl_var c) ?v True) d"
    using p'(1) node_value_text [OF e p t] by (simp add: eval_data_def bindX_def retX_def)
  show ?thesis
  proof (cases "node_flag c")
    case None
    let ?d1 = "put_flag (cl_var c) ''_content'' ?v (makeShadowCopy (cl_var c) (drop_cache d))"
    have "setVar_parsing env (cl_var c) ?v True d = (Inr (), ?d1)"
      unfolding setVar_parsing_def n(2) shortname_simple(1) [OF p'(2)] using q n(1)
      by (simp add: quiet_line_def set_plain_def bindX_def getX_def setX_def retX_def put_flag_def drop_cache_def)
    with s None show ?thesis by (simp add: put_flag_def drop_cache_def)
  next
    case (Some f)
    let ?d1 = "put_flag (cl_var c) f ?v (makeShadowCopy (cl_var c) (drop_cache d))"
    from Some have f: "f \<noteq> ''export''" "f \<noteq> ''unexport''" using p by (auto simp: plain_line_def node_flag_def split: option.splits if_splits)
    have "setVarFlag env (cl_var c) f ?v d = bindX (setX (\<lambda>d. put_flag (cl_var c) f ?v (makeShadowCopy (cl_var c) (drop_cache d)))) (\<lambda>_. flag_effects env (cl_var c) f ?v) d"
      by (rule set_flag_steps [OF p'(3) rn])
    then have "setVarFlag env (cl_var c) f ?v d = (Inr (), ?d1)"
      using f q n(1) by (simp add: quiet_line_def flag_effects_def bindX_def getX_def setX_def retX_def put_flag_def drop_cache_def)
    with s Some show ?thesis by (simp add: put_flag_def drop_cache_def)
  qed
qed

lemma file_ends:
  "de_depth env = Suc n \<Longrightarrow> de_rounds env = Suc k \<Longrightarrow> \<forall>c \<in> set cs. plain_line c \<and> quiet_line d c \<Longrightarrow> texts_only cs d \<Longrightarrow>
    fst (forX (eval_data env) cs d) = Inr ()"
proof (induction cs arbitrary: d)
  case (Cons c cs)
  have p: "plain_line c" "quiet_line d c" and t: "texts_only [c] d" using Cons.prems(3,4) by (simp_all add: texts_only_def)
  from line_ends [OF Cons.prems(1,2) p(1) t p(2)] obtain d1
    where d1: "eval_data env c d = (Inr (), d1)" "d_overridevars d1 = d_overridevars d" "d_renames d1 = d_renames d" by blast
  have "\<not> dhas (d_renames d) (cl_var c)" using p(2) by (simp add: quiet_line_def)
  note step = line_texts [OF d1(1) Cons.prems(1,2) p(1) Cons.prems(4) this]
  have "\<forall>c \<in> set cs. plain_line c \<and> quiet_line d1 c" using Cons.prems(3) d1(2,3) by (simp add: quiet_line_def)
  from Cons.IH [OF Cons.prems(1,2) this step(2)] d1(1) show ?case by (simp add: bindX_def)
qed simp

text \<open>C21. A file of assignments is a sequence of updates of texts: evaluated one after the other on a store, copies
  included, the statements raise no exception, and every variable and flag holds the text that the operators
  \<^verbatim>\<open>=\<close>, \<^verbatim>\<open>?=\<close>, \<^verbatim>\<open>??=\<close>, \<^verbatim>\<open>:=\<close>, \<^verbatim>\<open>+=\<close>, \<^verbatim>\<open>=+\<close>, \<^verbatim>\<open>.=\<close> and \<^verbatim>\<open>=.\<close> make of
  what was there before; nothing else changes. (Names without overrides, not of the old syntax and not renamed, that
  \<^verbatim>\<open>OVERRIDES\<close> does not depend on, cells that hold texts or nothing,
  flags without a meaning of their own, and no references where a value is expanded at once.)\<close>

theorem assignments_refine:
  assumes "0 < de_depth env" and "0 < de_rounds env" and "texts_only cs d"
    and "\<forall>c \<in> set cs. plain_line c \<and> quiet_line d c"
  shows "fst (forX (eval_data env) cs d) = Inr () \<and>
    store_texts (snd (forX (eval_data env) cs d)) = fold assign_line cs (store_texts d)"
proof -
  obtain n k where e: "de_depth env = Suc n" "de_rounds env = Suc k" using assms(1,2) by (meson gr0_implies_Suc)
  have f: "fst (forX (eval_data env) cs d) = Inr ()" by (rule file_ends [OF e assms(4,3)])
  then have "forX (eval_data env) cs d = (Inr (), snd (forX (eval_data env) cs d))" by (simp add: prod_eq_iff)
  from file_texts [OF this e _ assms(3)] assms(4) f show ?thesis by (simp add: quiet_line_def)
qed

definition sample_lines :: "config_line list" where
  "sample_lines =
     [\<lparr>cl_export = False, cl_var = ''C'', cl_flag = None, cl_op = OpQues, cl_value = ''c''\<rparr>,
      \<lparr>cl_export = False, cl_var = ''B'', cl_flag = None, cl_op = OpAppend, cl_value = ''b''\<rparr>,
      \<lparr>cl_export = False, cl_var = ''C'', cl_flag = None, cl_op = OpQues, cl_value = ''late''\<rparr>,
      \<lparr>cl_export = False, cl_var = ''C'', cl_flag = None, cl_op = OpPredot, cl_value = ''a''\<rparr>,
      \<lparr>cl_export = False, cl_var = ''D'', cl_flag = Some ''doc'', cl_op = OpPrepend, cl_value = ''new''\<rparr>]"

lemma assignments_refine_witness:
  "map (store_texts (snd (forX (eval_data sample_env) sample_lines sample_store)))
     [(''C'', ''_content''), (''B'', ''_content''), (''D'', ''doc''), (''A'', ''_content'')]
   = [Some ''ac'', Some ''y b'', Some ''new d'', Some ''x ${B}'']"
proof -
  have "store_texts (snd (forX (eval_data sample_env) sample_lines sample_store)) = fold assign_line sample_lines (store_texts sample_store)"
    by (rule assignments_refine [THEN conjunct2]) code_simp+
  moreover have "map (fold assign_line sample_lines (store_texts sample_store))
     [(''C'', ''_content''), (''B'', ''_content''), (''D'', ''doc''), (''A'', ''_content'')]
   = [Some ''ac'', Some ''y b'', Some ''new d'', Some ''x ${B}'']"
    by code_simp
  ultimately show ?thesis by simp
qed

end
