(* ===== verification/RecipeLines.thy ===== *)
theory RecipeLines
  imports Statements BBUtils
begin

text \<open>
  From the lines of a file to its statements: the reading of configuration files and \<^verbatim>\<open>feeder\<close> of
  \<^verbatim>\<open>parse_py/ConfHandler.py\<close>, and the regular expressions and \<^verbatim>\<open>feeder\<close> of \<^verbatim>\<open>parse_py/BBHandler.py\<close>.
\<close>

section \<open>Configuration files\<close>

definition rstrip_ws :: "string \<Rightarrow> string" where
  "rstrip_ws s = rev (dropWhile is_space (rev s))"

definition backslash :: char where "backslash = CHR 0x5C"

definition hash_sign :: char where "hash_sign = CHR 0x23"

text \<open>
  A line that ends with a backslash goes on with the next one; at the end of the file an empty line follows. The result is
  the number of the last line, the text, and the lines that are left.
\<close>

function join_lines :: "nat \<Rightarrow> string \<Rightarrow> string list \<Rightarrow> (nat \<times> string \<times> string list) result" where
  "join_lines n s ls =
     (if s = [] then Inl IndexError
      else if last s \<noteq> backslash then Inr (n, s, ls)
      else let s2 = (case ls of [] \<Rightarrow> [] | l # _ \<Rightarrow> rstrip_ws l)
           in if (s2 = [] \<or> hd s2 \<noteq> hash_sign) \<and> hd s = hash_sign then Inl (BBFatal s)
              else join_lines (Suc n) (butlast s @ s2) (tl ls))"
  by pat_completeness auto
termination
proof (relation "measures [\<lambda>(n, s, ls). length ls, \<lambda>(n, s, ls). length s]", goal_cases)
  case 1
  show ?case by simp
next
  case (2 n s ls s2)
  then show ?case by (cases ls) auto
qed

declare join_lines.simps [simp del]

lemma join_lines_left: "join_lines n s ls = Inr (m, t, ls') \<Longrightarrow> length ls' \<le> length ls"
proof (induction n s ls rule: join_lines.induct)
  case (1 n s ls)
  let ?s2 = "case ls of [] \<Rightarrow> [] | l # _ \<Rightarrow> rstrip_ws l"
  show ?case
  proof (cases "s = [] \<or> last s \<noteq> backslash")
    case True
    with 1(2) show ?thesis by (subst (asm) join_lines.simps) (auto split: if_splits)
  next
    case False
    with 1(2) have f: "\<not> ((?s2 = [] \<or> hd ?s2 \<noteq> hash_sign) \<and> hd s = hash_sign)"
      and j: "join_lines (Suc n) (butlast s @ ?s2) (tl ls) = Inr (m, t, ls')"
      by (subst (asm) join_lines.simps, simp add: Let_def split: if_splits)+
    from False have "s \<noteq> []" "\<not> last s \<noteq> backslash" by simp_all
    from 1(1) [OF this refl f j] show ?thesis by simp
  qed
qed

text \<open>The lines that matter, joined, with their numbers.\<close>

function conf_lines :: "nat \<Rightarrow> string list \<Rightarrow> (nat \<times> string) list result" where
  "conf_lines n [] = Inr []"
| "conf_lines n (l # ls) =
     (if strip_ws l = [] then conf_lines (Suc n) ls
      else case join_lines (Suc n) (rstrip_ws l) ls of
             Inl e \<Rightarrow> Inl e
           | Inr (m, s, ls') \<Rightarrow>
               if hd s = hash_sign then conf_lines m ls'
               else (case conf_lines m ls' of Inl e \<Rightarrow> Inl e | Inr xs \<Rightarrow> Inr ((m, s) # xs)))"
  by pat_completeness auto
termination
  by (relation "measure (\<lambda>(n, ls). length ls)") (auto dest: join_lines_left)

text \<open>\<^verbatim>\<open>feeder\<close>: one line becomes one statement. Paths of Python code are only accepted where \<open>pylib\<close> says so.\<close>

definition conf_feeder :: "bool \<Rightarrow> nat \<Rightarrow> string \<Rightarrow> string \<Rightarrow> node result" where
  "conf_feeder pylib lineno s fn =
     (case config_match s of Some c \<Rightarrow> Inr (DataNode c) | None \<Rightarrow>
      case rest_after ''include'' s of Some f \<Rightarrow> Inr (IncludeNode fn lineno f False) | None \<Rightarrow>
      case rest_after ''require'' s of Some f \<Rightarrow> Inr (IncludeNode fn lineno f True) | None \<Rightarrow>
      case name_after ''export'' s of Some v \<Rightarrow> Inr (ExportNode v) | None \<Rightarrow>
      case name_after ''unset'' s of Some v \<Rightarrow> Inr (UnsetNode v) | None \<Rightarrow>
      case unset_flag_match s of Some (v, f) \<Rightarrow> Inr (UnsetFlagNode v f) | None \<Rightarrow>
      case (if pylib then addpylib_match s else None) of Some (l, m) \<Rightarrow> Inr (PyLibNode l m) | None \<Rightarrow>
      Inl (ParseError s))"

definition conf_statements :: "bool \<Rightarrow> string \<Rightarrow> string list \<Rightarrow> node list result" where
  "conf_statements baseconfig fn ls =
     bindE (conf_lines 0 ls) (\<lambda>xs.
     foldE (\<lambda>x ns. bindE (conf_feeder baseconfig (fst x) (snd x) fn) (\<lambda>n. Inr (ns @ [n]))) xs [])"

section \<open>Recipe files\<close>

definition word_char :: "char \<Rightarrow> bool" where
  "word_char c \<longleftrightarrow> is_letter c \<or> is_digit c \<or> c = CHR ''_''"

definition func_char :: "char \<Rightarrow> bool" where
  "func_char c \<longleftrightarrow> word_char c \<or> c \<in> set ''.-+{}$:''"

text \<open>\<^verbatim>\<open>__func_start_regexp__\<close>: the words before the name, then the name, which may be missing, and the brackets.\<close>

fun func_words :: "nat \<Rightarrow> bool \<Rightarrow> bool \<Rightarrow> string \<Rightarrow> bool \<times> bool \<times> string" where
  "func_words 0 py fr s = (py, fr, s)"
| "func_words (Suc n) py fr s =
     (let p = drop 6 s; f = drop 8 s in
      if startswith s ''python'' \<and> p \<noteq> [] \<and> (is_space (hd p) \<or> hd p = CHR ''('') then func_words n True fr (dropWhile is_space p)
      else if startswith s ''fakeroot'' \<and> f \<noteq> [] \<and> is_space (hd f) then func_words n py True (dropWhile is_space f)
      else (py, fr, s))"

text \<open>After the name: brackets, and the brace that ends the line.\<close>

definition func_brackets :: "string \<Rightarrow> bool" where
  "func_brackets s =
     (let a = dropWhile is_space s; b = dropWhile is_space (tl a); c = dropWhile is_space (tl b)
      in a \<noteq> [] \<and> hd a = CHR ''('' \<and> b \<noteq> [] \<and> hd b = CHR '')'' \<and> c = ''{'')"

definition func_start :: "string \<Rightarrow> (string option \<times> bool \<times> bool) option" where
  "func_start s =
     (case func_words (length s) False False s of
        (py, fr, r) \<Rightarrow>
          (let f = takeWhile func_char r
           in if func_brackets (dropWhile func_char r) then Some (if f = [] then None else Some f, py, fr) else None))"

text \<open>\<^verbatim>\<open>__def_regexp__\<close> and \<^verbatim>\<open>__python_func_regexp__\<close>.\<close>

definition def_match :: "string \<Rightarrow> string option" where
  "def_match s =
     (case skip_word ''def'' s of
        None \<Rightarrow> None
      | Some r \<Rightarrow> (let f = takeWhile word_char r in if f \<noteq> [] \<and> colon \<in> set (dropWhile word_char r) then Some f else None))"

definition in_python_body :: "string \<Rightarrow> bool" where
  "in_python_body s \<longleftrightarrow> s = [] \<or> is_space (hd s) \<or> hd s = hash_sign"

text \<open>\<^verbatim>\<open>__addtask_regexp__\<close>: what follows \<^verbatim>\<open>before\<close> goes on to the last \<^verbatim>\<open>after\<close>, and the other way round.\<close>

fun cut_last :: "string \<Rightarrow> string \<Rightarrow> (string \<times> string) option" where
  "cut_last w [] = None"
| "cut_last w (c # cs) =
     (case cut_last w cs of
        Some (a, b) \<Rightarrow> Some (c # a, b)
      | None \<Rightarrow> if startswith (c # cs) w then Some ([], c # cs) else None)"

definition cut_word :: "string \<Rightarrow> string \<Rightarrow> string \<times> string" where
  "cut_word w s = (case cut_last w s of Some ab \<Rightarrow> ab | None \<Rightarrow> (s, []))"

lemma cut_last_length: "cut_last w s = Some (a, b) \<Longrightarrow> length b \<le> length s"
  by (induction s arbitrary: a b) (fastforce split: option.splits if_splits)+

lemma cut_word_length: "length (snd (cut_word w s)) \<le> length s"
  by (auto simp: cut_word_def split: option.split dest: cut_last_length)

lemma dropWhile_drop_length: "length (dropWhile P (drop n s)) \<le> length s - n"
  using length_dropWhile_le [of P "drop n s"] by simp

function task_order :: "string option \<Rightarrow> string option \<Rightarrow> string \<Rightarrow> string option \<times> string option" where
  "task_order before after s =
     (if startswith s ''before''
      then let x = cut_word ''after'' (dropWhile is_space (drop 6 s)) in task_order (Some (fst x)) after (snd x)
      else if startswith s ''after''
      then let x = cut_word ''before'' (dropWhile is_space (drop 5 s)) in task_order before (Some (fst x)) (snd x)
      else (before, after))"
  by pat_completeness auto
termination
proof (relation "measure (\<lambda>(before, after, s). length s)", goal_cases)
  case 1
  show ?case by simp
next
  case (2 before after s x)
  have "s \<noteq> []" using 2(1) by (auto simp: startswith_def)
  with cut_word_length [of "''after''" "dropWhile is_space (drop 6 s)"] dropWhile_drop_length [of is_space 6 s] 2(2)
  show ?case by (cases s) auto
next
  case (3 before after s x)
  have "s \<noteq> []" using 3(2) by (auto simp: startswith_def)
  with cut_word_length [of "''before''" "dropWhile is_space (drop 5 s)"] dropWhile_drop_length [of is_space 5 s] 3(3)
  show ?case by (cases s) auto
qed

declare task_order.simps [simp del]

definition addtask_match :: "string \<Rightarrow> (string \<times> string option \<times> string option) option" where
  "addtask_match s =
     (case skip_word ''addtask'' s of
        None \<Rightarrow> None
      | Some r \<Rightarrow>
          (let f = takeWhile word_char r
           in if f = [] then None else Some (f, task_order None None (dropWhile is_space (dropWhile word_char r)))))"

text \<open>A word of the statement that looks like an operation is refused.\<close>

definition bad_task_word :: "string \<Rightarrow> bool" where
  "bad_task_word te \<longleftrightarrow> (\<exists>kw \<in> set setvar_keywords. contains_str (kw @ ''_'') te)"

section \<open>Reading a recipe file line by line\<close>

text \<open>
  The module variables of \<^verbatim>\<open>BBHandler\<close>: the function that is being read (its name, file, line, and whether it is Python or
  needs root), the Python definition, the lines of its body, and the lines that end with a backslash.
\<close>

record bbstate =
  bs_infunc :: "(string \<times> string \<times> nat \<times> bool \<times> bool) option"
  bs_inpython :: "string option"
  bs_body :: "string list"
  bs_residue :: "string list"

definition bb_start :: bbstate where
  "bb_start = \<lparr>bs_infunc = None, bs_inpython = None, bs_body = [], bs_residue = []\<rparr>"

text \<open>The first character of the first line that waits.\<close>

definition residue_sign :: "string list \<Rightarrow> char option result" where
  "residue_sign rs = (case rs of [] \<Rightarrow> Inr None | r # _ \<Rightarrow> if r = [] then Inl IndexError else Inr (Some (hd r)))"

text \<open>The checks of comments in a statement of many lines.\<close>

definition check_comment :: "string \<Rightarrow> string list \<Rightarrow> unit result" where
  "check_comment s rs =
     bindE (if s \<noteq> [] \<and> hd s = hash_sign
            then bindE (residue_sign rs) (\<lambda>c. if c \<noteq> None \<and> c \<noteq> Some hash_sign then Inl (BBFatal s) else Inr ())
            else Inr ()) (\<lambda>_.
     bindE (residue_sign rs) (\<lambda>c.
     if c = Some hash_sign \<and> (s = [] \<or> hd s \<noteq> hash_sign) then Inl (BBFatal s) else Inr ()))"

text \<open>A complete line outside of functions.\<close>

definition bb_line :: "nat \<Rightarrow> string \<Rightarrow> string \<Rightarrow> string \<Rightarrow> bbstate \<Rightarrow> (node list \<times> bbstate) result" where
  "bb_line lineno s fn classname b =
     (case func_start s of
        Some (f, py, fr) \<Rightarrow>
          Inr ([], b\<lparr>bs_infunc := Some (case f of None \<Rightarrow> ''__anonymous'' | Some f \<Rightarrow> f, fn, lineno, py, fr)\<rparr>)
      | None \<Rightarrow>
      case def_match s of Some f \<Rightarrow> Inr ([], b\<lparr>bs_body := bs_body b @ [s], bs_inpython := Some f\<rparr>) | None \<Rightarrow>
      case rest_after ''EXPORT_FUNCTIONS'' s of Some r \<Rightarrow> Inr ([ExportFuncsNode (split_ws r) classname], b) | None \<Rightarrow>
      case addtask_match s of
        Some (f, before, after) \<Rightarrow>
          if \<exists>te \<in> set (split_ws s). bad_task_word te then Inl (ParseError s) else Inr ([AddTaskNode f before after], b)
      | None \<Rightarrow>
      case rest_after ''deltask'' s of Some r \<Rightarrow> Inr ([DelTaskNode r], b) | None \<Rightarrow>
      case rest_after ''addhandler'' s of Some r \<Rightarrow> Inr ([BBHandlerNode (split_ws r)], b) | None \<Rightarrow>
      case rest_after ''inherit'' s of Some r \<Rightarrow> Inr ([InheritNode fn lineno r], b) | None \<Rightarrow>
      case rest_after ''inherit_defer'' s of Some r \<Rightarrow> Inr ([InheritDeferredNode fn lineno r], b) | None \<Rightarrow>
      bindE (conf_feeder False lineno s fn) (\<lambda>n. Inr ([n], b)))"

text \<open>A line outside of the body of a function.\<close>

definition bb_outside :: "nat \<Rightarrow> string \<Rightarrow> string \<Rightarrow> string \<Rightarrow> bbstate \<Rightarrow> (node list \<times> bbstate) result" where
  "bb_outside lineno s fn classname b =
     bindE (check_comment s (bs_residue b)) (\<lambda>_.
     if s \<noteq> [] \<and> last s = backslash then Inr ([], b\<lparr>bs_residue := bs_residue b @ [butlast s]\<rparr>)
     else let s = concat (bs_residue b) @ s; b = b\<lparr>bs_residue := []\<rparr>
          in if s = [] \<or> hd s = hash_sign then Inr ([], b) else bb_line lineno s fn classname b)"

definition bb_feeder :: "nat \<Rightarrow> string \<Rightarrow> string \<Rightarrow> string \<Rightarrow> string \<Rightarrow> bool \<Rightarrow> bbstate \<Rightarrow> (node list \<times> bbstate) result" where
  "bb_feeder lineno s fn root classname eof b =
     (case bs_infunc b of
        Some (f, file, line, py, fr) \<Rightarrow>
          if s = ''}''
          then Inr ([MethodNode fn lineno f (bs_body b @ [[]]) py fr], b\<lparr>bs_infunc := None, bs_body := []\<rparr>)
          else Inr ([], b\<lparr>bs_body := bs_body b @ [s]\<rparr>)
      | None \<Rightarrow>
          (case bs_inpython b of
             None \<Rightarrow> bb_outside lineno s fn classname b
           | Some f \<Rightarrow>
               if in_python_body s \<and> \<not> eof then Inr ([], b\<lparr>bs_body := bs_body b @ [s]\<rparr>)
               else let node = PythonMethodNode fn lineno f root (bs_body b); b = b\<lparr>bs_body := [], bs_inpython := None\<rparr>
                    in if eof then Inr ([node], b)
                       else bindE (bb_outside lineno s fn classname b) (\<lambda>(ns, b). Inr (node # ns, b))))"

fun bb_lines :: "nat \<Rightarrow> string list \<Rightarrow> string \<Rightarrow> string \<Rightarrow> string \<Rightarrow> node list \<times> bbstate \<Rightarrow> (nat \<times> node list \<times> bbstate) result" where
  "bb_lines n [] fn root classname st = Inr (Suc n, st)"
| "bb_lines n (l # ls) fn root classname (ns, b) =
     bindE (bb_feeder (Suc n) (rstrip_ws l) fn root classname False b) (\<lambda>(ms, b).
     bb_lines (Suc n) ls fn root classname (ns @ ms, b))"

text \<open>\<^verbatim>\<open>get_statements\<close>, without its cache: a definition that reaches the end of the file is complete there.\<close>

definition bb_statements :: "string \<Rightarrow> string \<Rightarrow> string \<Rightarrow> string list \<Rightarrow> (node list \<times> bbstate) result" where
  "bb_statements fn root classname ls =
     bindE (bb_lines 0 ls fn root classname ([], bb_start)) (\<lambda>(n, ns, b).
     bindE (if bs_inpython b = None then Inr (ns, b)
            else bindE (bb_feeder n [] fn root classname True b) (\<lambda>(ms, b). Inr (ns @ ms, b))) (\<lambda>(ns, b).
     if bs_residue b \<noteq> [] then Inl (ParseError fn)
     else if bs_body b \<noteq> [] then Inl (ParseError fn)
     else Inr (ns, b)))"

end
