(* ===== verification/ParseFile.thy ===== *)
theory ParseFile
  imports RecipeLines
begin

text \<open>
  Reading files: \<^verbatim>\<open>parse/__init__.py\<close>, \<^verbatim>\<open>handle\<close> and \<^verbatim>\<open>include\<close> of \<^verbatim>\<open>ConfHandler.py\<close>, \<^verbatim>\<open>handle\<close> and
  \<^verbatim>\<open>inherit\<close> of \<^verbatim>\<open>BBHandler.py\<close>, and the statements of \<^verbatim>\<open>ast.py\<close> that read files.
\<close>

section \<open>Paths\<close>

abbreviation slash :: char where
  "slash \<equiv> CHR ''/''"

definition isabs :: "string \<Rightarrow> bool" where
  "isabs p \<longleftrightarrow> startswith p ''/''"

definition join_path :: "string \<Rightarrow> string \<Rightarrow> string" where
  "join_path p q = (if isabs q then q else if p = [] \<or> last p = slash then p @ q else p @ slash # q)"

definition dirname :: "string \<Rightarrow> string" where
  "dirname p =
     (if slash \<notin> set p then []
      else let head = before_last slash p @ [slash]
           in if \<forall>c \<in> set head. c = slash then head else rev (dropWhile (\<lambda>c. c = slash) (rev head)))"

text \<open>The extension of a file name, with its dot.\<close>

definition splitext_ext :: "string \<Rightarrow> string" where
  "splitext_ext p = drop (length (splitext_root p)) p"

text \<open>\<^verbatim>\<open>os.path.normpath\<close>, part by part; the flag says that the path is absolute.\<close>

definition norm_step :: "bool \<Rightarrow> string \<Rightarrow> string list \<Rightarrow> string list" where
  "norm_step absolute c ps =
     (if c = [] \<or> c = ''.'' then ps
      else if c \<noteq> ''..'' \<or> (\<not> absolute \<and> ps = []) \<or> (ps \<noteq> [] \<and> last ps = ''..'') then ps @ [c]
      else butlast ps)"

definition normpath :: "string \<Rightarrow> string" where
  "normpath p =
     (let n = length (takeWhile (\<lambda>c. c = slash) p);
          start = (if n = 2 then ''//'' else if n = 0 then [] else ''/'');
          path = start @ join ''/'' (fold (norm_step (n > 0)) (split_on slash p) [])
      in if path = [] then ''.'' else path)"

section \<open>The surroundings\<close>

text \<open>
  The files and the interpreter: \<open>pe_lines\<close> are the lines of a regular file, \<open>pe_exists\<close> says whether there is something at
  a path, \<open>pe_cwd\<close> is the working directory. \<open>pe_method\<close>, \<open>pe_import\<close> and \<open>pe_pylib\<close> are the
  exceptions that the definition of Python functions and the import of Python modules and of the modules of a layer raise. \<open>pe_depth\<close> bounds how deep files can
  include one another before the interpreter gives up. \<open>pe_filters\<close> are the hooks that a user interface may put into
  \<^verbatim>\<open>confFilters\<close>. A missing file is an \<open>OSError\<close>, the only one that is read here.
\<close>

record penv =
  pe_data :: denv
  pe_lines :: "string \<Rightarrow> string list option"
  pe_exists :: "string \<Rightarrow> bool"
  pe_cwd :: string
  pe_method :: "string \<Rightarrow> string \<Rightarrow> pyexc option"
  pe_import :: "string \<Rightarrow> pyexc option"
  pe_pylib :: "string \<Rightarrow> string \<Rightarrow> pyexc option"
  pe_depth :: nat
  pe_filters :: "(string \<Rightarrow> (datasmart, unit) sx) list"

text \<open>
  The store, the function that the last recipe file left open, and the statements of files that are kept.
\<close>

record pstate =
  ps_store :: datasmart
  ps_infunc :: "(string \<times> string \<times> nat \<times> bool \<times> bool) option"
  ps_cached :: "(string, node list) odict"

definition onstore :: "(datasmart, 'a) sx \<Rightarrow> (pstate, 'a) sx" where
  "onstore m p = (case m (ps_store p) of (r, d) \<Rightarrow> (r, p\<lparr>ps_store := d\<rparr>))"

text \<open>An exception that is handled.\<close>

definition catchX :: "('s, 'a) sx \<Rightarrow> (pyexc \<Rightarrow> ('s, 'a) sx) \<Rightarrow> ('s, 'a) sx" where
  "catchX m h s = (case m s of (Inl e, t) \<Rightarrow> h e t | (Inr x, t) \<Rightarrow> (Inr x, t))"

section \<open>Dependencies on files\<close>

text \<open>
  \<^verbatim>\<open>mark_dependency\<close> and \<^verbatim>\<open>check_dependency\<close>. With a file the code keeps its time stamp, which the surroundings
  fix.
\<close>

definition mark_dependency :: "penv \<Rightarrow> string \<Rightarrow> (datasmart, unit) sx" where
  "mark_dependency env f =
     (let f = (if startswith f ''./'' then pe_cwd env @ ''/'' @ drop 2 f else f) in
      bindX (raw_names (pe_data env) ''__depends'') (\<lambda>deps.
      if f \<in> set deps then retX () else setVar (pe_data env) ''__depends'' (PList (deps @ [f]))))"

text \<open>\<^verbatim>\<open>bb.utils.which\<close>: the first place with the file, and all places that were looked at.\<close>

fun which_in :: "penv \<Rightarrow> string \<Rightarrow> string list \<Rightarrow> string \<times> string list" where
  "which_in env item [] = ([], [])"
| "which_in env item (p # ps) =
     (let f = join_path p item in
      if pe_exists env f then (if isabs f then f else normpath (join_path (pe_cwd env) f), [f])
      else (fst (which_in env item ps), f # snd (which_in env item ps)))"

definition which_path :: "penv \<Rightarrow> pyval \<Rightarrow> string \<Rightarrow> (string \<times> string list) result" where
  "which_path env path item =
     (case or_else path (PStr []) of PStr s \<Rightarrow> Inr (which_in env item (split_on colon s)) | _ \<Rightarrow> Inl AttributeError)"

definition var_value :: "penv \<Rightarrow> string \<Rightarrow> (datasmart, pyval) sx" where
  "var_value env v = getVar (pe_data env) v True"

text \<open>\<^verbatim>\<open>resolve_file\<close>.\<close>

definition resolve_file :: "penv \<Rightarrow> string \<Rightarrow> (datasmart, string) sx" where
  "resolve_file env fn =
     bindX (if isabs fn then bindX (mark_dependency env fn) (\<lambda>_. retX fn)
            else bindX (var_value env ''BBPATH'') (\<lambda>bbpath.
                 bindX (liftX (which_path env bbpath fn)) (\<lambda>(found, tried).
                 bindX (forX (mark_dependency env) tried) (\<lambda>_.
                 if found = [] then raiseX OSError else retX found)))) (\<lambda>f.
     if pe_lines env f = None then raiseX OSError else retX f)"

section \<open>Reading other files\<close>

text \<open>The handler of a file that is included, \<^verbatim>\<open>bb.parse.handle(fn, data, True)\<close>.\<close>

type_synonym handler = "string \<Rightarrow> (pstate, unit) sx"

definition expand_text :: "penv \<Rightarrow> string \<Rightarrow> (datasmart, string) sx" where
  "expand_text env s =
     bindX (expand (pe_data env) (getter_of (pe_data env)) (PStr s) None) (\<lambda>v.
     case v of PStr t \<Rightarrow> retX t | _ \<Rightarrow> raiseX AttributeError)"

text \<open>A file beside the one that includes it, or on the path; a file that includes itself is left out.\<close>

definition find_include :: "penv \<Rightarrow> string \<Rightarrow> string \<Rightarrow> (datasmart, string) sx" where
  "find_include env parentfn fn =
     (if isabs fn then retX fn
      else bindX (var_value env ''BBPATH'') (\<lambda>bbpath.
           bindX (liftX (py_str bbpath)) (\<lambda>bbpath.
           let (found, tried) = which_in env fn (split_on colon (dirname parentfn @ '':'' @ bbpath)) in
           bindX (forX (mark_dependency env) tried) (\<lambda>_. retX (if found = [] then fn else found)))))"

definition include_single_file :: "penv \<Rightarrow> handler \<Rightarrow> string \<Rightarrow> bool \<Rightarrow> string \<Rightarrow> (pstate, unit) sx" where
  "include_single_file env h parentfn required fn =
     (if parentfn = fn then retX ()
      else bindX (onstore (find_include env parentfn fn)) (\<lambda>f.
           catchX (h f) (\<lambda>e. if e = OSError then if required then raiseX (ParseError f) else retX () else raiseX e)))"

definition include_files :: "penv \<Rightarrow> handler \<Rightarrow> string \<Rightarrow> string \<Rightarrow> bool \<Rightarrow> (pstate, unit) sx" where
  "include_files env h parentfn fns required =
     bindX (onstore (expand_text env fns)) (\<lambda>fns.
     bindX (onstore (expand_text env parentfn)) (\<lambda>parentfn.
     forX (include_single_file env h parentfn required) (split_ws fns)))"

text \<open>\<^verbatim>\<open>inherit\<close>: the directories of classes in turn; a class is read once.\<close>

fun find_class :: "penv \<Rightarrow> string \<Rightarrow> string \<Rightarrow> string list \<Rightarrow> (datasmart, string) sx" where
  "find_class env orig f [] = retX f"
| "find_class env orig f (t # ts) =
     (let f1 = (if \<not> isabs orig \<and> \<not> endswith orig ''.bbclass'' then join_path t (orig @ ''.bbclass'') else orig) in
      bindX (if isabs f1 then retX f1
             else bindX (var_value env ''BBPATH'') (\<lambda>bbpath.
                  bindX (liftX (which_path env bbpath f1)) (\<lambda>(found, tried).
                  bindX (forX (mark_dependency env) (filter (\<lambda>af. af \<noteq> found) tried)) (\<lambda>_.
                  retX (if found = [] then f1 else found))))) (\<lambda>f2.
      if pe_exists env f2 then retX f2 else find_class env orig f2 ts))"

definition inherit_file :: "penv \<Rightarrow> handler \<Rightarrow> string \<Rightarrow> string \<Rightarrow> string list \<Rightarrow> (pstate, string list) sx" where
  "inherit_file env h fn orig cache =
     bindX (onstore (raw_var (pe_data env) ''__bbclasstype'')) (\<lambda>ct.
     case ct of
       PStr ct \<Rightarrow>
         bindX (onstore (find_class env orig orig [''classes-'' @ ct, ''classes''])) (\<lambda>f.
         if \<not> pe_exists env f then raiseX (ParseError f)
         else if f \<in> set cache then retX cache
         else bindX (onstore (setVar (pe_data env) ''__inherit_cache'' (PList (cache @ [f])))) (\<lambda>_.
              bindX (catchX (h f) (\<lambda>e. if e = OSError then raiseX (ParseError fn) else raiseX e)) (\<lambda>_.
              onstore (raw_names (pe_data env) ''__inherit_cache''))))
     | _ \<Rightarrow> raiseX TypeError)"

fun inherit_files :: "penv \<Rightarrow> handler \<Rightarrow> string \<Rightarrow> string list \<Rightarrow> string list \<Rightarrow> (pstate, unit) sx" where
  "inherit_files env h fn [] cache = retX ()"
| "inherit_files env h fn (f # fs) cache = bindX (inherit_file env h fn f cache) (inherit_files env h fn fs)"

definition inherit :: "penv \<Rightarrow> handler \<Rightarrow> string \<Rightarrow> string \<Rightarrow> (pstate, unit) sx" where
  "inherit env h files fn =
     bindX (onstore (raw_names (pe_data env) ''__inherit_cache'')) (\<lambda>cache.
     bindX (onstore (expand_text env files)) (\<lambda>files. inherit_files env h fn (split_ws files) cache))"

section \<open>Statements\<close>

definition eval_pylib :: "penv \<Rightarrow> string \<Rightarrow> string \<Rightarrow> (datasmart, unit) sx" where
  "eval_pylib env libdir ns =
     bindX (var_value env ''BB_GLOBAL_PYMODULES'') (\<lambda>v.
     bindX (liftX (case or_else v (PStr []) of PStr s \<Rightarrow> Inr s | _ \<Rightarrow> Inl AttributeError)) (\<lambda>mods.
     bindX (forX (\<lambda>m. case pe_import env m of None \<Rightarrow> retX () | Some e \<Rightarrow> raiseX e) (split_ws mods)) (\<lambda>_.
     bindX (expand_text env libdir) (\<lambda>dir.
     case pe_pylib env dir ns of None \<Rightarrow> retX () | Some e \<Rightarrow> if e = AttributeError then retX () else raiseX e))))"

fun eval_node :: "penv \<Rightarrow> handler \<Rightarrow> node \<Rightarrow> (pstate, unit) sx" where
  "eval_node env h (IncludeNode fn line what required) =
     bindX (onstore (expand_text env what)) (\<lambda>s. include_files env h fn s required)"
| "eval_node env h (ExportNode v) = onstore (setVarFlag (pe_data env) v ''export'' (PInt 1))"
| "eval_node env h (UnsetNode v) = onstore (setX (delVar v))"
| "eval_node env h (UnsetFlagNode v f) = onstore (setX (delVarFlag v f))"
| "eval_node env h (DataNode c) = onstore (eval_data (pe_data env) c)"
| "eval_node env h (MethodNode fn line f body py fr) = onstore (eval_method (pe_data env) (pe_method env) fn line f body py fr)"
| "eval_node env h (PythonMethodNode fn line f m body) = onstore (eval_python_method (pe_data env) (pe_method env) fn line f m body)"
| "eval_node env h (ExportFuncsNode fs cls) = onstore (forX (export_func (pe_data env) cls) fs)"
| "eval_node env h (AddTaskNode f before after) = onstore (addtask (pe_data env) f before after)"
| "eval_node env h (DelTaskNode ts) = onstore (eval_deltask (pe_data env) ts)"
| "eval_node env h (BBHandlerNode hs) = onstore (eval_handlers (pe_data env) hs)"
| "eval_node env h (PyLibNode l ns) = onstore (eval_pylib env l ns)"
| "eval_node env h (InheritNode fn line classes) = inherit env h classes fn"
| "eval_node env h (InheritDeferredNode fn line classes) = onstore (defer_inherit (pe_data env) (classes, fn, int line))"

section \<open>Handlers of files\<close>

definition conf_handle :: "penv \<Rightarrow> handler \<Rightarrow> bool \<Rightarrow> bool \<Rightarrow> string \<Rightarrow> (pstate, unit) sx" where
  "conf_handle env h included baseconfig fn =
     bindX (if included then onstore (raw_var (pe_data env) ''FILE'') else retX PNone) (\<lambda>oldfile.
     bindX (onstore (resolve_file env fn)) (\<lambda>abs_fn.
     bindX (liftX (case pe_lines env abs_fn of Some ls \<Rightarrow> conf_statements baseconfig abs_fn ls | None \<Rightarrow> Inl OSError)) (\<lambda>ns.
     bindX (onstore (setVar (pe_data env) ''FILE'' (PStr abs_fn))) (\<lambda>_.
     bindX (forX (eval_node env h) ns) (\<lambda>_.
     bindX (if truth oldfile then onstore (setVar (pe_data env) ''FILE'' oldfile) else retX ()) (\<lambda>_.
     onstore (forX (\<lambda>f. f fn) (pe_filters env))))))))"

text \<open>\<^verbatim>\<open>get_statements\<close>: classes and included files are read once; cached statements leave no function open.\<close>

definition get_statements :: "penv \<Rightarrow> string \<Rightarrow> string \<Rightarrow> string \<Rightarrow> string \<Rightarrow> (pstate, node list) sx" where
  "get_statements env fn abs_fn root classname p =
     (case dget (ps_cached p) abs_fn of
        Some ns \<Rightarrow> (Inr ns, p)
      | None \<Rightarrow>
          (case bindE (case pe_lines env abs_fn of Some ls \<Rightarrow> Inr ls | None \<Rightarrow> Inl OSError) (bb_statements fn root classname) of
             Inl e \<Rightarrow> (Inl e, p)
           | Inr (ns, b) \<Rightarrow>
               (Inr ns, p\<lparr>ps_infunc := bs_infunc b,
                  ps_cached := if endswith fn ''.bbclass'' \<or> endswith fn ''.inc'' then dset abs_fn ns (ps_cached p) else ps_cached p\<rparr>)))"

text \<open>
  \<^verbatim>\<open>BBHandler.handle\<close> up to the finalisation; the result tells whether the recipe is to be skipped at once, which only
  happens to a recipe that is not included. A function that is left open is noticed unless another recipe file was
  read since.
\<close>

definition bb_enter :: "penv \<Rightarrow> string \<Rightarrow> (pstate, unit) sx" where
  "bb_enter env fn =
     bindX (setX (\<lambda>p. p\<lparr>ps_infunc := None\<rparr>)) (\<lambda>_.
     if splitext_ext (basename fn) \<noteq> ''.bbclass'' then retX ()
     else bindX (onstore (raw_names (pe_data env) ''__inherit_cache'')) (\<lambda>cache.
          if fn \<in> set cache then retX ()
          else onstore (setVar (pe_data env) ''__inherit_cache'' (PList (cache @ [fn])))))"

definition bb_handle :: "penv \<Rightarrow> handler \<Rightarrow> bool \<Rightarrow> string \<Rightarrow> (pstate, bool) sx" where
  "bb_handle env h included fn =
     (let base = basename fn; class = (splitext_ext base = ''.bbclass'') in
      bindX (bb_enter env fn) (\<lambda>_.
      bindX (if included then onstore (raw_var (pe_data env) ''FILE'') else retX PNone) (\<lambda>oldfile.
      bindX (onstore (resolve_file env fn)) (\<lambda>abs_fn.
      bindX (get_statements env fn abs_fn base (if class then splitext_root base else [])) (\<lambda>ns.
      let moved = (\<not> class \<and> PStr abs_fn \<noteq> oldfile) in
      bindX (if moved then onstore (setVar (pe_data env) ''FILE'' (PStr abs_fn)) else retX ()) (\<lambda>_.
      bindX (catchX (bindX (forX (eval_node env h) ns) (\<lambda>_. retX False))
                (\<lambda>e. if e = SkipRecipe
                     then bindX (onstore (setVar (pe_data env) ''__SKIPPED'' (PBool True))) (\<lambda>_. retX (\<not> included))
                     else raiseX e)) (\<lambda>skip.
      if skip then retX True
      else bindX (getX ps_infunc) (\<lambda>open_func.
           if open_func \<noteq> None then raiseX (ParseError fn)
           else bindX (if moved \<and> truth oldfile then onstore (setVar (pe_data env) ''FILE'' oldfile) else retX ()) (\<lambda>_. retX False)))))))))"

definition bb_extensions :: "string list" where
  "bb_extensions = [''.bb'', ''.bbclass'', ''.inc'']"

text \<open>\<^verbatim>\<open>bb.parse.handle\<close>; the number bounds how deep files include one another.\<close>

fun handle_at :: "nat \<Rightarrow> penv \<Rightarrow> handler" where
  "handle_at 0 env fn = raiseX RecursionError"
| "handle_at (Suc n) env fn =
     (if endswith fn ''.conf'' then conf_handle env (handle_at n env) True False fn
      else if splitext_ext fn \<in> set bb_extensions then bindX (bb_handle env (handle_at n env) True fn) (\<lambda>_. retX ())
      else raiseX (ParseError fn))"

definition parse_conf :: "penv \<Rightarrow> bool \<Rightarrow> string \<Rightarrow> (pstate, unit) sx" where
  "parse_conf env baseconfig fn = conf_handle env (handle_at (pe_depth env) env) False baseconfig fn"

definition parse_recipe :: "penv \<Rightarrow> string \<Rightarrow> (pstate, bool) sx" where
  "parse_recipe env fn = bb_handle env (handle_at (pe_depth env) env) False fn"

end
