(* ===== verification/Continuation.thy ===== *)
theory Continuation
  imports ParseFile
begin

text \<open>Statements on several lines.\<close>

lemma rstrip_stays: "s \<noteq> [] \<Longrightarrow> \<not> is_space (last s) \<Longrightarrow> rstrip_ws s = s"
  by (cases s rule: rev_cases) (simp_all add: rstrip_ws_def)

lemma rstrip_append: "rstrip_ws t \<noteq> [] \<Longrightarrow> rstrip_ws (s @ t) = s @ rstrip_ws t"
  by (auto simp: rstrip_ws_def dropWhile_append)

lemma backslash_no_space: "\<not> is_space backslash"
  by code_simp

lemma rstrip_broken: "rstrip_ws (p @ [backslash]) = p @ [backslash]"
  by (rule rstrip_stays) (simp_all add: backslash_no_space)

definition no_comment :: "string \<Rightarrow> bool" where
  "no_comment s \<longleftrightarrow> s = [] \<or> hd s \<noteq> hash_sign"

text \<open>In recipes: a part waits, and then the line goes on with what waits.\<close>

lemma outside_waits:
  assumes "bs_residue b = [] \<or> (hd (bs_residue b) \<noteq> [] \<and> no_comment (hd (bs_residue b)))" and "no_comment p"
    and "p \<noteq> [] \<or> bs_residue b \<noteq> []"
  shows "bb_outside n (p @ [backslash]) fn cls b = Inr ([], b\<lparr>bs_residue := bs_residue b @ [p]\<rparr>)"
proof -
  have h: "hd (p @ [backslash]) \<noteq> hash_sign" using assms(2)
    by (cases p) (auto simp: no_comment_def backslash_def hash_sign_def)
  then have "check_comment (p @ [backslash]) (bs_residue b) = Inr ()"
    using assms(1) by (cases "bs_residue b") (auto simp: check_comment_def residue_sign_def no_comment_def)
  then show ?thesis by (simp add: bb_outside_def)
qed

lemma bb_lines_wait:
  assumes "bs_infunc b = None" "bs_inpython b = None"
    and "bs_residue b = [] \<or> (hd (bs_residue b) \<noteq> [] \<and> no_comment (hd (bs_residue b)))"
    and "\<forall>p \<in> set ps. no_comment p" and "bs_residue b = [] \<longrightarrow> ps = [] \<or> hd ps \<noteq> []"
  shows "bb_lines n (map (\<lambda>p. p @ [backslash]) ps @ ls) fn root cls (ns, b)
    = bb_lines (n + length ps) ls fn root cls (ns, b\<lparr>bs_residue := bs_residue b @ ps\<rparr>)"
  using assms
proof (induction ps arbitrary: n b)
  case (Cons p ps)
  let ?b = "b\<lparr>bs_residue := bs_residue b @ [p]\<rparr>"
  have o: "bb_outside (Suc n) (p @ [backslash]) fn cls b = Inr ([], ?b)"
    by (rule outside_waits) (use Cons.prems in auto)
  have "bb_lines (Suc n) (map (\<lambda>p. p @ [backslash]) ps @ ls) fn root cls (ns, ?b)
    = bb_lines (Suc n + length ps) ls fn root cls (ns, ?b\<lparr>bs_residue := bs_residue ?b @ ps\<rparr>)"
    by (rule Cons.IH) (use Cons.prems in \<open>auto simp: hd_append\<close>)
  then show ?case using Cons.prems(1,2) by (simp add: rstrip_broken bb_feeder_def o)
qed simp

lemma outside_joins:
  assumes "bs_residue b = p # ps" and "p \<noteq> []" and "no_comment p" and "no_comment l" and "l \<noteq> []" and "last l \<noteq> backslash"
  shows "bb_outside n l fn cls b = bb_outside n (concat (bs_residue b) @ l) fn cls (b\<lparr>bs_residue := []\<rparr>)"
proof -
  have "check_comment l (p # ps) = Inr ()" using assms by (auto simp: check_comment_def residue_sign_def no_comment_def)
  moreover have "check_comment s [] = Inr ()" for s by (simp add: check_comment_def residue_sign_def)
  ultimately show ?thesis using assms by (simp add: bb_outside_def Let_def)
qed

lemma bb_lines_joined:
  assumes b: "bs_infunc b = None" "bs_inpython b = None" "bs_residue b = []"
    and ps: "ps \<noteq> []" "hd ps \<noteq> []" "\<forall>p \<in> set ps. no_comment p"
    and l: "no_comment l" "rstrip_ws l \<noteq> []" "last (rstrip_ws l) \<noteq> backslash"
  shows "bb_lines n (map (\<lambda>p. p @ [backslash]) ps @ l # ls) fn root cls (ns, b)
    = bb_lines (n + length ps) ((concat ps @ l) # ls) fn root cls (ns, b)"
proof -
  obtain p qs where p: "ps = p # qs" using ps(1) by (cases ps) auto
  have c: "no_comment (rstrip_ws l)"
  proof -
    obtain x where "l = rstrip_ws l @ x" by (metis rstrip_ws_def rev_append rev_rev_ident takeWhile_dropWhile_id)
    then have "l \<noteq> []" "hd l = hd (rstrip_ws l)" using l(2) by (metis append_is_Nil_conv, metis hd_append2)
    then show ?thesis using l(1) by (auto simp: no_comment_def)
  qed
  let ?b = "b\<lparr>bs_residue := ps\<rparr>"
  have same: "b\<lparr>bs_residue := []\<rparr> = b" using b(3) by (cases b) simp
  have "bb_outside m (rstrip_ws l) fn cls ?b = bb_outside m (concat ps @ rstrip_ws l) fn cls b" for m
    using outside_joins [of ?b p qs "rstrip_ws l" m fn cls] p ps c l(2,3) same by simp
  moreover have "bb_lines n (map (\<lambda>p. p @ [backslash]) ps @ l # ls) fn root cls (ns, b) = bb_lines (n + length ps) (l # ls) fn root cls (ns, ?b)"
    using bb_lines_wait [of b ps n "l # ls" fn root cls ns] b ps by simp
  ultimately show ?thesis using b rstrip_append [OF l(2), of "concat ps"] by (simp add: bb_feeder_def)
qed

text \<open>In configuration files.\<close>

lemma broken_head: "no_comment s \<Longrightarrow> hd (s @ [backslash]) \<noteq> hash_sign"
  by (cases s) (auto simp: no_comment_def backslash_def hash_sign_def)

lemma join_lines_broken:
  assumes "no_comment s" and "\<forall>p \<in> set ps. no_comment p" and "rstrip_ws l \<noteq> []" and "last (rstrip_ws l) \<noteq> backslash"
  shows "join_lines n (s @ [backslash]) (map (\<lambda>p. p @ [backslash]) ps @ l # ls)
    = Inr (n + Suc (length ps), s @ concat ps @ rstrip_ws l, ls)"
  using assms(1,2)
proof (induction ps arbitrary: n s)
  case Nil
  show ?case using assms(3,4) broken_head [OF Nil(1)] by (subst join_lines.simps, simp, subst join_lines.simps, simp)
next
  case (Cons p ps)
  have c: "no_comment (s @ p)" using Cons.prems by (cases s) (auto simp: no_comment_def)
  have "join_lines n (s @ [backslash]) (map (\<lambda>p. p @ [backslash]) (p # ps) @ l # ls)
    = join_lines (Suc n) ((s @ p) @ [backslash]) (map (\<lambda>p. p @ [backslash]) ps @ l # ls)"
    using broken_head [OF Cons.prems(1)] by (subst join_lines.simps) (simp add: rstrip_broken)
  with Cons.IH [OF c, of "Suc n"] Cons.prems(2) show ?case by simp
qed

lemma strip_ws_nil: "strip_ws s = [] \<longleftrightarrow> (\<forall>c \<in> set s. is_space c)"
proof (cases "dropWhile is_space s")
  case Nil
  then show ?thesis by (auto simp: strip_ws_def dropWhile_eq_Nil_conv dest: set_dropWhileD)
next
  case (Cons c t)
  then have "\<not> is_space c" using hd_dropWhile [of is_space s] by simp
  moreover have "c \<in> set s" using Cons set_dropWhileD [of c is_space s] by simp
  ultimately show ?thesis using Cons by (auto simp: strip_ws_def dropWhile_eq_Nil_conv)
qed

lemma conf_lines_joined:
  assumes ps: "ps \<noteq> []" "\<forall>p \<in> set ps. no_comment p" and l: "rstrip_ws l \<noteq> []" "last (rstrip_ws l) \<noteq> backslash"
  shows "conf_lines n (map (\<lambda>p. p @ [backslash]) ps @ l # ls) = conf_lines (n + length ps) ((concat ps @ l) # ls)"
proof -
  obtain p qs where p: "ps = p # qs" using ps(1) by (cases ps) auto
  have j: "join_lines (Suc n) (p @ [backslash]) (map (\<lambda>p. p @ [backslash]) qs @ l # ls)
    = Inr (Suc n + Suc (length qs), p @ concat qs @ rstrip_ws l, ls)"
    by (rule join_lines_broken) (use ps p l in auto)
  have k: "join_lines m (concat ps @ rstrip_ws l) ls = Inr (m, concat ps @ rstrip_ws l, ls)" for m
    using l by (subst join_lines.simps) simp
  have w: "strip_ws (p @ [backslash]) \<noteq> []" by (auto simp: strip_ws_nil backslash_no_space)
  have "\<not> (\<forall>c \<in> set l. is_space c)" using l(1) by (auto simp: rstrip_ws_def dropWhile_eq_Nil_conv)
  then have v: "strip_ws (concat ps @ l) \<noteq> []" by (auto simp: strip_ws_nil)
  show ?thesis using p j k w v rstrip_append [OF l(1), of "concat ps"] by (simp add: rstrip_broken)
qed

text \<open>C24. Breaking a statement over several lines changes nothing: when each line but the last ends with a backslash, and no
  part is empty at the start, begins with a comment sign or ends in another backslash, a recipe gives the same statements
  and leaves the same state as with the parts written on one line, and so does a configuration file, up to the numbers of
  the lines, which are those of the last part.\<close>

theorem continuation_joined:
  assumes "ps \<noteq> []" and "hd ps \<noteq> []" and "\<forall>p \<in> set ps. no_comment p"
    and "no_comment l" and "rstrip_ws l \<noteq> []" and "last (rstrip_ws l) \<noteq> backslash"
  shows "conf_lines n (map (\<lambda>p. p @ [backslash]) ps @ l # ls) = conf_lines (n + length ps) ((concat ps @ l) # ls)
    \<and> (bs_infunc b = None \<and> bs_inpython b = None \<and> bs_residue b = [] \<longrightarrow>
       bb_lines n (map (\<lambda>p. p @ [backslash]) ps @ l # ls) fn root cls (ns, b)
         = bb_lines (n + length ps) ((concat ps @ l) # ls) fn root cls (ns, b))"
  using conf_lines_joined [OF assms(1,3,5,6)] bb_lines_joined [OF _ _ _ assms(1-6)] by blast

lemma continuation_joined_witness:
  "bb_lines 0 [''A = '' @ [CHR 0x22, backslash], ''  b'' @ [CHR 0x22]] ''x.bb'' ''x.bb'' [] ([], bb_start)
    = bb_lines 1 [''A = '' @ [CHR 0x22] @ ''  b'' @ [CHR 0x22]] ''x.bb'' ''x.bb'' [] ([], bb_start)"
proof -
  have "rstrip_ws (''  b'' @ [CHR 0x22]) = ''  b'' @ [CHR 0x22]" by code_simp
  then show ?thesis
    using continuation_joined [of "[''A = '' @ [CHR 0x22]]" "''  b'' @ [CHR 0x22]" 0 "[]" bb_start "''x.bb''" "''x.bb''" "[]" "[]"]
    by (simp add: no_comment_def hash_sign_def backslash_def bb_start_def del: bb_lines.simps conf_lines.simps)
qed

text \<open>A backslash alone on a line, followed by an empty line, ends in an IndexError, in recipes and in configuration
  files.\<close>

theorem lone_backslash_raises:
  "conf_statements False fn [[backslash], []] = Inl IndexError \<and> bb_statements fn root cls [[backslash], []] = Inl IndexError"
proof -
  have b: "rstrip_ws [backslash] = [backslash]" "strip_ws [backslash] = [backslash]" "rstrip_ws [] = []" by code_simp+
  have j: "join_lines n [backslash] [[]] = Inl IndexError" for n
    by (subst join_lines.simps, simp add: b backslash_def hash_sign_def, subst join_lines.simps, simp)
  have "check_comment [backslash] [] = Inr ()"
    by (simp add: check_comment_def residue_sign_def backslash_def hash_sign_def)
  then show ?thesis
    by (simp add: conf_statements_def bb_statements_def b j bb_feeder_def bb_start_def bb_outside_def check_comment_def
        residue_sign_def)
qed

end
