(* ===== verification/TaskStatements.thy ===== *)
theory TaskStatements
  imports ParseFile
begin

text \<open>
  What \<^verbatim>\<open>addtask\<close> and \<^verbatim>\<open>deltask\<close> make of the list of tasks and their dependencies: a refinement of a
  plan, which is a list of tasks and, for each, the tasks before it.
\<close>

section \<open>The plan in a store\<close>

abbreviation cell :: "datasmart \<Rightarrow> string \<Rightarrow> string \<Rightarrow> pyval option" where
  "cell d w k \<equiv> dget (flags_of w d) k"

definition list_value :: "pyval option \<Rightarrow> string list" where
  "list_value v = (case v of Some (PList xs) \<Rightarrow> xs | _ \<Rightarrow> [])"

definition list_or_none :: "pyval option \<Rightarrow> bool" where
  "list_or_none v = (case v of None \<Rightarrow> True | Some (PList xs) \<Rightarrow> True | _ \<Rightarrow> False)"

type_synonym plan = "string list \<times> (string \<Rightarrow> string list)"

definition plan_of :: "datasmart \<Rightarrow> plan" where
  "plan_of d = (list_value (cell d ''__BBTASKS'' ''_content''), \<lambda>t. list_value (cell d t ''deps''))"

definition plan_before :: "string \<Rightarrow> string \<Rightarrow> (string \<Rightarrow> string list) \<Rightarrow> string \<Rightarrow> string list" where
  "plan_before t e deps = (if t \<in> set (deps e) then deps else deps(e := t # deps e))"

definition words_of :: "string option \<Rightarrow> string list" where
  "words_of s = (case s of None \<Rightarrow> [] | Some s \<Rightarrow> split_ws s)"

definition plan_add :: "string \<Rightarrow> string option \<Rightarrow> string option \<Rightarrow> plan \<Rightarrow> plan" where
  "plan_add name before after p =
     (let t = do_name name
      in (sadd t (fst p), fold (plan_before t) (words_of before) ((snd p)(t := supdate (snd p t) (words_of after)))))"

definition plan_delete :: "string \<Rightarrow> plan \<Rightarrow> plan" where
  "plan_delete name p =
     (let t = do_name name; ts = remove1 t (fst p)
      in (ts, \<lambda>u. if u = t then [] else if u \<in> set ts then remove1 t (snd p u) else snd p u))"

fun plan_node :: "node \<Rightarrow> plan \<Rightarrow> plan" where
  "plan_node (AddTaskNode name before after) p = plan_add name before after p"
| "plan_node (DelTaskNode names) p = fold plan_delete (split_ws names) p"
| "plan_node n p = p"

text \<open>The names whose flags a statement may set, beside those of the tasks on the list.\<close>

fun node_names :: "node \<Rightarrow> string list" where
  "node_names (AddTaskNode name before after) = do_name name # words_of before"
| "node_names n = []"

fun task_node :: "node \<Rightarrow> bool" where
  "task_node (AddTaskNode name before after) = True"
| "task_node (DelTaskNode names) = (\<not> contains_str ''${'' names)"
| "task_node n = False"

text \<open>
  The stores in which the two variables hold lists, nothing waits for the list of tasks, and neither it nor a task on it is
  among the renamed variables.
\<close>

definition plain_name :: "datasmart \<Rightarrow> string \<Rightarrow> bool" where
  "plain_name d v \<longleftrightarrow> v \<noteq> ''BB_RENAMED_VARIABLES'' \<and> \<not> dhas (d_renames d) v"

definition task_store :: "datasmart \<Rightarrow> bool" where
  "task_store d \<longleftrightarrow>
     (\<forall>v \<in> insert ''__BBTASKS'' (set (fst (plan_of d))). plain_name d v) \<and> dget (d_overridedata d) ''__BBTASKS'' = None \<and> ''__BBTASKS'' \<notin> set (d_overridevars d) \<and>
     (\<forall>k \<in> set (''_defaultval'' # setvar_keywords). cell d ''__BBTASKS'' k = None) \<and>
     list_or_none (cell d ''__BBTASKS'' ''_content'') \<and> distinct (fst (plan_of d)) \<and> (\<forall>t. list_or_none (cell d t ''deps''))"

lemma list_valueE: "list_or_none v \<Longrightarrow> v = None \<or> (\<exists>xs. v = Some (PList xs))"
  by (auto simp: list_or_none_def split: option.splits pyval.splits)

lemma list_simps [simp]:
  "list_value (Some (PList xs)) = xs" "list_value None = []" "list_or_none (Some (PList xs))" "list_or_none None"
  by (simp_all add: list_value_def list_or_none_def)

section \<open>Single operations\<close>

text \<open>What the operations keep beside the cells.\<close>

definition same_rest :: "datasmart \<Rightarrow> datasmart \<Rightarrow> bool" where
  "same_rest d d' \<longleftrightarrow> d_renames d' = d_renames d \<and> d_overridedata d' = d_overridedata d \<and> d_overridevars d' = d_overridevars d"

lemma same_rest_trans: "same_rest d e \<Longrightarrow> same_rest e f \<Longrightarrow> same_rest d f"
  by (simp add: same_rest_def)

lemma names_read: "list_or_none v \<Longrightarrow> names_of (case v of Some v \<Rightarrow> v | None \<Rightarrow> PNone) = Inr (list_value v)"
  by (auto dest!: list_valueE simp: names_of_def or_else_def)

lemma set_list_flag:
  assumes "plain_name d w" and "f \<in> {''task'', ''deps''}"
  shows "\<exists>d'. setVarFlag env w f v d = (Inr (), d') \<and> same_rest d d' \<and>
    (\<forall>x k. cell d' x k = (if x = w \<and> k = f then Some v else cell d x k))"
proof -
  let ?d = "put_flag w f v (makeShadowCopy w (drop_cache d))"
  have "setVarFlag env w f v d = (Inr (), ?d)"
    using assms by (subst set_flag_steps) (auto simp: plain_name_def flag_effects_def bindX_def setX_def getX_def retX_def)
  moreover have "same_rest d ?d" by (simp add: same_rest_def put_flag_def drop_cache_def)
  moreover have "own_flags w (makeShadowCopy w (drop_cache d)) = flags_of w d"
    using own_flags_front [of "makeShadowCopy w (drop_cache d)" w] by (simp add: front_shadow)
  then have "\<forall>x k. cell ?d x k = (if x = w \<and> k = f then Some v else cell d x k)"
    by (simp add: put_flag_def dget_dset)
  ultimately show ?thesis by blast
qed

lemma delVarFlag_cells:
  "cell (delVarFlag w f d) x k = (if x = w \<and> k = f then None else cell d x k)"
proof -
  let ?d = "makeShadowCopy w (drop_cache d)"
  have "own_flags w ?d = flags_of w d" using own_flags_front [of ?d w] by (simp add: front_shadow)
  moreover have "flags_of w d = []" if "findVar w (drop_cache d) = None \<or> findVar w (drop_cache d) = Some []"
    using that by (auto simp: flags_of_def findVar_def drop_cache_def)
  ultimately show "cell (delVarFlag w f d) x k = (if x = w \<and> k = f then None else cell d x k)"
    by (auto simp: delVarFlag_def Let_def dget_ddel split: option.split)
qed

lemma delVarFlag_rest: "same_rest d (delVarFlag w f d)"
  by (auto simp: delVarFlag_def Let_def same_rest_def drop_cache_def split: option.split)

text \<open>A variable that no override replaces and no operation waits for is read as it is, and set at once.\<close>

definition at_rest :: "datasmart \<Rightarrow> string \<Rightarrow> bool" where
  "at_rest d v \<longleftrightarrow> dget (d_overridedata d) v = None \<and> (\<forall>k \<in> set (''_defaultval'' # setvar_keywords). cell d v k = None)"

lemma read_at_rest:
  assumes r: "at_rest d v" and e: "0 < de_depth env"
  shows "raw_var env v d = (Inr (case cell d v ''_content'' of Some x \<Rightarrow> x | None \<Rightarrow> PNone), d)"
proof -
  let ?f = "flags_of v d"
  obtain n where n: "de_depth env = Suc n" using e by (cases "de_depth env") auto
  have kw: "dget ?f k = None" if "k \<in> {'':append'', '':prepend'', '':remove''}" for k
    using that r by (auto simp: at_rest_def setvar_keywords_def)
  have ops: "pending_ops g k ?f = retX ([], None)" if "k \<in> {'':append'', '':prepend'', '':remove''}" for g k
    by (simp add: pending_ops_def kw [OF that])
  have none: "apply_ops h ([], None) x = Inr x" for h x by (simp add: apply_ops_def)
  let ?v = "case dget ?f ''_content'' of Some v \<Rightarrow> v | None \<Rightarrow> PNone"
  have l: "local_value ?f ''_content'' False = ?v"
    using r by (simp add: local_value_def at_rest_def dget_default_def split: option.split)
  have raw: "raw_value g ''_content'' False False ?f None = retX ?v" for g
    by (rule ext) (simp add: raw_value_def l ops none bindX_def retX_def liftX_def)
  have rm: "removed_value env g ?f None None = retX None" for g
    by (rule ext) (simp add: removed_value_def ops collect_removes_def known_removes_def bindX_def retX_def liftX_def setX_def)
  have od: "dget (d_overridedata d) v = None" using r by (simp add: at_rest_def)
  have "compute_parse env g v ''_content'' False False False False d = (Inr (?v, None), d)" for g
    using od by (simp add: compute_parse_def bindX_def getX_def retX_def raw rm)
  then show ?thesis
    by (simp add: raw_var_def getVar_def getVarFlag_def getter_of_def n getVarFlag_with_def compute_flag_def bindX_def getX_def
        setX_def retX_def store_parse_def split: option.split)
qed

lemma read_list_at_rest:
  assumes "at_rest d v" and "0 < de_depth env" and "list_or_none (cell d v ''_content'')"
  shows "raw_names env v d = (Inr (list_value (cell d v ''_content'')), d)"
  using read_at_rest [OF assms(1,2)] names_read [OF assms(3)] by (simp add: raw_names_def bindX_def liftX_def)

lemma set_at_rest:
  assumes v: "simple_name v" "\<not> old_syntax v" and rn: "\<not> dhas (d_renames d) v" and od: "dget (d_overridedata d) v = None"
  shows "\<exists>d'. setVar env v x d = (if v \<in> set (d_overridevars d) then setvar_update_overridevars env v x else retX ()) d'
    \<and> same_rest d d' \<and>
    (\<forall>w k. cell d' w k = (if w = v \<and> k = ''_content'' then Some x
        else if w = v \<and> k \<in> set setvar_keywords then None else cell d w k))"
proof -
  let ?d1 = "makeShadowCopy v (drop_cache d)"
  let ?d2 = "put_var v (fold ddel setvar_keywords (own_flags v ?d1)) ?d1"
  let ?d = "put_flag v ''_content'' x ?d2"
  have c: "setvar_match v = None" "colon \<notin> set v" "shortname v = v"
    using setvar_match_simple(2) [OF v(1)] shortname_simple(1) [OF v(1)] v(1) by (auto simp: simple_name_def)
  have own: "own_flags v ?d1 = flags_of v d" using own_flags_front [of ?d1 v] by (simp add: front_shadow)
  have own2: "own_flags v ?d2 = fold ddel setvar_keywords (flags_of v d)"
    using own by (simp add: own_flags_def)
  have cp: "clear_pending env v ?d1 = (Inr (), ?d2)"
    using od by (simp add: clear_pending_def bindX_def setX_def getX_def retX_def drop_cache_def)
  have "set_plain env v x False (drop_cache d)
      = (if v \<in> set (d_overridevars d) then setvar_update_overridevars env v x else retX ()) ?d"
    using c(2) cp by (simp add: set_plain_def bindX_def setX_def getX_def retX_def put_flag_def drop_cache_def)
  then have "setVar env v x d = (if v \<in> set (d_overridevars d) then setvar_update_overridevars env v x else retX ()) ?d"
    using c v(2) rn by (simp add: setVar_def setVar_parsing_def bindX_def setX_def getX_def retX_def)
  moreover have "same_rest d ?d" by (simp add: same_rest_def put_flag_def drop_cache_def)
  moreover have "\<forall>w k. cell ?d w k = (if w = v \<and> k = ''_content'' then Some x
        else if w = v \<and> k \<in> set setvar_keywords then None else cell d w k)"
    using own2 by (simp add: put_flag_def dget_dset dget_fold_ddel)
  ultimately show ?thesis by blast
qed

lemma read_tasks:
  assumes t: "task_store d" and e: "0 < de_depth env"
  shows "raw_names env ''__BBTASKS'' d = (Inr (fst (plan_of d)), d)"
  using read_list_at_rest [of d "''__BBTASKS''" env] assms by (simp add: task_store_def at_rest_def plan_of_def)

lemma read_deps:
  assumes "task_store d" and "0 < de_depth env"
  shows "flag_names env t ''deps'' d = (Inr (snd (plan_of d) t), d)"
proof -
  obtain n where n: "de_depth env = Suc n" using assms(2) by (cases "de_depth env") auto
  have "raw_flag env t ''deps'' d = (Inr (case cell d t ''deps'' of Some v \<Rightarrow> v | None \<Rightarrow> PNone), d)"
    unfolding raw_flag_def by (rule read_flag [OF _ _ n]) simp_all
  moreover have "list_or_none (cell d t ''deps'')" using assms(1) by (simp add: task_store_def)
  ultimately show ?thesis by (simp add: flag_names_def bindX_def liftX_def names_read plan_of_def)
qed

lemma set_tasks:
  assumes t: "task_store d"
  shows "\<exists>d'. setVar env ''__BBTASKS'' (PList ts) d = (Inr (), d') \<and> same_rest d d' \<and>
    (\<forall>x k. cell d' x k = (if x = ''__BBTASKS'' \<and> k = ''_content'' then Some (PList ts)
        else if x = ''__BBTASKS'' \<and> k \<in> set setvar_keywords then None else cell d x k))"
proof -
  have "simple_name ''__BBTASKS''" "\<not> old_syntax ''__BBTASKS''" by code_simp+
  from set_at_rest [OF this, of d env "PList ts"] t show ?thesis by (auto simp: task_store_def plain_name_def retX_def)
qed

section \<open>Operations on the plan\<close>

lemma task_store_keeps:
  assumes "task_store d" and "same_rest d d'" and "distinct (fst (plan_of d'))"
    and "\<forall>v \<in> set (fst (plan_of d')). plain_name d v"
    and "\<And>k. k \<in> set (''_defaultval'' # setvar_keywords) \<Longrightarrow> cell d' ''__BBTASKS'' k = cell d ''__BBTASKS'' k \<or> cell d' ''__BBTASKS'' k = None"
    and "list_or_none (cell d' ''__BBTASKS'' ''_content'')" and "\<And>t. list_or_none (cell d' t ''deps'')"
  shows "task_store d'"
proof -
  have "cell d' ''__BBTASKS'' k = None" if "k \<in> set (''_defaultval'' # setvar_keywords)" for k
    using assms(5) [OF that] assms(1) that unfolding task_store_def by metis
  moreover have "plain_name d' = plain_name d" using assms(2) by (simp add: fun_eq_iff plain_name_def same_rest_def)
  ultimately show ?thesis using assms(1-4,6,7) by (simp add: task_store_def same_rest_def)
qed

text \<open>An operation ends, keeps the store in order, and changes the plan as said.\<close>

definition plans :: "(datasmart, unit) sx \<Rightarrow> (plan \<Rightarrow> plan) \<Rightarrow> datasmart \<Rightarrow> bool" where
  "plans m f d \<longleftrightarrow> (\<exists>d'. m d = (Inr (), d') \<and> task_store d' \<and> plain_name d' = plain_name d \<and> plan_of d' = f (plan_of d))"

lemma same_rest_names: "same_rest d d' \<Longrightarrow> plain_name d' = plain_name d"
  by (simp add: fun_eq_iff plain_name_def same_rest_def)

lemma plans_bind:
  assumes "plans m f d" and "\<And>d'. task_store d' \<Longrightarrow> plain_name d' = plain_name d \<Longrightarrow> plan_of d' = f (plan_of d) \<Longrightarrow> plans k g d'"
  shows "plans (bindX m (\<lambda>_. k)) (g \<circ> f) d"
  using assms unfolding plans_def by (fastforce simp: bindX_def)

lemma plans_for:
  assumes "task_store d" and "\<And>x e. x \<in> set xs \<Longrightarrow> task_store e \<Longrightarrow> plain_name e = plain_name d \<Longrightarrow> plans (m x) (f x) e"
  shows "plans (forX m xs) (fold f xs) d"
  using assms
proof (induction xs arbitrary: d)
  case (Cons x xs)
  from Cons.prems(2) [of x d] Cons.prems(1) obtain d1
    where "m x d = (Inr (), d1)" "task_store d1" "plain_name d1 = plain_name d" "plan_of d1 = f x (plan_of d)"
    by (auto simp: plans_def)
  moreover have "plans (forX m xs) (fold f xs) d1" using Cons.IH [OF calculation(2)] Cons.prems(2) calculation(3) by simp
  ultimately show ?case by (simp add: plans_def bindX_def)
qed (simp add: plans_def)

lemma plans_set_task:
  assumes t: "task_store d" and w: "plain_name d w"
  shows "plans (setVarFlag env w ''task'' (PInt 1)) id d"
proof -
  obtain d' where d': "setVarFlag env w ''task'' (PInt 1) d = (Inr (), d')" "same_rest d d'"
    and c: "\<And>x k. cell d' x k = (if x = w \<and> k = ''task'' then Some (PInt 1) else cell d x k)"
    using set_list_flag [OF w, of "''task''" env "PInt 1"] by auto
  have p: "plan_of d' = plan_of d" by (simp add: plan_of_def c)
  have "task_store d'"
    by (rule task_store_keeps [OF t d'(2)]) (use t p in \<open>auto simp: c task_store_def setvar_keywords_def\<close>)
  with d'(1) p same_rest_names [OF d'(2)] show ?thesis by (auto simp: plans_def)
qed

lemma plans_set_deps:
  assumes t: "task_store d" and w: "plain_name d w"
  shows "plans (setVarFlag env w ''deps'' (PList xs)) (\<lambda>p. (fst p, (snd p)(w := xs))) d"
proof -
  obtain d' where d': "setVarFlag env w ''deps'' (PList xs) d = (Inr (), d')" "same_rest d d'"
    and c: "\<And>x k. cell d' x k = (if x = w \<and> k = ''deps'' then Some (PList xs) else cell d x k)"
    using set_list_flag [OF w, of "''deps''" env "PList xs"] by auto
  have p: "plan_of d' = (fst (plan_of d), (snd (plan_of d))(w := xs))" by (simp add: plan_of_def c fun_eq_iff)
  have "task_store d'"
    by (rule task_store_keeps [OF t d'(2)]) (use t p in \<open>auto simp: c task_store_def setvar_keywords_def\<close>)
  with d'(1) p same_rest_names [OF d'(2)] show ?thesis by (auto simp: plans_def)
qed

lemma plans_set_tasks:
  assumes t: "task_store d" and ts: "distinct ts" "\<forall>v \<in> set ts. plain_name d v"
  shows "plans (setVar env ''__BBTASKS'' (PList ts)) (\<lambda>p. (ts, snd p)) d"
proof -
  obtain d' where d': "setVar env ''__BBTASKS'' (PList ts) d = (Inr (), d')" "same_rest d d'"
    and c: "\<And>x k. cell d' x k = (if x = ''__BBTASKS'' \<and> k = ''_content'' then Some (PList ts)
        else if x = ''__BBTASKS'' \<and> k \<in> set setvar_keywords then None else cell d x k)"
    using set_tasks [OF t, of env ts] by auto
  have p: "plan_of d' = (ts, snd (plan_of d))" by (simp add: plan_of_def c fun_eq_iff setvar_keywords_def)
  have "task_store d'"
    by (rule task_store_keeps [OF t d'(2)]) (use t p ts in \<open>auto simp: c task_store_def setvar_keywords_def\<close>)
  with d'(1) p same_rest_names [OF d'(2)] show ?thesis by (auto simp: plans_def)
qed

lemma plans_delete_flag:
  assumes t: "task_store d" and f: "f \<in> {''task'', ''deps''}"
  shows "plans (setX (delVarFlag w f)) (\<lambda>p. (fst p, if f = ''deps'' then (snd p)(w := []) else snd p)) d"
proof -
  let ?d = "delVarFlag w f d"
  note c = delVarFlag_cells [of _ w f d]
  have p: "plan_of ?d = (fst (plan_of d), if f = ''deps'' then (snd (plan_of d))(w := []) else snd (plan_of d))"
    using f by (auto simp: plan_of_def c fun_eq_iff)
  have "task_store ?d"
    by (rule task_store_keeps [OF t delVarFlag_rest]) (use t p f in \<open>auto simp: c task_store_def setvar_keywords_def\<close>)
  with p same_rest_names [OF delVarFlag_rest] show ?thesis by (auto simp: plans_def setX_def)
qed

lemma plans_skip: "task_store d \<Longrightarrow> plans (retX ()) id d"
  by (simp add: plans_def retX_def)

section \<open>The statements\<close>

lemma plans_before:
  assumes t: "task_store d" and e: "0 < de_depth env" and u: "plain_name d u"
  shows "plans (add_before env w u) (\<lambda>p. (fst p, plan_before w u (snd p))) d"
  using read_deps [OF t e, of u] plans_set_deps [OF t u, of env "w # snd (plan_of d) u"] t
  by (cases "plan_of d") (auto simp: add_before_def plans_def bindX_def retX_def plan_before_def)

lemma fold_snd: "fold (\<lambda>x p. (fst p, g x (snd p))) xs (a, b) = (a, fold g xs b)"
  by (induction xs arbitrary: b) simp_all

lemma plans_addtask:
  assumes t: "task_store d" and e: "0 < de_depth env"
    and u: "plain_name d (do_name name)" "\<forall>u \<in> set (words_of before). plain_name d u"
  shows "plans (addtask env name before after) (plan_add name before after) d"
proof -
  let ?t = "do_name name"
  obtain d1 where d1: "setVarFlag env ?t ''task'' (PInt 1) d = (Inr (), d1)" "task_store d1" "plan_of d1 = plan_of d"
      "plain_name d1 = plain_name d"
    using plans_set_task [OF t u(1), of env] by (auto simp: plans_def)
  let ?ts = "sadd ?t (fst (plan_of d))"
  have "distinct ?ts" using t by (simp add: task_store_def)
  moreover have "\<forall>v \<in> set ?ts. plain_name d1 v" using t u(1) by (auto simp: d1(4) task_store_def)
  ultimately obtain d2
    where d2: "setVar env ''__BBTASKS'' (PList ?ts) d1 = (Inr (), d2)" "task_store d2" "plan_of d2 = (?ts, snd (plan_of d))"
      "plain_name d2 = plain_name d"
    using plans_set_tasks [OF d1(2), of ?ts env] d1(3,4) by (auto simp: plans_def)
  let ?ds = "supdate (snd (plan_of d) ?t) (words_of after)"
  have w: "plain_name d2 ?t" using u(1) by (simp add: d2(4))
  from plans_set_deps [OF d2(2) w, of env ?ds] obtain d3
    where d3: "setVarFlag env ?t ''deps'' (PList ?ds) d2 = (Inr (), d3)" "task_store d3"
      "plan_of d3 = (?ts, (snd (plan_of d))(?t := ?ds))" "plain_name d3 = plain_name d"
    using d2(3,4) by (auto simp: plans_def)
  have "plans (forX (add_before env ?t) (words_of before)) (fold (\<lambda>u p. (fst p, plan_before ?t u (snd p))) (words_of before)) d3"
    by (rule plans_for [OF d3(2)]) (use plans_before [OF _ e] u(2) d3(4) in simp)
  then obtain d4 where d4: "forX (add_before env ?t) (words_of before) d3 = (Inr (), d4)" "task_store d4"
      "plan_of d4 = plan_add name before after (plan_of d)" "plain_name d4 = plain_name d"
    using d3(3,4) by (auto simp: plans_def fold_snd plan_add_def Let_def)
  have ds: "(case after of None \<Rightarrow> snd (plan_of d) ?t | Some s \<Rightarrow> supdate (snd (plan_of d) ?t) (split_ws s)) = ?ds"
    by (simp add: words_of_def supdate_def split: option.split)
  have "addtask env name before after d
    = (case before of None \<Rightarrow> retX () | Some s \<Rightarrow> forX (add_before env ?t) (split_ws s)) d3"
    using read_tasks [OF d1(2) e] read_deps [OF d2(2) e, of ?t] d1 d2 d3 ds by (simp add: addtask_def Let_def bindX_def)
  with d4 show ?thesis by (auto simp: plans_def words_of_def retX_def split: option.splits)
qed

lemma fold_drop:
  assumes "distinct us"
  shows "fold (\<lambda>u p. (fst p, (snd p)(u := remove1 t (snd p u)))) us (ts, g) = (ts, \<lambda>u. if u \<in> set us then remove1 t (g u) else g u)"
  using assms by (induction us arbitrary: g) (auto simp: fun_eq_iff)

lemma plans_drop:
  assumes t: "task_store d" and e: "0 < de_depth env" and u: "plain_name d u"
  shows "plans (drop_dep env w u) (\<lambda>p. (fst p, (snd p)(u := remove1 w (snd p u)))) d"
  using read_deps [OF t e, of u] plans_set_deps [OF t u, of env "remove1 w (snd (plan_of d) u)"] t
  by (cases "plan_of d") (auto simp: drop_dep_def plans_def bindX_def retX_def remove1_idem)

lemma plans_deltask:
  assumes t: "task_store d" and e: "0 < de_depth env"
  shows "plans (deltask env name) (plan_delete name) d"
proof -
  let ?t = "do_name name"
  let ?ts = "remove1 ?t (fst (plan_of d))"
  have dist: "distinct (fst (plan_of d))" using t by (simp add: task_store_def)
  have names: "\<forall>u \<in> set ?ts. plain_name d u"
    using t set_remove1_subset [of ?t "fst (plan_of d)"] by (auto simp: task_store_def)
  have "\<exists>d1. (if ?t \<in> set (fst (plan_of d))
      then bindX (setX (delVarFlag ?t ''task'')) (\<lambda>_. setVar env ''__BBTASKS'' (PList ?ts)) else retX ()) d = (Inr (), d1)
      \<and> task_store d1 \<and> plain_name d1 = plain_name d \<and> plan_of d1 = (?ts, snd (plan_of d))"
  proof (cases "?t \<in> set (fst (plan_of d))")
    case True
    have "plans (bindX (setX (delVarFlag ?t ''task'')) (\<lambda>_. setVar env ''__BBTASKS'' (PList ?ts)))
        ((\<lambda>p. (?ts, snd p)) \<circ> (\<lambda>p. (fst p, if ''task'' = ''deps'' then (snd p)(?t := []) else snd p))) d"
      by (rule plans_bind [OF plans_delete_flag [OF t]]) (use plans_set_tasks dist names in simp_all)
    with True show ?thesis by (simp add: plans_def)
  next
    case False
    then show ?thesis using t by (cases "plan_of d") (simp add: retX_def remove1_idem)
  qed
  then obtain d1 where d1: "(if ?t \<in> set (fst (plan_of d))
      then bindX (setX (delVarFlag ?t ''task'')) (\<lambda>_. setVar env ''__BBTASKS'' (PList ?ts)) else retX ()) d = (Inr (), d1)"
      "task_store d1" "plan_of d1 = (?ts, snd (plan_of d))" "plain_name d1 = plain_name d" by blast
  from plans_delete_flag [OF d1(2), of "''deps''" ?t] obtain d2
    where d2: "delVarFlag ?t ''deps'' d1 = d2" "task_store d2" "plan_of d2 = (?ts, (snd (plan_of d))(?t := []))"
      "plain_name d2 = plain_name d"
    using d1(3,4) by (auto simp: plans_def setX_def)
  have "plans (forX (drop_dep env ?t) ?ts) (fold (\<lambda>u p. (fst p, (snd p)(u := remove1 ?t (snd p u)))) ?ts) d2"
    by (rule plans_for [OF d2(2)]) (use plans_drop [OF _ e] names d2(4) in simp)
  then obtain d3 where d3: "forX (drop_dep env ?t) ?ts d2 = (Inr (), d3)" "task_store d3"
      "plan_of d3 = (?ts, \<lambda>u. if u \<in> set ?ts then remove1 ?t (((snd (plan_of d))(?t := [])) u) else ((snd (plan_of d))(?t := [])) u)"
      "plain_name d3 = plain_name d"
    using d2(3,4) dist by (auto simp: plans_def fold_drop)
  have "?t \<notin> set ?ts" using dist by simp
  then have p: "plan_of d3 = plan_delete name (plan_of d)"
    using d3(3) by (auto simp: plan_delete_def Let_def fun_eq_iff)
  have "deltask env name d = (Inr (), d3)"
    using read_tasks [OF t e] read_tasks [OF d2(2) e] d1(1) d2(1,3) d3(1)
    by (simp add: deltask_def Let_def bindX_def setX_def del: fun_upd_apply)
  with d3(2,4) p show ?thesis by (auto simp: plans_def)
qed

lemma plans_node:
  assumes n: "task_node x" "\<forall>v \<in> set (node_names x). plain_name (ps_store p) v" and t: "task_store (ps_store p)" and e: "0 < de_depth (pe_data env)" "0 < de_rounds (pe_data env)"
  shows "\<exists>d'. eval_node env h x p = (Inr (), p\<lparr>ps_store := d'\<rparr>) \<and> task_store d' \<and> plain_name d' = plain_name (ps_store p)
    \<and> plan_of d' = plan_node x (plan_of (ps_store p))"
proof (cases x)
  case (AddTaskNode name before after)
  with plans_addtask [OF t e(1), of name before after] n(2) show ?thesis by (auto simp: plans_def onstore_def)
next
  case (DelTaskNode names)
  let ?env = "pe_data env" and ?d = "ps_store p"
  obtain k where k: "de_rounds ?env = Suc k" using e(2) by (cases "de_rounds ?env") auto
  have "expand ?env (getter_of ?env) (PStr names) None ?d = (Inr (PStr names), ?d)"
    using n DelTaskNode k by (simp add: expand_def expandWithRefs_def bindX_def retX_def)
  moreover have "plans (forX (deltask ?env) (split_ws names)) (fold plan_delete (split_ws names)) ?d"
    by (rule plans_for [OF t]) (use plans_deltask e(1) in blast)
  ultimately show ?thesis by (auto simp: DelTaskNode plans_def onstore_def eval_deltask_def bindX_def)
qed (use n(1) in auto)

lemma plans_nodes:
  assumes "\<forall>x \<in> set xs. task_node x \<and> (\<forall>v \<in> set (node_names x). plain_name (ps_store p) v)"
    and "task_store (ps_store p)" and "0 < de_depth (pe_data env)" "0 < de_rounds (pe_data env)"
  shows "\<exists>d'. forX (eval_node env h) xs p = (Inr (), p\<lparr>ps_store := d'\<rparr>) \<and> task_store d'
    \<and> plan_of d' = fold plan_node xs (plan_of (ps_store p))"
  using assms(1,2)
proof (induction xs arbitrary: p)
  case Nil
  then show ?case by (intro exI [of _ "ps_store p"]) simp
next
  case (Cons x xs)
  from plans_node [OF _ _ Cons.prems(2) assms(3,4), of x h] Cons.prems(1) obtain d1
    where d1: "eval_node env h x p = (Inr (), p\<lparr>ps_store := d1\<rparr>)" "task_store d1"
      "plan_of d1 = plan_node x (plan_of (ps_store p))" "plain_name d1 = plain_name (ps_store p)"
    by auto
  from Cons.IH [of "p\<lparr>ps_store := d1\<rparr>"] Cons.prems(1) d1(2,4) obtain d2
    where "forX (eval_node env h) xs (p\<lparr>ps_store := d1\<rparr>) = (Inr (), p\<lparr>ps_store := d2\<rparr>)" "task_store d2"
      "plan_of d2 = fold plan_node xs (plan_of d1)" by auto
  with d1(1,3) show ?case by (auto simp: bindX_def)
qed

section \<open>The statements of a file\<close>

text \<open>C22. \<^verbatim>\<open>addtask\<close> and \<^verbatim>\<open>deltask\<close> statements work on a plan, which is a list of tasks and the tasks
  before each: they raise no exception and leave the store with the plan that the statements make of the one before.
  \<^verbatim>\<open>addtask t before bs after as\<close> lists \<^verbatim>\<open>t\<close> once, adds \<^verbatim>\<open>as\<close> behind what \<^verbatim>\<open>t\<close> waits for and puts
  \<^verbatim>\<open>t\<close> in front of what each of \<^verbatim>\<open>bs\<close> waits for; \<^verbatim>\<open>deltask\<close> takes a task off the list and out of
  the dependencies of all listed tasks, but leaves the dependencies of names that were never listed. (On a store where
  both are lists and no override or operation concerns the list of tasks; neither it nor a task on it or named by the
  statements is a renamed variable; the names after \<^verbatim>\<open>deltask\<close> have no references.)\<close>

theorem task_statements_refine:
  assumes "\<forall>x \<in> set xs. task_node x \<and> (\<forall>v \<in> set (node_names x). plain_name (ps_store p) v)"
    and "task_store (ps_store p)" and "0 < de_depth (pe_data env)" and "0 < de_rounds (pe_data env)"
  shows "\<exists>d'. forX (eval_node env h) xs p = (Inr (), p\<lparr>ps_store := d'\<rparr>) \<and> task_store d'
    \<and> plan_of d' = fold plan_node xs (plan_of (ps_store p))"
  by (rule plans_nodes [OF assms])

definition blank_state :: pstate where
  "blank_state = \<lparr>ps_store = new_store, ps_infunc = None, ps_cached = []\<rparr>"

definition blank_penv :: penv where
  "blank_penv =
     \<lparr>pe_data = sample_env, pe_lines = (\<lambda>_. None), pe_exists = (\<lambda>_. False), pe_cwd = ''/'', pe_method = (\<lambda>_ _. None),
      pe_import = (\<lambda>_. None), pe_pylib = (\<lambda>_ _. None), pe_depth = 10,
      pe_filters = []\<rparr>"

definition sample_tasks :: "node list" where
  "sample_tasks =
     [AddTaskNode ''fetch'' None None, AddTaskNode ''patch'' None (Some ''do_fetch''),
      AddTaskNode ''compile'' (Some ''do_build'') (Some ''do_patch do_fetch''), DelTaskNode ''fetch'',
      AddTaskNode ''check'' (Some ''do_compile'') None]"

lemma new_cells: "flags_of v new_store = []"
  by (simp add: flags_of_def findVar_def new_store_def)

lemma task_statements_refine_witness:
  "\<exists>d'. forX (eval_node blank_penv (\<lambda>_. retX ())) sample_tasks blank_state = (Inr (), blank_state\<lparr>ps_store := d'\<rparr>)
    \<and> fst (plan_of d') = [''do_patch'', ''do_compile'', ''do_check'']
    \<and> map (snd (plan_of d')) [''do_patch'', ''do_compile'', ''do_build''] = [[], [''do_check'', ''do_patch''], [''do_compile'']]"
proof -
  have "plan_of new_store = ([], \<lambda>_. [])" by (simp add: plan_of_def new_cells)
  moreover have "fst (fold plan_node sample_tasks ([], \<lambda>_. [])) = [''do_patch'', ''do_compile'', ''do_check'']"
    "map (snd (fold plan_node sample_tasks ([], \<lambda>_. []))) [''do_patch'', ''do_compile'', ''do_build'']
      = [[], [''do_check'', ''do_patch''], [''do_compile'']]"
    by code_simp+
  moreover have "task_store (ps_store blank_state)"
    by (simp add: task_store_def blank_state_def plan_of_def new_cells plain_name_def)
      (simp add: new_store_def bitbake_renamed_vars_def dhas_def)
  moreover have "\<forall>x \<in> set sample_tasks. task_node x \<and> (\<forall>v \<in> set (node_names x). plain_name (ps_store blank_state) v)" "0 < de_depth (pe_data blank_penv)" "0 < de_rounds (pe_data blank_penv)"
    by code_simp+
  ultimately show ?thesis
    using task_statements_refine [of sample_tasks blank_state blank_penv "\<lambda>_. retX ()"] by (auto simp: blank_state_def)
qed

end
