(* ===== verification/IncludeLoop.thy ===== *)
theory IncludeLoop
  imports TaskStatements
begin

text \<open>Configuration files that include one another in a circle.\<close>

section \<open>Files of the circle\<close>

text \<open>A configuration file with a path that needs no expansion.\<close>

definition config_path :: "string \<Rightarrow> bool" where
  "config_path fn \<longleftrightarrow> isabs fn \<and> endswith fn ''.conf'' \<and> \<not> contains_str ''${'' fn \<and> split_ws fn = [fn]"

text \<open>The first statement of the file includes the other one; what follows does not matter.\<close>

definition first_include :: "penv \<Rightarrow> string \<Rightarrow> string \<Rightarrow> bool" where
  "first_include env fn other \<longleftrightarrow>
     (case pe_lines env fn of
        Some ls \<Rightarrow>
          (case conf_statements False fn ls of
             Inr (IncludeNode f line what required # ns) \<Rightarrow> f = fn \<and> what = other
           | _ \<Rightarrow> False)
      | None \<Rightarrow> False)"

lemma first_includeD:
  assumes "first_include env fn other"
  shows "\<exists>ls line required ns. pe_lines env fn = Some ls \<and>
    conf_statements False fn ls = Inr (IncludeNode fn line other required # ns)"
  using assms by (auto simp: first_include_def split: option.splits sum.splits list.splits node.splits)

section \<open>The store\<close>

text \<open>The stores in which a file is entered without further ado: nothing concerns the two variables with the names of files.\<close>

definition file_store :: "datasmart \<Rightarrow> bool" where
  "file_store d \<longleftrightarrow>
     (\<forall>v \<in> {''FILE'', ''__depends''}. at_rest d v \<and> \<not> dhas (d_renames d) v) \<and>
     ''__depends'' \<notin> set (d_overridevars d) \<and> list_or_none (cell d ''__depends'' ''_content'')"

lemma file_names:
  "simple_name ''FILE''" "\<not> old_syntax ''FILE''" "simple_name ''__depends''" "\<not> old_syntax ''__depends''"
  by code_simp+

lemma overridevars_literal:
  assumes "\<not> contains_str ''${'' s" and "de_rounds env = Suc k"
  shows "setvar_update_overridevars env v (PStr s) d = (Inr (), d\<lparr>d_overrides := None, d_cache := []\<rparr>)"
  using assms
  by (simp add: setvar_update_overridevars_def expandWithRefs_def bindX_def retX_def setX_def getX_def parse_names_def new_parse_def)

lemma set_file:
  assumes f: "file_store d" and s: "\<not> contains_str ''${'' s" and e: "de_rounds env = Suc k"
  shows "\<exists>d'. setVar env ''FILE'' (PStr s) d = (Inr (), d') \<and> file_store d'"
proof -
  obtain u where u: "setVar env ''FILE'' (PStr s) d =
      (if ''FILE'' \<in> set (d_overridevars d) then setvar_update_overridevars env ''FILE'' (PStr s) else retX ()) u"
    and r: "same_rest d u" and c: "\<forall>w k. cell u w k = (if w = ''FILE'' \<and> k = ''_content'' then Some (PStr s)
        else if w = ''FILE'' \<and> k \<in> set setvar_keywords then None else cell d w k)"
    using set_at_rest [OF file_names(1,2), of d env "PStr s"] f by (auto simp: file_store_def at_rest_def)
  have "file_store u" using f r c by (auto simp: file_store_def at_rest_def same_rest_def setvar_keywords_def)
  moreover from this have "file_store (u\<lparr>d_overrides := None, d_cache := []\<rparr>)" by (simp add: file_store_def at_rest_def)
  ultimately show ?thesis using u overridevars_literal [OF s e] by (auto simp: retX_def)
qed

lemma mark_file:
  assumes f: "file_store d" and e: "0 < de_depth (pe_data env)"
  shows "\<exists>d'. mark_dependency env fn d = (Inr (), d') \<and> file_store d'"
proof -
  have "raw_names (pe_data env) ''__depends'' d = (Inr (list_value (cell d ''__depends'' ''_content'')), d)"
    using f e by (intro read_list_at_rest) (simp_all add: file_store_def)
  moreover have "\<exists>d'. setVar (pe_data env) ''__depends'' (PList xs) d = (Inr (), d') \<and> file_store d'" for xs
  proof -
    obtain u where u: "setVar (pe_data env) ''__depends'' (PList xs) d = (Inr (), u)"
      and r: "same_rest d u" and c: "\<forall>w k. cell u w k = (if w = ''__depends'' \<and> k = ''_content'' then Some (PList xs)
          else if w = ''__depends'' \<and> k \<in> set setvar_keywords then None else cell d w k)"
      using set_at_rest [OF file_names(3,4), of d "pe_data env" "PList xs"] f by (auto simp: file_store_def at_rest_def retX_def)
    have "file_store u" using f r c by (auto simp: file_store_def at_rest_def same_rest_def setvar_keywords_def)
    with u show ?thesis by blast
  qed
  ultimately show ?thesis using f by (auto simp: mark_dependency_def Let_def bindX_def retX_def)
qed

lemma enter_file:
  assumes f: "file_store d" and e: "0 < de_depth (pe_data env)" and fn: "isabs fn" "pe_lines env fn = Some ls"
  shows "\<exists>d'. resolve_file env fn d = (Inr fn, d') \<and> file_store d'"
  using mark_file [OF f e, of fn] fn by (auto simp: resolve_file_def bindX_def retX_def)

section \<open>The circle\<close>

lemma expand_literal:
  assumes "\<not> contains_str ''${'' s" and "de_rounds (pe_data env) = Suc k"
  shows "expand_text env s d = (Inr s, d)"
  using assms by (simp add: expand_text_def expand_def expandWithRefs_def bindX_def retX_def)

text \<open>A file whose first statement includes a file that ends in a RecursionError ends in one itself.\<close>

lemma include_next:
  assumes i: "first_include env fn other" and p: "config_path fn" "config_path other" "other \<noteq> fn"
    and f: "file_store (ps_store q)" and e: "0 < de_depth (pe_data env)" "de_rounds (pe_data env) = Suc k"
    and h: "\<And>q. file_store (ps_store q) \<Longrightarrow> fst (handle_at n env other q) = Inl RecursionError"
  shows "fst (handle_at (Suc n) env fn q) = Inl RecursionError"
proof -
  obtain ls line required ns where l: "pe_lines env fn = Some ls"
    "conf_statements False fn ls = Inr (IncludeNode fn line other required # ns)" using first_includeD [OF i] by blast
  have fn: "isabs fn" "endswith fn ''.conf''" "\<not> contains_str ''${'' fn"
    and oth: "isabs other" "\<not> contains_str ''${'' other" "split_ws other = [other]" using p by (simp_all add: config_path_def)
  let ?d = "ps_store q"
  have a: "raw_var (pe_data env) ''FILE'' ?d = (Inr (case cell ?d ''FILE'' ''_content'' of Some x \<Rightarrow> x | None \<Rightarrow> PNone), ?d)"
    using f e(1) by (intro read_at_rest) (simp_all add: file_store_def)
  obtain d1 where b: "resolve_file env fn ?d = (Inr fn, d1)" "file_store d1" using enter_file [OF f e(1) fn(1) l(1)] by blast
  obtain d2 where c: "setVar (pe_data env) ''FILE'' (PStr fn) d1 = (Inr (), d2)" "file_store d2"
    using set_file [OF b(2) fn(3) e(2)] by blast
  let ?q = "q\<lparr>ps_store := d2\<rparr>"
  have "fst (handle_at n env other ?q) = Inl RecursionError" by (rule h) (simp add: c(2))
  then obtain r where h': "handle_at n env other ?q = (Inl RecursionError, r)" by (cases "handle_at n env other ?q") simp
  have "include_single_file env (handle_at n env) fn required other ?q = (Inl RecursionError, r)"
    using p(3) oth(1) h' by (simp add: include_single_file_def find_include_def bindX_def onstore_def retX_def catchX_def raiseX_def)
  then have "eval_node env (handle_at n env) (IncludeNode fn line other required) ?q = (Inl RecursionError, r)"
    using oth(3) by (simp add: include_files_def bindX_def onstore_def expand_literal [OF _ e(2)] fn(3) oth(2))
  then show ?thesis
    using a b(1) c(1) l fn(2) by (simp add: conf_handle_def bindX_def onstore_def liftX_def)
qed

lemma circle_deep:
  assumes "\<forall>a \<in> set fns. config_path a \<and> (\<exists>b \<in> set fns. b \<noteq> a \<and> first_include env a b)"
    and "0 < de_depth (pe_data env)" and "de_rounds (pe_data env) = Suc k"
  shows "fn \<in> set fns \<Longrightarrow> file_store (ps_store q) \<Longrightarrow> fst (handle_at n env fn q) = Inl RecursionError"
proof (induction n arbitrary: fn q)
  case (Suc n)
  obtain b where b: "b \<in> set fns" "b \<noteq> fn" "first_include env fn b" using assms(1) Suc.prems(1) by blast
  have "config_path fn" "config_path b" using assms(1) Suc.prems(1) b(1) by blast+
  from include_next [OF b(3) this b(2) Suc.prems(2) assms(2,3)] Suc.IH [OF b(1)] show ?case by blast
qed (simp add: raiseX_def)

text \<open>C25. Only a file that includes itself is left out: configuration files that include each other in a circle are read
  without end. Take any files each of which begins with the inclusion of another one of them (by its absolute path, with
  anything after it): reading one of them ends in a RecursionError, however deep files may include one another. (From
  any store where no override, operation or renaming concerns \<^verbatim>\<open>FILE\<close> and \<^verbatim>\<open>__depends\<close>.)\<close>

theorem include_loop_raises:
  assumes "\<forall>a \<in> set fns. config_path a \<and> (\<exists>b \<in> set fns. b \<noteq> a \<and> first_include env a b)" and "fn \<in> set fns"
    and "file_store (ps_store q)" and "0 < de_depth (pe_data env)" and "0 < de_rounds (pe_data env)"
  shows "fst (handle_at n env fn q) = Inl RecursionError"
proof -
  obtain k where "de_rounds (pe_data env) = Suc k" using assms(5) by (cases "de_rounds (pe_data env)") auto
  from circle_deep [OF assms(1,4) this assms(2,3)] show ?thesis .
qed

definition loop_env :: penv where
  "loop_env = blank_penv\<lparr>pe_lines := (\<lambda>f. if f = ''/a.conf'' then Some [''# first'', ''include /b.conf'', ''A = \"${FILE}\"'']
      else if f = ''/b.conf'' then Some [''require /c.conf'']
      else if f = ''/c.conf'' then Some [''include /a.conf'', ''FILE = \"\"''] else None)\<rparr>"

lemma include_loop_raises_witness:
  "fst (handle_at 1000 loop_env ''/a.conf'' blank_state) = Inl RecursionError"
proof (rule include_loop_raises)
  show "\<forall>a \<in> set [''/a.conf'', ''/b.conf'', ''/c.conf'']. config_path a \<and>
      (\<exists>b \<in> set [''/a.conf'', ''/b.conf'', ''/c.conf'']. b \<noteq> a \<and> first_include loop_env a b)" by code_simp
  show "''/a.conf'' \<in> set [''/a.conf'', ''/b.conf'', ''/c.conf'']" by simp
  show "file_store (ps_store blank_state)" by code_simp
qed code_simp+

end
