(* ===== verification/DepHash.thy ===== *)
theory DepHash
  imports Statements BBUtils
begin

text \<open>
  The dependencies of variables and the base hashes of tasks: the second half of \<^verbatim>\<open>bb/data.py\<close>.
\<close>

section \<open>The surroundings\<close>

text \<open>
  What \<^verbatim>\<open>bb.codeparser\<close> finds: \<open>dp_shell\<close> are the commands of a shell text, \<open>dp_modules\<close> the functions of
  Python modules with their references, calls, tests for contained words and a hash of their text. What it finds in
  Python code is \<open>de_parse\<close> of the store. \<open>dp_hash\<close> is the hash of a text.
\<close>

record modcode =
  mo_refs :: "string list"
  mo_execs :: "string list"
  mo_contains :: "(string, string list) odict"
  mo_extra :: pyval

record depenv =
  dp_data :: denv
  dp_shell :: "string \<Rightarrow> string list result"
  dp_modules :: "(string, modcode) odict"
  dp_hash :: "string \<Rightarrow> string"

text \<open>The store, and the copy of it that gives the text of functions.\<close>

type_synonym stores = "datasmart \<times> datasmart"

definition on_data :: "(datasmart, 'a) sx \<Rightarrow> (stores, 'a) sx" where
  "on_data m s = (case m (fst s) of (r, d) \<Rightarrow> (r, (d, snd s)))"

definition on_code :: "(datasmart, 'a) sx \<Rightarrow> (stores, 'a) sx" where
  "on_code m s = (case m (snd s) of (r, d) \<Rightarrow> (r, (fst s, d)))"

section \<open>Dependencies of a variable\<close>

text \<open>\<^verbatim>\<open>x.split()\<close> of a value, where nothing counts as an empty text.\<close>

definition value_words :: "pyval \<Rightarrow> string list result" where
  "value_words v = (case or_else v (PStr []) of PStr s \<Rightarrow> Inr (split_ws s) | _ \<Rightarrow> Inl AttributeError)"

text \<open>\<^verbatim>\<open>handle_contains\<close>: for each variable and each set of words, whether all words are in the variable.\<close>

definition contains_note :: "string \<Rightarrow> string list \<Rightarrow> string \<Rightarrow> string" where
  "contains_note k l item =
     newline # k @ ''{'' @ item @ (if set (split_ws item) \<subseteq> set l then ''} = Set'' else ''} = Unset'')"

fun contains_notes :: "denv \<Rightarrow> string list \<Rightarrow> (string, string list) odict \<Rightarrow> string list \<Rightarrow> (datasmart, string) sx" where
  "contains_notes env skip contains [] = retX []"
| "contains_notes env skip contains (k # ks) =
     (if k \<in> set skip then contains_notes env skip contains ks
      else bindX (getVar env k True) (\<lambda>v.
           bindX (liftX (value_words v)) (\<lambda>l.
           bindX (contains_notes env skip contains ks) (\<lambda>s.
           retX (concat (map (contains_note k l) (sort (dget_default contains k []))) @ s)))))"

definition handle_contains :: "denv \<Rightarrow> string list \<Rightarrow> pyval \<Rightarrow> (string, string list) odict \<Rightarrow> (datasmart, string) sx" where
  "handle_contains env skip v contains =
     bindX (liftX (if truth v then py_str v else Inr [])) (\<lambda>s.
     bindX (contains_notes env skip contains (sort (dkeys contains))) (\<lambda>t. retX (s @ t)))"

text \<open>
  \<^verbatim>\<open>handle_remove\<close> changes the set of dependencies of its caller, but only until it makes a new one: the caller
  sees the references of the first removal.
\<close>

fun remove_notes :: "denv \<Rightarrow> string list \<Rightarrow> string list \<Rightarrow> string \<times> string list \<Rightarrow> bool \<Rightarrow> (datasmart, string \<times> string list) sx" where
  "remove_notes env skip [] (v, deps) shared = retX (v, deps)"
| "remove_notes env skip (r # rs) (v, deps) shared =
     bindX (expandWithRefs env (getter_of env) (PStr r) None) (\<lambda>r2.
     let v = v @ [newline] @ ''_remove of '' @ r; deps = (if shared then supdate deps (vp_references r2) else deps) in
     bindX (handle_contains env skip (PStr v) (vp_contains r2)) (\<lambda>v. remove_notes env skip rs (v, deps) False))"

definition removal_texts :: "pyval list \<Rightarrow> string list result" where
  "removal_texts rs = foldE (\<lambda>r xs. case r of PStr s \<Rightarrow> Inr (xs @ [s]) | _ \<Rightarrow> Inl TypeError) rs []"

definition handle_remove :: "denv \<Rightarrow> string list \<Rightarrow> string \<Rightarrow> string list \<Rightarrow> pyval list option \<Rightarrow> (datasmart, string \<times> string list) sx" where
  "handle_remove env skip v deps removes =
     (case removes of
        None \<Rightarrow> retX (v, deps)
      | Some rs \<Rightarrow> bindX (liftX (removal_texts rs)) (\<lambda>rs. remove_notes env skip (sort rs) (v, deps) True))"

text \<open>A value with what its expansion referred to.\<close>

definition get_parsed :: "denv \<Rightarrow> string \<Rightarrow> string \<Rightarrow> (datasmart, pyval \<times> varparse) sx" where
  "get_parsed env var flag =
     bindX (getter_of env var flag False False False True) (\<lambda>r.
     case snd r of Some vp \<Rightarrow> retX (fst r, vp) | None \<Rightarrow> raiseX TypeError)"

definition code_text :: "pyval \<Rightarrow> string result" where
  "code_text v = (case or_else v (PStr []) of PStr s \<Rightarrow> Inr s | _ \<Rightarrow> Inl AttributeError)"

definition parse_code :: "denv \<Rightarrow> pyval \<Rightarrow> (string list \<times> string list \<times> (string, string list) odict) result" where
  "parse_code env v = bindE (code_text v) (\<lambda>s. if strip_ws s = [] then Inr ([], [], []) else de_parse env s)"

text \<open>The cases: a function of a module, a flag, a function in Python, a function in shell, and a plain variable.\<close>

definition module_deps :: "depenv \<Rightarrow> string list \<Rightarrow> string list \<Rightarrow> modcode \<Rightarrow> (stores, string list \<times> pyval) sx" where
  "module_deps env keys ignored mo =
     bindX (on_data (handle_contains (dp_data env) ignored (mo_extra mo) (mo_contains mo))) (\<lambda>v.
     retX (sdiff (supdate (mo_refs mo) (sinter keys (mo_execs mo))) ignored, PStr v))"

definition flag_deps :: "depenv \<Rightarrow> string list \<Rightarrow> string list \<Rightarrow> string \<Rightarrow> (stores, string list \<times> pyval) sx" where
  "flag_deps env keys ignored key =
     (case split_on (CHR ''['') (butlast key) of
        var # flag # _ \<Rightarrow>
          if flag = ''vardepvalueexclude'' then retX ([], PStr [])
          else bindX (on_data (get_parsed (dp_data env) var flag)) (\<lambda>(v, vp).
               retX (sdiff (supdate (vp_references vp) (sinter keys (vp_execs vp))) ignored, v))
      | _ \<Rightarrow> raiseX IndexError)"

definition python_deps :: "depenv \<Rightarrow> string list \<Rightarrow> string list \<Rightarrow> string \<Rightarrow> (stores, string list \<times> string) sx" where
  "python_deps env keys skip key =
     bindX (on_code (getVarFlag (dp_data env) key ''_content'' False False False)) (\<lambda>v.
     bindX (liftX (parse_code (dp_data env) v)) (\<lambda>(refs, execs, contains).
     bindX (on_data (handle_contains (dp_data env) skip v contains)) (\<lambda>s.
     retX (supdate refs (sinter keys execs), s))))"

definition shell_deps :: "depenv \<Rightarrow> string list \<Rightarrow> string list \<Rightarrow> string list \<Rightarrow> string \<Rightarrow> (stores, string list \<times> string) sx" where
  "shell_deps env keys exported skip key =
     bindX (on_code (get_parsed (dp_data env) key ''_content'')) (\<lambda>(v, vp).
     bindX (liftX (case vp_value vp of PStr s \<Rightarrow> dp_shell env s | _ \<Rightarrow> Inl OutOfModel)) (\<lambda>execs.
     let deps = supdate (supdate exported (vp_references vp)) (sinter keys (execs @ vp_execs vp)) in
     bindX (on_data (handle_contains (dp_data env) skip v (vp_contains vp))) (\<lambda>s.
     bindX (on_data (handle_remove (dp_data env) skip s deps (vp_removes vp))) (\<lambda>(s, deps). retX (deps, s)))))"

definition plain_deps :: "depenv \<Rightarrow> string list \<Rightarrow> string list \<Rightarrow> string \<Rightarrow> (stores, string list \<times> string) sx" where
  "plain_deps env keys skip key =
     bindX (on_data (get_parsed (dp_data env) key ''_content'')) (\<lambda>(v, vp).
     let deps = supdate (vp_references vp) (sinter keys (vp_execs vp)) in
     bindX (on_data (handle_contains (dp_data env) skip v (vp_contains vp))) (\<lambda>s.
     bindX (on_data (handle_remove (dp_data env) skip s deps (vp_removes vp))) (\<lambda>(s, deps). retX (deps, s))))"

definition read_flags :: "string list" where
  "read_flags = [''vardeps'', ''vardepvalue'', ''vardepsexclude'', ''exports'', ''postfuncs'', ''prefuncs'', ''lineno'', ''filename'']"

text \<open>The words of a flag that is not optional once it is there.\<close>

definition flag_words :: "vardata \<Rightarrow> string \<Rightarrow> string list result" where
  "flag_words flags f =
     (case dget flags f of
        None \<Rightarrow> Inr []
      | Some (PStr s) \<Rightarrow> Inr (split_ws s)
      | Some v \<Rightarrow> Inl AttributeError)"

definition function_deps ::
  "depenv \<Rightarrow> string list \<Rightarrow> string list \<Rightarrow> string list \<Rightarrow> string \<Rightarrow> vardata \<Rightarrow> (stores, string list \<times> string) sx" where
  "function_deps env keys exported skip key flags =
     bindX (if truth (dget_default flags ''python'' PNone) then python_deps env keys skip key
            else shell_deps env keys exported skip key) (\<lambda>(deps, s).
     bindX (liftX (flag_words flags ''prefuncs'')) (\<lambda>pre.
     bindX (liftX (flag_words flags ''postfuncs'')) (\<lambda>post.
     bindX (liftX (flag_words flags ''exports'')) (\<lambda>exports.
     retX (supdate deps (pre @ post @ exports), s)))))"

text \<open>Texts that do not count are cut out of the value.\<close>

definition drop_texts :: "vardata \<Rightarrow> pyval \<Rightarrow> pyval result" where
  "drop_texts flags v =
     (case dget flags ''vardepvalueexclude'' of
        None \<Rightarrow> Inr v
      | Some (PStr s) \<Rightarrow>
          (case filter (\<lambda>e. e \<noteq> []) (split_on (CHR ''|'') s) of
             [] \<Rightarrow> Inr v
           | es \<Rightarrow> (case v of PStr t \<Rightarrow> Inr (PStr (fold (\<lambda>e t. replace_str e [] t) es t)) | _ \<Rightarrow> Inl AttributeError))
      | Some _ \<Rightarrow> Inl AttributeError)"

text \<open>Flags that count: \<^verbatim>\<open>f not in varflagsexcl\<close> is a test on a text, not on a list of words.\<close>

definition counted_flags :: "pyval \<Rightarrow> string \<Rightarrow> vardata \<Rightarrow> string list result" where
  "counted_flags excl key flags =
     (if \<not> truth excl then Inr []
      else case excl of
        PStr s \<Rightarrow> Inr (map (\<lambda>f. key @ ''['' @ f @ '']'') (filter (\<lambda>f. \<not> contains_str f s) (dkeys flags)))
      | _ \<Rightarrow> Inl OutOfModel)"

definition variable_deps ::
  "depenv \<Rightarrow> string list \<Rightarrow> string list \<Rightarrow> pyval \<Rightarrow> string list \<Rightarrow> string \<Rightarrow> (stores, string list \<times> pyval) sx" where
  "variable_deps env keys exported flagsexcl ignored key =
     bindX (on_data (getVarFlags (dp_data env) key read_flags False)) (\<lambda>flags.
     let flags = (case flags of None \<Rightarrow> [] | Some f \<Rightarrow> f) in
     bindX (liftX (flag_words flags ''vardepsexclude'')) (\<lambda>exclusions.
     let skip = exclusions @ ignored in
     bindX (case dget flags ''vardepvalue'' of
              Some v \<Rightarrow> retX ([], v)
            | None \<Rightarrow> bindX (if truth (dget_default flags ''func'' PNone) then function_deps env keys exported skip key flags
                             else plain_deps env keys skip key) (\<lambda>(deps, s). retX (deps, PStr s))) (\<lambda>(deps, v).
     bindX (liftX (drop_texts flags v)) (\<lambda>v.
     bindX (liftX (counted_flags flagsexcl key flags)) (\<lambda>counted.
     bindX (liftX (value_words (dget_default flags ''vardeps'' PNone))) (\<lambda>vardeps.
     retX (sdiff (sdiff (supdate deps (counted @ vardeps)) exclusions) ignored, v)))))))"

definition build_dependencies ::
  "depenv \<Rightarrow> string list \<Rightarrow> string list \<Rightarrow> pyval \<Rightarrow> string list \<Rightarrow> string \<Rightarrow> (stores, string list \<times> pyval) sx" where
  "build_dependencies env keys exported flagsexcl ignored key =
     (case dget (dp_modules env) key of
        Some mo \<Rightarrow> module_deps env keys ignored mo
      | None \<Rightarrow>
          if key = [] then raiseX IndexError
          else if last key = CHR '']'' then flag_deps env keys ignored key
          else variable_deps env keys exported flagsexcl ignored key)"

section \<open>Dependencies of all tasks\<close>

definition flag_boolean :: "pyval \<Rightarrow> bool result" where
  "flag_boolean v =
     (if \<not> truth v then Inr False
      else case v of
        PInt i \<Rightarrow> Inr True
      | PBool b \<Rightarrow> Inr True
      | PStr s \<Rightarrow> bindE (to_boolean s None) (\<lambda>b. Inr (b = Some True))
      | _ \<Rightarrow> Inl AttributeError)"

text \<open>The variables that a shell function sees.\<close>

fun exported_names :: "denv \<Rightarrow> string list \<Rightarrow> (datasmart, string list) sx" where
  "exported_names env [] = retX []"
| "exported_names env (k # ks) =
     bindX (getVarFlag env k ''export'' True False False) (\<lambda>v.
     bindX (liftX (flag_boolean v)) (\<lambda>b.
     bindX (if b then bindX (getVarFlag env k ''unexport'' True False False) (\<lambda>u. bindX (liftX (flag_boolean u)) (\<lambda>u. retX (\<not> u)))
            else retX False) (\<lambda>b.
     bindX (exported_names env ks) (\<lambda>names. retX (if b then sadd k names else names)))))"

definition shell_names :: "denv \<Rightarrow> (datasmart, string list) sx" where
  "shell_names env =
     bindX (raw_var env ''__exportlist'') (\<lambda>v. case v of PList ks \<Rightarrow> exported_names env ks | _ \<Rightarrow> raiseX TypeError)"

definition force_value :: "denv \<Rightarrow> string \<Rightarrow> (datasmart, unit) sx" where
  "force_value env forced =
     (if CHR ''='' \<notin> set forced then raiseX ValueError
      else setVar env (before_first (CHR ''='') forced) (PStr (after_first (CHR ''='') forced)))"

type_synonym gendeps = "(string, string list) odict \<times> (string, pyval) odict"

definition all_deps :: "(string, string list) odict \<Rightarrow> string list \<Rightarrow> string list" where
  "all_deps g ks = fold (\<lambda>k acc. supdate acc (dget_default g k [])) ks []"

text \<open>A name is looked at once; then the names it depends on.\<close>

fun dep_steps :: "(string \<Rightarrow> (stores, string list \<times> pyval) sx) \<Rightarrow> string list \<Rightarrow> gendeps \<Rightarrow> (stores, gendeps) sx" where
  "dep_steps build [] g = retX g"
| "dep_steps build (k # ks) g =
     (if dhas (fst g) k then dep_steps build ks g
      else bindX (build k) (\<lambda>(ds, v). dep_steps build ks (dset k ds (fst g), dset k v (snd g))))"

fun dep_rounds :: "nat \<Rightarrow> (string \<Rightarrow> (stores, string list \<times> pyval) sx) \<Rightarrow> string list \<Rightarrow> string list \<Rightarrow> gendeps \<Rightarrow> (stores, gendeps) sx" where
  "dep_rounds n build seen [] g = retX g"
| "dep_rounds 0 build seen (k # ks) g = raiseX OutOfModel"
| "dep_rounds (Suc n) build seen (k # ks) g =
     bindX (dep_steps build (k # ks) g) (\<lambda>g.
     let seen = supdate seen (k # ks) in dep_rounds n build seen (sdiff (all_deps (fst g) (k # ks)) seen) g)"

fun task_rounds :: "nat \<Rightarrow> (string \<Rightarrow> (stores, string list \<times> pyval) sx) \<Rightarrow> string list \<Rightarrow> gendeps \<Rightarrow> (stores, gendeps) sx" where
  "task_rounds n build [] g = retX g"
| "task_rounds n build (t # ts) g =
     bindX (build t) (\<lambda>(ds, v).
     bindX (dep_rounds n build [] ds (dset t ds (fst g), dset t v (snd g))) (task_rounds n build ts))"

definition generate_dependencies :: "depenv \<Rightarrow> string list \<Rightarrow> (datasmart, string list \<times> gendeps) sx" where
  "generate_dependencies env ignored =
     (let data = dp_data env in
      bindX (store_names data) (\<lambda>names.
      let keys = supdate (filter (\<lambda>k. \<not> startswith k ''__'') names) (dkeys (dp_modules env)) in
      bindX (shell_names data) (\<lambda>exported.
      bindX (getVar data ''BB_SIGNATURE_EXCLUDE_FLAGS'' True) (\<lambda>flagsexcl.
      bindX (bindX (getVar data ''BB_HASH_CODEPARSER_VALS'' True) (\<lambda>v. liftX (value_words v))) (\<lambda>forced.
      bindX (raw_names data ''__BBTASKS'') (\<lambda>tasks d.
      case forX (force_value data) forced (createCopy d) of
        (Inl e, c) \<Rightarrow> (Inl e, d)
      | (Inr u, c) \<Rightarrow>
          (case task_rounds (de_rounds data) (build_dependencies env keys exported flagsexcl ignored) tasks ([], []) (d, c) of
             (r, s) \<Rightarrow> ((case r of Inl e \<Rightarrow> Inl e | Inr g \<Rightarrow> Inr (tasks, g)), fst s))))))))"

section \<open>Base hashes\<close>

text \<open>All names that are needed for some, round by round.\<close>

function dep_closure :: "(string, string list) odict \<Rightarrow> string list \<Rightarrow> string list \<Rightarrow> string list result" where
  "dep_closure g seen new =
     (if new = [] then Inr seen
      else case filter (\<lambda>k. \<not> dhas g k) new of
        k # ks \<Rightarrow> Inl (KeyError k)
      | [] \<Rightarrow> dep_closure g (supdate seen new) (sdiff (all_deps g new) (supdate seen new)))"
  by pat_completeness auto
termination
proof (relation "measures [\<lambda>(g, seen, new). card (set (dkeys g) - set seen),
    \<lambda>(g, seen, new). if new = [] then 0 else if set new \<subseteq> set seen then 2 else (1 :: nat)]", goal_cases)
  case 1
  show ?case by simp
next
  case (2 g seen new)
  let ?new = "sdiff (all_deps g new) (supdate seen new)"
  have k: "set new \<subseteq> set (dkeys g)" using 2(2) by (auto simp: filter_empty_conv dhas_def)
  show ?case
  proof (cases "set new \<subseteq> set seen")
    case True
    then have "set (supdate seen new) = set seen" by auto
    moreover have "set ?new \<inter> set (supdate seen new) = {}" by auto
    then have "?new = [] \<or> \<not> set ?new \<subseteq> set (supdate seen new)" by (metis inf.absorb1 set_empty)
    ultimately show ?thesis using True 2(1) by auto
  next
    case False
    then have "set (dkeys g) - set (supdate seen new) \<subset> set (dkeys g) - set seen" using k by auto
    then have "card (set (dkeys g) - set (supdate seen new)) < card (set (dkeys g) - set seen)"
      by (intro psubset_card_mono) auto
    then show ?thesis by simp
  qed
qed

declare dep_closure.simps [simp del]

text \<open>The text that is hashed: the value of the task, then the names and values of all it needs, in order.\<close>

definition dep_text :: "(string, pyval) odict \<Rightarrow> string \<Rightarrow> string result" where
  "dep_text values k =
     bindE (dindex values k) (\<lambda>v. if v = PNone then Inr k else bindE (py_str v) (\<lambda>s. Inr (k @ s)))"

definition task_text :: "(string, pyval) odict \<Rightarrow> string \<Rightarrow> string list \<Rightarrow> string result" where
  "task_text values task deps =
     bindE (dindex values task) (\<lambda>v.
     bindE (foldE (\<lambda>k s. bindE (dep_text values k) (\<lambda>t. Inr (s @ t))) (sort deps) []) (\<lambda>t.
     case v of PNone \<Rightarrow> Inr t | PStr s \<Rightarrow> Inr (s @ t) | _ \<Rightarrow> Inl TypeError))"

definition hash_one ::
  "(string \<Rightarrow> string) \<Rightarrow> string \<Rightarrow> gendeps \<Rightarrow> string \<Rightarrow> (string, string list) odict \<times> (string, string) odict \<Rightarrow>
    ((string, string list) odict \<times> (string, string) odict) result" where
  "hash_one hash fn g task r =
     bindE (dindex (snd g) task) (\<lambda>_.
     bindE (dindex (fst g) task) (\<lambda>new.
     bindE (dep_closure (fst g) [] new) (\<lambda>seen.
     bindE (task_text (snd g) task seen) (\<lambda>t.
     Inr (dset task seen (fst r), dset (fn @ '':'' @ task) (hash t) (snd r))))))"

definition generate_dependency_hash ::
  "(string \<Rightarrow> string) \<Rightarrow> string list \<Rightarrow> gendeps \<Rightarrow> string \<Rightarrow> ((string, string list) odict \<times> (string, string) odict) result" where
  "generate_dependency_hash hash tasklist g fn = foldE (hash_one hash fn g) tasklist ([], [])"

end
