(* ===== verification/SigGen.thy ===== *)
theory SigGen
  imports DepHash PrepareCheck "HOL-Library.Product_Lexorder"
begin

text \<open>
  The signature generators of \<^verbatim>\<open>bb/siggen.py\<close>: \<^verbatim>\<open>SignatureGeneratorBasic\<close> and \<^verbatim>\<open>SignatureGeneratorBasicHash\<close>,
  what is dumped about a task, and the hashes computed again from it.
\<close>

section \<open>The state of a generator\<close>

record sigstate =
  ss_basehash :: "(string, string) odict"
  ss_taskhash :: "(string, string) odict"
  ss_unihash :: "(string, string option) odict"
  ss_runtaskdeps :: "(string, (string \<times> string) list) odict"
  ss_checksums :: "(string, (string \<times> string) list) odict"
  ss_taints :: "(string, string) odict"
  ss_unitaskhashes :: "(string, string \<times> string) odict"
  ss_tidtopn :: "(string, string) odict"
  ss_setscene :: "string list"
  ss_drawn :: nat

definition no_signatures :: sigstate where
  "no_signatures =
     \<lparr>ss_basehash = [], ss_taskhash = [], ss_unihash = [], ss_runtaskdeps = [], ss_checksums = [], ss_taints = [],
      ss_unitaskhashes = [], ss_tidtopn = [], ss_setscene = [], ss_drawn = 0\<rparr>"

text \<open>
  \<open>sc_ignore\<close> is the search for \<^verbatim>\<open>BB_TASKHASH_IGNORE_TASKS\<close>, \<open>sc_checksums\<close> are the checksums of the files of a
  task, \<open>sc_taint\<close> is the text of a taint file, \<open>sc_uuid\<close> are the random numbers, \<open>sc_hash\<close> is the hash of a text.
\<close>

record sigconf =
  sc_ignore :: "(string \<Rightarrow> bool) option"
  sc_checksums :: "string option \<Rightarrow> string \<Rightarrow> (string \<times> string) list"
  sc_taint :: "string \<Rightarrow> string option"
  sc_uuid :: "nat \<Rightarrow> string"
  sc_hash :: "string \<Rightarrow> string"

definition get_taskdata :: "'z sigstate_scheme \<Rightarrow> (string, (string \<times> string) list) odict \<times> (string, string) odict \<times> (string, string option) odict \<times>
    (string, (string \<times> string) list) odict \<times> (string, string) odict \<times> (string, string) odict \<times> (string, string \<times> string) odict \<times>
    (string, string) odict \<times> string list" where
  "get_taskdata s =
     (ss_runtaskdeps s, ss_taskhash s, ss_unihash s, ss_checksums s, ss_taints s, ss_basehash s, ss_unitaskhashes s, ss_tidtopn s,
      ss_setscene s)"

definition set_taskdata :: "(string, (string \<times> string) list) odict \<times> (string, string) odict \<times> (string, string option) odict \<times>
    (string, (string \<times> string) list) odict \<times> (string, string) odict \<times> (string, string) odict \<times> (string, string \<times> string) odict \<times>
    (string, string) odict \<times> string list \<Rightarrow> 'z sigstate_scheme \<Rightarrow> 'z sigstate_scheme" where
  "set_taskdata x s =
     (case x of (a, b, c, d, e, f, g, h, i) \<Rightarrow>
        s\<lparr>ss_runtaskdeps := a, ss_taskhash := b, ss_unihash := c, ss_checksums := d, ss_taints := e, ss_basehash := f,
          ss_unitaskhashes := g, ss_tidtopn := h, ss_setscene := i\<rparr>)"

definition get_taskhashes :: "'z sigstate_scheme \<Rightarrow> (string, string) odict \<times> (string, string option) odict \<times> (string, string \<times> string) odict \<times>
    (string, string) odict" where
  "get_taskhashes s = (ss_taskhash s, ss_unihash s, ss_unitaskhashes s, ss_tidtopn s)"

definition set_taskhashes :: "(string, string) odict \<times> (string, string option) odict \<times> (string, string \<times> string) odict \<times>
    (string, string) odict \<Rightarrow> 'z sigstate_scheme \<Rightarrow> 'z sigstate_scheme" where
  "set_taskhashes x s =
     (case x of (a, b, c, d) \<Rightarrow> s\<lparr>ss_taskhash := a, ss_unihash := b, ss_unitaskhashes := c, ss_tidtopn := d\<rparr>)"

definition set_setscene_tasks :: "string list \<Rightarrow> 'z sigstate_scheme \<Rightarrow> 'z sigstate_scheme" where
  "set_setscene_tasks ts s = s\<lparr>ss_setscene := ts\<rparr>"

section \<open>Base hashes of a recipe\<close>

definition build_data ::
  "depenv \<Rightarrow> string list \<Rightarrow> string \<Rightarrow> 'z sigstate_scheme \<Rightarrow> (datasmart, 'z sigstate_scheme \<times> (string, string list) odict \<times> gendeps) sx" where
  "build_data env ignored mcfn s =
     bindX (generate_dependencies env ignored) (\<lambda>(tasklist, g).
     bindX (liftX (generate_dependency_hash (dp_hash env) tasklist g mcfn)) (\<lambda>(taskdeps, basehash).
     let tids = map (\<lambda>task. mcfn @ '':'' @ task) tasklist in
     retX (s\<lparr>ss_basehash := fold (\<lambda>tid. dset tid (dget_default basehash tid [])) tids (ss_basehash s)\<rparr>, taskdeps, g)))"

section \<open>Hashes of tasks\<close>

definition build_pnid :: "string \<Rightarrow> string \<Rightarrow> string \<Rightarrow> string" where
  "build_pnid mc pn taskname =
     (if mc \<noteq> [] then ''mc:'' @ mc @ '':'' @ pn @ '':'' @ taskname else pn @ '':'' @ taskname)"

text \<open>A dependency counts unless only its recipe is ignored.\<close>

definition rundep_check :: "sigconf \<Rightarrow> string \<Rightarrow> string \<Rightarrow> bool" where
  "rundep_check c recipename depname =
     (case sc_ignore c of None \<Rightarrow> True | Some search \<Rightarrow> search recipename \<or> \<not> search depname)"

definition read_taint :: "sigconf \<Rightarrow> string \<Rightarrow> string \<Rightarrow> string option" where
  "read_taint c task stampbase = sc_taint c (stampbase @ ''.'' @ task @ ''.taint'')"

definition prep_dep :: "sigconf \<Rightarrow> caches \<Rightarrow> string \<Rightarrow> string \<Rightarrow> string \<Rightarrow> ('z sigstate_scheme, unit) sx" where
  "prep_dep c caches recipename tid dep =
     bindX (liftX (split_tid_mcfn dep)) (\<lambda>(depmc, _, deptask, depmcfn).
     bindX (liftX (bindE (dindex caches depmc) (\<lambda>dc. dindex (dc_pkg_fn dc) depmcfn))) (\<lambda>dep_pn.
     if \<not> rundep_check c recipename dep_pn then retX ()
     else bindX (getX (\<lambda>s. dhas (ss_taskhash s) dep)) (\<lambda>known.
          if \<not> known then raiseX (BBFatal dep)
          else setX (\<lambda>s. s\<lparr>ss_runtaskdeps := dset tid (dget_default (ss_runtaskdeps s) tid [] @ [(build_pnid depmc dep_pn deptask, dep)])
                       (ss_runtaskdeps s)\<rparr>))))"

text \<open>A task without stamp gets a taint of its own, once; a taint file replaces it.\<close>

definition nostamp_taint :: "sigconf \<Rightarrow> string \<Rightarrow> 'z sigstate_scheme \<Rightarrow> 'z sigstate_scheme" where
  "nostamp_taint c tid s =
     (case dget (ss_taints s) tid of
        Some t \<Rightarrow> if startswith t ''nostamp:'' then s
                  else s\<lparr>ss_taints := dset tid (''nostamp:'' @ sc_uuid c (ss_drawn s)) (ss_taints s), ss_drawn := Suc (ss_drawn s)\<rparr>
      | None \<Rightarrow> s\<lparr>ss_taints := dset tid (''nostamp:'' @ sc_uuid c (ss_drawn s)) (ss_taints s), ss_drawn := Suc (ss_drawn s)\<rparr>)"

definition prep_taints :: "sigconf \<Rightarrow> cachedata \<Rightarrow> string \<Rightarrow> string \<Rightarrow> string \<Rightarrow> ('z sigstate_scheme, unit) sx" where
  "prep_taints c dc mcfn task tid =
     bindX (liftX (dindex (dc_task_deps dc) mcfn)) (\<lambda>taskdep.
     bindX (case dget (td_flags taskdep) ''nostamp'' of
              None \<Rightarrow> retX ()
            | Some f \<Rightarrow> if dhas f task then setX (nostamp_taint c tid) else retX ()) (\<lambda>_.
     bindX (liftX (dindex (dc_stamp dc) mcfn)) (\<lambda>stamp.
     case read_taint c task stamp of
       None \<Rightarrow> retX ()
     | Some t \<Rightarrow> if t = [] then retX () else setX (\<lambda>s. s\<lparr>ss_taints := dset tid t (ss_taints s)\<rparr>))))"

definition prep_taskhash :: "sigconf \<Rightarrow> caches \<Rightarrow> string \<Rightarrow> string list \<Rightarrow> ('z sigstate_scheme, string list) sx" where
  "prep_taskhash c caches tid deps =
     bindX (liftX (split_tid_mcfn tid)) (\<lambda>(mc, _, task, mcfn).
     bindX (liftX (dindex caches mc)) (\<lambda>dc.
     bindX (liftX (dindex (dc_basetaskhash dc) tid)) (\<lambda>h.
     bindX (setX (\<lambda>s. s\<lparr>ss_basehash := dset tid h (ss_basehash s), ss_runtaskdeps := dset tid [] (ss_runtaskdeps s),
                        ss_checksums := dset tid [] (ss_checksums s)\<rparr>)) (\<lambda>_.
     bindX (liftX (dindex (dc_pkg_fn dc) mcfn)) (\<lambda>recipename.
     bindX (setX (\<lambda>s. s\<lparr>ss_tidtopn := dset tid recipename (ss_tidtopn s)\<rparr>)) (\<lambda>_.
     bindX (forX (prep_dep c caches recipename tid) deps) (\<lambda>_.
     bindX (liftX (dindex (dc_file_checksums dc) mcfn)) (\<lambda>files.
     bindX (case dget files task of
              None \<Rightarrow> retX ()
            | Some fs \<Rightarrow> setX (\<lambda>s. s\<lparr>ss_checksums := dset tid (sc_checksums c fs recipename) (ss_checksums s)\<rparr>)) (\<lambda>_.
     bindX (prep_taints c dc mcfn task tid) (\<lambda>_.
     getX (\<lambda>s. map snd (dget_default (ss_runtaskdeps s) tid []))))))))))))"

text \<open>The part of a path behind the first \<^verbatim>\<open>/./\<close>, up to the second.\<close>

fun cut_first :: "string \<Rightarrow> string \<Rightarrow> (string \<times> string) option" where
  "cut_first w [] = None"
| "cut_first w (c # cs) =
     (if startswith (c # cs) w then Some ([], drop (length w) (c # cs))
      else case cut_first w cs of None \<Rightarrow> None | Some (a, b) \<Rightarrow> Some (c # a, b))"

definition clean_checksum_file_path :: "string \<times> string \<Rightarrow> string" where
  "clean_checksum_file_path fc =
     (case cut_first ''/./'' (fst fc) of
        None \<Rightarrow> fst fc
      | Some (_, b) \<Rightarrow> ''./'' @ (case cut_first ''/./'' b of None \<Rightarrow> b | Some (a, _) \<Rightarrow> a))"

definition checksum_text :: "string \<times> string \<Rightarrow> string" where
  "checksum_text fc =
     (if snd fc = [] then []
      else (if contains_str ''/./'' (fst fc) then clean_checksum_file_path fc else []) @ snd fc)"

definition taint_text :: "string \<Rightarrow> string" where
  "taint_text t = (if startswith t ''nostamp:'' then drop 8 t else t)"

fun unihash_texts :: "(string \<Rightarrow> ('z sigstate_scheme, string) sx) \<Rightarrow> (string \<times> string) list \<Rightarrow> ('z sigstate_scheme, string) sx" where
  "unihash_texts unihash [] = retX []"
| "unihash_texts unihash (d # ds) = bindX (unihash (snd d)) (\<lambda>h. bindX (unihash_texts unihash ds) (\<lambda>t. retX (h @ t)))"

definition get_taskhash :: "sigconf \<Rightarrow> (string \<Rightarrow> ('z sigstate_scheme, string) sx) \<Rightarrow> string \<Rightarrow> ('z sigstate_scheme, string) sx" where
  "get_taskhash c unihash tid =
     bindX (bindX (getX (\<lambda>s. dindex (ss_basehash s) tid)) liftX) (\<lambda>base.
     bindX (bindX (getX (\<lambda>s. dindex (ss_runtaskdeps s) tid)) liftX) (\<lambda>deps.
     bindX (unihash_texts unihash (sort deps)) (\<lambda>hashes.
     bindX (bindX (getX (\<lambda>s. dindex (ss_checksums s) tid)) liftX) (\<lambda>files.
     bindX (getX (\<lambda>s. dget (ss_taints s) tid)) (\<lambda>taint.
     let h = sc_hash c (base @ hashes @ concat (map checksum_text (sort_key clean_checksum_file_path files)) @
                        (case taint of None \<Rightarrow> [] | Some t \<Rightarrow> taint_text t)) in
     bindX (setX (\<lambda>s. s\<lparr>ss_taskhash := dset tid h (ss_taskhash s)\<rparr>)) (\<lambda>_. retX h))))))"

text \<open>Without a server the unihash is the hash.\<close>

definition plain_unihash :: "string \<Rightarrow> ('z sigstate_scheme, string) sx" where
  "plain_unihash tid = bindX (getX (\<lambda>s. dindex (ss_taskhash s) tid)) liftX"

fun plain_unihashes :: "string list \<Rightarrow> ('z sigstate_scheme, (string, string) odict) sx" where
  "plain_unihashes [] = retX []"
| "plain_unihashes (t # ts) = bindX (plain_unihash t) (\<lambda>h. bindX (plain_unihashes ts) (\<lambda>r. retX ((t, h) # r)))"

section \<open>Stamps\<close>

text \<open>\<^verbatim>\<open>SignatureGeneratorBasicHash.stampfile\<close>; without \<^verbatim>\<open>hash\<close> the name is a pattern.\<close>

definition get_stampfile_hash :: "string \<Rightarrow> 'z sigstate_scheme \<Rightarrow> string result" where
  "get_stampfile_hash tid s = (case dget (ss_taskhash s) tid of Some h \<Rightarrow> Inr h | None \<Rightarrow> dindex (ss_basehash s) tid)"

definition rstrip_dots :: "string \<Rightarrow> string" where
  "rstrip_dots s = rev (dropWhile (\<lambda>c. c = CHR ''.'') (rev s))"

definition stampfile :: "string \<Rightarrow> string \<Rightarrow> string \<Rightarrow> string \<Rightarrow> bool \<Rightarrow> 'z sigstate_scheme \<Rightarrow> string result" where
  "stampfile stampbase mcfn taskname extrainfo clean s =
     (let tid = mcfn @ '':'' @ (if endswith taskname ''_setscene'' then take (length taskname - 9) taskname else taskname)
      in bindE (if clean then Inr ''*'' else get_stampfile_hash tid s) (\<lambda>h.
         Inr (rstrip_dots (stampbase @ ''.'' @ taskname @ ''.'' @ h @ ''.'' @ extrainfo))))"

text \<open>The names of the tasks and their extra information come from the cache.\<close>

definition stamp_extra :: "cachedata \<Rightarrow> string \<Rightarrow> string \<Rightarrow> string result" where
  "stamp_extra dc mcfn taskname =
     bindE (dindex (dc_stamp_extrainfo dc) mcfn) (\<lambda>extra.
     let flagname = (if endswith taskname ''_setscene'' then replace_str ''_setscene'' [] taskname else taskname)
     in Inr (case dget_default extra flagname None of None \<Rightarrow> [] | Some s \<Rightarrow> s))"

definition stampfile_mcfn :: "caches \<Rightarrow> string \<Rightarrow> string \<Rightarrow> bool \<Rightarrow> 'z sigstate_scheme \<Rightarrow> string option result" where
  "stampfile_mcfn caches taskname mcfn extrainfo s =
     bindE (dindex caches (mc_from_tid mcfn)) (\<lambda>dc.
     bindE (dindex (dc_stamp dc) mcfn) (\<lambda>stamp.
     if stamp = [] then Inr None
     else bindE (if extrainfo then stamp_extra dc mcfn taskname else Inr []) (\<lambda>extra.
          bindE (stampfile stamp mcfn taskname extra False s) (\<lambda>f. Inr (Some f)))))"

definition stampcleanmask_mcfn :: "caches \<Rightarrow> string \<Rightarrow> string \<Rightarrow> 'z sigstate_scheme \<Rightarrow> string option result" where
  "stampcleanmask_mcfn caches taskname mcfn s =
     bindE (dindex caches (mc_from_tid mcfn)) (\<lambda>dc.
     bindE (dindex (dc_stamp dc) mcfn) (\<lambda>stamp.
     if stamp = [] then Inr None
     else bindE (stamp_extra dc mcfn taskname) (\<lambda>extra.
          bindE (stampfile stamp mcfn taskname extra True s) (\<lambda>f. Inr (Some f)))))"

section \<open>What is dumped about a task\<close>

record sigdata =
  sd_task :: string
  sd_taskdeps :: "string list"
  sd_basehash :: string
  sd_gendeps :: "(string, string list) odict"
  sd_varvals :: "(string, pyval) odict"
  sd_taint :: "string option"

record runtimedata = sigdata +
  sd_runtaskdeps :: "string list"
  sd_files :: "(string \<times> string) list"
  sd_runtaskhashes :: "(string, string) odict"
  sd_taskhash :: string
  sd_unihash :: string

text \<open>\<open>deps\<close> are the dependencies and values kept from the parsing of the recipe.\<close>

definition dump_base :: "string list \<Rightarrow> string \<Rightarrow> string \<Rightarrow> (string, string list) odict \<times> gendeps \<Rightarrow> 'z sigstate_scheme \<Rightarrow> sigdata result" where
  "dump_base ignored mcfn task deps s =
     bindE (dindex (fst deps) task) (\<lambda>taskdeps.
     bindE (dindex (ss_basehash s) (mcfn @ '':'' @ task)) (\<lambda>basehash.
     bindE (dindex (snd (snd deps)) task) (\<lambda>v.
     bindE (foldE (\<lambda>dep r. if dep \<in> set ignored then Inr r
                           else bindE (dindex (fst (snd deps)) dep) (\<lambda>ds.
                                bindE (dindex (snd (snd deps)) dep) (\<lambda>v. Inr (dset dep ds (fst r), dset dep v (snd r)))))
              taskdeps ([], [(task, v)])) (\<lambda>(gendeps, varvals).
     Inr \<lparr>sd_task = task, sd_taskdeps = taskdeps, sd_basehash = basehash, sd_gendeps = gendeps, sd_varvals = varvals,
          sd_taint = None\<rparr>))))"

definition dumped_file :: "string \<times> string \<Rightarrow> string \<times> string" where
  "dumped_file fc =
     ((if contains_str ''/./'' (fst fc) then clean_checksum_file_path fc else BBUtils.basename (fst fc)), snd fc)"

definition dump_taint :: "sigconf \<Rightarrow> bool \<Rightarrow> string \<Rightarrow> string \<Rightarrow> string \<Rightarrow> 'z sigstate_scheme \<Rightarrow> string option" where
  "dump_taint c runtime tid task stampbase s =
     (let taint = (case read_taint c task stampbase of Some t \<Rightarrow> if t = [] then None else Some t | None \<Rightarrow> None)
      in case dget (ss_taints s) tid of
           Some t \<Rightarrow> if runtime \<and> contains_str ''nostamp:'' t then Some t else taint
         | None \<Rightarrow> taint)"

text \<open>
  With the hashes of a run, each kept under the name of the task it depends on. This is for a task whose hash is known;
  of any other only \<open>dump_base\<close> and the taint are written.
\<close>

fun dump_hashes :: "(string \<Rightarrow> ('z sigstate_scheme, string) sx) \<Rightarrow> (string \<times> string) list \<Rightarrow> (string, string) odict \<Rightarrow> ('z sigstate_scheme, (string, string) odict) sx" where
  "dump_hashes unihash [] r = retX r"
| "dump_hashes unihash (d # ds) r = bindX (unihash (snd d)) (\<lambda>h. dump_hashes unihash ds (dset (fst d) h r))"

definition dump_sigtask ::
  "sigconf \<Rightarrow> (string \<Rightarrow> ('z sigstate_scheme, string) sx) \<Rightarrow> string list \<Rightarrow> string \<Rightarrow> string \<Rightarrow> string \<Rightarrow>
    (string, string list) odict \<times> gendeps \<Rightarrow> ('z sigstate_scheme, runtimedata) sx" where
  "dump_sigtask c unihash ignored mcfn task stampbase deps =
     (let tid = mcfn @ '':'' @ task in
      bindX (getX (\<lambda>s. dhas (ss_taskhash s) tid)) (\<lambda>known.
      if \<not> known then raiseX OutOfModel else
      bindX (bindX (getX (dump_base ignored mcfn task deps)) liftX) (\<lambda>d.
      bindX (bindX (getX (\<lambda>s. dindex (ss_runtaskdeps s) tid)) liftX) (\<lambda>rundeps.
      bindX (bindX (getX (\<lambda>s. dindex (ss_checksums s) tid)) liftX) (\<lambda>files.
      bindX (dump_hashes unihash rundeps []) (\<lambda>hashes.
      bindX (bindX (getX (\<lambda>s. dindex (ss_taskhash s) tid)) liftX) (\<lambda>taskhash.
      bindX (unihash tid) (\<lambda>uni.
      bindX (getX (dump_taint c True tid task stampbase)) (\<lambda>taint.
      retX (sigdata.extend (d\<lparr>sd_taint := taint\<rparr>)
        (runtimedata.fields (map fst (sort rundeps)) (map dumped_file (sort_key clean_checksum_file_path files)) hashes
          taskhash uni)))))))))))"

text \<open>The hashes computed again from what was dumped.\<close>

definition calc_basehash :: "(string \<Rightarrow> string) \<Rightarrow> 'a sigdata_scheme \<Rightarrow> string result" where
  "calc_basehash hash d =
     bindE (dindex (sd_varvals d) (sd_task d)) (\<lambda>v.
     bindE (case v of PNone \<Rightarrow> Inr [] | PStr s \<Rightarrow> Inr s | _ \<Rightarrow> Inl TypeError) (\<lambda>base.
     bindE (foldE (\<lambda>dep s.
              bindE (dindex (sd_varvals d) dep) (\<lambda>v.
              if v = PNone then Inr (s @ dep) else bindE (py_str v) (\<lambda>t. Inr (s @ dep @ t)))) (sort (sd_taskdeps d)) base) (\<lambda>t.
     Inr (hash t))))"

definition calc_file :: "string \<times> string \<Rightarrow> string" where
  "calc_file fc = (if snd fc = [] then [] else (if contains_str ''./'' (fst fc) then fst fc else []) @ snd fc)"

definition calc_taint :: "string \<Rightarrow> string" where
  "calc_taint t = (if contains_str ''nostamp:'' t then drop 8 t else t)"

definition calc_taskhash :: "(string \<Rightarrow> string) \<Rightarrow> runtimedata \<Rightarrow> string result" where
  "calc_taskhash hash d =
     bindE (foldE (\<lambda>dep s. bindE (dindex (sd_runtaskhashes d) dep) (\<lambda>h. Inr (s @ h))) (sd_runtaskdeps d) (sd_basehash d)) (\<lambda>t.
     Inr (hash (t @ concat (map calc_file (sd_files d)) @ (case sd_taint d of None \<Rightarrow> [] | Some t \<Rightarrow> calc_taint t))))"

end
