(* ===== verification/HashLaws.thy ===== *)
theory HashLaws
  imports DepHash
begin

text \<open>What a base hash depends on.\<close>

section \<open>The names a task needs\<close>

definition dep_edges :: "(string, string list) odict \<Rightarrow> (string \<times> string) set" where
  "dep_edges g = {(a, b). b \<in> set (dget_default g a [])}"

lemma all_deps_set: "set (all_deps g ks) = (\<Union>k \<in> set ks. set (dget_default g k []))"
proof -
  have "set (fold (\<lambda>k acc. supdate acc (dget_default g k [])) ks acc) = set acc \<union> (\<Union>k \<in> set ks. set (dget_default g k []))" for acc
    by (induction ks arbitrary: acc) auto
  then show ?thesis by (simp add: all_deps_def)
qed

lemma dep_closure_reaches:
  assumes "dep_closure g seen new = Inr out" and "set seen \<union> set new \<subseteq> (dep_edges g)\<^sup>* `` X" and "X \<subseteq> set seen \<union> set new"
    and "\<forall>a \<in> set seen. dep_edges g `` {a} \<subseteq> set seen \<union> set new"
  shows "set out = (dep_edges g)\<^sup>* `` X"
  using assms
proof (induction g seen new rule: dep_closure.induct)
  case (1 g seen new)
  show ?case
  proof (cases "new = []")
    case True
    then have out: "out = seen" using 1(2) by (simp add: dep_closure.simps)
    have "b \<in> set seen" if "(a, b) \<in> (dep_edges g)\<^sup>*" "a \<in> X" for a b
      using that
    proof (induction rule: rtrancl_induct)
      case base
      then show ?case using 1(4) True by auto
    next
      case (step y z)
      then show ?case using 1(5) True by fastforce
    qed
    then show ?thesis using out 1(3) by auto
  next
    case False
    let ?seen = "supdate seen new" and ?new = "sdiff (all_deps g new) (supdate seen new)"
    have f: "filter (\<lambda>k. \<not> dhas g k) new = []" and r: "dep_closure g ?seen ?new = Inr out"
      using 1(2) False by (subst (asm) dep_closure.simps; simp split: list.splits)+
    have e: "dep_edges g `` {a} = set (dget_default g a [])" for a by (auto simp: dep_edges_def)
    have new: "set ?new \<subseteq> (dep_edges g)\<^sup>* `` X"
    proof
      fix b assume "b \<in> set ?new"
      then obtain a where "a \<in> set new" "(a, b) \<in> dep_edges g" by (auto simp: all_deps_set dep_edges_def)
      moreover from this 1(3) obtain x where "x \<in> X" "(x, a) \<in> (dep_edges g)\<^sup>*" by auto
      ultimately show "b \<in> (dep_edges g)\<^sup>* `` X" by (meson ImageI rtrancl.rtrancl_into_rtrancl)
    qed
    show ?thesis
    proof (rule 1(1) [OF False f r])
      show "set ?seen \<union> set ?new \<subseteq> (dep_edges g)\<^sup>* `` X" using new 1(3) by (simp del: set_sdiff)
      show "X \<subseteq> set ?seen \<union> set ?new" using 1(4) by auto
      show "\<forall>a \<in> set ?seen. dep_edges g `` {a} \<subseteq> set ?seen \<union> set ?new" 
      proof
        fix a assume "a \<in> set ?seen"
        then consider "a \<in> set seen" | "a \<in> set new" by auto
        then show "dep_edges g `` {a} \<subseteq> set ?seen \<union> set ?new"
        proof cases
          case 1
          then show ?thesis using \<open>\<forall>a \<in> set seen. dep_edges g `` {a} \<subseteq> set seen \<union> set new\<close> by auto
        next
          case 2
          then have "dep_edges g `` {a} \<subseteq> set (all_deps g new)" by (auto simp: e all_deps_set)
          then show ?thesis by auto
        qed
      qed
    qed
  qed
qed

lemma dep_closure_start:
  assumes "dep_closure g [] (dget_default g t []) = Inr out"
  shows "set out = (dep_edges g)\<^sup>+ `` {t}"
proof -
  have "set out = (dep_edges g)\<^sup>* `` set (dget_default g t [])" by (rule dep_closure_reaches [OF assms]) auto
  moreover have "set (dget_default g t []) = dep_edges g `` {t}" by (auto simp: dep_edges_def)
  ultimately show ?thesis by (auto simp: trancl_unfold_left)
qed

lemma dep_closure_distinct: "dep_closure g seen new = Inr out \<Longrightarrow> distinct seen \<Longrightarrow> distinct out"
proof (induction g seen new rule: dep_closure.induct)
  case (1 g seen new)
  show ?case
  proof (cases "new = []")
    case False
    then have "filter (\<lambda>k. \<not> dhas g k) new = []" "dep_closure g (supdate seen new) (sdiff (all_deps g new) (supdate seen new)) = Inr out"
      using 1(2) by (subst (asm) dep_closure.simps; simp split: list.splits)+
    from 1(1) [OF False this] 1(3) show ?thesis by simp
  qed (use 1 in \<open>simp add: dep_closure.simps\<close>)
qed

lemma dep_closure_known: "dep_closure g seen new = Inr out \<Longrightarrow> set seen \<subseteq> set (dkeys g) \<Longrightarrow> set out \<subseteq> set (dkeys g)"
proof (induction g seen new rule: dep_closure.induct)
  case (1 g seen new)
  show ?case
  proof (cases "new = []")
    case False
    then have f: "filter (\<lambda>k. \<not> dhas g k) new = []" "dep_closure g (supdate seen new) (sdiff (all_deps g new) (supdate seen new)) = Inr out"
      using 1(2) by (subst (asm) dep_closure.simps; simp split: list.splits)+
    have "set (supdate seen new) \<subseteq> set (dkeys g)" using f(1) 1(3) by (auto simp: filter_empty_conv dhas_def)
    from 1(1) [OF False f this] show ?thesis .
  qed (use 1 in \<open>simp add: dep_closure.simps\<close>)
qed

section \<open>Base hashes\<close>

lemma hash_one_result:
  assumes "hash_one hash fn g task r = Inr r'"
  shows "\<exists>seen t. set seen = (dep_edges (fst g))\<^sup>+ `` {task} \<and> distinct seen \<and> set seen \<subseteq> set (dkeys (fst g)) \<and>
    task_text (snd g) task (sorted_list_of_set ((dep_edges (fst g))\<^sup>+ `` {task})) = Inr t \<and>
    r' = (dset task seen (fst r), dset (fn @ '':'' @ task) (hash t) (snd r))"
proof -
  from assms obtain new seen t where new: "dindex (fst g) task = Inr new" and seen: "dep_closure (fst g) [] new = Inr seen"
    and t: "task_text (snd g) task seen = Inr t" and r: "r' = (dset task seen (fst r), dset (fn @ '':'' @ task) (hash t) (snd r))"
    by (auto simp: hash_one_def bindE_eq_Inr)
  have "new = dget_default (fst g) task []" using new by (simp add: dindex_eq_Inr dget_default_def)
  with seen have s: "set seen = (dep_edges (fst g))\<^sup>+ `` {task}" by (simp add: dep_closure_start)
  have d: "distinct seen" "set seen \<subseteq> set (dkeys (fst g))" using dep_closure_distinct [OF seen] dep_closure_known [OF seen] by simp_all
  have "sort seen = sorted_list_of_set (set seen)" by (rule sort_distinct [OF d(1)])
  moreover have "sort (sorted_list_of_set (set seen)) = sorted_list_of_set (set seen)" by (simp add: sort_key_id_if_sorted)
  ultimately have "task_text (snd g) task (sorted_list_of_set (set seen)) = task_text (snd g) task seen" by (simp add: task_text_def)
  with t have t': "task_text (snd g) task (sorted_list_of_set ((dep_edges (fst g))\<^sup>+ `` {task})) = Inr t" by (simp only: s)
  show ?thesis by (intro exI [of _ seen] exI [of _ t] conjI) (rule s d t' r)+
qed

definition base_hash_of :: "(string \<Rightarrow> string) \<Rightarrow> string \<Rightarrow> gendeps \<Rightarrow> string \<Rightarrow> (string, string list) odict \<times> (string, string) odict \<Rightarrow> bool" where
  "base_hash_of hash fn g task r \<longleftrightarrow>
     (\<exists>seen t. dget (fst r) task = Some seen \<and> set seen = (dep_edges (fst g))\<^sup>+ `` {task} \<and>
       distinct seen \<and> set seen \<subseteq> set (dkeys (fst g)) \<and>
       task_text (snd g) task (sorted_list_of_set ((dep_edges (fst g))\<^sup>+ `` {task})) = Inr t \<and>
       dget (snd r) (fn @ '':'' @ task) = Some (hash t))"

lemma base_hashes:
  "foldE (hash_one hash fn g) ts r = Inr r' \<Longrightarrow> task \<in> set ts \<or> base_hash_of hash fn g task r \<Longrightarrow> base_hash_of hash fn g task r'"
proof (induction ts arbitrary: r)
  case (Cons t ts)
  from Cons.prems(1) obtain r1 where r1: "hash_one hash fn g t r = Inr r1" "foldE (hash_one hash fn g) ts r1 = Inr r'"
    by (auto simp: bindE_eq_Inr)
  from hash_one_result [OF r1(1)] have "task = t \<or> base_hash_of hash fn g task r \<Longrightarrow> base_hash_of hash fn g task r1"
    by (auto simp: base_hash_of_def dget_dset)
  with Cons.IH [OF r1(2)] Cons.prems(2) show ?case by auto
qed simp

section \<open>No name is missing\<close>

definition closed_deps :: "(string, string list) odict \<Rightarrow> string set \<Rightarrow> bool" where
  "closed_deps g new \<longleftrightarrow> (\<forall>k \<in> set (dkeys g). set (dget_default g k []) \<subseteq> set (dkeys g) \<union> new)"

lemma dep_closure_total:
  assumes "closed_deps g {}" and "set new \<subseteq> set (dkeys g)"
  shows "\<exists>out. dep_closure g seen new = Inr out"
  using assms
proof (induction g seen new rule: dep_closure.induct)
  case (1 g seen new)
  show ?case
  proof (cases "new = []")
    case False
    have f: "filter (\<lambda>k. \<not> dhas g k) new = []" using 1(3) by (auto simp: filter_empty_conv dhas_def)
    have "set (sdiff (all_deps g new) (supdate seen new)) \<subseteq> set (dkeys g)"
      using 1(2,3) by (fastforce simp: all_deps_set closed_deps_def)
    from 1(1) [OF False f 1(2) this] False f show ?thesis by (simp add: dep_closure.simps [of g seen new])
  qed (simp add: dep_closure.simps)
qed

lemma dep_steps_result:
  "dep_steps build ks g s = (Inr g', s') \<Longrightarrow> dkeys (fst g) = dkeys (snd g) \<Longrightarrow>
    dkeys (fst g') = dkeys (snd g') \<and> set (dkeys (fst g')) = set (dkeys (fst g)) \<union> set ks \<and>
    (\<forall>k \<in> set (dkeys (fst g)). dget (fst g') k = dget (fst g) k)"
proof (induction build ks g arbitrary: s rule: dep_steps.induct)
  case (1 build g)
  then show ?case by (simp add: retX_def)
next
  case (2 build k ks g)
  show ?case
  proof (cases "dhas (fst g) k")
    case True
    then have k: "k \<in> set (dkeys (fst g))" by (simp add: dhas_def)
    have "dep_steps build ks g s = (Inr g', s')" using 2(3) True by simp
    from 2(1) [OF True this 2(4)] have ih: "dkeys (fst g') = dkeys (snd g')" "set (dkeys (fst g')) = set (dkeys (fst g)) \<union> set ks"
      "\<forall>j \<in> set (dkeys (fst g)). dget (fst g') j = dget (fst g) j" by blast+
    have "set (dkeys (fst g)) \<union> set ks = set (dkeys (fst g)) \<union> set (k # ks)" using k unfolding list.set by blast
    with ih show ?thesis by metis
  next
    case False
    with 2(3) obtain ds v t where "build k s = (Inr (ds, v), t)" and r: "dep_steps build ks (dset k ds (fst g), dset k v (snd g)) t = (Inr g', s')"
      by (auto simp: bindX_Inr)
    have k: "k \<notin> set (dkeys (fst g))" using False by (simp add: dhas_def)
    have e: "dkeys (dset k ds (fst g)) = dkeys (dset k v (snd g))"
      using 2(4) k dkeys_dset_absent [of k "fst g" ds] dkeys_dset_absent [of k "snd g" v] by simp
    have h: "set (dkeys (dset k ds (fst g))) = insert k (set (dkeys (fst g)))" by (rule keys_dset)
    have ih: "dkeys (fst g') = dkeys (snd g') \<and> set (dkeys (fst g')) = set (dkeys (dset k ds (fst g))) \<union> set ks \<and>
        (\<forall>j \<in> set (dkeys (dset k ds (fst g))). dget (fst g') j = dget (dset k ds (fst g)) j)"
      using 2(2) [OF False r] e unfolding fst_conv snd_conv by blast
    have "dget (fst g') j = dget (fst g) j" if "j \<in> set (dkeys (fst g))" for j
    proof -
      have "j \<noteq> k" using that k by blast
      moreover have "dget (fst g') j = dget (dset k ds (fst g)) j" using ih h that by blast
      ultimately show ?thesis by (simp add: dget_dset)
    qed
    moreover have "set (dkeys (fst g')) = set (dkeys (fst g)) \<union> set (k # ks)" using ih h unfolding list.set by blast
    ultimately show ?thesis using ih by blast
  qed
qed

lemma dep_rounds_closed:
  assumes "dep_rounds n build seen new g s = (Inr g', s')" and "dkeys (fst g) = dkeys (snd g)" and "closed_deps (fst g) (set new)"
    and "set seen \<subseteq> set (dkeys (fst g))"
  shows "dkeys (fst g') = dkeys (snd g') \<and> closed_deps (fst g') {} \<and> set (dkeys (fst g)) \<union> set new \<subseteq> set (dkeys (fst g'))"
  using assms
proof (induction n build seen new g arbitrary: s rule: dep_rounds.induct)
  case (1 n build seen g)
  then show ?case by (simp add: retX_def)
next
  case (2 build seen k ks g)
  then show ?case by (simp add: raiseX_def)
next
  case (3 n build seen k ks g)
  let ?new = "k # ks"
  let ?seen = "supdate seen ?new"
  from 3(2) obtain g1 t where d: "dep_steps build ?new g s = (Inr g1, t)"
    and r: "dep_rounds n build ?seen (sdiff (all_deps (fst g1) ?new) ?seen) g1 t = (Inr g', s')"
    unfolding dep_rounds.simps Let_def bindX_Inr by blast
  note st = dep_steps_result [OF d 3(3)]
  have seen: "set ?seen \<subseteq> set (dkeys (fst g1))" using st 3(5) unfolding set_supdate by blast
  have c: "closed_deps (fst g1) (set (sdiff (all_deps (fst g1) ?new) ?seen))"
    unfolding closed_deps_def
  proof (rule ballI)
    fix j assume j: "j \<in> set (dkeys (fst g1))"
    show "set (dget_default (fst g1) j []) \<subseteq> set (dkeys (fst g1)) \<union> set (sdiff (all_deps (fst g1) ?new) ?seen)"
    proof (cases "j \<in> set ?new")
      case True
      then have "set (dget_default (fst g1) j []) \<subseteq> set (all_deps (fst g1) ?new)" unfolding all_deps_set by blast
      then show ?thesis using seen unfolding set_sdiff by blast
    next
      case False
      with j st have old: "j \<in> set (dkeys (fst g))" by blast
      then have "dget (fst g1) j = dget (fst g) j" using st by blast
      then have "dget_default (fst g1) j [] = dget_default (fst g) j []" by (simp add: dget_default_def)
      moreover have "set (dget_default (fst g) j []) \<subseteq> set (dkeys (fst g)) \<union> set ?new" using 3(4) old unfolding closed_deps_def by blast
      moreover have "set (dkeys (fst g)) \<union> set ?new = set (dkeys (fst g1))" using st by blast
      ultimately show ?thesis by (metis sup.coboundedI1)
    qed
  qed
  from 3(1) [OF refl r _ c seen] st show ?case by blast
qed

lemma task_rounds_closed:
  "task_rounds n build ts g s = (Inr g', s') \<Longrightarrow> dkeys (fst g) = dkeys (snd g) \<Longrightarrow> closed_deps (fst g) {} \<Longrightarrow>
    dkeys (fst g') = dkeys (snd g') \<and> closed_deps (fst g') {} \<and> set (dkeys (fst g)) \<union> set ts \<subseteq> set (dkeys (fst g'))"
proof (induction ts arbitrary: g s)
  case Nil
  then show ?case by (simp add: retX_def)
next
  case (Cons t ts)
  from Cons.prems(1) obtain ds v u g1 w where b: "build t s = (Inr (ds, v), u)"
    and r: "dep_rounds n build [] ds (dset t ds (fst g), dset t v (snd g)) u = (Inr g1, w)"
    and ts: "task_rounds n build ts g1 w = (Inr g', s')"
    by (auto simp: bindX_Inr)
  let ?g = "(dset t ds (fst g), dset t v (snd g))"
  have k: "dkeys (fst ?g) = dkeys (snd ?g)"
    using Cons.prems(2) dkeys_dset_present [of t "fst g" ds] dkeys_dset_present [of t "snd g" v]
      dkeys_dset_absent [of t "fst g" ds] dkeys_dset_absent [of t "snd g" v] by (cases "t \<in> set (dkeys (fst g))") simp_all
  have h: "set (dkeys (fst ?g)) = insert t (set (dkeys (fst g)))" unfolding fst_conv by (rule keys_dset)
  have c: "closed_deps (fst ?g) (set ds)"
    unfolding closed_deps_def
  proof (rule ballI)
    fix j assume "j \<in> set (dkeys (fst ?g))"
    then have "j = t \<or> j \<in> set (dkeys (fst g))" using h by blast
    moreover have "set (dget_default (fst g) j []) \<subseteq> set (dkeys (fst g))" if "j \<in> set (dkeys (fst g))"
      using Cons.prems(3) that unfolding closed_deps_def by blast
    ultimately show "set (dget_default (fst ?g) j []) \<subseteq> set (dkeys (fst ?g)) \<union> set ds"
      using h by (auto simp: dget_default_dset_if)
  qed
  have s: "set [] \<subseteq> set (dkeys (fst ?g))" by simp
  note d = dep_rounds_closed [OF r k c s]
  have d1: "dkeys (fst g1) = dkeys (snd g1)" "closed_deps (fst g1) {}" "insert t (set (dkeys (fst g))) \<subseteq> set (dkeys (fst g1))"
    using d h by blast+
  from Cons.IH [OF ts d1(1,2)] d1(3) show ?case unfolding list.set by blast
qed

lemma reach_keys:
  assumes "closed_deps g {}" and "set new \<subseteq> set (dkeys g)" and "dep_closure g [] new = Inr out"
  shows "set out \<subseteq> set (dkeys g)"
proof -
  have "set out = (dep_edges g)\<^sup>* `` set new" by (rule dep_closure_reaches [OF assms(3)]) auto
  moreover have "b \<in> set (dkeys g)" if "(a, b) \<in> (dep_edges g)\<^sup>*" "a \<in> set (dkeys g)" for a b
    using that
  proof (induction rule: rtrancl_induct)
    case (step y z)
    then have "y \<in> set (dkeys g)" "z \<in> set (dget_default g y [])" by (simp_all add: dep_edges_def)
    then show ?case using assms(1) unfolding closed_deps_def by blast
  qed
  ultimately show ?thesis using assms(2) by blast
qed

lemma text_no_missing:
  assumes "set ks \<subseteq> set (dkeys vs)"
  shows "foldE (\<lambda>k s. bindE (dep_text vs k) (\<lambda>t. Inr (s @ t))) ks s \<noteq> Inl (KeyError x)"
  using assms
proof (induction ks arbitrary: s)
  case (Cons k ks)
  then obtain v where v: "dindex vs k = Inr v" using dhas_index [of vs k] by (auto simp: dhas_def)
  have "dep_text vs k \<noteq> Inl (KeyError x)"
    by (cases "py_str v") (auto simp: dep_text_def v py_str_def split: pyval.splits if_splits)
  with Cons show ?case by (cases "dep_text vs k") auto
qed simp

lemma hash_one_no_missing:
  assumes c: "closed_deps (fst g) {}" and k: "set (dkeys (snd g)) = set (dkeys (fst g))" and t: "t \<in> set (dkeys (fst g))"
  shows "hash_one hash fn g t r \<noteq> Inl (KeyError x)"
proof -
  obtain v where v: "dindex (snd g) t = Inr v" using dhas_index [of "snd g" t] t k by (auto simp: dhas_def)
  obtain new where new: "dindex (fst g) t = Inr new" using dhas_index [of "fst g" t] t by (auto simp: dhas_def)
  then have "dget_default (fst g) t [] = new" by (simp add: dindex_eq_Inr dget_default_def)
  then have "set new \<subseteq> set (dkeys (fst g))" using c t unfolding closed_deps_def by blast
  moreover from dep_closure_total [OF c this] obtain seen where seen: "dep_closure (fst g) [] new = Inr seen" by blast
  ultimately have "set (sort seen) \<subseteq> set (dkeys (snd g))" using reach_keys [OF c] k by simp
  from text_no_missing [OF this, of "[]" x] have "task_text (snd g) t seen \<noteq> Inl (KeyError x)"
    by (auto simp: task_text_def v bindE_def split: sum.splits pyval.splits)
  then show ?thesis by (auto simp: hash_one_def v new seen bindE_def split: sum.splits)
qed

lemma hashes_no_missing:
  assumes "closed_deps (fst g) {}" and "set (dkeys (snd g)) = set (dkeys (fst g))" and "set ts \<subseteq> set (dkeys (fst g))"
  shows "foldE (hash_one hash fn g) ts r \<noteq> Inl (KeyError x)"
  using assms(3)
proof (induction ts arbitrary: r)
  case (Cons t ts)
  then have "hash_one hash fn g t r \<noteq> Inl (KeyError x)" by (intro hash_one_no_missing [OF assms(1,2)]) simp
  with Cons show ?case by (cases "hash_one hash fn g t r") auto
qed simp

lemma generated_closed:
  assumes "generate_dependencies env ignored d = (Inr (ts, g), d')"
  shows "dkeys (fst g) = dkeys (snd g)" and "closed_deps (fst g) {}" and "set ts \<subseteq> set (dkeys (fst g))"
proof -
  define g0 :: gendeps where "g0 = ([], [])"
  from assms obtain n build s s' where r: "task_rounds n build ts g0 s = (Inr g, s')"
    unfolding generate_dependencies_def Let_def bindX_Inr g0_def by (fastforce split: prod.splits sum.splits)
  have "dkeys (fst g0) = dkeys (snd g0)" "closed_deps (fst g0) {}" by (simp_all add: g0_def closed_deps_def)
  from task_rounds_closed [OF r this]
  show "dkeys (fst g) = dkeys (snd g)" "closed_deps (fst g) {}" "set ts \<subseteq> set (dkeys (fst g))" by blast+
qed

section \<open>Properties\<close>

text \<open>C26. The base hash of a task is the hash of one text: the value of the task, then, in the order of the names, the name
  and value of every variable, function and flag that the task depends on, directly or not; and these are the dependencies
  that are kept for it. So the rounds of the search find exactly the transitive dependencies, and neither their
  order nor the order of the sets matters.\<close>

theorem base_hash_text:
  assumes "generate_dependency_hash hash ts g fn = Inr (taskdeps, basehash)" and "task \<in> set ts"
  shows "\<exists>seen t. dget taskdeps task = Some seen \<and> set seen = (dep_edges (fst g))\<^sup>+ `` {task} \<and>
    task_text (snd g) task (sorted_list_of_set ((dep_edges (fst g))\<^sup>+ `` {task})) = Inr t \<and>
    dget basehash (fn @ '':'' @ task) = Some (hash t)"
proof -
  have "base_hash_of hash fn g task (taskdeps, basehash)"
    using base_hashes [of hash fn g ts "([], [])" "(taskdeps, basehash)" task] assms by (simp add: generate_dependency_hash_def)
  then show ?thesis by (auto simp: base_hash_of_def)
qed

definition sample_deps :: gendeps where
  "sample_deps =
     ([(''do_a'', [''B'', ''f'']), (''f'', [''C'']), (''B'', [''f'']), (''C'', [''B'']), (''D'', [])],
      [(''do_a'', PStr ''run''), (''f'', PStr ''x''), (''B'', PNone), (''C'', PStr ''y''), (''D'', PStr ''z'')])"

lemma sample_hash:
  "generate_dependency_hash (\<lambda>s. s) [''do_a''] sample_deps ''a.bb''
    = Inr ([(''do_a'', [''B'', ''f'', ''C''])], [(''a.bb:do_a'', ''runBCyfx'')])"
  by code_simp

lemma base_hash_text_witness:
  "set [''B'', ''f'', ''C''] = (dep_edges (fst sample_deps))\<^sup>+ `` {''do_a''}"
proof -
  have "''do_a'' \<in> set [''do_a'']" by simp
  from base_hash_text [OF sample_hash this] show ?thesis by auto
qed

text \<open>C27. A change to what a task does not need leaves its base hash as it is: two runs over dependencies and values that
  agree on the task and everything it needs give it the same hash.\<close>

theorem base_hash_local:
  assumes "generate_dependency_hash hash ts g fn = Inr (td, bh)" and "generate_dependency_hash hash ts' g' fn = Inr (td', bh')"
    and "task \<in> set ts" and "task \<in> set ts'"
    and "\<forall>k \<in> (dep_edges (fst g))\<^sup>* `` {task}. dget (fst g') k = dget (fst g) k \<and> dget (snd g') k = dget (snd g) k"
  shows "dget bh (fn @ '':'' @ task) = dget bh' (fn @ '':'' @ task)"
proof -
  let ?E = "dep_edges (fst g)" and ?E' = "dep_edges (fst g')"
  have e: "(a, b) \<in> ?E' \<longleftrightarrow> (a, b) \<in> ?E" if "a \<in> ?E\<^sup>* `` {task}" for a b
    using assms(5) that by (simp add: dep_edges_def dget_default_def)
  have "b \<in> ?E\<^sup>+ `` {task} \<longleftrightarrow> b \<in> ?E'\<^sup>+ `` {task}" for b
  proof
    assume "b \<in> ?E\<^sup>+ `` {task}"
    then have "(task, b) \<in> ?E\<^sup>+" by simp
    then have "(task, b) \<in> ?E'\<^sup>+"
    proof (induction rule: trancl_induct)
      case (base y)
      then show ?case using e [of task y] by auto
    next
      case (step y z)
      then show ?case using e [of y z] by (meson ImageI singletonI trancl.trancl_into_trancl trancl_into_rtrancl)
    qed
    then show "b \<in> ?E'\<^sup>+ `` {task}" by simp
  next
    assume "b \<in> ?E'\<^sup>+ `` {task}"
    then have "(task, b) \<in> ?E'\<^sup>+" by simp
    then have "(task, b) \<in> ?E\<^sup>+"
    proof (induction rule: trancl_induct)
      case (base y)
      then show ?case using e [of task y] by auto
    next
      case (step y z)
      then show ?case using e [of y z] by (meson ImageI singletonI trancl.trancl_into_trancl trancl_into_rtrancl)
    qed
    then show "b \<in> ?E\<^sup>+ `` {task}" by simp
  qed
  then have r: "?E\<^sup>+ `` {task} = ?E'\<^sup>+ `` {task}" by blast
  have h: "base_hash_of hash fn g task (td, bh)" "base_hash_of hash fn g' task (td', bh')"
    using base_hashes [of hash fn g ts "([], [])" "(td, bh)" task] base_hashes [of hash fn g' ts' "([], [])" "(td', bh')" task] assms(1-4)
    by (simp_all add: generate_dependency_hash_def)
  then obtain seen where seen: "set seen = ?E\<^sup>+ `` {task}" by (auto simp: base_hash_of_def)
  have same: "dindex (snd g') k = dindex (snd g) k" if "k = task \<or> k \<in> set seen" for k
  proof -
    have "k \<in> ?E\<^sup>* `` {task}" using that seen by (auto intro: trancl_into_rtrancl)
    then show ?thesis using assms(5) by (simp add: dindex_def)
  qed
  have "dep_text (snd g') k = dep_text (snd g) k" if "k \<in> set seen" for k using same that by (simp add: dep_text_def)
  then have fold: "foldE (\<lambda>k s. bindE (dep_text (snd g') k) (\<lambda>t. Inr (s @ t))) ks s = foldE (\<lambda>k s. bindE (dep_text (snd g) k) (\<lambda>t. Inr (s @ t))) ks s"
    if "set ks \<subseteq> set seen" for ks and s :: string
    using that by (induction ks arbitrary: s) (auto simp: bindE_def split: sum.split)
  have "finite (?E\<^sup>+ `` {task})" using seen by (metis finite_set)
  then have "task_text (snd g') task (sorted_list_of_set (?E\<^sup>+ `` {task})) = task_text (snd g) task (sorted_list_of_set (?E\<^sup>+ `` {task}))"
    using same seen by (simp add: task_text_def sort_key_id_if_sorted fold)
  with h r show ?thesis by (auto simp: base_hash_of_def)
qed

lemma base_hash_local_witness:
  "dget [(''a.bb:do_a'', ''runBCyfx'')] ''a.bb:do_a'' =
    dget (snd (projr (generate_dependency_hash (\<lambda>s. s) [''do_a''] (fst sample_deps, dset ''D'' (PStr ''new'') (snd sample_deps)) ''a.bb''))) ''a.bb:do_a''"
proof -
  have g: "generate_dependency_hash (\<lambda>s. s) [''do_a''] (fst sample_deps, dset ''D'' (PStr ''new'') (snd sample_deps)) ''a.bb''
    = Inr ([(''do_a'', [''B'', ''f'', ''C''])], [(''a.bb:do_a'', ''runBCyfx'')])" by code_simp
  have c: "\<forall>a \<in> {''do_a'', ''B'', ''f'', ''C''}. \<forall>b \<in> set (dget_default (fst sample_deps) a []). b \<in> {''do_a'', ''B'', ''f'', ''C''}" by code_simp
  have "b \<in> {''do_a'', ''B'', ''f'', ''C''}" if "(''do_a'', b) \<in> (dep_edges (fst sample_deps))\<^sup>*" for b
    using that
  proof (induction rule: rtrancl_induct)
    case (step y z)
    then show ?case using c unfolding dep_edges_def by blast
  qed simp
  moreover have "''D'' \<notin> {''do_a'', ''B'', ''f'', ''C''}" by simp
  ultimately have k: "(''do_a'', ''D'') \<notin> (dep_edges (fst sample_deps))\<^sup>*" by blast
  have "\<forall>k \<in> (dep_edges (fst sample_deps))\<^sup>* `` {''do_a''}.
     dget (fst (fst sample_deps, dset ''D'' (PStr ''new'') (snd sample_deps))) k = dget (fst sample_deps) k \<and>
     dget (snd (fst sample_deps, dset ''D'' (PStr ''new'') (snd sample_deps))) k = dget (snd sample_deps) k"
  proof
    fix x assume "x \<in> (dep_edges (fst sample_deps))\<^sup>* `` {''do_a''}"
    with k have "x \<noteq> ''D''" by (metis Image_singleton_iff)
    then show "dget (fst (fst sample_deps, dset ''D'' (PStr ''new'') (snd sample_deps))) x = dget (fst sample_deps) x \<and>
       dget (snd (fst sample_deps, dset ''D'' (PStr ''new'') (snd sample_deps))) x = dget (snd sample_deps) x"
      unfolding fst_conv snd_conv dget_dset by (simp only: if_False simp_thms)
  qed
  from base_hash_local [OF sample_hash g _ _ this] show ?thesis by (simp add: g)
qed

text \<open>Hashing never looks for a name in vain: whatever \<^verbatim>\<open>generate_dependencies\<close> returns holds the dependencies and the
  value of every name that some task needs, so that \<^verbatim>\<open>generate_dependency_hash\<close> raises no KeyError on it.\<close>

theorem no_dependency_missing:
  assumes "generate_dependencies env ignored d = (Inr (ts, g), d')"
  shows "generate_dependency_hash hash ts g fn \<noteq> Inl (KeyError k)"
proof -
  note c = generated_closed [OF assms]
  have "set (dkeys (snd g)) = set (dkeys (fst g))" using c(1) by simp
  from hashes_no_missing [OF c(2) this c(3)] show ?thesis by (simp only: generate_dependency_hash_def not_False_eq_True)
qed

definition sample_depenv :: depenv where
  "sample_depenv = \<lparr>dp_data = sample_env, dp_shell = (\<lambda>s. Inr []), dp_modules = [], dp_hash = (\<lambda>s. s)\<rparr>"

definition sample_recipe :: datasmart where
  "sample_recipe = new_store\<lparr>d_layers :=
     [[(''do_a'', [(''_content'', PStr ''run ${B}''), (''task'', PInt 1), (''vardeps'', PStr ''C'')]),
       (''B'', [(''_content'', PStr ''b ${D}'')]), (''D'', [(''_content'', PStr ''d'')]), (''C'', [(''_content'', PStr ''c'')]),
       (''X'', [(''_content'', PStr ''r1 r2 r3''), ('':remove'', POps [(PStr ''${R1}'', None), (PStr ''${R2}'', None)])]),
       (''R1'', [(''_content'', PStr ''r1'')]), (''R2'', [(''_content'', PStr ''r2'')]),
       (''__BBTASKS'', [(''_content'', PList [''do_a''])]), (''__exportlist'', [(''_content'', PList [])])]]\<rparr>"

lemma sample_generates:
  "fst (generate_dependencies sample_depenv [] sample_recipe) =
     Inr ([''do_a''], [(''do_a'', [''B'', ''C'']), (''B'', [''D'']), (''C'', []), (''D'', [])],
       [(''do_a'', PStr ''run ${B}''), (''B'', PStr ''b ${D}''), (''C'', PStr ''c''), (''D'', PStr ''d'')])"
  by code_simp

lemma no_dependency_missing_witness:
  "generate_dependency_hash (\<lambda>s. s) [''do_a'']
     ([(''do_a'', [''B'', ''C'']), (''B'', [''D'']), (''C'', []), (''D'', [])],
      [(''do_a'', PStr ''run ${B}''), (''B'', PStr ''b ${D}''), (''C'', PStr ''c''), (''D'', PStr ''d'')]) ''a.bb'' \<noteq> Inl (KeyError ''D'')"
  by (rule no_dependency_missing [of sample_depenv "[]" sample_recipe _ _ "snd (generate_dependencies sample_depenv [] sample_recipe)"])
    (use sample_generates in \<open>simp add: prod_eq_iff\<close>)

text \<open>A variable with two removals depends on the references of the first only: in the example X loses the words of R1
  and R2 and reads as r3, but only R1 is in the dependencies, so that a change of R2 changes the value of X and no hash.\<close>

theorem second_removal_not_a_dependency:
  "fst (variable_deps sample_depenv [''X'', ''R1'', ''R2''] [] PNone [] ''X'' (sample_recipe, createCopy sample_recipe))
     = Inr ([''R1''], PStr (''r1 r2 r3'' @ [newline] @ ''_remove of ${R1}'' @ [newline] @ ''_remove of ${R2}''))
   \<and> fst (getVar sample_env ''X'' True sample_recipe) = Inr (PStr ''  r3'')"
  by code_simp

end
