(* ===== verification/SigLaws.thy ===== *)
theory SigLaws
  imports SigGen HashLaws
begin

text \<open>The hashes of tasks: what is dumped gives them back, and they depend on one another as the tasks do.\<close>

section \<open>Base hashes again\<close>

lemma dump_fold:
  assumes "foldE (\<lambda>dep r. if dep \<in> set ignored then Inr r
      else bindE (dindex gd dep) (\<lambda>ds. bindE (dindex vs dep) (\<lambda>v. Inr (dset dep ds (fst r), dset dep v (snd r))))) deps r = Inr r'"
    and "\<forall>d \<in> set deps. d \<notin> set ignored"
  shows "\<forall>k. dget (snd r') k = (if k \<in> set deps then dget vs k else dget (snd r) k)"
  using assms
proof (induction deps arbitrary: r)
  case (Cons d ds)
  then obtain a v where v: "dindex vs d = Inr v"
    and r: "foldE (\<lambda>dep r. if dep \<in> set ignored then Inr r
      else bindE (dindex gd dep) (\<lambda>ds. bindE (dindex vs dep) (\<lambda>v. Inr (dset dep ds (fst r), dset dep v (snd r))))) ds
        (dset d a (fst r), dset d v (snd r)) = Inr r'"
    by (auto simp: bindE_eq_Inr)
  have "dget vs d = Some v" using v by (simp add: dindex_eq_Inr)
  with Cons.IH [OF r] Cons.prems(2) show ?case by (auto simp: dget_dset)
qed simp

lemma dump_total:
  assumes "\<forall>d \<in> set deps. dhas gd d \<and> dhas vs d"
  shows "\<exists>r'. foldE (\<lambda>dep r. if dep \<in> set ignored then Inr r
      else bindE (dindex gd dep) (\<lambda>ds. bindE (dindex vs dep) (\<lambda>v. Inr (dset dep ds (fst r), dset dep v (snd r))))) deps r = Inr r'"
  using assms by (induction deps arbitrary: r) (auto simp: dindex_has)

lemma foldE_shift:
  "foldE (\<lambda>k s. bindE (f k) (\<lambda>t. Inr (s @ t))) ks [] = Inr t \<Longrightarrow> foldE (\<lambda>k s. bindE (f k) (\<lambda>t. Inr (s @ t))) ks s = Inr (s @ t)"
proof -
  have "foldE (\<lambda>k s. bindE (f k) (\<lambda>t. Inr (s @ t))) ks a = Inr b \<Longrightarrow>
      \<exists>t. b = a @ t \<and> (\<forall>s. foldE (\<lambda>k s. bindE (f k) (\<lambda>t. Inr (s @ t))) ks s = Inr (s @ t))" for a b
  proof (induction ks arbitrary: a)
    case (Cons k ks)
    from Cons.prems obtain x where x: "f k = Inr x" "foldE (\<lambda>k s. bindE (f k) (\<lambda>t. Inr (s @ t))) ks (a @ x) = Inr b"
      by (auto simp: bindE_eq_Inr)
    from Cons.IH [OF x(2)] obtain t where "b = (a @ x) @ t" "\<forall>s. foldE (\<lambda>k s. bindE (f k) (\<lambda>t. Inr (s @ t))) ks s = Inr (s @ t)"
      by blast
    with x(1) show ?case by (intro exI [of _ "x @ t"]) simp
  qed simp
  then show "foldE (\<lambda>k s. bindE (f k) (\<lambda>t. Inr (s @ t))) ks [] = Inr t \<Longrightarrow> foldE (\<lambda>k s. bindE (f k) (\<lambda>t. Inr (s @ t))) ks s = Inr (s @ t)"
    by fastforce
qed

lemma calc_base:
  assumes t: "task_text vs task deps = Inr t" and same: "\<forall>k \<in> insert task (set deps). dget (sd_varvals d) k = dget vs k"
    and d: "sd_task d = task" "sd_taskdeps d = deps"
  shows "calc_basehash hash d = Inr (hash t)"
proof -
  from t obtain v x where v: "dindex vs task = Inr v" and x: "foldE (\<lambda>k s. bindE (dep_text vs k) (\<lambda>t. Inr (s @ t))) (sort deps) [] = Inr x"
    and vt: "(case v of PNone \<Rightarrow> Inr x | PStr s \<Rightarrow> Inr (s @ x) | _ \<Rightarrow> Inl TypeError) = Inr t"
    by (auto simp: task_text_def bindE_eq_Inr)
  have "dget (sd_varvals d) task = dget vs task" using same by blast
  with v have v': "dindex (sd_varvals d) task = Inr v" by (simp add: dindex_eq_Inr)
  have fold: "foldE (\<lambda>dep s. bindE (dindex (sd_varvals d) dep) (\<lambda>v. if v = PNone then Inr (s @ dep) else bindE (py_str v) (\<lambda>t. Inr (s @ dep @ t)))) ks s
      = foldE (\<lambda>k s. bindE (dep_text vs k) (\<lambda>t. Inr (s @ t))) ks s" if "set ks \<subseteq> set deps" for ks s
    using that
  proof (induction ks arbitrary: s)
    case (Cons k ks)
    have "dget (sd_varvals d) k = dget vs k" using same Cons.prems by (simp only: list.set) blast
    then have "dindex (sd_varvals d) k = dindex vs k" by (simp add: dindex_def)
    with Cons show ?case by (auto simp: dep_text_def bindE_def split: sum.split)
  qed simp
  from vt obtain base where base: "(case v of PNone \<Rightarrow> Inr [] | PStr s \<Rightarrow> Inr s | _ \<Rightarrow> Inl TypeError) = (Inr base :: string result)" "t = base @ x"
    by (cases v) auto
  show ?thesis using d v' base(1) fold [of "sort deps"] foldE_shift [OF x, of base] by (simp add: calc_basehash_def base(2))
qed

lemma task_text_known: "task_text vs task deps = Inr t \<Longrightarrow> d \<in> set deps \<Longrightarrow> dhas vs d"
proof -
  have "foldE (\<lambda>k s. bindE (dep_text vs k) (\<lambda>t. Inr (s @ t))) ks s = Inr x \<Longrightarrow> k \<in> set ks \<Longrightarrow> dhas vs k" for ks s x k
    by (induction ks arbitrary: s) (auto simp: bindE_eq_Inr dep_text_def dindex_eq_Inr dhas_iff)
  then show "task_text vs task deps = Inr t \<Longrightarrow> d \<in> set deps \<Longrightarrow> dhas vs d"
    by (fastforce simp: task_text_def bindE_eq_Inr)
qed

text \<open>What is dumped about a task gives its base hash back: when the base hash was computed from the dependencies and
  values of a recipe, and none of the dependencies of the task is ignored, the dump succeeds and
  \<^verbatim>\<open>calc_basehash\<close> of it is the base hash that the generator holds.\<close>

theorem dumped_basehash:
  assumes "generate_dependency_hash hash ts g fn = Inr (taskdeps, basehash)" and "task \<in> set ts"
    and "dget (ss_basehash s) (fn @ '':'' @ task) = dget basehash (fn @ '':'' @ task)"
    and "\<forall>d \<in> set (dget_default taskdeps task []). d \<notin> set ignored"
  shows "\<exists>d. dump_base ignored fn task (taskdeps, g) s = Inr d \<and> calc_basehash hash d = Inr (sd_basehash d)"
proof -
  have base: "base_hash_of hash fn g task (taskdeps, basehash)"
    using base_hashes [of hash fn g ts "([], [])" "(taskdeps, basehash)" task] assms(1,2) by (simp add: generate_dependency_hash_def)
  then obtain seen t where seen: "dget taskdeps task = Some seen" "set seen = (dep_edges (fst g))\<^sup>+ `` {task}"
    and t: "task_text (snd g) task (sorted_list_of_set (set seen)) = Inr t" and h: "dget basehash (fn @ '':'' @ task) = Some (hash t)"
    by (auto simp: base_hash_of_def)
  have k: "set seen \<subseteq> set (dkeys (fst g))" "distinct seen" using base seen(1) by (auto simp: base_hash_of_def)
  have "sort seen = sorted_list_of_set (set seen)" by (rule sort_distinct [OF k(2)])
  moreover have "sort (sorted_list_of_set (set seen)) = sorted_list_of_set (set seen)" by (simp add: sort_key_id_if_sorted)
  ultimately have t': "task_text (snd g) task seen = Inr t" using t by (simp add: task_text_def)
  obtain v where v: "dindex (snd g) task = Inr v" using t' by (auto simp: task_text_def bindE_eq_Inr)
  let ?f = "\<lambda>dep r. if dep \<in> set ignored then Inr r
      else bindE (dindex (fst g) dep) (\<lambda>ds. bindE (dindex (snd g) dep) (\<lambda>v. Inr (dset dep ds (fst r), dset dep v (snd r))))"
  have "\<forall>d \<in> set seen. dhas (fst g) d \<and> dhas (snd g) d" using k(1) task_text_known [OF t'] by (auto simp: dhas_def)
  then obtain r where r: "foldE ?f seen ([], [(task, v)]) = Inr r" using dump_total by blast
  have "\<forall>d \<in> set seen. d \<notin> set ignored" using assms(4) seen(1) by (simp add: dget_default_def)
  from dump_fold [OF r this] have vals: "\<forall>k \<in> insert task (set seen). dget (snd r) k = dget (snd g) k"
    using v by (auto simp: dindex_eq_Inr)
  have b: "dindex (ss_basehash s) (fn @ '':'' @ task) = Inr (hash t)" using assms(3) h by (simp add: dindex_eq_Inr)
  have i: "dindex taskdeps task = Inr seen" using seen(1) by (simp add: dindex_eq_Inr)
  let ?d = "\<lparr>sd_task = task, sd_taskdeps = seen, sd_basehash = hash t, sd_gendeps = fst r, sd_varvals = snd r, sd_taint = None\<rparr>"
  have "dump_base ignored fn task (taskdeps, g) s = Inr ?d"
    unfolding dump_base_def fst_conv snd_conv using b i v r by (cases r) simp
  moreover have "calc_basehash hash ?d = Inr (hash t)" using vals by (intro calc_base [OF t']) simp_all
  ultimately show ?thesis by (intro exI [of _ ?d]) simp
qed

lemma dumped_basehash_witness:
  "\<exists>d. dump_base [''Z''] ''a.bb'' ''do_a'' ([(''do_a'', [''B'', ''f'', ''C''])], sample_deps)
       (no_signatures\<lparr>ss_basehash := [(''a.bb:do_a'', ''runBCyfx'')]\<rparr>) = Inr d \<and> calc_basehash (\<lambda>s. s) d = Inr (sd_basehash d)"
  by (rule dumped_basehash [OF sample_hash]) code_simp+

section \<open>Preparing the hash of a task\<close>

text \<open>Only the entries of one task change, and no hash.\<close>

definition only_task :: "string \<Rightarrow> 'z sigstate_scheme \<Rightarrow> 'z sigstate_scheme \<Rightarrow> bool" where
  "only_task tid s s' \<longleftrightarrow>
     ss_taskhash s' = ss_taskhash s \<and>
     (\<forall>t. t \<noteq> tid \<longrightarrow> dget (ss_basehash s') t = dget (ss_basehash s) t \<and> dget (ss_runtaskdeps s') t = dget (ss_runtaskdeps s) t \<and>
        dget (ss_checksums s') t = dget (ss_checksums s) t \<and> dget (ss_taints s') t = dget (ss_taints s) t)"

lemma only_task_refl: "only_task tid s s"
  by (simp add: only_task_def)

lemma only_task_trans: "only_task tid s t \<Longrightarrow> only_task tid t u \<Longrightarrow> only_task tid s u"
  by (auto simp: only_task_def)

text \<open>The recipe of a task and the name of the task in hashes.\<close>

definition recipe_of :: "caches \<Rightarrow> string \<Rightarrow> (string \<times> string) result" where
  "recipe_of caches dep =
     bindE (split_tid_mcfn dep) (\<lambda>(mc, _, task, mcfn).
     bindE (bindE (dindex caches mc) (\<lambda>dc. dindex (dc_pkg_fn dc) mcfn)) (\<lambda>pn. Inr (pn, build_pnid mc pn task)))"

definition kept_dep :: "sigconf \<Rightarrow> caches \<Rightarrow> string \<Rightarrow> string \<Rightarrow> bool" where
  "kept_dep c caches recipename dep \<longleftrightarrow> (case recipe_of caches dep of Inr (pn, _) \<Rightarrow> rundep_check c recipename pn | Inl _ \<Rightarrow> False)"

definition named_dep :: "caches \<Rightarrow> string \<Rightarrow> string \<times> string" where
  "named_dep caches dep = ((case recipe_of caches dep of Inr (_, pnid) \<Rightarrow> pnid | Inl _ \<Rightarrow> []), dep)"

lemma prep_dep_result:
  "prep_dep c caches rn tid dep s =
     (case recipe_of caches dep of
        Inl e \<Rightarrow> (Inl e, s)
      | Inr (pn, pnid) \<Rightarrow>
          if \<not> rundep_check c rn pn then (Inr (), s)
          else if \<not> dhas (ss_taskhash s) dep then (Inl (BBFatal dep), s)
          else (Inr (), s\<lparr>ss_runtaskdeps := dset tid (dget_default (ss_runtaskdeps s) tid [] @ [(pnid, dep)]) (ss_runtaskdeps s)\<rparr>))"
  by (auto simp: prep_dep_def recipe_of_def bindX_def liftX_def getX_def setX_def retX_def raiseX_def bindE_def
      split: sum.split prod.split)

lemma prep_deps_result:
  "forX (prep_dep c caches rn tid) deps s = (Inr (), s') \<Longrightarrow>
     only_task tid s s' \<and> ss_basehash s' = ss_basehash s \<and> ss_checksums s' = ss_checksums s \<and> ss_taints s' = ss_taints s \<and>
     dget_default (ss_runtaskdeps s') tid [] = dget_default (ss_runtaskdeps s) tid [] @ map (named_dep caches) (filter (kept_dep c caches rn) deps) \<and>
     (dhas (ss_runtaskdeps s) tid \<longrightarrow> dhas (ss_runtaskdeps s') tid) \<and>
     (\<forall>d \<in> set deps. kept_dep c caches rn d \<longrightarrow> dhas (ss_taskhash s) d)"
proof (induction deps arbitrary: s)
  case (Cons d ds)
  from Cons.prems obtain s1 where s1: "prep_dep c caches rn tid d s = (Inr (), s1)" "forX (prep_dep c caches rn tid) ds s1 = (Inr (), s')"
    by (auto simp: bindX_Inr)
  have "only_task tid s s1 \<and> ss_basehash s1 = ss_basehash s \<and> ss_checksums s1 = ss_checksums s \<and> ss_taints s1 = ss_taints s \<and>
     dget_default (ss_runtaskdeps s1) tid [] = dget_default (ss_runtaskdeps s) tid [] @ map (named_dep caches) (filter (kept_dep c caches rn) [d]) \<and>
     (dhas (ss_runtaskdeps s) tid \<longrightarrow> dhas (ss_runtaskdeps s1) tid) \<and> (kept_dep c caches rn d \<longrightarrow> dhas (ss_taskhash s) d)"
    using s1(1) unfolding prep_dep_result
    by (auto simp: only_task_def kept_dep_def named_dep_def dget_dset dhas_iff split: sum.splits if_splits)
  with Cons.IH [OF s1(2)] show ?case by (auto simp: only_task_def)
qed (simp add: only_task_refl)

lemma prep_deps_total:
  assumes "\<forall>d \<in> set deps. (\<exists>r. recipe_of caches d = Inr r) \<and> dhas (ss_taskhash s) d"
  shows "\<exists>s'. forX (prep_dep c caches rn tid) deps s = (Inr (), s')"
  using assms
proof (induction deps arbitrary: s)
  case (Cons d ds)
  then obtain pn pnid where "recipe_of caches d = Inr (pn, pnid)" "dhas (ss_taskhash s) d" by auto
  then obtain s1 where s1: "prep_dep c caches rn tid d s = (Inr (), s1)" "ss_taskhash s1 = ss_taskhash s"
    unfolding prep_dep_result using Cons.prems by (cases "rundep_check c rn pn") auto
  with Cons show ?case by (auto simp: bindX_def)
qed simp

text \<open>The taint of a task after the preparation, when it had none.\<close>

definition no_stamp :: "cachedata \<Rightarrow> string \<Rightarrow> string \<Rightarrow> bool" where
  "no_stamp dc mcfn task \<longleftrightarrow>
     (case dget (dc_task_deps dc) mcfn of
        None \<Rightarrow> False
      | Some td \<Rightarrow> (case dget (td_flags td) ''nostamp'' of None \<Rightarrow> False | Some f \<Rightarrow> dhas f task))"

definition new_taint :: "sigconf \<Rightarrow> cachedata \<Rightarrow> string \<Rightarrow> string \<Rightarrow> string \<Rightarrow> nat \<Rightarrow> string option" where
  "new_taint c dc mcfn task stamp n =
     (case read_taint c task stamp of
        Some (x # xs) \<Rightarrow> Some (x # xs)
      | _ \<Rightarrow> if no_stamp dc mcfn task then Some (''nostamp:'' @ sc_uuid c n) else None)"

lemma prep_taints_result:
  assumes "prep_taints c dc mcfn task tid s = (Inr (), s')"
  shows "only_task tid s s' \<and> ss_basehash s' = ss_basehash s \<and> ss_checksums s' = ss_checksums s \<and> ss_runtaskdeps s' = ss_runtaskdeps s \<and>
    (dget (ss_taints s) tid = None \<longrightarrow>
      (\<exists>stamp. dget (dc_stamp dc) mcfn = Some stamp \<and> dget (ss_taints s') tid = new_taint c dc mcfn task stamp (ss_drawn s)))"
proof -
  from assms obtain td stamp where td: "dget (dc_task_deps dc) mcfn = Some td" and stamp: "dget (dc_stamp dc) mcfn = Some stamp"
    by (auto simp: prep_taints_def bindX_Inr liftX_def dindex_eq_Inr)
  have i: "dindex (dc_task_deps dc) mcfn = Inr td" "dindex (dc_stamp dc) mcfn = Inr stamp" using td stamp by (simp_all add: dindex_eq_Inr)
  have n: "only_task tid s (nostamp_taint c tid s) \<and> ss_basehash (nostamp_taint c tid s) = ss_basehash s \<and>
      ss_checksums (nostamp_taint c tid s) = ss_checksums s \<and> ss_runtaskdeps (nostamp_taint c tid s) = ss_runtaskdeps s \<and>
      (dget (ss_taints s) tid = None \<longrightarrow> dget (ss_taints (nostamp_taint c tid s)) tid = Some (''nostamp:'' @ sc_uuid c (ss_drawn s)))"
    by (auto simp: nostamp_taint_def only_task_def dget_dset split: option.split)
  show ?thesis
    using assms n td stamp
    by (auto simp: prep_taints_def bindX_def liftX_def i setX_def retX_def new_taint_def no_stamp_def only_task_def dget_dset
        split: option.splits if_splits list.splits)
qed

lemma prep_result:
  assumes "prep_taskhash c caches tid deps s = (Inr ds, s')" and "split_tid_mcfn tid = Inr (mc, fn, task, mcfn)"
  shows "\<exists>dc h rn. dget caches mc = Some dc \<and> dget (dc_basetaskhash dc) tid = Some h \<and> dget (dc_pkg_fn dc) mcfn = Some rn \<and>
    only_task tid s s' \<and> dget (ss_basehash s') tid = Some h \<and>
    dget (ss_runtaskdeps s') tid = Some (map (named_dep caches) (filter (kept_dep c caches rn) deps)) \<and>
    (\<exists>files. dget (dc_file_checksums dc) mcfn = Some files \<and> dget (ss_checksums s') tid =
       Some (case dget files task of None \<Rightarrow> [] | Some fs \<Rightarrow> sc_checksums c fs rn)) \<and>
    (\<forall>d \<in> set deps. kept_dep c caches rn d \<longrightarrow> dhas (ss_taskhash s) d) \<and>
    (dget (ss_taints s) tid = None \<longrightarrow>
      (\<exists>stamp n. dget (dc_stamp dc) mcfn = Some stamp \<and> dget (ss_taints s') tid = new_taint c dc mcfn task stamp n))"
proof -
  from assms obtain dc h rn files s1 s2 s3 where dc: "dget caches mc = Some dc" and h: "dget (dc_basetaskhash dc) tid = Some h"
    and rn: "dget (dc_pkg_fn dc) mcfn = Some rn"
    and s1: "s1 = s\<lparr>ss_basehash := dset tid h (ss_basehash s), ss_runtaskdeps := dset tid [] (ss_runtaskdeps s),
        ss_checksums := dset tid [] (ss_checksums s), ss_tidtopn := dset tid rn (ss_tidtopn s)\<rparr>"
    and s2: "forX (prep_dep c caches rn tid) deps s1 = (Inr (), s2)" and files: "dget (dc_file_checksums dc) mcfn = Some files"
    and s3: "s3 = (case dget files task of None \<Rightarrow> s2 | Some fs \<Rightarrow> s2\<lparr>ss_checksums := dset tid (sc_checksums c fs rn) (ss_checksums s2)\<rparr>)"
    and s': "prep_taints c dc mcfn task tid s3 = (Inr (), s')"
    by (auto simp: prep_taskhash_def bindX_Inr liftX_def dindex_eq_Inr setX_def getX_def retX_def split: option.splits)
  have "only_task tid s s1" by (simp add: only_task_def s1 dget_dset)
  moreover note deps = prep_deps_result [OF s2]
  moreover have "only_task tid s2 s3" "ss_basehash s3 = ss_basehash s2" "ss_runtaskdeps s3 = ss_runtaskdeps s2" "ss_taints s3 = ss_taints s2"
    by (auto simp: only_task_def s3 dget_dset dhas_iff split: option.split)
  moreover note taints = prep_taints_result [OF s']
  ultimately have "only_task tid s s'" using only_task_trans by blast
  moreover have "dget (ss_basehash s') tid = Some h" using deps taints \<open>ss_basehash s3 = ss_basehash s2\<close> by (simp add: s1 dget_dset)
  moreover have "dget (ss_checksums s2) tid = Some []" using deps by (simp add: s1 dget_dset)
  then have "dget (ss_checksums s3) tid = Some (case dget files task of None \<Rightarrow> [] | Some fs \<Rightarrow> sc_checksums c fs rn)"
    by (simp add: s3 dget_dset split: option.split)
  then have "dget (ss_checksums s') tid = Some (case dget files task of None \<Rightarrow> [] | Some fs \<Rightarrow> sc_checksums c fs rn)"
    using taints by simp
  moreover have "dget (ss_runtaskdeps s') tid = Some (map (named_dep caches) (filter (kept_dep c caches rn) deps))"
  proof -
    have "dget_default (ss_runtaskdeps s2) tid [] = map (named_dep caches) (filter (kept_dep c caches rn) deps)" "dhas (ss_runtaskdeps s2) tid"
      using deps by (simp_all add: s1 dhas_iff dget_dset)
    then have "dget (ss_runtaskdeps s2) tid = Some (map (named_dep caches) (filter (kept_dep c caches rn) deps))"
      by (auto simp: dget_default_def dhas_iff)
    with taints \<open>ss_runtaskdeps s3 = ss_runtaskdeps s2\<close> show ?thesis by simp
  qed
  moreover have "\<forall>d \<in> set deps. kept_dep c caches rn d \<longrightarrow> dhas (ss_taskhash s) d" using deps by (simp add: s1)
  moreover have "dget (ss_taints s) tid = None \<longrightarrow>
      (\<exists>stamp n. dget (dc_stamp dc) mcfn = Some stamp \<and> dget (ss_taints s') tid = new_taint c dc mcfn task stamp n)"
    using deps taints \<open>ss_taints s3 = ss_taints s2\<close> by (auto simp: s1)
  ultimately show ?thesis using dc h rn files
    by - (rule exI [of _ dc], rule exI [of _ h], rule exI [of _ rn], intro conjI, (assumption | rule exI [of _ files] conjI)+)
qed

section \<open>The hash of a task\<close>

definition known_hash :: "'z sigstate_scheme \<Rightarrow> string \<Rightarrow> string" where
  "known_hash s t = dget_default (ss_taskhash s) t []"

text \<open>The text that is hashed, when unihashes are hashes.\<close>

definition signature_text :: "'z sigstate_scheme \<Rightarrow> string \<Rightarrow> string" where
  "signature_text s tid =
     dget_default (ss_basehash s) tid [] @ concat (map (\<lambda>d. known_hash s (snd d)) (sort (dget_default (ss_runtaskdeps s) tid []))) @
     concat (map checksum_text (sort_key clean_checksum_file_path (dget_default (ss_checksums s) tid []))) @
     (case dget (ss_taints s) tid of None \<Rightarrow> [] | Some t \<Rightarrow> taint_text t)"

lemma plain_unihash_result:
  "plain_unihash t s = (if dhas (ss_taskhash s) t then (Inr (known_hash s t), s) else (Inl (KeyError t), s))"
  by (auto simp: plain_unihash_def bindX_def getX_def liftX_def dindex_def known_hash_def dget_default_def dhas_iff split: option.split)

lemma unihash_texts_result:
  "\<forall>d \<in> set ds. dhas (ss_taskhash s) (snd d) \<Longrightarrow> unihash_texts plain_unihash ds s = (Inr (concat (map (\<lambda>d. known_hash s (snd d)) ds)), s)"
  by (induction ds) (auto simp: bindX_def plain_unihash_result retX_def)

lemma unihash_texts_known:
  "unihash_texts plain_unihash ds s = (Inr t, s') \<Longrightarrow> \<forall>d \<in> set ds. dhas (ss_taskhash s) (snd d)"
  by (induction ds arbitrary: t s') (auto simp: bindX_Inr plain_unihash_result split: if_splits)

lemma get_taskhash_result:
  assumes "dhas (ss_basehash s) tid" and "dhas (ss_runtaskdeps s) tid" and "dhas (ss_checksums s) tid"
    and "\<forall>d \<in> set (dget_default (ss_runtaskdeps s) tid []). dhas (ss_taskhash s) (snd d)"
  shows "get_taskhash c plain_unihash tid s =
    (Inr (sc_hash c (signature_text s tid)), s\<lparr>ss_taskhash := dset tid (sc_hash c (signature_text s tid)) (ss_taskhash s)\<rparr>)"
proof -
  obtain b r f where d: "dget (ss_basehash s) tid = Some b" "dget (ss_runtaskdeps s) tid = Some r" "dget (ss_checksums s) tid = Some f"
    using assms(1-3) by (auto simp: dhas_iff)
  then have i: "dindex (ss_basehash s) tid = Inr b" "dindex (ss_runtaskdeps s) tid = Inr r" "dindex (ss_checksums s) tid = Inr f"
    by (simp_all add: dindex_eq_Inr)
  have "\<forall>d \<in> set (sort r). dhas (ss_taskhash s) (snd d)" using assms(4) d(2) by (simp add: dget_default_def)
  note u = unihash_texts_result [OF this]
  show ?thesis
    by (simp add: get_taskhash_def bindX_def getX_def setX_def liftX_def retX_def i u signature_text_def dget_default_def d Let_def
        split: option.split)
qed

section \<open>Hashes of tasks again\<close>

lemma contains_sub: "contains_str w s \<Longrightarrow> set w \<subseteq> set s"
proof (induction s)
  case (Cons a s)
  show ?case
  proof (cases "startswith (a # s) w")
    case True
    then have "w = take (length w) (a # s)" by (simp add: startswith_def)
    then show ?thesis by (metis set_take_subset)
  next
    case False
    with Cons show ?thesis by auto
  qed
qed simp

lemma basename_no_slash: "CHR ''/'' \<notin> set (BBUtils.basename p)"
  using after_last_no_sep [of "CHR ''/''" p] by (auto simp: BBUtils.basename_def)

lemma cut_first_found: "w \<noteq> [] \<Longrightarrow> contains_str w s \<Longrightarrow> \<exists>a b. cut_first w s = Some (a, b)"
proof (induction s)
  case Nil
  then show ?case by (simp add: startswith_def)
qed (auto split: option.splits)

lemma file_again: "calc_file (dumped_file fc) = checksum_text fc"
proof (cases "contains_str ''/./'' (fst fc)")
  case True
  then obtain a b where "cut_first ''/./'' (fst fc) = Some (a, b)" using cut_first_found by blast
  then obtain x where "clean_checksum_file_path fc = ''./'' @ x" by (simp add: clean_checksum_file_path_def)
  then have "contains_str ''./'' (clean_checksum_file_path fc)" by (simp add: startswith_def)
  with True show ?thesis by (simp add: calc_file_def dumped_file_def checksum_text_def)
next
  case False
  have "\<not> contains_str ''./'' (BBUtils.basename (fst fc))" using contains_sub basename_no_slash by fastforce
  with False show ?thesis by (simp add: calc_file_def dumped_file_def checksum_text_def)
qed

lemma dump_hashes_result:
  "\<forall>d \<in> set ds. dhas (ss_taskhash s) (snd d) \<Longrightarrow> distinct (map fst ds) \<Longrightarrow>
    \<exists>r'. dump_hashes plain_unihash ds r s = (Inr r', s) \<and> (\<forall>d \<in> set ds. dget r' (fst d) = Some (known_hash s (snd d))) \<and>
      (\<forall>k. k \<notin> fst ` set ds \<longrightarrow> dget r' k = dget r k)"
proof (induction ds arbitrary: r)
  case (Cons d ds)
  have p: "\<forall>d \<in> set ds. dhas (ss_taskhash s) (snd d)" "distinct (map fst ds)" "fst d \<notin> fst ` set ds" using Cons.prems by auto
  from Cons.IH [OF p(1,2), of "dset (fst d) (known_hash s (snd d)) r"] obtain r'
    where r': "dump_hashes plain_unihash ds (dset (fst d) (known_hash s (snd d)) r) s = (Inr r', s)"
      "\<forall>d \<in> set ds. dget r' (fst d) = Some (known_hash s (snd d))"
      "\<forall>k. k \<notin> fst ` set ds \<longrightarrow> dget r' k = dget (dset (fst d) (known_hash s (snd d)) r) k" by blast
  have "dget r' (fst d) = Some (known_hash s (snd d))" using r'(3) p(3) by (simp add: dget_dset)
  moreover have "plain_unihash (snd d) s = (Inr (known_hash s (snd d)), s)" using Cons.prems(1) by (simp add: plain_unihash_result)
  then have "dump_hashes plain_unihash (d # ds) r s = (Inr r', s)" using r'(1) by (simp add: bindX_def)
  moreover have "\<forall>k. k \<notin> fst ` set (d # ds) \<longrightarrow> dget r' k = dget r k" using r'(3) by (simp add: dget_dset)
  ultimately show ?case using r'(2) by auto
qed (simp add: retX_def)

lemma calc_deps:
  "\<forall>d \<in> set ds. dget r (fst d) = Some (f d) \<Longrightarrow>
    foldE (\<lambda>dep s. bindE (dindex r dep) (\<lambda>h. Inr (s @ h))) (map fst ds) b = Inr (b @ concat (map f ds))"
  by (induction ds arbitrary: b) (auto simp: dindex_def)

lemma taint_again:
  assumes "dget (ss_taints s) tid = new_taint c dc mcfn task stamp n"
    and "\<forall>t. read_taint c task stamp = Some t \<longrightarrow> \<not> contains_str ''nostamp:'' t"
  shows "dump_taint c True tid task stamp s = dget (ss_taints s) tid"
    and "map_option calc_taint (dget (ss_taints s) tid) = map_option taint_text (dget (ss_taints s) tid)"
proof -
  have c: "contains_str ''nostamp:'' (''nostamp:'' @ x)" "startswith (''nostamp:'' @ x) ''nostamp:''" for x by (simp_all add: startswith_def)
  have n: "\<not> startswith t ''nostamp:''" if "\<not> contains_str ''nostamp:'' t" for t
    using that by (cases t) (auto simp: startswith_def)
  show "dump_taint c True tid task stamp s = dget (ss_taints s) tid"
    using assms c(1) by (auto simp: dump_taint_def new_taint_def Let_def simp del: contains_str.simps split: option.splits if_splits list.splits)
  show "map_option calc_taint (dget (ss_taints s) tid) = map_option taint_text (dget (ss_taints s) tid)"
    using assms c n by (auto simp: new_taint_def calc_taint_def taint_text_def simp del: contains_str.simps split: option.splits if_splits list.splits)
qed

text \<open>C28. What is dumped about a task gives its hash back: after the preparation and the hashing of a task that had no taint,
  dumping it writes the hash, and \<^verbatim>\<open>calc_taskhash\<close> of the dump is that hash. This holds when no two dependencies have
  the same recipe name, task and multiconfig (the dump keeps one hash for each), the task does not depend on itself,
  and the text of the taint file does not contain \<^verbatim>\<open>nostamp:\<close>.\<close>

theorem dumped_taskhash:
  assumes prep: "prep_taskhash c caches (mcfn @ '':'' @ task) deps s0 = (Inr ds, s1)"
    and tid: "split_tid_mcfn (mcfn @ '':'' @ task) = Inr (mc, fn, task, mcfn)"
    and hash: "get_taskhash c plain_unihash (mcfn @ '':'' @ task) s1 = (Inr h, s2)"
    and stamp: "dget caches mc = Some dc" "dget (dc_stamp dc) mcfn = Some stamp"
    and dump: "dump_sigtask c plain_unihash ignored mcfn task stamp kept s2 = (Inr d, s3)"
    and names: "distinct (map (\<lambda>dep. fst (named_dep caches dep)) deps)" and self: "mcfn @ '':'' @ task \<notin> set deps"
    and taint: "dget (ss_taints s0) (mcfn @ '':'' @ task) = None"
      "\<forall>t. read_taint c task stamp = Some t \<longrightarrow> \<not> contains_str ''nostamp:'' t"
  shows "sd_taskhash d = h \<and> calc_taskhash (sc_hash c) d = Inr h"
proof -
  let ?t = "mcfn @ '':'' @ task"
  from prep_result [OF prep tid] stamp obtain b rn n where b: "dget (ss_basehash s1) ?t = Some b"
    and r: "dget (ss_runtaskdeps s1) ?t = Some (map (named_dep caches) (filter (kept_dep c caches rn) deps))"
    and f: "dhas (ss_checksums s1) ?t"
    and known: "\<forall>d \<in> set deps. kept_dep c caches rn d \<longrightarrow> dhas (ss_taskhash s0) d"
    and th: "ss_taskhash s1 = ss_taskhash s0" and nt: "dget (ss_taints s1) ?t = new_taint c dc mcfn task stamp n"
    using taint(1) by (auto simp: only_task_def dhas_iff)
  let ?r = "map (named_dep caches) (filter (kept_dep c caches rn) deps)"
  obtain fs where fs: "dget (ss_checksums s1) ?t = Some fs" using f by (auto simp: dhas_iff)
  have snd: "snd (named_dep caches x) = x" for x by (simp add: named_dep_def)
  have k1: "\<forall>d \<in> set ?r. dhas (ss_taskhash s1) (snd d)" using known th by (auto simp: snd)
  have has: "dhas (ss_basehash s1) ?t" "dhas (ss_runtaskdeps s1) ?t" using b r by (simp_all add: dhas_iff)
  have "\<forall>d \<in> set (dget_default (ss_runtaskdeps s1) ?t []). dhas (ss_taskhash s1) (snd d)" using k1 r by (simp add: dget_default_def)
  note g = get_taskhash_result [OF has f this, of c]
  have h: "h = sc_hash c (signature_text s1 ?t)" and s2: "s2 = s1\<lparr>ss_taskhash := dset ?t h (ss_taskhash s1)\<rparr>" using hash g by simp_all
  have same: "known_hash s2 (snd d) = known_hash s1 (snd d)" if "d \<in> set ?r" for d
    using that self by (auto simp: s2 known_hash_def snd dget_default_dset_if)
  have k2: "\<forall>d \<in> set ?r. dhas (ss_taskhash s2) (snd d)" using k1 by (auto simp: s2 dhas_iff dget_dset)
  have "distinct (map fst ?r)" using names by (auto simp: comp_def distinct_map inj_on_def)
  from dump_hashes_result [OF k2 this, of "[]"] obtain hs where hs: "dump_hashes plain_unihash ?r [] s2 = (Inr hs, s2)"
    "\<forall>d \<in> set ?r. dget hs (fst d) = Some (known_hash s2 (snd d))" by blast
  note ta = taint_again [OF nt taint(2)]
  have i: "dindex (ss_runtaskdeps s2) ?t = Inr ?r" "dindex (ss_checksums s2) ?t = Inr fs" "dindex (ss_taskhash s2) ?t = Inr h"
      "dget (ss_taskhash s2) ?t = Some h"
    using r fs by (simp_all add: s2 dindex_eq_Inr dget_dset)
  have dt: "dump_taint c True ?t task stamp s2 = dget (ss_taints s1) ?t" using ta(1) by (simp add: dump_taint_def s2)
  from dump obtain d0 where d0: "dump_base ignored mcfn task kept s2 = Inr d0"
    and d: "d = sigdata.extend (d0\<lparr>sd_taint := dget (ss_taints s1) ?t\<rparr>)
        (runtimedata.fields (map fst (sort ?r)) (map dumped_file (sort_key clean_checksum_file_path fs)) hs h h)"
    using i hs(1) dt by (auto simp: dump_sigtask_def bindX_def getX_def liftX_def retX_def raiseX_def Let_def plain_unihash_result
        known_hash_def dget_default_def dhas_iff split: sum.splits if_splits)
  have base: "sd_basehash d0 = b" using d0 b by (auto simp: dump_base_def bindE_eq_Inr s2 dindex_eq_Inr)
  have "\<forall>x \<in> set (sort ?r). dget hs (fst x) = Some (known_hash s1 (snd x))" using hs(2) same by simp
  note deps = calc_deps [OF this]
  have files: "concat (map calc_file (map dumped_file (sort_key clean_checksum_file_path fs)))
    = concat (map checksum_text (sort_key clean_checksum_file_path fs))" by (simp add: file_again comp_def)
  have tt: "(case dget (ss_taints s1) ?t of None \<Rightarrow> [] | Some t \<Rightarrow> calc_taint t) = (case dget (ss_taints s1) ?t of None \<Rightarrow> [] | Some t \<Rightarrow> taint_text t)"
    using ta(2) by (cases "dget (ss_taints s1) ?t") auto
  show ?thesis
    using b r fs tt
    unfolding d by (simp add: calc_taskhash_def sigdata.defs runtimedata.defs base deps files [unfolded map_map] h signature_text_def dget_default_def)
qed

definition sample_sigconf :: sigconf where
  "sample_sigconf =
     \<lparr>sc_ignore = Some (\<lambda>s. s = ''native''), sc_checksums = (\<lambda>e rn. [(''/w/./files/p'', ''c1''), (''/z/q'', ''c2''), (''/y'', [])]),
      sc_taint = (\<lambda>_. None), sc_uuid = (\<lambda>n. ''uuid''), sc_hash = (\<lambda>s. ''h('' @ s @ '')'')\<rparr>"

definition sample_recipes_cache :: cachedata where
  "sample_recipes_cache = init_cacheData
     \<lparr>dc_pkg_fn := [(''a.bb'', ''a''), (''b.bb'', ''b''), (''n.bb'', ''native'')],
      dc_basetaskhash := [(''a.bb:do_a'', ''A''), (''b.bb:do_b'', ''B''), (''n.bb:do_n'', ''N'')],
      dc_file_checksums := [(''a.bb'', [(''do_a'', Some ''f'')]), (''b.bb'', []), (''n.bb'', [])],
      dc_task_deps := [(''a.bb'', \<lparr>td_tasks = [''do_a''], td_parents = [], td_flags = [(''nostamp'', [(''do_a'', ''1'')])]\<rparr>),
        (''b.bb'', \<lparr>td_tasks = [''do_b''], td_parents = [], td_flags = []\<rparr>), (''n.bb'', \<lparr>td_tasks = [''do_n''], td_parents = [], td_flags = []\<rparr>)],
      dc_stamp := [(''a.bb'', ''s''), (''b.bb'', ''s''), (''n.bb'', ''s'')]\<rparr>"

definition sample_signatures :: sigstate where
  "sample_signatures = no_signatures\<lparr>ss_taskhash := [(''b.bb:do_b'', ''HB''), (''n.bb:do_n'', ''HN'')]\<rparr>"

definition sample_caches :: caches where
  "sample_caches = [([], sample_recipes_cache)]"

definition sample_prepared :: sigstate where
  "sample_prepared = snd (prep_taskhash sample_sigconf sample_caches ''a.bb:do_a'' [''n.bb:do_n'', ''b.bb:do_b''] sample_signatures)"

definition sample_signed :: sigstate where
  "sample_signed = snd (get_taskhash sample_sigconf plain_unihash ''a.bb:do_a'' sample_prepared)"

definition sample_dump :: "runtimedata result" where
  "sample_dump = fst (dump_sigtask sample_sigconf plain_unihash [] ''a.bb'' ''do_a'' ''s''
     ([(''do_a'', [])], ([(''do_a'', [])], [(''do_a'', PStr ''run'')])) sample_signed)"

lemma sample_steps:
  "fst (prep_taskhash sample_sigconf sample_caches (''a.bb'' @ '':'' @ ''do_a'') [''n.bb:do_n'', ''b.bb:do_b''] sample_signatures) = Inr [''b.bb:do_b'']"
  "fst (get_taskhash sample_sigconf plain_unihash (''a.bb'' @ '':'' @ ''do_a'') sample_prepared) = Inr ''h(AHB./files/pc1c2uuid)''"
  "sample_dump = Inr (projr sample_dump)"
  "split_tid_mcfn (''a.bb'' @ '':'' @ ''do_a'') = Inr ([], ''a.bb'', ''do_a'', ''a.bb'')"
  "dget sample_caches [] = Some sample_recipes_cache" "dget (dc_stamp sample_recipes_cache) ''a.bb'' = Some ''s''"
  by code_simp+

lemma dumped_taskhash_witness:
  "calc_taskhash (sc_hash sample_sigconf) (projr sample_dump) = Inr ''h(AHB./files/pc1c2uuid)''"
proof -
  let ?tid = "''a.bb'' @ '':'' @ ''do_a''" and ?deps = "[''n.bb:do_n'', ''b.bb:do_b'']"
  have p: "prep_taskhash sample_sigconf sample_caches ?tid ?deps sample_signatures = (Inr [''b.bb:do_b''], sample_prepared)"
    using sample_steps(1) by (simp add: sample_prepared_def prod_eq_iff)
  have h: "get_taskhash sample_sigconf plain_unihash ?tid sample_prepared = (Inr ''h(AHB./files/pc1c2uuid)'', sample_signed)"
    using sample_steps(2) by (simp add: sample_signed_def prod_eq_iff)
  let ?kept = "([(''do_a'', [])], ([(''do_a'', [])], [(''do_a'', PStr ''run'')])) :: (string, string list) odict \<times> gendeps"
  have d: "dump_sigtask sample_sigconf plain_unihash [] ''a.bb'' ''do_a'' ''s'' ?kept sample_signed = (Inr (projr sample_dump),
      snd (dump_sigtask sample_sigconf plain_unihash [] ''a.bb'' ''do_a'' ''s'' ?kept sample_signed))"
    using sample_steps(3) by (simp add: sample_dump_def prod_eq_iff)
  have "distinct (map (\<lambda>dep. fst (named_dep sample_caches dep)) ?deps)" "?tid \<notin> set ?deps" "dget (ss_taints sample_signatures) ?tid = None"
    by code_simp+
  moreover have "\<forall>t. read_taint sample_sigconf ''do_a'' ''s'' = Some t \<longrightarrow> \<not> contains_str ''nostamp:'' t"
    by (simp add: read_taint_def sample_sigconf_def)
  ultimately show ?thesis using dumped_taskhash [OF p sample_steps(4) h sample_steps(5,6) d] by blast
qed

end
