(* ===== verification/SigRun.thy ===== *)
theory SigRun
  imports SigLaws
begin

text \<open>
  The hashes of all tasks of a run: the loop of \<^verbatim>\<open>RunQueueData.prepare\<close> over the tasks with the generator of
  \<^verbatim>\<open>bb/siggen.py\<close> in the place of its parameter.
\<close>

section \<open>The generator as the run queue calls it\<close>

text \<open>\<open>Inl\<close> is an exception: from then on nothing is changed.\<close>

type_synonym sigrun = "pyexc + sigstate"

definition run_taskhash :: "sigconf \<Rightarrow> caches \<Rightarrow> sigrun \<Rightarrow> string \<Rightarrow> string list \<Rightarrow> string \<times> sigrun" where
  "run_taskhash c caches r tid deps =
     (case r of
        Inl e \<Rightarrow> ([], Inl e)
      | Inr s \<Rightarrow>
          (case bindX (prep_taskhash c caches tid deps) (\<lambda>_. get_taskhash c plain_unihash tid) s of
             (Inl e, _) \<Rightarrow> ([], Inl e)
           | (Inr h, s) \<Rightarrow> (h, Inr s)))"

definition run_unihashes :: "sigrun \<Rightarrow> string list \<Rightarrow> (string \<Rightarrow> string) \<times> sigrun" where
  "run_unihashes r tids =
     (case r of
        Inl e \<Rightarrow> (\<lambda>t. [], Inl e)
      | Inr s \<Rightarrow>
          (case plain_unihashes tids s of
             (Inl e, _) \<Rightarrow> (\<lambda>t. [], Inl e)
           | (Inr u, s) \<Rightarrow> (\<lambda>t. dget_default u t [], Inr s)))"

definition basic_siggen :: "sigconf \<Rightarrow> caches \<Rightarrow> sigrun siggen_ops" where
  "basic_siggen c caches = \<lparr>sg_taskhash = run_taskhash c caches, sg_unihashes = run_unihashes\<rparr>"

section \<open>What the hash of a task is\<close>

text \<open>What the caches must know of a task.\<close>

definition task_known :: "caches \<Rightarrow> string \<Rightarrow> bool" where
  "task_known caches t \<longleftrightarrow>
     (case split_tid_mcfn t of
        Inl _ \<Rightarrow> False
      | Inr (mc, fn, task, mcfn) \<Rightarrow>
          (case dget caches mc of
             None \<Rightarrow> False
           | Some dc \<Rightarrow> dhas (dc_basetaskhash dc) t \<and> dhas (dc_pkg_fn dc) mcfn \<and> dhas (dc_file_checksums dc) mcfn \<and>
               dhas (dc_task_deps dc) mcfn \<and> dhas (dc_stamp dc) mcfn))"

definition of_task :: "caches \<Rightarrow> 'a \<Rightarrow> (cachedata \<Rightarrow> string \<Rightarrow> string \<Rightarrow> 'a) \<Rightarrow> string \<Rightarrow> 'a" where
  "of_task caches none f t =
     (case split_tid_mcfn t of
        Inl _ \<Rightarrow> none
      | Inr (mc, fn, task, mcfn) \<Rightarrow> (case dget caches mc of None \<Rightarrow> none | Some dc \<Rightarrow> f dc task mcfn))"

definition base_of :: "caches \<Rightarrow> string \<Rightarrow> string" where
  "base_of caches t = of_task caches [] (\<lambda>dc task mcfn. dget_default (dc_basetaskhash dc) t []) t"

definition recipe_name :: "caches \<Rightarrow> string \<Rightarrow> string" where
  "recipe_name caches t = of_task caches [] (\<lambda>dc task mcfn. dget_default (dc_pkg_fn dc) mcfn []) t"

definition files_of :: "sigconf \<Rightarrow> caches \<Rightarrow> string \<Rightarrow> (string \<times> string) list" where
  "files_of c caches t =
     of_task caches [] (\<lambda>dc task mcfn.
       case dget (dget_default (dc_file_checksums dc) mcfn []) task of
         None \<Rightarrow> []
       | Some fs \<Rightarrow> sc_checksums c fs (recipe_name caches t)) t"

definition taint_of :: "sigconf \<Rightarrow> caches \<Rightarrow> nat \<Rightarrow> string \<Rightarrow> string option" where
  "taint_of c caches n t =
     of_task caches None (\<lambda>dc task mcfn. new_taint c dc mcfn task (dget_default (dc_stamp dc) mcfn []) n) t"

definition sig_deps :: "sigconf \<Rightarrow> caches \<Rightarrow> string list \<Rightarrow> string \<Rightarrow> (string \<times> string) list" where
  "sig_deps c caches deps t = map (named_dep caches) (filter (kept_dep c caches (recipe_name caches t)) deps)"

definition reference_text ::
  "sigconf \<Rightarrow> caches \<Rightarrow> (string \<Rightarrow> string) \<Rightarrow> string option \<Rightarrow> string list \<Rightarrow> string \<Rightarrow> string" where
  "reference_text c caches h taint deps t =
     base_of caches t @ concat (map (\<lambda>d. h (snd d)) (sort (sig_deps c caches deps t))) @
     concat (map checksum_text (sort_key clean_checksum_file_path (files_of c caches t))) @
     (case taint of None \<Rightarrow> [] | Some x \<Rightarrow> taint_text x)"

section \<open>One task\<close>

lemma task_knownE:
  assumes "task_known caches t"
  obtains mc fn task mcfn dc where "split_tid_mcfn t = Inr (mc, fn, task, mcfn)" "dget caches mc = Some dc"
    "dhas (dc_basetaskhash dc) t" "dhas (dc_pkg_fn dc) mcfn" "dhas (dc_file_checksums dc) mcfn"
    "dhas (dc_task_deps dc) mcfn" "dhas (dc_stamp dc) mcfn"
  using assms by (auto simp: task_known_def split: sum.splits option.splits)

lemma of_task_eq:
  "split_tid_mcfn t = Inr (mc, fn, task, mcfn) \<Longrightarrow> dget caches mc = Some dc \<Longrightarrow> of_task caches none f t = f dc task mcfn"
  by (simp add: of_task_def)

lemma known_recipe: "task_known caches t \<Longrightarrow> \<exists>r. recipe_of caches t = Inr r"
  by (erule task_knownE) (auto simp: recipe_of_def bindE_def dindex_def dhas_iff)

lemma prep_taints_total:
  assumes "dhas (dc_task_deps dc) mcfn" and "dhas (dc_stamp dc) mcfn"
  shows "\<exists>s'. prep_taints c dc mcfn task tid s = (Inr (), s')"
proof -
  obtain td stamp where "dindex (dc_task_deps dc) mcfn = Inr td" "dindex (dc_stamp dc) mcfn = Inr stamp"
    using assms by (auto simp: dhas_iff dindex_eq_Inr)
  then show ?thesis
    by (auto simp: prep_taints_def bindX_def liftX_def setX_def retX_def split: option.split)
qed

lemma prep_total:
  assumes t: "task_known caches t" and d: "\<forall>d \<in> set deps. task_known caches d \<and> dhas (ss_taskhash s) d"
  shows "\<exists>ds s'. prep_taskhash c caches t deps s = (Inr ds, s')"
proof -
  from t obtain mc fn task mcfn dc where k: "split_tid_mcfn t = Inr (mc, fn, task, mcfn)" "dget caches mc = Some dc"
    "dhas (dc_task_deps dc) mcfn" "dhas (dc_stamp dc) mcfn"
    and h: "dhas (dc_basetaskhash dc) t" "dhas (dc_pkg_fn dc) mcfn" "dhas (dc_file_checksums dc) mcfn"
    by (elim task_knownE)
  from h obtain b rn files where i: "dindex (dc_basetaskhash dc) t = Inr b" "dindex (dc_pkg_fn dc) mcfn = Inr rn"
    "dindex (dc_file_checksums dc) mcfn = Inr files" by (auto simp: dhas_iff dindex_eq_Inr)
  define s1 where "s1 = s\<lparr>ss_basehash := dset t b (ss_basehash s), ss_runtaskdeps := dset t [] (ss_runtaskdeps s),
      ss_checksums := dset t [] (ss_checksums s), ss_tidtopn := dset t rn (ss_tidtopn s)\<rparr>"
  have "\<forall>d \<in> set deps. (\<exists>r. recipe_of caches d = Inr r) \<and> dhas (ss_taskhash s1) d" using d known_recipe by (simp add: s1_def)
  from prep_deps_total [OF this] obtain s2 where s2: "forX (prep_dep c caches rn t) deps s1 = (Inr (), s2)" by blast
  define s3 where "s3 = (case dget files task of None \<Rightarrow> s2 | Some fs \<Rightarrow> s2\<lparr>ss_checksums := dset t (sc_checksums c fs rn) (ss_checksums s2)\<rparr>)"
  from prep_taints_total [OF k(3,4)] obtain s4 where s4: "prep_taints c dc mcfn task t s3 = (Inr (), s4)" by blast
  have "(case dget files task of None \<Rightarrow> retX () | Some fs \<Rightarrow>
      setX (\<lambda>s. s\<lparr>ss_checksums := dset t (sc_checksums c fs rn) (ss_checksums s)\<rparr>)) s2 = (Inr (), s3)"
    by (simp add: s3_def retX_def setX_def split: option.split)
  moreover have "dindex caches mc = Inr dc" using k(2) by (simp add: dindex_eq_Inr)
  ultimately show ?thesis
    using k(1) i s2 s4 by (simp add: prep_taskhash_def bindX_def liftX_def setX_def getX_def s1_def)
qed

lemma prepared:
  assumes t: "task_known caches t" and p: "prep_taskhash c caches t deps s = (Inr ds, s')"
  shows "only_task t s s'" "dget (ss_basehash s') t = Some (base_of caches t)"
    "dget (ss_runtaskdeps s') t = Some (sig_deps c caches deps t)" "dget (ss_checksums s') t = Some (files_of c caches t)"
    "dget (ss_taints s) t = None \<Longrightarrow> \<exists>n. dget (ss_taints s') t = taint_of c caches n t"
    "\<forall>d \<in> set (sig_deps c caches deps t). dhas (ss_taskhash s') (snd d)"
proof -
  from t obtain mc fn task mcfn dc where k: "split_tid_mcfn t = Inr (mc, fn, task, mcfn)" "dget caches mc = Some dc"
    by (elim task_knownE)
  from prep_result [OF p k(1)] k(2) obtain h rn where r: "dget (dc_basetaskhash dc) t = Some h" "dget (dc_pkg_fn dc) mcfn = Some rn"
    "only_task t s s'" "dget (ss_basehash s') t = Some h"
    "dget (ss_runtaskdeps s') t = Some (map (named_dep caches) (filter (kept_dep c caches rn) deps))"
    "\<exists>files. dget (dc_file_checksums dc) mcfn = Some files \<and> dget (ss_checksums s') t =
       Some (case dget files task of None \<Rightarrow> [] | Some fs \<Rightarrow> sc_checksums c fs rn)"
    "\<forall>d \<in> set deps. kept_dep c caches rn d \<longrightarrow> dhas (ss_taskhash s) d"
    "dget (ss_taints s) t = None \<longrightarrow>
      (\<exists>stamp n. dget (dc_stamp dc) mcfn = Some stamp \<and> dget (ss_taints s') t = new_taint c dc mcfn task stamp n)" by auto
  note of_task = of_task_eq [OF k]
  have rn: "recipe_name caches t = rn" using r(2) by (simp add: recipe_name_def of_task dget_default_def)
  show "only_task t s s'" by (rule r(3))
  show "dget (ss_basehash s') t = Some (base_of caches t)" using r(1,4) by (simp add: base_of_def of_task dget_default_def)
  show "dget (ss_runtaskdeps s') t = Some (sig_deps c caches deps t)" using r(5) by (simp add: sig_deps_def rn)
  show "dget (ss_checksums s') t = Some (files_of c caches t)"
    using r(6) by (auto simp: files_of_def of_task dget_default_def rn split: option.split)
  show "\<exists>n. dget (ss_taints s') t = taint_of c caches n t" if "dget (ss_taints s) t = None"
    using r(8) that by (auto simp: taint_of_def of_task dget_default_def)
  show "\<forall>d \<in> set (sig_deps c caches deps t). dhas (ss_taskhash s') (snd d)"
    using r(3,7) by (auto simp: sig_deps_def rn named_dep_def only_task_def)
qed

text \<open>What a generator knows of a task whose dependencies are \<open>deps\<close>, and that nothing else is known of it.\<close>

definition signed :: "sigconf \<Rightarrow> caches \<Rightarrow> string list \<Rightarrow> 'z sigstate_scheme \<Rightarrow> string \<Rightarrow> bool" where
  "signed c caches deps s t \<longleftrightarrow>
     dget (ss_basehash s) t = Some (base_of caches t) \<and> dget (ss_runtaskdeps s) t = Some (sig_deps c caches deps t) \<and>
     dget (ss_checksums s) t = Some (files_of c caches t) \<and>
     dget (ss_taskhash s) t = Some (sc_hash c (reference_text c caches (known_hash s) (dget (ss_taints s) t) deps t))"

definition agree :: "'z sigstate_scheme \<Rightarrow> 'z sigstate_scheme \<Rightarrow> string \<Rightarrow> bool" where
  "agree s s' t \<longleftrightarrow>
     dget (ss_basehash s') t = dget (ss_basehash s) t \<and> dget (ss_runtaskdeps s') t = dget (ss_runtaskdeps s) t \<and>
     dget (ss_checksums s') t = dget (ss_checksums s) t \<and> dget (ss_taints s') t = dget (ss_taints s) t \<and>
     dget (ss_taskhash s') t = dget (ss_taskhash s) t"

lemma sig_deps_set: "snd ` set (sig_deps c caches deps t) \<subseteq> set deps"
  by (auto simp: sig_deps_def named_dep_def)

lemma reference_text_cong:
  "\<forall>d \<in> set deps. h d = h' d \<Longrightarrow> reference_text c caches h taint deps t = reference_text c caches h' taint deps t"
  using sig_deps_set [of c caches deps t] unfolding reference_text_def
  by (intro arg_cong2 [where f = "(@)"] arg_cong [where f = concat] map_cong) auto

lemma signed_agree:
  assumes "signed c caches deps s t" and "agree s s' t" and "\<forall>d \<in> set deps. agree s s' d"
  shows "signed c caches deps s' t"
proof -
  have "\<forall>d \<in> set deps. known_hash s d = known_hash s' d" using assms(3) by (simp add: agree_def known_hash_def dget_default_def)
  note r = reference_text_cong [OF this, of c caches "dget (ss_taints s) t" t]
  with assms(1,2) show ?thesis by (simp add: signed_def agree_def)
qed

lemma hash_one_task:
  assumes t: "task_known caches t" and d: "\<forall>d \<in> set deps. task_known caches d \<and> dhas (ss_taskhash s) d" and self: "t \<notin> set deps"
  shows "\<exists>s'. run_taskhash c caches (Inr s) t deps = (known_hash s' t, Inr s') \<and> signed c caches deps s' t \<and>
    (\<forall>u. u \<noteq> t \<longrightarrow> agree s s' u) \<and> (dget (ss_taints s) t = None \<longrightarrow> (\<exists>n. dget (ss_taints s') t = taint_of c caches n t))"
proof -
  from prep_total [OF t d] obtain ds s1 where p: "prep_taskhash c caches t deps s = (Inr ds, s1)" by blast
  note r = prepared [OF t p]
  have "dhas (ss_basehash s1) t" "dhas (ss_runtaskdeps s1) t" "dhas (ss_checksums s1) t"
    "\<forall>d \<in> set (dget_default (ss_runtaskdeps s1) t []). dhas (ss_taskhash s1) (snd d)"
    using r(2,3,4,6) by (simp_all add: dhas_iff dget_default_def)
  note g = get_taskhash_result [OF this, of c]
  define h where "h = sc_hash c (signature_text s1 t)"
  define s2 where "s2 = s1\<lparr>ss_taskhash := dset t h (ss_taskhash s1)\<rparr>"
  have sig: "signature_text s1 t = reference_text c caches (known_hash s1) (dget (ss_taints s1) t) deps t"
    using r(2,3,4) by (simp add: signature_text_def reference_text_def dget_default_def)
  have "\<forall>d \<in> set deps. known_hash s1 d = known_hash s2 d" using self by (auto simp: s2_def known_hash_def dget_default_dset_if)
  note c = reference_text_cong [OF this, of c caches "dget (ss_taints s1) t" t]
  have "known_hash s2 t = h" by (simp add: s2_def known_hash_def dget_default_dset_if)
  then have "run_taskhash c caches (Inr s) t deps = (known_hash s2 t, Inr s2)"
    using p g by (simp add: run_taskhash_def bindX_def h_def s2_def)
  moreover have "signed c caches deps s2 t"
  proof -
    have "h = sc_hash c (reference_text c caches (known_hash s2) (dget (ss_taints s1) t) deps t)" by (simp only: h_def sig c)
    moreover have "ss_basehash s2 = ss_basehash s1" "ss_runtaskdeps s2 = ss_runtaskdeps s1" "ss_checksums s2 = ss_checksums s1"
      "ss_taints s2 = ss_taints s1" "dget (ss_taskhash s2) t = Some h" by (simp_all add: s2_def dget_dset)
    ultimately show ?thesis using r(2,3,4) unfolding signed_def by metis
  qed
  moreover have "\<forall>u. u \<noteq> t \<longrightarrow> agree s s2 u" using r(1) by (simp add: agree_def only_task_def s2_def dget_dset)
  moreover have "dget (ss_taints s) t = None \<longrightarrow> (\<exists>n. dget (ss_taints s2) t = taint_of c caches n t)" using r(5) by (simp add: s2_def)
  ultimately show ?thesis by (intro exI [of _ s2] conjI)
qed

section \<open>All tasks\<close>

text \<open>
  The tasks of \<open>D\<close> have their hashes, those of \<open>U\<close> their unihashes; the taints of all others are those of the start.
\<close>

definition sig_inv :: "sigconf \<Rightarrow> caches \<Rightarrow> sigstate \<Rightarrow> taskgraph \<Rightarrow> string set \<Rightarrow> string set \<Rightarrow> taskgraph \<times> sigrun \<Rightarrow> bool" where
  "sig_inv c caches s0 g0 D U gr \<longleftrightarrow>
     (\<exists>s. snd gr = Inr s \<and> same_shape g0 (fst gr) \<and>
        (\<forall>t \<in> D. signed c caches (deps_of g0 t) s t \<and> set (deps_of g0 t) \<subseteq> D \<and>
           re_hash (dget_default (fst gr) t new_entry) = Some (known_hash s t) \<and>
           (dget (ss_taints s0) t = None \<longrightarrow> (\<exists>n. dget (ss_taints s) t = taint_of c caches n t))) \<and>
        (\<forall>t \<in> U. re_unihash (dget_default (fst gr) t new_entry) = Some (known_hash s t)) \<and>
        (\<forall>t. t \<notin> D \<longrightarrow> dget (ss_taints s) t = dget (ss_taints s0) t))"

lemma signed_has: "signed c caches deps s t \<Longrightarrow> dhas (ss_taskhash s) t"
  by (simp add: signed_def dhas_iff)

lemma agree_known: "agree s s' t \<Longrightarrow> known_hash s' t = known_hash s t"
  by (simp add: agree_def known_hash_def dget_default_def)

lemma sig_inv_task:
  assumes inv: "sig_inv c caches s0 g0 D U gr" and t: "t \<notin> D" "t \<in> nodes g0" "set (deps_of g0 t) \<subseteq> D" and u: "U \<subseteq> D"
    and known: "\<forall>t \<in> nodes g0. task_known caches t" and D: "D \<subseteq> nodes g0"
  shows "sig_inv c caches s0 g0 (insert t D) U (hash_task (basic_siggen c caches) t gr)"
proof -
  from inv obtain s where s: "snd gr = Inr s" and sh: "same_shape g0 (fst gr)"
    and d: "\<forall>t \<in> D. signed c caches (deps_of g0 t) s t \<and> set (deps_of g0 t) \<subseteq> D \<and>
           re_hash (dget_default (fst gr) t new_entry) = Some (known_hash s t) \<and>
           (dget (ss_taints s0) t = None \<longrightarrow> (\<exists>n. dget (ss_taints s) t = taint_of c caches n t))"
    and U: "\<forall>t \<in> U. re_unihash (dget_default (fst gr) t new_entry) = Some (known_hash s t)"
    and o: "\<forall>t. t \<notin> D \<longrightarrow> dget (ss_taints s) t = dget (ss_taints s0) t" unfolding sig_inv_def by blast
  have dk: "\<forall>d \<in> set (deps_of g0 t). task_known caches d \<and> dhas (ss_taskhash s) d" using t(3) D known d signed_has by blast
  have "task_known caches t" "t \<notin> set (deps_of g0 t)" using t known by blast+
  from hash_one_task [OF this(1) dk this(2), of c] obtain s' where r: "run_taskhash c caches (Inr s) t (deps_of g0 t) = (known_hash s' t, Inr s')"
    and s': "signed c caches (deps_of g0 t) s' t" "\<forall>u. u \<noteq> t \<longrightarrow> agree s s' u"
      "dget (ss_taints s) t = None \<longrightarrow> (\<exists>n. dget (ss_taints s') t = taint_of c caches n t)"
    by (elim exE conjE) (rule that)
  have q: "hash_task (basic_siggen c caches) t gr = (set_hash t (known_hash s' t) (fst gr), Inr s')"
    using r same_shapeD(2) [OF sh] by (simp add: hash_task_def basic_siggen_def s Let_def)
  let ?g = "set_hash t (known_hash s' t) (fst gr)"
  have e: "re_hash (dget_default ?g u new_entry) = (if u = t then Some (known_hash s' t) else re_hash (dget_default (fst gr) u new_entry))"
    "re_unihash (dget_default ?g u new_entry) = re_unihash (dget_default (fst gr) u new_entry)" for u
    by (simp_all add: set_hash_def dget_default_dset_if)
  have "t \<in> nodes (fst gr)" using same_shapeD(1) [OF sh] t(2) by simp
  then have "same_shape g0 ?g" using same_shape_trans [OF sh set_hash_shape(1)] by blast
  moreover have "signed c caches (deps_of g0 u) s' u \<and> set (deps_of g0 u) \<subseteq> insert t D \<and>
      re_hash (dget_default ?g u new_entry) = Some (known_hash s' u) \<and>
      (dget (ss_taints s0) u = None \<longrightarrow> (\<exists>n. dget (ss_taints s') u = taint_of c caches n u))" if "u \<in> insert t D" for u
  proof (cases "u = t")
    case True
    with s' o t show ?thesis by (auto simp: e)
  next
    case False
    then have "u \<in> D" using that by simp
    then have "set (deps_of g0 u) \<subseteq> D" using d by blast
    then have u: "u \<in> D" "agree s s' u" "\<forall>d \<in> set (deps_of g0 u). agree s s' d" using \<open>u \<in> D\<close> s'(2) t(1) by auto
    then have "signed c caches (deps_of g0 u) s' u" using d signed_agree by blast
    with u d False agree_known [OF u(2)] show ?thesis by (auto simp: e agree_def)
  qed
  moreover have "re_unihash (dget_default ?g u new_entry) = Some (known_hash s' u)" if "u \<in> U" for u
    using U that t(1) u s'(2) agree_known [of s s' u] unfolding e by (metis subsetD)
  moreover have "dget (ss_taints s') u = dget (ss_taints s0) u" if "u \<notin> insert t D" for u
    using that o s'(2) by (auto simp: agree_def)
  ultimately show ?thesis unfolding q sig_inv_def fst_conv snd_conv by blast
qed

lemma sig_inv_tasks:
  assumes "sig_inv c caches s0 g0 D U gr" and "distinct ready" and "set ready \<inter> D = {}" and "set ready \<subseteq> nodes g0"
    and "\<forall>t \<in> set ready. set (deps_of g0 t) \<subseteq> D" and "U \<subseteq> D" and "\<forall>t \<in> nodes g0. task_known caches t" and "D \<subseteq> nodes g0"
  shows "sig_inv c caches s0 g0 (D \<union> set ready) U (fold (hash_task (basic_siggen c caches)) ready gr)"
  using assms
proof (induction ready arbitrary: D gr)
  case (Cons t ready)
  have "t \<notin> D" "t \<in> nodes g0" "set (deps_of g0 t) \<subseteq> D" using Cons.prems by auto
  note step = sig_inv_task [OF Cons.prems(1) this Cons.prems(6-8)]
  have "set ready \<inter> insert t D = {}" "\<forall>u \<in> set ready. set (deps_of g0 u) \<subseteq> insert t D" "insert t D \<subseteq> nodes g0"
    "U \<subseteq> insert t D" "distinct ready" "set ready \<subseteq> nodes g0"
    using Cons.prems by auto
  from Cons.IH [OF step this(5,1,6,2,4) Cons.prems(7) this(3)] show ?case by simp
qed simp

lemma plain_unihashes_result:
  "\<forall>t \<in> set ts. dhas (ss_taskhash s) t \<Longrightarrow> plain_unihashes ts s = (Inr (map (\<lambda>t. (t, known_hash s t)) ts), s)"
  by (induction ts) (simp_all add: plain_unihash_result bindX_def retX_def)

lemma run_unihashes_result:
  assumes "\<forall>t \<in> set ts. dhas (ss_taskhash s) t"
  shows "\<exists>u. run_unihashes (Inr s) ts = (u, Inr s) \<and> (\<forall>t \<in> set ts. u t = known_hash s t)"
proof -
  have "\<forall>t \<in> set ts. dget_default (map (\<lambda>t. (t, known_hash s t)) ts) t [] = known_hash s t"
    by (simp add: dget_default_def map_of_map_restrict)
  then show ?thesis by (simp add: run_unihashes_def plain_unihashes_result [OF assms])
qed

lemma unihash_fold_value:
  "re_unihash (dget_default (fold (\<lambda>tid g. set_unihash tid (u tid) g) ready g) t new_entry) =
     (if t \<in> set ready then Some (u t) else re_unihash (dget_default g t new_entry))"
  by (induction ready arbitrary: g) (simp_all add: set_unihash_def dget_default_dset_if)

lemma sig_inv_round:
  assumes inv: "sig_inv c caches s0 g0 D D gr" and r: "distinct ready" "set ready \<inter> D = {}" "set ready \<subseteq> nodes g0"
    "\<forall>t \<in> set ready. set (deps_of g0 t) \<subseteq> D" and known: "\<forall>t \<in> nodes g0. task_known caches t" and D: "D \<subseteq> nodes g0"
  shows "sig_inv c caches s0 g0 (D \<union> set ready) (D \<union> set ready) (hash_round (basic_siggen c caches) ready gr)"
proof -
  define gr1 where "gr1 = fold (hash_task (basic_siggen c caches)) ready gr"
  have "sig_inv c caches s0 g0 (D \<union> set ready) D gr1"
    unfolding gr1_def by (rule sig_inv_tasks [OF inv r order_refl known D])
  then obtain s where s: "snd gr1 = Inr s" and sh: "same_shape g0 (fst gr1)"
    and d: "\<forall>t \<in> D \<union> set ready. signed c caches (deps_of g0 t) s t \<and> set (deps_of g0 t) \<subseteq> D \<union> set ready \<and>
           re_hash (dget_default (fst gr1) t new_entry) = Some (known_hash s t) \<and>
           (dget (ss_taints s0) t = None \<longrightarrow> (\<exists>n. dget (ss_taints s) t = taint_of c caches n t))"
    and U: "\<forall>t \<in> D. re_unihash (dget_default (fst gr1) t new_entry) = Some (known_hash s t)"
    and o: "\<forall>t. t \<notin> D \<union> set ready \<longrightarrow> dget (ss_taints s) t = dget (ss_taints s0) t" unfolding sig_inv_def by blast
  have "\<forall>t \<in> set ready. dhas (ss_taskhash s) t" using d signed_has by blast
  from run_unihashes_result [OF this] obtain u where u: "run_unihashes (Inr s) ready = (u, Inr s)" "\<forall>t \<in> set ready. u t = known_hash s t"
    by blast
  let ?g = "fold (\<lambda>tid g. set_unihash tid (u tid) g) ready (fst gr1)"
  have q: "hash_round (basic_siggen c caches) ready gr = (?g, Inr s)"
    using u(1) s by (simp add: hash_round_def Let_def gr1_def [symmetric]) (simp add: basic_siggen_def)
  have n: "set ready \<subseteq> nodes (fst gr1)" using r(3) same_shapeD(1) [OF sh] by simp
  note f = unihash_fold_shape [OF n, of u]
  have "same_shape g0 ?g" using same_shape_trans [OF sh] f by blast
  moreover have "re_hash (dget_default ?g t new_entry) = re_hash (dget_default (fst gr1) t new_entry)" for t using f by blast
  moreover have "\<forall>t \<in> D \<union> set ready. re_unihash (dget_default ?g t new_entry) = Some (known_hash s t)"
    using U u(2) unfolding unihash_fold_value by auto
  ultimately show ?thesis using d o unfolding q sig_inv_def fst_conv snd_conv by (intro exI [of _ s]) simp
qed

lemma sig_loop:
  assumes g: "deps_ok g0" and a: "acyclic (edges g0)" and known: "\<forall>t \<in> nodes g0. task_known caches t"
  shows "hash_inv g0 dealt todeal (fst gr) \<Longrightarrow> sig_inv c caches s0 g0 (set dealt) (set dealt) gr \<Longrightarrow> set dealt \<inter> set todeal = {} \<Longrightarrow>
    distinct todeal \<Longrightarrow> \<exists>r. hash_loop (basic_siggen c caches) dealt todeal gr = Some r \<and> sig_inv c caches s0 g0 (nodes g0) (nodes g0) (snd r)"
proof (induction "length todeal" arbitrary: dealt todeal gr rule: less_induct)
  case less
  show ?case
  proof (cases "todeal = []")
    case True
    then have "set dealt = nodes g0" using less.prems(1) by (simp add: hash_inv_def)
    with True less.prems(2) show ?thesis by (subst hash_loop.simps) simp
  next
    case False
    let ?ready = "ready_tasks (fst gr) dealt todeal" and ?sg = "basic_siggen c caches"
    have "hd todeal \<in> set todeal" using False by simp
    with less.prems(3) have "set todeal - set dealt \<noteq> {}" by blast
    from ready_exists [OF g a less.prems(1) this] obtain t where t: "t \<in> set todeal" "t \<in> set ?ready" by auto
    then have l: "length (sdiff todeal ?ready) < length todeal"
      unfolding sdiff_def by (intro length_filter_less [of t]) auto
    have n: "set dealt \<union> set todeal = nodes g0" "same_shape g0 (fst gr)" using less.prems(1) by (simp_all add: hash_inv_def)
    have sub: "set ?ready \<subseteq> set todeal" by (auto simp: ready_tasks_def)
    have "distinct ?ready" using less.prems(4) by (simp add: ready_tasks_def)
    moreover have "set ?ready \<inter> set dealt = {}" "set ?ready \<subseteq> nodes g0" "set dealt \<subseteq> nodes g0" using sub less.prems(3) n(1) by auto
    moreover have "\<forall>t \<in> set ?ready. set (deps_of g0 t) \<subseteq> set dealt" using same_shapeD(2) [OF n(2)] by (simp add: ready_tasks_def)
    ultimately have "sig_inv c caches s0 g0 (set dealt \<union> set ?ready) (set dealt \<union> set ?ready) (hash_round ?sg ?ready gr)"
      using sig_inv_round [OF less.prems(2)] known by blast
    then have "sig_inv c caches s0 g0 (set (dealt @ ?ready)) (set (dealt @ ?ready)) (hash_round ?sg ?ready gr)" by simp
    moreover have "set (dealt @ ?ready) \<inter> set (sdiff todeal ?ready) = {}" "distinct (sdiff todeal ?ready)"
      using less.prems(3,4) by (auto simp: sdiff_def)
    ultimately obtain r where "hash_loop ?sg (dealt @ ?ready) (sdiff todeal ?ready) (hash_round ?sg ?ready gr) = Some r"
      "sig_inv c caches s0 g0 (nodes g0) (nodes g0) (snd r)"
      using less.hyps [OF l hash_inv_step [OF less.prems(1)]] by blast
    with False show ?thesis by (subst hash_loop.simps) (simp add: Let_def)
  qed
qed

lemma run_result:
  assumes g: "deps_ok g" and a: "acyclic (edges g)" and known: "\<forall>t \<in> nodes g. task_known caches t"
  shows "\<exists>dealt g' s. hash_loop (basic_siggen c caches) [] (dkeys g) (g, Inr s0) = Some (dealt, g', Inr s) \<and>
    sig_inv c caches s0 g (nodes g) (nodes g) (g', Inr s)"
proof -
  have "distinct (dkeys g)" using g unfolding deps_ok_def by simp
  moreover have "sig_inv c caches s0 g (set []) (set []) (g, Inr s0)" by (simp add: sig_inv_def)
  moreover have "hash_inv g [] (dkeys g) (fst (g, Inr s0))" by (simp add: hash_inv_def nodes_def deps_first_def)
  ultimately obtain r where r: "hash_loop (basic_siggen c caches) [] (dkeys g) (g, Inr s0) = Some r"
      "sig_inv c caches s0 g (nodes g) (nodes g) (snd r)"
    using sig_loop [OF g a known, of "[]" "dkeys g" "(g, Inr s0)" c s0] by auto
  then obtain s where "snd (snd r) = Inr s" by (auto simp: sig_inv_def)
  with r show ?thesis by (metis prod.collapse)
qed

text \<open>C8. When the caches know all tasks of a graph without cycles, the loop over the hashes ends without an exception: no task is hashed
  before a task it depends on. The hash of each task is then the hash of its base hash, the hashes of the dependencies that
  count, in the order of their names, the checksums of its files, and its taint; and the entry of the graph has it as hash and unihash.\<close>

theorem run_signatures:
  assumes "deps_ok g" and "acyclic (edges g)" and "\<forall>t \<in> nodes g. task_known caches t"
  shows "\<exists>dealt g' s. hash_loop (basic_siggen c caches) [] (dkeys g) (g, Inr s0) = Some (dealt, g', Inr s) \<and>
    (\<forall>t \<in> nodes g.
       known_hash s t = sc_hash c (reference_text c caches (known_hash s) (dget (ss_taints s) t) (deps_of g t) t) \<and>
       re_hash (dget_default g' t new_entry) = Some (known_hash s t) \<and> re_unihash (dget_default g' t new_entry) = Some (known_hash s t))"
proof -
  from run_result [OF assms, of c s0] obtain dealt g' s
    where r: "hash_loop (basic_siggen c caches) [] (dkeys g) (g, Inr s0) = Some (dealt, g', Inr s)"
      "sig_inv c caches s0 g (nodes g) (nodes g) (g', Inr s)" by blast
  have "known_hash s t = sc_hash c (reference_text c caches (known_hash s) (dget (ss_taints s) t) (deps_of g t) t)"
    if "signed c caches (deps_of g t) s t" for t
    using that unfolding signed_def known_hash_def [of s t] dget_default_def by simp
  with r show ?thesis unfolding sig_inv_def by (intro exI [of _ dealt] exI [of _ g'] exI [of _ s]) auto
qed

lemma run_signatures_witness:
  "\<exists>dealt g' s. hash_loop (basic_siggen sample_sigconf sample_caches) [] (dkeys chain_graph) (chain_graph, Inr no_signatures) = Some (dealt, g', Inr s) \<and>
     re_hash (dget_default g' ''a.bb:do_a'' new_entry) = Some (known_hash s ''a.bb:do_a'')"
proof -
  have "acyclic (edges chain_graph)" by (simp add: chain_graph_ok acyclic_insert wf_acyclic)
  moreover have "task_known sample_caches ''a.bb:do_a''" "task_known sample_caches ''b.bb:do_b''" by code_simp+
  then have "\<forall>t \<in> nodes chain_graph. task_known sample_caches t" by (simp add: chain_graph_ok(3))
  ultimately show ?thesis using run_signatures [OF chain_graph_ok(1), of sample_caches sample_sigconf no_signatures] chain_graph_ok(3) by blast
qed

section \<open>The order of the tasks\<close>

text \<open>A task without stamp draws a random taint.\<close>

definition stamped :: "caches \<Rightarrow> string \<Rightarrow> bool" where
  "stamped caches t = of_task caches True (\<lambda>dc task mcfn. \<not> no_stamp dc mcfn task) t"

lemma stamped_taint: "stamped caches t \<Longrightarrow> taint_of c caches n t = taint_of c caches m t"
  by (auto simp: stamped_def taint_of_def of_task_def new_taint_def split: sum.splits option.splits list.split)

lemma sig_deps_order:
  assumes "distinct ds" and "distinct ds'" and "set ds = set ds'"
  shows "sort (sig_deps c caches ds t) = sort (sig_deps c caches ds' t)"
proof -
  have "mset ds = mset ds'" using assms set_eq_iff_mset_eq_distinct by blast
  then have "mset (sig_deps c caches ds t) = mset (sig_deps c caches ds' t)" by (simp add: sig_deps_def)
  then show ?thesis by (simp add: properties_for_sort)
qed

text \<open>C9. The hashes of the tasks do not depend on the order in which the tasks and their dependencies are kept, nor on what the
  generator did before, as long as no task is tainted from before and every task has a stamp: two runs over the same
  tasks with the same dependencies give every task the same hash.\<close>

theorem hashes_order_free:
  assumes g: "deps_ok g" "acyclic (edges g)" "\<forall>t \<in> nodes g. task_known caches t" and g': "deps_ok g'" "nodes g' = nodes g"
    and deps: "\<forall>t \<in> nodes g. set (deps_of g' t) = set (deps_of g t)"
    and stamp: "\<forall>t \<in> nodes g. stamped caches t" and taints: "ss_taints s0 = []" "ss_taints s0' = []"
    and run: "hash_loop (basic_siggen c caches) [] (dkeys g) (g, Inr s0) = Some (d, h, r)"
    and run': "hash_loop (basic_siggen c caches) [] (dkeys g') (g', Inr s0') = Some (d', h', r')"
  shows "\<forall>t \<in> nodes g. re_hash (dget_default h' t new_entry) = re_hash (dget_default h t new_entry) \<and>
    re_unihash (dget_default h' t new_entry) = re_unihash (dget_default h t new_entry)"
proof -
  have e: "edges g' = edges g" using g'(2) deps by (auto simp: edges_def)
  from run_result [OF g, of c s0] run obtain s where s: "sig_inv c caches s0 g (nodes g) (nodes g) (h, Inr s)" by auto
  have "\<forall>t \<in> nodes g'. task_known caches t" using g(3) g'(2) by simp
  from run_result [OF g'(1) g(2) [folded e] this, of c s0'] run' g'(2) obtain s'
    where s': "sig_inv c caches s0' g' (nodes g) (nodes g) (h', Inr s')" by auto
  have "wf ((edges g)\<inverse>)" using g(2) up.finite_E by (intro finite_acyclic_wf) (auto simp: acyclic_converse)
  then have "t \<in> nodes g \<longrightarrow> known_hash s' t = known_hash s t" for t
  proof (induction t rule: wf_induct_rule)
    case (less t)
    show ?case
    proof
      assume t: "t \<in> nodes g"
      from s t taints(1) obtain n where a: "signed c caches (deps_of g t) s t" "dget (ss_taints s) t = taint_of c caches n t"
        by (auto simp: sig_inv_def)
      from s' t taints(2) obtain m where b: "signed c caches (deps_of g' t) s' t" "dget (ss_taints s') t = taint_of c caches m t"
        by (auto simp: sig_inv_def)
      have x: "dget (ss_taints s') t = dget (ss_taints s) t" using a(2) b(2) stamp t stamped_taint by simp
      have "distinct (deps_of g t)" "distinct (deps_of g' t)" using deps_okD(2) [OF g(1) t] deps_okD(2) [OF g'(1)] g'(2) t by simp_all
      from sig_deps_order [OF this] deps t
      have o: "sort (sig_deps c caches (deps_of g t) t) = sort (sig_deps c caches (deps_of g' t) t)" by simp
      have "\<forall>d \<in> set (deps_of g t). known_hash s' d = known_hash s d"
        using less deps_okD(3,4) [OF g(1) t] by auto
      note c = reference_text_cong [OF this, of c caches "dget (ss_taints s) t" t]
      have "reference_text c caches (known_hash s') (dget (ss_taints s') t) (deps_of g' t) t =
          reference_text c caches (known_hash s) (dget (ss_taints s) t) (deps_of g t) t"
        unfolding c [symmetric] x by (simp add: reference_text_def o)
      moreover have "known_hash s t = sc_hash c (reference_text c caches (known_hash s) (dget (ss_taints s) t) (deps_of g t) t)"
        using a(1) unfolding signed_def known_hash_def [of s t] dget_default_def by simp
      moreover have "known_hash s' t = sc_hash c (reference_text c caches (known_hash s') (dget (ss_taints s') t) (deps_of g' t) t)"
        using b(1) unfolding signed_def known_hash_def [of s' t] dget_default_def by simp
      ultimately show "known_hash s' t = known_hash s t" by simp
    qed
  qed
  with s s' show ?thesis by (auto simp: sig_inv_def)
qed

definition turned_graph :: taskgraph where
  "turned_graph = rev chain_graph"

definition stamped_caches :: caches where
  "stamped_caches =
     [([], sample_recipes_cache\<lparr>dc_task_deps := [(''a.bb'', \<lparr>td_tasks = [''do_a''], td_parents = [], td_flags = []\<rparr>),
        (''b.bb'', \<lparr>td_tasks = [''do_b''], td_parents = [], td_flags = []\<rparr>)]\<rparr>)]"

lemma turned_graph_ok: "deps_ok turned_graph" "nodes turned_graph = nodes chain_graph" "edges turned_graph = edges chain_graph"
  "\<forall>t \<in> nodes chain_graph. set (deps_of turned_graph t) = set (deps_of chain_graph t)"
  by (auto simp: turned_graph_def deps_ok_def edges_def nodes_def chain_graph_def dget_default_def new_entry_def)

lemma hashes_order_free_witness:
  "\<exists>d h r d' h' r'. hash_loop (basic_siggen sample_sigconf stamped_caches) [] (dkeys chain_graph) (chain_graph, Inr no_signatures) = Some (d, h, r) \<and>
     hash_loop (basic_siggen sample_sigconf stamped_caches) [] (dkeys turned_graph) (turned_graph, Inr sample_signatures) = Some (d', h', r') \<and>
     re_hash (dget_default h' ''a.bb:do_a'' new_entry) = re_hash (dget_default h ''a.bb:do_a'' new_entry)"
proof -
  have a: "acyclic (edges chain_graph)" by (simp add: chain_graph_ok acyclic_insert wf_acyclic)
  have "task_known stamped_caches ''a.bb:do_a''" "task_known stamped_caches ''b.bb:do_b''" by code_simp+
  then have k: "\<forall>t \<in> nodes chain_graph. task_known stamped_caches t" by (simp add: chain_graph_ok(3))
  then have k': "\<forall>t \<in> nodes turned_graph. task_known stamped_caches t" by (simp add: turned_graph_ok(2))
  have "stamped stamped_caches ''a.bb:do_a''" "stamped stamped_caches ''b.bb:do_b''" by code_simp+
  then have st: "\<forall>t \<in> nodes chain_graph. stamped stamped_caches t" by (simp add: chain_graph_ok(3))
  have t: "ss_taints no_signatures = []" "ss_taints sample_signatures = []" by (simp_all add: sample_signatures_def no_signatures_def)
  from run_result [OF chain_graph_ok(1) a k, of sample_sigconf no_signatures] obtain d h s
    where r: "hash_loop (basic_siggen sample_sigconf stamped_caches) [] (dkeys chain_graph) (chain_graph, Inr no_signatures) = Some (d, h, Inr s)"
    by blast
  from run_result [OF turned_graph_ok(1) _ k', of sample_sigconf sample_signatures] a obtain d' h' s'
    where r': "hash_loop (basic_siggen sample_sigconf stamped_caches) [] (dkeys turned_graph) (turned_graph, Inr sample_signatures) = Some (d', h', Inr s')"
    unfolding turned_graph_ok(3) by blast
  from hashes_order_free [OF chain_graph_ok(1) a k turned_graph_ok(1,2,4) st t r r']
  have "re_hash (dget_default h' ''a.bb:do_a'' new_entry) = re_hash (dget_default h ''a.bb:do_a'' new_entry)"
    by (simp add: chain_graph_ok(3))
  with r r' show ?thesis by blast
qed

end
