(* ===== verification/UniHash.thy ===== *)
theory UniHash
  imports SigLaws
begin

text \<open>
  \<^verbatim>\<open>SignatureGeneratorUniHashMixIn\<close> of \<^verbatim>\<open>bb/siggen.py\<close>: the hashes that stand for all task hashes
  with equal outputs, as the hash equivalence server knows them.
\<close>

section \<open>State\<close>

text \<open>\<open>us_calls\<close> counts the calls of the server.\<close>

record unistate = sigstate +
  us_extramethod :: "(string, string) odict"
  us_exists :: "string list"
  us_calls :: nat

text \<open>
  The server is a parameter, which may answer differently each time: \<open>un_ask\<close> is \<^verbatim>\<open>get_unihash_batch\<close>,
  \<open>un_ask_pool\<close> is \<^verbatim>\<open>get_unihashes\<close> of the pool, \<open>un_exists\<close> and \<open>un_exists_pool\<close> are the questions whether a
  unihash exists, \<open>un_report\<close> and \<open>un_report_equiv\<close> are the reports, which give the unihash of the server.
\<close>

record uniconf =
  un_method :: string
  un_parallel :: int
  un_ask :: "nat \<Rightarrow> (string \<times> string) list \<Rightarrow> string option list result"
  un_ask_pool :: "nat \<Rightarrow> (string, string \<times> string) odict \<Rightarrow> (string, string option) odict result"
  un_exists :: "nat \<Rightarrow> string \<Rightarrow> bool result"
  un_exists_pool :: "nat \<Rightarrow> (string, string) odict \<Rightarrow> (string, bool) odict result"
  un_report :: "nat \<Rightarrow> string \<Rightarrow> string \<Rightarrow> string \<Rightarrow> string \<Rightarrow> string result"
  un_report_equiv :: "nat \<Rightarrow> string \<Rightarrow> string \<Rightarrow> string \<Rightarrow> string option result"

definition connection_error :: pyexc where
  "connection_error = PyError ''ConnectionError''"

definition ask_server :: "(nat \<Rightarrow> 'a result) \<Rightarrow> ('z unistate_scheme, 'a) sx" where
  "ask_server f s = (f (us_calls s), s\<lparr>us_calls := Suc (us_calls s)\<rparr>)"

section \<open>Unihashes that are known\<close>

text \<open>The name under which the unihash of a task is kept between runs.\<close>

definition unihash_key :: "'z sigstate_scheme \<Rightarrow> string \<Rightarrow> string result" where
  "unihash_key s tid =
     bindE (split_tid_mcfn tid) (\<lambda>(mc, fn, taskname, taskfn).
     bindE (dindex (ss_tidtopn s) tid) (\<lambda>pn. Inr (mc @ '':'' @ pn @ '':'' @ taskname)))"

definition set_unihash_of :: "string \<Rightarrow> string \<Rightarrow> ('z sigstate_scheme, unit) sx" where
  "set_unihash_of tid unihash =
     bindX (bindX (getX (\<lambda>s. unihash_key s tid)) liftX) (\<lambda>key.
     bindX (bindX (getX (\<lambda>s. dindex (ss_taskhash s) tid)) liftX) (\<lambda>h.
     setX (\<lambda>s. s\<lparr>ss_unitaskhashes := dset key (h, unihash) (ss_unitaskhashes s), ss_unihash := dset tid (Some unihash) (ss_unihash s)\<rparr>)))"

definition find_unihash :: "string \<Rightarrow> string option \<Rightarrow> 'z sigstate_scheme \<Rightarrow> string option result" where
  "find_unihash tid checkkey s =
     (if \<not> dhas (ss_tidtopn s) tid then Inr None
      else bindE (unihash_key s tid) (\<lambda>key.
           case dget (ss_unitaskhashes s) key of
             None \<Rightarrow> Inr None
           | Some (h, unihash) \<Rightarrow>
               bindE (case checkkey of Some (x # xs) \<Rightarrow> Inr (x # xs) | _ \<Rightarrow> dindex (ss_taskhash s) tid) (\<lambda>k.
               Inr (if h \<noteq> k then None else Some unihash))))"

text \<open>A task that is never taken from a cache has its hash as unihash.\<close>

definition get_cached_unihash :: "string \<Rightarrow> ('z sigstate_scheme, string option) sx" where
  "get_cached_unihash tid =
     bindX (bindX (getX (\<lambda>s. dindex (ss_taskhash s) tid)) liftX) (\<lambda>taskhash.
     bindX (getX ss_setscene) (\<lambda>setscene.
     if setscene \<noteq> [] \<and> tid \<notin> set setscene
     then bindX (setX (\<lambda>s. s\<lparr>ss_unihash := dset tid None (ss_unihash s)\<rparr>)) (\<lambda>_. retX (Some taskhash))
     else bindX (bindX (getX (find_unihash tid None)) liftX) (\<lambda>u.
          case u of
            None \<Rightarrow> retX None
          | Some unihash \<Rightarrow> bindX (setX (\<lambda>s. s\<lparr>ss_unihash := dset tid (Some unihash) (ss_unihash s)\<rparr>)) (\<lambda>_. retX (Some unihash)))))"

definition get_method :: "uniconf \<Rightarrow> string \<Rightarrow> 'z unistate_scheme \<Rightarrow> string" where
  "get_method c tid s = (case dget (us_extramethod s) tid of None \<Rightarrow> un_method c | Some e \<Rightarrow> un_method c @ e)"

definition stampfile_unihash :: "string \<Rightarrow> 'z sigstate_scheme \<Rightarrow> string result" where
  "stampfile_unihash tid s =
     (if dhas (ss_taskhash s) tid
      then bindE (find_unihash tid None s) (\<lambda>u. case u of Some unihash \<Rightarrow> Inr unihash | None \<Rightarrow> get_stampfile_hash tid s)
      else get_stampfile_hash tid s)"

section \<open>Unihashes of several tasks\<close>

text \<open>The unihashes that are known, and the questions for the others.\<close>

fun known_or_asked ::
  "uniconf \<Rightarrow> string list \<Rightarrow> (string, string) odict \<times> (string, string \<times> string) odict \<Rightarrow>
    ('z unistate_scheme, (string, string) odict \<times> (string, string \<times> string) odict) sx" where
  "known_or_asked c [] r = retX r"
| "known_or_asked c (tid # tids) r =
     bindX (get_cached_unihash tid) (\<lambda>u.
     case u of
       Some (x # xs) \<Rightarrow> known_or_asked c tids (dset tid (x # xs) (fst r), snd r)
     | _ \<Rightarrow> bindX (getX (get_method c tid)) (\<lambda>m.
            bindX (bindX (getX (\<lambda>s. dindex (ss_taskhash s) tid)) liftX) (\<lambda>h.
            known_or_asked c tids (fst r, dset tid (m, h) (snd r)))))"

definition answers :: "string list \<Rightarrow> string option list \<Rightarrow> (string, string option) odict result" where
  "answers keys us = (if length us < length keys then Inl IndexError else Inr (zip keys us))"

definition ask_unihashes :: "uniconf \<Rightarrow> (string, string \<times> string) odict \<Rightarrow> ('z unistate_scheme, (string, string option) odict) sx" where
  "ask_unihashes c q =
     (if un_parallel c \<le> 1 \<or> length q \<le> 1
      then bindX (ask_server (\<lambda>n. un_ask c n (map snd q))) (\<lambda>us. liftX (answers (dkeys q) us))
      else ask_server (\<lambda>n. un_ask_pool c n q))"

text \<open>Where the server knows nothing the hash of the task is the unihash.\<close>

fun keep_unihashes :: "(string, string option) odict \<Rightarrow> (string, string) odict \<Rightarrow> ('z sigstate_scheme, (string, string) odict) sx" where
  "keep_unihashes [] r = retX r"
| "keep_unihashes ((tid, u) # us) r =
     bindX (bindX (getX (\<lambda>s. dindex (ss_taskhash s) tid)) liftX) (\<lambda>taskhash.
     let unihash = (case u of Some (x # xs) \<Rightarrow> x # xs | _ \<Rightarrow> taskhash) in
     bindX (set_unihash_of tid unihash) (\<lambda>_. keep_unihashes us (dset tid unihash r)))"

definition get_unihashes :: "uniconf \<Rightarrow> string list \<Rightarrow> ('z unistate_scheme, (string, string) odict) sx" where
  "get_unihashes c tids =
     bindX (known_or_asked c tids ([], [])) (\<lambda>(r, q).
     if q = [] then retX r else bindX (ask_unihashes c q) (\<lambda>us. keep_unihashes us r))"

definition get_unihash :: "uniconf \<Rightarrow> string \<Rightarrow> ('z unistate_scheme, string) sx" where
  "get_unihash c tid = bindX (get_unihashes c [tid]) (\<lambda>r. liftX (dindex r tid))"

section \<open>Unihashes that exist\<close>

fun exist_serially :: "uniconf \<Rightarrow> (string, string) odict \<Rightarrow> ('z unistate_scheme, (string, bool) odict) sx" where
  "exist_serially c [] = retX []"
| "exist_serially c ((key, unihash) # q) =
     bindX (ask_server (\<lambda>n. un_exists c n unihash)) (\<lambda>b. bindX (exist_serially c q) (\<lambda>r. retX ((key, b) # r)))"

fun keep_existing :: "(string, string) odict \<Rightarrow> (string, bool) odict \<Rightarrow> (string, bool) odict \<Rightarrow> ('z unistate_scheme, (string, bool) odict) sx" where
  "keep_existing query [] r = retX r"
| "keep_existing query ((key, b) # bs) r =
     bindX (if b then bindX (liftX (dindex query key)) (\<lambda>u. setX (\<lambda>s. s\<lparr>us_exists := sadd u (us_exists s)\<rparr>)) else retX ()) (\<lambda>_.
     keep_existing query bs (dset key b r))"

definition unihashes_exist :: "uniconf \<Rightarrow> (string, string) odict \<Rightarrow> ('z unistate_scheme, (string, bool) odict) sx" where
  "unihashes_exist c query =
     (if query = [] then retX []
      else bindX (getX us_exists) (\<lambda>known.
           let cached = filter (\<lambda>ku. snd ku \<in> set known) query; q = filter (\<lambda>ku. snd ku \<notin> set known) query in
           bindX (if un_parallel c \<le> 1 \<or> length q \<le> 1 then exist_serially c q else ask_server (\<lambda>n. un_exists_pool c n q)) (\<lambda>bs.
           keep_existing query bs (map (\<lambda>ku. (fst ku, True)) cached))))"

section \<open>Reports\<close>

text \<open>
  \<^verbatim>\<open>report_unihash\<close> after a task ran: \<open>outhash\<close> is the hash of its output. The result is the new unihash when the
  server has another one, which is also sent as an event and set in the store.
\<close>

definition report_unihash :: "uniconf \<Rightarrow> string \<Rightarrow> string \<Rightarrow> string \<Rightarrow> string result \<Rightarrow> ('z unistate_scheme, string option) sx" where
  "report_unihash c tid taskhash unihash outhash =
     bindX (getX ss_setscene) (\<lambda>setscene.
     if setscene \<noteq> [] \<and> tid \<notin> set setscene then retX None
     else bindX (bindX (getX (\<lambda>s. dindex (ss_taskhash s) tid)) liftX) (\<lambda>h.
     if taskhash \<noteq> h then retX None
     else bindX (bindX (getX (find_unihash tid (Some taskhash))) liftX) (\<lambda>cached.
     if cached = None then raiseX (BBFatal (tid @ '':'' @ taskhash))
     else if cached \<noteq> Some unihash then raiseX (BBFatal unihash)
     else bindX (liftX outhash) (\<lambda>outhash.
     bindX (getX (get_method c tid)) (\<lambda>m s.
     case ask_server (\<lambda>n. un_report c n taskhash m outhash unihash) s of
       (Inl e, s) \<Rightarrow> if e = connection_error then (Inr None, s) else (Inl e, s)
     | (Inr new, s) \<Rightarrow>
         if new \<noteq> unihash then bindX (set_unihash_of tid new) (\<lambda>_. retX (Some new)) s else (Inr None, s))))))"

definition report_unihash_equiv :: "uniconf \<Rightarrow> string \<Rightarrow> string \<Rightarrow> string \<Rightarrow> string \<Rightarrow> ('z unistate_scheme, bool) sx" where
  "report_unihash_equiv c tid taskhash new current =
     bindX (getX (get_method c tid)) (\<lambda>m s.
     case ask_server (\<lambda>n. un_report_equiv c n taskhash m new) s of
       (Inl e, s) \<Rightarrow> if e = connection_error then (Inr False, s) else (Inl e, s)
     | (Inr None, s) \<Rightarrow> (Inr False, s)
     | (Inr (Some final), s) \<Rightarrow>
         if final = current then (Inr False, s)
         else if final = new then bindX (set_unihash_of tid final) (\<lambda>_. retX True) s
         else (Inr False, s))"

end
