(* ===== verification/UniLaws.thy ===== *)
theory UniLaws
  imports UniHash
begin

text \<open>Unihashes: what is known stays known, and what exists is asked once.\<close>

section \<open>Known unihashes\<close>

definition known_unihash :: "'z sigstate_scheme \<Rightarrow> string \<Rightarrow> string option result" where
  "known_unihash s t =
     (if ss_setscene s \<noteq> [] \<and> t \<notin> set (ss_setscene s) then bindE (dindex (ss_taskhash s) t) (\<lambda>h. Inr (Some h))
      else find_unihash t None s)"

lemma unihash_key_update [simp]:
  "unihash_key (s\<lparr>ss_unihash := x\<rparr>) t = unihash_key s t" "unihash_key (s\<lparr>ss_unitaskhashes := y\<rparr>) t = unihash_key s t"
  by (simp_all add: unihash_key_def)

lemma find_unihash_update [simp]: "find_unihash t k (s\<lparr>ss_unihash := x\<rparr>) = find_unihash t k s"
  by (simp add: find_unihash_def cong: bindE_cong option.case_cong list.case_cong prod.case_cong)

lemma known_unihash_update [simp]: "known_unihash (s\<lparr>ss_unihash := x\<rparr>) t = known_unihash s t"
  by (simp add: known_unihash_def)

lemma get_cached_unihash_result:
  assumes "dget (ss_taskhash s) t = Some h"
  shows "\<exists>x. get_cached_unihash t s = (known_unihash s t, s\<lparr>ss_unihash := x\<rparr>)"
proof (cases "ss_setscene s \<noteq> [] \<and> t \<notin> set (ss_setscene s)")
  case True
  then show ?thesis using assms
    by (auto simp: get_cached_unihash_def known_unihash_def bindX_def getX_def liftX_def setX_def retX_def dindex_def)
next
  case False
  show ?thesis
  proof (cases "find_unihash t None s")
    case (Inl e)
    with False assms show ?thesis
      by (intro exI [of _ "ss_unihash s"])
        (auto simp: get_cached_unihash_def known_unihash_def bindX_def getX_def liftX_def dindex_def)
  next
    case (Inr u)
    with False assms show ?thesis
    proof (cases u)
      case None
      with Inr False assms show ?thesis
        by (intro exI [of _ "ss_unihash s"])
          (auto simp: get_cached_unihash_def known_unihash_def bindX_def getX_def liftX_def retX_def dindex_def)
    qed (auto simp: get_cached_unihash_def known_unihash_def bindX_def getX_def liftX_def setX_def retX_def dindex_def)
  qed
qed

lemma get_cached_unihash_hash: "get_cached_unihash t s = (Inr u, s') \<Longrightarrow> \<exists>h. dget (ss_taskhash s) t = Some h"
  by (auto simp: get_cached_unihash_def bindX_def getX_def liftX_def dindex_def split: sum.splits option.splits)

text \<open>The first loop: a task is known, with the answer kept, or it is asked.\<close>

definition uni_known :: "'z sigstate_scheme \<Rightarrow> string \<Rightarrow> string \<Rightarrow> bool" where
  "uni_known s t u \<longleftrightarrow> known_unihash s t = Inr (Some u) \<and> u \<noteq> []"

definition uni_open :: "'z sigstate_scheme \<Rightarrow> string \<Rightarrow> bool" where
  "uni_open s t \<longleftrightarrow> known_unihash s t = Inr None \<or> known_unihash s t = Inr (Some [])"

lemma uni_known_update [simp]:
  "uni_known (s\<lparr>ss_unihash := x\<rparr>) t u = uni_known s t u" "uni_open (s\<lparr>ss_unihash := x\<rparr>) t = uni_open s t"
  by (simp_all add: uni_known_def uni_open_def)

lemma known_or_asked_step:
  assumes "known_or_asked c (t # ts) r s = (Inr r', s')"
  obtains u x where "uni_known s t u" "known_or_asked c ts (dset t u (fst r), snd r) (s\<lparr>ss_unihash := x\<rparr>) = (Inr r', s')"
  | x m where "uni_open s t" "known_or_asked c ts (fst r, dset t m (snd r)) (s\<lparr>ss_unihash := x\<rparr>) = (Inr r', s')"
proof -
  from assms obtain v s1 where v: "get_cached_unihash t s = (Inr v, s1)" by (auto simp: bindX_Inr)
  then obtain h where h: "dget (ss_taskhash s) t = Some h" using get_cached_unihash_hash by blast
  from get_cached_unihash_result [OF h] v obtain x where k: "known_unihash s t = Inr v" "s1 = s\<lparr>ss_unihash := x\<rparr>" by auto
  show thesis
  proof (cases "v = None \<or> v = Some []")
    case True
    then have "uni_open s t" using k(1) by (auto simp: uni_open_def)
    moreover have "known_or_asked c ts (fst r, dset t (get_method c t s1, h) (snd r)) (s\<lparr>ss_unihash := x\<rparr>) = (Inr r', s')"
      using assms v k h True by (auto simp: bindX_def getX_def liftX_def dindex_def)
    ultimately show ?thesis by (rule that(2))
  next
    case False
    then obtain u where u: "v = Some u" "u \<noteq> []" by (cases v) auto
    then have "uni_known s t u" using k(1) by (simp add: uni_known_def)
    moreover have "known_or_asked c ts (dset t u (fst r), snd r) (s\<lparr>ss_unihash := x\<rparr>) = (Inr r', s')"
      using assms v k u by (cases u) (auto simp: bindX_def)
    ultimately show ?thesis by (rule that(1))
  qed
qed

definition sorted_out :: "'z sigstate_scheme \<Rightarrow> (string, string) odict \<times> (string, string \<times> string) odict \<Rightarrow> string \<Rightarrow> bool" where
  "sorted_out s r t \<longleftrightarrow> (\<exists>u. uni_known s t u \<and> dget (fst r) t = Some u) \<or> uni_open s t \<and> dhas (snd r) t"

lemma uni_known_unique: "uni_known s t u \<Longrightarrow> uni_known s t v \<Longrightarrow> u = v" "uni_known s t u \<Longrightarrow> \<not> uni_open s t"
  by (auto simp: uni_known_def uni_open_def)

lemma known_or_asked_result:
  "known_or_asked c tids r s = (Inr r', s') \<Longrightarrow>
    (\<exists>x. s' = s\<lparr>ss_unihash := x\<rparr>) \<and>
    (\<forall>t. t \<in> set tids \<or> sorted_out s r t \<longrightarrow> sorted_out s r' t) \<and>
    (\<forall>t. dhas (snd r') t \<longrightarrow> dhas (snd r) t \<or> t \<in> set tids \<and> uni_open s t) \<and>
    (distinct (dkeys (snd r)) \<longrightarrow> distinct (dkeys (snd r')))"
proof (induction tids arbitrary: r s)
  case Nil
  then show ?case by (auto simp: retX_def intro: exI [of _ "ss_unihash s"])
next
  case (Cons t ts)
  from Cons.prems show ?case
  proof (cases rule: known_or_asked_step)
    case (1 u x)
    have "sorted_out s (dset t u (fst r), snd r) t" using 1(1) by (auto simp: sorted_out_def dget_dset)
    moreover have "sorted_out s (dset t u (fst r), snd r) v" if "sorted_out s r v" for v
      using that 1(1) uni_known_unique [of s t] by (cases "v = t") (auto simp: sorted_out_def dget_dset)
    moreover note IH = Cons.IH [OF 1(2)]
    ultimately show ?thesis unfolding sorted_out_def by auto
  next
    case (2 x m)
    have "sorted_out s (fst r, dset t m (snd r)) t" using 2(1) by (auto simp: sorted_out_def dget_dset dhas_iff)
    moreover have "sorted_out s (fst r, dset t m (snd r)) v" if "sorted_out s r v" for v
      using that by (auto simp: sorted_out_def dget_dset dhas_iff)
    moreover have "dhas (dset t m (snd r)) v \<longleftrightarrow> v = t \<or> dhas (snd r) v" for v by (auto simp: dget_dset dhas_iff)
    moreover note IH = Cons.IH [OF 2(2)]
    ultimately show ?thesis using 2(1) distinct_dset [of "snd r" t m] unfolding sorted_out_def by auto
  qed
qed

section \<open>What is asked is known afterwards\<close>

lemma set_unihash_result:
  assumes "set_unihash_of t u s = (Inr x, s')"
  shows "\<exists>key h y. unihash_key s t = Inr key \<and> dget (ss_taskhash s) t = Some h \<and>
    s' = s\<lparr>ss_unitaskhashes := dset key (h, u) (ss_unitaskhashes s), ss_unihash := y\<rparr>"
  using assms
  by (auto simp: set_unihash_of_def bindX_def getX_def liftX_def setX_def dindex_def split: sum.splits option.splits)

lemma find_after_set:
  assumes "set_unihash_of t u s = (Inr x, s')"
  shows "find_unihash t None s' = Inr (Some u)"
    and "unihash_key s v \<noteq> unihash_key s t \<Longrightarrow> find_unihash v None s' = find_unihash v None s"
    and "unihash_key s' v = unihash_key s v" "ss_taskhash s' = ss_taskhash s" "ss_setscene s' = ss_setscene s"
proof -
  from set_unihash_result [OF assms] obtain key h y where k: "unihash_key s t = Inr key" "dget (ss_taskhash s) t = Some h"
    and s': "s' = s\<lparr>ss_unitaskhashes := dset key (h, u) (ss_unitaskhashes s), ss_unihash := y\<rparr>" by blast
  have "dhas (ss_tidtopn s) t" using k(1) by (auto simp: unihash_key_def bindE_eq_Inr dindex_eq_Inr dhas_iff)
  then show "find_unihash t None s' = Inr (Some u)"
    using k by (simp add: find_unihash_def s' dget_dset dindex_def)
  show "find_unihash v None s' = find_unihash v None s" if "unihash_key s v \<noteq> unihash_key s t"
  proof (cases "unihash_key s v")
    case (Inr kv)
    with that k(1) have "kv \<noteq> key" by simp
    with Inr show ?thesis by (simp add: find_unihash_def s' dget_dset split: option.split)
  qed (simp add: find_unihash_def s')
  show "unihash_key s' v = unihash_key s v" "ss_taskhash s' = ss_taskhash s" "ss_setscene s' = ss_setscene s" by (simp_all add: s')
qed

lemma keep_unihashes_result:
  assumes "keep_unihashes us r s = (Inr r', s')" and "distinct (map fst us)" and "fst ` set us \<subseteq> T" and "inj_on (unihash_key s) T"
    and "\<forall>t \<in> T. dget (ss_taskhash s) t \<noteq> Some []"
  shows "(\<exists>x y. s' = s\<lparr>ss_unitaskhashes := x, ss_unihash := y\<rparr>) \<and>
    (\<forall>t \<in> fst ` set us. \<exists>u. dget r' t = Some u \<and> u \<noteq> [] \<and> find_unihash t None s' = Inr (Some u)) \<and>
    (\<forall>t \<in> T - fst ` set us. dget r' t = dget r t \<and> find_unihash t None s' = find_unihash t None s)"
  using assms
proof (induction us arbitrary: r s)
  case Nil
  have "s = s\<lparr>ss_unitaskhashes := ss_unitaskhashes s, ss_unihash := ss_unihash s\<rparr>" by simp
  with Nil.prems(1) have "\<exists>x y. s' = s\<lparr>ss_unitaskhashes := x, ss_unihash := y\<rparr>" by (metis keep_unihashes.simps(1) prod.inject retX_def)
  with Nil show ?case by (simp add: retX_def)
next
  case (Cons p us)
  obtain t a where p: "p = (t, a)" by (cases p)
  from Cons.prems(1) obtain h where h: "dget (ss_taskhash s) t = Some h"
    by (auto simp: p bindX_def getX_def liftX_def dindex_def split: sum.splits option.splits)
  define u where "u = (case a of Some (x # xs) \<Rightarrow> x # xs | _ \<Rightarrow> h)"
  from Cons.prems(1) h obtain s1 where s1: "set_unihash_of t u s = (Inr (), s1)" "keep_unihashes us (dset t u r) s1 = (Inr r', s')"
    by (auto simp: p bindX_def [of "bindX _ _"] bindX_def [of "getX _"] getX_def liftX_def dindex_def u_def [symmetric] Let_def bindX_Inr)
  have t: "t \<in> T" "t \<notin> fst ` set us" using Cons.prems(2,3) by (auto simp: p)
  have u: "u \<noteq> []" using Cons.prems(5) t(1) h by (auto simp: u_def split: option.split list.split)
  note f = find_after_set [OF s1(1)]
  have "inj_on (unihash_key s1) T" using Cons.prems(4) f(3) by (simp add: inj_on_def)
  moreover have "\<forall>t \<in> T. dget (ss_taskhash s1) t \<noteq> Some []" using Cons.prems(5) f(4) by simp
  moreover have "distinct (map fst us)" "fst ` set us \<subseteq> T" using Cons.prems(2,3) by auto
  ultimately have IH: "(\<exists>x y. s' = s1\<lparr>ss_unitaskhashes := x, ss_unihash := y\<rparr>) \<and>
    (\<forall>t \<in> fst ` set us. \<exists>u. dget r' t = Some u \<and> u \<noteq> [] \<and> find_unihash t None s' = Inr (Some u)) \<and>
    (\<forall>v \<in> T - fst ` set us. dget r' v = dget (dset t u r) v \<and> find_unihash v None s' = find_unihash v None s1)"
    using Cons.IH [OF s1(2)] by blast
  from IH obtain x y where "s' = s1\<lparr>ss_unitaskhashes := x, ss_unihash := y\<rparr>" by blast
  moreover from set_unihash_result [OF s1(1)] obtain x' y' where "s1 = s\<lparr>ss_unitaskhashes := x', ss_unihash := y'\<rparr>" by blast
  ultimately have "s' = s\<lparr>ss_unitaskhashes := x, ss_unihash := y\<rparr>" by simp
  then have "\<exists>x y. s' = s\<lparr>ss_unitaskhashes := x, ss_unihash := y\<rparr>" by blast
  moreover have "dget r' t = Some u \<and> u \<noteq> [] \<and> find_unihash t None s' = Inr (Some u)" using IH t u f(1) by (simp add: dget_dset)
  moreover have "dget r' v = dget r v \<and> find_unihash v None s' = find_unihash v None s" if "v \<in> T - fst ` set (p # us)" for v
  proof -
    have "v \<noteq> t" "v \<in> T - fst ` set us" using that by (auto simp: p)
    moreover have "unihash_key s v \<noteq> unihash_key s t" using Cons.prems(4) that t(1) by (auto simp: inj_on_def p)
    ultimately show ?thesis using IH f(2) by (simp add: dget_dset)
  qed
  ultimately show ?case using IH by (auto simp: p)
qed

text \<open>The answers of the server, when it answers all that is asked.\<close>

lemma ask_result:
  assumes "ask_unihashes c q s = (Inr us, s')" and "\<forall>n q us. un_ask_pool c n q = Inr us \<longrightarrow> dkeys us = dkeys q"
  shows "dkeys us = dkeys q \<and> s' = s\<lparr>us_calls := Suc (us_calls s)\<rparr>"
proof (cases "un_parallel c \<le> 1 \<or> length q \<le> 1")
  case True
  with assms(1) show ?thesis
    by (auto simp: ask_unihashes_def bindX_Inr ask_server_def liftX_def answers_def map_fst_zip_take split: if_splits)
next
  case False
  with assms show ?thesis by (auto simp: ask_unihashes_def ask_server_def)
qed

lemma unihashes_known:
  assumes g: "get_unihashes c tids s = (Inr r, s')" and inj: "inj_on (unihash_key s) (set tids)"
    and h: "\<forall>t \<in> set tids. dget (ss_taskhash s) t \<noteq> Some []"
    and pool: "\<forall>n q us. un_ask_pool c n q = Inr us \<longrightarrow> dkeys us = dkeys q"
  shows "\<forall>t \<in> set tids. \<exists>u. uni_known s' t u \<and> dget r t = Some u" "ss_taskhash s' = ss_taskhash s" "\<forall>t. unihash_key s' t = unihash_key s t"
proof -
  from g obtain r1 q s1 where k: "known_or_asked c tids ([], []) s = (Inr (r1, q), s1)"
    and rest: "(if q = [] then retX r1 else bindX (ask_unihashes c q) (\<lambda>us. keep_unihashes us r1)) s1 = (Inr r, s')"
    by (auto simp: get_unihashes_def bindX_Inr)
  from known_or_asked_result [OF k] obtain x where s1: "s1 = s\<lparr>ss_unihash := x\<rparr>" and so: "\<forall>t \<in> set tids. sorted_out s (r1, q) t"
    and q: "\<forall>t. dhas q t \<longrightarrow> t \<in> set tids \<and> uni_open s t" "distinct (dkeys q)" by (auto simp: dhas_iff)
  have "(\<forall>t \<in> set tids. \<exists>u. uni_known s' t u \<and> dget r t = Some u) \<and> ss_taskhash s' = ss_taskhash s \<and> (\<forall>t. unihash_key s' t = unihash_key s t)"
  proof (cases "q = []")
    case True
    then show ?thesis using rest so by (auto simp: s1 retX_def sorted_out_def dhas_iff)
  next
    case False
    with rest obtain us s2 where us: "ask_unihashes c q s1 = (Inr us, s2)" and kp: "keep_unihashes us r1 s2 = (Inr r, s')"
      by (auto simp: bindX_Inr)
    from ask_result [OF us pool] have k: "dkeys us = dkeys q" and s2: "s2 = s1\<lparr>us_calls := Suc (us_calls s1)\<rparr>" by auto
    have key: "unihash_key s2 t = unihash_key s t" for t by (simp add: unihash_key_def s2 s1)
    have "unihash_key (s\<lparr>ss_unihash := x, us_calls := n\<rparr>) t = unihash_key s t" for n t by (simp add: unihash_key_def)
    then have fnd: "find_unihash t None s2 = find_unihash t None s" for t
      by (simp add: find_unihash_def key s2 s1 cong: bindE_cong option.case_cong list.case_cong prod.case_cong)
    have keys: "fst ` set us = {t. dhas q t}" using arg_cong [OF k, of set] by (simp add: dhas_def)
    have "distinct (map fst us)" using q(2) k by simp
    moreover have "fst ` set us \<subseteq> set tids" using q(1) keys by auto
    moreover have "inj_on (unihash_key s2) (set tids)" using inj by (simp add: inj_on_def key)
    moreover have "\<forall>t \<in> set tids. dget (ss_taskhash s2) t \<noteq> Some []" using h by (simp add: s2 s1)
    ultimately have r: "(\<exists>x y. s' = s2\<lparr>ss_unitaskhashes := x, ss_unihash := y\<rparr>) \<and>
      (\<forall>t \<in> fst ` set us. \<exists>u. dget r t = Some u \<and> u \<noteq> [] \<and> find_unihash t None s' = Inr (Some u)) \<and>
      (\<forall>t \<in> set tids - fst ` set us. dget r t = dget r1 t \<and> find_unihash t None s' = find_unihash t None s2)"
      using keep_unihashes_result [OF kp] by blast
    then obtain x y where s': "s' = s2\<lparr>ss_unitaskhashes := x, ss_unihash := y\<rparr>" by blast
    have same: "ss_taskhash s' = ss_taskhash s" "ss_setscene s' = ss_setscene s" "unihash_key s' t = unihash_key s t" for t
      by (simp_all add: s' s2 s1 unihash_key_def)
    have "\<exists>u. uni_known s' t u \<and> dget r t = Some u" if t: "t \<in> set tids" for t
    proof (cases "dhas q t")
      case True
      then have "t \<in> fst ` set us" "uni_open s t" using keys q(1) by auto
      moreover from this(1) r obtain u where u: "dget r t = Some u" "u \<noteq> []" "find_unihash t None s' = Inr (Some u)" by blast
      moreover have "\<not> (ss_setscene s \<noteq> [] \<and> t \<notin> set (ss_setscene s))"
      proof
        assume "ss_setscene s \<noteq> [] \<and> t \<notin> set (ss_setscene s)"
        with \<open>uni_open s t\<close> h t show False by (auto simp: uni_open_def known_unihash_def bindE_eq_Inr dindex_eq_Inr)
      qed
      ultimately show ?thesis by (auto simp: uni_known_def known_unihash_def same)
    next
      case False
      then have "t \<in> set tids - fst ` set us" using keys t by auto
      moreover obtain u where u: "uni_known s t u" "dget r1 t = Some u" using so t False by (auto simp: sorted_out_def)
      ultimately show ?thesis using r by (auto simp: uni_known_def known_unihash_def same fnd)
    qed
    with same show ?thesis by blast
  qed
  then show "\<forall>t \<in> set tids. \<exists>u. uni_known s' t u \<and> dget r t = Some u" "ss_taskhash s' = ss_taskhash s" "\<forall>t. unihash_key s' t = unihash_key s t"
    by blast+
qed

text \<open>All that is asked is known: the server is left alone.\<close>

lemma known_or_asked_known:
  assumes "\<forall>t \<in> set tids. \<exists>u. uni_known s t u \<and> dhas (ss_taskhash s) t"
  shows "\<exists>r' x. known_or_asked c tids r s = (Inr (r', snd r), s\<lparr>ss_unihash := x\<rparr>) \<and>
    (\<forall>t u. dget r' t = Some u \<longleftrightarrow> (if t \<in> set tids then uni_known s t u else dget (fst r) t = Some u))"
  using assms
proof (induction tids arbitrary: r s)
  case Nil
  have "s = s\<lparr>ss_unihash := ss_unihash s\<rparr>" by simp
  then show ?case by (intro exI [of _ "fst r"] exI [of _ "ss_unihash s"]) (simp add: retX_def)
next
  case (Cons t ts)
  then obtain u h where u: "uni_known s t u" "dget (ss_taskhash s) t = Some h" by (auto simp: dhas_iff)
  then have k: "known_unihash s t = Inr (Some u)" "u \<noteq> []" by (simp_all add: uni_known_def)
  from get_cached_unihash_result [OF u(2)] k obtain y where y: "get_cached_unihash t s = (Inr (Some u), s\<lparr>ss_unihash := y\<rparr>)" by auto
  have "\<forall>v \<in> set ts. \<exists>w. uni_known (s\<lparr>ss_unihash := y\<rparr>) v w \<and> dhas (ss_taskhash (s\<lparr>ss_unihash := y\<rparr>)) v" using Cons.prems by simp
  from Cons.IH [OF this, of "(dset t u (fst r), snd r)"] obtain r' x
    where r: "known_or_asked c ts (dset t u (fst r), snd r) (s\<lparr>ss_unihash := y\<rparr>) = (Inr (r', snd r), s\<lparr>ss_unihash := x\<rparr>)"
      "\<forall>v w. dget r' v = Some w \<longleftrightarrow> (if v \<in> set ts then uni_known s v w else dget (dset t u (fst r)) v = Some w)" by auto
  have "known_or_asked c (t # ts) r s = (Inr (r', snd r), s\<lparr>ss_unihash := x\<rparr>)"
    using y r(1) k(2) by (cases u) (simp_all add: bindX_def)
  moreover have "\<forall>v w. dget r' v = Some w \<longleftrightarrow> (if v \<in> set (t # ts) then uni_known s v w else dget (fst r) v = Some w)"
  proof (intro allI)
    fix v w
    have "uni_known s t w \<longleftrightarrow> w = u" using uni_known_unique(1) [OF u(1)] u(1) by blast
    then show "dget r' v = Some w \<longleftrightarrow> (if v \<in> set (t # ts) then uni_known s v w else dget (fst r) v = Some w)"
      using r(2) [rule_format, of v w] by (auto simp: dget_dset)
  qed
  ultimately show ?case by blast
qed

lemma get_unihash_known:
  assumes "uni_known s t u" and "dhas (ss_taskhash s) t"
  shows "\<exists>x. get_unihash c t s = (Inr u, s\<lparr>ss_unihash := x\<rparr>)"
proof -
  have "\<forall>v \<in> set [t]. \<exists>u. uni_known s v u \<and> dhas (ss_taskhash s) v" using assms by auto
  from known_or_asked_known [OF this, of c "([], [])"] obtain r x
    where r: "known_or_asked c [t] ([], []) s = (Inr (r, []), s\<lparr>ss_unihash := x\<rparr>)" "\<forall>v. dget r t = Some v \<longleftrightarrow> uni_known s t v" by auto
  have "dget r t = Some u" using r(2) assms(1) by blast
  then have "get_unihash c t s = (Inr u, s\<lparr>ss_unihash := x\<rparr>)"
    using r(1) by (simp add: get_unihash_def get_unihashes_def bindX_def retX_def liftX_def dindex_def del: known_or_asked.simps)
  then show ?thesis by blast
qed

text \<open>C29. Asking for the unihashes of tasks twice gives the same unihashes, and the second time the server is not asked.
  This holds for tasks that are kept under different names, have non-empty hashes, and a pool of clients that answers all questions.\<close>

theorem get_unihashes_again:
  assumes "get_unihashes c tids s = (Inr r, s')" and "inj_on (unihash_key s) (set tids)"
    and "\<forall>t \<in> set tids. dget (ss_taskhash s) t \<noteq> Some []" and "\<forall>n q us. un_ask_pool c n q = Inr us \<longrightarrow> dkeys us = dkeys q"
  shows "\<exists>r' x. get_unihashes c tids s' = (Inr r', s'\<lparr>ss_unihash := x\<rparr>) \<and>
    (\<forall>t \<in> set tids. \<exists>u. dget r t = Some u \<and> dget r' t = Some u \<and> u \<noteq> [])"
proof -
  note u = unihashes_known [OF assms]
  have "\<exists>h. dget (ss_taskhash s) t = Some h" if "uni_known s' t v" for t v
    using that u(2) by (auto simp: uni_known_def known_unihash_def find_unihash_def bindE_eq_Inr dindex_eq_Inr split: if_splits option.splits)
  then have "\<forall>t \<in> set tids. \<exists>v. uni_known s' t v \<and> dhas (ss_taskhash s') t" using u(1) unfolding u(2) dhas_iff by blast
  from known_or_asked_known [OF this, of c "([], [])"] obtain r' x
    where r: "known_or_asked c tids ([], []) s' = (Inr (r', []), s'\<lparr>ss_unihash := x\<rparr>)"
      "\<forall>t \<in> set tids. \<forall>v. dget r' t = Some v \<longleftrightarrow> uni_known s' t v" by auto
  have "get_unihashes c tids s' = (Inr r', s'\<lparr>ss_unihash := x\<rparr>)" using r(1) by (simp add: get_unihashes_def bindX_def retX_def)
  moreover have "\<forall>t \<in> set tids. \<exists>v. dget r t = Some v \<and> dget r' t = Some v \<and> v \<noteq> []" using u(1) r(2) unfolding uni_known_def by blast
  ultimately show ?thesis by blast
qed

definition sample_uniconf :: uniconf where
  "sample_uniconf =
     \<lparr>un_method = ''m'', un_parallel = 1, un_ask = (\<lambda>n q. Inr (map (\<lambda>k. if snd k = ''HB'' then Some ''UB'' else None) q)),
      un_ask_pool = (\<lambda>n q. Inr (map (\<lambda>k. (fst k, None)) q)), un_exists = (\<lambda>n u. Inr (u = ''UB'')),
      un_exists_pool = (\<lambda>n q. Inr (map (\<lambda>k. (fst k, snd k = ''UB'')) q)), un_report = (\<lambda>n h m o1 u. Inr ''UN''),
      un_report_equiv = (\<lambda>n h m u. Inr (Some u))\<rparr>"

definition sample_unistate :: unistate where
  "sample_unistate =
     sigstate.extend (no_signatures\<lparr>ss_taskhash := [(''b.bb:do_b'', ''HB''), (''n.bb:do_n'', ''HN'')],
         ss_tidtopn := [(''b.bb:do_b'', ''b''), (''n.bb:do_n'', ''n'')]\<rparr>)
       \<lparr>us_extramethod = [], us_exists = [], us_calls = 0\<rparr>"

definition sample_asked :: "(string, string) odict result \<times> unistate" where
  "sample_asked = get_unihashes sample_uniconf [''b.bb:do_b'', ''n.bb:do_n''] sample_unistate"

lemma get_unihashes_again_witness:
  "\<exists>r' x. get_unihashes sample_uniconf [''b.bb:do_b'', ''n.bb:do_n''] (snd sample_asked) = (Inr r', (snd sample_asked)\<lparr>ss_unihash := x\<rparr>) \<and>
     dget r' ''b.bb:do_b'' = Some ''UB''"
proof -
  let ?ts = "[''b.bb:do_b'', ''n.bb:do_n'']"
  have a: "fst sample_asked = Inr [(''b.bb:do_b'', ''UB''), (''n.bb:do_n'', ''HN'')]" by code_simp
  then have g: "get_unihashes sample_uniconf ?ts sample_unistate = (Inr [(''b.bb:do_b'', ''UB''), (''n.bb:do_n'', ''HN'')], snd sample_asked)"
    by (simp add: sample_asked_def prod_eq_iff)
  have "unihash_key sample_unistate ''b.bb:do_b'' \<noteq> unihash_key sample_unistate ''n.bb:do_n''" by code_simp
  then have i: "inj_on (unihash_key sample_unistate) (set ?ts)" by (auto simp: inj_on_def)
  have h: "\<forall>t \<in> set ?ts. dget (ss_taskhash sample_unistate) t \<noteq> Some []" by code_simp
  have "\<forall>n q us. un_ask_pool sample_uniconf n q = Inr us \<longrightarrow> dkeys us = dkeys q" by (auto simp: sample_uniconf_def comp_def)
  from get_unihashes_again [OF g i h this] show ?thesis by fastforce
qed

section \<open>Unihashes that exist\<close>

lemma exist_serially_result:
  assumes "\<forall>n u. un_exists c n u = Inr (E u)"
  shows "exist_serially c q s = (Inr (map (\<lambda>ku. (fst ku, E (snd ku))) q), s\<lparr>us_calls := us_calls s + length q\<rparr>)"
proof (induction q arbitrary: s)
  case (Cons ku q)
  then show ?case using assms by (cases ku) (simp add: bindX_def ask_server_def retX_def)
qed (simp add: retX_def)

lemma keep_existing_result:
  "set q \<subseteq> set query \<Longrightarrow> distinct (dkeys query) \<Longrightarrow>
    \<exists>r' x. keep_existing query (map (\<lambda>ku. (fst ku, E (snd ku))) q) r s = (Inr r', s\<lparr>us_exists := x\<rparr>) \<and>
      (\<forall>k. dget r' k = (case dget q k of None \<Rightarrow> dget r k | Some u \<Rightarrow> Some (E u))) \<and>
      set x = set (us_exists s) \<union> {u \<in> snd ` set q. E u}"
proof (induction q arbitrary: r s)
  case Nil
  have "s = s\<lparr>us_exists := us_exists s\<rparr>" by simp
  then show ?case by (intro exI [of _ r] exI [of _ "us_exists s"]) (simp add: retX_def)
next
  case (Cons ku q)
  obtain k u where ku: "ku = (k, u)" by (cases ku)
  have "dget query k = Some u" using Cons.prems by (simp add: ku map_of_is_SomeI)
  then have i: "dindex query k = Inr u" by (simp add: dindex_eq_Inr)
  define x1 where "x1 = (if E u then sadd u (us_exists s) else us_exists s)"
  have x1: "set x1 = set (us_exists s) \<union> (if E u then {u} else {})" by (simp add: x1_def)
  have sub: "set q \<subseteq> set query" using Cons.prems(1) by simp
  from Cons.IH [OF sub Cons.prems(2), of "dset k (E u) r" "s\<lparr>us_exists := x1\<rparr>"] obtain r' x
    where r: "keep_existing query (map (\<lambda>ku. (fst ku, E (snd ku))) q) (dset k (E u) r) (s\<lparr>us_exists := x1\<rparr>) = (Inr r', s\<lparr>us_exists := x\<rparr>)"
      "\<forall>j. dget r' j = (case dget q j of None \<Rightarrow> dget (dset k (E u) r) j | Some u \<Rightarrow> Some (E u))"
      "set x = set x1 \<union> {u \<in> snd ` set q. E u}" by auto
  have "(if E u then bindX (liftX (dindex query k)) (\<lambda>u. setX (\<lambda>s. s\<lparr>us_exists := sadd u (us_exists s)\<rparr>)) else retX ()) s = (Inr (), s\<lparr>us_exists := x1\<rparr>)"
    by (simp add: i bindX_def liftX_def setX_def retX_def x1_def)
  then have "keep_existing query (map (\<lambda>ku. (fst ku, E (snd ku))) (ku # q)) r s = (Inr r', s\<lparr>us_exists := x\<rparr>)"
    using r(1) by (simp add: ku bindX_def)
  moreover have "dget r' j = (case dget (ku # q) j of None \<Rightarrow> dget r j | Some u \<Rightarrow> Some (E u))" for j
  proof (cases "j = k")
    case True
    show ?thesis
    proof (cases "dget q k")
      case (Some v)
      then have "(k, v) \<in> set query" using sub map_of_SomeD by fastforce
      then have "v = u" using \<open>dget query k = Some u\<close> Cons.prems(2) by (simp add: map_of_is_SomeI)
      with Some True r(2) show ?thesis by (simp add: ku)
    qed (use True r(2) in \<open>simp add: ku dget_dset\<close>)
  next
    case False
    with r(2) show ?thesis by (simp add: ku dget_dset split: option.split)
  qed
  moreover have "set x = set (us_exists s) \<union> {u \<in> snd ` set (ku # q). E u}" using r(3) x1 by (auto simp: ku)
  ultimately show ?case by blast
qed

text \<open>For a server that always gives the same answers, the result of \<^verbatim>\<open>unihashes_exist\<close> is what the server says of each unihash, asked
  or remembered, with one client or with a pool; and what is remembered exists, is never forgotten, and contains all that was
  found to exist.\<close>

theorem unihashes_exist_sound:
  assumes one: "\<forall>n u. un_exists c n u = Inr (E u)" and pool: "\<forall>n q. un_exists_pool c n q = Inr (map (\<lambda>ku. (fst ku, E (snd ku))) q)"
    and known: "\<forall>u \<in> set (us_exists s). E u" and keys: "distinct (dkeys query)"
  shows "\<exists>r s'. unihashes_exist c query s = (Inr r, s') \<and> (\<forall>k. dget r k = map_option E (dget query k)) \<and>
    set (us_exists s') = set (us_exists s) \<union> {u \<in> snd ` set query. E u}"
proof (cases "query = []")
  case True
  then show ?thesis by (simp add: unihashes_exist_def retX_def)
next
  case False
  let ?cached = "filter (\<lambda>ku. snd ku \<in> set (us_exists s)) query" and ?q = "filter (\<lambda>ku. snd ku \<notin> set (us_exists s)) query"
  obtain n where ask: "(if un_parallel c \<le> 1 \<or> length ?q \<le> 1 then exist_serially c ?q else ask_server (\<lambda>n. un_exists_pool c n ?q)) s =
      (Inr (map (\<lambda>ku. (fst ku, E (snd ku))) ?q), s\<lparr>us_calls := n\<rparr>)"
  proof (cases "un_parallel c \<le> 1 \<or> length ?q \<le> 1")
    case True
    from that [of "us_calls s + length ?q"] show ?thesis using exist_serially_result [OF one, of ?q s] True by simp
  next
    case False
    from that [of "Suc (us_calls s)"] show ?thesis using pool False by (simp add: ask_server_def)
  qed
  have "set ?q \<subseteq> set query" by auto
  from keep_existing_result [OF this keys, of E "map (\<lambda>ku. (fst ku, True)) ?cached" "s\<lparr>us_calls := n\<rparr>"] obtain r x
    where r: "keep_existing query (map (\<lambda>ku. (fst ku, E (snd ku))) ?q) (map (\<lambda>ku. (fst ku, True)) ?cached) (s\<lparr>us_calls := n\<rparr>) =
        (Inr r, s\<lparr>us_calls := n, us_exists := x\<rparr>)"
      "\<forall>k. dget r k = (case dget ?q k of None \<Rightarrow> dget (map (\<lambda>ku. (fst ku, True)) ?cached) k | Some u \<Rightarrow> Some (E u))"
      "set x = set (us_exists s) \<union> {u \<in> snd ` set ?q. E u}" by auto
  have "unihashes_exist c query s = (Inr r, s\<lparr>us_calls := n, us_exists := x\<rparr>)"
    using ask r(1) False by (simp add: unihashes_exist_def bindX_def getX_def Let_def)
  moreover have "dget r k = map_option E (dget query k)" for k
  proof (cases "dget query k")
    case None
    then have "dget ?q k = None" "dget (map (\<lambda>ku. (fst ku, True)) ?cached) k = None" by (auto simp: map_of_eq_None_iff, force)
    with None r(2) show ?thesis by simp
  next
    case (Some u)
    then have m: "(k, u) \<in> set query" by (rule map_of_SomeD)
    have d: "distinct (map fst ?q)" "distinct (map fst ?cached)" using keys by (simp_all add: distinct_map_filter)
    show ?thesis
    proof (cases "u \<in> set (us_exists s)")
      case True
      have "b = u" if "(k, b) \<in> set query" for b using that m eq_key_imp_eq_value [OF keys] by blast
      then have "dget ?q k = None" using True by (auto simp: map_of_eq_None_iff)
      moreover have "(k, True) \<in> set (map (\<lambda>ku. (fst ku, True)) ?cached)" using m True by force
      then have "dget (map (\<lambda>ku. (fst ku, True)) ?cached) k = Some True" using d(2) by (intro map_of_is_SomeI) (simp_all add: comp_def)
      ultimately show ?thesis using r(2) Some known True by simp
    next
      case False
      then have "dget ?q k = Some u" using m d(1) by (intro map_of_is_SomeI) simp_all
      with r(2) Some show ?thesis by simp
    qed
  qed
  moreover have "set x = set (us_exists s) \<union> {u \<in> snd ` set query. E u}" using r(3) by auto
  ultimately show ?thesis by (intro exI [of _ r] exI [of _ "s\<lparr>us_calls := n, us_exists := x\<rparr>"]) simp
qed

lemma unihashes_exist_sound_witness:
  "\<exists>r s'. unihashes_exist sample_uniconf [(''b'', ''UB''), (''n'', ''UN'')] (sample_unistate\<lparr>us_exists := [''UB'']\<rparr>) = (Inr r, s') \<and>
     dget r ''n'' = Some False"
proof -
  let ?q = "[(''b'', ''UB''), (''n'', ''UN'')]" and ?s = "sample_unistate\<lparr>us_exists := [''UB'']\<rparr>"
  have e: "\<forall>n u. un_exists sample_uniconf n u = Inr (u = ''UB'')"
    "\<forall>n q. un_exists_pool sample_uniconf n q = Inr (map (\<lambda>ku. (fst ku, snd ku = ''UB'')) q)" by (simp_all add: sample_uniconf_def)
  have k: "\<forall>u \<in> set (us_exists ?s). u = ''UB''" "distinct (dkeys ?q)" by simp_all
  from unihashes_exist_sound [where E = "\<lambda>u. u = ''UB''", OF e k] obtain r s'
    where r: "unihashes_exist sample_uniconf ?q ?s = (Inr r, s')" "\<forall>k. dget r k = map_option (\<lambda>u. u = ''UB'') (dget ?q k)" by blast
  have "dget r ''n'' = Some False" using r(2) [rule_format, of "''n''"] by simp
  with r(1) show ?thesis by blast
qed

section \<open>Reports\<close>

text \<open>C31. A report of equivalent unihashes returns True exactly when the server took the new unihash and it is not the current one; then the
  task has it from there on, without a question to the server, if the task can be taken from a cache at all. Otherwise nothing but the
  number of questions changes.\<close>

theorem reported_unihash_used:
  assumes "report_unihash_equiv c tid taskhash new current s = (Inr b, s')"
  shows "(b \<longleftrightarrow> un_report_equiv c (us_calls s) taskhash (get_method c tid s) new = Inr (Some new) \<and> new \<noteq> current) \<and>
    (\<not> b \<longrightarrow> s' = s\<lparr>us_calls := Suc (us_calls s)\<rparr>) \<and>
    (b \<and> new \<noteq> [] \<and> (ss_setscene s = [] \<or> tid \<in> set (ss_setscene s)) \<longrightarrow> (\<exists>x. get_unihash c tid s' = (Inr new, s'\<lparr>ss_unihash := x\<rparr>)))"
proof -
  let ?a = "un_report_equiv c (us_calls s) taskhash (get_method c tid s) new" and ?s = "s\<lparr>us_calls := Suc (us_calls s)\<rparr>"
  have ask: "ask_server (\<lambda>n. un_report_equiv c n taskhash (get_method c tid s) new) s = (?a, ?s)" by (simp add: ask_server_def)
  have cases: "(\<not> b \<and> s' = ?s \<and> (?a \<noteq> Inr (Some new) \<or> new = current)) \<or>
      (b \<and> ?a = Inr (Some new) \<and> new \<noteq> current \<and> set_unihash_of tid new ?s = (Inr (), s'))"
    using assms by (auto simp: report_unihash_equiv_def bindX_def [of "getX _"] getX_def ask bindX_Inr split: sum.splits option.splits if_splits)
  have "\<exists>x. get_unihash c tid s' = (Inr new, s'\<lparr>ss_unihash := x\<rparr>)"
    if b and n: "new \<noteq> []" "ss_setscene s = [] \<or> tid \<in> set (ss_setscene s)"
  proof -
    have set: "set_unihash_of tid new ?s = (Inr (), s')" using cases \<open>b\<close> by blast
    note f = find_after_set [OF set]
    have "uni_known s' tid new" using f(1,5) n by (auto simp: uni_known_def known_unihash_def)
    moreover have "dhas (ss_taskhash s') tid" using f(4) set_unihash_result [OF set] by (auto simp: dhas_iff)
    ultimately have "\<exists>x. get_unihash c tid s' = (Inr new, s'\<lparr>ss_unihash := x\<rparr>)" by (rule get_unihash_known)
    then show ?thesis by blast
  qed
  with cases show ?thesis by blast
qed

lemma reported_unihash_used_witness:
  "\<exists>x. get_unihash sample_uniconf ''b.bb:do_b'' (snd (report_unihash_equiv sample_uniconf ''b.bb:do_b'' ''HB'' ''NEW'' ''UB'' sample_unistate)) =
     (Inr ''NEW'', (snd (report_unihash_equiv sample_uniconf ''b.bb:do_b'' ''HB'' ''NEW'' ''UB'' sample_unistate))\<lparr>ss_unihash := x\<rparr>)"
proof -
  let ?r = "report_unihash_equiv sample_uniconf ''b.bb:do_b'' ''HB'' ''NEW'' ''UB'' sample_unistate"
  have "fst ?r = Inr True" by code_simp
  then have r: "?r = (Inr True, snd ?r)" by (simp add: prod_eq_iff)
  have "ss_setscene sample_unistate = []" by code_simp
  with reported_unihash_used [OF r] show ?thesis by simp
qed

section \<open>Equivalent dependencies\<close>

lemma unihash_texts_of_known:
  "\<forall>d \<in> set ds. uni_known s (snd d) (f (snd d)) \<and> dhas (ss_taskhash s) (snd d) \<Longrightarrow>
    \<exists>x. unihash_texts (get_unihash c) ds s = (Inr (concat (map (\<lambda>d. f (snd d)) ds)), s\<lparr>ss_unihash := x\<rparr>)"
proof (induction ds arbitrary: s)
  case Nil
  have "s = s\<lparr>ss_unihash := ss_unihash s\<rparr>" by simp
  then show ?case by (intro exI [of _ "ss_unihash s"]) (simp add: retX_def)
next
  case (Cons d ds)
  then obtain x where x: "get_unihash c (snd d) s = (Inr (f (snd d)), s\<lparr>ss_unihash := x\<rparr>)" using get_unihash_known by fastforce
  have "\<forall>d \<in> set ds. uni_known (s\<lparr>ss_unihash := x\<rparr>) (snd d) (f (snd d)) \<and> dhas (ss_taskhash (s\<lparr>ss_unihash := x\<rparr>)) (snd d)"
    using Cons.prems by simp
  from Cons.IH [OF this] obtain y
    where y: "unihash_texts (get_unihash c) ds (s\<lparr>ss_unihash := x\<rparr>) = (Inr (concat (map (\<lambda>d. f (snd d)) ds)), s\<lparr>ss_unihash := y\<rparr>)" by auto
  have "unihash_texts (get_unihash c) (d # ds) s = (Inr (concat (map (\<lambda>d. f (snd d)) (d # ds))), s\<lparr>ss_unihash := y\<rparr>)"
    using x y by (simp add: bindX_def retX_def)
  then show ?case by blast
qed

lemma get_taskhash_of_known:
  assumes "dget (ss_basehash s) t = Some b" and "dget (ss_runtaskdeps s) t = Some deps" and "dget (ss_checksums s) t = Some files"
    and "\<forall>d \<in> set deps. uni_known s (snd d) (f (snd d)) \<and> dhas (ss_taskhash s) (snd d)"
  shows "\<exists>s'. get_taskhash c (get_unihash uc) t s =
    (Inr (sc_hash c (b @ concat (map (\<lambda>d. f (snd d)) (sort deps)) @ concat (map checksum_text (sort_key clean_checksum_file_path files)) @
       (case dget (ss_taints s) t of None \<Rightarrow> [] | Some x \<Rightarrow> taint_text x))), s')"
proof -
  have "\<forall>d \<in> set (sort deps). uni_known s (snd d) (f (snd d)) \<and> dhas (ss_taskhash s) (snd d)" using assms(4) by simp
  from unihash_texts_of_known [OF this, of uc] obtain x
    where u: "unihash_texts (get_unihash uc) (sort deps) s = (Inr (concat (map (\<lambda>d. f (snd d)) (sort deps))), s\<lparr>ss_unihash := x\<rparr>)" by blast
  have i: "dindex (ss_basehash s) t = Inr b" "dindex (ss_runtaskdeps s) t = Inr deps" "dindex (ss_checksums s) t = Inr files"
    using assms(1-3) by (simp_all add: dindex_eq_Inr)
  show ?thesis by (simp add: get_taskhash_def bindX_def getX_def setX_def liftX_def retX_def i u Let_def)
qed

text \<open>C30. What hash equivalence is for: the hash of a task depends on its dependencies only through their unihashes. In two states that agree
  on the base hash, the dependencies, the checksums and the taint of a task, and in which its dependencies have the same known unihashes, whatever
  their hashes are, the task gets the same hash.\<close>

theorem equivalent_dependencies:
  assumes "dhas (ss_basehash s) t" and "dhas (ss_runtaskdeps s) t" and "dhas (ss_checksums s) t"
    and "dget (ss_basehash s') t = dget (ss_basehash s) t" and "dget (ss_runtaskdeps s') t = dget (ss_runtaskdeps s) t"
    and "dget (ss_checksums s') t = dget (ss_checksums s) t" and "dget (ss_taints s') t = dget (ss_taints s) t"
    and "\<forall>d \<in> set (dget_default (ss_runtaskdeps s) t []). dhas (ss_taskhash s) (snd d) \<and> dhas (ss_taskhash s') (snd d) \<and>
           (\<exists>u. uni_known s (snd d) u \<and> uni_known s' (snd d) u)"
  shows "\<exists>h s1 s1'. get_taskhash c (get_unihash uc) t s = (Inr h, s1) \<and> get_taskhash c (get_unihash uc) t s' = (Inr h, s1')"
proof -
  obtain b deps files where d: "dget (ss_basehash s) t = Some b" "dget (ss_runtaskdeps s) t = Some deps" "dget (ss_checksums s) t = Some files"
    using assms(1-3) by (auto simp: dhas_iff)
  have d': "dget (ss_basehash s') t = Some b" "dget (ss_runtaskdeps s') t = Some deps" "dget (ss_checksums s') t = Some files"
    using d assms(4-6) by simp_all
  have "\<forall>d \<in> set deps. dhas (ss_taskhash s) (snd d) \<and> dhas (ss_taskhash s') (snd d) \<and> (\<exists>u. uni_known s (snd d) u \<and> uni_known s' (snd d) u)"
    using assms(8) d(2) by (simp add: dget_default_def)
  then obtain f where f: "\<forall>d \<in> set deps. dhas (ss_taskhash s) (snd d) \<and> dhas (ss_taskhash s') (snd d) \<and>
      uni_known s (snd d) (f (snd d)) \<and> uni_known s' (snd d) (f (snd d))"
    using that [of "\<lambda>x. SOME u. uni_known s x u \<and> uni_known s' x u"] someI_ex by (metis (mono_tags, lifting))
  from get_taskhash_of_known [OF d, of f c uc] get_taskhash_of_known [OF d', of f c uc] f show ?thesis
    unfolding assms(7) by auto
qed

definition other_unistate :: unistate where
  "other_unistate = sample_unistate\<lparr>ss_taskhash := [(''b.bb:do_b'', ''HX'')], ss_unitaskhashes := [('':b:do_b'', ''HX'', ''UB'')],
     ss_basehash := [(''a.bb:do_a'', ''A'')], ss_runtaskdeps := [(''a.bb:do_a'', [(''b:do_b'', ''b.bb:do_b'')])], ss_checksums := [(''a.bb:do_a'', [])]\<rparr>"

definition one_unistate :: unistate where
  "one_unistate = other_unistate\<lparr>ss_taskhash := [(''b.bb:do_b'', ''HB'')], ss_unitaskhashes := [('':b:do_b'', ''HB'', ''UB'')]\<rparr>"

lemma equivalent_dependencies_witness:
  "\<exists>h s1 s1'. get_taskhash sample_sigconf (get_unihash sample_uniconf) ''a.bb:do_a'' one_unistate = (Inr h, s1) \<and>
     get_taskhash sample_sigconf (get_unihash sample_uniconf) ''a.bb:do_a'' other_unistate = (Inr h, s1')"
proof (rule equivalent_dependencies)
  have "uni_known one_unistate ''b.bb:do_b'' ''UB''" "uni_known other_unistate ''b.bb:do_b'' ''UB''" by code_simp+
  moreover have "dhas (ss_taskhash one_unistate) ''b.bb:do_b''" "dhas (ss_taskhash other_unistate) ''b.bb:do_b''" by code_simp+
  moreover have "dget_default (ss_runtaskdeps one_unistate) ''a.bb:do_a'' [] = [(''b:do_b'', ''b.bb:do_b'')]" by code_simp
  ultimately show "\<forall>d \<in> set (dget_default (ss_runtaskdeps one_unistate) ''a.bb:do_a'' []). dhas (ss_taskhash one_unistate) (snd d) \<and>
      dhas (ss_taskhash other_unistate) (snd d) \<and> (\<exists>u. uni_known one_unistate (snd d) u \<and> uni_known other_unistate (snd d) u)" by auto
qed code_simp+

end
