(* ===== verification/Spec2Isabelle.thy ===== *)
theory Spec2Isabelle
  imports Deps Resolution ExecRun DataCache DataLaws Assignments Continuation IncludeLoop SigRun UniLaws
begin

text \<open>
  \<^bold>\<open>BitBake.\<close> The repository is a Yocto distribution; the program that builds it is BitBake, the Python code under
  \<^verbatim>\<open>src/yocto/poky/bitbake/lib/bb\<close>. This development models the part of it that decides: what a variable reads as,
  what a recipe file means, which recipe provides a name, which hash a task has, which tasks have to run, in which order, and
  when a build is done. The part that
  acts on files, processes and the network is a parameter.

  \<^bold>\<open>How the parts interact.\<close> Recipes are read line by line into statements (\<^verbatim>\<open>BBHandler.py\<close>, \<^verbatim>\<open>ConfHandler.py\<close>),
  which are evaluated (\<^verbatim>\<open>ast.py\<close>) on a store of variables (\<^verbatim>\<open>data_smart.py\<close>), together with the files they
  include and the classes they inherit. The base hash of a task is the hash of all the variables it needs (\<^verbatim>\<open>data.py\<close>). What is
  needed of a recipe is kept in a record, and all records in indexes (\<^verbatim>\<open>cache.py\<close>); versions and dependency strings are parsed
  on the way (\<^verbatim>\<open>utils.py\<close>). A name to build is resolved to a recipe by priorities, preferences and versions
  (\<^verbatim>\<open>providers.py\<close>), and with all its dependencies by \<^verbatim>\<open>taskdata.py\<close>, which also lets targets fail.
  From there \<^verbatim>\<open>runqueue.py\<close> makes the graph of tasks, prunes it to what is asked for, weighs it, hashes it with the
  signature generator (\<^verbatim>\<open>siggen.py\<close>), and executes it: tasks whose results can come from a shared state first, then the others, chosen by a scheduler.

  \<^bold>\<open>Conventions.\<close> A dictionary is an association list in the order of insertion (\<^verbatim>\<open>odict\<close>), a Python set that is
  iterated a list without duplicates; where the order of a set matters, it is the order of insertion. An exception is a
  value of \<^verbatim>\<open>pyexc\<close>: \<^verbatim>\<open>'a result\<close> is an exception or a value, and \<^verbatim>\<open>('s, 'a) sx\<close> a computation on a
  state that keeps the state it had when the exception was raised, as Python does. Integers are unbounded, as in
  Python. Log messages are left out unless something else depends on them.
\<close>

text \<open>
  \<^bold>\<open>Theories.\<close>

  \<^item> \<^verbatim>\<open>Prelude\<close>, \<^verbatim>\<open>Strings\<close>: exceptions, results, computations, dictionaries, ordered sets, stable sorting, and the
    methods of Python strings; the interface of a dictionary is a locale, interpreted on association lists.

  \<^item> \<^verbatim>\<open>Expansion\<close>, \<^verbatim>\<open>DataSmart\<close>, \<^verbatim>\<open>DataOps\<close> (\<^verbatim>\<open>data_smart.py\<close>): values and the regular expressions; the
    record \<open>datasmart\<close> with its layers, cache and overrides, expansion, overrides and \<open>getVarFlag\<close>; every operation that
    changes the store. \<^verbatim>\<open>DataSim\<close> states as the locales \<open>store_view\<close> and \<open>full_view\<close> what a relation
    between two stores must give for all lookups to agree on them. \<^verbatim>\<open>DataCache\<close> interprets it on a cached store
    against lookups without a cache (the cache is transparent), \<^verbatim>\<open>DataLayers\<close> on a store before and after a lookup
    (reading changes no variable) and on stores with the same variables in different layers (copies behave as one
    dictionary, until a renamed variable is reported; every store begins with a table of those). \<^verbatim>\<open>DataLaws\<close>: what is
    set is read; appends and prepends; the last override wins; three errors of the code.

  \<^item> \<^verbatim>\<open>ConfLine\<close> (\<^verbatim>\<open>ConfHandler.py\<close>): the regular expressions of a configuration line, with the round trip of a printed
    assignment. \<^verbatim>\<open>RecipeLines\<close> (\<^verbatim>\<open>ConfHandler.py\<close>, \<^verbatim>\<open>BBHandler.py\<close>): from lines to statements, with the state of
    the reader of recipes. \<^verbatim>\<open>Statements\<close> (\<^verbatim>\<open>ast.py\<close>, \<^verbatim>\<open>build.py\<close>): the type \<open>node\<close> of statements, their
    evaluation, and the list of tasks with \<open>addtask\<close> and \<open>deltask\<close>. \<^verbatim>\<open>ParseFile\<close>: files, include,
    require, inherit, and the handlers. \<^verbatim>\<open>Assignments\<close> and \<^verbatim>\<open>TaskStatements\<close> refine specifications: eight operators
    on texts, and operations on a plan of tasks; \<^verbatim>\<open>Continuation\<close> has broken lines, \<^verbatim>\<open>IncludeLoop\<close> files that include
    one another in a circle.

  \<^item> \<^verbatim>\<open>DepHash\<close> (\<^verbatim>\<open>data.py\<close>): the variables each variable needs and the base hashes; \<^verbatim>\<open>HashLaws\<close>: the base hash is the hash of
    the transitive closure, and depends on nothing else.

  \<^item> \<^verbatim>\<open>SigGen\<close> (\<^verbatim>\<open>siggen.py\<close>): the state of a generator, the preparation and the hash of a task, stamps, and what is dumped;
    \<^verbatim>\<open>SigLaws\<close>: the hash computed from a dump is the hash of the task. \<^verbatim>\<open>SigRun\<close> puts the generator in the place of the
    parameter of the run queue and shows what all hashes of a run are. \<^verbatim>\<open>UniHash\<close>, \<^verbatim>\<open>UniLaws\<close>: hash equivalence.

  \<^item> \<^verbatim>\<open>Deps\<close>, \<^verbatim>\<open>Versions\<close>, \<^verbatim>\<open>BBUtils\<close> (\<^verbatim>\<open>utils.py\<close>, \<^verbatim>\<open>parse/__init__.py\<close>): dependency strings and their round
    trips; version strings, with \<open>vercmp\<close> as a lexicographic order (a locale of three-way comparisons); small helpers.

  \<^item> \<^verbatim>\<open>RecipeCache\<close> (\<^verbatim>\<open>cache.py\<close>): the record of a recipe and the indexes, with the consistency of the indexes.

  \<^item> \<^verbatim>\<open>Providers\<close> (\<^verbatim>\<open>providers.py\<close>): every function, with what each of them chooses, and when it raises.

  \<^item> \<^verbatim>\<open>TaskData\<close>, \<^verbatim>\<open>TaskFailure\<close>, \<^verbatim>\<open>Resolution\<close> (\<^verbatim>\<open>taskdata.py\<close>): the resolution of names; what a failure removes; a
    resolution in which the order of the providers decides about failure.

  \<^item> \<^verbatim>\<open>TaskIds\<close>, \<^verbatim>\<open>Scheduler\<close>, \<^verbatim>\<open>TaskGraph\<close>, \<^verbatim>\<open>Weights\<close> (\<^verbatim>\<open>runqueue.py\<close>): identifiers and counters; the three
    schedulers and the interface of a priority map; the graph and the locales of waves over it; weights and loops.

  \<^item> \<^verbatim>\<open>PrepareDeps\<close>, \<^verbatim>\<open>PrepareActive\<close>, \<^verbatim>\<open>PrepareCheck\<close>: \<open>RunQueueData.prepare\<close> step by step, with its
    fixpoints, the set of active tasks as reachability, and the order of the hashes.

  \<^item> \<^verbatim>\<open>ExecState\<close>, \<^verbatim>\<open>SceneQueue\<close>, \<^verbatim>\<open>SceneBuild\<close>, \<^verbatim>\<open>Completion\<close>, \<^verbatim>\<open>Migrations\<close>, \<^verbatim>\<open>Execute\<close>: the state of
    \<open>RunQueueExecute\<close>, the queue of setscene tasks, the ends of tasks, new hashes, and one call of \<open>execute\<close>.
    \<^verbatim>\<open>ExecSafety\<close> has the invariant, the tasks under way, and the steps that are silent for ordinary tasks, \<^verbatim>\<open>ExecRun\<close> the step relation of a run:
    calls of \<open>execute\<close> and reports of the workers in any order.
\<close>

text \<open>
  \<^bold>\<open>Recursion and loops.\<close> Loops over lists and worklists are total functions with a measure (the searches for loops
  in the graph, the weights, the marking of tasks, the removal of setscene tasks, the resolution of overrides). Loops
  whose end depends on the data are partial functions in the option type, and a theorem says when they end: \<open>cumul_loop\<close>,
  \<open>runall_loop\<close> and \<open>add_unresolved\<close> always, \<open>hash_loop\<close> exactly on acyclic graphs. Functions of the code that call
  themselves through other functions (\<open>fail_fn\<close>, \<open>check_stamp_task\<close>, \<open>process_endpoints\<close>,
  \<open>scenequeue_updatecounters\<close>, \<open>getVarFlag\<close>, \<open>renameVar\<close>, and with \<open>pe_depth\<close> the handlers of files that include
  others) take the depth of recursion the interpreter allows as a
  number and raise \<open>RecursionError\<close> below it, which is what Python does; \<open>fail_fn_complete\<close> shows that a depth above the
  number of files is enough there, and a lookup that succeeds gives the same value at every larger depth. The expansion of a
  text repeats until nothing changes; \<open>de_rounds\<close> bounds the repetitions there and the rounds
  over the dependencies of variables, and more of them are \<open>OutOfModel\<close>, an
  exception that no theorem about results covers. The searches of the run queue that are total here (\<open>mark_active\<close>, the
  weights, the loops of the graph) are not bounded by the recursion that the interpreter allows.

  \<^bold>\<open>Parameters.\<close> The signature generator (where the run queue is studied alone; \<^verbatim>\<open>SigRun\<close> instantiates it), stamp files, hooks of the metadata, the measurement of pressure, the workers
  (\<^verbatim>\<open>runqueue.py\<close>), the evaluation of Python code and what the code parser finds in it and in shell code
  (\<^verbatim>\<open>data_smart.py\<close>, \<^verbatim>\<open>data.py\<close>), the files of the file system and the hooks in \<^verbatim>\<open>confFilters\<close> (\<^verbatim>\<open>parse\<close>), the hash function, the checksums and taints
  of files and the answers of the hash equivalence server (\<^verbatim>\<open>siggen.py\<close>), the
  configuration as a lookup of expanded variables (\<^verbatim>\<open>providers.py\<close>). Theorems hold for every such parameter unless a
  hypothesis says otherwise.

  \<^bold>\<open>Not modelled.\<close> Fetchers, the server and its clients, user interfaces and the web application, the execution
  of a task's text, packaging: they act on processes, sockets, databases and files, and decide little. Vendored libraries
  (\<^verbatim>\<open>ply\<close>, \<^verbatim>\<open>bs4\<close>, \<^verbatim>\<open>progressbar\<close>, \<^verbatim>\<open>pyinotify\<close>) and self tests. The history of variables, which is
  off unless a user asks for it. Of the parser the finalisation of recipes with their variants; of the
  signature generator the comparison of dumped files.
\<close>

end
